(* ===== verification/Prelude.thy ===== *)
theory Prelude
  imports Main "HOL-Library.Word" "HOL-Library.Code_Target_Nat"
begin

text \<open>
  What the components share: the machine integer types of the C code, pointers as 64-bit words,
  facts on unsigned arithmetic, on lists updated by index and on searching a list, and the
  collections of simplification rules the component theories fill.
\<close>

unbundle bit_operations_syntax

section \<open>Machine integers and pointers\<close>

type_synonym u8 = "8 word"
type_synonym u32 = "32 word"
type_synonym u64 = "64 word"
type_synonym ptr = "64 word"

abbreviation NULL :: ptr where
  "NULL \<equiv> 0"

abbreviation UINT_MAX :: nat where
  "UINT_MAX \<equiv> 4294967295"

section \<open>Unsigned arithmetic without wrap-around\<close>

lemma unat_add_less:
  fixes a b :: "'a::len word"
  assumes "unat a + unat b < 2 ^ LENGTH('a)"
  shows "unat (a + b) = unat a + unat b"
  using assms by (simp add: unat_word_ariths)

lemma unat_Suc_less:
  fixes a :: "'a::len word"
  assumes "Suc (unat a) < 2 ^ LENGTH('a)"
  shows "unat (a + 1) = Suc (unat a)"
  using unat_add_less [of a 1] assms by simp

lemma unat_minus_one_pos:
  fixes a :: "'a::len word"
  assumes "a \<noteq> 0"
  shows "unat (a - 1) = unat a - 1"
  using assms by (simp add: unat_minus_one)

lemma unat_of_nat_less:
  "n < 2 ^ LENGTH('a) \<Longrightarrow> unat (of_nat n :: 'a::len word) = n"
  by (simp add: unat_of_nat take_bit_nat_eq_self)

lemma sint_small: "n < 2 ^ 31 \<Longrightarrow> sint (of_nat n :: u32) = int n"
  by transfer (simp add: signed_take_bit_int_eq_self)

section \<open>Lists\<close>

lemma length_filter_update:
  assumes "i < length xs"
  shows "length (filter P (xs[i := x])) + (if P (xs ! i) then 1 else 0)
       = length (filter P xs) + (if P x then 1 else 0)"
proof -
  obtain ys y zs where xs: "xs = ys @ y # zs" and i: "length ys = i"
    using assms by (metis id_take_nth_drop length_take min.absorb4)
  show ?thesis unfolding xs using i by auto
qed

lemma filter_pos_ex: "0 < length (filter P xs) \<longleftrightarrow> (\<exists>i < length xs. P (xs ! i))"
  by (metis filter_empty_conv in_set_conv_nth length_greater_0_conv)

lemma length_filter_less: "(\<exists>i < length xs. \<not> P (xs ! i)) \<longleftrightarrow> length (filter P xs) < length xs"
  by (metis filter_id_conv in_set_conv_nth length_filter_less length_filter_le less_irrefl
      order_less_le)

end
