(* ===== verification/Probing.thy ===== *)
theory Probing
  imports Prelude
begin

text \<open>
  Double hashing on a table of \<^term>\<open>s\<close> slots: the addresses \<open>a, a + d, a + 2d, ... mod s\<close> that
  the probe loops of src/src/util/hash_table.c visit.  When every step smaller than \<^term>\<open>s\<close> is
  coprime to \<^term>\<open>s\<close> (that is, \<^term>\<open>s\<close> is prime) the sequence visits each slot exactly once
  before it is back at its start.  That the sizes of the code's table are of this kind is proved by
  Lucas certificates: a residue of order \<open>s - 1\<close> gives \<open>s - 1\<close> distinct units.
\<close>

section \<open>Numbers all of whose smaller residues are units\<close>

definition all_coprime :: "nat \<Rightarrow> bool" where
  "all_coprime n \<longleftrightarrow> 2 \<le> n \<and> (\<forall>d. 0 < d \<and> d < n \<longrightarrow> coprime d n)"

fun powmod :: "nat \<Rightarrow> nat \<Rightarrow> nat \<Rightarrow> nat" where
  "powmod n a e =
     (if e = 0 then 1 mod n
      else let h = powmod n (a * a mod n) (e div 2)
           in if even e then h else a * h mod n)"

declare powmod.simps [simp del]

lemma powmod_eq: "powmod n a e = a ^ e mod n"
proof (induction n a e rule: powmod.induct)
  case (1 n a e)
  show ?case
  proof (cases "e = 0")
    case True
    then show ?thesis by (simp add: powmod.simps [of n a 0])
  next
    case False
    let ?h = "powmod n (a * a mod n) (e div 2)"
    have h: "?h = (a * a) ^ (e div 2) mod n"
      using "1.IH" [OF False] by (simp add: power_mod)
    have sq: "(a * a) ^ (e div 2) = a ^ (2 * (e div 2))"
      by (simp add: power_mult power2_eq_square)
    show ?thesis
    proof (cases "even e")
      case True
      with False h sq show ?thesis by (simp add: powmod.simps [of n a e])
    next
      case odd: False
      then have "a ^ e = a * a ^ (2 * (e div 2))"
        by (metis odd_two_times_div_two_succ power_Suc add.commute plus_1_eq_Suc)
      with False odd h sq show ?thesis
        by (simp add: powmod.simps [of n a e] mod_mult_right_eq)
    qed
  qed
qed

lemma all_coprime_dvd_or:
  assumes "all_coprime q" shows "q dvd d \<or> coprime q d"
proof (cases "d mod q = 0")
  case True
  then show ?thesis by auto
next
  case False
  moreover have "d mod q < q" using assms by (simp add: all_coprime_def)
  ultimately have "coprime (d mod q) q" using assms by (simp add: all_coprime_def)
  then show ?thesis by (metis coprime_commute coprime_mod_left_iff assms all_coprime_def
      not_numeral_le_zero)
qed

lemma dvd_prod_list: "(q::nat) \<in> set qs \<Longrightarrow> q dvd prod_list qs"
  by (induction qs) auto

lemma proper_divisor_prod_list:
  assumes "\<forall>q \<in> set qs. all_coprime q" "d dvd prod_list qs" "d \<noteq> prod_list qs"
  shows "\<exists>q \<in> set qs. d dvd prod_list qs div q"
  using assms
proof (induction qs arbitrary: d)
  case Nil
  then show ?case by simp
next
  case (Cons q qs)
  have q: "all_coprime q" "q \<noteq> 0" using Cons.prems(1) by (auto simp: all_coprime_def)
  from all_coprime_dvd_or [OF q(1)] show ?case
  proof
    assume "q dvd d"
    then obtain d' where d: "d = q * d'" by blast
    with Cons.prems q have "d' dvd prod_list qs" "d' \<noteq> prod_list qs" by auto
    with Cons.IH Cons.prems(1) obtain p where p: "p \<in> set qs" "d' dvd prod_list qs div p"
      by auto
    have "p dvd prod_list qs" using p(1) by (rule dvd_prod_list)
    then have "q * (prod_list qs div p) = q * prod_list qs div p"
      by (simp add: div_mult_swap)
    with p d show ?case by (metis list.set_intros(2) mult_dvd_mono dvd_refl prod_list.Cons)
  next
    assume "coprime q d"
    then have "d dvd prod_list qs"
      using Cons.prems(2) by (simp add: coprime_commute coprime_dvd_mult_right_iff)
    then show ?case using q by (intro bexI [of _ q]) auto
  qed
qed


lemma power_mod_one_order:
  fixes a n :: nat
  assumes n: "2 \<le> n" and k: "0 < k" "a ^ k mod n = 1" and m: "a ^ m mod n = 1"
  shows "\<exists>d. 0 < d \<and> d \<le> k \<and> d dvd m \<and> a ^ d mod n = 1"
proof -
  define d where "d = (LEAST d. 0 < d \<and> a ^ d mod n = 1)"
  have d: "0 < d \<and> a ^ d mod n = 1"
    unfolding d_def using LeastI [of "\<lambda>d. 0 < d \<and> a ^ d mod n = 1" k] k by blast
  have least: "0 < e \<Longrightarrow> a ^ e mod n = 1 \<Longrightarrow> d \<le> e" for e
    unfolding d_def by (rule Least_le) simp
  have "a ^ m = (a ^ d) ^ (m div d) * a ^ (m mod d)"
    by (metis power_mult power_add mult_div_mod_eq)
  then have "a ^ m mod n = ((a ^ d) ^ (m div d) mod n) * (a ^ (m mod d)) mod n"
    by (simp add: mod_mult_left_eq)
  also have "(a ^ d) ^ (m div d) mod n = (a ^ d mod n) ^ (m div d) mod n"
    by (simp add: power_mod)
  also have "\<dots> = 1" using d n by simp
  finally have "a ^ (m mod d) mod n = 1" using m by simp
  moreover have "m mod d < d" using d by simp
  ultimately have "m mod d = 0" using least by (metis gr0I not_less)
  then have "d dvd m" by auto
  with d least k show ?thesis by blast
qed

lemma power_mod_one_coprime:
  fixes a n :: nat
  assumes "a ^ m mod n = 1" "0 < m"
  shows "coprime a n"
proof (rule coprimeI)
  fix c assume c: "c dvd a" "c dvd n"
  then have "c dvd a ^ m" using assms(2) by (meson dvd_power dvd_trans)
  with c have "c dvd a ^ m mod n" by (simp add: dvd_mod)
  with assms(1) show "is_unit c" by simp
qed

lemma power_mod_cancel:
  fixes a n :: nat
  assumes "coprime a n" "2 \<le> n" "i < j" "a ^ i mod n = a ^ j mod n"
  shows "a ^ (j - i) mod n = 1"
proof -
  have j: "a ^ j = a ^ i * a ^ (j - i)" using assms(3) by (simp flip: power_add)
  have "int (a ^ i) mod int n = int (a ^ j) mod int n"
    using assms(4) by (metis zmod_int)
  then have "int n dvd int (a ^ j) - int (a ^ i)"
    by (metis mod_eq_dvd_iff)
  then have "int n dvd int (a ^ i) * (int (a ^ (j - i)) - 1)"
    by (simp add: j algebra_simps)
  moreover have "coprime (int n) (int (a ^ i))"
    using assms(1) by (simp add: coprime_commute)
  ultimately have "int n dvd int (a ^ (j - i)) - 1"
    using coprime_dvd_mult_right_iff by blast
  then have "int (a ^ (j - i)) mod int n = 1 mod int n"
    by (simp add: mod_eq_dvd_iff)
  then have "a ^ (j - i) mod n = 1 mod n"
    by (metis of_nat_1 of_nat_eq_iff zmod_int)
  then show ?thesis using assms(2) by simp
qed

lemma lucas_all_coprime:
  assumes n: "2 \<le> n" and m: "prod_list qs = n - 1"
    and qs: "\<forall>q \<in> set qs. all_coprime q"
    and one: "powmod n a (n - 1) = 1"
    and gen: "\<forall>q \<in> set qs. powmod n a ((n - 1) div q) \<noteq> 1"
  shows "all_coprime n"
proof -
  let ?m = "n - 1" and ?f = "\<lambda>i. a ^ i mod n"
  have am: "a ^ ?m mod n = 1" using one by (simp add: powmod_eq)
  have cop: "coprime a n" using power_mod_one_coprime [OF am] n by simp
  have no: "a ^ k mod n \<noteq> 1" if k: "0 < k" "k < ?m" for k
  proof
    assume "a ^ k mod n = 1"
    from power_mod_one_order [OF n k(1) this am] obtain d
      where d: "0 < d" "d \<le> k" "d dvd ?m" "a ^ d mod n = 1" by blast
    with k have "d \<noteq> prod_list qs" using m by simp
    with proper_divisor_prod_list [OF qs] d(3) m obtain q
      where q: "q \<in> set qs" "d dvd ?m div q" by auto
    then obtain c where "?m div q = d * c" by blast
    then have "a ^ (?m div q) mod n = (a ^ d mod n) ^ c mod n"
      by (simp add: power_mult power_mod)
    then have "a ^ (?m div q) mod n = 1" using d(4) n by simp
    with gen q(1) show False by (simp add: powmod_eq)
  qed
  have inj: "inj_on ?f {..<?m}"
  proof (rule linorder_inj_onI)
    fix i j assume ij: "i < j" "i \<in> {..<?m}" "j \<in> {..<?m}"
    then have "a ^ (j - i) mod n \<noteq> 1" by (intro no) auto
    with ij show "?f i \<noteq> ?f j"
      using power_mod_cancel [OF cop n ij(1)] by blast
  qed auto
  have unit: "coprime (?f i) n" for i
    using cop n coprime_mod_left_iff [of n "a ^ i"] by simp
  have sub: "?f ` {..<?m} \<subseteq> {1..<n}"
  proof
    fix x assume "x \<in> ?f ` {..<?m}"
    then obtain i where x: "x = ?f i" by blast
    have "x \<noteq> 0" 
      using unit [of i] n x by (metis coprime_0_left_iff nat_dvd_1_iff_1 numeral_eq_one_iff
        le_refl less_one linorder_not_le one_less_numeral_iff semiring_norm(76) dvd_refl)
    with x n show "x \<in> {1..<n}" by simp
  qed
  have "card (?f ` {..<?m}) = ?m" using inj by (simp add: card_image)
  then have img: "?f ` {..<?m} = {1..<n}"
    using sub by (simp add: card_subset_eq)
  show ?thesis unfolding all_coprime_def
  proof (intro conjI allI impI n)
    fix d assume "0 < d \<and> d < n"
    then have "d \<in> ?f ` {..<?m}" unfolding img by simp
    then show "coprime d n" using unit by blast
  qed
qed

section \<open>Certificates for the table sizes\<close>

lemma all_coprime_2: "all_coprime 2"
  by (auto simp: all_coprime_def less_2_cases_iff)

lemma all_coprime_3: "all_coprime 3"
  by (rule lucas_all_coprime [of 3 "[2]" 2])
    (simp_all add: powmod.simps all_coprime_2)

lemma all_coprime_5: "all_coprime 5"
  by (rule lucas_all_coprime [of 5 "[2, 2]" 2])
    (simp_all add: powmod.simps all_coprime_2)

lemma all_coprime_7: "all_coprime 7"
  by (rule lucas_all_coprime [of 7 "[2, 3]" 3])
    (simp_all add: powmod.simps all_coprime_2 all_coprime_3)

lemma all_coprime_11: "all_coprime 11"
  by (rule lucas_all_coprime [of 11 "[2, 5]" 2])
    (simp_all add: powmod.simps all_coprime_2 all_coprime_5)

lemma all_coprime_13: "all_coprime 13"
  by (rule lucas_all_coprime [of 13 "[2, 2, 3]" 2])
    (simp_all add: powmod.simps all_coprime_2 all_coprime_3)

lemma all_coprime_17: "all_coprime 17"
  by (rule lucas_all_coprime [of 17 "[2, 2, 2, 2]" 3])
    (simp_all add: powmod.simps all_coprime_2)

lemma all_coprime_19: "all_coprime 19"
  by (rule lucas_all_coprime [of 19 "[2, 3, 3]" 2])
    (simp_all add: powmod.simps all_coprime_2 all_coprime_3)

lemma all_coprime_23: "all_coprime 23"
  by (rule lucas_all_coprime [of 23 "[2, 11]" 5])
    (simp_all add: powmod.simps all_coprime_2 all_coprime_11)

lemma all_coprime_29: "all_coprime 29"
  by (rule lucas_all_coprime [of 29 "[2, 2, 7]" 2])
    (simp_all add: powmod.simps all_coprime_2 all_coprime_7)

lemma all_coprime_31: "all_coprime 31"
  by (rule lucas_all_coprime [of 31 "[2, 3, 5]" 3])
    (simp_all add: powmod.simps all_coprime_2 all_coprime_3 all_coprime_5)

lemma all_coprime_37: "all_coprime 37"
  by (rule lucas_all_coprime [of 37 "[2, 2, 3, 3]" 2])
    (simp_all add: powmod.simps all_coprime_2 all_coprime_3)

lemma all_coprime_43: "all_coprime 43"
  by (rule lucas_all_coprime [of 43 "[2, 3, 7]" 3])
    (simp_all add: powmod.simps all_coprime_2 all_coprime_3 all_coprime_7)

lemma all_coprime_47: "all_coprime 47"
  by (rule lucas_all_coprime [of 47 "[2, 23]" 5])
    (simp_all add: powmod.simps all_coprime_2 all_coprime_23)

lemma all_coprime_59: "all_coprime 59"
  by (rule lucas_all_coprime [of 59 "[2, 29]" 2])
    (simp_all add: powmod.simps all_coprime_2 all_coprime_29)

lemma all_coprime_73: "all_coprime 73"
  by (rule lucas_all_coprime [of 73 "[2, 2, 2, 3, 3]" 5])
    (simp_all add: powmod.simps all_coprime_2 all_coprime_3)

lemma all_coprime_89: "all_coprime 89"
  by (rule lucas_all_coprime [of 89 "[2, 2, 2, 11]" 3])
    (simp_all add: powmod.simps all_coprime_2 all_coprime_11)

lemma all_coprime_97: "all_coprime 97"
  by (rule lucas_all_coprime [of 97 "[2, 2, 2, 2, 2, 3]" 5])
    (simp_all add: powmod.simps all_coprime_2 all_coprime_3)

lemma all_coprime_151: "all_coprime 151"
  by (rule lucas_all_coprime [of 151 "[2, 3, 5, 5]" 6])
    (simp_all add: powmod.simps all_coprime_2 all_coprime_3 all_coprime_5)

lemma all_coprime_251: "all_coprime 251"
  by (rule lucas_all_coprime [of 251 "[2, 5, 5, 5]" 6])
    (simp_all add: powmod.simps all_coprime_2 all_coprime_5)

lemma all_coprime_283: "all_coprime 283"
  by (rule lucas_all_coprime [of 283 "[2, 3, 47]" 3])
    (simp_all add: powmod.simps all_coprime_2 all_coprime_3 all_coprime_47)

lemma all_coprime_547: "all_coprime 547"
  by (rule lucas_all_coprime [of 547 "[2, 3, 7, 13]" 2])
    (simp_all add: powmod.simps all_coprime_2 all_coprime_3 all_coprime_7 all_coprime_13)

lemma all_coprime_571: "all_coprime 571"
  by (rule lucas_all_coprime [of 571 "[2, 3, 5, 19]" 3])
    (simp_all add: powmod.simps all_coprime_2 all_coprime_3 all_coprime_5 all_coprime_19)

lemma all_coprime_593: "all_coprime 593"
  by (rule lucas_all_coprime [of 593 "[2, 2, 2, 2, 37]" 3])
    (simp_all add: powmod.simps all_coprime_2 all_coprime_37)

lemma all_coprime_751: "all_coprime 751"
  by (rule lucas_all_coprime [of 751 "[2, 3, 5, 5, 5]" 3])
    (simp_all add: powmod.simps all_coprime_2 all_coprime_3 all_coprime_5)

lemma all_coprime_1153: "all_coprime 1153"
  by (rule lucas_all_coprime [of 1153 "[2, 2, 2, 2, 2, 2, 2, 3, 3]" 5])
    (simp_all add: powmod.simps all_coprime_2 all_coprime_3)

lemma all_coprime_1187: "all_coprime 1187"
  by (rule lucas_all_coprime [of 1187 "[2, 593]" 2])
    (simp_all add: powmod.simps all_coprime_2 all_coprime_593)

lemma all_coprime_2269: "all_coprime 2269"
  by (rule lucas_all_coprime [of 2269 "[2, 2, 3, 3, 3, 3, 7]" 2])
    (simp_all add: powmod.simps all_coprime_2 all_coprime_3 all_coprime_7)

lemma all_coprime_4519: "all_coprime 4519"
  by (rule lucas_all_coprime [of 4519 "[2, 3, 3, 251]" 3])
    (simp_all add: powmod.simps all_coprime_2 all_coprime_3 all_coprime_251)

lemma all_coprime_9013: "all_coprime 9013"
  by (rule lucas_all_coprime [of 9013 "[2, 2, 3, 751]" 5])
    (simp_all add: powmod.simps all_coprime_2 all_coprime_3 all_coprime_751)

lemma all_coprime_18043: "all_coprime 18043"
  by (rule lucas_all_coprime [of 18043 "[2, 3, 31, 97]" 2])
    (simp_all add: powmod.simps all_coprime_2 all_coprime_3 all_coprime_31 all_coprime_97)

lemma all_coprime_36109: "all_coprime 36109"
  by (rule lucas_all_coprime [of 36109 "[2, 2, 3, 3, 17, 59]" 2])
    (simp_all add: powmod.simps all_coprime_2 all_coprime_3 all_coprime_17 all_coprime_59)

lemma all_coprime_64081: "all_coprime 64081"
  by (rule lucas_all_coprime [of 64081 "[2, 2, 2, 2, 3, 3, 5, 89]" 11])
    (simp_all add: powmod.simps all_coprime_2 all_coprime_3 all_coprime_5 all_coprime_89)

lemma all_coprime_72091: "all_coprime 72091"
  by (rule lucas_all_coprime [of 72091 "[2, 3, 3, 3, 3, 5, 89]" 2])
    (simp_all add: powmod.simps all_coprime_2 all_coprime_3 all_coprime_5 all_coprime_89)

lemma all_coprime_144409: "all_coprime 144409"
  by (rule lucas_all_coprime [of 144409 "[2, 2, 2, 3, 11, 547]" 13])
    (simp_all add: powmod.simps all_coprime_2 all_coprime_3 all_coprime_11 all_coprime_547)

lemma all_coprime_288361: "all_coprime 288361"
  by (rule lucas_all_coprime [of 288361 "[2, 2, 2, 3, 3, 3, 3, 5, 89]" 7])
    (simp_all add: powmod.simps all_coprime_2 all_coprime_3 all_coprime_5 all_coprime_89)

lemma all_coprime_576883: "all_coprime 576883"
  by (rule lucas_all_coprime [of 576883 "[2, 3, 3, 3, 3, 3, 1187]" 2])
    (simp_all add: powmod.simps all_coprime_2 all_coprime_3 all_coprime_1187)

lemma all_coprime_1153459: "all_coprime 1153459"
  by (rule lucas_all_coprime [of 1153459 "[2, 3, 3, 64081]" 3])
    (simp_all add: powmod.simps all_coprime_2 all_coprime_3 all_coprime_64081)


section \<open>The probe sequence\<close>

definition probe :: "nat \<Rightarrow> nat \<Rightarrow> nat \<Rightarrow> nat \<Rightarrow> nat" where
  "probe s d a j = (a + j * d) mod s"

lemma probe_Suc: "(probe s d a j + d) mod s = probe s d a (Suc j)"
  by (simp add: probe_def mod_simps algebra_simps)

lemma probe_0: "a < s \<Longrightarrow> probe s d a 0 = a"
  by (simp add: probe_def)

lemma probe_wrap: "a < s \<Longrightarrow> probe s d a s = a"
  by (simp add: probe_def)

lemma probe_less: "0 < s \<Longrightarrow> probe s d a j < s"
  by (simp add: probe_def)

lemma probe_eq_imp_dvd:
  assumes "probe s d a i = probe s d a j" "i \<le> j"
  shows "s dvd (j - i) * d"
proof -
  have "(a + i * d) mod s = (a + j * d) mod s"
    using assms(1) by (simp add: probe_def)
  then have "s dvd (a + j * d) - (a + i * d)"
    using assms(2) by (metis mod_eq_dvd_iff_nat add_left_mono mult_le_mono1)
  then show ?thesis by (simp add: diff_mult_distrib)
qed

lemma probe_inj:
  assumes s: "all_coprime s" and d: "0 < d" "d < s"
    and ij: "i < s" "j < s" "probe s d a i = probe s d a j"
  shows "i = j"
proof -
  have le: "i' = j'" if "i' \<le> j'" "j' < s" "probe s d a i' = probe s d a j'" for i' j'
  proof -
    have "s dvd (j' - i') * d" using probe_eq_imp_dvd that by blast
    moreover have "coprime s d" using s d by (simp add: all_coprime_def coprime_commute)
    ultimately have "s dvd j' - i'" by (simp add: coprime_dvd_mult_left_iff)
    moreover have "j' - i' < s" using that by simp
    ultimately have "j' - i' = 0" by (metis dvd_imp_le gr0I not_less)
    with that(1) show ?thesis by simp
  qed
  show ?thesis
    using le [of i j] le [of j i] ij by (cases "i \<le> j") auto
qed

lemma probe_surj:
  assumes "all_coprime s" "0 < d" "d < s" "x < s"
  shows "\<exists>j < s. probe s d a j = x"
proof -
  have "inj_on (probe s d a) {..<s}"
    using probe_inj [OF assms(1-3)] by (auto intro: inj_onI)
  then have "card (probe s d a ` {..<s}) = card {..<s}" by (rule card_image)
  moreover have "probe s d a ` {..<s} \<subseteq> {..<s}"
    using assms(4) by (auto simp: probe_def)
  ultimately have "probe s d a ` {..<s} = {..<s}"
    by (simp add: card_subset_eq)
  with assms(4) have "x \<in> probe s d a ` {..<s}" by simp
  then show ?thesis by auto
qed

lemma probe_not_start:
  assumes "all_coprime s" "0 < d" "d < s" "a < s" "0 < j" "j < s"
  shows "probe s d a j \<noteq> a"
  using probe_inj [of s d 0 j a] assms probe_0 [of a s d] by auto

end
