(* ===== verification/HashTable.thy ===== *)
theory HashTable
  imports Probing
begin

text \<open>
  The open-addressing hash table of src/src/util/hash_table.c with its iterators and the wrapper for
  64-bit keys.  A pointer into the table is the index of the entry; a probe loop of the code that
  need not end on an arbitrary state is a \<^theory_text>\<open>partial_function (option)\<close> whose \<^term>\<open>None\<close>
  means that the loop runs forever; that it does end on well-formed tables is proved.
\<close>

section \<open>State\<close>

record hash_entry =
  he_hash :: u32
  he_key :: ptr
  he_data :: ptr

record hash_table =
  ht_table :: "hash_entry list"
  ht_key_hash_function :: "(ptr \<Rightarrow> u32) option"
  ht_key_equals_function :: "ptr \<Rightarrow> ptr \<Rightarrow> bool"
  ht_deleted_key :: ptr
  ht_size :: u32
  ht_rehash :: u32
  ht_max_entries :: u32
  ht_size_index :: u32
  ht_entries :: u32
  ht_deleted_entries :: u32

definition hash_sizes :: "(u32 \<times> u32 \<times> u32) list" where
  "hash_sizes =
    [(2, 5, 3),
     (4, 7, 5),
     (8, 13, 11),
     (16, 19, 17),
     (32, 43, 41),
     (64, 73, 71),
     (128, 151, 149),
     (256, 283, 281),
     (512, 571, 569),
     (1024, 1153, 1151),
     (2048, 2269, 2267),
     (4096, 4519, 4517),
     (8192, 9013, 9011),
     (16384, 18043, 18041),
     (32768, 36109, 36107),
     (65536, 72091, 72089),
     (131072, 144409, 144407),
     (262144, 288361, 288359),
     (524288, 576883, 576881),
     (1048576, 1153459, 1153457),
     (2097152, 2307163, 2307161),
     (4194304, 4613893, 4613891),
     (8388608, 9227641, 9227639),
     (16777216, 18455029, 18455027),
     (33554432, 36911011, 36911009),
     (67108864, 73819861, 73819859),
     (134217728, 147639589, 147639587),
     (268435456, 295279081, 295279079),
     (536870912, 590559793, 590559791),
     (1073741824, 1181116273, 1181116271),
     (2147483648, 2362232233, 2362232231)]"

definition size_entry :: "u32 \<Rightarrow> u32 \<times> u32 \<times> u32" where
  "size_entry i = hash_sizes ! unat i"

definition zero_entry :: hash_entry where
  "zero_entry = \<lparr>he_hash = 0, he_key = NULL, he_data = NULL\<rparr>"

text \<open>\<open>rzalloc_array\<close>: zeroed entries, or \<^term>\<open>None\<close> when the allocator has no memory for that many.  An
  allocator is given for each call of an operation, which allocates at most one array of a size.\<close>

definition rzalloc_entries :: "(u32 \<Rightarrow> bool) \<Rightarrow> u32 \<Rightarrow> hash_entry list option" where
  "rzalloc_entries alloc n = (if alloc n then Some (replicate (unat n) zero_entry) else None)"

section \<open>Entries\<close>

definition entry_is_free :: "hash_entry \<Rightarrow> bool" where
  "entry_is_free e \<longleftrightarrow> he_key e = NULL"

definition entry_is_deleted :: "hash_table \<Rightarrow> hash_entry \<Rightarrow> bool" where
  "entry_is_deleted ht e \<longleftrightarrow> he_key e = ht_deleted_key ht"

definition entry_is_present :: "hash_table \<Rightarrow> hash_entry \<Rightarrow> bool" where
  "entry_is_present ht e \<longleftrightarrow> he_key e \<noteq> NULL \<and> he_key e \<noteq> ht_deleted_key ht"

section \<open>Creation and clearing\<close>

text \<open>\<open>deleted_addr\<close> is the address of the static \<open>deleted_key_value\<close>, the default tombstone key.\<close>

definition mesa_hash_table_create ::
  "(u32 \<Rightarrow> bool) \<Rightarrow> ptr \<Rightarrow> (ptr \<Rightarrow> u32) option \<Rightarrow> (ptr \<Rightarrow> ptr \<Rightarrow> bool) \<Rightarrow> hash_table option" where
  "mesa_hash_table_create alloc deleted_addr hashf eqf =
    (let (m, s, r) = size_entry 0
     in case rzalloc_entries alloc s of
          None \<Rightarrow> None
        | Some t \<Rightarrow> Some
            \<lparr>ht_table = t, ht_key_hash_function = hashf, ht_key_equals_function = eqf,
             ht_deleted_key = deleted_addr, ht_size = s, ht_rehash = r, ht_max_entries = m,
             ht_size_index = 0, ht_entries = 0, ht_deleted_entries = 0\<rparr>)"

definition mesa_hash_table_clone :: "(u32 \<Rightarrow> bool) \<Rightarrow> hash_table \<Rightarrow> hash_table option" where
  "mesa_hash_table_clone alloc src =
    (if alloc (ht_size src)
     then Some (src\<lparr>ht_table := take (unat (ht_size src)) (ht_table src)\<rparr>) else None)"

text \<open>The delete callback is given by the list of the entries it is called on, in order.\<close>

fun clear_entries :: "hash_table \<Rightarrow> hash_entry list \<Rightarrow> hash_entry list \<times> hash_entry list" where
  "clear_entries ht [] = ([], [])"
| "clear_entries ht (e # es) =
    (let (es', calls) = clear_entries ht es
     in if he_key e = NULL then (e # es', calls)
        else (e\<lparr>he_key := NULL\<rparr> # es',
              if he_key e \<noteq> ht_deleted_key ht then e # calls else calls))"

definition mesa_hash_table_clear :: "hash_table \<Rightarrow> hash_table \<times> hash_entry list" where
  "mesa_hash_table_clear ht =
    (let (t, calls) = clear_entries ht (ht_table ht)
     in (ht\<lparr>ht_table := t, ht_entries := 0, ht_deleted_entries := 0\<rparr>, calls))"

definition mesa_hash_table_set_deleted_key :: "hash_table \<Rightarrow> ptr \<Rightarrow> hash_table" where
  "mesa_hash_table_set_deleted_key ht k = ht\<lparr>ht_deleted_key := k\<rparr>"

section \<open>Search\<close>

partial_function (option) search_loop ::
  "hash_table \<Rightarrow> u32 \<Rightarrow> ptr \<Rightarrow> u32 \<Rightarrow> u32 \<Rightarrow> nat option option" where
  "search_loop ht hash key start addr =
    (let e = ht_table ht ! unat addr
     in if entry_is_free e then Some None
        else if entry_is_present ht e \<and> he_hash e = hash \<and> ht_key_equals_function ht key (he_key e)
        then Some (Some (unat addr))
        else let double_hash = 1 + hash mod ht_rehash ht;
                 addr' = (addr + double_hash) mod ht_size ht
             in if addr' \<noteq> start then search_loop ht hash key start addr' else Some None)"

definition hash_table_search :: "hash_table \<Rightarrow> u32 \<Rightarrow> ptr \<Rightarrow> nat option option" where
  "hash_table_search ht hash key =
    (let start = hash mod ht_size ht in search_loop ht hash key start start)"

text \<open>The public entry point asserts that the table has a hash function.\<close>

definition mesa_hash_table_search :: "hash_table \<Rightarrow> ptr \<Rightarrow> nat option option" where
  "mesa_hash_table_search ht key =
    (case ht_key_hash_function ht of
       None \<Rightarrow> None
     | Some f \<Rightarrow> hash_table_search ht (f key) key)"

definition mesa_hash_table_search_pre_hashed ::
  "hash_table \<Rightarrow> u32 \<Rightarrow> ptr \<Rightarrow> nat option option" where
  "mesa_hash_table_search_pre_hashed ht hash key = hash_table_search ht hash key"

section \<open>Iteration\<close>

text \<open>The first present entry at or after address \<open>i\<close>.\<close>

function next_present :: "hash_table \<Rightarrow> nat \<Rightarrow> nat option" where
  "next_present ht i =
    (if i < unat (ht_size ht)
     then if entry_is_present ht (ht_table ht ! i) then Some i else next_present ht (Suc i)
     else None)"
  by pat_completeness auto
termination
  by (relation "measure (\<lambda>(ht, i). unat (ht_size ht) - i)") auto

declare next_present.simps [simp del]

definition mesa_hash_table_next_entry :: "hash_table \<Rightarrow> nat option \<Rightarrow> nat option" where
  "mesa_hash_table_next_entry ht entry =
    next_present ht (case entry of None \<Rightarrow> 0 | Some i \<Rightarrow> Suc i)"

lemma next_present_ge: "next_present ht i = Some j \<Longrightarrow> i \<le> j \<and> j < unat (ht_size ht)"
proof (induction ht i rule: next_present.induct)
  case (1 ht i)
  then show ?case
    by (cases "i < unat (ht_size ht)")
       (auto simp: next_present.simps [of ht i] split: if_splits)
qed

text \<open>\<open>hash_table_foreach\<close>: the entries the loop visits, for a body that leaves the table alone.\<close>

function hash_table_foreach :: "hash_table \<Rightarrow> nat option \<Rightarrow> nat list" where
  "hash_table_foreach ht entry =
    (case mesa_hash_table_next_entry ht entry of
       None \<Rightarrow> []
     | Some i \<Rightarrow> i # hash_table_foreach ht (Some i))"
  by pat_completeness auto
termination
  by (relation "measure (\<lambda>(ht, e). case e of None \<Rightarrow> Suc (unat (ht_size ht))
                                  | Some i \<Rightarrow> unat (ht_size ht) - i)")
     (auto simp: mesa_hash_table_next_entry_def split: option.splits dest!: next_present_ge)

declare hash_table_foreach.simps [simp del]

text \<open>The calls \<open>_mesa_hash_table_destroy\<close> makes of its delete callback before it frees the table.\<close>

definition mesa_hash_table_destroy :: "hash_table \<Rightarrow> hash_entry list" where
  "mesa_hash_table_destroy ht = map (nth (ht_table ht)) (hash_table_foreach ht None)"

text \<open>\<open>r\<close> is the value \<open>rand()\<close> returned; \<^term>\<open>None\<close> for the predicate stands for \<open>NULL\<close>.\<close>

definition mesa_hash_table_random_entry ::
  "nat \<Rightarrow> hash_table \<Rightarrow> (hash_entry \<Rightarrow> bool) option \<Rightarrow> nat option" where
  "mesa_hash_table_random_entry r ht predicate =
    (let i = r mod unat (ht_size ht);
         ok = (\<lambda>j. entry_is_present ht (ht_table ht ! j)
                  \<and> (case predicate of None \<Rightarrow> True | Some p \<Rightarrow> p (ht_table ht ! j)))
     in if ht_entries ht = 0 then None
        else case find ok [i ..< unat (ht_size ht)] of
               Some j \<Rightarrow> Some j
             | None \<Rightarrow> find ok [0 ..< i])"

section \<open>Insertion, rehashing and removal\<close>

text \<open>
  The probe loop of \<open>hash_table_insert\<close>: \<^term>\<open>Inl a\<close> when a matching entry is to be replaced,
  \<^term>\<open>Inr v\<close> with the first available slot otherwise.
\<close>

partial_function (option) insert_loop ::
  "hash_table \<Rightarrow> u32 \<Rightarrow> ptr \<Rightarrow> u32 \<Rightarrow> u32 \<Rightarrow> nat option \<Rightarrow> (nat + nat option) option" where
  "insert_loop ht hash key start addr available =
    (let e = ht_table ht ! unat addr;
         available' = (if \<not> entry_is_present ht e \<and> available = None
                       then Some (unat addr) else available)
     in if \<not> entry_is_present ht e \<and> entry_is_free e then Some (Inr available')
        else if \<not> entry_is_deleted ht e \<and> he_hash e = hash
                \<and> ht_key_equals_function ht key (he_key e)
        then Some (Inl (unat addr))
        else let double_hash = 1 + hash mod ht_rehash ht;
                 addr' = (addr + double_hash) mod ht_size ht
             in if addr' \<noteq> start then insert_loop ht hash key start addr' available'
                else Some (Inr available'))"

definition insert_at_slot :: "hash_table \<Rightarrow> u32 \<Rightarrow> ptr \<Rightarrow> ptr \<Rightarrow> (hash_table \<times> nat option) option"
  where
  "insert_at_slot ht hash key data =
    (let start = hash mod ht_size ht
     in case insert_loop ht hash key start start None of
          None \<Rightarrow> None
        | Some (Inl i) \<Rightarrow>
            Some (ht\<lparr>ht_table := (ht_table ht)
                     [i := (ht_table ht ! i)\<lparr>he_key := key, he_data := data\<rparr>]\<rparr>, Some i)
        | Some (Inr (Some i)) \<Rightarrow>
            Some (ht\<lparr>ht_table := (ht_table ht)
                     [i := \<lparr>he_hash = hash, he_key = key, he_data = data\<rparr>],
                     ht_deleted_entries :=
                       (if entry_is_deleted ht (ht_table ht ! i)
                        then ht_deleted_entries ht - 1 else ht_deleted_entries ht),
                     ht_entries := ht_entries ht + 1\<rparr>, Some i)
        | Some (Inr None) \<Rightarrow> Some (ht, None))"

text \<open>
  \<open>_mesa_hash_table_rehash\<close> re-inserts every present entry of the old table with
  \<open>hash_table_insert\<close>, which may itself rehash; \<open>ins\<close> is that insertion.
\<close>

fun reinsert_entries ::
  "(hash_table \<Rightarrow> u32 \<Rightarrow> ptr \<Rightarrow> ptr \<Rightarrow> (hash_table \<times> nat option) option)
    \<Rightarrow> hash_table \<Rightarrow> hash_entry list \<Rightarrow> hash_table option" where
  "reinsert_entries ins ht [] = Some ht"
| "reinsert_entries ins ht (e # es) =
    (case ins ht (he_hash e) (he_key e) (he_data e) of
       None \<Rightarrow> None
     | Some (ht', _) \<Rightarrow> reinsert_entries ins ht' es)"

definition rehash_table ::
  "(hash_table \<Rightarrow> u32 \<Rightarrow> ptr \<Rightarrow> ptr \<Rightarrow> (hash_table \<times> nat option) option)
    \<Rightarrow> (u32 \<Rightarrow> bool) \<Rightarrow> hash_table \<Rightarrow> u32 \<Rightarrow> hash_table option" where
  "rehash_table ins alloc ht new_size_index =
    (if length hash_sizes \<le> unat new_size_index then Some ht
     else let (m, s, r) = size_entry new_size_index
          in case rzalloc_entries alloc s of
               None \<Rightarrow> Some ht
             | Some t \<Rightarrow>
                 reinsert_entries ins
                   (ht\<lparr>ht_table := t, ht_size_index := new_size_index, ht_size := s,
                      ht_rehash := r, ht_max_entries := m, ht_entries := 0,
                      ht_deleted_entries := 0\<rparr>)
                   (map (nth (ht_table ht)) (hash_table_foreach ht None)))"

text \<open>The first argument bounds the nesting of rehashes; running out of it is \<^term>\<open>None\<close>.\<close>

fun hash_table_insert ::
  "nat \<Rightarrow> (u32 \<Rightarrow> bool) \<Rightarrow> hash_table \<Rightarrow> u32 \<Rightarrow> ptr \<Rightarrow> ptr \<Rightarrow> (hash_table \<times> nat option) option"
  where
  "hash_table_insert 0 alloc ht hash key data = None"
| "hash_table_insert (Suc n) alloc ht hash key data =
    (case (if ht_max_entries ht \<le> ht_entries ht
           then rehash_table (hash_table_insert n alloc) alloc ht (ht_size_index ht + 1)
           else if ht_max_entries ht \<le> ht_deleted_entries ht + ht_entries ht
           then rehash_table (hash_table_insert n alloc) alloc ht (ht_size_index ht)
           else Some ht) of
       None \<Rightarrow> None
     | Some ht' \<Rightarrow> insert_at_slot ht' hash key data)"

definition mesa_hash_table_rehash ::
  "nat \<Rightarrow> (u32 \<Rightarrow> bool) \<Rightarrow> hash_table \<Rightarrow> u32 \<Rightarrow> hash_table option" where
  "mesa_hash_table_rehash n alloc = rehash_table (hash_table_insert n alloc) alloc"

text \<open>A nesting of three is enough, whatever the allocator does (\<open>insert_correct\<close> of HashTableMap).\<close>

definition mesa_hash_table_insert_pre_hashed ::
  "(u32 \<Rightarrow> bool) \<Rightarrow> hash_table \<Rightarrow> u32 \<Rightarrow> ptr \<Rightarrow> ptr \<Rightarrow> (hash_table \<times> nat option) option" where
  "mesa_hash_table_insert_pre_hashed alloc ht hash key data =
    hash_table_insert 3 alloc ht hash key data"

definition mesa_hash_table_insert ::
  "(u32 \<Rightarrow> bool) \<Rightarrow> hash_table \<Rightarrow> ptr \<Rightarrow> ptr \<Rightarrow> (hash_table \<times> nat option) option" where
  "mesa_hash_table_insert alloc ht key data =
    (case ht_key_hash_function ht of
       None \<Rightarrow> None
     | Some f \<Rightarrow> hash_table_insert 3 alloc ht (f key) key data)"

definition mesa_hash_table_remove :: "hash_table \<Rightarrow> nat option \<Rightarrow> hash_table" where
  "mesa_hash_table_remove ht entry =
    (case entry of
       None \<Rightarrow> ht
     | Some i \<Rightarrow> ht\<lparr>ht_table := (ht_table ht)[i := (ht_table ht ! i)\<lparr>he_key := ht_deleted_key ht\<rparr>],
                    ht_entries := ht_entries ht - 1,
                    ht_deleted_entries := ht_deleted_entries ht + 1\<rparr>)"

section \<open>Hash and key functions\<close>

definition mesa_fnv32_1a_offset_bias :: u32 where
  "mesa_fnv32_1a_offset_bias = 2166136261"

fun mesa_fnv32_1a_accumulate_block :: "u32 \<Rightarrow> u8 list \<Rightarrow> u32" where
  "mesa_fnv32_1a_accumulate_block hash [] = hash"
| "mesa_fnv32_1a_accumulate_block hash (b # bs) =
    mesa_fnv32_1a_accumulate_block ((hash XOR ucast b) * 0x01000193) bs"

definition mesa_hash_data :: "u8 list \<Rightarrow> u32" where
  "mesa_hash_data bytes = mesa_fnv32_1a_accumulate_block mesa_fnv32_1a_offset_bias bytes"

text \<open>A C string is the list of its bytes before the terminating zero.\<close>

fun hash_string_loop :: "u32 \<Rightarrow> u8 list \<Rightarrow> u32" where
  "hash_string_loop hash [] = hash"
| "hash_string_loop hash (c # cs) =
    hash_string_loop (mesa_fnv32_1a_accumulate_block hash [c]) cs"

definition mesa_hash_string :: "u8 list \<Rightarrow> u32" where
  "mesa_hash_string key = hash_string_loop mesa_fnv32_1a_offset_bias key"

definition mesa_key_string_equal :: "u8 list \<Rightarrow> u8 list \<Rightarrow> bool" where
  "mesa_key_string_equal a b \<longleftrightarrow> a = b"

definition mesa_hash_pointer :: "ptr \<Rightarrow> u32" where
  "mesa_hash_pointer p =
    ucast (drop_bit 2 p XOR drop_bit 6 p XOR drop_bit 10 p XOR drop_bit 14 p)"

definition mesa_key_pointer_equal :: "ptr \<Rightarrow> ptr \<Rightarrow> bool" where
  "mesa_key_pointer_equal a b \<longleftrightarrow> a = b"

section \<open>The wrapper for 64-bit keys, on a host with 64-bit pointers\<close>

record hash_table_u64 =
  u64_table :: hash_table
  u64_deleted_key_data :: ptr

definition DELETED_KEY_VALUE :: u64 where
  "DELETED_KEY_VALUE = 1"

text \<open>\<^term>\<open>None\<close> is a table that cannot be used: the wrapper could not be allocated, or its table could not, for
  which the code returns a wrapper around \<open>NULL\<close>.\<close>

definition mesa_hash_table_u64_create :: "(u32 \<Rightarrow> bool) \<Rightarrow> ptr \<Rightarrow> hash_table_u64 option" where
  "mesa_hash_table_u64_create alloc deleted_addr =
    (case mesa_hash_table_create alloc deleted_addr (Some mesa_hash_pointer)
            mesa_key_pointer_equal of
       None \<Rightarrow> None
     | Some t \<Rightarrow> Some \<lparr>u64_table = mesa_hash_table_set_deleted_key t DELETED_KEY_VALUE,
                      u64_deleted_key_data = NULL\<rparr>)"

definition mesa_hash_table_u64_insert ::
  "(u32 \<Rightarrow> bool) \<Rightarrow> hash_table_u64 \<Rightarrow> u64 \<Rightarrow> ptr \<Rightarrow> hash_table_u64 option" where
  "mesa_hash_table_u64_insert alloc ht key data =
    (if key = DELETED_KEY_VALUE then Some (ht\<lparr>u64_deleted_key_data := data\<rparr>)
     else case mesa_hash_table_insert alloc (u64_table ht) key data of
            None \<Rightarrow> None
          | Some (t, _) \<Rightarrow> Some (ht\<lparr>u64_table := t\<rparr>))"

definition hash_table_u64_search :: "hash_table_u64 \<Rightarrow> u64 \<Rightarrow> nat option option" where
  "hash_table_u64_search ht key = mesa_hash_table_search (u64_table ht) key"

definition mesa_hash_table_u64_search :: "hash_table_u64 \<Rightarrow> u64 \<Rightarrow> ptr option" where
  "mesa_hash_table_u64_search ht key =
    (if key = DELETED_KEY_VALUE then Some (u64_deleted_key_data ht)
     else case hash_table_u64_search ht key of
            None \<Rightarrow> None
          | Some None \<Rightarrow> Some NULL
          | Some (Some i) \<Rightarrow> Some (he_data (ht_table (u64_table ht) ! i)))"

definition mesa_hash_table_u64_remove :: "hash_table_u64 \<Rightarrow> u64 \<Rightarrow> hash_table_u64 option" where
  "mesa_hash_table_u64_remove ht key =
    (if key = DELETED_KEY_VALUE then Some (ht\<lparr>u64_deleted_key_data := NULL\<rparr>)
     else case hash_table_u64_search ht key of
            None \<Rightarrow> None
          | Some None \<Rightarrow> Some ht
          | Some (Some i) \<Rightarrow>
              Some (ht\<lparr>u64_table := mesa_hash_table_remove (u64_table ht) (Some i)\<rparr>))"

text \<open>The entries \<open>_mesa_hash_table_u64_destroy\<close> passes to its delete callback.\<close>

definition mesa_hash_table_u64_destroy :: "hash_table_u64 \<Rightarrow> hash_entry list" where
  "mesa_hash_table_u64_destroy ht =
    (if u64_deleted_key_data ht \<noteq> NULL
     then [\<lparr>he_hash = (case ht_key_hash_function (u64_table ht) of
                        None \<Rightarrow> 0 | Some f \<Rightarrow> f (ht_deleted_key (u64_table ht))),
            he_key = ht_deleted_key (u64_table ht),
            he_data = u64_deleted_key_data ht\<rparr>]
     else []) @ mesa_hash_table_destroy (u64_table ht)"

section \<open>Well-formed tables\<close>

lemma hash_sizes_facts:
  "\<forall>i \<in> set [0..<20]. case hash_sizes ! i of (m, s, r) \<Rightarrow>
     all_coprime (unat s) \<and> unat r + 2 = unat s \<and> 0 < unat r \<and> 0 < unat m \<and> unat m < unat s
     \<and> unat s < 2 ^ 21"
  by (simp add: hash_sizes_def upt_rec all_coprime_5 all_coprime_7 all_coprime_13 all_coprime_19
      all_coprime_43 all_coprime_73 all_coprime_151 all_coprime_283 all_coprime_571
      all_coprime_1153 all_coprime_2269 all_coprime_4519 all_coprime_9013 all_coprime_18043
      all_coprime_36109 all_coprime_72091 all_coprime_144409 all_coprime_288361
      all_coprime_576883 all_coprime_1153459)

lemma hash_sizes_grow:
  "\<forall>i \<in> set [0..<20]. unat (fst (hash_sizes ! i)) < unat (fst (hash_sizes ! Suc i))"
  by (simp add: hash_sizes_def upt_rec)

definition ht_size_ok :: "hash_table \<Rightarrow> bool" where
  "ht_size_ok ht \<longleftrightarrow> unat (ht_size_index ht) < 20 \<and>
     size_entry (ht_size_index ht) = (ht_max_entries ht, ht_size ht, ht_rehash ht)"

lemma ht_size_okD:
  assumes "ht_size_ok ht"
  shows "all_coprime (unat (ht_size ht))" "0 < unat (ht_rehash ht)" "unat (ht_rehash ht) + 2 = unat (ht_size ht)"
    "0 < unat (ht_max_entries ht)" "unat (ht_max_entries ht) < unat (ht_size ht)"
    "unat (ht_size ht) < 2 ^ 21"
  using hash_sizes_facts assms
  by (auto simp: ht_size_ok_def size_entry_def split: prod.splits)

text \<open>The address the probe loops visit in step \<open>j\<close> for a hash.\<close>

definition ht_addr :: "hash_table \<Rightarrow> u32 \<Rightarrow> nat \<Rightarrow> nat" where
  "ht_addr ht hash j =
    probe (unat (ht_size ht)) (Suc (unat hash mod unat (ht_rehash ht)))
      (unat hash mod unat (ht_size ht)) j"

lemma ht_addr_cong:
  "ht_size ht' = ht_size ht \<Longrightarrow> ht_rehash ht' = ht_rehash ht \<Longrightarrow> ht_addr ht' = ht_addr ht"
  by (simp add: ht_addr_def fun_eq_iff)

lemma ht_step_bounds:
  assumes "ht_size_ok ht"
  shows "Suc (unat (hash :: u32) mod unat (ht_rehash ht)) < unat (ht_size ht)"
    "unat hash mod unat (ht_size ht) < unat (ht_size ht)"
proof -
  have "unat hash mod unat (ht_rehash ht) < unat (ht_rehash ht)"
    using ht_size_okD(2) [OF assms] by simp
  then show "Suc (unat hash mod unat (ht_rehash ht)) < unat (ht_size ht)"
    "unat hash mod unat (ht_size ht) < unat (ht_size ht)"
    using ht_size_okD(3,5) [OF assms] by auto
qed

lemma ht_addr_less: "ht_size_ok ht \<Longrightarrow> ht_addr ht hash j < unat (ht_size ht)"
  using ht_step_bounds [of ht hash] by (simp add: ht_addr_def probe_def)

lemma ht_addr_0: "ht_size_ok ht \<Longrightarrow> ht_addr ht hash 0 = unat hash mod unat (ht_size ht)"
  using ht_step_bounds [of ht hash] by (simp add: ht_addr_def probe_0)

lemma ht_addr_surj:
  assumes "ht_size_ok ht" "a < unat (ht_size ht)"
  shows "\<exists>j < unat (ht_size ht). ht_addr ht hash j = a"
  unfolding ht_addr_def
  using ht_step_bounds [OF assms(1), of hash] assms(2)
  by (intro probe_surj ht_size_okD(1) [OF assms(1)]) auto

lemma ht_addr_word:
  assumes "ht_size_ok ht"
  shows "unat (of_nat (ht_addr ht hash j) :: u32) = ht_addr ht hash j"
  using ht_addr_less [OF assms, of hash j] ht_size_okD(6) [OF assms]
  by (intro unat_of_nat_less) simp

lemma ht_start_word:
  assumes "ht_size_ok ht"
  shows "hash mod ht_size ht = of_nat (ht_addr ht hash 0)"
  by (subst word_unat_eq_iff, subst ht_addr_word [OF assms])
     (simp add: ht_addr_0 [OF assms] unat_mod_distrib)

lemma ht_next_word:
  assumes ok: "ht_size_ok ht"
  shows "((of_nat (ht_addr ht hash j) :: u32) + (1 + hash mod ht_rehash ht)) mod ht_size ht
    = of_nat (ht_addr ht hash (Suc j))"
proof (rule word_unat_eq_iff [THEN iffD2])
  let ?w = "of_nat (ht_addr ht hash j) :: u32" and ?d = "Suc (unat hash mod unat (ht_rehash ht))"
  note b = ht_step_bounds [OF ok, of hash] ht_size_okD(6) [OF ok] ht_addr_less [OF ok, of hash j]
  have d: "unat (1 + hash mod ht_rehash ht) = ?d"
    using b by (subst add.commute, subst unat_Suc_less) (simp_all add: unat_mod_distrib)
  have sum: "unat (?w + (1 + hash mod ht_rehash ht)) = ht_addr ht hash j + ?d"
    using b by (subst unat_add_less) (simp_all only: d ht_addr_word [OF ok], simp)
  show "unat ((?w + (1 + hash mod ht_rehash ht)) mod ht_size ht)
      = unat (of_nat (ht_addr ht hash (Suc j)) :: u32)"
    unfolding unat_mod_distrib sum ht_addr_word [OF ok] by (unfold ht_addr_def, rule probe_Suc)
qed

lemma ht_next_start:
  assumes ok: "ht_size_ok ht" and j: "j < unat (ht_size ht)"
  shows "(of_nat (ht_addr ht hash (Suc j)) :: u32) = of_nat (ht_addr ht hash 0)
    \<longleftrightarrow> Suc j = unat (ht_size ht)"
proof -
  note b = ht_step_bounds [OF ok, of hash]
  have "(of_nat (ht_addr ht hash (Suc j)) :: u32) = of_nat (ht_addr ht hash 0)
      \<longleftrightarrow> ht_addr ht hash (Suc j) = ht_addr ht hash 0"
    by (metis ht_addr_word [OF ok])
  also have "\<dots> \<longleftrightarrow> Suc j = unat (ht_size ht)"
    using probe_not_start [OF ht_size_okD(1) [OF ok] _ b(1) b(2), of "Suc j"] probe_wrap [OF b(2)]
      ht_addr_0 [OF ok, of hash] j
    by (cases "Suc j = unat (ht_size ht)") (auto simp: ht_addr_def)
  finally show ?thesis .
qed

section \<open>The probe loops\<close>

definition ht_match :: "hash_table \<Rightarrow> u32 \<Rightarrow> ptr \<Rightarrow> nat \<Rightarrow> bool" where
  "ht_match ht hash key a \<longleftrightarrow> entry_is_present ht (ht_table ht ! a)
     \<and> he_hash (ht_table ht ! a) = hash \<and> ht_key_equals_function ht key (he_key (ht_table ht ! a))"

text \<open>No match and no free slot in the steps from \<open>j\<close> up to \<open>n\<close>.\<close>

definition ht_passed :: "hash_table \<Rightarrow> u32 \<Rightarrow> ptr \<Rightarrow> nat \<Rightarrow> nat \<Rightarrow> bool" where
  "ht_passed ht hash key j n \<longleftrightarrow>
     (\<forall>i. j \<le> i \<and> i < n \<longrightarrow> \<not> ht_match ht hash key (ht_addr ht hash i)
        \<and> \<not> entry_is_free (ht_table ht ! ht_addr ht hash i))"

text \<open>Where a probe that found no match stopped.\<close>

definition ht_stopped :: "hash_table \<Rightarrow> u32 \<Rightarrow> ptr \<Rightarrow> nat \<Rightarrow> nat \<Rightarrow> bool" where
  "ht_stopped ht hash key j n \<longleftrightarrow> ht_passed ht hash key j n \<and>
     (n = unat (ht_size ht)
      \<or> n < unat (ht_size ht) \<and> entry_is_free (ht_table ht ! ht_addr ht hash n))"

lemma ht_passed_refl [simp]: "ht_passed ht hash key j j"
  by (auto simp: ht_passed_def)

lemma ht_passed_Suc:
  assumes "ht_passed ht hash key (Suc j) n" "\<not> ht_match ht hash key (ht_addr ht hash j)"
    "\<not> entry_is_free (ht_table ht ! ht_addr ht hash j)"
  shows "ht_passed ht hash key j n"
  using assms unfolding ht_passed_def by (metis Suc_leI le_neq_implies_less)

lemma search_loop_result:
  assumes ok: "ht_size_ok ht" and j: "j < unat (ht_size ht)"
  shows "\<exists>r. search_loop ht hash key (of_nat (ht_addr ht hash 0)) (of_nat (ht_addr ht hash j))
      = Some r \<and>
    (case r of
       Some a \<Rightarrow> \<exists>i. j \<le> i \<and> i < unat (ht_size ht) \<and> a = ht_addr ht hash i \<and> ht_match ht hash key a
     | None \<Rightarrow> \<exists>n. j \<le> n \<and> ht_stopped ht hash key j n)"
  using j
proof (induction "unat (ht_size ht) - j" arbitrary: j rule: less_induct)
  case less
  let ?a = "ht_addr ht hash j" and ?start = "of_nat (ht_addr ht hash 0) :: u32"
  let ?e = "ht_table ht ! ?a"
  have eq: "search_loop ht hash key ?start (of_nat ?a) =
      (if entry_is_free ?e then Some None
       else if ht_match ht hash key ?a then Some (Some ?a)
       else if Suc j = unat (ht_size ht) then Some None
       else search_loop ht hash key ?start (of_nat (ht_addr ht hash (Suc j))))"
    by (subst search_loop.simps, simp add: ht_addr_word [OF ok] ht_match_def
          ht_next_word [OF ok] Let_def ht_next_start [OF ok less.prems]
          split del: if_split cong: if_cong) auto
  consider "entry_is_free ?e" | "\<not> entry_is_free ?e" "ht_match ht hash key ?a"
    | "\<not> entry_is_free ?e" "\<not> ht_match ht hash key ?a" "Suc j = unat (ht_size ht)"
    | "\<not> entry_is_free ?e" "\<not> ht_match ht hash key ?a" "Suc j \<noteq> unat (ht_size ht)"
    by blast
  then show ?case
  proof cases
    case 1
    then show ?thesis using eq less.prems by (auto simp: ht_stopped_def intro!: exI [of _ j])
  next
    case 2
    then show ?thesis using eq less.prems by auto
  next
    case 3
    then have "ht_stopped ht hash key j (Suc j)"
      by (simp add: ht_stopped_def ht_passed_Suc)
    with 3 show ?thesis using eq by (auto intro!: exI [of _ "Suc j"])
  next
    case 4
    then have Sj: "Suc j < unat (ht_size ht)" using less.prems by simp
    with less.hyps [of "Suc j"] obtain r where
      r: "search_loop ht hash key ?start (of_nat (ht_addr ht hash (Suc j))) = Some r"
      and cases: "case r of
         Some a \<Rightarrow> \<exists>i\<ge>Suc j. i < unat (ht_size ht) \<and> a = ht_addr ht hash i \<and> ht_match ht hash key a
       | None \<Rightarrow> \<exists>n\<ge>Suc j. ht_stopped ht hash key (Suc j) n"
      by force
    have "search_loop ht hash key ?start (of_nat ?a) = Some r" using eq 4 r by simp
    moreover have "ht_stopped ht hash key j n" if "ht_stopped ht hash key (Suc j) n" for n
      using that 4 ht_passed_Suc by (auto simp: ht_stopped_def)
    ultimately show ?thesis using cases
      by (cases r) (auto dest: Suc_leD)
  qed
qed

text \<open>The slot \<open>insert_loop\<close> offers: the given one, or a slot without a present entry on the way.\<close>

definition ht_offers :: "hash_table \<Rightarrow> u32 \<Rightarrow> nat \<Rightarrow> nat \<Rightarrow> nat option \<Rightarrow> nat option \<Rightarrow> bool" where
  "ht_offers ht hash j n v v' \<longleftrightarrow>
    (if v \<noteq> None then v' = v
     else case v' of
            None \<Rightarrow> n = unat (ht_size ht) \<and>
              (\<forall>i. j \<le> i \<and> i < n \<longrightarrow> entry_is_present ht (ht_table ht ! ht_addr ht hash i))
          | Some a \<Rightarrow> \<exists>i. j \<le> i \<and> i \<le> n \<and> i < unat (ht_size ht) \<and> a = ht_addr ht hash i
              \<and> \<not> entry_is_present ht (ht_table ht ! a))"

lemma ht_offers_Suc:
  assumes "ht_offers ht hash (Suc j) n
      (if \<not> entry_is_present ht (ht_table ht ! ht_addr ht hash j) \<and> v = None
       then Some (ht_addr ht hash j) else v) v'"
    "j < unat (ht_size ht)" "j < n"
  shows "ht_offers ht hash j n v v'"
proof (cases "v = None")
  case False
  then show ?thesis using assms by (simp add: ht_offers_def)
next
  case v: True
  show ?thesis
  proof (cases "entry_is_present ht (ht_table ht ! ht_addr ht hash j)")
    case False
    with v assms have "v' = Some (ht_addr ht hash j)" by (simp add: ht_offers_def)
    with v False assms show ?thesis by (auto simp: ht_offers_def intro!: exI [of _ j])
  next
    case True
    with v assms show ?thesis
      by (auto simp: ht_offers_def split: option.splits dest: Suc_leD)
         (metis Suc_leI le_neq_implies_less)
  qed
qed

lemma insert_loop_result:
  assumes ok: "ht_size_ok ht" and null: "ht_deleted_key ht \<noteq> NULL" and j: "j < unat (ht_size ht)"
  shows "\<exists>r. insert_loop ht hash key (of_nat (ht_addr ht hash 0)) (of_nat (ht_addr ht hash j)) v
      = Some r \<and>
    (case r of
       Inl a \<Rightarrow> \<exists>i. j \<le> i \<and> i < unat (ht_size ht) \<and> a = ht_addr ht hash i
         \<and> ht_match ht hash key a \<and> ht_passed ht hash key j i
     | Inr v' \<Rightarrow> \<exists>n. j \<le> n \<and> ht_stopped ht hash key j n \<and> ht_offers ht hash j n v v')"
  using j
proof (induction "unat (ht_size ht) - j" arbitrary: j v rule: less_induct)
  case less
  let ?a = "ht_addr ht hash j" and ?start = "of_nat (ht_addr ht hash 0) :: u32"
  let ?e = "ht_table ht ! ?a"
  let ?v = "if \<not> entry_is_present ht ?e \<and> v = None then Some ?a else v"
  have fr: "entry_is_free ?e \<Longrightarrow> \<not> entry_is_present ht ?e"
    by (simp add: entry_is_free_def entry_is_present_def)
  have pr: "\<not> entry_is_free ?e \<Longrightarrow> \<not> entry_is_deleted ht ?e \<longleftrightarrow> entry_is_present ht ?e"
    by (auto simp: entry_is_free_def entry_is_present_def entry_is_deleted_def)
  have eq: "insert_loop ht hash key ?start (of_nat ?a) v =
      (if entry_is_free ?e then Some (Inr ?v)
       else if ht_match ht hash key ?a then Some (Inl ?a)
       else if Suc j = unat (ht_size ht) then Some (Inr ?v)
       else insert_loop ht hash key ?start (of_nat (ht_addr ht hash (Suc j))) ?v)"
    using fr pr
    by (subst insert_loop.simps, simp add: ht_addr_word [OF ok] ht_match_def
          ht_next_word [OF ok] Let_def ht_next_start [OF ok less.prems]
          split del: if_split cong: if_cong) auto
  consider "entry_is_free ?e" | "\<not> entry_is_free ?e" "ht_match ht hash key ?a"
    | "\<not> entry_is_free ?e" "\<not> ht_match ht hash key ?a" "Suc j = unat (ht_size ht)"
    | "\<not> entry_is_free ?e" "\<not> ht_match ht hash key ?a" "Suc j \<noteq> unat (ht_size ht)"
    by blast
  then show ?case
  proof cases
    case 1
    then have "ht_stopped ht hash key j j" "ht_offers ht hash j j v ?v"
      using less.prems fr by (auto simp: ht_stopped_def ht_offers_def)
    with 1 show ?thesis using eq by auto
  next
    case 2
    then show ?thesis using eq less.prems by (auto intro!: exI [of _ j])
  next
    case 3
    then have "ht_stopped ht hash key j (Suc j)"
      by (simp add: ht_stopped_def ht_passed_Suc)
    moreover have "ht_offers ht hash j (Suc j) v ?v"
      by (rule ht_offers_Suc [OF _ less.prems])
         (use 3 in \<open>auto simp: ht_offers_def split: option.splits\<close>)
    ultimately show ?thesis using eq 3 by (auto intro!: exI [of _ "Suc j"])
  next
    case 4
    then have Sj: "Suc j < unat (ht_size ht)" using less.prems by simp
    with less.hyps [of "Suc j" ?v] obtain r where
      r: "insert_loop ht hash key ?start (of_nat (ht_addr ht hash (Suc j))) ?v = Some r"
      and cases: "case r of
         Inl a \<Rightarrow> \<exists>i\<ge>Suc j. i < unat (ht_size ht) \<and> a = ht_addr ht hash i
           \<and> ht_match ht hash key a \<and> ht_passed ht hash key (Suc j) i
       | Inr v' \<Rightarrow> \<exists>n\<ge>Suc j. ht_stopped ht hash key (Suc j) n \<and> ht_offers ht hash (Suc j) n ?v v'"
      by force
    have res: "insert_loop ht hash key ?start (of_nat ?a) v = Some r" using eq 4 r by simp
    have pass: "ht_passed ht hash key j n" if "ht_passed ht hash key (Suc j) n" for n
      using that 4(2,1) by (rule ht_passed_Suc)
    then have stop: "ht_stopped ht hash key j n" if "ht_stopped ht hash key (Suc j) n" for n
      using that by (auto simp: ht_stopped_def)
    have offer: "ht_offers ht hash j n v v'"
      if "ht_offers ht hash (Suc j) n ?v v'" "Suc j \<le> n" for n v'
      using ht_offers_Suc [OF that(1) less.prems] that(2) by simp
    show ?thesis
    proof (cases r)
      case (Inl a)
      with cases obtain i where i: "Suc j \<le> i" "i < unat (ht_size ht)" "a = ht_addr ht hash i"
        "ht_match ht hash key a" "ht_passed ht hash key (Suc j) i" by auto
      show ?thesis
        by (rule exI [of _ r], rule conjI [OF res], unfold Inl sum.case)
          (use Suc_leD [OF i(1)] i(2-4) pass [OF i(5)] in blast)
    next
      case (Inr v')
      with cases obtain n where n: "Suc j \<le> n" "ht_stopped ht hash key (Suc j) n"
        "ht_offers ht hash (Suc j) n ?v v'" by auto
      show ?thesis
        by (rule exI [of _ r], rule conjI [OF res], unfold Inr sum.case)
          (use Suc_leD [OF n(1)] stop [OF n(2)] offer [OF n(3,1)] in blast)
    qed
  qed
qed

section \<open>The invariant and the abstraction\<close>

definition ht_reachable :: "hash_table \<Rightarrow> nat \<Rightarrow> bool" where
  "ht_reachable ht a \<longleftrightarrow>
    (let h = he_hash (ht_table ht ! a)
     in \<exists>j < unat (ht_size ht). ht_addr ht h j = a
          \<and> (\<forall>i < j. \<not> entry_is_free (ht_table ht ! ht_addr ht h i)))"

text \<open>
  A table is well formed for the hash function \<open>hf\<close> its users hash the keys with: the counters
  count, each entry can be reached by the probe sequence of its hash without crossing a free slot,
  and no two entries have equal keys.
\<close>

definition ht_wf :: "(ptr \<Rightarrow> u32) \<Rightarrow> hash_table \<Rightarrow> bool" where
  "ht_wf hf ht \<longleftrightarrow>
    ht_size_ok ht \<and>
    length (ht_table ht) = unat (ht_size ht) \<and>
    ht_deleted_key ht \<noteq> NULL \<and>
    unat (ht_entries ht) = length (filter (entry_is_present ht) (ht_table ht)) \<and>
    unat (ht_deleted_entries ht) = length (filter (entry_is_deleted ht) (ht_table ht)) \<and>
    (\<forall>a < unat (ht_size ht). entry_is_present ht (ht_table ht ! a) \<longrightarrow>
       he_hash (ht_table ht ! a) = hf (he_key (ht_table ht ! a)) \<and> ht_reachable ht a) \<and>
    (\<forall>a < unat (ht_size ht). \<forall>b < unat (ht_size ht).
       entry_is_present ht (ht_table ht ! a) \<and> entry_is_present ht (ht_table ht ! b) \<and>
       ht_key_equals_function ht (he_key (ht_table ht ! a)) (he_key (ht_table ht ! b)) \<longrightarrow> a = b)"

text \<open>The invariant of tables whose allocations have not failed.\<close>

definition ht_inv :: "(ptr \<Rightarrow> u32) \<Rightarrow> hash_table \<Rightarrow> bool" where
  "ht_inv hf ht \<longleftrightarrow> ht_wf hf ht \<and> ht_entries ht \<le> ht_max_entries ht"

text \<open>The map a table stands for: the data of the present entry whose key equals the given one.\<close>

definition ht_lookup :: "hash_table \<Rightarrow> ptr \<Rightarrow> ptr option" where
  "ht_lookup ht key = map_option he_data
     (find (\<lambda>e. entry_is_present ht e \<and> ht_key_equals_function ht key (he_key e)) (ht_table ht))"

text \<open>
  What the users of the table promise of its two callbacks (hash_table.h): an equivalence of keys,
  and equal keys have equal hashes.
\<close>

locale hash_key =
  fixes hf :: "ptr \<Rightarrow> u32" and eqf :: "ptr \<Rightarrow> ptr \<Rightarrow> bool"
  assumes eq_refl: "eqf k k"
    and eq_sym: "eqf k k' \<Longrightarrow> eqf k' k"
    and eq_trans: "eqf k k' \<Longrightarrow> eqf k' k'' \<Longrightarrow> eqf k k''"
    and eq_hash: "eqf k k' \<Longrightarrow> hf k = hf k'"

lemma ht_wf_present:
  assumes "ht_wf hf ht" "a < unat (ht_size ht)" "entry_is_present ht (ht_table ht ! a)"
  shows "he_hash (ht_table ht ! a) = hf (he_key (ht_table ht ! a))" "ht_reachable ht a"
  using assms by (auto simp: ht_wf_def)

lemma ht_wf_unique:
  assumes "ht_wf hf ht" "a < unat (ht_size ht)" "entry_is_present ht (ht_table ht ! a)"
    "b < unat (ht_size ht)" "entry_is_present ht (ht_table ht ! b)"
    "ht_key_equals_function ht (he_key (ht_table ht ! a)) (he_key (ht_table ht ! b))"
  shows "a = b"
  using assms unfolding ht_wf_def by blast

lemma ht_wf_simps:
  assumes "ht_wf hf ht"
  shows "ht_size_ok ht" "length (ht_table ht) = unat (ht_size ht)" "ht_deleted_key ht \<noteq> NULL"
    "unat (ht_entries ht) = length (filter (entry_is_present ht) (ht_table ht))"
    "unat (ht_deleted_entries ht) = length (filter (entry_is_deleted ht) (ht_table ht))"
  using assms by (auto simp: ht_wf_def)

context hash_key
begin

definition kt :: "hash_table \<Rightarrow> bool" where
  "kt ht \<longleftrightarrow> ht_wf hf ht \<and> ht_key_equals_function ht = eqf"

lemma lookup_present:
  assumes "kt ht" "a < unat (ht_size ht)" "entry_is_present ht (ht_table ht ! a)"
    "eqf key (he_key (ht_table ht ! a))"
  shows "ht_lookup ht key = Some (he_data (ht_table ht ! a))"
proof -
  let ?P = "\<lambda>e. entry_is_present ht e \<and> eqf key (he_key e)"
  have len: "length (ht_table ht) = unat (ht_size ht)" and eqf: "ht_key_equals_function ht = eqf"
    using assms(1) by (auto simp: kt_def ht_wf_def)
  have "find ?P (ht_table ht) \<noteq> None"
    using assms(2-4) len by (auto simp: find_None_iff in_set_conv_nth)
  then obtain e where e: "find ?P (ht_table ht) = Some e" by blast
  then obtain b where b: "b < length (ht_table ht)" "?P (ht_table ht ! b)" "e = ht_table ht ! b"
    by (auto simp: find_Some_iff)
  have "eqf (he_key (ht_table ht ! a)) (he_key (ht_table ht ! b))"
    using eq_trans [OF eq_sym [OF assms(4)]] b by blast
  then have "a = b" using ht_wf_unique [of hf ht a b] assms b len eqf by (simp add: kt_def)
  with e b show ?thesis by (simp add: ht_lookup_def eqf)
qed

lemma lookup_absent:
  assumes "kt ht"
    "\<And>a. a < unat (ht_size ht) \<Longrightarrow> entry_is_present ht (ht_table ht ! a)
      \<Longrightarrow> \<not> eqf key (he_key (ht_table ht ! a))"
  shows "ht_lookup ht key = None"
proof -
  have "find (\<lambda>e. entry_is_present ht e \<and> eqf key (he_key e)) (ht_table ht) = None"
    using assms by (auto simp: find_None_iff in_set_conv_nth kt_def ht_wf_def)
  then show ?thesis using assms(1) by (simp add: ht_lookup_def kt_def)
qed

lemma miss_absent:
  assumes kt: "kt ht" and stop: "ht_stopped ht (hf key) key 0 n"
    and a: "a < unat (ht_size ht)" "entry_is_present ht (ht_table ht ! a)"
  shows "\<not> eqf key (he_key (ht_table ht ! a))"
proof
  assume eq: "eqf key (he_key (ht_table ht ! a))"
  have wf: "ht_wf hf ht" using kt by (simp add: kt_def)
  have h: "he_hash (ht_table ht ! a) = hf key"
    using ht_wf_present(1) [OF wf a] eq_hash [OF eq] by simp
  with ht_wf_present(2) [OF wf a] obtain j where j: "j < unat (ht_size ht)"
    "ht_addr ht (hf key) j = a" "\<forall>i<j. \<not> entry_is_free (ht_table ht ! ht_addr ht (hf key) i)"
    by (auto simp: ht_reachable_def Let_def)
  have m: "ht_match ht (hf key) key a"
    using a(2) h eq kt by (simp add: ht_match_def kt_def)
  have "\<not> j < n"
    using stop m j(2) unfolding ht_stopped_def ht_passed_def by blast
  moreover have "n = unat (ht_size ht) \<or> entry_is_free (ht_table ht ! ht_addr ht (hf key) n)"
    using stop by (auto simp: ht_stopped_def)
  ultimately show False
    using j a(2) by (cases "n = j") (auto simp: entry_is_free_def entry_is_present_def)
qed

theorem search_correct:
  assumes "kt ht"
  shows "\<exists>r. hash_table_search ht (hf key) key = Some r \<and>
    (case r of
       None \<Rightarrow> ht_lookup ht key = None
     | Some a \<Rightarrow> a < unat (ht_size ht) \<and> entry_is_present ht (ht_table ht ! a) \<and>
         eqf key (he_key (ht_table ht ! a)) \<and>
         ht_lookup ht key = Some (he_data (ht_table ht ! a)))"
proof -
  have ok: "ht_size_ok ht" and eqf: "ht_key_equals_function ht = eqf"
    using assms by (auto simp: kt_def ht_wf_def)
  have pos: "0 < unat (ht_size ht)" using ht_size_okD(3) [OF ok] by simp
  from search_loop_result [OF ok pos, of "hf key" key] obtain r where
    r: "hash_table_search ht (hf key) key = Some r"
    and cases: "case r of
       Some a \<Rightarrow> \<exists>i. 0 \<le> i \<and> i < unat (ht_size ht) \<and> a = ht_addr ht (hf key) i
         \<and> ht_match ht (hf key) key a
     | None \<Rightarrow> \<exists>n. 0 \<le> n \<and> ht_stopped ht (hf key) key 0 n"
    by (auto simp: hash_table_search_def ht_start_word [OF ok])
  show ?thesis
  proof (cases r)
    case None
    with cases obtain n where "ht_stopped ht (hf key) key 0 n" by auto
    then have "ht_lookup ht key = None" using lookup_absent assms miss_absent by blast
    with r None show ?thesis by simp
  next
    case (Some a)
    with cases have a: "a < unat (ht_size ht)" "entry_is_present ht (ht_table ht ! a)"
      "eqf key (he_key (ht_table ht ! a))"
      using ht_addr_less [OF ok] by (auto simp: ht_match_def eqf)
    with lookup_present [OF assms a] r Some show ?thesis by simp
  qed
qed

end

section \<open>Storing into a slot\<close>

definition ht_same_frame :: "hash_table \<Rightarrow> hash_table \<Rightarrow> bool" where
  "ht_same_frame ht ht' \<longleftrightarrow>
     ht_key_hash_function ht' = ht_key_hash_function ht
     \<and> ht_key_equals_function ht' = ht_key_equals_function ht
     \<and> ht_deleted_key ht' = ht_deleted_key ht"

definition ht_same_size :: "hash_table \<Rightarrow> hash_table \<Rightarrow> bool" where
  "ht_same_size ht ht' \<longleftrightarrow>
     ht_size ht' = ht_size ht \<and> ht_rehash ht' = ht_rehash ht
     \<and> ht_max_entries ht' = ht_max_entries ht \<and> ht_size_index ht' = ht_size_index ht"

lemma ht_same_frame_refl [simp]: "ht_same_frame ht ht"
  by (simp add: ht_same_frame_def)

lemma ht_same_frame_trans:
  "ht_same_frame a b \<Longrightarrow> ht_same_frame b c \<Longrightarrow> ht_same_frame a c"
  by (simp add: ht_same_frame_def)

lemma entry_is_present_frame:
  "ht_deleted_key ht' = ht_deleted_key ht \<Longrightarrow> entry_is_present ht' = entry_is_present ht"
  by (simp add: entry_is_present_def fun_eq_iff)

lemma entry_is_deleted_frame:
  "ht_deleted_key ht' = ht_deleted_key ht \<Longrightarrow> entry_is_deleted ht' = entry_is_deleted ht"
  by (simp add: entry_is_deleted_def fun_eq_iff)

context hash_key
begin

lemma store_correct:
  fixes key d n m
  defines "e \<equiv> \<lparr>he_hash = hf key, he_key = key, he_data = d\<rparr>"
  assumes kt: "kt ht" and a: "a < unat (ht_size ht)"
    and key: "key \<noteq> NULL" "key \<noteq> ht_deleted_key ht"
    and reach: "\<exists>j < unat (ht_size ht). ht_addr ht (hf key) j = a \<and>
      (\<forall>i < j. \<not> entry_is_free (ht_table ht ! ht_addr ht (hf key) i))"
    and uniq: "\<And>b. b < unat (ht_size ht) \<Longrightarrow> b \<noteq> a \<Longrightarrow> entry_is_present ht (ht_table ht ! b)
      \<Longrightarrow> \<not> eqf key (he_key (ht_table ht ! b))"
    and old: "entry_is_present ht (ht_table ht ! a) \<Longrightarrow> eqf key (he_key (ht_table ht ! a))"
    and n: "unat n = length (filter (entry_is_present ht) ((ht_table ht)[a := e]))"
    and m: "unat m = length (filter (entry_is_deleted ht) ((ht_table ht)[a := e]))"
    and ht': "ht' = ht\<lparr>ht_table := (ht_table ht)[a := e], ht_entries := n, ht_deleted_entries := m\<rparr>"
  shows "kt ht'" "ht_lookup ht' k = (if eqf k key then Some d else ht_lookup ht k)"
proof -
  have wf: "ht_wf hf ht" and eqf: "ht_key_equals_function ht = eqf" using kt by (auto simp: kt_def)
  note w = ht_wf_simps [OF wf]
  have frame: "entry_is_present ht' = entry_is_present ht" "entry_is_deleted ht' = entry_is_deleted ht"
    "ht_addr ht' = ht_addr ht" "ht_size ht' = ht_size ht"
    by (auto simp: ht' intro!: entry_is_present_frame entry_is_deleted_frame ht_addr_cong)
  have tab: "ht_table ht' ! b = (if b = a then e else ht_table ht ! b)"
    if "b < unat (ht_size ht)" for b
    using that w(2) by (simp add: ht')
  have fr: "\<not> entry_is_free (ht_table ht' ! b)"
    if "\<not> entry_is_free (ht_table ht ! b)" "b < unat (ht_size ht)" for b
    using that key by (simp add: tab e_def entry_is_free_def)
  have reach': "ht_reachable ht' b"
    if b: "b < unat (ht_size ht)" "entry_is_present ht (ht_table ht' ! b)" for b
  proof -
    obtain j where "j < unat (ht_size ht)" "ht_addr ht (he_hash (ht_table ht' ! b)) j = b"
      "\<forall>i < j. \<not> entry_is_free (ht_table ht ! ht_addr ht (he_hash (ht_table ht' ! b)) i)"
      using reach ht_wf_present(2) [OF wf, of b] b
      by (cases "b = a") (auto simp: tab e_def ht_reachable_def Let_def)
    then show ?thesis
      using fr ht_addr_less [OF w(1)] unfolding ht_reachable_def Let_def frame by blast
  qed
  have hash': "he_hash (ht_table ht' ! b) = hf (he_key (ht_table ht' ! b))"
    if "b < unat (ht_size ht)" "entry_is_present ht (ht_table ht' ! b)" for b
    using that ht_wf_present(1) [OF wf, of b] by (cases "b = a") (auto simp: tab e_def)
  have uniq': "b = c"
    if "b < unat (ht_size ht)" "c < unat (ht_size ht)"
      "entry_is_present ht (ht_table ht' ! b)" "entry_is_present ht (ht_table ht' ! c)"
      "eqf (he_key (ht_table ht' ! b)) (he_key (ht_table ht' ! c))" for b c
  proof (cases "b = a"; cases "c = a")
    assume "b \<noteq> a" "c \<noteq> a"
    then show ?thesis using that ht_wf_unique [OF wf, of b c] by (simp add: tab eqf)
  qed (use that uniq [of b] uniq [of c] in \<open>auto simp: tab e_def dest: eq_sym\<close>)
  have ok': "ht_size_ok ht'" using w(1) by (simp add: ht_size_ok_def ht')
  show kt': "kt ht'"
    unfolding kt_def ht_wf_def frame
    using ok' w n m hash' reach' uniq' by (auto simp: ht' eqf)
  have pa: "entry_is_present ht (ht_table ht' ! a)"
    using a key by (simp add: tab e_def entry_is_present_def)
  show "ht_lookup ht' k = (if eqf k key then Some d else ht_lookup ht k)"
  proof (cases "eqf k key")
    case True
    then show ?thesis
      using lookup_present [OF kt', of a k] a pa by (simp add: frame tab e_def)
  next
    case False
    show ?thesis
    proof (cases "\<exists>b < unat (ht_size ht). entry_is_present ht (ht_table ht ! b)
        \<and> eqf k (he_key (ht_table ht ! b))")
      case True
      then obtain b where b: "b < unat (ht_size ht)" "entry_is_present ht (ht_table ht ! b)"
        "eqf k (he_key (ht_table ht ! b))" by blast
      with old False have "b \<noteq> a" using eq_trans eq_sym by blast
      with b False show ?thesis
        using lookup_present [OF kt b] lookup_present [OF kt', of b k] by (simp add: frame tab)
    next
      case none: False
      have "ht_lookup ht k = None" using lookup_absent [OF kt] none by blast
      moreover have "ht_lookup ht' k = None"
      proof (rule lookup_absent [OF kt'])
        fix b assume "b < unat (ht_size ht')" "entry_is_present ht' (ht_table ht' ! b)"
        then show "\<not> eqf k (he_key (ht_table ht' ! b))"
          using none False unfolding frame by (cases "b = a") (auto simp: tab e_def)
      qed
      ultimately show ?thesis using False by simp
    qed
  qed
qed

end

lemma ht_entries_bound:
  assumes "ht_wf hf ht"
  shows "unat (ht_entries ht) \<le> unat (ht_size ht)" "unat (ht_deleted_entries ht) \<le> unat (ht_size ht)"
  using ht_wf_simps [OF assms] by (metis length_filter_le)+

lemma ht_room:
  assumes "ht_wf hf ht" "unat (ht_entries ht) < unat (ht_size ht)"
  shows "\<exists>a < unat (ht_size ht). \<not> entry_is_present ht (ht_table ht ! a)"
  using ht_wf_simps [OF assms(1)] assms(2) length_filter_less [of "ht_table ht" "entry_is_present ht"]
  by simp

text \<open>What one insertion without a rehash does to the counters.\<close>

definition ht_counted :: "hash_table \<Rightarrow> hash_table \<Rightarrow> bool" where
  "ht_counted ht ht' \<longleftrightarrow>
     unat (ht_entries ht') \<le> Suc (unat (ht_entries ht))
     \<and> unat (ht_deleted_entries ht') \<le> unat (ht_deleted_entries ht)"

text \<open>
  What storing the entry \<open>e\<close> does to the map: the entry at the returned slot is \<open>e\<close> and its key maps
  to its data; without a slot the table is full of other keys and nothing has changed.
\<close>

definition ht_put ::
  "(ptr \<Rightarrow> ptr \<Rightarrow> bool) \<Rightarrow> hash_table \<Rightarrow> hash_entry \<Rightarrow> hash_table \<Rightarrow> nat option \<Rightarrow> bool" where
  "ht_put eqf ht e ht' r \<longleftrightarrow>
    (case r of
       Some a \<Rightarrow> a < unat (ht_size ht') \<and> ht_table ht' ! a = e \<and>
         (\<forall>k. ht_lookup ht' k = (if eqf k (he_key e) then Some (he_data e) else ht_lookup ht k))
     | None \<Rightarrow> ht_lookup ht' = ht_lookup ht \<and> ht_lookup ht (he_key e) = None \<and>
         unat (ht_entries ht') = unat (ht_size ht'))"

context hash_key
begin

lemma insert_slot_correct:
  fixes key d
  defines "e \<equiv> \<lparr>he_hash = hf key, he_key = key, he_data = d\<rparr>"
  assumes kt: "kt ht" and key: "key \<noteq> NULL" "key \<noteq> ht_deleted_key ht"
  shows "\<exists>ht' r. insert_at_slot ht (hf key) key d = Some (ht', r) \<and> kt ht'
    \<and> ht_same_frame ht ht' \<and> ht_same_size ht ht' \<and> ht_counted ht ht' \<and> ht_put eqf ht e ht' r"
proof -
  have wf: "ht_wf hf ht" and eqf: "ht_key_equals_function ht = eqf" using kt by (auto simp: kt_def)
  note w = ht_wf_simps [OF wf]
  have pe: "entry_is_present ht e" "\<not> entry_is_deleted ht e"
    using key by (auto simp: e_def entry_is_present_def entry_is_deleted_def)
  have pos: "0 < unat (ht_size ht)" using ht_size_okD(3) [OF w(1)] by simp
  from insert_loop_result [OF w(1) w(3) pos, of "hf key" key None] obtain r where
    r: "insert_loop ht (hf key) key (hf key mod ht_size ht) (hf key mod ht_size ht) None = Some r"
    and cases: "case r of
       Inl a \<Rightarrow> \<exists>i. 0 \<le> i \<and> i < unat (ht_size ht) \<and> a = ht_addr ht (hf key) i
         \<and> ht_match ht (hf key) key a \<and> ht_passed ht (hf key) key 0 i
     | Inr v' \<Rightarrow> \<exists>n. 0 \<le> n \<and> ht_stopped ht (hf key) key 0 n \<and> ht_offers ht (hf key) 0 n None v'"
    by (auto simp: ht_start_word [OF w(1)])
  show ?thesis
  proof (cases r)
    case (Inl a)
    with cases obtain i where i: "i < unat (ht_size ht)" "a = ht_addr ht (hf key) i"
      "ht_match ht (hf key) key a" "ht_passed ht (hf key) key 0 i" by auto
    have a: "a < unat (ht_size ht)" using ht_addr_less [OF w(1)] i(2) by simp
    have pa: "entry_is_present ht (ht_table ht ! a)" "eqf key (he_key (ht_table ht ! a))"
      and ha: "he_hash (ht_table ht ! a) = hf key"
      using i(3) by (auto simp: ht_match_def eqf)
    have ea: "(ht_table ht ! a)\<lparr>he_key := key, he_data := d\<rparr> = e" using ha by (simp add: e_def)
    define ht' where "ht' = ht\<lparr>ht_table := (ht_table ht)[a := e],
      ht_entries := ht_entries ht, ht_deleted_entries := ht_deleted_entries ht\<rparr>"
    have res: "insert_at_slot ht (hf key) key d = Some (ht', Some a)"
      using ea by (simp add: insert_at_slot_def r Inl ht'_def)
    have "\<not> entry_is_deleted ht (ht_table ht ! a)"
      using pa(1) by (simp add: entry_is_present_def entry_is_deleted_def)
    then have cnt: "unat (ht_entries ht) = length (filter (entry_is_present ht) ((ht_table ht)[a := e]))"
      "unat (ht_deleted_entries ht) = length (filter (entry_is_deleted ht) ((ht_table ht)[a := e]))"
      using length_filter_update [of a "ht_table ht" "entry_is_present ht" e] pa pe w a
        length_filter_update [of a "ht_table ht" "entry_is_deleted ht" e]
      by auto
    have uniq: "\<not> eqf key (he_key (ht_table ht ! b))"
      if "b < unat (ht_size ht)" "b \<noteq> a" "entry_is_present ht (ht_table ht ! b)" for b
      using ht_wf_unique [OF wf a pa(1) that(1,3)] that(2) eq_trans [OF eq_sym [OF pa(2)]]
      by (auto simp: eqf)
    have reach: "\<exists>j < unat (ht_size ht). ht_addr ht (hf key) j = a \<and>
        (\<forall>i < j. \<not> entry_is_free (ht_table ht ! ht_addr ht (hf key) i))"
      using i by (auto simp: ht_passed_def)
    from store_correct [OF kt a key reach uniq pa(2) cnt [unfolded e_def] ht'_def [unfolded e_def]]
    have "kt ht'" "\<And>k. ht_lookup ht' k = (if eqf k key then Some d else ht_lookup ht k)" by auto
    moreover from this have "ht_put eqf ht e ht' (Some a)"
      using a by (simp add: ht_put_def e_def ht'_def w(2))
    ultimately show ?thesis using res
      by (auto simp: ht'_def ht_same_frame_def ht_same_size_def ht_counted_def)
  next
    case (Inr v')
    with cases obtain n where n: "ht_stopped ht (hf key) key 0 n" "ht_offers ht (hf key) 0 n None v'"
      by auto
    show ?thesis
    proof (cases v')
      case None
      with n(2) have "\<forall>i < unat (ht_size ht).
          entry_is_present ht (ht_table ht ! ht_addr ht (hf key) i)" by (simp add: ht_offers_def)
      then have "\<not> unat (ht_entries ht) < unat (ht_size ht)"
        using ht_room [OF wf] ht_addr_surj [OF w(1)] by metis
      then have "unat (ht_entries ht) = unat (ht_size ht)" using ht_entries_bound(1) [OF wf] by simp
      moreover have "ht_lookup ht key = None"
        using lookup_absent [OF kt] miss_absent [OF kt n(1)] by blast
      ultimately have "ht_put eqf ht e ht None" by (simp add: ht_put_def e_def)
      moreover have "insert_at_slot ht (hf key) key d = Some (ht, None)"
        by (simp add: insert_at_slot_def r Inr None)
      ultimately show ?thesis using kt by (auto simp: ht_same_size_def ht_counted_def)
    next
      case Some
    with n(2) obtain a i where v': "v' = Some a" and i: "i \<le> n" "i < unat (ht_size ht)"
      "a = ht_addr ht (hf key) i" "\<not> entry_is_present ht (ht_table ht ! a)"
      by (auto simp: ht_offers_def)
    have a: "a < unat (ht_size ht)" using ht_addr_less [OF w(1)] i(3) by simp
    let ?m = "if entry_is_deleted ht (ht_table ht ! a) then ht_deleted_entries ht - 1
              else ht_deleted_entries ht"
    define ht' where "ht' = ht\<lparr>ht_table := (ht_table ht)[a := e],
      ht_entries := ht_entries ht + 1, ht_deleted_entries := ?m\<rparr>"
    have res: "insert_at_slot ht (hf key) key d = Some (ht', Some a)"
      by (simp add: insert_at_slot_def r Inr v' ht'_def e_def)
    have "unat (ht_entries ht) < unat (ht_size ht)"
      using a i(4) w(2,4) length_filter_less [of "ht_table ht" "entry_is_present ht"] by auto
    then have n1: "unat (ht_entries ht + 1) = Suc (unat (ht_entries ht))"
      using ht_size_okD(6) [OF w(1)] by (intro unat_Suc_less) simp
    have m1: "unat ?m + (if entry_is_deleted ht (ht_table ht ! a) then 1 else 0)
        = unat (ht_deleted_entries ht)"
    proof (cases "entry_is_deleted ht (ht_table ht ! a)")
      case True
      then have pd: "0 < unat (ht_deleted_entries ht)"
        unfolding w(5) filter_pos_ex using a w(2) by auto
      then have "ht_deleted_entries ht \<noteq> 0" by auto
      with True pd show ?thesis by (simp add: unat_minus_one_pos)
    qed simp
    have cnt: "unat (ht_entries ht + 1) = length (filter (entry_is_present ht) ((ht_table ht)[a := e]))"
      "unat ?m = length (filter (entry_is_deleted ht) ((ht_table ht)[a := e]))"
      using length_filter_update [of a "ht_table ht" "entry_is_present ht" e] i(4) pe w a n1 m1
        length_filter_update [of a "ht_table ht" "entry_is_deleted ht" e]
      by auto
    have uniq: "\<not> eqf key (he_key (ht_table ht ! b))"
      if "b < unat (ht_size ht)" "b \<noteq> a" "entry_is_present ht (ht_table ht ! b)" for b
      using miss_absent [OF kt n(1) that(1,3)] .
    have reach: "\<exists>j < unat (ht_size ht). ht_addr ht (hf key) j = a \<and>
        (\<forall>i < j. \<not> entry_is_free (ht_table ht ! ht_addr ht (hf key) i))"
      using i n(1) by (auto simp: ht_stopped_def ht_passed_def intro!: exI [of _ i])
    from store_correct [OF kt a key reach uniq _ cnt [unfolded e_def] ht'_def [unfolded e_def]] i(4)
    have "kt ht'" "\<And>k. ht_lookup ht' k = (if eqf k key then Some d else ht_lookup ht k)" by auto
    moreover have "ht_counted ht ht'"
      using n1 m1 by (auto simp: ht_counted_def ht'_def split: if_splits)
    moreover from calculation have "ht_put eqf ht e ht' (Some a)"
      using a by (simp add: ht_put_def e_def ht'_def w(2))
    ultimately show ?thesis using res
      by (auto simp: ht'_def ht_same_frame_def ht_same_size_def)
    qed
  qed
qed

lemma remove_correct:
  assumes kt: "kt ht" and a: "a < unat (ht_size ht)" "entry_is_present ht (ht_table ht ! a)"
  shows "kt (mesa_hash_table_remove ht (Some a))"
    "ht_lookup (mesa_hash_table_remove ht (Some a)) k =
      (if eqf k (he_key (ht_table ht ! a)) then None else ht_lookup ht k)"
proof -
  have wf: "ht_wf hf ht" and eqf: "ht_key_equals_function ht = eqf" using kt by (auto simp: kt_def)
  note w = ht_wf_simps [OF wf]
  define e where "e = (ht_table ht ! a)\<lparr>he_key := ht_deleted_key ht\<rparr>"
  define ht' where "ht' = mesa_hash_table_remove ht (Some a)"
  have ht': "ht' = ht\<lparr>ht_table := (ht_table ht)[a := e], ht_entries := ht_entries ht - 1,
      ht_deleted_entries := ht_deleted_entries ht + 1\<rparr>"
    by (simp add: ht'_def e_def mesa_hash_table_remove_def)
  have frame: "entry_is_present ht' = entry_is_present ht" "entry_is_deleted ht' = entry_is_deleted ht"
    "ht_addr ht' = ht_addr ht" "ht_size ht' = ht_size ht"
    by (auto simp: ht' intro!: entry_is_present_frame entry_is_deleted_frame ht_addr_cong)
  have e: "\<not> entry_is_present ht e" "entry_is_deleted ht e" "\<not> entry_is_free e"
    using w(3) by (auto simp: e_def entry_is_present_def entry_is_deleted_def entry_is_free_def)
  have da: "\<not> entry_is_deleted ht (ht_table ht ! a)"
    using a(2) by (simp add: entry_is_present_def entry_is_deleted_def)
  have tab: "ht_table ht' ! b = (if b = a then e else ht_table ht ! b)"
    if "b < unat (ht_size ht)" for b
    using that w(2) by (simp add: ht')
  have pres: "entry_is_present ht (ht_table ht' ! b) \<longleftrightarrow>
      b \<noteq> a \<and> entry_is_present ht (ht_table ht ! b)" if "b < unat (ht_size ht)" for b
    using that e by (simp add: tab)
  have "0 < unat (ht_entries ht)" unfolding w(4) filter_pos_ex using a w(2) by auto
  then have n: "unat (ht_entries ht - 1) = unat (ht_entries ht) - 1" "0 < unat (ht_entries ht)"
    by (cases "ht_entries ht = 0"; simp add: unat_minus_one_pos)+
  have "unat (ht_deleted_entries ht) < 2 ^ 21"
    using ht_entries_bound(2) [OF wf] ht_size_okD(6) [OF w(1)] by simp
  then have m: "unat (ht_deleted_entries ht + 1) = Suc (unat (ht_deleted_entries ht))"
    by (intro unat_Suc_less) simp
  have cnt: "unat (ht_entries ht - 1) = length (filter (entry_is_present ht) ((ht_table ht)[a := e]))"
    "unat (ht_deleted_entries ht + 1) = length (filter (entry_is_deleted ht) ((ht_table ht)[a := e]))"
    using length_filter_update [of a "ht_table ht" "entry_is_present ht" e] a da e w n m
      length_filter_update [of a "ht_table ht" "entry_is_deleted ht" e]
    by auto
  have fr: "\<not> entry_is_free (ht_table ht' ! b)"
    if "\<not> entry_is_free (ht_table ht ! b)" "b < unat (ht_size ht)" for b
    using that e by (simp add: tab)
  have keep: "he_hash (ht_table ht' ! b) = hf (he_key (ht_table ht' ! b)) \<and> ht_reachable ht' b"
    if b: "b < unat (ht_size ht)" "entry_is_present ht (ht_table ht' ! b)" for b
  proof -
    have b': "ht_table ht' ! b = ht_table ht ! b" "entry_is_present ht (ht_table ht ! b)"
      using b pres [OF b(1)] by (auto simp: tab)
    have "ht_reachable ht' b"
      using ht_wf_present(2) [OF wf b(1) b'(2)] fr ht_addr_less [OF w(1)]
      unfolding ht_reachable_def Let_def frame b'(1) by blast
    then show ?thesis using ht_wf_present(1) [OF wf b(1) b'(2)] b'(1) by simp
  qed
  have "ht_size_ok ht'" using w(1) by (simp add: ht_size_ok_def ht')
  moreover have "b = c" if "b < unat (ht_size ht)" "c < unat (ht_size ht)"
      "entry_is_present ht (ht_table ht' ! b)" "entry_is_present ht (ht_table ht' ! c)"
      "eqf (he_key (ht_table ht' ! b)) (he_key (ht_table ht' ! c))" for b c
    using that pres ht_wf_unique [OF wf, of b c] by (simp add: tab eqf)
  ultimately have kt': "kt ht'"
    unfolding kt_def ht_wf_def frame using w cnt keep by (auto simp: ht' eqf)
  then show "kt (mesa_hash_table_remove ht (Some a))" by (simp add: ht'_def)
  have "ht_lookup ht' k = (if eqf k (he_key (ht_table ht ! a)) then None else ht_lookup ht k)"
  proof (cases "\<exists>b < unat (ht_size ht). entry_is_present ht (ht_table ht ! b)
      \<and> eqf k (he_key (ht_table ht ! b))")
    case True
    then obtain b where b: "b < unat (ht_size ht)" "entry_is_present ht (ht_table ht ! b)"
      "eqf k (he_key (ht_table ht ! b))" by blast
    show ?thesis
    proof (cases "b = a")
      case True
      have "ht_lookup ht' k = None"
      proof (rule lookup_absent [OF kt'], unfold frame)
        fix c assume c: "c < unat (ht_size ht)" "entry_is_present ht (ht_table ht' ! c)"
        then have "c \<noteq> a" "entry_is_present ht (ht_table ht ! c)" using pres by auto
        then show "\<not> eqf k (he_key (ht_table ht' ! c))"
          using ht_wf_unique [OF wf a c(1)] eq_trans [OF eq_sym [OF b(3)]] c True
          by (auto simp: eqf tab)
      qed
      then show ?thesis using b True by simp
    next
      case False
      then have "\<not> eqf k (he_key (ht_table ht ! a))"
        using ht_wf_unique [OF wf b(1,2) a] eq_trans [OF eq_sym [OF b(3)]] by (auto simp: eqf)
      then show ?thesis using False lookup_present [OF kt b] lookup_present [OF kt', of b k] b pres
        by (simp add: frame tab)
    qed
  next
    case False
    have "ht_lookup ht' k = None"
    proof (rule lookup_absent [OF kt'], unfold frame)
      fix c assume "c < unat (ht_size ht)" "entry_is_present ht (ht_table ht' ! c)"
      then show "\<not> eqf k (he_key (ht_table ht' ! c))" using False pres by (auto simp: tab)
    qed
    moreover have "ht_lookup ht k = None" using lookup_absent [OF kt] False by blast
    ultimately show ?thesis by simp
  qed
  then show "ht_lookup (mesa_hash_table_remove ht (Some a)) k =
      (if eqf k (he_key (ht_table ht ! a)) then None else ht_lookup ht k)"
    by (simp add: ht'_def)
qed

end

end
