(* ===== verification/HashTableMap.thy ===== *)
theory HashTableMap
  imports HashTable
begin

text \<open>
  The hash table as a map: iteration visits the present entries, a rehash keeps the map whatever the
  nesting of rehashes and the failures of the allocator, insertion and removal update it.  The
  locale \<open>keyed_store\<close> is what a client relies on; tables with pointer keys and the wrapper for
  64-bit keys provide it.
\<close>

section \<open>Iteration\<close>

lemma next_present_filter:
  "filter (\<lambda>j. entry_is_present ht (ht_table ht ! j)) [i ..< unat (ht_size ht)] =
    (case next_present ht i of
       None \<Rightarrow> []
     | Some j \<Rightarrow> j # filter (\<lambda>j. entry_is_present ht (ht_table ht ! j)) [Suc j ..< unat (ht_size ht)])"
proof (induction ht i rule: next_present.induct)
  case (1 ht i)
  then show ?case
    by (cases "i < unat (ht_size ht)")
       (auto simp: next_present.simps [of ht i] upt_conv_Cons split: option.splits)
qed

lemma foreach_filter:
  "hash_table_foreach ht entry =
    filter (\<lambda>j. entry_is_present ht (ht_table ht ! j))
      [(case entry of None \<Rightarrow> 0 | Some i \<Rightarrow> Suc i) ..< unat (ht_size ht)]"
proof (induction ht entry rule: hash_table_foreach.induct)
  case (1 ht entry)
  then show ?case
    by (subst hash_table_foreach.simps, subst next_present_filter)
       (auto simp: mesa_hash_table_next_entry_def split: option.splits)
qed

lemma foreach_entries:
  assumes "length (ht_table ht) = unat (ht_size ht)"
  shows "map (nth (ht_table ht)) (hash_table_foreach ht None)
    = filter (entry_is_present ht) (ht_table ht)"
proof -
  have "filter (entry_is_present ht) (ht_table ht)
      = filter (entry_is_present ht) (map (nth (ht_table ht)) [0 ..< unat (ht_size ht)])"
    using assms by (metis map_nth)
  then show ?thesis by (simp add: foreach_filter filter_map comp_def)
qed

section \<open>Rehashing\<close>

lemma hash_sizes_step:
  "\<forall>i \<in> set [0..<20]. fst (snd (hash_sizes ! i)) < fst (snd (hash_sizes ! Suc i))"
  by (simp add: hash_sizes_def upt_rec)

lemma hash_sizes_order:
  "\<forall>i \<in> set [0..<18]. fst (snd (hash_sizes ! i)) \<le> fst (hash_sizes ! Suc (Suc i))
    \<and> fst (snd (hash_sizes ! i)) < fst (snd (hash_sizes ! Suc i))"
  by (simp add: hash_sizes_def upt_rec)

text \<open>The present entries of a well-formed table have pairwise different keys.\<close>

definition ht_distinct :: "(ptr \<Rightarrow> ptr \<Rightarrow> bool) \<Rightarrow> hash_entry list \<Rightarrow> bool" where
  "ht_distinct eqf es \<longleftrightarrow> sorted_wrt (\<lambda>e e'. \<not> eqf (he_key e) (he_key e')) es"

text \<open>The state a rehash starts re-inserting into.\<close>

definition ht_fresh :: "hash_table \<Rightarrow> u32 \<Rightarrow> hash_table" where
  "ht_fresh ht i =
    (let (m, s, r) = size_entry i
     in ht\<lparr>ht_table := replicate (unat s) zero_entry, ht_size_index := i, ht_size := s,
           ht_rehash := r, ht_max_entries := m, ht_entries := 0, ht_deleted_entries := 0\<rparr>)"

lemma rehash_table_eq:
  assumes "unat i < length hash_sizes"
  shows "rehash_table ins alloc ht i =
    (if alloc (fst (snd (size_entry i)))
     then reinsert_entries ins (ht_fresh ht i) (map (nth (ht_table ht)) (hash_table_foreach ht None))
     else Some ht)"
  using assms by (simp add: rehash_table_def rzalloc_entries_def ht_fresh_def split: prod.splits)

lemma ht_fresh_entries:
  assumes "ht_deleted_key ht \<noteq> NULL" "a < unat (ht_size (ht_fresh ht i))"
  shows "\<not> entry_is_present (ht_fresh ht i) (ht_table (ht_fresh ht i) ! a)"
    "\<not> entry_is_deleted (ht_fresh ht i) (ht_table (ht_fresh ht i) ! a)"
  using assms
  by (auto simp: ht_fresh_def zero_entry_def entry_is_present_def entry_is_deleted_def
      split: prod.splits)

lemma ht_fresh_wf:
  assumes "ht_deleted_key ht \<noteq> NULL" "unat i < 20"
  shows "ht_wf hf (ht_fresh ht i)"
proof -
  let ?f = "ht_fresh ht i"
  have f: "ht_size_ok ?f" "length (ht_table ?f) = unat (ht_size ?f)" "ht_deleted_key ?f \<noteq> NULL"
    "ht_entries ?f = 0" "ht_deleted_entries ?f = 0"
    using assms by (auto simp: ht_fresh_def ht_size_ok_def split: prod.splits)
  note e = ht_fresh_entries [OF assms(1), of _ i]
  have "filter (entry_is_present ?f) (ht_table ?f) = []"
    "filter (entry_is_deleted ?f) (ht_table ?f) = []"
    using e f(2) by (auto simp: filter_empty_conv in_set_conv_nth)
  then show ?thesis using f e by (auto simp: ht_wf_def)
qed

lemma ht_fresh_simps:
  "ht_deleted_key (ht_fresh ht i) = ht_deleted_key ht"
  "ht_entries (ht_fresh ht i) = 0" "ht_deleted_entries (ht_fresh ht i) = 0"
  "ht_size_index (ht_fresh ht i) = i" "ht_max_entries (ht_fresh ht i) = fst (size_entry i)"
  "ht_key_equals_function (ht_fresh ht i) = ht_key_equals_function ht"
  "ht_same_frame ht (ht_fresh ht i)"
  by (simp_all add: ht_fresh_def ht_same_frame_def split: prod.splits)

text \<open>
  What re-inserting relies on: on the states \<open>Q\<close> with fewer than \<open>n\<close> entries and no tombstone, \<open>ins\<close>
  stores the entry and stays in \<open>Q\<close>.
\<close>

definition ht_inserts ::
  "(hash_table \<Rightarrow> u32 \<Rightarrow> ptr \<Rightarrow> ptr \<Rightarrow> (hash_table \<times> nat option) option) \<Rightarrow> (ptr \<Rightarrow> ptr \<Rightarrow> bool) \<Rightarrow>
    (hash_table \<Rightarrow> bool) \<Rightarrow> nat \<Rightarrow> hash_entry \<Rightarrow> bool" where
  "ht_inserts ins eqf Q n e \<longleftrightarrow>
    (\<forall>ht. Q ht \<and> ht_deleted_entries ht = 0 \<and> unat (ht_entries ht) < n \<longrightarrow>
      (\<exists>ht' a. ins ht (he_hash e) (he_key e) (he_data e) = Some (ht', Some a) \<and> Q ht' \<and>
         ht_put eqf ht e ht' (Some a) \<and> ht_deleted_entries ht' = 0 \<and>
         unat (ht_entries ht') \<le> Suc (unat (ht_entries ht))))"

context hash_key
begin

lemma present_distinct:
  assumes "kt ht"
  shows "ht_distinct eqf (filter (entry_is_present ht) (ht_table ht))"
proof -
  have wf: "ht_wf hf ht" and eqf: "ht_key_equals_function ht = eqf"
    using assms by (auto simp: kt_def)
  have "sorted_wrt (\<lambda>e e'. entry_is_present ht e \<and> entry_is_present ht e' \<longrightarrow>
      \<not> eqf (he_key e) (he_key e')) (ht_table ht)"
  proof (unfold sorted_wrt_iff_nth_less, clarify)
    fix a b assume "a < b" "b < length (ht_table ht)"
      "entry_is_present ht (ht_table ht ! a)" "entry_is_present ht (ht_table ht ! b)"
      "eqf (he_key (ht_table ht ! a)) (he_key (ht_table ht ! b))"
    then show False using ht_wf_unique [OF wf, of a b] ht_wf_simps(2) [OF wf] by (simp add: eqf)
  qed
  then have "sorted_wrt (\<lambda>e e'. entry_is_present ht e \<and> entry_is_present ht e' \<longrightarrow>
      \<not> eqf (he_key e) (he_key e')) (filter (entry_is_present ht) (ht_table ht))"
    by (rule sorted_wrt_filter)
  then show ?thesis
    unfolding ht_distinct_def
    by (rule sorted_wrt_mono_rel [rotated]) auto
qed

lemma reinsert_correct:
  assumes "ht_distinct eqf es" "\<forall>e \<in> set es. ht_inserts ins eqf Q n e"
    "Q ht" "ht_deleted_entries ht = 0" "unat (ht_entries ht) + length es \<le> n"
  shows "\<exists>ht'. reinsert_entries ins ht es = Some ht' \<and> Q ht' \<and> ht_deleted_entries ht' = 0
    \<and> unat (ht_entries ht') \<le> unat (ht_entries ht) + length es
    \<and> (\<forall>k. ht_lookup ht' k = (case find (\<lambda>e. eqf k (he_key e)) es of
           Some e \<Rightarrow> Some (he_data e) | None \<Rightarrow> ht_lookup ht k))"
  using assms
proof (induction es arbitrary: ht)
  case (Cons e es)
  have "unat (ht_entries ht) < n" using Cons.prems(5) by simp
  then obtain h a where h: "ins ht (he_hash e) (he_key e) (he_data e) = Some (h, Some a)" "Q h"
    "ht_put eqf ht e h (Some a)" "ht_deleted_entries h = 0"
    "unat (ht_entries h) \<le> Suc (unat (ht_entries ht))"
    using Cons.prems(2-4) by (auto simp: ht_inserts_def)
  obtain ht' where ht': "reinsert_entries ins h es = Some ht'" "Q ht'" "ht_deleted_entries ht' = 0"
    "unat (ht_entries ht') \<le> unat (ht_entries h) + length es"
    and look: "\<forall>k. ht_lookup ht' k = (case find (\<lambda>e. eqf k (he_key e)) es of
           Some e \<Rightarrow> Some (he_data e) | None \<Rightarrow> ht_lookup h k)"
    using Cons.IH [of h] Cons.prems h by (force simp: ht_distinct_def)
  have "find (\<lambda>e. eqf k (he_key e)) es = None" if "eqf k (he_key e)" for k
  proof -
    have "\<not> eqf k (he_key e')" if "e' \<in> set es" for e'
    proof
      assume "eqf k (he_key e')"
      then have "eqf (he_key e) (he_key e')" using eq_trans [OF eq_sym] \<open>eqf k (he_key e)\<close> by blast
      then show False using Cons.prems(1) that by (simp add: ht_distinct_def)
    qed
    then show ?thesis by (simp add: find_None_iff)
  qed
  then have "ht_lookup ht' k = (case find (\<lambda>e. eqf k (he_key e)) (e # es) of
           Some e \<Rightarrow> Some (he_data e) | None \<Rightarrow> ht_lookup ht k)" for k
    using look h(3) by (auto simp: ht_put_def split: option.splits)
  then show ?case using h ht' by auto
qed simp

lemma lookup_find:
  assumes "kt ht"
  shows "ht_lookup ht k = map_option he_data
    (find (\<lambda>e. eqf k (he_key e)) (filter (entry_is_present ht) (ht_table ht)))"
proof -
  have "find P (filter Q xs) = find (\<lambda>x. Q x \<and> P x) xs" for P Q and xs :: "hash_entry list"
    by (induction xs) auto
  then show ?thesis using assms by (simp add: ht_lookup_def kt_def)
qed

text \<open>A rehash that re-inserts with a good insertion keeps the map.\<close>

lemma rehash_correct_gen:
  assumes kt: "kt ht" and i: "unat i < 20" and n: "unat (ht_entries ht) \<le> n"
    and Q: "Q (ht_fresh ht i)"
    and ins: "\<And>e. e \<in> set (filter (entry_is_present ht) (ht_table ht)) \<Longrightarrow> ht_inserts ins eqf Q n e"
  shows "\<exists>ht'. rehash_table ins alloc ht i = Some ht' \<and>
    (if alloc (fst (snd (size_entry i)))
     then Q ht' \<and> ht_deleted_entries ht' = 0 \<and> unat (ht_entries ht') \<le> unat (ht_entries ht)
     else ht' = ht) \<and> (\<forall>k. ht_lookup ht' k = ht_lookup ht k)"
proof -
  have wf: "ht_wf hf ht" and eqf: "ht_key_equals_function ht = eqf" using kt by (auto simp: kt_def)
  note w = ht_wf_simps [OF wf]
  have i': "unat i < length hash_sizes" using i by (simp add: hash_sizes_def)
  let ?es = "filter (entry_is_present ht) (ht_table ht)" and ?f = "ht_fresh ht i"
  note f = ht_fresh_simps [of ht i]
  have kf: "kt ?f" using ht_fresh_wf [OF w(3) i] by (simp add: kt_def f eqf)
  have none: "ht_lookup ?f k = None" for k
    by (rule lookup_absent [OF kf]) (use ht_fresh_entries [OF w(3)] in blast)
  obtain ht' where ht': "reinsert_entries ins ?f ?es = Some ht'" "Q ht'"
      "ht_deleted_entries ht' = 0" "unat (ht_entries ht') \<le> length ?es"
      "\<forall>k. ht_lookup ht' k = (case find (\<lambda>e. eqf k (he_key e)) ?es of
           Some e \<Rightarrow> Some (he_data e) | None \<Rightarrow> ht_lookup ?f k)"
    using reinsert_correct [OF present_distinct [OF kt], of ins Q n ?f] ins Q n
    by (auto simp: f w(4))
  have "ht_lookup ht' k = ht_lookup ht k" for k
    by (simp add: ht'(5) none lookup_find [OF kt] split: option.split)
  with ht' show ?thesis
    by (auto simp: rehash_table_eq [OF i'] foreach_entries [OF w(2)] w(4))
qed

end

text \<open>The facts of \<open>hash_sizes\<close> a rehash relies on.\<close>

lemma size_entry_facts:
  assumes "unat i < 18"
  shows "unat (i + 1) = Suc (unat i)"
    "unat (fst (size_entry i)) < unat (fst (size_entry (i + 1)))"
    "unat (fst (snd (size_entry i))) < unat (fst (snd (size_entry (i + 1))))"
    "unat (fst (snd (size_entry i))) \<le> unat (fst (size_entry (i + 1 + 1)))"
proof -
  have s: "unat (i + 1) = Suc (unat i)" using assms by (intro unat_Suc_less) simp
  have s2: "unat (i + 1 + 1) = Suc (Suc (unat i))"
    unfolding s [symmetric] using assms s by (intro unat_Suc_less) simp
  show "unat (i + 1) = Suc (unat i)" by (rule s)
  show "unat (fst (size_entry i)) < unat (fst (size_entry (i + 1)))"
    using hash_sizes_grow assms by (simp add: size_entry_def s)
  show "unat (fst (snd (size_entry i))) < unat (fst (snd (size_entry (i + 1))))"
    "unat (fst (snd (size_entry i))) \<le> unat (fst (size_entry (i + 1 + 1)))"
    unfolding size_entry_def s s2 using hash_sizes_order assms
    by (simp_all add: word_le_nat_alt word_less_nat_alt)
qed

lemma ht_size_ok_entry:
  assumes "ht_size_ok ht"
  shows "ht_max_entries ht = fst (size_entry (ht_size_index ht))"
    "ht_size ht = fst (snd (size_entry (ht_size_index ht)))"
  using assms by (auto simp: ht_size_ok_def)

lemma ht_same_size_fresh: "ht_same_size ht ht' \<Longrightarrow> ht_size_index ht' = ht_size_index ht"
  by (simp add: ht_same_size_def)

lemma insert_slot_only:
  assumes "ht_deleted_entries ht = 0" "unat (ht_entries ht) < unat (ht_max_entries ht)"
  shows "hash_table_insert (Suc n) alloc ht hash key d = insert_at_slot ht hash key d"
  using assms by (simp add: word_le_nat_alt)

context hash_key
begin

lemma slot_step:
  fixes key d
  defines "e \<equiv> \<lparr>he_hash = hf key, he_key = key, he_data = d\<rparr>"
  assumes kt: "kt ht" and key: "key \<noteq> NULL" "key \<noteq> ht_deleted_key ht"
    and room: "Suc (unat (ht_entries ht)) < unat (ht_size ht)"
  shows "\<exists>ht' a. insert_at_slot ht (hf key) key d = Some (ht', Some a) \<and> kt ht'
    \<and> ht_same_frame ht ht' \<and> ht_same_size ht ht' \<and> ht_counted ht ht' \<and> ht_put eqf ht e ht' (Some a)"
proof -
  obtain ht' r where r: "insert_at_slot ht (hf key) key d = Some (ht', r)" "kt ht'"
    "ht_same_frame ht ht'" "ht_same_size ht ht'" "ht_counted ht ht'" "ht_put eqf ht e ht' r"
    using insert_slot_correct [OF kt key] unfolding e_def by blast
  have "r \<noteq> None"
    using r(4-6) room
    by (auto simp: ht_put_def ht_counted_def ht_same_size_def split: option.splits)
  with r show ?thesis by auto
qed

text \<open>Entries of a well-formed table, as the re-insertion sees them.\<close>

lemma present_entry:
  assumes "kt ht" "e \<in> set (filter (entry_is_present ht) (ht_table ht))"
  shows "e = \<lparr>he_hash = hf (he_key e), he_key = he_key e, he_data = he_data e\<rparr>"
    "he_key e \<noteq> NULL" "he_key e \<noteq> ht_deleted_key ht"
proof -
  obtain a where "a < unat (ht_size ht)" "e = ht_table ht ! a" "entry_is_present ht e"
    using assms ht_wf_simps(2) by (auto simp: kt_def in_set_conv_nth)
  then show "e = \<lparr>he_hash = hf (he_key e), he_key = he_key e, he_data = he_data e\<rparr>"
    "he_key e \<noteq> NULL" "he_key e \<noteq> ht_deleted_key ht"
    using ht_wf_present(1) [of hf ht a] assms(1) by (auto simp: kt_def entry_is_present_def)
qed

text \<open>The states a rehash to size index \<open>i\<close> goes through when no insertion rehashes again.\<close>

definition grown :: "hash_table \<Rightarrow> u32 set \<Rightarrow> hash_table \<Rightarrow> bool" where
  "grown ht I ht' \<longleftrightarrow> kt ht' \<and> ht_same_frame ht ht' \<and> ht_size_index ht' \<in> I"

lemma grown_fresh:
  assumes "kt ht" "unat i < 20" "i \<in> I"
  shows "grown ht I (ht_fresh ht i)"
proof -
  have "ht_wf hf ht" "ht_key_equals_function ht = eqf" using assms(1) by (auto simp: kt_def)
  then show ?thesis
    using assms ht_fresh_wf [of ht i] ht_wf_simps(3)
    by (auto simp: grown_def kt_def ht_fresh_simps)
qed

lemma grown_step:
  assumes g: "grown ht I h" and e: "kt ht" "e \<in> set (filter (entry_is_present ht) (ht_table ht))"
    and room: "ht_deleted_entries h = 0" "Suc (unat (ht_entries h)) < unat (ht_size h)"
  shows "\<exists>h' a. insert_at_slot h (he_hash e) (he_key e) (he_data e) = Some (h', Some a) \<and>
      grown ht I h' \<and> ht_put eqf h e h' (Some a) \<and> ht_deleted_entries h' = 0 \<and>
      unat (ht_entries h') \<le> Suc (unat (ht_entries h))"
proof -
  note p = present_entry [OF e]
  have "he_key e \<noteq> ht_deleted_key h" using p(3) g by (simp add: grown_def ht_same_frame_def)
  with slot_step [of h "he_key e" "he_data e"] g p(2) room(2) obtain h' a where
    h': "insert_at_slot h (hf (he_key e)) (he_key e) (he_data e) = Some (h', Some a)" "kt h'"
    "ht_same_frame h h'" "ht_same_size h h'" "ht_counted h h'"
    "ht_put eqf h \<lparr>he_hash = hf (he_key e), he_key = he_key e, he_data = he_data e\<rparr> h' (Some a)"
    by (auto simp: grown_def)
  have "he_hash e = hf (he_key e)" using p(1) by (metis hash_entry.select_convs(1))
  moreover have "ht_put eqf h e h' (Some a)" using h'(6) p(1) by simp
  moreover have "grown ht I h'"
    using g h' by (auto simp: grown_def ht_same_size_def intro: ht_same_frame_trans)
  moreover have "ht_deleted_entries h' = 0"
    using h'(5) room(1) by (simp add: ht_counted_def unat_eq_0)
  ultimately show ?thesis using h' by (auto simp: ht_counted_def)
qed

lemma inserts_level1:
  assumes kt: "kt ht" and e: "e \<in> set (filter (entry_is_present ht) (ht_table ht))"
  shows "ht_inserts (hash_table_insert (Suc n) alloc) eqf (grown ht {i}) (unat (fst (size_entry i))) e"
  unfolding ht_inserts_def
proof (intro allI impI)
  fix h assume h: "grown ht {i} h \<and> ht_deleted_entries h = 0
    \<and> unat (ht_entries h) < unat (fst (size_entry i))"
  then have ok: "ht_size_ok h" by (simp add: grown_def kt_def ht_wf_def)
  have max: "unat (ht_entries h) < unat (ht_max_entries h)"
    using h ht_size_ok_entry(1) [OF ok] by (simp add: grown_def)
  then have "Suc (unat (ht_entries h)) < unat (ht_size h)" using ht_size_okD(5) [OF ok] by simp
  then show "\<exists>ht' a. hash_table_insert (Suc n) alloc h (he_hash e) (he_key e) (he_data e) =
      Some (ht', Some a) \<and> grown ht {i} ht' \<and> ht_put eqf h e ht' (Some a) \<and>
      ht_deleted_entries ht' = 0 \<and> unat (ht_entries ht') \<le> Suc (unat (ht_entries h))"
    using grown_step [OF _ kt e, of "{i}" h] h insert_slot_only [OF _ max] by simp
qed

text \<open>A rehash to a size that holds all entries: no insertion of it rehashes.\<close>

lemma rehash_level1:
  assumes kt: "kt ht" and i: "unat i < 20"
    and n: "unat (ht_entries ht) \<le> unat (fst (size_entry i))"
  shows "\<exists>ht'. rehash_table (hash_table_insert (Suc n) alloc) alloc ht i = Some ht' \<and>
    (if alloc (fst (snd (size_entry i)))
     then grown ht {i} ht' \<and> ht_deleted_entries ht' = 0 \<and> unat (ht_entries ht') \<le> unat (ht_entries ht)
     else ht' = ht) \<and> (\<forall>k. ht_lookup ht' k = ht_lookup ht k)"
  by (rule rehash_correct_gen [OF kt i n grown_fresh [OF kt i] inserts_level1 [OF kt]]) simp

lemma inserts_level2:
  assumes kt: "kt ht" and e: "e \<in> set (filter (entry_is_present ht) (ht_table ht))"
    and i: "unat (i + 1) < 20" "unat (i + 1) = Suc (unat i)"
    and m: "m \<le> unat (fst (size_entry (i + 1)))" "m < unat (fst (snd (size_entry i)))"
      "unat (fst (snd (size_entry i))) < unat (fst (snd (size_entry (i + 1))))"
  shows "ht_inserts (hash_table_insert (Suc (Suc n)) alloc) eqf (grown ht {i, i + 1}) m e"
  unfolding ht_inserts_def
proof (intro allI impI)
  let ?I = "{i, i + 1}"
  fix h assume h: "grown ht ?I h \<and> ht_deleted_entries h = 0 \<and> unat (ht_entries h) < m"
  then have kh: "kt h" and ok: "ht_size_ok h" by (auto simp: grown_def kt_def ht_wf_def)
  note se = ht_size_ok_entry [OF ok]
  have room: "Suc (unat (ht_entries h')) < unat (ht_size h')"
    if "grown ht ?I h'" "unat (ht_entries h') \<le> unat (ht_entries h)" for h'
    using that h m ht_size_ok_entry(2) [of h'] by (auto simp: grown_def kt_def ht_wf_def)
  show "\<exists>ht' a. hash_table_insert (Suc (Suc n)) alloc h (he_hash e) (he_key e) (he_data e) =
      Some (ht', Some a) \<and> grown ht ?I ht' \<and> ht_put eqf h e ht' (Some a) \<and>
      ht_deleted_entries ht' = 0 \<and> unat (ht_entries ht') \<le> Suc (unat (ht_entries h))"
  proof (cases "unat (ht_entries h) < unat (ht_max_entries h)")
    case True
    then show ?thesis
      using grown_step [OF _ kt e, of ?I h] h insert_slot_only [OF _ True] room [of h] by simp
  next
    case False
    then have idx: "ht_size_index h = i" using h m(1) se(1) by (auto simp: grown_def)
    have "unat (ht_entries h) \<le> unat (fst (size_entry (i + 1)))" using h m(1) by simp
    from rehash_level1 [OF kh i(1) this, of n alloc] obtain h1 where
      h1: "rehash_table (hash_table_insert (Suc n) alloc) alloc h (i + 1) = Some h1"
      "if alloc (fst (snd (size_entry (i + 1))))
       then grown h {i + 1} h1 \<and> ht_deleted_entries h1 = 0 \<and> unat (ht_entries h1) \<le> unat (ht_entries h)
       else h1 = h" and look: "\<forall>k. ht_lookup h1 k = ht_lookup h k" by blast
    have h1': "grown ht ?I h1" "ht_deleted_entries h1 = 0" "unat (ht_entries h1) \<le> unat (ht_entries h)"
      using h1(2) h by (auto simp: grown_def ht_same_frame_def split: if_splits)
    from grown_step [OF h1'(1) kt e h1'(2) room [OF h1'(1,3)]] obtain h' a where
      h': "insert_at_slot h1 (he_hash e) (he_key e) (he_data e) = Some (h', Some a)"
      "grown ht ?I h'" "ht_put eqf h1 e h' (Some a)" "ht_deleted_entries h' = 0"
      "unat (ht_entries h') \<le> Suc (unat (ht_entries h1))" by blast
    have "hash_table_insert (Suc (Suc n)) alloc h (he_hash e) (he_key e) (he_data e)
        = Some (h', Some a)"
      using False h1(1) h'(1) idx by (simp add: word_le_nat_alt del: hash_table_insert.simps
          add: hash_table_insert.simps(2) [of "Suc n"])
    moreover have "ht_put eqf h e h' (Some a)" using h'(3) look by (simp add: ht_put_def)
    ultimately show ?thesis using h' h1'(3) by auto
  qed
qed

end

section \<open>Insertion\<close>

text \<open>After at most \<open>n\<close> insertions into a new table, none of whose allocations failed.\<close>

definition ht_steps :: "hash_table \<Rightarrow> nat \<Rightarrow> bool" where
  "ht_steps ht n \<longleftrightarrow> ht_entries ht \<le> ht_max_entries ht \<and> unat (ht_entries ht) \<le> n \<and>
     (ht_size_index ht = 0 \<or> unat (fst (size_entry (ht_size_index ht - 1))) \<le> n)"

lemma ht_steps_index:
  assumes "ht_wf hf ht" "ht_steps ht n" "n < 131072"
  shows "unat (ht_size_index ht) < 17"
proof (rule ccontr)
  assume "\<not> ?thesis"
  moreover have "unat (ht_size_index ht) < 20"
    using ht_wf_simps(1) [OF assms(1)] by (simp add: ht_size_ok_def)
  ultimately have "unat (ht_size_index ht) \<in> {17, 18, 19}" by auto
  then have i: "ht_size_index ht = 17 \<or> ht_size_index ht = 18 \<or> ht_size_index ht = 19"
    by (auto simp: word_unat_eq_iff)
  then have "131072 \<le> unat (fst (size_entry (ht_size_index ht - 1)))"
    by (auto simp: size_entry_def hash_sizes_def)
  then show False using assms(2,3) i by (auto simp: ht_steps_def)
qed

context hash_key
begin

lemma rehash_level2:
  assumes kt: "kt ht" and i: "i = ht_size_index ht" "unat i < 18"
  shows "\<exists>ht'. rehash_table (hash_table_insert (Suc (Suc n)) alloc) alloc ht (i + 1) = Some ht' \<and>
    kt ht' \<and> ht_same_frame ht ht' \<and> (\<forall>k. ht_lookup ht' k = ht_lookup ht k)"
proof -
  let ?I = "{i + 1, i + 1 + 1}"
  note f = size_entry_facts [OF i(2)]
  have wf: "ht_wf hf ht" using kt by (simp add: kt_def)
  have e: "unat (ht_entries ht) \<le> unat (fst (snd (size_entry i)))"
    using ht_entries_bound(1) [OF wf] ht_size_ok_entry(2) [OF ht_wf_simps(1) [OF wf]] i by simp
  have i1: "unat (i + 1) < 20" "unat (i + 1 + 1) = Suc (unat (i + 1))"
    using f(1) i(2) by (simp, intro unat_Suc_less) simp
  have i2: "unat (i + 1 + 1) < 20" using f(1) i1 i(2) by simp
  have lt: "unat (fst (snd (size_entry (i + 1)))) < unat (fst (snd (size_entry (i + 1 + 1))))"
    unfolding size_entry_def i1(2) f(1) using hash_sizes_facts hash_sizes_step i(2)
    by (simp add: word_less_nat_alt)
  have "ht_inserts (hash_table_insert (Suc (Suc n)) alloc) eqf (grown ht ?I)
      (unat (fst (snd (size_entry i)))) x"
    if "x \<in> set (filter (entry_is_present ht) (ht_table ht))" for x
    by (rule inserts_level2 [OF kt that i2 i1(2) f(4) f(3) lt])
  from rehash_correct_gen [OF kt i1(1) e grown_fresh [OF kt i1(1)] this]
  obtain ht' where "rehash_table (hash_table_insert (Suc (Suc n)) alloc) alloc ht (i + 1) = Some ht'"
    "if alloc (fst (snd (size_entry (i + 1)))) then grown ht ?I ht' \<and> ht_deleted_entries ht' = 0
        \<and> unat (ht_entries ht') \<le> unat (ht_entries ht) else ht' = ht"
    "\<forall>k. ht_lookup ht' k = ht_lookup ht k" by blast
  then show ?thesis using kt by (auto simp: grown_def split: if_splits)
qed

text \<open>The rehash an insertion starts with, whatever the condition \<open>c\<close> on which it drops the tombstones.\<close>

lemma insert_prepare:
  assumes kt: "kt ht" and i: "unat (ht_size_index ht) < 18"
  shows "\<exists>ht'. (if ht_max_entries ht \<le> ht_entries ht
           then rehash_table (hash_table_insert (Suc (Suc n)) alloc) alloc ht (ht_size_index ht + 1)
           else if c
           then rehash_table (hash_table_insert (Suc (Suc n)) alloc) alloc ht (ht_size_index ht)
           else Some ht) = Some ht' \<and>
    kt ht' \<and> ht_same_frame ht ht' \<and> (\<forall>k. ht_lookup ht' k = ht_lookup ht k)"
proof -
  have ok: "ht_size_ok ht" using kt by (simp add: kt_def ht_wf_def)
  consider "ht_max_entries ht \<le> ht_entries ht"
    | "\<not> ht_max_entries ht \<le> ht_entries ht" c
    | "\<not> ht_max_entries ht \<le> ht_entries ht"
      "\<not> c" by blast
  then show ?thesis
  proof cases
    case 1
    with rehash_level2 [OF kt refl i] show ?thesis by simp
  next
    case 2
    then have "unat (ht_entries ht) \<le> unat (fst (size_entry (ht_size_index ht)))"
      using ht_size_ok_entry(1) [OF ok] by (simp add: word_le_nat_alt)
    with rehash_level1 [OF kt _ this, of "Suc n" alloc] i obtain ht' where
      "rehash_table (hash_table_insert (Suc (Suc n)) alloc) alloc ht (ht_size_index ht) = Some ht'"
      "if alloc (fst (snd (size_entry (ht_size_index ht)))) then grown ht {ht_size_index ht} ht'
          \<and> ht_deleted_entries ht' = 0 \<and> unat (ht_entries ht') \<le> unat (ht_entries ht) else ht' = ht"
      "\<forall>k. ht_lookup ht' k = ht_lookup ht k" by auto
    with 2 kt show ?thesis by (auto simp: grown_def split: if_splits)
  next
    case 3
    with kt show ?thesis by auto
  qed
qed

lemma insert_from_prepare:
  assumes prep: "(if ht_max_entries ht \<le> ht_entries ht
           then rehash_table (hash_table_insert n alloc) alloc ht (ht_size_index ht + 1)
           else if ht_max_entries ht \<le> ht_deleted_entries ht + ht_entries ht
           then rehash_table (hash_table_insert n alloc) alloc ht (ht_size_index ht)
           else Some ht) = Some h"
    and h: "kt h" "ht_same_frame ht h" "\<forall>k. ht_lookup h k = ht_lookup ht k"
    and key: "key \<noteq> NULL" "key \<noteq> ht_deleted_key ht"
  shows "\<exists>ht' r. hash_table_insert (Suc n) alloc ht (hf key) key d = Some (ht', r)
    \<and> kt ht' \<and> ht_same_frame ht ht' \<and> ht_same_size h ht' \<and> ht_counted h ht'
    \<and> ht_put eqf ht \<lparr>he_hash = hf key, he_key = key, he_data = d\<rparr> ht' r"
proof -
  have "key \<noteq> ht_deleted_key h" using key h by (simp add: ht_same_frame_def)
  from insert_slot_correct [OF h(1) key(1) this, of d] obtain ht' r where
    s: "insert_at_slot h (hf key) key d = Some (ht', r)" "kt ht'" "ht_same_frame h ht'"
    "ht_same_size h ht'" "ht_counted h ht'"
    "ht_put eqf h \<lparr>he_hash = hf key, he_key = key, he_data = d\<rparr> ht' r" by blast
  have "hash_table_insert (Suc n) alloc ht (hf key) key d = Some (ht', r)"
    by (simp add: prep s(1))
  moreover have "ht_put eqf ht \<lparr>he_hash = hf key, he_key = key, he_data = d\<rparr> ht' r"
    using s(6) h(3) by (auto simp: ht_put_def fun_eq_iff split: option.splits)
  ultimately show ?thesis using s ht_same_frame_trans [OF h(2) s(3)] by blast
qed

theorem insert_correct:
  assumes kt: "kt ht" and i: "unat (ht_size_index ht) < 18"
    and key: "key \<noteq> NULL" "key \<noteq> ht_deleted_key ht"
  shows "\<exists>ht' r. hash_table_insert (Suc (Suc (Suc n))) alloc ht (hf key) key d = Some (ht', r)
    \<and> kt ht' \<and> ht_same_frame ht ht' \<and> ht_put eqf ht \<lparr>he_hash = hf key, he_key = key, he_data = d\<rparr> ht' r"
proof -
  obtain h where h: "(if ht_max_entries ht \<le> ht_entries ht
           then rehash_table (hash_table_insert (Suc (Suc n)) alloc) alloc ht (ht_size_index ht + 1)
           else if ht_max_entries ht \<le> ht_deleted_entries ht + ht_entries ht
           then rehash_table (hash_table_insert (Suc (Suc n)) alloc) alloc ht (ht_size_index ht)
           else Some ht) = Some h"
    "kt h" "ht_same_frame ht h" "\<forall>k. ht_lookup h k = ht_lookup ht k"
    using insert_prepare [OF kt i] by blast
  from insert_from_prepare [OF this key] show ?thesis by blast
qed

end

context hash_key
begin

lemma insert_prepare_steps:
  assumes kt: "kt ht" and n: "ht_steps ht n" "n < 131072" and alloc: "\<And>s. alloc s"
  shows "\<exists>h. (if ht_max_entries ht \<le> ht_entries ht
           then rehash_table (hash_table_insert (Suc m) alloc) alloc ht (ht_size_index ht + 1)
           else if c
           then rehash_table (hash_table_insert (Suc m) alloc) alloc ht (ht_size_index ht)
           else Some ht) = Some h \<and>
    kt h \<and> ht_same_frame ht h \<and> (\<forall>k. ht_lookup h k = ht_lookup ht k) \<and>
    unat (ht_entries h) < unat (ht_max_entries h) \<and> ht_steps h n"
proof -
  let ?i = "ht_size_index ht"
  have wf: "ht_wf hf ht" and ok: "ht_size_ok ht" using kt by (auto simp: kt_def ht_wf_def)
  have i: "unat ?i < 18" using ht_steps_index [OF wf n] by simp
  note f = size_entry_facts [OF i] and max = ht_size_ok_entry(1) [OF ok]
  have e: "unat (ht_entries ht) \<le> unat (fst (size_entry ?i))" "unat (ht_entries ht) \<le> n"
    using n(1) max by (auto simp: ht_steps_def word_le_nat_alt)
  consider "ht_max_entries ht \<le> ht_entries ht"
    | "\<not> ht_max_entries ht \<le> ht_entries ht" c
    | "\<not> ht_max_entries ht \<le> ht_entries ht"
      "\<not> c" by blast
  then show ?thesis
  proof cases
    case 1
    have i1: "unat (?i + 1) < 20" "unat (ht_entries ht) \<le> unat (fst (size_entry (?i + 1)))"
      using f i e by simp_all
    from rehash_level1 [OF kt i1, of m alloc] alloc obtain h where
      r: "rehash_table (hash_table_insert (Suc m) alloc) alloc ht (?i + 1) = Some h" and
      h: "grown ht {?i + 1} h" "unat (ht_entries h) \<le> unat (ht_entries ht)"
      "\<forall>k. ht_lookup h k = ht_lookup ht k" by auto
    have kh: "kt h" "ht_same_frame ht h" "ht_size_index h = ?i + 1" using h(1) by (auto simp: grown_def)
    then have mh: "ht_max_entries h = fst (size_entry (?i + 1))"
      using ht_size_ok_entry(1) [of h] by (simp add: kt_def ht_wf_def)
    have "unat (fst (size_entry ?i)) \<le> n" using 1 e(2) max by (simp add: word_le_nat_alt)
    then have "ht_steps h n"
      using h(2) e f(2) kh(3) mh by (simp add: ht_steps_def word_le_nat_alt)
    moreover have "unat (ht_entries h) < unat (ht_max_entries h)" using h(2) e(1) f(2) mh by simp
    ultimately show ?thesis using 1 r kh h(3) by auto
  next
    case 2
    from rehash_level1 [OF kt _ e(1), of m alloc] alloc i obtain h where
      r: "rehash_table (hash_table_insert (Suc m) alloc) alloc ht ?i = Some h" and
      h: "grown ht {?i} h" "unat (ht_entries h) \<le> unat (ht_entries ht)"
      "\<forall>k. ht_lookup h k = ht_lookup ht k" by auto
    have kh: "kt h" "ht_same_frame ht h" "ht_size_index h = ?i" using h(1) by (auto simp: grown_def)
    then have mh: "ht_max_entries h = ht_max_entries ht"
      using ht_size_ok_entry(1) [of h] max by (simp add: kt_def ht_wf_def)
    have lt: "unat (ht_entries h) < unat (ht_max_entries h)"
      using 2 h(2) mh by (simp add: word_le_nat_alt)
    then have "ht_steps h n" using n(1) h(2) kh(3) by (auto simp: ht_steps_def word_le_nat_alt)
    with 2 r kh h(3) lt show ?thesis by auto
  next
    case 3
    with kt n(1) show ?thesis by (auto simp: word_le_nat_alt)
  qed
qed

theorem insert_steps:
  assumes kt: "kt ht" and n: "ht_steps ht n" "n < 131072" and alloc: "\<And>s. alloc s"
    and key: "key \<noteq> NULL" "key \<noteq> ht_deleted_key ht"
  shows "\<exists>ht' a. hash_table_insert (Suc (Suc m)) alloc ht (hf key) key d = Some (ht', Some a)
    \<and> kt ht' \<and> ht_same_frame ht ht' \<and> ht_steps ht' (Suc n)
    \<and> ht_put eqf ht \<lparr>he_hash = hf key, he_key = key, he_data = d\<rparr> ht' (Some a)"
proof -
  from insert_prepare_steps [of ht n alloc m "ht_max_entries ht \<le> ht_deleted_entries ht + ht_entries ht", OF kt n alloc] obtain h where
    p: "(if ht_max_entries ht \<le> ht_entries ht
           then rehash_table (hash_table_insert (Suc m) alloc) alloc ht (ht_size_index ht + 1)
           else if ht_max_entries ht \<le> ht_deleted_entries ht + ht_entries ht
           then rehash_table (hash_table_insert (Suc m) alloc) alloc ht (ht_size_index ht)
           else Some ht) = Some h"
    and h: "kt h" "ht_same_frame ht h" "\<forall>k. ht_lookup h k = ht_lookup ht k"
      "unat (ht_entries h) < unat (ht_max_entries h)" "ht_steps h n" by blast
  from insert_from_prepare [OF p h(1-3) key, of d] obtain ht' r where
    r: "hash_table_insert (Suc (Suc m)) alloc ht (hf key) key d = Some (ht', r)" "kt ht'"
    "ht_same_frame ht ht'" "ht_same_size h ht'" "ht_counted h ht'"
    "ht_put eqf ht \<lparr>he_hash = hf key, he_key = key, he_data = d\<rparr> ht' r" by blast
  have "ht_size_ok h" using h(1) by (simp add: kt_def ht_wf_def)
  then have "unat (ht_entries ht') \<le> unat (ht_max_entries ht')"
    "unat (ht_entries ht') < unat (ht_size ht')"
    using r(4,5) h(4) ht_size_okD(5) [of h] by (auto simp: ht_same_size_def ht_counted_def)
  moreover from this have "r \<noteq> None" using r(6) by (auto simp: ht_put_def split: option.splits)
  moreover have "ht_steps ht' (Suc n)"
    using h(5) r(4,5) calculation(1) by (auto simp: ht_steps_def ht_same_size_def ht_counted_def
        word_le_nat_alt)
  ultimately show ?thesis using r by auto
qed

lemma remove_steps:
  assumes "kt ht" "ht_steps ht n" "a < unat (ht_size ht)" "entry_is_present ht (ht_table ht ! a)"
  shows "ht_steps (mesa_hash_table_remove ht (Some a)) n"
proof -
  have "unat (ht_entries ht) \<noteq> 0"
    using assms ht_wf_simps(2,4) [of hf ht] by (auto simp: kt_def filter_empty_conv)
  then have "unat (ht_entries ht - 1) = unat (ht_entries ht) - 1"
    by (intro unat_minus_one_pos) auto
  then show ?thesis
    using assms(2) by (auto simp: ht_steps_def mesa_hash_table_remove_def word_le_nat_alt)
qed

end

section \<open>New tables and clearing\<close>

lemma ht_fresh_new:
  assumes "ht_deleted_key ht \<noteq> NULL"
  shows "ht_wf hf (ht_fresh ht 0)" "ht_steps (ht_fresh ht 0) 0"
    "ht_lookup (ht_fresh ht 0) = (\<lambda>_. None)"
proof -
  note e = ht_fresh_entries [OF assms, of _ 0]
  show wf: "ht_wf hf' (ht_fresh ht 0)" for hf' by (rule ht_fresh_wf [OF assms]) simp
  show "ht_steps (ht_fresh ht 0) 0" by (simp add: ht_steps_def ht_fresh_simps)
  show "ht_lookup (ht_fresh ht 0) = (\<lambda>_. None)"
    using e ht_wf_simps(2) [OF wf]
    by (auto simp: ht_lookup_def find_None_iff in_set_conv_nth fun_eq_iff)
qed

lemma create_fresh:
  "\<exists>ht0. mesa_hash_table_create (\<lambda>_. True) deleted_addr f eqf = Some (ht_fresh ht0 0)
    \<and> ht_key_hash_function (ht_fresh ht0 0) = f \<and> ht_key_equals_function (ht_fresh ht0 0) = eqf
    \<and> ht_deleted_key ht0 = deleted_addr"
  by (rule exI [of _ "\<lparr>ht_table = [], ht_key_hash_function = f, ht_key_equals_function = eqf,
     ht_deleted_key = deleted_addr, ht_size = 0, ht_rehash = 0, ht_max_entries = 0,
     ht_size_index = 0, ht_entries = 0, ht_deleted_entries = 0\<rparr>"])
    (simp add: mesa_hash_table_create_def rzalloc_entries_def ht_fresh_def split: prod.splits)

lemma ht_fresh_set_deleted_key:
  "mesa_hash_table_set_deleted_key (ht_fresh ht i) k = ht_fresh (ht\<lparr>ht_deleted_key := k\<rparr>) i"
  by (simp add: mesa_hash_table_set_deleted_key_def ht_fresh_def split: prod.splits)

lemma clear_entries_result:
  "clear_entries ht es =
    (map (\<lambda>e. e\<lparr>he_key := NULL\<rparr>) es, filter (entry_is_present ht) es)"
  by (induction es) (auto simp: entry_is_present_def split: prod.splits)

lemma clear_correct:
  assumes "ht_wf hf ht"
  shows "ht_wf hf (fst (mesa_hash_table_clear ht))"
    "ht_lookup (fst (mesa_hash_table_clear ht)) k = None"
    "snd (mesa_hash_table_clear ht) = filter (entry_is_present ht) (ht_table ht)"
proof -
  let ?c = "fst (mesa_hash_table_clear ht)"
  note w = ht_wf_simps [OF assms]
  have c: "?c = ht\<lparr>ht_table := map (\<lambda>e. e\<lparr>he_key := NULL\<rparr>) (ht_table ht), ht_entries := 0,
      ht_deleted_entries := 0\<rparr>"
    by (simp add: mesa_hash_table_clear_def clear_entries_result)
  have n: "\<not> entry_is_present ?c e" "\<not> entry_is_deleted ?c e" if "e \<in> set (ht_table ?c)" for e
    using that w(3) by (auto simp: c entry_is_present_def entry_is_deleted_def)
  have "filter (entry_is_present ?c) (ht_table ?c) = []"
    "filter (entry_is_deleted ?c) (ht_table ?c) = []"
    using n by (auto simp: filter_empty_conv)
  moreover have "ht_size_ok ?c" "length (ht_table ?c) = unat (ht_size ?c)" "ht_deleted_key ?c \<noteq> NULL"
    "ht_entries ?c = 0" "ht_deleted_entries ?c = 0"
    using w by (auto simp: c ht_size_ok_def)
  ultimately show "ht_wf hf ?c" using n by (auto simp: ht_wf_def)
  show "ht_lookup ?c k = None" using n by (auto simp: ht_lookup_def find_None_iff)
  show "snd (mesa_hash_table_clear ht) = filter (entry_is_present ht) (ht_table ht)"
    by (simp add: mesa_hash_table_clear_def clear_entries_result)
qed

section \<open>The interface of a store\<close>

datatype ('k, 'd) store_op = Store 'k 'd | Drop 'k

fun run_store ::
  "('s \<Rightarrow> 'k \<Rightarrow> 'd \<Rightarrow> 's option) \<Rightarrow> ('s \<Rightarrow> 'k \<Rightarrow> 's option) \<Rightarrow> 's \<Rightarrow> ('k, 'd) store_op list \<Rightarrow> 's option"
  where
  "run_store put del s [] = Some s"
| "run_store put del s (Store k d # ops) =
    (case put s k d of None \<Rightarrow> None | Some s' \<Rightarrow> run_store put del s' ops)"
| "run_store put del s (Drop k # ops) =
    (case del s k of None \<Rightarrow> None | Some s' \<Rightarrow> run_store put del s' ops)"

fun apply_ops ::
  "('k \<Rightarrow> 'k \<Rightarrow> bool) \<Rightarrow> ('d \<Rightarrow> 'v) \<Rightarrow> 'v \<Rightarrow> ('k \<Rightarrow> 'v) \<Rightarrow> ('k, 'd) store_op list \<Rightarrow> 'k \<Rightarrow> 'v" where
  "apply_ops same val none m [] = m"
| "apply_ops same val none m (Store k d # ops) =
    apply_ops same val none (\<lambda>k'. if same k' k then val d else m k') ops"
| "apply_ops same val none m (Drop k # ops) =
    apply_ops same val none (\<lambda>k'. if same k' k then none else m k') ops"

fun usable_op :: "('k \<Rightarrow> bool) \<Rightarrow> ('k, 'd) store_op \<Rightarrow> bool" where
  "usable_op usable (Store k d) = usable k"
| "usable_op usable (Drop k) = True"

text \<open>
  What a client relies on: storing and dropping update the map \<open>look\<close> of the store.  The invariant
  carries the number of stores made so far, of which at most \<open>limit\<close> are promised to succeed.
\<close>

locale keyed_store =
  fixes inv :: "nat \<Rightarrow> 's \<Rightarrow> bool" and limit :: nat and usable :: "'k \<Rightarrow> bool"
    and same :: "'k \<Rightarrow> 'k \<Rightarrow> bool" and look :: "'s \<Rightarrow> 'k \<Rightarrow> 'v"
    and put :: "'s \<Rightarrow> 'k \<Rightarrow> 'd \<Rightarrow> 's option" and del :: "'s \<Rightarrow> 'k \<Rightarrow> 's option"
    and val :: "'d \<Rightarrow> 'v" and none :: 'v
  assumes put_law: "inv n s \<Longrightarrow> n < limit \<Longrightarrow> usable k \<Longrightarrow>
      \<exists>s'. put s k d = Some s' \<and> inv (Suc n) s' \<and>
        look s' = (\<lambda>k'. if same k' k then val d else look s k')"
    and del_law: "inv n s \<Longrightarrow>
      \<exists>s'. del s k = Some s' \<and> inv n s' \<and> look s' = (\<lambda>k'. if same k' k then none else look s k')"
begin

lemma run_correct:
  assumes "inv n s" "n + length ops \<le> limit" "\<forall>op \<in> set ops. usable_op usable op"
  shows "\<exists>n' s'. run_store put del s ops = Some s' \<and> inv n' s' \<and> n' \<le> n + length ops
    \<and> look s' = apply_ops same val none (look s) ops"
  using assms
proof (induction ops arbitrary: n s)
  case (Cons op ops)
  show ?case
  proof (cases op)
    case (Store k d)
    with put_law [of n s k d] Cons.prems obtain s' where s': "put s k d = Some s'" "inv (Suc n) s'"
      "look s' = (\<lambda>k'. if same k' k then val d else look s k')" by auto
    with Cons.IH [of "Suc n" s'] Cons.prems Store show ?thesis by auto
  next
    case (Drop k)
    with del_law [of n s k] Cons.prems obtain s' where s': "del s k = Some s'" "inv n s'"
      "look s' = (\<lambda>k'. if same k' k then none else look s k')" by auto
    with Cons.IH [of n s'] Cons.prems Drop show ?thesis by fastforce
  qed
qed auto

end

section \<open>A hash table is a store\<close>

text \<open>Deleting a key, as the users of the table do: search, then remove what was found.\<close>

definition hash_table_delete :: "hash_table \<Rightarrow> ptr \<Rightarrow> hash_table option" where
  "hash_table_delete ht key =
    (case mesa_hash_table_search ht key of
       None \<Rightarrow> None
     | Some entry \<Rightarrow> Some (mesa_hash_table_remove ht entry))"

locale hash_key_table = hash_key +
  fixes dk :: ptr
  assumes dk: "dk \<noteq> NULL"
begin

definition store_inv :: "nat \<Rightarrow> hash_table \<Rightarrow> bool" where
  "store_inv n ht \<longleftrightarrow> kt ht \<and> ht_key_hash_function ht = Some hf \<and> ht_deleted_key ht = dk \<and> ht_steps ht n"

end

sublocale hash_key_table \<subseteq> keyed_store store_inv 131072 "\<lambda>k. k \<noteq> NULL \<and> k \<noteq> dk" eqf ht_lookup
  "\<lambda>ht k d. map_option fst (mesa_hash_table_insert (\<lambda>_. True) ht k d)" hash_table_delete Some None
proof
  fix n s k d assume s: "store_inv n s" and n: "n < 131072" and k: "k \<noteq> NULL \<and> k \<noteq> dk"
  have kt: "kt s" "ht_steps s n" "k \<noteq> NULL" "k \<noteq> ht_deleted_key s"
    "ht_key_hash_function s = Some hf" "ht_deleted_key s = dk"
    using s k by (auto simp: store_inv_def)
  from insert_steps [of s n "\<lambda>_. True" k "Suc 0" d, OF kt(1,2) n TrueI kt(3,4)]
  obtain ht' a where
    h: "hash_table_insert 3 (\<lambda>_. True) s (hf k) k d = Some (ht', Some a)"
    "kt ht'" "ht_same_frame s ht'" "ht_steps ht' (Suc n)"
    and p: "ht_put eqf s \<lparr>he_hash = hf k, he_key = k, he_data = d\<rparr> ht' (Some a)"
    unfolding numeral_3_eq_3 by blast
  have "map_option fst (mesa_hash_table_insert (\<lambda>_. True) s k d) = Some ht'"
    using h(1) kt(5) by (simp add: mesa_hash_table_insert_def)
  moreover have "store_inv (Suc n) ht'"
    using h kt by (simp add: store_inv_def ht_same_frame_def)
  moreover have "ht_lookup ht' = (\<lambda>k'. if eqf k' k then Some d else ht_lookup s k')"
    using p by (simp add: ht_put_def fun_eq_iff)
  ultimately show "\<exists>s'. map_option fst (mesa_hash_table_insert (\<lambda>_. True) s k d) = Some s' \<and>
      store_inv (Suc n) s' \<and> ht_lookup s' = (\<lambda>k'. if eqf k' k then Some d else ht_lookup s k')"
    by blast
next
  fix n s k assume s: "store_inv n s"
  then have kt: "kt s" by (simp add: store_inv_def)
  from search_correct [OF kt, of k] s obtain r where
    r: "mesa_hash_table_search s k = Some r" and c: "case r of
       None \<Rightarrow> ht_lookup s k = None
     | Some a \<Rightarrow> a < unat (ht_size s) \<and> entry_is_present s (ht_table s ! a) \<and>
         eqf k (he_key (ht_table s ! a)) \<and>
         ht_lookup s k = Some (he_data (ht_table s ! a))"
    by (auto simp: store_inv_def mesa_hash_table_search_def)
  show "\<exists>s'. hash_table_delete s k = Some s' \<and> store_inv n s' \<and>
      ht_lookup s' = (\<lambda>k'. if eqf k' k then None else ht_lookup s k')"
  proof (cases r)
    case None
    have "ht_lookup s k' = None" if "eqf k' k" for k'
    proof -
      have "eqf k' x \<longleftrightarrow> eqf k x" for x using eq_trans eq_sym that by blast
      then show ?thesis using c None kt by (simp add: ht_lookup_def kt_def)
    qed
    moreover have "hash_table_delete s k = Some s"
      using r None by (simp add: hash_table_delete_def mesa_hash_table_remove_def)
    ultimately show ?thesis using s by (auto simp: fun_eq_iff)
  next
    case (Some a)
    with c have a: "a < unat (ht_size s)" "entry_is_present s (ht_table s ! a)"
      "eqf k (he_key (ht_table s ! a))" by auto
    let ?s' = "mesa_hash_table_remove s (Some a)"
    have eq: "eqf k' (he_key (ht_table s ! a)) \<longleftrightarrow> eqf k' k" for k'
      using a(3) eq_trans eq_sym by blast
    have "ht_lookup ?s' = (\<lambda>k'. if eqf k' k then None else ht_lookup s k')"
      by (rule ext) (simp only: remove_correct(2) [OF kt a(1,2)] eq)
    moreover have "ht_key_hash_function ?s' = ht_key_hash_function s"
      "ht_deleted_key ?s' = ht_deleted_key s"
      by (simp_all add: mesa_hash_table_remove_def)
    then have "store_inv n ?s'"
      using s remove_correct(1) [OF kt a(1,2)] remove_steps [OF kt _ a(1,2), of n]
      by (simp add: store_inv_def)
    moreover have "hash_table_delete s k = Some ?s'"
      using r Some by (simp add: hash_table_delete_def)
    ultimately show ?thesis by blast
  qed
qed

context hash_key_table
begin

lemmas runs = run_correct

end

section \<open>The key functions of the code\<close>

interpretation pk: hash_key_table mesa_hash_pointer mesa_key_pointer_equal DELETED_KEY_VALUE
  by unfold_locales (auto simp: mesa_key_pointer_equal_def DELETED_KEY_VALUE_def)

text \<open>Strings are compared and hashed through the memory \<open>mem\<close> their pointers point to.\<close>

interpretation sk: hash_key "\<lambda>p. mesa_hash_string (mem p)" "\<lambda>p q. mesa_key_string_equal (mem p) (mem q)"
  for mem :: "ptr \<Rightarrow> u8 list"
  by unfold_locales (auto simp: mesa_key_string_equal_def)

section \<open>The table of 64-bit keys is a store\<close>

definition u64_inv :: "nat \<Rightarrow> hash_table_u64 \<Rightarrow> bool" where
  "u64_inv n u \<longleftrightarrow> pk.store_inv n (u64_table u)"

definition u64_val :: "hash_table_u64 \<Rightarrow> u64 \<Rightarrow> ptr" where
  "u64_val u k = (if k = DELETED_KEY_VALUE then u64_deleted_key_data u
                  else case ht_lookup (u64_table u) k of None \<Rightarrow> NULL | Some d \<Rightarrow> d)"

lemma ht_steps_Suc: "ht_steps ht n \<Longrightarrow> ht_steps ht (Suc n)"
  by (auto simp: ht_steps_def)

lemma u64_search_val:
  assumes "u64_inv n u"
  shows "mesa_hash_table_u64_search u k = Some (u64_val u k)"
proof -
  let ?t = "u64_table u"
  have kt: "pk.kt ?t" "ht_key_hash_function ?t = Some mesa_hash_pointer"
    using assms by (auto simp: u64_inv_def pk.store_inv_def)
  from pk.search_correct [OF kt(1), of k] obtain r where
    "mesa_hash_table_search ?t k = Some r" "case r of None \<Rightarrow> ht_lookup ?t k = None
      | Some a \<Rightarrow> ht_lookup ?t k = Some (he_data (ht_table ?t ! a))"
    by (auto simp: mesa_hash_table_search_def kt(2) split: option.splits)
  then show ?thesis
    by (auto simp: mesa_hash_table_u64_search_def hash_table_u64_search_def u64_val_def
        split: option.splits)
qed

lemma u64_remove_delete:
  "mesa_hash_table_u64_remove u k =
    (if k = DELETED_KEY_VALUE then Some (u\<lparr>u64_deleted_key_data := NULL\<rparr>)
     else map_option (\<lambda>t. u\<lparr>u64_table := t\<rparr>) (hash_table_delete (u64_table u) k))"
  by (auto simp: mesa_hash_table_u64_remove_def hash_table_delete_def hash_table_u64_search_def
      mesa_hash_table_remove_def split: option.splits)

interpretation us: keyed_store u64_inv 131072 "\<lambda>k. k \<noteq> 0" "(=)" u64_val
  "mesa_hash_table_u64_insert (\<lambda>_. True)" mesa_hash_table_u64_remove "\<lambda>d. d" NULL
proof
  fix n s and k :: u64 and d
  assume s: "u64_inv n s" and n: "n < 131072" and k: "k \<noteq> 0"
  show "\<exists>s'. mesa_hash_table_u64_insert (\<lambda>_. True) s k d = Some s' \<and> u64_inv (Suc n) s' \<and>
      u64_val s' = (\<lambda>k'. if k' = k then d else u64_val s k')"
  proof (cases "k = DELETED_KEY_VALUE")
    case True
    then show ?thesis using s ht_steps_Suc
      by (auto simp: mesa_hash_table_u64_insert_def u64_inv_def pk.store_inv_def u64_val_def)
  next
    case False
    from pk.put_law [of n "u64_table s" k d] s n k False obtain t where
      t: "map_option fst (mesa_hash_table_insert (\<lambda>_. True) (u64_table s) k d) = Some t"
      "pk.store_inv (Suc n) t"
      "ht_lookup t = (\<lambda>k'. if mesa_key_pointer_equal k' k then Some d else ht_lookup (u64_table s) k')"
      by (auto simp: u64_inv_def)
    then have "mesa_hash_table_u64_insert (\<lambda>_. True) s k d = Some (s\<lparr>u64_table := t\<rparr>)"
      using False by (auto simp: mesa_hash_table_u64_insert_def)
    with t(2,3) False show ?thesis
      by (auto simp: u64_inv_def u64_val_def mesa_key_pointer_equal_def fun_eq_iff)
  qed
next
  fix n s and k :: u64 assume s: "u64_inv n s"
  show "\<exists>s'. mesa_hash_table_u64_remove s k = Some s' \<and> u64_inv n s' \<and>
      u64_val s' = (\<lambda>k'. if k' = k then NULL else u64_val s k')"
  proof (cases "k = DELETED_KEY_VALUE")
    case True
    then show ?thesis using s
      by (auto simp: u64_remove_delete u64_inv_def pk.store_inv_def u64_val_def)
  next
    case False
    from pk.del_law [of n "u64_table s" k] s obtain t where
      t: "hash_table_delete (u64_table s) k = Some t" "pk.store_inv n t"
      "ht_lookup t = (\<lambda>k'. if mesa_key_pointer_equal k' k then None else ht_lookup (u64_table s) k')"
      by (auto simp: u64_inv_def)
    with False show ?thesis
      by (auto simp: u64_remove_delete u64_inv_def u64_val_def mesa_key_pointer_equal_def fun_eq_iff)
  qed
qed

lemma u64_create_inv:
  assumes "deleted_addr \<noteq> NULL"
  shows "\<exists>u. mesa_hash_table_u64_create (\<lambda>_. True) deleted_addr = Some u \<and> u64_inv 0 u
    \<and> u64_val u = (\<lambda>_. NULL)"
proof -
  obtain ht0 where c: "mesa_hash_table_create (\<lambda>_. True) deleted_addr (Some mesa_hash_pointer)
      mesa_key_pointer_equal = Some (ht_fresh ht0 0)"
    "ht_key_hash_function (ht_fresh ht0 0) = Some mesa_hash_pointer"
    "ht_key_equals_function (ht_fresh ht0 0) = mesa_key_pointer_equal"
    using create_fresh by blast
  let ?h = "ht0\<lparr>ht_deleted_key := DELETED_KEY_VALUE\<rparr>"
  have n: "ht_deleted_key ?h \<noteq> NULL" by (simp add: DELETED_KEY_VALUE_def)
  note f = ht_fresh_new [OF n]
  have e: "ht_key_hash_function (ht_fresh ?h 0) = Some mesa_hash_pointer"
    "ht_key_equals_function (ht_fresh ?h 0) = mesa_key_pointer_equal"
    using c(2,3) by (auto simp: ht_fresh_def split: prod.splits)
  show ?thesis
    using f e by (simp add: mesa_hash_table_u64_create_def c(1) ht_fresh_set_deleted_key u64_inv_def
        pk.store_inv_def pk.kt_def ht_fresh_simps u64_val_def fun_eq_iff)
qed

lemma random_entry_result:
  assumes "ht_wf hf ht"
  shows "case mesa_hash_table_random_entry r ht p of
      Some j \<Rightarrow> j < unat (ht_size ht) \<and> entry_is_present ht (ht_table ht ! j)
        \<and> (case p of None \<Rightarrow> True | Some q \<Rightarrow> q (ht_table ht ! j))
    | None \<Rightarrow> \<forall>j < unat (ht_size ht). entry_is_present ht (ht_table ht ! j) \<longrightarrow>
        (case p of None \<Rightarrow> False | Some q \<Rightarrow> \<not> q (ht_table ht ! j))"
proof -
  note w = ht_wf_simps [OF assms]
  let ?S = "unat (ht_size ht)" and ?i = "r mod unat (ht_size ht)"
  let ?P = "\<lambda>j. entry_is_present ht (ht_table ht ! j)
    \<and> (case p of None \<Rightarrow> True | Some q \<Rightarrow> q (ht_table ht ! j))"
  have i: "?i < ?S" using ht_size_okD(3) [OF w(1)] by simp
  show ?thesis
  proof (cases "ht_entries ht = 0")
    case True
    then have "filter (entry_is_present ht) (ht_table ht) = []" using w(4) by simp
    then show ?thesis using True w(2)
      by (auto simp: mesa_hash_table_random_entry_def Let_def filter_empty_conv)
  next
    case False
    have split: "j \<in> set [?i ..< ?S] \<or> j \<in> set [0 ..< ?i]" if "j < ?S" for j using that by auto
    show ?thesis
    proof (cases "find ?P [?i ..< ?S]")
      case (Some j)
      then have "j < ?S" "?P j" by (auto simp: find_Some_iff)
      with Some False show ?thesis by (simp add: mesa_hash_table_random_entry_def)
    next
      case none: None
      show ?thesis
      proof (cases "find ?P [0 ..< ?i]")
        case (Some j)
        then have "j < ?S" "?P j" using i by (auto simp: find_Some_iff)
        with none Some False show ?thesis by (simp add: mesa_hash_table_random_entry_def)
      next
        case None
        then have "\<not> ?P j" if "j < ?S" for j
          using split [OF that] none unfolding find_None_iff by blast
        moreover have "mesa_hash_table_random_entry r ht p = None"
          using none None False by (simp add: mesa_hash_table_random_entry_def)
        ultimately show ?thesis by (auto split: option.splits)
      qed
    qed
  qed
qed

section \<open>Properties of the hash table\<close>

text \<open>C1. Whatever the allocator does, inserting into a well-formed table leaves a well-formed table,
  and the returned slot holds the new entry: its key now maps to its data and every other key to what
  it mapped to before.  No slot is returned only by a table that is full of other keys and could not
  be grown, and that table stands for the same map as before.\<close>

theorem insert_refines_map:
  assumes "hash_key hf (ht_key_equals_function ht)" "ht_wf hf ht"
    "ht_key_hash_function ht = Some hf" "unat (ht_size_index ht) < 18"
    "key \<noteq> NULL" "key \<noteq> ht_deleted_key ht"
  shows "\<exists>ht' r. mesa_hash_table_insert alloc ht key d = Some (ht', r) \<and> ht_wf hf ht' \<and>
    ht_same_frame ht ht' \<and>
    ht_put (ht_key_equals_function ht) ht \<lparr>he_hash = hf key, he_key = key, he_data = d\<rparr> ht' r"
proof -
  note kt = hash_key.kt_def [OF assms(1)]
  show ?thesis
    using hash_key.insert_correct [OF assms(1) _ assms(4-6), of 0 alloc d] assms(2,3)
    by (simp add: kt mesa_hash_table_insert_def numeral_3_eq_3 del: hash_table_insert.simps) blast
qed


lemma create_pk:
  "\<exists>ht. mesa_hash_table_create (\<lambda>_. True) DELETED_KEY_VALUE (Some mesa_hash_pointer)
      mesa_key_pointer_equal = Some ht \<and> ht_wf mesa_hash_pointer ht
    \<and> ht_key_hash_function ht = Some mesa_hash_pointer
    \<and> ht_key_equals_function ht = mesa_key_pointer_equal
    \<and> ht_deleted_key ht = DELETED_KEY_VALUE \<and> ht_size_index ht = 0 \<and> ht_steps ht 0
    \<and> ht_lookup ht = (\<lambda>_. None) \<and> ht_entries ht = 0"
proof -
  obtain ht0 where h: "mesa_hash_table_create (\<lambda>_. True) DELETED_KEY_VALUE (Some mesa_hash_pointer)
      mesa_key_pointer_equal = Some (ht_fresh ht0 0)"
    "ht_key_hash_function (ht_fresh ht0 0) = Some mesa_hash_pointer"
    "ht_key_equals_function (ht_fresh ht0 0) = mesa_key_pointer_equal"
    "ht_deleted_key ht0 = DELETED_KEY_VALUE"
    using create_fresh by blast
  have "ht_deleted_key ht0 \<noteq> NULL" by (simp add: h(4) DELETED_KEY_VALUE_def)
  from ht_fresh_new [OF this] h show ?thesis by (auto simp: ht_fresh_simps)
qed

text \<open>A table with the pointer key 8 mapped to 42.\<close>

lemma table_8:
  "\<exists>ht. ht_wf mesa_hash_pointer ht \<and> ht_key_hash_function ht = Some mesa_hash_pointer
    \<and> ht_key_equals_function ht = mesa_key_pointer_equal \<and> ht_deleted_key ht = DELETED_KEY_VALUE
    \<and> ht_steps ht 1 \<and> ht_lookup ht 8 = Some 42"
proof -
  obtain ht where h: "ht_wf mesa_hash_pointer ht" "ht_key_hash_function ht = Some mesa_hash_pointer"
    "ht_key_equals_function ht = mesa_key_pointer_equal" "ht_deleted_key ht = DELETED_KEY_VALUE"
    "ht_steps ht 0" using create_pk by blast
  then have "pk.store_inv 0 ht" by (simp add: pk.store_inv_def pk.kt_def)
  moreover have "(8 :: ptr) \<noteq> NULL \<and> 8 \<noteq> DELETED_KEY_VALUE" by (simp add: DELETED_KEY_VALUE_def)
  ultimately show ?thesis using pk.put_law [of 0 ht 8 42]
    by (auto simp: pk.store_inv_def pk.kt_def mesa_key_pointer_equal_def)
qed

theorem insert_refines_map_witness:
  "\<exists>ht ht' r. mesa_hash_table_create (\<lambda>_. True) DELETED_KEY_VALUE (Some mesa_hash_pointer)
      mesa_key_pointer_equal = Some ht
    \<and> mesa_hash_table_insert (\<lambda>_. False) ht 8 42 = Some (ht', r) \<and> ht_wf mesa_hash_pointer ht'
    \<and> ht_put (ht_key_equals_function ht) ht \<lparr>he_hash = mesa_hash_pointer 8, he_key = 8, he_data = 42\<rparr>
        ht' r"
proof -
  obtain ht where h: "mesa_hash_table_create (\<lambda>_. True) DELETED_KEY_VALUE (Some mesa_hash_pointer)
      mesa_key_pointer_equal = Some ht" "ht_wf mesa_hash_pointer ht"
    "ht_key_hash_function ht = Some mesa_hash_pointer"
    "ht_key_equals_function ht = mesa_key_pointer_equal" "ht_deleted_key ht = DELETED_KEY_VALUE"
    "ht_size_index ht = 0" using create_pk by blast
  have "hash_key mesa_hash_pointer (ht_key_equals_function ht)" "unat (ht_size_index ht) < 18"
    "(8 :: ptr) \<noteq> NULL" "(8 :: ptr) \<noteq> ht_deleted_key ht"
    using pk.hash_key_axioms by (simp_all add: h(4-6) DELETED_KEY_VALUE_def)
  from insert_refines_map [OF this(1) h(2,3) this(2-4), of "\<lambda>_. False" 42] h(1) show ?thesis by blast
qed

text \<open>C2. Searching a well-formed table ends, and finds the entry of the key exactly when the map of
  the table has one.  Removing a present entry keeps the table well formed and removes exactly its key
  from the map; the entry is left as a tombstone that later probes step over.\<close>

theorem search_remove_refine_map:
  assumes "hash_key hf (ht_key_equals_function ht)" "ht_wf hf ht"
    "ht_key_hash_function ht = Some hf"
  shows "(\<exists>r. mesa_hash_table_search ht key = Some r \<and>
    (case r of
       None \<Rightarrow> ht_lookup ht key = None
     | Some a \<Rightarrow> a < unat (ht_size ht) \<and> entry_is_present ht (ht_table ht ! a) \<and>
         ht_key_equals_function ht key (he_key (ht_table ht ! a)) \<and>
         ht_lookup ht key = Some (he_data (ht_table ht ! a)))) \<and>
    (a < unat (ht_size ht) \<and> entry_is_present ht (ht_table ht ! a) \<longrightarrow>
      ht_wf hf (mesa_hash_table_remove ht (Some a)) \<and>
      entry_is_deleted ht (ht_table (mesa_hash_table_remove ht (Some a)) ! a) \<and>
      ht_lookup (mesa_hash_table_remove ht (Some a)) =
        (\<lambda>k. if ht_key_equals_function ht k (he_key (ht_table ht ! a)) then None else ht_lookup ht k))"
proof (intro conjI impI)
  assume a: "a < unat (ht_size ht) \<and> entry_is_present ht (ht_table ht ! a)"
  have kt: "hash_key.kt hf (ht_key_equals_function ht) ht"
    using assms(2) by (simp add: hash_key.kt_def [OF assms(1)])
  note r = hash_key.remove_correct [OF assms(1) kt conjunct1 [OF a] conjunct2 [OF a]]
  show "ht_wf hf (mesa_hash_table_remove ht (Some a))"
    using r(1) by (simp add: hash_key.kt_def [OF assms(1)])
  show "entry_is_deleted ht (ht_table (mesa_hash_table_remove ht (Some a)) ! a)"
    using a ht_wf_simps(2) [OF assms(2)] by (simp add: mesa_hash_table_remove_def entry_is_deleted_def)
  show "ht_lookup (mesa_hash_table_remove ht (Some a)) =
      (\<lambda>k. if ht_key_equals_function ht k (he_key (ht_table ht ! a)) then None else ht_lookup ht k)"
    by (rule ext) (rule r(2))
qed (use hash_key.search_correct [OF assms(1), of ht key] assms(2,3) in
  \<open>simp add: hash_key.kt_def [OF assms(1)] mesa_hash_table_search_def\<close>)

theorem search_remove_refine_map_witness:
  "\<exists>ht a. mesa_hash_table_search ht 8 = Some (Some a) \<and> he_data (ht_table ht ! a) = 42 \<and>
     ht_lookup (mesa_hash_table_remove ht (Some a)) 8 = None"
proof -
  obtain ht where h: "ht_wf mesa_hash_pointer ht" "ht_key_hash_function ht = Some mesa_hash_pointer"
    "ht_key_equals_function ht = mesa_key_pointer_equal" "ht_lookup ht 8 = Some 42"
    using table_8 by blast
  have "hash_key mesa_hash_pointer (ht_key_equals_function ht)"
    using pk.hash_key_axioms by (simp add: h(3))
  note t = search_remove_refine_map [OF this h(1,2), of 8]
  obtain a where a: "mesa_hash_table_search ht 8 = Some (Some a)" "a < unat (ht_size ht)"
    "entry_is_present ht (ht_table ht ! a)" "mesa_key_pointer_equal 8 (he_key (ht_table ht ! a))"
    "he_data (ht_table ht ! a) = 42"
    using conjunct1 [OF t [of 0]] h(3,4) by (auto split: option.splits)
  then show ?thesis using t [of a] h(3) by (intro exI [of _ ht] exI [of _ a]) simp
qed

text \<open>C3. Up to 131072 insertions and removals on a new table behave as the same updates of a map,
  whatever the number of times the table grows or is rehashed on the way (when memory does not run
  out, and for keys other than \<open>NULL\<close> and the tombstone).\<close>

theorem hash_table_runs:
  assumes "hash_key hf eqf" "deleted_addr \<noteq> NULL" "length ops \<le> 131072"
    "\<forall>op \<in> set ops. usable_op (\<lambda>k. k \<noteq> NULL \<and> k \<noteq> deleted_addr) op"
  shows "\<exists>ht0 ht. mesa_hash_table_create (\<lambda>_. True) deleted_addr (Some hf) eqf = Some ht0 \<and>
    run_store (\<lambda>ht k d. map_option fst (mesa_hash_table_insert (\<lambda>_. True) ht k d)) hash_table_delete
      ht0 ops = Some ht \<and> ht_wf hf ht \<and>
    ht_lookup ht = apply_ops eqf Some None (\<lambda>_. None) ops"
proof -
  have loc: "hash_key_table hf eqf deleted_addr"
    using assms(1,2) by (simp add: hash_key_table_def hash_key_table_axioms_def)
  obtain ht0 where c: "mesa_hash_table_create (\<lambda>_. True) deleted_addr (Some hf) eqf
      = Some (ht_fresh ht0 0)" "ht_key_hash_function (ht_fresh ht0 0) = Some hf"
    "ht_key_equals_function (ht_fresh ht0 0) = eqf" "ht_deleted_key ht0 = deleted_addr"
    using create_fresh by blast
  have n: "ht_deleted_key ht0 \<noteq> NULL" using c(4) assms(2) by simp
  have inv: "hash_key_table.store_inv hf eqf deleted_addr 0 (ht_fresh ht0 0)"
    using c ht_fresh_new [OF n]
    by (simp add: hash_key_table.store_inv_def [OF loc] hash_key.kt_def [OF assms(1)] ht_fresh_simps)
  show ?thesis
    using hash_key_table.runs [OF loc inv _ assms(4)] assms(3) c(1) ht_fresh_new(3) [OF n]
    by (auto simp: hash_key_table.store_inv_def [OF loc] hash_key.kt_def [OF assms(1)])
qed

theorem hash_table_runs_witness:
  "\<exists>ht. ht_wf mesa_hash_pointer ht \<and> ht_lookup ht 8 = None \<and> ht_lookup ht 16 = Some 7"
proof -
  have "length [Store (8 :: ptr) (1 :: ptr), Store 16 2, Drop 8, Store 16 7] \<le> 131072"
    "\<forall>op \<in> set [Store (8 :: ptr) (1 :: ptr), Store 16 2, Drop 8, Store 16 7].
       usable_op (\<lambda>k. k \<noteq> NULL \<and> k \<noteq> DELETED_KEY_VALUE) op"
    by (simp_all add: DELETED_KEY_VALUE_def)
  from hash_table_runs [OF pk.hash_key_axioms pk.dk this] obtain ht where
    "ht_wf mesa_hash_pointer ht" "ht_lookup ht = apply_ops mesa_key_pointer_equal Some None (\<lambda>_. None)
       [Store (8 :: ptr) (1 :: ptr), Store 16 2, Drop 8, Store 16 7]" by blast
  then show ?thesis by (auto simp: mesa_key_pointer_equal_def)
qed

text \<open>C4. A rehash to a size that holds the entries keeps the map and drops every tombstone.\<close>

theorem rehash_keeps_map:
  assumes "hash_key hf (ht_key_equals_function ht)" "ht_wf hf ht" "unat i < 20"
    "unat (ht_entries ht) \<le> unat (fst (size_entry i))" "alloc (fst (snd (size_entry i)))"
  shows "\<exists>ht'. mesa_hash_table_rehash (Suc n) alloc ht i = Some ht' \<and> ht_wf hf ht' \<and>
    ht_size_index ht' = i \<and> ht_same_frame ht ht' \<and> ht_deleted_entries ht' = 0 \<and>
    ht_lookup ht' = ht_lookup ht"
proof -
  have kt: "hash_key.kt hf (ht_key_equals_function ht) ht"
    using assms(2) by (simp add: hash_key.kt_def [OF assms(1)])
  from hash_key.rehash_level1 [OF assms(1) kt assms(3,4), of n alloc] assms(5) show ?thesis
    by (auto simp: mesa_hash_table_rehash_def hash_key.grown_def [OF assms(1)]
        hash_key.kt_def [OF assms(1)])
qed

theorem rehash_keeps_map_witness:
  "\<exists>ht ht'. ht_lookup ht 8 = Some 42 \<and> mesa_hash_table_rehash (Suc 0) (\<lambda>_. True) ht 1 = Some ht'
    \<and> ht_size_index ht' = 1 \<and> ht_lookup ht' = ht_lookup ht"
proof -
  obtain ht where h: "ht_wf mesa_hash_pointer ht" "ht_steps ht 1"
    "ht_key_equals_function ht = mesa_key_pointer_equal" "ht_lookup ht 8 = Some 42"
    using table_8 by blast
  have loc: "hash_key mesa_hash_pointer (ht_key_equals_function ht)"
    using pk.hash_key_axioms by (simp add: h(3))
  have "unat (1 :: u32) < 20" "unat (ht_entries ht) \<le> unat (fst (size_entry 1))"
    using h(2) by (simp_all add: ht_steps_def size_entry_def hash_sizes_def)
  from rehash_keeps_map [OF loc h(1) this, of "\<lambda>_. True" 0] h(4) show ?thesis by auto
qed

text \<open>C5. \<open>hash_table_foreach\<close> visits the present entries of a well-formed table, each once and in
  the order of the table, as many as the table counts; these are the entries the destructor hands
  to the delete callback. For every value of the random number generator,
  \<open>_mesa_hash_table_random_entry\<close> returns one of them that satisfies the predicate, and \<open>NULL\<close>
  only when there is none.\<close>

theorem foreach_visits_present:
  assumes "ht_wf hf ht"
  shows "sorted_wrt (<) (hash_table_foreach ht None) \<and>
    set (hash_table_foreach ht None) =
      {j. j < unat (ht_size ht) \<and> entry_is_present ht (ht_table ht ! j)} \<and>
    length (hash_table_foreach ht None) = unat (ht_entries ht) \<and>
    mesa_hash_table_destroy ht = filter (entry_is_present ht) (ht_table ht) \<and>
    (case mesa_hash_table_random_entry r ht p of
      Some j \<Rightarrow> j \<in> set (hash_table_foreach ht None)
        \<and> (case p of None \<Rightarrow> True | Some q \<Rightarrow> q (ht_table ht ! j))
    | None \<Rightarrow> \<forall>j \<in> set (hash_table_foreach ht None).
        (case p of None \<Rightarrow> False | Some q \<Rightarrow> \<not> q (ht_table ht ! j)))"
proof -
  note w = ht_wf_simps [OF assms]
  have members: "set (hash_table_foreach ht None) =
      {j. j < unat (ht_size ht) \<and> entry_is_present ht (ht_table ht ! j)}"
    by (auto simp: w(2) foreach_filter)
  note entries = foreach_entries [OF w(2)]
  from arg_cong [OF entries, of length] have
    "length (hash_table_foreach ht None) = unat (ht_entries ht)" by (simp add: w(4))
  moreover have "mesa_hash_table_destroy ht = filter (entry_is_present ht) (ht_table ht)"
    by (simp add: mesa_hash_table_destroy_def entries)
  moreover have "sorted_wrt (<) (hash_table_foreach ht None)"
    by (simp add: foreach_filter sorted_wrt_filter)
  moreover have "case mesa_hash_table_random_entry r ht p of
      Some j \<Rightarrow> j \<in> set (hash_table_foreach ht None) \<and> (case p of None \<Rightarrow> True | Some q \<Rightarrow> q (ht_table ht ! j))
    | None \<Rightarrow> \<forall>j \<in> set (hash_table_foreach ht None).
        (case p of None \<Rightarrow> False | Some q \<Rightarrow> \<not> q (ht_table ht ! j))"
    unfolding members using random_entry_result [OF assms, where r = r and p = p] by (auto split: option.splits)
  ultimately show ?thesis using members by blast
qed

theorem foreach_visits_present_witness:
  "\<exists>ht j. ht_lookup ht 8 = Some 42 \<and> length (hash_table_foreach ht None) = unat (ht_entries ht)
    \<and> mesa_hash_table_random_entry 1804289383 ht None = Some j \<and> j \<in> set (hash_table_foreach ht None)"
proof -
  obtain ht where h: "ht_wf mesa_hash_pointer ht" "ht_lookup ht 8 = Some 42" using table_8 by blast
  then obtain j where "j < unat (ht_size ht)" "entry_is_present ht (ht_table ht ! j)"
    using ht_wf_simps(2) [OF h(1)] by (auto simp: ht_lookup_def find_Some_iff in_set_conv_nth)
  with foreach_visits_present [OF h(1), where r = 1804289383 and p = None] h(2) show ?thesis
    by (auto split: option.splits)
qed

text \<open>C6. The table of 64-bit keys behaves as a function from the non-zero keys to pointers, for the
  key that serves as its tombstone as well: after any sequence of up to 131072 insertions and
  removals on a new table a search returns the data last inserted for the key, or \<open>NULL\<close>.\<close>

theorem u64_table_runs:
  assumes "deleted_addr \<noteq> NULL" "length ops \<le> 131072" "\<forall>op \<in> set ops. usable_op (\<lambda>k. k \<noteq> 0) op"
  shows "\<exists>u0 u. mesa_hash_table_u64_create (\<lambda>_. True) deleted_addr = Some u0 \<and>
    run_store (mesa_hash_table_u64_insert (\<lambda>_. True)) mesa_hash_table_u64_remove u0 ops = Some u \<and>
    (\<forall>k. mesa_hash_table_u64_search u k = Some (apply_ops (=) (\<lambda>d. d) NULL (\<lambda>_. NULL) ops k))"
proof -
  obtain u0 where u0: "mesa_hash_table_u64_create (\<lambda>_. True) deleted_addr = Some u0" "u64_inv 0 u0"
    "u64_val u0 = (\<lambda>_. NULL)" using u64_create_inv [OF assms(1)] by blast
  from us.run_correct [OF u0(2) _ assms(3)] assms(2) obtain n u where
    u: "run_store (mesa_hash_table_u64_insert (\<lambda>_. True)) mesa_hash_table_u64_remove u0 ops = Some u"
    "u64_inv n u" "u64_val u = apply_ops (=) (\<lambda>d. d) NULL (\<lambda>_. NULL) ops"
    using u0(3) by auto
  then show ?thesis using u0(1) u64_search_val [OF u(2)] by auto
qed

theorem u64_table_runs_witness:
  "\<exists>u. mesa_hash_table_u64_search u DELETED_KEY_VALUE = Some 5 \<and> mesa_hash_table_u64_search u 9 = Some NULL
    \<and> mesa_hash_table_u64_search u 10 = Some 6"
proof -
  have "(0x1000 :: ptr) \<noteq> NULL"
    "length [Store (1 :: u64) (5 :: ptr), Store 9 3, Store 10 6, Drop 9] \<le> 131072"
    "\<forall>op \<in> set [Store (1 :: u64) (5 :: ptr), Store 9 3, Store 10 6, Drop 9]. usable_op (\<lambda>k. k \<noteq> 0) op"
    by simp_all
  from u64_table_runs [OF this] obtain u where "\<forall>k. mesa_hash_table_u64_search u k =
      Some (apply_ops (=) (\<lambda>d. d) NULL (\<lambda>_. NULL)
        [Store (1 :: u64) (5 :: ptr), Store 9 3, Store 10 6, Drop 9] k)" by blast
  then show ?thesis by (intro exI [of _ u]) (simp add: DELETED_KEY_VALUE_def)
qed

end
