(* ===== verification/Bitset.thy ===== *)
theory Bitset
  imports Prelude
begin

text \<open>
  The bitsets of src/src/util/bitset.h: arrays of 32-bit words, with the single-bit macros, the
  word-wise loops their users write out, and the iterator \<open>__bitset_next_set\<close> behind
  \<open>BITSET_FOREACH_SET\<close>.  The locale \<open>bit_set\<close> is the view of a bitset as a set of numbers.
\<close>

section \<open>The macros\<close>

type_synonym bitset = "u32 list"

definition BITSET_WORDS :: "nat \<Rightarrow> nat" where
  "BITSET_WORDS bits = (bits + 32 - 1) div 32"

definition BITSET_BITWORD :: "nat \<Rightarrow> nat" where
  "BITSET_BITWORD b = b div 32"

definition BITSET_BIT :: "nat \<Rightarrow> u32" where
  "BITSET_BIT b = push_bit (b mod 32) 1"

definition BITSET_TEST :: "bitset \<Rightarrow> nat \<Rightarrow> bool" where
  "BITSET_TEST x b \<longleftrightarrow> x ! BITSET_BITWORD b AND BITSET_BIT b \<noteq> 0"

definition BITSET_SET :: "bitset \<Rightarrow> nat \<Rightarrow> bitset" where
  "BITSET_SET x b = x[BITSET_BITWORD b := x ! BITSET_BITWORD b OR BITSET_BIT b]"

definition BITSET_CLEAR :: "bitset \<Rightarrow> nat \<Rightarrow> bitset" where
  "BITSET_CLEAR x b = x[BITSET_BITWORD b := x ! BITSET_BITWORD b AND NOT (BITSET_BIT b)]"

text \<open>A zeroed array, and the loops over the words of two sets of one size.\<close>

definition bitset_zero :: "nat \<Rightarrow> bitset" where
  "bitset_zero bits = replicate (BITSET_WORDS bits) 0"

definition bitset_or :: "bitset \<Rightarrow> bitset \<Rightarrow> bitset" where
  "bitset_or x y = map2 (OR) x y"

definition bitset_andnot :: "bitset \<Rightarrow> bitset \<Rightarrow> bitset" where
  "bitset_andnot x y = map2 (\<lambda>a b. a AND NOT b) x y"

definition bitset_any :: "bitset \<Rightarrow> bool" where
  "bitset_any x \<longleftrightarrow> list_ex (\<lambda>w. w \<noteq> 0) x"

section \<open>The iterator\<close>

text \<open>\<open>ffs\<close>: one plus the index of the lowest bit set, zero for zero.\<close>

definition ffs :: "u32 \<Rightarrow> nat" where
  "ffs w = (case find (bit w) [0 ..< 32] of None \<Rightarrow> 0 | Some i \<Rightarrow> Suc i)"

definition bitset_ffs :: "bitset \<Rightarrow> nat \<Rightarrow> nat" where
  "bitset_ffs x n =
    (case find (\<lambda>i. x ! i \<noteq> 0) [0 ..< n] of
       None \<Rightarrow> 0
     | Some i \<Rightarrow> ffs (x ! i) + 32 * i)"

text \<open>The loop over words that are zero: \<^term>\<open>None\<close> when it passes the end.\<close>

function next_word :: "bitset \<Rightarrow> nat \<Rightarrow> nat \<Rightarrow> u32 \<Rightarrow> (nat \<times> u32) option" where
  "next_word x n word tmp =
    (if tmp \<noteq> 0 then Some (word, tmp)
     else if BITSET_WORDS n \<le> word + 1 then None
     else next_word x n (word + 1) (x ! (word + 1)))"
  by pat_completeness auto
termination
  by (relation "measure (\<lambda>(x, n, word, tmp). BITSET_WORDS n - word)") auto

declare next_word.simps [simp del]

definition bitset_next_set :: "nat \<Rightarrow> u32 \<Rightarrow> bitset \<Rightarrow> nat \<Rightarrow> nat \<times> u32" where
  "bitset_next_set i tmp x n =
    (case next_word x n (BITSET_BITWORD i) tmp of
       None \<Rightarrow> (n, 0)
     | Some (word, w) \<Rightarrow> let b = ffs w - 1 in (word * 32 + b, w AND NOT (push_bit b 1)))"

section \<open>Words\<close>

lemma bitset_test_bit: "BITSET_TEST x b \<longleftrightarrow> bit (x ! (b div 32)) (b mod 32)"
  by (simp add: BITSET_TEST_def BITSET_BIT_def BITSET_BITWORD_def bit_iff_and_push_bit_not_eq_0)

lemma bitset_words_bound: "b < n \<Longrightarrow> b div 32 < BITSET_WORDS n"
  by (auto simp: BITSET_WORDS_def)

lemma ffs_pos:
  assumes "w \<noteq> 0"
  shows "0 < ffs w" "ffs w - 1 < 32" "bit w (ffs w - 1)" "\<And>j. j < ffs w - 1 \<Longrightarrow> \<not> bit w j"
proof -
  have "\<exists>i < 32. bit w i"
    using assms bit_word_eqI [of w 0] by auto
  then obtain i where i: "find (bit w) [0 ..< 32] = Some i"
    by (cases "find (bit w) [0 ..< 32]") (auto simp: find_None_iff)
  then have "i < 32" "bit w i" "\<forall>j < i. \<not> bit w j" by (auto simp: find_Some_iff)
  with i show "0 < ffs w" "ffs w - 1 < 32" "bit w (ffs w - 1)" "\<And>j. j < ffs w - 1 \<Longrightarrow> \<not> bit w j"
    by (simp_all add: ffs_def)
qed

lemma bit_clear:
  "bit (w AND NOT (push_bit b 1) :: u32) j \<longleftrightarrow> bit w j \<and> j \<noteq> b"
  by (auto simp: bit_simps dest: bit_imp_le_length)

section \<open>A bitset as a set of numbers\<close>

text \<open>
  The operations as their users see them: \<open>wf\<close> sets hold numbers below a bound; \<open>mem\<close> is determined
  by the laws.
\<close>

locale bit_set =
  fixes wf :: "'s \<Rightarrow> bool" and bound :: nat
    and mem :: "'s \<Rightarrow> nat \<Rightarrow> bool" and add :: "'s \<Rightarrow> nat \<Rightarrow> 's" and empty :: 's
    and union :: "'s \<Rightarrow> 's \<Rightarrow> 's" and diff :: "'s \<Rightarrow> 's \<Rightarrow> 's" and nonempty :: "'s \<Rightarrow> bool"
  assumes wf_empty: "wf empty" and mem_empty: "b < bound \<Longrightarrow> \<not> mem empty b"
    and wf_add: "wf x \<Longrightarrow> c < bound \<Longrightarrow> wf (add x c)"
    and mem_add: "wf x \<Longrightarrow> c < bound \<Longrightarrow> b < bound \<Longrightarrow> mem (add x c) b \<longleftrightarrow> b = c \<or> mem x b"
    and wf_union: "wf x \<Longrightarrow> wf y \<Longrightarrow> wf (union x y)"
    and mem_union: "wf x \<Longrightarrow> wf y \<Longrightarrow> b < bound \<Longrightarrow> mem (union x y) b \<longleftrightarrow> mem x b \<or> mem y b"
    and wf_diff: "wf x \<Longrightarrow> wf y \<Longrightarrow> wf (diff x y)"
    and mem_diff: "wf x \<Longrightarrow> wf y \<Longrightarrow> b < bound \<Longrightarrow> mem (diff x y) b \<longleftrightarrow> mem x b \<and> \<not> mem y b"
    and nonempty_mem: "wf x \<Longrightarrow> nonempty x \<longleftrightarrow> (\<exists>b < bound. mem x b)"
begin

lemma fold_diff:
  assumes "wf x" "\<forall>y \<in> set ys. wf y"
  shows "wf (foldl diff x ys)"
    "b < bound \<Longrightarrow> mem (foldl diff x ys) b \<longleftrightarrow> mem x b \<and> (\<forall>y \<in> set ys. \<not> mem y b)"
  using assms by (induction ys arbitrary: x) (auto simp: wf_diff mem_diff)

lemma fold_add:
  assumes "wf x" "\<forall>c \<in> set cs. c < bound"
  shows "wf (foldl add x cs)" "b < bound \<Longrightarrow> mem (foldl add x cs) b \<longleftrightarrow> mem x b \<or> b \<in> set cs"
  using assms by (induction cs arbitrary: x) (auto simp: wf_add mem_add)

end

definition bitset_wf :: "nat \<Rightarrow> bitset \<Rightarrow> bool" where
  "bitset_wf n x \<longleftrightarrow> length x = BITSET_WORDS n \<and>
     (\<forall>i < BITSET_WORDS n. \<forall>j < 32. bit (x ! i) j \<longrightarrow> 32 * i + j < n)"

lemma bitset_wf_length: "bitset_wf n x \<Longrightarrow> length x = BITSET_WORDS n"
  by (simp add: bitset_wf_def)

lemma bit_single:
  "bit (BITSET_BIT c) j \<longleftrightarrow> j = c mod 32"
  by (auto simp: BITSET_BIT_def bit_simps)

lemma bitset_set_test:
  assumes "c div 32 < length x" "b div 32 < length x"
  shows "BITSET_TEST (BITSET_SET x c) b \<longleftrightarrow> b = c \<or> BITSET_TEST x b"
proof -
  have "b = c \<longleftrightarrow> b div 32 = c div 32 \<and> b mod 32 = c mod 32"
    by (metis div_mult_mod_eq)
  then show ?thesis
    using assms by (auto simp: bitset_test_bit BITSET_SET_def BITSET_BITWORD_def nth_list_update
        bit_or_iff bit_single)
qed

lemma bitset_wf_set:
  assumes "bitset_wf n x" "c < n"
  shows "bitset_wf n (BITSET_SET x c)"
  unfolding bitset_wf_def
proof (intro conjI allI impI)
  show "length (BITSET_SET x c) = BITSET_WORDS n"
    using assms(1) by (simp add: bitset_wf_def BITSET_SET_def)
next
  fix i j assume ij: "i < BITSET_WORDS n" "j < 32" "bit (BITSET_SET x c ! i) j"
  then have "BITSET_TEST (BITSET_SET x c) (32 * i + j)" by (simp add: bitset_test_bit)
  then have "32 * i + j = c \<or> BITSET_TEST x (32 * i + j)"
    using ij assms bitset_words_bound [OF assms(2)] by (simp add: bitset_set_test bitset_wf_length)
  then show "32 * i + j < n"
    using ij(1,2) assms by (auto simp: bitset_test_bit bitset_wf_def)
qed

lemma bitset_any_iff:
  assumes "bitset_wf n x"
  shows "bitset_any x \<longleftrightarrow> (\<exists>b < n. BITSET_TEST x b)"
proof
  assume "bitset_any x"
  then obtain i where i: "i < BITSET_WORDS n" "x ! i \<noteq> 0"
    using assms by (auto simp: bitset_any_def list_ex_iff in_set_conv_nth bitset_wf_def)
  note f = ffs_pos [OF i(2)]
  have "32 * i + (ffs (x ! i) - 1) < n" using assms i(1) f(2,3) unfolding bitset_wf_def by blast
  moreover have "BITSET_TEST x (32 * i + (ffs (x ! i) - 1))"
    using f(2,3) by (simp add: bitset_test_bit)
  ultimately show "\<exists>b < n. BITSET_TEST x b" by blast
next
  assume "\<exists>b < n. BITSET_TEST x b"
  then obtain b where b: "b < n" "bit (x ! (b div 32)) (b mod 32)"
    by (auto simp: bitset_test_bit)
  then have "x ! (b div 32) \<noteq> 0" by (metis bit_0_eq bot_apply bot_bool_def)
  with b bitset_words_bound [of b n] assms show "bitset_any x"
    by (auto simp: bitset_any_def list_ex_iff bitset_wf_def intro!: bexI [of _ "x ! (b div 32)"])
qed

interpretation bs: bit_set "bitset_wf n" n BITSET_TEST BITSET_SET "bitset_zero n" bitset_or
    bitset_andnot bitset_any
  for n
proof
  fix x y :: bitset and b c :: nat
  show "bitset_wf n (bitset_zero n)" by (simp add: bitset_wf_def bitset_zero_def)
  show "\<not> BITSET_TEST (bitset_zero n) b" if "b < n"
    using bitset_words_bound [OF that] by (simp add: bitset_test_bit bitset_zero_def)
  show "bitset_wf n (BITSET_SET x c)" if "bitset_wf n x" "c < n"
    by (rule bitset_wf_set [OF that])
  show "BITSET_TEST (BITSET_SET x c) b \<longleftrightarrow> b = c \<or> BITSET_TEST x b"
    if "bitset_wf n x" "c < n" "b < n"
    using that bitset_words_bound by (simp add: bitset_set_test bitset_wf_length)
  show "bitset_wf n (bitset_or x y)" if "bitset_wf n x" "bitset_wf n y"
    using that by (auto simp: bitset_wf_def bitset_or_def bit_or_iff)
  show "BITSET_TEST (bitset_or x y) b \<longleftrightarrow> BITSET_TEST x b \<or> BITSET_TEST y b"
    if "bitset_wf n x" "bitset_wf n y" "b < n"
    using that bitset_words_bound [of b n]
    by (simp add: bitset_test_bit bitset_or_def bitset_wf_length bit_or_iff)
  show "bitset_wf n (bitset_andnot x y)" if "bitset_wf n x" "bitset_wf n y"
    using that by (auto simp: bitset_wf_def bitset_andnot_def bit_simps)
  show "BITSET_TEST (bitset_andnot x y) b \<longleftrightarrow> BITSET_TEST x b \<and> \<not> BITSET_TEST y b"
    if "bitset_wf n x" "bitset_wf n y" "b < n"
    using that bitset_words_bound [of b n]
    by (auto simp: bitset_test_bit bitset_andnot_def bitset_wf_length bit_simps)
  show "bitset_any x \<longleftrightarrow> (\<exists>b < n. BITSET_TEST x b)" if "bitset_wf n x"
    by (rule bitset_any_iff [OF that])
qed

section \<open>The elements the iterator visits\<close>

lemma next_word_result:
  "case next_word x n word tmp of
     None \<Rightarrow> tmp = 0 \<and> (\<forall>k. word < k \<and> k < BITSET_WORDS n \<longrightarrow> x ! k = 0)
   | Some (word', w) \<Rightarrow> w \<noteq> 0 \<and>
       (word' = word \<and> w = tmp
        \<or> tmp = 0 \<and> word < word' \<and> word' < BITSET_WORDS n \<and> w = x ! word'
          \<and> (\<forall>k. word < k \<and> k < word' \<longrightarrow> x ! k = 0))"
proof (induction x n word tmp rule: next_word.induct)
  case (1 x n word tmp)
  show ?case
  proof (cases "tmp \<noteq> 0 \<or> BITSET_WORDS n \<le> word + 1")
    case True
    then show ?thesis by (subst next_word.simps) auto
  next
    case False
    then have eq: "next_word x n word tmp = next_word x n (word + 1) (x ! (word + 1))"
      by (subst next_word.simps) auto
    have step: "word < k \<longleftrightarrow> k = Suc word \<or> Suc word < k" for k by auto
    show ?thesis using "1.IH" False unfolding eq
      by (auto simp: step split: option.splits)
  qed
qed

text \<open>The bits still to be visited: those of \<open>tmp\<close> in the current word, those of the set after it.\<close>

definition bits_left :: "bitset \<Rightarrow> nat \<Rightarrow> nat \<Rightarrow> u32 \<Rightarrow> nat set" where
  "bits_left x n i tmp =
    {b. b < n \<and> (b div 32 = i div 32 \<and> bit tmp (b mod 32) \<or> i div 32 < b div 32 \<and> BITSET_TEST x b)}"

lemma next_set_result:
  assumes "bitset_next_set i tmp x n = (i', tmp')"
  shows "if i' < n
    then i' \<in> bits_left x n i tmp \<and> bits_left x n i' tmp' = bits_left x n i tmp - {i'} \<and>
      (\<forall>b \<in> bits_left x n i' tmp'. i' < b) \<and>
      (i div 32 < i' div 32 \<and> i' div 32 < BITSET_WORDS n
       \<or> i' div 32 = i div 32 \<and> tmp' = tmp AND NOT (push_bit (i' mod 32) 1) \<and> bit tmp (i' mod 32))
    else bits_left x n i tmp = {}"
proof (cases "next_word x n (i div 32) tmp")
  case None
  then have i': "i' = n" using assms by (simp add: bitset_next_set_def BITSET_BITWORD_def)
  have "bits_left x n i tmp = {}"
    using None next_word_result [where x = x and n = n and word = "i div 32" and tmp = tmp]
    by (auto simp: bits_left_def bitset_test_bit dest: bitset_words_bound)
  then show ?thesis by (simp add: i')
next
  case (Some p)
  obtain word w where p: "p = (word, w)" by force
  define c where "c = ffs w - 1"
  have w: "w \<noteq> 0" "word = i div 32 \<and> w = tmp \<or> tmp = 0 \<and> i div 32 < word \<and> word < BITSET_WORDS n
      \<and> w = x ! word \<and> (\<forall>k. i div 32 < k \<and> k < word \<longrightarrow> x ! k = 0)"
    using next_word_result [where x = x and n = n and word = "i div 32" and tmp = tmp] by (auto simp: Some p)
  have i': "i' = word * 32 + c" and tmp': "tmp' = w AND NOT (push_bit c 1)"
    using assms by (auto simp: bitset_next_set_def BITSET_BITWORD_def Some p Let_def c_def)
  have c: "c < 32" "bit w c" "\<And>j. j < c \<Longrightarrow> \<not> bit w j"
    using ffs_pos [OF w(1)] by (auto simp: c_def)
  have dm: "i' div 32 = word" "i' mod 32 = c" using c(1) by (auto simp: i')
  have old: "bits_left x n i tmp =
      {b. b < n \<and> (b div 32 = word \<and> bit w (b mod 32) \<or> word < b div 32 \<and> BITSET_TEST x b)}"
    using w(2) by (fastforce simp: bits_left_def bitset_test_bit not_less_iff_gr_or_eq)
  have eq: "b = i' \<longleftrightarrow> b div 32 = word \<and> b mod 32 = c" for b
    by (metis dm div_mult_mod_eq)
  have new: "bits_left x n i' tmp' = {b. b < n \<and> (b div 32 = word \<and> bit w (b mod 32) \<and> b mod 32 \<noteq> c
      \<or> word < b div 32 \<and> BITSET_TEST x b)}"
    unfolding bits_left_def dm tmp' bit_clear by blast
  have less: "i' < b" if "b div 32 = word \<and> bit w (b mod 32) \<and> b mod 32 \<noteq> c \<or> word < b div 32" for b
  proof (cases "word < b div 32")
    case True
    then show ?thesis using c(1) unfolding i' by (metis add.commute dm(1) i' div_le_mono not_le)
  next
    case False
    then have "b div 32 = word" "c < b mod 32"
      using that c(3) [of "b mod 32"] by (auto simp: nat_neq_iff)
    then show ?thesis unfolding i' by (metis add_less_cancel_left div_mult_mod_eq)
  qed
  have low: "i' \<le> b" if "b div 32 = word \<and> bit w (b mod 32) \<or> word < b div 32" for b
    using less [of b] that eq [of b] by (cases "b = i'") auto
  show ?thesis
  proof (cases "i' < n")
    case True
    have "i' \<in> bits_left x n i tmp" unfolding old using True dm c(2) by simp
    moreover have "bits_left x n i' tmp' = bits_left x n i tmp - {i'}"
    proof (rule set_eqI)
      fix b show "b \<in> bits_left x n i' tmp' \<longleftrightarrow> b \<in> bits_left x n i tmp - {i'}"
        unfolding old new using eq [of b] by (cases "b div 32 = word") auto
    qed
    moreover have "\<forall>b \<in> bits_left x n i' tmp'. i' < b" unfolding new using less by blast
    moreover have "i div 32 < i' div 32 \<and> i' div 32 < BITSET_WORDS n
       \<or> i' div 32 = i div 32 \<and> tmp' = tmp AND NOT (push_bit (i' mod 32) 1) \<and> bit tmp (i' mod 32)"
      unfolding dm using w(2) c(2) tmp' by blast
    ultimately show ?thesis using True by simp
  next
    case False
    then show ?thesis unfolding old using low by fastforce
  qed
qed

text \<open>\<open>BITSET_FOREACH_SET\<close>: the values of the loop variable, for a body that leaves the set alone.\<close>

function bitset_foreach_from :: "bitset \<Rightarrow> nat \<Rightarrow> nat \<Rightarrow> u32 \<Rightarrow> nat list" where
  "bitset_foreach_from x n i tmp =
    (case bitset_next_set i tmp x n of
       (i', tmp') \<Rightarrow> if i' < n then i' # bitset_foreach_from x n i' tmp' else [])"
  by pat_completeness auto
termination
proof (relation "measures [\<lambda>(x, n, i, tmp). BITSET_WORDS n - i div 32, \<lambda>(x, n, i, tmp). card {j. bit tmp j}]")
  fix x n i tmp i' tmp'
  assume p: "(i', tmp') = bitset_next_set i tmp x n" "i' < (n :: nat)"
  let ?B = "{j. bit tmp j}" and ?B' = "{j. bit tmp' j}"
  have fin: "finite ?B"
    by (rule finite_subset [of _ "{..< 32}"]) (auto dest: bit_imp_le_length)
  have "?B' \<subset> ?B" if "tmp' = tmp AND NOT (push_bit (i' mod 32) 1)" "bit tmp (i' mod 32)"
  proof -
    have "bit tmp' j \<longleftrightarrow> bit tmp j \<and> j \<noteq> i' mod 32" for j by (simp only: that(1) bit_clear)
    then show ?thesis using that(2) by auto
  qed
  then have "card ?B' < card ?B" if "tmp' = tmp AND NOT (push_bit (i' mod 32) 1)" "bit tmp (i' mod 32)"
    using that psubset_card_mono [OF fin] by blast
  moreover have "bitset_next_set i tmp x n = (i', tmp')" using p by simp
  from next_set_result [OF this] p(2) have "i div 32 < i' div 32 \<and> i' div 32 < BITSET_WORDS n
     \<or> i' div 32 = i div 32 \<and> tmp' = tmp AND NOT (push_bit (i' mod 32) 1) \<and> bit tmp (i' mod 32)"
    by simp
  ultimately show "((x, n, i', tmp'), (x, n, i, tmp)) \<in>
      measures [\<lambda>(x, n, i, tmp). BITSET_WORDS n - i div 32, \<lambda>(x, n, i, tmp). card {j. bit tmp j}]"
    by (elim disjE) (simp_all add: diff_less_mono2)
qed simp

declare bitset_foreach_from.simps [simp del]

definition bitset_foreach :: "bitset \<Rightarrow> nat \<Rightarrow> nat list" where
  "bitset_foreach x n = bitset_foreach_from x n 0 (x ! 0)"

lemma foreach_from_result:
  "set (bitset_foreach_from x n i tmp) = bits_left x n i tmp
    \<and> sorted_wrt (<) (bitset_foreach_from x n i tmp)"
proof (induction x n i tmp rule: bitset_foreach_from.induct)
  case (1 x n i tmp)
  obtain i' tmp' where p: "bitset_next_set i tmp x n = (i', tmp')" by force
  note r = next_set_result [OF p]
  show ?case
  proof (cases "i' < n")
    case True
    with r "1.IH" [OF p [symmetric] True] show ?thesis
      by (subst (1 2) bitset_foreach_from.simps) (auto simp: p)
  next
    case False
    with r show ?thesis by (subst (1 2) bitset_foreach_from.simps) (auto simp: p)
  qed
qed

lemma bitset_foreach_result: "bitset_foreach x n = filter (BITSET_TEST x) [0 ..< n]"
proof -
  have "set (bitset_foreach x n) = set (filter (BITSET_TEST x) [0 ..< n])"
  proof -
    have "b div 32 = 0 \<or> 0 < b div 32" for b :: nat by (cases "b div 32") simp_all
    then have "b div 32 = 0 \<and> bit (x ! 0) (b mod 32) \<or> 0 < b div 32 \<and> BITSET_TEST x b
        \<longleftrightarrow> BITSET_TEST x b" for b unfolding bitset_test_bit by force
    then show ?thesis
      using foreach_from_result [where x = x and n = n and i = 0 and tmp = "x ! 0"]
      by (simp add: bitset_foreach_def bits_left_def set_eq_iff)
  qed
  moreover have "sorted_wrt (<) (bitset_foreach x n)" "sorted_wrt (<) (filter (BITSET_TEST x) [0 ..< n])"
    using foreach_from_result [where x = x and n = n and i = 0 and tmp = "x ! 0"]
    by (simp_all add: bitset_foreach_def sorted_wrt_filter)
  then have "sorted (bitset_foreach x n) \<and> distinct (bitset_foreach x n)"
    "sorted (filter (BITSET_TEST x) [0 ..< n]) \<and> distinct (filter (BITSET_TEST x) [0 ..< n])"
    by (simp_all only: strict_sorted_iff)
  ultimately show ?thesis using sorted_distinct_set_unique by blast
qed

text \<open>C7. The loop \<open>BITSET_FOREACH_SET\<close> ends, and visits exactly the numbers below the size of the
  set that are in it, each once and in increasing order.\<close>

theorem bitset_foreach_visits_members: "bitset_foreach x n = filter (BITSET_TEST x) [0 ..< n]"
  by (rule bitset_foreach_result)

end
