(* ===== verification/RegAlloc.thy ===== *)
theory RegAlloc
  imports Bitset
begin

text \<open>
  The graph-colouring register allocator of src/src/util/register_allocate.c: register sets with
  conflicts and classes, the interference graph, and allocation by simplification and selection.
  A growable array (\<open>conflict_list\<close>, \<open>adjacency_list\<close>) is the list of its used elements beside its
  capacity; register and node numbers are naturals with \<open>NO_REG\<close> as the value of \<open>~0U\<close>; the counts
  \<open>p\<close>, \<open>q\<close> and \<open>q_total\<close> keep their 32 bits.
\<close>

section \<open>State\<close>

abbreviation NO_REG :: nat where
  "NO_REG \<equiv> UINT_MAX"

record ra_reg =
  r_conflicts :: bitset
  r_conflict_list :: "nat list option"
  r_conflict_list_size :: nat
  r_num_conflicts :: nat

record ra_class =
  c_regs :: bitset
  c_p :: u32
  c_q :: "u32 list"

record ra_regs =
  rs_regs :: "ra_reg list"
  rs_count :: nat
  rs_classes :: "ra_class list"
  rs_round_robin :: bool

record ra_node =
  n_adjacency :: bitset
  n_adjacency_list :: "nat list"
  n_adjacency_list_size :: nat
  n_class :: nat
  n_reg :: nat
  n_in_stack :: bool
  n_q_total :: u32

record ra_graph =
  g_regs :: ra_regs
  g_nodes :: "ra_node list"
  g_stack :: "nat list"
  g_stack_count :: nat
  g_stack_optimistic_start :: nat

section \<open>Register sets\<close>

definition ra_alloc_reg_set :: "nat \<Rightarrow> bool \<Rightarrow> ra_regs" where
  "ra_alloc_reg_set count need_conflict_lists =
    \<lparr>rs_regs = map (\<lambda>i.
       \<lparr>r_conflicts = BITSET_SET (bitset_zero count) i,
        r_conflict_list = (if need_conflict_lists then Some [i] else None),
        r_conflict_list_size = (if need_conflict_lists then 4 else 0),
        r_num_conflicts = 1\<rparr>) [0 ..< count],
     rs_count = count, rs_classes = [], rs_round_robin = False\<rparr>"

definition ra_set_allocate_round_robin :: "ra_regs \<Rightarrow> ra_regs" where
  "ra_set_allocate_round_robin regs = regs\<lparr>rs_round_robin := True\<rparr>"

definition ra_add_conflict_list :: "ra_regs \<Rightarrow> nat \<Rightarrow> nat \<Rightarrow> ra_regs" where
  "ra_add_conflict_list regs r1 r2 =
    (let reg1 = rs_regs regs ! r1;
         reg1 = (case r_conflict_list reg1 of
                   None \<Rightarrow> reg1
                 | Some cl \<Rightarrow>
                     reg1\<lparr>r_conflict_list_size :=
                            (if r_conflict_list_size reg1 = r_num_conflicts reg1
                             then r_conflict_list_size reg1 * 2 else r_conflict_list_size reg1),
                          r_conflict_list := Some (cl @ [r2]),
                          r_num_conflicts := r_num_conflicts reg1 + 1\<rparr>);
         reg1 = reg1\<lparr>r_conflicts := BITSET_SET (r_conflicts reg1) r2\<rparr>
     in regs\<lparr>rs_regs := (rs_regs regs)[r1 := reg1]\<rparr>)"

definition ra_add_reg_conflict :: "ra_regs \<Rightarrow> nat \<Rightarrow> nat \<Rightarrow> ra_regs" where
  "ra_add_reg_conflict regs r1 r2 =
    (if \<not> BITSET_TEST (r_conflicts (rs_regs regs ! r1)) r2
     then ra_add_conflict_list (ra_add_conflict_list regs r1 r2) r2 r1
     else regs)"

text \<open>
  The loop of \<open>ra_add_transitive_reg_conflict\<close> reads the count and the list of \<open>base_reg\<close> anew in each
  round.  \<^term>\<open>None\<close> is the read through a null \<open>conflict_list\<close>, or a loop that does not end.
\<close>

partial_function (option) transitive_conflict_loop ::
  "ra_regs \<Rightarrow> nat \<Rightarrow> nat \<Rightarrow> nat \<Rightarrow> ra_regs option" where
  "transitive_conflict_loop regs base_reg reg i =
    (if i < r_num_conflicts (rs_regs regs ! base_reg)
     then case r_conflict_list (rs_regs regs ! base_reg) of
            None \<Rightarrow> None
          | Some cl \<Rightarrow> transitive_conflict_loop (ra_add_reg_conflict regs reg (cl ! i)) base_reg reg (i + 1)
     else Some regs)"

definition ra_add_transitive_reg_conflict :: "ra_regs \<Rightarrow> nat \<Rightarrow> nat \<Rightarrow> ra_regs option" where
  "ra_add_transitive_reg_conflict regs base_reg reg =
    transitive_conflict_loop (ra_add_reg_conflict regs reg base_reg) base_reg reg 0"

text \<open>
  The set iterated over is the one of \<open>r\<close>, which the loop changes at most by or-ing it to itself, so
  the values of the loop variable are those of the set at the start.
\<close>

definition ra_make_reg_conflicts_transitive :: "ra_regs \<Rightarrow> nat \<Rightarrow> ra_regs" where
  "ra_make_reg_conflicts_transitive regs r =
    foldl (\<lambda>regs c. regs\<lparr>rs_regs := (rs_regs regs)[c := (rs_regs regs ! c)
              \<lparr>r_conflicts := bitset_or (r_conflicts (rs_regs regs ! c)) (r_conflicts (rs_regs regs ! r))\<rparr>]\<rparr>)
      regs (bitset_foreach (r_conflicts (rs_regs regs ! r)) (rs_count regs))"

definition ra_alloc_reg_class :: "ra_regs \<Rightarrow> ra_regs \<times> nat" where
  "ra_alloc_reg_class regs =
    (regs\<lparr>rs_classes := rs_classes regs @ [\<lparr>c_regs = bitset_zero (rs_count regs), c_p = 0, c_q = []\<rparr>]\<rparr>,
     length (rs_classes regs))"

definition ra_class_add_reg :: "ra_regs \<Rightarrow> nat \<Rightarrow> nat \<Rightarrow> ra_regs" where
  "ra_class_add_reg regs c r =
    (let cl = rs_classes regs ! c
     in regs\<lparr>rs_classes := (rs_classes regs)
          [c := cl\<lparr>c_regs := BITSET_SET (c_regs cl) r, c_p := c_p cl + 1\<rparr>]\<rparr>)"

definition reg_belongs_to_class :: "nat \<Rightarrow> ra_class \<Rightarrow> bool" where
  "reg_belongs_to_class r c \<longleftrightarrow> BITSET_TEST (c_regs c) r"

text \<open>The number of entries of the conflict list of \<open>rc\<close> that belong to class \<open>b\<close>.\<close>

definition count_conflicts :: "ra_regs \<Rightarrow> nat \<Rightarrow> nat \<Rightarrow> nat option" where
  "count_conflicts regs b rc =
    (let reg = rs_regs regs ! rc
     in case r_conflict_list reg of
          None \<Rightarrow> (if r_num_conflicts reg = 0 then Some 0 else None)
        | Some cl \<Rightarrow> Some (foldl (\<lambda>n i. if reg_belongs_to_class (cl ! i) (rs_classes regs ! b)
                                         then n + 1 else n) 0 [0 ..< r_num_conflicts reg]))"

definition compute_q :: "ra_regs \<Rightarrow> nat \<Rightarrow> nat \<Rightarrow> u32 option" where
  "compute_q regs b c = map_option of_nat
    (foldl (\<lambda>m rc. if \<not> reg_belongs_to_class rc (rs_classes regs ! c) then m
                   else case m of
                          None \<Rightarrow> None
                        | Some mx \<Rightarrow> map_option (max mx) (count_conflicts regs b rc))
       (Some 0) [0 ..< rs_count regs])"

definition ra_set_finalize :: "ra_regs \<Rightarrow> (nat \<Rightarrow> nat \<Rightarrow> u32) option \<Rightarrow> ra_regs option" where
  "ra_set_finalize regs q_values =
    (let ids = [0 ..< length (rs_classes regs)];
         rows = (case q_values of
                   Some qv \<Rightarrow> Some (map (\<lambda>b. map (qv b) ids) ids)
                 | None \<Rightarrow> those (map (\<lambda>b. those (map (compute_q regs b) ids)) ids))
     in case rows of
          None \<Rightarrow> None
        | Some qs \<Rightarrow> Some (regs
            \<lparr>rs_classes := map2 (\<lambda>cl q. cl\<lparr>c_q := q\<rparr>) (rs_classes regs) qs,
             rs_regs := map (\<lambda>reg. reg\<lparr>r_conflict_list := None\<rparr>) (rs_regs regs)\<rparr>))"

section \<open>The interference graph\<close>

text \<open>The entry \<open>q[c2]\<close> of class \<open>c1\<close>.\<close>

definition class_q :: "ra_graph \<Rightarrow> nat \<Rightarrow> nat \<Rightarrow> u32" where
  "class_q g c1 c2 = c_q (rs_classes (g_regs g) ! c1) ! c2"

definition ra_add_node_adjacency :: "ra_graph \<Rightarrow> nat \<Rightarrow> nat \<Rightarrow> ra_graph" where
  "ra_add_node_adjacency g n1 n2 =
    (let node = g_nodes g ! n1;
         node = node\<lparr>n_adjacency := BITSET_SET (n_adjacency node) n2\<rparr>;
         n1_class = n_class node;
         n2_class = n_class (g_nodes g ! n2);
         node = node\<lparr>n_q_total := n_q_total node + class_q g n1_class n2_class\<rparr>;
         node = (if n_adjacency_list_size node \<le> length (n_adjacency_list node)
                 then node\<lparr>n_adjacency_list_size := n_adjacency_list_size node * 2\<rparr> else node);
         node = node\<lparr>n_adjacency_list := n_adjacency_list node @ [n2]\<rparr>
     in g\<lparr>g_nodes := (g_nodes g)[n1 := node]\<rparr>)"

definition ra_alloc_interference_graph :: "ra_regs \<Rightarrow> nat \<Rightarrow> ra_graph" where
  "ra_alloc_interference_graph regs count =
    \<lparr>g_regs = regs,
     g_nodes = replicate count
       \<lparr>n_adjacency = bitset_zero count, n_adjacency_list = [], n_adjacency_list_size = 4,
        n_class = 0, n_reg = NO_REG, n_in_stack = False, n_q_total = 0\<rparr>,
     g_stack = replicate count 0, g_stack_count = 0, g_stack_optimistic_start = 0\<rparr>"

definition ra_set_node_class :: "ra_graph \<Rightarrow> nat \<Rightarrow> nat \<Rightarrow> ra_graph" where
  "ra_set_node_class g n c = g\<lparr>g_nodes := (g_nodes g)[n := (g_nodes g ! n)\<lparr>n_class := c\<rparr>]\<rparr>"

definition ra_add_node_interference :: "ra_graph \<Rightarrow> nat \<Rightarrow> nat \<Rightarrow> ra_graph" where
  "ra_add_node_interference g n1 n2 =
    (if n1 \<noteq> n2 \<and> \<not> BITSET_TEST (n_adjacency (g_nodes g ! n1)) n2
     then ra_add_node_adjacency (ra_add_node_adjacency g n1 n2) n2 n1
     else g)"

definition ra_set_node_reg :: "ra_graph \<Rightarrow> nat \<Rightarrow> nat \<Rightarrow> ra_graph" where
  "ra_set_node_reg g n reg =
    g\<lparr>g_nodes := (g_nodes g)[n := (g_nodes g ! n)\<lparr>n_reg := reg, n_in_stack := False\<rparr>]\<rparr>"

definition ra_get_node_reg :: "ra_graph \<Rightarrow> nat \<Rightarrow> nat" where
  "ra_get_node_reg g n = n_reg (g_nodes g ! n)"

section \<open>Simplification\<close>

definition pq_test :: "ra_graph \<Rightarrow> nat \<Rightarrow> bool" where
  "pq_test g n \<longleftrightarrow>
    n_q_total (g_nodes g ! n) < c_p (rs_classes (g_regs g) ! n_class (g_nodes g ! n))"

definition decrement_q_step :: "nat \<Rightarrow> ra_graph \<Rightarrow> nat \<Rightarrow> ra_graph" where
  "decrement_q_step n_cls g n2 =
    (let node2 = g_nodes g ! n2
     in if \<not> n_in_stack node2
        then g\<lparr>g_nodes := (g_nodes g)
               [n2 := node2\<lparr>n_q_total := n_q_total node2 - class_q g (n_class node2) n_cls\<rparr>]\<rparr>
        else g)"

definition decrement_q :: "ra_graph \<Rightarrow> nat \<Rightarrow> ra_graph" where
  "decrement_q g n =
    foldl (decrement_q_step (n_class (g_nodes g ! n))) g (n_adjacency_list (g_nodes g ! n))"

text \<open>The four statements that put a node on the stack, the same in both places of \<open>ra_simplify\<close>.\<close>

definition push_node :: "ra_graph \<Rightarrow> nat \<Rightarrow> ra_graph" where
  "push_node g i =
    (let g = decrement_q g i;
         g = g\<lparr>g_stack := (g_stack g)[g_stack_count g := i]\<rparr>;
         g = g\<lparr>g_stack_count := g_stack_count g + 1\<rparr>
     in g\<lparr>g_nodes := (g_nodes g)[i := (g_nodes g ! i)\<lparr>n_in_stack := True\<rparr>]\<rparr>)"

record simplify_state =
  s_graph :: ra_graph
  s_progress :: bool
  s_best_optimistic_node :: nat
  s_lowest_q_total :: u32

definition simplify_step :: "simplify_state \<Rightarrow> nat \<Rightarrow> simplify_state" where
  "simplify_step s i =
    (let g = s_graph s; node = g_nodes g ! i
     in if n_in_stack node \<or> n_reg node \<noteq> NO_REG then s
        else if pq_test g i then s\<lparr>s_graph := push_node g i, s_progress := True\<rparr>
        else if n_q_total node < s_lowest_q_total s
        then s\<lparr>s_best_optimistic_node := i, s_lowest_q_total := n_q_total node\<rparr>
        else s)"

definition simplify_pass :: "ra_graph \<Rightarrow> simplify_state" where
  "simplify_pass g =
    foldl simplify_step
      \<lparr>s_graph = g, s_progress = False, s_best_optimistic_node = UINT_MAX,
       s_lowest_q_total = of_nat UINT_MAX\<rparr>
      (rev [0 ..< length (g_nodes g)])"

text \<open>What \<open>decrement_q\<close> leaves alone: everything but the \<open>q_total\<close> of the nodes.\<close>

definition erase_q :: "ra_graph \<Rightarrow> ra_graph" where
  "erase_q g = g\<lparr>g_nodes := map (\<lambda>n. n\<lparr>n_q_total := 0\<rparr>) (g_nodes g)\<rparr>"

lemma decrement_q_step_same: "erase_q (decrement_q_step c g n2) = erase_q g"
proof (cases "n2 < length (g_nodes g)")
  case True
  let ?e = "\<lambda>n. n\<lparr>n_q_total := 0\<rparr>"
  have "(map ?e (g_nodes g))[n2 := ?e (g_nodes g ! n2)] = map ?e (g_nodes g)"
    using True by (metis length_map list_update_id nth_map)
  then show ?thesis by (simp add: decrement_q_step_def erase_q_def Let_def map_update)
qed (simp add: decrement_q_step_def erase_q_def Let_def not_less list_update_beyond)

lemma decrement_q_same: "erase_q (decrement_q g n) = erase_q g"
proof -
  have "erase_q (foldl (decrement_q_step c) h js) = erase_q h" for c h js
    by (induction js arbitrary: h) (simp_all add: decrement_q_step_same)
  then show ?thesis by (simp add: decrement_q_def)
qed

lemma erase_q_simps:
  assumes "erase_q g' = erase_q g"
  shows "g_regs g' = g_regs g" "g_stack g' = g_stack g" "g_stack_count g' = g_stack_count g"
    "g_stack_optimistic_start g' = g_stack_optimistic_start g"
    "length (g_nodes g') = length (g_nodes g)"
    "i < length (g_nodes g) \<Longrightarrow> n_in_stack (g_nodes g' ! i) = n_in_stack (g_nodes g ! i)"
    "i < length (g_nodes g) \<Longrightarrow> n_reg (g_nodes g' ! i) = n_reg (g_nodes g ! i)"
    "i < length (g_nodes g) \<Longrightarrow> n_class (g_nodes g' ! i) = n_class (g_nodes g ! i)"
    "i < length (g_nodes g) \<Longrightarrow> n_adjacency_list (g_nodes g' ! i) = n_adjacency_list (g_nodes g ! i)"
    "i < length (g_nodes g) \<Longrightarrow> n_adjacency (g_nodes g' ! i) = n_adjacency (g_nodes g ! i)"
proof -
  have f: "f (erase_q g') = f (erase_q g)" for f :: "ra_graph \<Rightarrow> 'x" using assms by simp
  show "g_regs g' = g_regs g" using f [of g_regs] by (simp add: erase_q_def)
  show "g_stack g' = g_stack g" using f [of g_stack] by (simp add: erase_q_def)
  show "g_stack_count g' = g_stack_count g" using f [of g_stack_count] by (simp add: erase_q_def)
  show "g_stack_optimistic_start g' = g_stack_optimistic_start g"
    using f [of g_stack_optimistic_start] by (simp add: erase_q_def)
  show len: "length (g_nodes g') = length (g_nodes g)"
    using f [of "\<lambda>g. length (g_nodes g)"] by (simp add: erase_q_def)
  assume i: "i < length (g_nodes g)"
  have n: "(g_nodes g' ! i)\<lparr>n_q_total := 0\<rparr> = (g_nodes g ! i)\<lparr>n_q_total := 0\<rparr>"
    using f [of "\<lambda>g. g_nodes g ! i"] i len by (simp add: erase_q_def)
  show "n_in_stack (g_nodes g' ! i) = n_in_stack (g_nodes g ! i)"
    using arg_cong [OF n, of n_in_stack] by simp
  show "n_reg (g_nodes g' ! i) = n_reg (g_nodes g ! i)" using arg_cong [OF n, of n_reg] by simp
  show "n_class (g_nodes g' ! i) = n_class (g_nodes g ! i)" using arg_cong [OF n, of n_class] by simp
  show "n_adjacency_list (g_nodes g' ! i) = n_adjacency_list (g_nodes g ! i)"
    using arg_cong [OF n, of n_adjacency_list] by simp
  show "n_adjacency (g_nodes g' ! i) = n_adjacency (g_nodes g ! i)"
    using arg_cong [OF n, of n_adjacency] by simp
qed

text \<open>The fields of the graph after a push.\<close>

lemma push_node_simps:
  "g_regs (push_node g i) = g_regs g"
  "g_stack (push_node g i) = (g_stack g)[g_stack_count g := i]"
  "g_stack_count (push_node g i) = g_stack_count g + 1"
  "g_stack_optimistic_start (push_node g i) = g_stack_optimistic_start g"
  "length (g_nodes (push_node g i)) = length (g_nodes g)"
  "j < length (g_nodes g) \<Longrightarrow>
    n_in_stack (g_nodes (push_node g i) ! j) \<longleftrightarrow> j = i \<or> n_in_stack (g_nodes g ! j)"
  "j < length (g_nodes g) \<Longrightarrow> n_reg (g_nodes (push_node g i) ! j) = n_reg (g_nodes g ! j)"
  "j < length (g_nodes g) \<Longrightarrow> n_class (g_nodes (push_node g i) ! j) = n_class (g_nodes g ! j)"
  "j < length (g_nodes g) \<Longrightarrow>
    n_adjacency_list (g_nodes (push_node g i) ! j) = n_adjacency_list (g_nodes g ! j)"
  "j < length (g_nodes g) \<Longrightarrow> n_adjacency (g_nodes (push_node g i) ! j) = n_adjacency (g_nodes g ! j)"
  "j < length (g_nodes g) \<Longrightarrow>
    n_q_total (g_nodes (push_node g i) ! j) = n_q_total (g_nodes (decrement_q g i) ! j)"
  using erase_q_simps [OF decrement_q_same [of g i]]
  by (cases "i = j"; simp add: push_node_def Let_def)+

text \<open>The nodes that still have to go on the stack.\<close>

definition to_push :: "ra_graph \<Rightarrow> nat \<Rightarrow> bool" where
  "to_push g i \<longleftrightarrow> i < length (g_nodes g) \<and> \<not> n_in_stack (g_nodes g ! i) \<and> n_reg (g_nodes g ! i) = NO_REG"

definition unstacked :: "ra_graph \<Rightarrow> nat" where
  "unstacked g = card {i. to_push g i}"

lemma to_push_push_node:
  "i < length (g_nodes g) \<Longrightarrow> to_push (push_node g i) j \<longleftrightarrow> to_push g j \<and> j \<noteq> i"
  by (auto simp: to_push_def push_node_simps)

lemma finite_to_push [simp]: "finite {i. to_push g i}"
  by (rule finite_subset [of _ "{..< length (g_nodes g)}"]) (auto simp: to_push_def)

lemma unstacked_push_node:
  assumes "to_push g i"
  shows "unstacked (push_node g i) < unstacked g"
proof -
  have "{j. to_push (push_node g i) j} \<subset> {j. to_push g j}"
    using assms to_push_push_node [of i g] by (auto simp: to_push_def)
  then show ?thesis by (simp add: unstacked_def psubset_card_mono)
qed

lemma simplify_step_eq:
  assumes "i < length (g_nodes (s_graph s))"
  shows "simplify_step s i =
    (if \<not> to_push (s_graph s) i then s
     else if pq_test (s_graph s) i then s\<lparr>s_graph := push_node (s_graph s) i, s_progress := True\<rparr>
     else if n_q_total (g_nodes (s_graph s) ! i) < s_lowest_q_total s
     then s\<lparr>s_best_optimistic_node := i, s_lowest_q_total := n_q_total (g_nodes (s_graph s) ! i)\<rparr>
     else s)"
  using assms by (auto simp: simplify_step_def to_push_def Let_def)

text \<open>What a pass does, seen from the graph it starts with.\<close>

definition pass_inv :: "ra_graph \<Rightarrow> simplify_state \<Rightarrow> bool" where
  "pass_inv g s \<longleftrightarrow>
    length (g_nodes (s_graph s)) = length (g_nodes g) \<and>
    (if s_progress s then unstacked (s_graph s) < unstacked g else s_graph s = g) \<and>
    (s_best_optimistic_node s \<noteq> UINT_MAX \<and> \<not> s_progress s \<longrightarrow> to_push g (s_best_optimistic_node s))"

lemma pass_inv_step:
  assumes "pass_inv g s" "i < length (g_nodes g)"
  shows "pass_inv g (simplify_step s i)"
  using assms unstacked_push_node [of "s_graph s" i]
  by (subst simplify_step_eq) (auto simp: pass_inv_def push_node_simps split: if_splits)

lemma pass_inv_pass: "pass_inv g (simplify_pass g)"
proof -
  have "pass_inv g (foldl simplify_step s is)" if "pass_inv g s" "\<forall>i \<in> set is. i < length (g_nodes g)"
    for s "is" using that by (induction "is" arbitrary: s) (auto simp: pass_inv_step)
  then show ?thesis by (simp add: simplify_pass_def pass_inv_def)
qed

function simplify_loop :: "ra_graph \<Rightarrow> nat \<Rightarrow> ra_graph \<times> nat" where
  "simplify_loop g stack_optimistic_start =
    (let s = simplify_pass g
     in if \<not> s_progress s \<and> s_best_optimistic_node s \<noteq> UINT_MAX
        then simplify_loop (push_node (s_graph s) (s_best_optimistic_node s))
               (if stack_optimistic_start = UINT_MAX then g_stack_count (s_graph s)
                else stack_optimistic_start)
        else if s_progress s then simplify_loop (s_graph s) stack_optimistic_start
        else (s_graph s, stack_optimistic_start))"
  by pat_completeness auto
termination
proof (relation "measure (\<lambda>(g, _). unstacked g)")
  fix g and k :: nat and s
  assume s: "s = simplify_pass g" "\<not> s_progress s \<and> s_best_optimistic_node s \<noteq> UINT_MAX"
  then show "((push_node (s_graph s) (s_best_optimistic_node s),
      if k = UINT_MAX then g_stack_count (s_graph s) else k), g, k) \<in> measure (\<lambda>(g, _). unstacked g)"
    using pass_inv_pass [of g] unstacked_push_node by (auto simp: pass_inv_def)
next
  fix g and k :: nat and s
  assume s: "s = simplify_pass g" "\<not> (\<not> s_progress s \<and> s_best_optimistic_node s \<noteq> UINT_MAX)"
    "s_progress s"
  then show "((s_graph s, k), g, k) \<in> measure (\<lambda>(g, _). unstacked g)"
    using pass_inv_pass [of g] by (simp add: pass_inv_def)
qed simp

declare simplify_loop.simps [simp del]

definition ra_simplify :: "ra_graph \<Rightarrow> ra_graph" where
  "ra_simplify g =
    (let (g', start) = simplify_loop g UINT_MAX in g'\<lparr>g_stack_optimistic_start := start\<rparr>)"

section \<open>Selection\<close>

definition ra_any_neighbors_conflict :: "ra_graph \<Rightarrow> nat \<Rightarrow> nat \<Rightarrow> bool" where
  "ra_any_neighbors_conflict g n r \<longleftrightarrow>
    list_ex (\<lambda>n2. \<not> n_in_stack (g_nodes g ! n2) \<and>
        BITSET_TEST (r_conflicts (rs_regs (g_regs g) ! r)) (n_reg (g_nodes g ! n2)))
      (n_adjacency_list (g_nodes g ! n))"

definition ra_compute_available_regs :: "ra_graph \<Rightarrow> nat \<Rightarrow> bool \<times> bitset" where
  "ra_compute_available_regs g n =
    (let regs = foldl (\<lambda>regs n2. if \<not> n_in_stack (g_nodes g ! n2)
             then bitset_andnot regs (r_conflicts (rs_regs (g_regs g) ! n_reg (g_nodes g ! n2)))
             else regs)
           (c_regs (rs_classes (g_regs g) ! n_class (g_nodes g ! n)))
           (n_adjacency_list (g_nodes g ! n))
     in (bitset_any regs, regs))"

text \<open>The search for the first register of the class, from \<open>start_search_reg\<close> on and around.\<close>

definition first_free_reg :: "ra_graph \<Rightarrow> nat \<Rightarrow> nat \<Rightarrow> nat option" where
  "first_free_reg g n start_search_reg =
    find (\<lambda>r. reg_belongs_to_class r (rs_classes (g_regs g) ! n_class (g_nodes g ! n))
              \<and> \<not> ra_any_neighbors_conflict g n r)
      (map (\<lambda>ri. (start_search_reg + ri) mod rs_count (g_regs g)) [0 ..< rs_count (g_regs g)])"

text \<open>
  \<open>select_reg_callback\<close> is an argument; the graph it is shown is the one at the time of the call.
  The count minus one of an empty stack is \<open>UINT_MAX\<close>.
\<close>

definition choose_reg :: "(ra_graph \<Rightarrow> bitset \<Rightarrow> nat) option \<Rightarrow> ra_graph \<Rightarrow> nat \<Rightarrow> nat \<Rightarrow> nat option" where
  "choose_reg callback g n start_search_reg =
    (case callback of
       Some cb \<Rightarrow> (let (found, select_regs) = ra_compute_available_regs g n
                  in if found then Some (cb g select_regs) else None)
     | None \<Rightarrow> first_free_reg g n start_search_reg)"

text \<open>The two updates of the graph in a round of \<open>ra_select\<close>.\<close>

definition pop_node :: "ra_graph \<Rightarrow> nat \<Rightarrow> ra_graph" where
  "pop_node g n = g\<lparr>g_nodes := (g_nodes g)[n := (g_nodes g ! n)\<lparr>n_in_stack := False\<rparr>]\<rparr>"

definition color_node :: "ra_graph \<Rightarrow> nat \<Rightarrow> nat \<Rightarrow> ra_graph" where
  "color_node g n r = g\<lparr>g_nodes := (g_nodes g)[n := (g_nodes g ! n)\<lparr>n_reg := r\<rparr>],
     g_stack_count := g_stack_count g - 1\<rparr>"

function select_loop :: "(ra_graph \<Rightarrow> bitset \<Rightarrow> nat) option \<Rightarrow> ra_graph \<Rightarrow> nat \<Rightarrow> ra_graph \<times> bool" where
  "select_loop callback g start_search_reg =
    (if g_stack_count g = 0 then (g, True)
     else
       let n = g_stack g ! (g_stack_count g - 1);
           g1 = pop_node g n
       in case choose_reg callback g1 n start_search_reg of
            None \<Rightarrow> (g1, False)
          | Some r \<Rightarrow>
              let g2 = color_node g1 n r;
                  above = (if g_stack_count g2 = 0 then UINT_MAX else g_stack_count g2 - 1)
              in select_loop callback g2
                   (if rs_round_robin (g_regs g2) \<and> above \<le> g_stack_optimistic_start g2
                    then r + 1 else start_search_reg))"
  by pat_completeness auto
termination
  by (relation "measure (\<lambda>(_, g, _). g_stack_count g)") (auto simp: pop_node_def color_node_def)

declare select_loop.simps [simp del]

definition ra_select :: "(ra_graph \<Rightarrow> bitset \<Rightarrow> nat) option \<Rightarrow> ra_graph \<Rightarrow> ra_graph \<times> bool" where
  "ra_select callback g = select_loop callback g 0"

definition ra_allocate :: "(ra_graph \<Rightarrow> bitset \<Rightarrow> nat) option \<Rightarrow> ra_graph \<Rightarrow> ra_graph \<times> bool" where
  "ra_allocate callback g = ra_select callback (ra_simplify g)"

end
