(* ===== verification/RegAllocCorrect.thy ===== *)
theory RegAllocCorrect
  imports RegAlloc
begin

text \<open>
  Correctness of the register allocator: the invariant of simplification (the totals are the sums over
  the neighbours not on the stack), the colouring selection builds, the guarantee that a graph whose
  nodes all pass the \<open>pq\<close> test is coloured, and what the operations that build register sets and
  interference graphs establish.
\<close>

section \<open>Invariants\<close>

abbreviation adj :: "ra_graph \<Rightarrow> nat \<Rightarrow> nat list" where
  "adj g i \<equiv> n_adjacency_list (g_nodes g ! i)"

abbreviation cls :: "ra_graph \<Rightarrow> nat \<Rightarrow> nat" where
  "cls g i \<equiv> n_class (g_nodes g ! i)"

abbreviation stacked :: "ra_graph \<Rightarrow> nat \<Rightarrow> bool" where
  "stacked g i \<equiv> n_in_stack (g_nodes g ! i)"

abbreviation nodes_count :: "ra_graph \<Rightarrow> nat" where
  "nodes_count g \<equiv> length (g_nodes g)"

text \<open>Registers \<open>r\<close> and \<open>s\<close> of the set conflict; \<open>r\<close> is in class \<open>c\<close>.\<close>

definition conflict :: "ra_regs \<Rightarrow> nat \<Rightarrow> nat \<Rightarrow> bool" where
  "conflict rs r s \<longleftrightarrow> BITSET_TEST (r_conflicts (rs_regs rs ! r)) s"

definition class_regs :: "ra_regs \<Rightarrow> nat \<Rightarrow> nat set" where
  "class_regs rs c = {r. r < rs_count rs \<and> reg_belongs_to_class r (rs_classes rs ! c)}"

definition regs_wf :: "ra_regs \<Rightarrow> bool" where
  "regs_wf rs \<longleftrightarrow>
    length (rs_regs rs) = rs_count rs \<and>
    (\<forall>r < rs_count rs. bitset_wf (rs_count rs) (r_conflicts (rs_regs rs ! r)) \<and> conflict rs r r) \<and>
    (\<forall>r < rs_count rs. \<forall>s < rs_count rs. conflict rs r s \<longrightarrow> conflict rs s r) \<and>
    (\<forall>c < length (rs_classes rs). bitset_wf (rs_count rs) (c_regs (rs_classes rs ! c)))"

text \<open>The interference graph is symmetric and without loops, and its two representations agree.\<close>

definition node_wf :: "ra_graph \<Rightarrow> nat \<Rightarrow> bool" where
  "node_wf g i \<longleftrightarrow>
    cls g i < length (rs_classes (g_regs g)) \<and> distinct (adj g i) \<and>
    (\<forall>j \<in> set (adj g i). j < nodes_count g \<and> j \<noteq> i \<and> i \<in> set (adj g j)) \<and>
    bitset_wf (nodes_count g) (n_adjacency (g_nodes g ! i)) \<and>
    (\<forall>j < nodes_count g. BITSET_TEST (n_adjacency (g_nodes g ! i)) j \<longleftrightarrow> j \<in> set (adj g i))"

definition graph_wf :: "ra_graph \<Rightarrow> bool" where
  "graph_wf g \<longleftrightarrow> regs_wf (g_regs g) \<and> length (g_stack g) = nodes_count g \<and>
     (\<forall>i < nodes_count g. node_wf g i)"

lemma graph_wfD:
  assumes "graph_wf g"
  shows "regs_wf (g_regs g)" "length (g_stack g) = nodes_count g"
    "i < nodes_count g \<Longrightarrow> node_wf g i"
    "i < nodes_count g \<Longrightarrow> distinct (adj g i)"
    "i < nodes_count g \<Longrightarrow> j \<in> set (adj g i) \<Longrightarrow> j < nodes_count g"
    "i < nodes_count g \<Longrightarrow> j \<in> set (adj g i) \<Longrightarrow> j \<noteq> i"
    "i < nodes_count g \<Longrightarrow> j \<in> set (adj g i) \<Longrightarrow> i \<in> set (adj g j)"
    "i < nodes_count g \<Longrightarrow> cls g i < length (rs_classes (g_regs g))"
  using assms unfolding graph_wf_def node_wf_def by blast+

lemma node_wf_cong:
  assumes "node_wf g i" "g_regs g' = g_regs g" "nodes_count g' = nodes_count g" "i < nodes_count g"
    and "\<And>j. j < nodes_count g \<Longrightarrow> adj g' j = adj g j \<and> cls g' j = cls g j \<and>
      n_adjacency (g_nodes g' ! j) = n_adjacency (g_nodes g ! j)"
  shows "node_wf g' i"
proof -
  have "\<forall>j \<in> set (adj g i). j < nodes_count g \<and> j \<noteq> i \<and> i \<in> set (adj g' j)"
    using assms(1,5) by (simp add: node_wf_def)
  then show ?thesis
    using assms(1) assms(5) [OF assms(4)] by (simp add: node_wf_def assms(2,3))
qed

definition stack_of :: "ra_graph \<Rightarrow> nat list" where
  "stack_of g = take (g_stack_count g) (g_stack g)"

definition stack_wf :: "ra_graph \<Rightarrow> bool" where
  "stack_wf g \<longleftrightarrow>
    g_stack_count g \<le> length (g_stack g) \<and> distinct (stack_of g) \<and>
    set (stack_of g) = {i. i < nodes_count g \<and> stacked g i} \<and>
    (\<forall>i < nodes_count g. stacked g i \<longrightarrow> n_reg (g_nodes g ! i) = NO_REG)"

text \<open>The worst number of registers of the class of \<open>i\<close> the neighbour \<open>j\<close> can take.\<close>

definition node_q :: "ra_graph \<Rightarrow> nat \<Rightarrow> nat \<Rightarrow> u32" where
  "node_q g i j = class_q g (cls g i) (cls g j)"

definition active :: "ra_graph \<Rightarrow> nat \<Rightarrow> nat set" where
  "active g i = {j. j \<in> set (adj g i) \<and> \<not> stacked g j}"

definition q_inv :: "ra_graph \<Rightarrow> bool" where
  "q_inv g \<longleftrightarrow> (\<forall>i < nodes_count g. \<not> stacked g i \<longrightarrow>
     n_q_total (g_nodes g ! i) = (\<Sum>j \<in> active g i. node_q g i j))"

text \<open>The totals of a graph stay below the value that marks the absence of a node.\<close>

definition q_bounded :: "ra_graph \<Rightarrow> bool" where
  "q_bounded g \<longleftrightarrow> nodes_count g < UINT_MAX \<and>
     (\<forall>i < nodes_count g. (\<Sum>j \<in> set (adj g i). unat (node_q g i j)) < UINT_MAX)"

definition simplify_inv :: "ra_graph \<Rightarrow> bool" where
  "simplify_inv g \<longleftrightarrow> graph_wf g \<and> stack_wf g \<and> q_inv g \<and> q_bounded g"

lemma finite_active [simp]: "finite (active g i)"
  by (rule finite_subset [of _ "set (adj g i)"]) (auto simp: active_def)

lemma unat_sum_bounded:
  fixes f :: "nat \<Rightarrow> u32"
  assumes "finite A" "(\<Sum>j \<in> A. unat (f j)) < 2 ^ 32"
  shows "unat (\<Sum>j \<in> A. f j) = (\<Sum>j \<in> A. unat (f j))"
  using assms
proof (induction A)
  case (insert x A)
  then show ?case using unat_add_less [of "f x" "\<Sum>j \<in> A. f j"] by simp
qed simp

lemma unat_q_total:
  assumes "simplify_inv g" "i < nodes_count g" "\<not> stacked g i"
  shows "unat (n_q_total (g_nodes g ! i)) = (\<Sum>j \<in> active g i. unat (node_q g i j))"
    "unat (n_q_total (g_nodes g ! i)) < UINT_MAX"
proof -
  have le: "(\<Sum>j \<in> active g i. unat (node_q g i j)) \<le> (\<Sum>j \<in> set (adj g i). unat (node_q g i j))"
    by (rule sum_mono2) (auto simp: active_def)
  also have "\<dots> < UINT_MAX" using assms by (simp add: simplify_inv_def q_bounded_def)
  finally have lt: "(\<Sum>j \<in> active g i. unat (node_q g i j)) < UINT_MAX" .
  show eq: "unat (n_q_total (g_nodes g ! i)) = (\<Sum>j \<in> active g i. unat (node_q g i j))"
    using assms lt unat_sum_bounded [of "active g i" "node_q g i"]
    by (simp add: simplify_inv_def q_inv_def)
  show "unat (n_q_total (g_nodes g ! i)) < UINT_MAX" using eq lt by simp
qed

section \<open>Pushing a node\<close>

lemma decrement_q_fold:
  assumes "distinct js" "\<forall>j \<in> set js. j < nodes_count g" "i < nodes_count g"
  shows "g_nodes (foldl (decrement_q_step c) g js) ! i =
    (if i \<in> set js \<and> \<not> stacked g i
     then (g_nodes g ! i)\<lparr>n_q_total := n_q_total (g_nodes g ! i) - class_q g (cls g i) c\<rparr>
     else g_nodes g ! i)"
  using assms
proof (induction js arbitrary: g)
  case (Cons j js)
  let ?g = "decrement_q_step c g j"
  have g: "nodes_count ?g = nodes_count g" "g_regs ?g = g_regs g"
    "g_nodes ?g ! i = (if i = j \<and> \<not> stacked g i
       then (g_nodes g ! i)\<lparr>n_q_total := n_q_total (g_nodes g ! i) - class_q g (cls g i) c\<rparr>
       else g_nodes g ! i)"
    using Cons.prems by (auto simp: decrement_q_step_def Let_def nth_list_update)
  have "class_q ?g = class_q g" by (simp add: class_q_def fun_eq_iff g(2))
  then show ?case using Cons.IH [of ?g] Cons.prems g by auto
qed simp

lemma decrement_q_total:
  assumes "graph_wf g" "n < nodes_count g" "i < nodes_count g"
  shows "n_q_total (g_nodes (decrement_q g n) ! i) =
    (if i \<in> set (adj g n) \<and> \<not> stacked g i then n_q_total (g_nodes g ! i) - node_q g i n
     else n_q_total (g_nodes g ! i))"
  using decrement_q_fold [of "adj g n" g i "cls g n"] graph_wfD(4,5) [OF assms(1,2)] assms(3)
  by (simp add: decrement_q_def node_q_def)

text \<open>The assertion in \<open>decrement_q\<close>, at the moment node \<open>adj ! k\<close> is reached.\<close>

lemma decrement_q_assertion:
  assumes inv: "simplify_inv g" and n: "n < nodes_count g" "\<not> stacked g n" and k: "k < length (adj g n)"
    and s: "\<not> stacked g (adj g n ! k)"
  shows "node_q g (adj g n ! k) n
    \<le> n_q_total (g_nodes (foldl (decrement_q_step (cls g n)) g (take k (adj g n))) ! (adj g n ! k))"
proof -
  let ?i = "adj g n ! k"
  have wf: "graph_wf g" using inv by (simp add: simplify_inv_def)
  have mem: "?i \<in> set (adj g n)" using k by simp
  have i: "?i < nodes_count g" "n \<in> set (adj g ?i)"
    using graph_wfD(5,7) [OF wf n(1) mem] by auto
  have d: "distinct (adj g n)" by (rule graph_wfD(4) [OF wf n(1)])
  have "?i \<notin> set (take k (adj g n))"
  proof
    assume "?i \<in> set (take k (adj g n))"
    then obtain j where "j < k" "adj g n ! j = ?i" by (auto simp: in_set_conv_nth)
    then show False using d k by (simp add: nth_eq_iff_index_eq)
  qed
  then have same: "g_nodes (foldl (decrement_q_step (cls g n)) g (take k (adj g n))) ! ?i = g_nodes g ! ?i"
    using decrement_q_fold [of "take k (adj g n)" g ?i "cls g n"] d graph_wfD(5) [OF wf n(1)] i
    by (auto dest: in_set_takeD)
  have "unat (node_q g ?i n) \<le> (\<Sum>j \<in> active g ?i. unat (node_q g ?i j))"
    by (rule member_le_sum) (use i n in \<open>auto simp: active_def\<close>)
  then show ?thesis
    using unat_q_total(1) [OF inv i(1) s] unfolding same word_le_nat_alt by simp
qed

lemma active_push_node:
  assumes "graph_wf g" "i < nodes_count g" "n < nodes_count g"
  shows "active (push_node g n) i = active g i - {n}"
  using assms graph_wfD(5) [OF assms(1,2)] by (auto simp: active_def push_node_simps)

lemma push_node_node_q:
  assumes "i < nodes_count g" "j < nodes_count g"
  shows "node_q (push_node g n) i j = node_q g i j"
  using assms by (simp add: node_q_def class_q_def push_node_simps)

lemma stack_of_push_node:
  assumes "g_stack_count g < length (g_stack g)"
  shows "stack_of (push_node g n) = stack_of g @ [n]"
  using assms by (simp add: stack_of_def push_node_simps take_Suc_conv_app_nth)

lemma stack_count_less:
  assumes wf: "graph_wf g" "stack_wf g" and n: "n < nodes_count g" "\<not> stacked g n"
  shows "g_stack_count g < length (g_stack g)"
proof -
  have "card (set (stack_of g)) < card {..< nodes_count g}"
    by (rule psubset_card_mono) (use assms in \<open>auto simp: stack_wf_def\<close>)
  moreover have d: "distinct (stack_of g)" "g_stack_count g \<le> length (g_stack g)"
    using wf(2) by (simp_all add: stack_wf_def)
  have "card (set (stack_of g)) = g_stack_count g"
    using distinct_card [OF d(1)] d(2) by (simp add: stack_of_def)
  ultimately show ?thesis using graph_wfD(2) [OF wf(1)] by simp
qed

lemma push_node_graph_wf:
  assumes "graph_wf g"
  shows "graph_wf (push_node g n)"
  unfolding graph_wf_def
proof (intro conjI allI impI)
  fix i assume "i < nodes_count (push_node g n)"
  then have i: "i < nodes_count g" by (simp add: push_node_simps)
  show "node_wf (push_node g n) i"
    by (rule node_wf_cong [OF graph_wfD(3) [OF assms i] _ _ i]) (simp_all add: push_node_simps)
qed (use graph_wfD(1,2) [OF assms] in \<open>simp_all add: push_node_simps\<close>)

lemma push_node_inv:
  assumes inv: "simplify_inv g" and n: "to_push g n"
  shows "simplify_inv (push_node g n)"
proof -
  let ?g = "push_node g n"
  have wf: "graph_wf g" and st: "stack_wf g" and q: "q_inv g" and b: "q_bounded g"
    using inv by (auto simp: simplify_inv_def)
  have n': "n < nodes_count g" "\<not> stacked g n" "n_reg (g_nodes g ! n) = NO_REG"
    using n by (auto simp: to_push_def)
  have cnt: "g_stack_count g < length (g_stack g)" by (rule stack_count_less [OF wf st n'(1,2)])
  have wf': "graph_wf ?g" by (rule push_node_graph_wf [OF wf])
  have "stack_wf ?g"
    unfolding stack_wf_def stack_of_push_node [OF cnt]
    using st n' cnt by (auto simp: stack_wf_def push_node_simps)
  moreover have "q_inv ?g"
    unfolding q_inv_def
  proof (intro allI impI)
    fix i assume i: "i < nodes_count ?g" "\<not> stacked ?g i"
    then have i': "i < nodes_count g" "i \<noteq> n" "\<not> stacked g i" by (auto simp: push_node_simps)
    have eq: "(\<Sum>j \<in> active ?g i. node_q ?g i j) = (\<Sum>j \<in> active g i - {n}. node_q g i j)"
      using active_push_node [OF wf i'(1) n'(1)] push_node_node_q [OF i'(1)] graph_wfD(5) [OF wf i'(1)]
      by (intro sum.cong) (auto simp: active_def)
    have tot: "n_q_total (g_nodes g ! i) = (\<Sum>j \<in> active g i. node_q g i j)"
      using q i' by (simp add: q_inv_def)
    have mem: "i \<in> set (adj g n) \<longleftrightarrow> n \<in> active g i"
      using graph_wfD(7) [OF wf] i' n' by (auto simp: active_def)
    show "n_q_total (g_nodes ?g ! i) = (\<Sum>j \<in> active ?g i. node_q ?g i j)"
      unfolding eq push_node_simps(11) [OF i'(1)] decrement_q_total [OF wf n'(1) i'(1)] tot
      using i'(3) mem sum.remove [of "active g i" n "node_q g i"] by auto
  qed
  moreover have "q_bounded ?g"
  proof -
    have "(\<Sum>j \<in> set (adj ?g i). unat (node_q ?g i j)) = (\<Sum>j \<in> set (adj g i). unat (node_q g i j))"
      if "i < nodes_count g" for i
      using push_node_node_q [OF that] graph_wfD(5) [OF wf that] that
      by (intro sum.cong) (auto simp: push_node_simps)
    then show ?thesis using b by (simp add: q_bounded_def push_node_simps)
  qed
  ultimately show ?thesis using wf' by (simp add: simplify_inv_def)
qed

section \<open>Simplification\<close>

text \<open>The parts of the graph that allocation does not change.\<close>

definition same_graph :: "ra_graph \<Rightarrow> ra_graph \<Rightarrow> bool" where
  "same_graph g g' \<longleftrightarrow>
    g_regs g' = g_regs g \<and> nodes_count g' = nodes_count g \<and> length (g_stack g') = length (g_stack g) \<and>
    (\<forall>i < nodes_count g. adj g' i = adj g i \<and> cls g' i = cls g i \<and>
       n_adjacency (g_nodes g' ! i) = n_adjacency (g_nodes g ! i))"

definition same_assignment :: "ra_graph \<Rightarrow> ra_graph \<Rightarrow> bool" where
  "same_assignment g g' \<longleftrightarrow> (\<forall>i < nodes_count g. n_reg (g_nodes g' ! i) = n_reg (g_nodes g ! i))"

lemma same_graph_refl [simp]: "same_graph g g" "same_assignment g g"
  by (simp_all add: same_graph_def same_assignment_def)

lemma same_graph_trans: "same_graph a b \<Longrightarrow> same_graph b c \<Longrightarrow> same_graph a c"
  by (simp add: same_graph_def)

lemma same_graph_wf:
  assumes "same_graph g g'" "graph_wf g"
  shows "graph_wf g'"
  unfolding graph_wf_def
proof (intro conjI allI impI)
  fix i assume "i < nodes_count g'"
  then have i: "i < nodes_count g" using assms(1) by (simp add: same_graph_def)
  show "node_wf g' i"
    by (rule node_wf_cong [OF graph_wfD(3) [OF assms(2) i] _ _ i])
      (use assms(1) in \<open>simp_all add: same_graph_def\<close>)
qed (use graph_wfD(1,2) [OF assms(2)] assms(1) in \<open>simp_all add: same_graph_def\<close>)

lemma push_node_same: "same_graph g (push_node g n)" "same_assignment g (push_node g n)"
  by (simp_all add: same_graph_def same_assignment_def push_node_simps)

text \<open>
  The node in slot \<open>k\<close> of the stack passes the \<open>pq\<close> test with the neighbours that are not below it:
  the ones that are coloured when it is popped.
\<close>

definition pq_slot :: "ra_graph \<Rightarrow> nat \<Rightarrow> bool" where
  "pq_slot g k \<longleftrightarrow>
    (let n = g_stack g ! k
     in (\<Sum>j \<in> {j \<in> set (adj g n). j \<notin> set (take k (g_stack g))}. unat (node_q g n j))
        < unat (c_p (rs_classes (g_regs g) ! cls g n)))"

text \<open>The invariant of the loop of \<open>ra_simplify\<close> that began with graph \<open>g0\<close>.\<close>

definition simplify_loop_inv :: "ra_graph \<Rightarrow> nat \<Rightarrow> ra_graph \<Rightarrow> bool" where
  "simplify_loop_inv g0 start g \<longleftrightarrow>
    simplify_inv g \<and> same_graph g0 g \<and> same_assignment g0 g \<and>
    (start \<noteq> UINT_MAX \<longrightarrow> start \<le> g_stack_count g) \<and>
    (\<forall>k < (if start = UINT_MAX then g_stack_count g else start). pq_slot g k)"

lemma stack_elem_less:
  assumes "simplify_inv g" "k < g_stack_count g"
  shows "g_stack g ! k < nodes_count g"
proof -
  have st: "stack_wf g" using assms(1) by (simp add: simplify_inv_def)
  then have "k < length (stack_of g)" "stack_of g ! k = g_stack g ! k"
    using assms(2) by (auto simp: stack_of_def stack_wf_def)
  then have "g_stack g ! k \<in> set (stack_of g)" by (metis nth_mem)
  then show ?thesis using st by (simp add: stack_wf_def)
qed

lemma pq_slot_cong:
  assumes "simplify_inv g" "k < g_stack_count g" "same_graph g g'"
    "take (Suc k) (g_stack g') = take (Suc k) (g_stack g)"
  shows "pq_slot g' k \<longleftrightarrow> pq_slot g k"
proof -
  let ?n = "g_stack g ! k"
  have wf: "graph_wf g" using assms(1) by (simp add: simplify_inv_def)
  have n: "?n < nodes_count g" by (rule stack_elem_less [OF assms(1,2)])
  have "k < length (g_stack g)" using assms(1,2) by (auto simp: simplify_inv_def stack_wf_def)
  then have "g_stack g' ! k = ?n"
    using assms(3,4) by (metis lessI nth_take)
  moreover have "take k (g_stack g') = take k (g_stack g)"
    using arg_cong [OF assms(4), of "take k"] by (simp add: min_def)
  moreover have "node_q g' ?n j = node_q g ?n j" if "j \<in> set (adj g ?n)" for j
    using graph_wfD(5) [OF wf n that] n assms(3) by (simp add: node_q_def class_q_def same_graph_def)
  then have "(\<Sum>j \<in> {j \<in> set (adj g ?n). j \<notin> set (take k (g_stack g))}. unat (node_q g' ?n j))
      = (\<Sum>j \<in> {j \<in> set (adj g ?n). j \<notin> set (take k (g_stack g))}. unat (node_q g ?n j))"
    by (intro sum.cong) auto
  ultimately show ?thesis
    using n assms(3) by (simp add: pq_slot_def same_graph_def Let_def)
qed

lemma pq_slot_push_old:
  assumes "simplify_inv g" "k < g_stack_count g"
  shows "pq_slot (push_node g n) k \<longleftrightarrow> pq_slot g k"
  by (rule pq_slot_cong [OF assms push_node_same(1)])
    (use assms(2) in \<open>simp add: push_node_simps take_update_cancel\<close>)

lemma pq_slot_push_new:
  assumes inv: "simplify_inv g" and n: "to_push g n" and pq: "pq_test g n"
  shows "pq_slot (push_node g n) (g_stack_count g)"
proof -
  have wf: "graph_wf g" and st: "stack_wf g" using inv by (auto simp: simplify_inv_def)
  have n': "n < nodes_count g" "\<not> stacked g n" using n by (auto simp: to_push_def)
  have cnt: "g_stack_count g < length (g_stack g)" by (rule stack_count_less [OF wf st n'])
  have "{j \<in> set (adj g n). j \<notin> set (take (g_stack_count g) (g_stack g))} = active g n"
    using st graph_wfD(5) [OF wf n'(1)] by (auto simp: active_def stack_wf_def stack_of_def)
  moreover have "node_q (push_node g n) n j = node_q g n j" if "j \<in> active g n" for j
    using that graph_wfD(5) [OF wf n'(1)] push_node_node_q [OF n'(1)] by (simp add: active_def)
  ultimately show ?thesis
    using cnt n' pq unat_q_total(1) [OF inv n']
    by (simp add: pq_slot_def push_node_simps pq_test_def word_less_nat_alt cong: sum.cong)
qed

lemma loop_inv_push:
  assumes inv: "simplify_loop_inv g0 start g" and n: "to_push g n"
    and start: "start' = (if pq_test g n then start else if start = UINT_MAX then g_stack_count g else start)
      \<or> start' = (if start = UINT_MAX then g_stack_count g else start)"
  shows "simplify_loop_inv g0 start' (push_node g n)"
proof -
  let ?g = "push_node g n"
  have s: "simplify_inv g" "same_graph g0 g" "same_assignment g0 g"
    and c: "start \<noteq> UINT_MAX \<longrightarrow> start \<le> g_stack_count g"
    and pq: "\<forall>k < (if start = UINT_MAX then g_stack_count g else start). pq_slot g k"
    using inv by (auto simp: simplify_loop_inv_def)
  have "g_stack_count g < length (g_stack g)"
    by (rule stack_count_less) (use s(1) n in \<open>auto simp: simplify_inv_def to_push_def\<close>)
  then have lt: "g_stack_count g < UINT_MAX"
    using s(1) graph_wfD(2) by (auto simp: simplify_inv_def q_bounded_def)
  have asg: "same_assignment g0 ?g"
    using s(2,3) push_node_same(2) [of g n] by (simp add: same_assignment_def same_graph_def)
  have old: "pq_slot ?g k" if "k < (if start = UINT_MAX then g_stack_count g else start)" for k
    using pq that c pq_slot_push_old [OF s(1), of k n] by (auto split: if_splits)
  have new: "pq_slot ?g k" if "pq_test g n" "k < Suc (g_stack_count g)" "start = UINT_MAX" for k
    using old [of k] pq_slot_push_new [OF s(1) n that(1)] that by (cases "k = g_stack_count g") auto
  show ?thesis
    using push_node_inv [OF s(1) n] same_graph_trans [OF s(2) push_node_same(1)] asg c lt start old new
    unfolding simplify_loop_inv_def by (auto simp: push_node_simps split: if_splits)
qed

lemma loop_inv_pass:
  assumes "simplify_loop_inv g0 start g"
  shows "simplify_loop_inv g0 start (s_graph (simplify_pass g))"
proof -
  have step: "simplify_loop_inv g0 start (s_graph (simplify_step s i))"
    if "simplify_loop_inv g0 start (s_graph s)" "i < nodes_count (s_graph s)" for s i
    using that loop_inv_push [of g0 start "s_graph s" i start] by (subst simplify_step_eq) auto
  have "simplify_loop_inv g0 start (s_graph (foldl simplify_step s js))"
    if "simplify_loop_inv g0 start (s_graph s)" "\<forall>i \<in> set js. i < nodes_count g"
      "nodes_count g = nodes_count g0" for s js
    using that
  proof (induction js arbitrary: s)
    case (Cons i js)
    then have "i < nodes_count (s_graph s)"
      by (simp add: simplify_loop_inv_def same_graph_def)
    then show ?case using Cons step by simp
  qed simp
  then show ?thesis
    using assms by (simp add: simplify_pass_def simplify_loop_inv_def same_graph_def)
qed

text \<open>A pass that makes no progress and finds no candidate leaves nothing to push.\<close>

lemma pass_complete:
  assumes inv: "simplify_inv g" and s: "s = simplify_pass g" "\<not> s_progress s"
    "s_best_optimistic_node s = UINT_MAX"
  shows "\<not> to_push g i"
proof -
  define P where "P s A \<longleftrightarrow> s_progress s \<or> s_best_optimistic_node s \<noteq> UINT_MAX
    \<or> s_graph s = g \<and> s_lowest_q_total s = of_nat UINT_MAX \<and> (\<forall>i \<in> A. \<not> to_push g i)"
    for s :: simplify_state and A :: "nat set"
  define Q where "Q s \<longleftrightarrow> nodes_count (s_graph s) = nodes_count g" for s :: simplify_state
  have max: "unat (of_nat UINT_MAX :: u32) = UINT_MAX" by (rule unat_of_nat_less) simp
  have step: "P (simplify_step s i) (insert i A)" "Q (simplify_step s i)"
    if "P s A" "Q s" "i < nodes_count g" for s i A
  proof -
    have i: "i < nodes_count (s_graph s)" using that by (simp add: Q_def)
    have "i < UINT_MAX" using that(3) inv by (simp add: simplify_inv_def q_bounded_def)
    moreover have "n_q_total (g_nodes g ! i) < of_nat UINT_MAX" if "to_push g i"
      using unat_q_total(2) [OF inv, of i] that max by (simp add: to_push_def word_less_nat_alt)
    ultimately show "P (simplify_step s i) (insert i A)"
      using that(1) unfolding P_def simplify_step_eq [OF i] by auto
    show "Q (simplify_step s i)"
      using that(2) unfolding Q_def simplify_step_eq [OF i] by (auto simp: push_node_simps)
  qed
  have "P (foldl simplify_step s js) (A \<union> set js) \<and> Q (foldl simplify_step s js)"
    if "P s A" "Q s" "\<forall>i \<in> set js. i < nodes_count g" for s A js
    using that
  proof (induction js arbitrary: s A)
    case (Cons j js)
    then show ?case using Cons.IH [OF step] Cons.prems by simp
  qed simp
  from this [of "\<lparr>s_graph = g, s_progress = False, s_best_optimistic_node = UINT_MAX,
       s_lowest_q_total = of_nat UINT_MAX\<rparr>" "{}" "rev [0 ..< nodes_count g]"]
  have "P s {0 ..< nodes_count g}" by (simp add: s(1) simplify_pass_def P_def Q_def)
  then show ?thesis using s(2,3) by (auto simp: P_def to_push_def)
qed

lemma simplify_loop_result:
  assumes "simplify_loop_inv g0 start g" "simplify_loop g start = (g', start')"
  shows "simplify_loop_inv g0 start' g' \<and> (\<forall>i. \<not> to_push g' i)"
  using assms
proof (induction g start rule: simplify_loop.induct)
  case (1 g start)
  define s where "s = simplify_pass g"
  note pass = loop_inv_pass [OF "1.prems"(1), folded s_def]
  have pinv: "pass_inv g s" using pass_inv_pass by (simp add: s_def)
  consider "\<not> s_progress s" "s_best_optimistic_node s \<noteq> UINT_MAX" | "s_progress s"
    | "\<not> s_progress s" "s_best_optimistic_node s = UINT_MAX" by blast
  then show ?case
  proof cases
    case 1
    then have g: "s_graph s = g" "to_push g (s_best_optimistic_node s)"
      using pinv by (auto simp: pass_inv_def)
    let ?start = "if start = UINT_MAX then g_stack_count g else start"
    have a: "simplify_loop_inv g0 ?start (push_node g (s_best_optimistic_node s))"
      using loop_inv_push [OF "1.prems"(1) g(2), of ?start] by blast
    have b: "simplify_loop (push_node g (s_best_optimistic_node s)) ?start = (g', start')"
    proof -
      have "simplify_loop g start = simplify_loop (push_node (s_graph s) (s_best_optimistic_node s))
          (if start = UINT_MAX then g_stack_count (s_graph s) else start)"
        using 1 by (subst simplify_loop.simps) (simp add: s_def [symmetric] Let_def)
      then show ?thesis using "1.prems"(2) unfolding g(1) by simp
    qed
    show ?thesis by (rule "1.IH"(1) [OF s_def conjI [OF 1], unfolded g(1), OF a b])
  next
    case 2
    then have "simplify_loop (s_graph s) start = (g', start')"
      using "1.prems"(2) by (simp add: simplify_loop.simps [of g start] s_def [symmetric] Let_def)
    then show ?thesis using "1.IH"(2) [OF s_def] pass 2 by simp
  next
    case 3
    have g: "s_graph s = g" using pinv 3 by (simp add: pass_inv_def)
    have "g' = g" "start' = start"
      using "1.prems"(2) 3 g by (simp_all add: simplify_loop.simps [of g start] s_def [symmetric] Let_def)
    then show ?thesis
      using "1.prems"(1) pass_complete [OF _ s_def 3] by (simp add: simplify_loop_inv_def)
  qed
qed

section \<open>The choice of a register\<close>

text \<open>What the documentation asks of \<open>select_reg_callback\<close>: a member of the set it is shown.\<close>

definition callback_ok :: "(ra_graph \<Rightarrow> bitset \<Rightarrow> nat) option \<Rightarrow> bool" where
  "callback_ok callback \<longleftrightarrow>
    (\<forall>cb g regs. callback = Some cb \<longrightarrow> (\<exists>r < rs_count (g_regs g). BITSET_TEST regs r) \<longrightarrow>
       cb g regs < rs_count (g_regs g) \<and> BITSET_TEST regs (cb g regs))"

lemma foldl_if:
  "foldl (\<lambda>a x. if P x then f a (h x) else a) a xs = foldl f a (map h (filter P xs))"
  by (induction xs arbitrary: a) auto

lemma regs_wfD:
  assumes "regs_wf rs"
  shows "length (rs_regs rs) = rs_count rs"
    "r < rs_count rs \<Longrightarrow> bitset_wf (rs_count rs) (r_conflicts (rs_regs rs ! r))"
    "r < rs_count rs \<Longrightarrow> conflict rs r r"
    "r < rs_count rs \<Longrightarrow> s < rs_count rs \<Longrightarrow> conflict rs r s \<longleftrightarrow> conflict rs s r"
    "c < length (rs_classes rs) \<Longrightarrow> bitset_wf (rs_count rs) (c_regs (rs_classes rs ! c))"
  using assms unfolding regs_wf_def by blast+

text \<open>The registers of the class of \<open>n\<close> that no coloured neighbour conflicts with.\<close>

definition free_regs :: "ra_graph \<Rightarrow> nat \<Rightarrow> nat set" where
  "free_regs g n = {r \<in> class_regs (g_regs g) (cls g n).
     \<forall>j \<in> active g n. \<not> conflict (g_regs g) r (n_reg (g_nodes g ! j))}"

lemma available_regs:
  assumes wf: "graph_wf g" and n: "n < nodes_count g"
    and asg: "\<forall>j \<in> active g n. n_reg (g_nodes g ! j) < rs_count (g_regs g)"
  shows "fst (ra_compute_available_regs g n) \<longleftrightarrow> free_regs g n \<noteq> {}"
    "r < rs_count (g_regs g) \<Longrightarrow>
      BITSET_TEST (snd (ra_compute_available_regs g n)) r \<longleftrightarrow> r \<in> free_regs g n"
proof -
  let ?rs = "g_regs g" and ?C = "rs_count (g_regs g)"
  let ?c = "c_regs (rs_classes ?rs ! cls g n)"
  let ?ys = "map (\<lambda>j. r_conflicts (rs_regs ?rs ! n_reg (g_nodes g ! j))) (filter (\<lambda>j. \<not> stacked g j) (adj g n))"
  let ?f = "foldl bitset_andnot ?c ?ys"
  have rw: "regs_wf ?rs" by (rule graph_wfD(1) [OF wf])
  have c: "bitset_wf ?C ?c" by (rule regs_wfD(5) [OF rw graph_wfD(8) [OF wf n]])
  have ys: "\<forall>y \<in> set ?ys. bitset_wf ?C y"
    using asg regs_wfD(2) [OF rw] by (auto simp: active_def)
  note d = bs.fold_diff [OF c ys]
  have test: "BITSET_TEST ?f r \<longleftrightarrow> r \<in> free_regs g n" if r: "r < ?C" for r
  proof -
    have "BITSET_TEST (r_conflicts (rs_regs ?rs ! n_reg (g_nodes g ! j))) r
        \<longleftrightarrow> conflict ?rs r (n_reg (g_nodes g ! j))" if "j \<in> active g n" for j
      using regs_wfD(4) [OF rw r, of "n_reg (g_nodes g ! j)"] asg that by (simp add: conflict_def)
    then show ?thesis
      using d(2) [OF r] r by (auto simp: free_regs_def class_regs_def reg_belongs_to_class_def active_def)
  qed
  have eq: "ra_compute_available_regs g n = (bitset_any ?f, ?f)"
    by (simp add: ra_compute_available_regs_def Let_def
        foldl_if [where f = bitset_andnot and P = "\<lambda>j. \<not> stacked g j"
          and h = "\<lambda>j. r_conflicts (rs_regs ?rs ! n_reg (g_nodes g ! j))"])
  have "free_regs g n \<subseteq> {..< ?C}" by (auto simp: free_regs_def class_regs_def)
  then show "fst (ra_compute_available_regs g n) \<longleftrightarrow> free_regs g n \<noteq> {}"
    using bs.nonempty_mem [OF d(1)] test by (auto simp: eq)
  show "r < ?C \<Longrightarrow> BITSET_TEST (snd (ra_compute_available_regs g n)) r \<longleftrightarrow> r \<in> free_regs g n"
    by (simp add: eq test)
qed

lemma rotate_covers:
  assumes "r < (n :: nat)"
  shows "\<exists>i < n. (start + i) mod n = r"
proof -
  have n: "0 < n" using assms by simp
  let ?i = "(r + (n - start mod n)) mod n"
  have "(start + ?i) mod n = (start mod n + (r + (n - start mod n))) mod n"
    by (simp add: mod_simps)
  also have "start mod n + (r + (n - start mod n)) = r + n"
    using mod_less_divisor [OF n, of start] by simp
  finally have "(start + ?i) mod n = r" using assms by simp
  then show ?thesis using n mod_less_divisor by blast
qed

lemma choose_reg_result:
  assumes cb: "callback_ok callback" and wf: "graph_wf g" and n: "n < nodes_count g"
    and asg: "\<forall>j \<in> active g n. n_reg (g_nodes g ! j) < rs_count (g_regs g)"
  shows "case choose_reg callback g n start of
      None \<Rightarrow> free_regs g n = {} | Some r \<Rightarrow> r \<in> free_regs g n"
proof (cases callback)
  case None
  let ?C = "rs_count (g_regs g)"
  let ?P = "\<lambda>r. reg_belongs_to_class r (rs_classes (g_regs g) ! cls g n) \<and> \<not> ra_any_neighbors_conflict g n r"
  have P: "r \<in> free_regs g n \<longleftrightarrow> r < ?C \<and> ?P r" for r
    by (auto simp: free_regs_def class_regs_def ra_any_neighbors_conflict_def list_ex_iff active_def
        conflict_def)
  let ?xs = "map (\<lambda>ri. (start + ri) mod ?C) [0 ..< ?C]"
  have xs: "r \<in> set ?xs" if "r < ?C" for r
    using rotate_covers [OF that, of start] by (auto simp: image_iff)
  show ?thesis
  proof (cases "find ?P ?xs")
    case none: None
    then have "\<not> ?P r" if "r < ?C" for r using xs [OF that] by (auto simp: find_None_iff)
    then show ?thesis using none P by (auto simp: choose_reg_def None first_free_reg_def)
  next
    case (Some r)
    then obtain i where i: "i < length ?xs" "?P (?xs ! i)" "r = ?xs ! i"
      unfolding find_Some_iff by blast
    then have "?P r" "r < ?C" by auto
    then show ?thesis using Some P by (simp add: choose_reg_def None first_free_reg_def)
  qed
next
  case (Some cb)
  note a = available_regs [OF wf n asg]
  obtain found regs where r: "ra_compute_available_regs g n = (found, regs)" by force
  show ?thesis
  proof (cases found)
    case False
    then show ?thesis using a(1) r by (simp add: choose_reg_def Some)
  next
    case True
    then obtain r0 where r0: "r0 \<in> free_regs g n" using a(1) r by auto
    then have "r0 < rs_count (g_regs g)" by (simp add: free_regs_def class_regs_def)
    then have "\<exists>r0 < rs_count (g_regs g). BITSET_TEST regs r0" using a(2) r r0 by auto
    then have "cb g regs < rs_count (g_regs g)" "BITSET_TEST regs (cb g regs)"
      using cb Some unfolding callback_ok_def by blast+
    then have "cb g regs \<in> free_regs g n" using a(2) r by auto
    then show ?thesis using r True by (simp add: choose_reg_def Some)
  qed
qed

section \<open>Selection\<close>

text \<open>
  The colouring of the nodes off the stack.  \<open>F\<close> are the nodes with a register from the start, which
  may be in conflict with each other.
\<close>

definition colored :: "nat set \<Rightarrow> ra_graph \<Rightarrow> bool" where
  "colored F g \<longleftrightarrow>
    (\<forall>i < nodes_count g. \<not> stacked g i \<longrightarrow> n_reg (g_nodes g ! i) < rs_count (g_regs g) \<and>
       (i \<notin> F \<longrightarrow> n_reg (g_nodes g ! i) \<in> class_regs (g_regs g) (cls g i)) \<and>
       (\<forall>j \<in> active g i. i \<notin> F \<or> j \<notin> F \<longrightarrow>
          \<not> conflict (g_regs g) (n_reg (g_nodes g ! i)) (n_reg (g_nodes g ! j))))"

definition select_inv :: "nat set \<Rightarrow> ra_graph \<Rightarrow> bool" where
  "select_inv F g \<longleftrightarrow> graph_wf g \<and> stack_wf g \<and> colored F g"

lemma pop_node_simps:
  "g_regs (pop_node g n) = g_regs g" "g_stack (pop_node g n) = g_stack g"
  "g_stack_count (pop_node g n) = g_stack_count g"
  "g_stack_optimistic_start (pop_node g n) = g_stack_optimistic_start g"
  "nodes_count (pop_node g n) = nodes_count g"
  "j < nodes_count g \<Longrightarrow> stacked (pop_node g n) j \<longleftrightarrow> stacked g j \<and> j \<noteq> n"
  "j < nodes_count g \<Longrightarrow> n_reg (g_nodes (pop_node g n) ! j) = n_reg (g_nodes g ! j)"
  "j < nodes_count g \<Longrightarrow> cls (pop_node g n) j = cls g j"
  "j < nodes_count g \<Longrightarrow> adj (pop_node g n) j = adj g j"
  "j < nodes_count g \<Longrightarrow> n_adjacency (g_nodes (pop_node g n) ! j) = n_adjacency (g_nodes g ! j)"
  by (cases "n = j"; simp add: pop_node_def)+

lemma color_node_simps:
  "g_regs (color_node g n r) = g_regs g" "g_stack (color_node g n r) = g_stack g"
  "g_stack_count (color_node g n r) = g_stack_count g - 1"
  "g_stack_optimistic_start (color_node g n r) = g_stack_optimistic_start g"
  "nodes_count (color_node g n r) = nodes_count g"
  "j < nodes_count g \<Longrightarrow> stacked (color_node g n r) j \<longleftrightarrow> stacked g j"
  "j < nodes_count g \<Longrightarrow> n_reg (g_nodes (color_node g n r) ! j) =
    (if j = n then r else n_reg (g_nodes g ! j))"
  "j < nodes_count g \<Longrightarrow> cls (color_node g n r) j = cls g j"
  "j < nodes_count g \<Longrightarrow> adj (color_node g n r) j = adj g j"
  "j < nodes_count g \<Longrightarrow> n_adjacency (g_nodes (color_node g n r) ! j) = n_adjacency (g_nodes g ! j)"
  by (cases "n = j"; simp add: color_node_def)+

lemma pop_same: "same_graph g (pop_node g n)" "same_graph g (color_node g n r)"
  by (simp_all add: same_graph_def pop_node_simps color_node_simps)

lemma stack_top:
  assumes "graph_wf g" "stack_wf g" "g_stack_count g \<noteq> 0"
  defines "n \<equiv> g_stack g ! (g_stack_count g - 1)"
  shows "n < nodes_count g" "stacked g n"
    "distinct (take (g_stack_count g - 1) (g_stack g))"
    "set (take (g_stack_count g - 1) (g_stack g)) = {i. i < nodes_count g \<and> stacked g i \<and> i \<noteq> n}"
proof -
  let ?k = "g_stack_count g - 1"
  have k: "?k < length (g_stack g)" "Suc ?k = g_stack_count g"
    using assms(2,3) by (auto simp: stack_wf_def)
  have eq: "stack_of g = take ?k (g_stack g) @ [n]"
    using take_Suc_conv_app_nth [OF k(1)] unfolding stack_of_def n_def k(2) by simp
  have s: "distinct (stack_of g)" "set (stack_of g) = {i. i < nodes_count g \<and> stacked g i}"
    using assms(2) by (simp_all add: stack_wf_def)
  have "n \<in> {i. i < nodes_count g \<and> stacked g i}" unfolding s(2) [symmetric] eq by simp
  then show "n < nodes_count g" "stacked g n" by simp_all
  show "distinct (take ?k (g_stack g))" using s(1) unfolding eq by simp
  have "set (take ?k (g_stack g)) = {i. i < nodes_count g \<and> stacked g i} - {n}"
    using s(1) unfolding s(2) [symmetric] eq by auto
  then show "set (take ?k (g_stack g)) = {i. i < nodes_count g \<and> stacked g i \<and> i \<noteq> n}" by auto
qed

lemma active_pop:
  assumes "graph_wf g" "n < nodes_count g"
  shows "active (pop_node g n) n = active g n"
proof -
  have "stacked (pop_node g n) j = stacked g j" if "j \<in> set (adj g n)" for j
    using graph_wfD(5,6) [OF assms that] by (simp add: pop_node_simps)
  then show ?thesis using assms by (auto simp: active_def pop_node_simps)
qed

lemma free_regs_pop:
  assumes "graph_wf g" "n < nodes_count g"
  shows "free_regs (pop_node g n) n = free_regs g n"
proof -
  have "n_reg (g_nodes (pop_node g n) ! j) = n_reg (g_nodes g ! j)" if "j \<in> active g n" for j
    using graph_wfD(5) [OF assms] that by (simp add: pop_node_simps active_def)
  then show ?thesis
    unfolding free_regs_def active_pop [OF assms] by (auto simp: assms pop_node_simps)
qed

lemma select_round:
  assumes inv: "select_inv F g" and cnt: "g_stack_count g \<noteq> 0"
  defines "n \<equiv> g_stack g ! (g_stack_count g - 1)"
  assumes r: "r \<in> free_regs g n"
  shows "select_inv F (color_node (pop_node g n) n r)"
proof -
  let ?g = "color_node (pop_node g n) n r"
  have wf: "graph_wf g" and st: "stack_wf g" and col: "colored F g"
    using inv by (auto simp: select_inv_def)
  note top = stack_top [OF wf st cnt, folded n_def]
  note gs = color_node_simps pop_node_simps
  have wf': "graph_wf ?g"
    by (rule same_graph_wf [OF same_graph_trans [OF pop_same] wf])
  have "stack_wf ?g"
  proof -
    have "g_stack_count ?g \<le> length (g_stack ?g)" using st by (auto simp: stack_wf_def gs)
    moreover have "stack_of ?g = take (g_stack_count g - 1) (g_stack g)"
      by (simp add: stack_of_def gs)
    moreover have "{i. i < nodes_count ?g \<and> stacked ?g i} = {i. i < nodes_count g \<and> stacked g i \<and> i \<noteq> n}"
      by (auto simp: gs)
    moreover have "n_reg (g_nodes ?g ! i) = NO_REG" if "i < nodes_count ?g" "stacked ?g i" for i
      using that st by (simp add: stack_wf_def gs)
    ultimately show ?thesis using top(3,4) by (simp add: stack_wf_def)
  qed
  moreover have "colored F ?g"
    unfolding colored_def
  proof (intro allI impI)
    fix i assume i: "i < nodes_count ?g" "\<not> stacked ?g i"
    then have i': "i < nodes_count g" "i = n \<or> \<not> stacked g i" by (auto simp: gs)
    have rr: "r < rs_count (g_regs g)" "r \<in> class_regs (g_regs g) (cls g n)"
      using r by (auto simp: free_regs_def class_regs_def)
    have regs: "n_reg (g_nodes ?g ! i) < rs_count (g_regs ?g)"
      using i' rr col by (auto simp: gs colored_def)
    moreover have "n_reg (g_nodes ?g ! i) \<in> class_regs (g_regs ?g) (cls ?g i)" if "i \<notin> F"
      using i' rr col that by (auto simp: gs colored_def)
    moreover have "\<not> conflict (g_regs ?g) (n_reg (g_nodes ?g ! i)) (n_reg (g_nodes ?g ! j))"
      if j: "j \<in> active ?g i" "i \<notin> F \<or> j \<notin> F" for j
    proof -
      have adj: "j \<in> set (adj g i)" using j(1) i' by (simp add: active_def gs)
      have j': "j < nodes_count g" "j \<noteq> i" "i \<in> set (adj g j)"
        using graph_wfD(5,6,7) [OF wf i'(1) adj] by auto
      have js: "j = n \<or> \<not> stacked g j" using j(1) j'(1) by (auto simp: active_def gs)
      have reg: "n_reg (g_nodes g ! k) < rs_count (g_regs g)" if "k < nodes_count g" "\<not> stacked g k" for k
        using col that by (simp add: colored_def)
      consider "i = n" | "i \<noteq> n" "j = n" | "i \<noteq> n" "j \<noteq> n" by blast
      then show ?thesis
      proof cases
        case 1
        then have "j \<in> active g n" using adj js j'(2) by (auto simp: active_def)
        then show ?thesis using r 1 i' j' by (auto simp: gs free_regs_def)
      next
        case 2
        then have "i \<in> active g n" using j'(3) i' by (auto simp: active_def)
        then have "\<not> conflict (g_regs g) r (n_reg (g_nodes g ! i))" using r by (auto simp: free_regs_def)
        then have "\<not> conflict (g_regs g) (n_reg (g_nodes g ! i)) r"
          using regs_wfD(4) [OF graph_wfD(1) [OF wf] rr(1) reg [of i]] 2 i' by auto
        then show ?thesis using 2 i' j' by (simp add: gs)
      next
        case 3
        then show ?thesis using col i' j j' adj js by (auto simp: gs colored_def active_def)
      qed
    qed
    ultimately show "n_reg (g_nodes ?g ! i) < rs_count (g_regs ?g) \<and>
       (i \<notin> F \<longrightarrow> n_reg (g_nodes ?g ! i) \<in> class_regs (g_regs ?g) (cls ?g i)) \<and>
       (\<forall>j \<in> active ?g i. i \<notin> F \<or> j \<notin> F \<longrightarrow>
          \<not> conflict (g_regs ?g) (n_reg (g_nodes ?g ! i)) (n_reg (g_nodes ?g ! j)))" by blast
  qed
  ultimately show ?thesis using wf' by (simp add: select_inv_def)
qed

text \<open>The relation of the graph \<open>g\<close> selection starts from and a later one.\<close>

definition select_rel :: "ra_graph \<Rightarrow> ra_graph \<Rightarrow> bool" where
  "select_rel g g' \<longleftrightarrow> same_graph g g' \<and> g_stack g' = g_stack g \<and>
    g_stack_optimistic_start g' = g_stack_optimistic_start g \<and> g_stack_count g' \<le> g_stack_count g \<and>
    (\<forall>i < nodes_count g. \<not> stacked g i \<longrightarrow>
       \<not> stacked g' i \<and> n_reg (g_nodes g' ! i) = n_reg (g_nodes g ! i))"

lemma select_rel_refl [simp]: "select_rel g g"
  by (simp add: select_rel_def)

lemma select_rel_trans: "select_rel a b \<Longrightarrow> select_rel b c \<Longrightarrow> select_rel a c"
  by (auto simp: select_rel_def same_graph_def)

lemma select_rel_round:
  assumes "stacked g n"
  shows "select_rel g (pop_node g n)" "select_rel g (color_node (pop_node g n) n r)"
  using assms same_graph_trans [OF pop_same]
  by (auto simp: select_rel_def pop_same pop_node_simps color_node_simps)

text \<open>Every coloured node has a register of its class, the nodes with a register from the start included.\<close>

definition all_in_class :: "ra_graph \<Rightarrow> bool" where
  "all_in_class g \<longleftrightarrow> (\<forall>i < nodes_count g. \<not> stacked g i \<longrightarrow>
     n_reg (g_nodes g ! i) \<in> class_regs (g_regs g) (cls g i))"

text \<open>The numbers \<open>p\<close> and \<open>q\<close> of the classes are what they are documented to be.\<close>

definition classes_ok :: "ra_regs \<Rightarrow> bool" where
  "classes_ok rs \<longleftrightarrow> (\<forall>b < length (rs_classes rs).
     unat (c_p (rs_classes rs ! b)) = card (class_regs rs b) \<and>
     (\<forall>c < length (rs_classes rs). \<forall>s \<in> class_regs rs c.
        card {r \<in> class_regs rs b. conflict rs r s} \<le> unat (c_q (rs_classes rs ! b) ! c)))"

lemma finite_class_regs [simp]: "finite (class_regs rs c)"
  by (rule finite_subset [of _ "{..< rs_count rs}"]) (auto simp: class_regs_def)

lemma free_regs_pq:
  assumes inv: "select_inv F g" and cnt: "g_stack_count g \<noteq> 0"
    and cl: "classes_ok (g_regs g)" "all_in_class g" and pq: "pq_slot g (g_stack_count g - 1)"
  shows "free_regs g (g_stack g ! (g_stack_count g - 1)) \<noteq> {}"
proof
  let ?k = "g_stack_count g - 1" and ?rs = "g_regs g"
  define n where "n = g_stack g ! ?k"
  have wf: "graph_wf g" and st: "stack_wf g" using inv by (auto simp: select_inv_def)
  note top = stack_top [OF wf st cnt, folded n_def]
  let ?A = "{j \<in> set (adj g n). j \<notin> set (take ?k (g_stack g))}"
  let ?B = "\<lambda>j. {r \<in> class_regs ?rs (cls g n). conflict ?rs r (n_reg (g_nodes g ! j))}"
  assume "free_regs g (g_stack g ! ?k) = {}"
  then have none: "class_regs ?rs (cls g n) \<subseteq> (\<Union>j \<in> active g n. ?B j)"
    unfolding n_def [symmetric] by (auto simp: free_regs_def)
  have A: "active g n = ?A"
    using graph_wfD(5,6) [OF wf top(1)] top(2) unfolding top(4) by (auto simp: active_def)
  note c = graph_wfD(8) [OF wf]
  have B: "card (?B j) \<le> unat (node_q g n j)" if "j \<in> active g n" for j
  proof -
    have j: "j < nodes_count g" "\<not> stacked g j"
      using that graph_wfD(5) [OF wf top(1)] by (auto simp: active_def)
    then have "n_reg (g_nodes g ! j) \<in> class_regs ?rs (cls g j)" using cl(2) by (simp add: all_in_class_def)
    then show ?thesis
      using cl(1) c [OF top(1)] c [OF j(1)] by (auto simp: classes_ok_def node_q_def class_q_def)
  qed
  have "card (class_regs ?rs (cls g n)) \<le> card (\<Union>j \<in> active g n. ?B j)"
    by (rule card_mono [OF _ none]) simp
  also have "\<dots> \<le> (\<Sum>j \<in> active g n. card (?B j))" by (rule card_UN_le) simp
  also have "\<dots> \<le> (\<Sum>j \<in> active g n. unat (node_q g n j))" by (rule sum_mono [OF B])
  also have "\<dots> < unat (c_p (rs_classes ?rs ! cls g n))"
    using pq unfolding A by (simp add: pq_slot_def n_def Let_def)
  also have "\<dots> = card (class_regs ?rs (cls g n))"
    using cl(1) c [OF top(1)] by (simp add: classes_ok_def)
  finally show False by simp
qed

lemma select_rel_pq_slot:
  assumes "graph_wf g" "stack_wf g" "select_rel g g'" "k < g_stack_count g"
  shows "pq_slot g' k \<longleftrightarrow> pq_slot g k"
proof -
  have sg: "same_graph g g'" "g_stack g' = g_stack g" using assms(3) by (auto simp: select_rel_def)
  have "k < length (stack_of g)" "stack_of g ! k = g_stack g ! k"
    using assms(2,4) by (auto simp: stack_of_def stack_wf_def)
  then have "g_stack g ! k \<in> set (stack_of g)" by (metis nth_mem)
  then have n: "g_stack g ! k < nodes_count g" using assms(2) by (simp add: stack_wf_def)
  have "node_q g' (g_stack g ! k) j = node_q g (g_stack g ! k) j" if "j \<in> set (adj g (g_stack g ! k))" for j
    using graph_wfD(5) [OF assms(1) n that] n sg by (simp add: node_q_def class_q_def same_graph_def)
  then have "(\<Sum>j \<in> {j \<in> set (adj g (g_stack g ! k)). j \<notin> set (take k (g_stack g))}.
        unat (node_q g' (g_stack g ! k) j))
      = (\<Sum>j \<in> {j \<in> set (adj g (g_stack g ! k)). j \<notin> set (take k (g_stack g))}.
        unat (node_q g (g_stack g ! k) j))"
    by (intro sum.cong) auto
  then show ?thesis using n sg by (simp add: pq_slot_def same_graph_def Let_def)
qed

lemma select_loop_result:
  assumes "callback_ok callback" "select_inv F g" "select_loop callback g start = (g', ok)"
  shows "select_rel g g' \<and> graph_wf g' \<and>
    (ok \<longrightarrow> colored F g' \<and> (\<forall>i < nodes_count g'. \<not> stacked g' i)) \<and>
    (\<not> ok \<longrightarrow> classes_ok (g_regs g) \<and> all_in_class g \<longrightarrow>
       g_stack_count g' \<noteq> 0 \<and> \<not> pq_slot g (g_stack_count g' - 1))"
  using assms
proof (induction callback g start rule: select_loop.induct)
  case (1 callback g start)
  have wf: "graph_wf g" and st: "stack_wf g" and col: "colored F g"
    using "1.prems"(2) by (auto simp: select_inv_def)
  show ?case
  proof (cases "g_stack_count g = 0")
    case True
    then have "g' = g" "ok" using "1.prems"(3) by (simp_all add: select_loop.simps [of callback g])
    moreover have "\<not> stacked g i" if "i < nodes_count g" for i
      using st True that by (auto simp: stack_wf_def stack_of_def)
    ultimately show ?thesis using wf col by simp
  next
    case cnt: False
    define n where "n = g_stack g ! (g_stack_count g - 1)"
    note top = stack_top [OF wf st cnt, folded n_def]
    have wf1: "graph_wf (pop_node g n)" by (rule same_graph_wf [OF pop_same(1) wf])
    have act: "\<forall>j \<in> active g n. n_reg (g_nodes g ! j) < rs_count (g_regs g)"
      using col graph_wfD(5) [OF wf top(1)] by (auto simp: colored_def active_def)
    then have "\<forall>j \<in> active (pop_node g n) n.
        n_reg (g_nodes (pop_node g n) ! j) < rs_count (g_regs (pop_node g n))"
      using graph_wfD(5) [OF wf top(1)] unfolding active_pop [OF wf top(1)]
      by (auto simp: active_def pop_node_simps)
    from choose_reg_result [OF "1.prems"(1) wf1 _ this, of start] top(1)
    have ch: "case choose_reg callback (pop_node g n) n start of
        None \<Rightarrow> free_regs g n = {} | Some r \<Rightarrow> r \<in> free_regs g n"
      unfolding free_regs_pop [OF wf top(1)] pop_node_simps by simp
    show ?thesis
    proof (cases "choose_reg callback (pop_node g n) n start")
      case None
      then have g': "g' = pop_node g n" "\<not> ok"
        using "1.prems"(3) cnt by (simp_all add: select_loop.simps [of callback g] n_def Let_def)
      have "\<not> pq_slot g (g_stack_count g - 1)" if "classes_ok (g_regs g)" "all_in_class g"
        using free_regs_pq [OF "1.prems"(2) cnt that] ch None by (auto simp: n_def)
      then show ?thesis using g' wf1 select_rel_round(1) [of g n] top(2) cnt by (simp add: pop_node_simps)
    next
      case (Some r)
      let ?g = "color_node (pop_node g n) n r"
      have r: "r \<in> free_regs g n" using ch Some by simp
      have inv: "select_inv F ?g" using select_round [OF "1.prems"(2) cnt, folded n_def, OF r] .
      have rel: "select_rel g ?g" by (rule select_rel_round(2) [OF top(2)])
      define start' where "start' = (if rs_round_robin (g_regs ?g) \<and>
          (if g_stack_count ?g = 0 then UINT_MAX else g_stack_count ?g - 1) \<le> g_stack_optimistic_start ?g
          then r + 1 else start)"
      have "select_loop callback g start = select_loop callback ?g start'"
        by (subst select_loop.simps)
          (simp only: cnt Some [unfolded n_def] if_False Let_def option.case n_def start'_def)
      then have rec: "select_loop callback ?g start' = (g', ok)" using "1.prems"(3) by simp
      note ih = "1.IH" [OF cnt n_def refl Some refl refl "1.prems"(1) inv, folded start'_def, OF rec]
      have "all_in_class ?g" if "all_in_class g"
        using that r by (auto simp: all_in_class_def color_node_simps pop_node_simps free_regs_def)
      moreover have "pq_slot ?g (g_stack_count g' - 1) \<longleftrightarrow> pq_slot g (g_stack_count g' - 1)"
        by (rule select_rel_pq_slot [OF wf st rel])
          (use ih cnt in \<open>auto simp: select_rel_def color_node_simps pop_node_simps\<close>)
      ultimately show ?thesis
        using ih select_rel_trans [OF rel] by (auto simp: color_node_simps pop_node_simps)
    qed
  qed
qed

section \<open>Allocation\<close>

text \<open>
  A graph as its construction leaves it: nothing on the stack, the totals add up, and the registers
  set beforehand exist.
\<close>

definition graph_ready :: "ra_graph \<Rightarrow> bool" where
  "graph_ready g \<longleftrightarrow> graph_wf g \<and> q_bounded g \<and> q_inv g \<and> g_stack_count g = 0 \<and>
    rs_count (g_regs g) \<le> UINT_MAX \<and>
    (\<forall>i < nodes_count g. \<not> stacked g i \<and>
       (n_reg (g_nodes g ! i) \<noteq> NO_REG \<longrightarrow> n_reg (g_nodes g ! i) < rs_count (g_regs g)))"

definition forced :: "ra_graph \<Rightarrow> nat set" where
  "forced g = {i. i < nodes_count g \<and> n_reg (g_nodes g ! i) \<noteq> NO_REG}"

lemma ready_loop_inv:
  assumes "graph_ready g"
  shows "simplify_loop_inv g UINT_MAX g"
  using assms by (auto simp: simplify_loop_inv_def simplify_inv_def graph_ready_def stack_wf_def stack_of_def)

lemma simplify_result:
  assumes "graph_ready g"
  shows "simplify_loop_inv g (g_stack_optimistic_start (ra_simplify g)) (ra_simplify g) \<and>
    (\<forall>i < nodes_count g. stacked (ra_simplify g) i \<longleftrightarrow> i \<notin> forced g)"
proof -
  obtain g' start where l: "simplify_loop g UINT_MAX = (g', start)" by force
  have r: "simplify_loop_inv g start g'" "\<forall>i. \<not> to_push g' i"
    using simplify_loop_result [OF ready_loop_inv [OF assms] l] by auto
  define s where "s = ra_simplify g"
  have s: "s = g'\<lparr>g_stack_optimistic_start := start\<rparr>" by (simp add: s_def ra_simplify_def l)
  have fields: "g_nodes s = g_nodes g'" "g_regs s = g_regs g'" "g_stack s = g_stack g'"
    "g_stack_count s = g_stack_count g'" "g_stack_optimistic_start s = start" by (simp_all add: s)
  have "node_wf s = node_wf g'" by (simp add: node_wf_def fun_eq_iff fields)
  then have "graph_wf s = graph_wf g'" by (simp add: graph_wf_def fields)
  moreover have "stack_of s = stack_of g'" by (simp add: stack_of_def fields)
  moreover have "class_q s = class_q g'" by (simp add: class_q_def fun_eq_iff fields)
  then have "node_q s = node_q g'" by (simp add: node_q_def fun_eq_iff fields)
  moreover have "active s = active g'" by (simp add: active_def fun_eq_iff fields)
  ultimately have "simplify_inv s = simplify_inv g'" "pq_slot s = pq_slot g'"
    by (simp_all add: simplify_inv_def stack_wf_def q_inv_def q_bounded_def pq_slot_def fun_eq_iff fields)
  then have loop: "simplify_loop_inv g start s"
    using r(1) by (simp add: simplify_loop_inv_def same_graph_def same_assignment_def fields)
  have "stacked s i \<longleftrightarrow> i \<notin> forced g" if "i < nodes_count g" for i
    using that r by (auto simp: forced_def fields to_push_def simplify_loop_inv_def same_graph_def
        same_assignment_def simplify_inv_def stack_wf_def)
  then show ?thesis using loop by (simp add: s_def [symmetric] fields)
qed

lemma simplify_select_inv:
  assumes "graph_ready g"
  shows "select_inv (forced g) (ra_simplify g)"
proof -
  let ?s = "ra_simplify g"
  have r: "simplify_inv ?s" "same_graph g ?s" "same_assignment g ?s"
    "\<forall>i < nodes_count g. stacked ?s i \<longleftrightarrow> i \<notin> forced g"
    using simplify_result [OF assms] by (auto simp: simplify_loop_inv_def)
  have wf: "graph_wf g" using assms by (simp add: graph_ready_def)
  have "colored (forced g) ?s"
    unfolding colored_def
  proof (intro allI impI)
    fix i assume "i < nodes_count ?s" "\<not> stacked ?s i"
    then have i: "i < nodes_count g" "i \<in> forced g" using r by (auto simp: same_graph_def)
    then have "n_reg (g_nodes ?s ! i) < rs_count (g_regs ?s)"
      using assms r by (auto simp: graph_ready_def forced_def same_graph_def same_assignment_def)
    moreover have "j \<in> forced g" if "j \<in> active ?s i" for j
      using that i r graph_wfD(5) [OF wf i(1)] by (auto simp: active_def same_graph_def)
    ultimately show "n_reg (g_nodes ?s ! i) < rs_count (g_regs ?s) \<and>
       (i \<notin> forced g \<longrightarrow> n_reg (g_nodes ?s ! i) \<in> class_regs (g_regs ?s) (cls ?s i)) \<and>
       (\<forall>j \<in> active ?s i. i \<notin> forced g \<or> j \<notin> forced g \<longrightarrow>
          \<not> conflict (g_regs ?s) (n_reg (g_nodes ?s ! i)) (n_reg (g_nodes ?s ! j)))"
      using i by blast
  qed
  then show ?thesis using r(1) by (simp add: select_inv_def simplify_inv_def)
qed

section \<open>Building a register set\<close>

text \<open>The conflict lists, while they exist, list the conflicts.\<close>

definition reg_list_ok :: "ra_regs \<Rightarrow> nat \<Rightarrow> bool" where
  "reg_list_ok rs r \<longleftrightarrow>
    (\<exists>cl. r_conflict_list (rs_regs rs ! r) = Some cl \<and> r_num_conflicts (rs_regs rs ! r) = length cl \<and>
       length cl \<le> r_conflict_list_size (rs_regs rs ! r) \<and> 0 < length cl \<and>
       distinct cl \<and> set cl = {s. s < rs_count rs \<and> conflict rs r s})"

definition lists_ok :: "ra_regs \<Rightarrow> bool" where
  "lists_ok rs \<longleftrightarrow> (\<forall>r < rs_count rs. reg_list_ok rs r)"

text \<open>Each class counts its registers.\<close>

definition p_ok :: "ra_regs \<Rightarrow> bool" where
  "p_ok rs \<longleftrightarrow> (\<forall>c < length (rs_classes rs). unat (c_p (rs_classes rs ! c)) = card (class_regs rs c))"

lemma alloc_reg_set_ok:
  shows "regs_wf (ra_alloc_reg_set n b)" "lists_ok (ra_alloc_reg_set n True)" "p_ok (ra_alloc_reg_set n b)"
    "\<And>r s. r < n \<Longrightarrow> s < n \<Longrightarrow> conflict (ra_alloc_reg_set n b) r s \<longleftrightarrow> r = s"
proof -
  have c: "conflict (ra_alloc_reg_set n b) r s \<longleftrightarrow> r = s" if "r < n" "s < n" for r s b
    using that bs.mem_add [OF bs.wf_empty, of r n s] bs.mem_empty [of s n]
    by (auto simp: conflict_def ra_alloc_reg_set_def)
  have n: "rs_count (ra_alloc_reg_set n b) = n" for b by (simp add: ra_alloc_reg_set_def)
  show "conflict (ra_alloc_reg_set n b) r s \<longleftrightarrow> r = s" if "r < n" "s < n" for r s by (rule c [OF that])
  show "regs_wf (ra_alloc_reg_set n b)"
    unfolding regs_wf_def n using c bs.wf_add [OF bs.wf_empty, of _ n]
    by (auto simp: ra_alloc_reg_set_def)
  show "p_ok (ra_alloc_reg_set n b)" by (simp add: p_ok_def ra_alloc_reg_set_def)
  have "{s. s < n \<and> conflict (ra_alloc_reg_set n True) r s} = {r}" if "r < n" for r
    using that c by auto
  then show "lists_ok (ra_alloc_reg_set n True)"
    unfolding lists_ok_def reg_list_ok_def n by (auto simp: ra_alloc_reg_set_def)
qed

lemma add_conflict_list_simps:
  "rs_count (ra_add_conflict_list rs r1 r2) = rs_count rs"
  "rs_classes (ra_add_conflict_list rs r1 r2) = rs_classes rs"
  "rs_round_robin (ra_add_conflict_list rs r1 r2) = rs_round_robin rs"
  "length (rs_regs (ra_add_conflict_list rs r1 r2)) = length (rs_regs rs)"
  "r \<noteq> r1 \<Longrightarrow> rs_regs (ra_add_conflict_list rs r1 r2) ! r = rs_regs rs ! r"
  "r1 < length (rs_regs rs) \<Longrightarrow>
    r_conflicts (rs_regs (ra_add_conflict_list rs r1 r2) ! r1) = BITSET_SET (r_conflicts (rs_regs rs ! r1)) r2"
  by (auto simp: ra_add_conflict_list_def Let_def split: option.splits)

lemma add_conflict_list_conflict:
  assumes "length (rs_regs rs) = rs_count rs"
    "\<forall>r < rs_count rs. bitset_wf (rs_count rs) (r_conflicts (rs_regs rs ! r))"
    "r1 < rs_count rs" "r2 < rs_count rs" "r < rs_count rs"
  shows "bitset_wf (rs_count rs) (r_conflicts (rs_regs (ra_add_conflict_list rs r1 r2) ! r))"
    "s < rs_count rs \<Longrightarrow>
      conflict (ra_add_conflict_list rs r1 r2) r s \<longleftrightarrow> conflict rs r s \<or> r = r1 \<and> s = r2"
  using assms bs.wf_add [of "rs_count rs"] bs.mem_add [of "rs_count rs" _ r2 s]
  by (cases "r = r1"; auto simp: add_conflict_list_simps conflict_def)+

lemma add_conflict_list_list:
  assumes len: "length (rs_regs rs) = rs_count rs"
    and wf: "\<forall>r < rs_count rs. bitset_wf (rs_count rs) (r_conflicts (rs_regs rs ! r))"
    and r: "r1 < rs_count rs" "r2 < rs_count rs" "r < rs_count rs" and ok: "reg_list_ok rs r"
    and new: "\<not> conflict rs r1 r2"
  shows "reg_list_ok (ra_add_conflict_list rs r1 r2) r"
proof -
  let ?rs = "ra_add_conflict_list rs r1 r2"
  obtain cl where cl: "r_conflict_list (rs_regs rs ! r) = Some cl"
    "r_num_conflicts (rs_regs rs ! r) = length cl" "length cl \<le> r_conflict_list_size (rs_regs rs ! r)"
    "0 < length cl" "distinct cl" "set cl = {s. s < rs_count rs \<and> conflict rs r s}"
    using ok unfolding reg_list_ok_def by blast
  have c: "{s. s < rs_count ?rs \<and> conflict ?rs r s} =
      {s. s < rs_count rs \<and> conflict rs r s} \<union> (if r = r1 then {r2} else {})"
    using add_conflict_list_conflict(2) [OF len wf r] r by (auto simp: add_conflict_list_simps)
  show ?thesis
  proof (cases "r = r1")
    case False
    then show ?thesis unfolding reg_list_ok_def c using cl by (simp add: add_conflict_list_simps)
  next
    case True
    have reg: "r_conflict_list (rs_regs ?rs ! r) = Some (cl @ [r2])"
      "r_num_conflicts (rs_regs ?rs ! r) = Suc (length cl)"
      "r_conflict_list_size (rs_regs ?rs ! r) =
        (if r_conflict_list_size (rs_regs rs ! r) = length cl then r_conflict_list_size (rs_regs rs ! r) * 2
         else r_conflict_list_size (rs_regs rs ! r))"
      using True cl(1,2) r(1) len by (simp_all add: ra_add_conflict_list_def Let_def)
    have "r2 \<notin> set cl" using True new cl(6) by simp
    then have "distinct (cl @ [r2])" using cl(5) by simp
    moreover have "set (cl @ [r2]) = {s. s < rs_count rs \<and> conflict rs r s} \<union> {r2}"
      by (simp add: cl(6))
    moreover have "Suc (length cl) \<le> r_conflict_list_size (rs_regs ?rs ! r)"
      using cl(3,4) reg(3) by (cases "r_conflict_list_size (rs_regs rs ! r) = length cl") (simp_all add: Suc_le_eq)
    ultimately show ?thesis
      unfolding reg_list_ok_def c using True reg(1,2)
      by (intro exI [of _ "cl @ [r2]"]) simp
  qed
qed

lemma add_reg_conflict_simps:
  "rs_count (ra_add_reg_conflict rs r1 r2) = rs_count rs"
  "rs_classes (ra_add_reg_conflict rs r1 r2) = rs_classes rs"
  "class_regs (ra_add_reg_conflict rs r1 r2) c = class_regs rs c"
  by (simp_all add: ra_add_reg_conflict_def add_conflict_list_simps class_regs_def)

lemma add_reg_conflict_ok:
  assumes rs: "regs_wf rs" and r: "r1 < rs_count rs" "r2 < rs_count rs"
  shows "regs_wf (ra_add_reg_conflict rs r1 r2)"
    "r < rs_count rs \<Longrightarrow> s < rs_count rs \<Longrightarrow> conflict (ra_add_reg_conflict rs r1 r2) r s \<longleftrightarrow>
      conflict rs r s \<or> r = r1 \<and> s = r2 \<or> r = r2 \<and> s = r1"
    "lists_ok rs \<Longrightarrow> lists_ok (ra_add_reg_conflict rs r1 r2)"
proof -
  let ?a = "ra_add_conflict_list rs r1 r2" and ?rs = "ra_add_reg_conflict rs r1 r2"
  let ?b = "ra_add_conflict_list ?a r2 r1"
  note w = regs_wfD [OF rs]
  have wf: "\<forall>r < rs_count rs. bitset_wf (rs_count rs) (r_conflicts (rs_regs rs ! r))" using w(2) by blast
  note a = add_conflict_list_conflict [OF w(1) wf r]
  have a1: "length (rs_regs ?a) = rs_count ?a" "rs_count ?a = rs_count rs"
    using w(1) by (simp_all add: add_conflict_list_simps)
  have wfa: "\<forall>r < rs_count ?a. bitset_wf (rs_count ?a) (r_conflicts (rs_regs ?a ! r))"
    using a(1) a1(2) by simp
  note b = add_conflict_list_conflict [OF a1(1) wfa, unfolded a1(2), OF r(2,1)]
  have c: "conflict ?b r s \<longleftrightarrow> conflict rs r s \<or> r = r1 \<and> s = r2 \<or> r = r2 \<and> s = r1"
    if "r < rs_count rs" "s < rs_count rs" for r s
    using a(2) [OF that] b(2) [OF that] by blast
  show conf: "conflict ?rs r s \<longleftrightarrow> conflict rs r s \<or> r = r1 \<and> s = r2 \<or> r = r2 \<and> s = r1"
    if "r < rs_count rs" "s < rs_count rs" for r s
  proof (cases "conflict rs r1 r2")
    case True
    moreover from this have "conflict rs r2 r1" using w(4) r by blast
    ultimately show ?thesis by (auto simp: ra_add_reg_conflict_def conflict_def)
  next
    case False
    then show ?thesis using c [OF that] by (simp add: ra_add_reg_conflict_def conflict_def)
  qed
  have wfb: "bitset_wf (rs_count rs) (r_conflicts (rs_regs ?rs ! r))" if "r < rs_count rs" for r
    using w(2) b(1) that by (simp add: ra_add_reg_conflict_def)
  have len: "length (rs_regs ?rs) = rs_count rs"
    using w(1) by (simp add: ra_add_reg_conflict_def add_conflict_list_simps)
  have "conflict ?rs r r" if "r < rs_count rs" for r using conf [OF that that] w(3) [OF that] by simp
  moreover have "conflict ?rs s r" if "r < rs_count rs" "s < rs_count rs" "conflict ?rs r s" for r s
    using conf [OF that(1,2)] conf [OF that(2,1)] w(4) [OF that(1,2)] that(3) by blast
  ultimately show "regs_wf ?rs"
    unfolding regs_wf_def add_reg_conflict_simps using len wfb w(5) by simp
  show "lists_ok ?rs" if ok: "lists_ok rs"
  proof (cases "conflict rs r1 r2")
    case True
    then show ?thesis using ok by (simp add: ra_add_reg_conflict_def conflict_def)
  next
    case False
    have "r1 \<noteq> r2" using False w(3) r by blast
    moreover have "\<not> conflict rs r2 r1" using False w(4) r by blast
    ultimately have new: "\<not> conflict ?a r2 r1" using a(2) r by auto
    have "reg_list_ok ?b x" if x: "x < rs_count rs" for x
    proof -
      have "reg_list_ok ?a x"
        using add_conflict_list_list [OF w(1) wf r x _ False] ok x by (simp add: lists_ok_def)
      then show ?thesis
        using add_conflict_list_list [OF a1(1) wfa, unfolded a1(2), OF r(2,1) x _ new] by blast
    qed
    then show ?thesis
      using False by (simp add: lists_ok_def ra_add_reg_conflict_def conflict_def add_conflict_list_simps)
  qed
qed

section \<open>Transitive conflicts\<close>

lemma transitive_loop_ok:
  assumes "regs_wf rs" "lists_ok rs" "base < rs_count rs" "reg < rs_count rs" "conflict rs reg base"
    "i \<le> length cl" "r_conflict_list (rs_regs rs ! base) = Some cl"
    "\<forall>k < i. conflict rs reg (cl ! k)"
  shows "\<exists>rs'. transitive_conflict_loop rs base reg i = Some rs' \<and> regs_wf rs' \<and> lists_ok rs' \<and>
    rs_count rs' = rs_count rs \<and> rs_classes rs' = rs_classes rs \<and>
    (\<forall>r < rs_count rs. \<forall>s < rs_count rs. conflict rs' r s \<longleftrightarrow> conflict rs r s \<or>
       r = reg \<and> conflict rs base s \<or> s = reg \<and> conflict rs base r)"
  using assms
proof (induction "length cl - i" arbitrary: rs i rule: less_induct)
  case less
  note p = less.prems
  note w = regs_wfD [OF p(1)]
  have "reg_list_ok rs base" using p by (simp add: lists_ok_def)
  then have n: "r_num_conflicts (rs_regs rs ! base) = length cl"
    "set cl = {s. s < rs_count rs \<and> conflict rs base s}"
    using p(7) by (auto simp: reg_list_ok_def)
  show ?case
  proof (cases "i < length cl")
    case False
    then have "transitive_conflict_loop rs base reg i = Some rs"
      using n(1) by (subst transitive_conflict_loop.simps) simp
    moreover have "conflict rs reg s" if "s < rs_count rs" "conflict rs base s" for s
    proof -
      have "s \<in> set cl" using n(2) that by simp
      then show ?thesis using p(6,8) False by (auto simp: in_set_conv_nth)
    qed
    ultimately show ?thesis using p w(4) by auto
  next
    case i: True
  let ?c = "cl ! i" and ?rs = "ra_add_reg_conflict rs reg (cl ! i)"
  have c: "?c < rs_count rs" "conflict rs base ?c" using n(2) i nth_mem by blast+
  note a = add_reg_conflict_ok [OF p(1) p(4) c(1)]
  have eq: "transitive_conflict_loop rs base reg i = transitive_conflict_loop ?rs base reg (i + 1)"
    using i n(1) p(7) by (subst transitive_conflict_loop.simps) simp
  have same: "rs_regs ?rs ! base = rs_regs rs ! base"
  proof (cases "conflict rs reg ?c")
    case True
    then show ?thesis by (simp add: ra_add_reg_conflict_def conflict_def)
  next
    case False
    then have "base \<noteq> reg" "base \<noteq> ?c" using c(2) p(5) by auto
    then show ?thesis by (simp add: ra_add_reg_conflict_def add_conflict_list_simps)
  qed
  have cb: "conflict ?rs base s \<longleftrightarrow> conflict rs base s" for s by (simp add: conflict_def same)
  have clt: "\<forall>k < length cl. cl ! k < rs_count rs" using n(2) nth_mem by blast
  have prev: "\<forall>k < i + 1. conflict ?rs reg (cl ! k)"
    using a(2) [OF p(4)] p(8) clt i by (auto simp: less_Suc_eq)
  have "\<exists>rs'. transitive_conflict_loop ?rs base reg (i + 1) = Some rs' \<and> regs_wf rs' \<and> lists_ok rs' \<and>
    rs_count rs' = rs_count ?rs \<and> rs_classes rs' = rs_classes ?rs \<and>
    (\<forall>r < rs_count ?rs. \<forall>s < rs_count ?rs. conflict rs' r s \<longleftrightarrow> conflict ?rs r s \<or>
       r = reg \<and> conflict ?rs base s \<or> s = reg \<and> conflict ?rs base r)"
    by (rule less.hyps) (use p a same prev i in \<open>simp_all add: add_reg_conflict_simps\<close>)
  then obtain rs' where rs': "transitive_conflict_loop ?rs base reg (i + 1) = Some rs'" "regs_wf rs'"
    "lists_ok rs'" "rs_count rs' = rs_count rs" "rs_classes rs' = rs_classes rs"
    "\<forall>r < rs_count rs. \<forall>s < rs_count rs. conflict rs' r s \<longleftrightarrow> conflict ?rs r s \<or>
       r = reg \<and> conflict rs base s \<or> s = reg \<and> conflict rs base r"
    unfolding cb add_reg_conflict_simps by blast
  have "conflict rs' r s \<longleftrightarrow> conflict rs r s \<or>
       r = reg \<and> conflict rs base s \<or> s = reg \<and> conflict rs base r"
    if "r < rs_count rs" "s < rs_count rs" for r s
    using rs'(6) a(2) [OF that] that c(2) by blast
  then show ?thesis using rs' eq by auto
  qed
qed

lemma add_transitive_ok:
  assumes rs: "regs_wf rs" "lists_ok rs" and r: "base < rs_count rs" "reg < rs_count rs"
  shows "\<exists>rs'. ra_add_transitive_reg_conflict rs base reg = Some rs' \<and> regs_wf rs' \<and> lists_ok rs' \<and>
    rs_count rs' = rs_count rs \<and> rs_classes rs' = rs_classes rs \<and>
    (\<forall>s < rs_count rs. \<forall>t < rs_count rs. conflict rs' s t \<longleftrightarrow> conflict rs s t \<or>
       s = reg \<and> conflict rs base t \<or> t = reg \<and> conflict rs base s)"
proof -
  let ?rs = "ra_add_reg_conflict rs reg base"
  note a = add_reg_conflict_ok [OF rs(1) r(2,1)]
  note s = add_reg_conflict_simps [of rs reg base]
  have ok: "lists_ok ?rs" by (rule a(3) [OF rs(2)])
  then have "reg_list_ok ?rs base" using r by (simp add: lists_ok_def s)
  then obtain cl where cl: "r_conflict_list (rs_regs ?rs ! base) = Some cl" by (auto simp: reg_list_ok_def)
  have "conflict ?rs reg base" using a(2) r by simp
  from transitive_loop_ok [OF a(1) ok _ _ this _ cl, of 0] r obtain rs' where
    rs': "transitive_conflict_loop ?rs base reg 0 = Some rs'" "regs_wf rs'" "lists_ok rs'"
    "rs_count rs' = rs_count rs" "rs_classes rs' = rs_classes rs"
    "\<forall>s < rs_count rs. \<forall>t < rs_count rs. conflict rs' s t \<longleftrightarrow> conflict ?rs s t \<or>
       s = reg \<and> conflict ?rs base t \<or> t = reg \<and> conflict ?rs base s"
    by (auto simp: s)
  have "conflict rs' x y \<longleftrightarrow> conflict rs x y \<or> x = reg \<and> conflict rs base y \<or> y = reg \<and> conflict rs base x"
    if "x < rs_count rs" "y < rs_count rs" for x y
    using rs'(6) a(2) that r regs_wfD(3) [OF rs(1)] by metis
  with rs' show ?thesis by (auto simp: ra_add_transitive_reg_conflict_def)
qed

lemma bitset_or_self: "bitset_or x x = x"
  by (induction x) (auto simp: bitset_or_def)

lemma make_transitive_fold:
  assumes "regs_wf rs" "r < rs_count rs" "\<forall>c \<in> set cs. c < rs_count rs" "distinct cs"
  defines "step \<equiv> \<lambda>rs c. rs\<lparr>rs_regs := (rs_regs rs)[c := (rs_regs rs ! c)
              \<lparr>r_conflicts := bitset_or (r_conflicts (rs_regs rs ! c)) (r_conflicts (rs_regs rs ! r))\<rparr>]\<rparr>"
  shows "rs_count (foldl step rs cs) = rs_count rs \<and> rs_classes (foldl step rs cs) = rs_classes rs \<and>
    length (rs_regs (foldl step rs cs)) = length (rs_regs rs) \<and>
    (\<forall>x < rs_count rs. r_conflicts (rs_regs (foldl step rs cs) ! x) =
      (if x \<in> set cs then bitset_or (r_conflicts (rs_regs rs ! x)) (r_conflicts (rs_regs rs ! r))
       else r_conflicts (rs_regs rs ! x)))"
  using assms(3,4)
proof (induction cs rule: rev_induct)
  case (snoc c cs)
  let ?s = "foldl step rs cs"
  have c: "c < rs_count rs" "c \<notin> set cs" using snoc.prems by auto
  have ih: "rs_count ?s = rs_count rs" "rs_classes ?s = rs_classes rs" "length (rs_regs ?s) = length (rs_regs rs)"
    "\<forall>x < rs_count rs. r_conflicts (rs_regs ?s ! x) =
      (if x \<in> set cs then bitset_or (r_conflicts (rs_regs rs ! x)) (r_conflicts (rs_regs rs ! r))
       else r_conflicts (rs_regs rs ! x))"
    using snoc by auto
  have rr: "r_conflicts (rs_regs ?s ! r) = r_conflicts (rs_regs rs ! r)"
    using ih(4) assms(2) by (simp add: bitset_or_self)
  have cc: "r_conflicts (rs_regs ?s ! c) = r_conflicts (rs_regs rs ! c)" using ih(4) c by simp
  have len: "c < length (rs_regs ?s)" using c(1) ih(3) regs_wfD(1) [OF assms(1)] by simp
  have "foldl step rs (cs @ [c]) = ?s\<lparr>rs_regs := (rs_regs ?s)[c := (rs_regs ?s ! c)
      \<lparr>r_conflicts := bitset_or (r_conflicts (rs_regs rs ! c)) (r_conflicts (rs_regs rs ! r))\<rparr>]\<rparr>"
    using rr cc by (simp add: step_def)
  then show ?case using ih c len by (auto simp: nth_list_update)
qed simp

lemma make_transitive_ok:
  assumes rs: "regs_wf rs" and r: "r < rs_count rs"
  defines "rs' \<equiv> ra_make_reg_conflicts_transitive rs r"
  shows "regs_wf rs'" "rs_count rs' = rs_count rs" "rs_classes rs' = rs_classes rs"
    "x < rs_count rs \<Longrightarrow> s < rs_count rs \<Longrightarrow>
      conflict rs' x s \<longleftrightarrow> conflict rs x s \<or> conflict rs r x \<and> conflict rs r s"
proof -
  note w = regs_wfD [OF rs]
  let ?cs = "bitset_foreach (r_conflicts (rs_regs rs ! r)) (rs_count rs)"
  have cs: "set ?cs = {c. c < rs_count rs \<and> conflict rs r c}" "distinct ?cs"
    by (auto simp: bitset_foreach_result conflict_def)
  have f: "rs_count rs' = rs_count rs" "rs_classes rs' = rs_classes rs" "length (rs_regs rs') = length (rs_regs rs)"
    "\<forall>x < rs_count rs. r_conflicts (rs_regs rs' ! x) =
      (if x \<in> set ?cs then bitset_or (r_conflicts (rs_regs rs ! x)) (r_conflicts (rs_regs rs ! r))
       else r_conflicts (rs_regs rs ! x))"
    using make_transitive_fold [OF rs r _ cs(2)] cs(1)
    by (simp_all add: rs'_def ra_make_reg_conflicts_transitive_def)
  have wf: "bitset_wf (rs_count rs) (r_conflicts (rs_regs rs' ! x))" if "x < rs_count rs" for x
    using f(4) w(2) r that bs.wf_union by simp
  have c: "conflict rs' x s \<longleftrightarrow> conflict rs x s \<or> conflict rs r x \<and> conflict rs r s"
    if "x < rs_count rs" "s < rs_count rs" for x s
    using f(4) that cs(1) bs.mem_union [OF w(2) [OF that(1)] w(2) [OF r] that(2)]
    by (auto simp: conflict_def)
  show "rs_count rs' = rs_count rs" "rs_classes rs' = rs_classes rs" by (rule f)+
  show "conflict rs' x s \<longleftrightarrow> conflict rs x s \<or> conflict rs r x \<and> conflict rs r s"
    if "x < rs_count rs" "s < rs_count rs" by (rule c [OF that])
  have "conflict rs' s x" if "x < rs_count rs" "s < rs_count rs" "conflict rs' x s" for x s
    using c [OF that(1,2)] c [OF that(2,1)] w(4) [OF that(1,2)] that(3) by blast
  then show "regs_wf rs'"
    unfolding regs_wf_def f(1,2) using wf c w(3,5) f(3) w(1) by simp
qed

section \<open>Classes\<close>

lemma class_add_reg_ok:
  assumes rs: "regs_wf rs" and c: "c < length (rs_classes rs)" and r: "r < rs_count rs"
  defines "rs' \<equiv> ra_class_add_reg rs c r"
  shows "regs_wf rs'" "lists_ok rs \<Longrightarrow> lists_ok rs'"
    "class_regs rs' b = (if b = c then insert r (class_regs rs c) else class_regs rs b)"
    "p_ok rs \<Longrightarrow> r \<notin> class_regs rs c \<Longrightarrow> rs_count rs < 2 ^ 32 \<Longrightarrow> p_ok rs'"
proof -
  have f: "rs_count rs' = rs_count rs" "rs_regs rs' = rs_regs rs"
    "length (rs_classes rs') = length (rs_classes rs)"
    "\<And>b. b \<noteq> c \<Longrightarrow> rs_classes rs' ! b = rs_classes rs ! b"
    "rs_classes rs' ! c = (rs_classes rs ! c)\<lparr>c_regs := BITSET_SET (c_regs (rs_classes rs ! c)) r,
       c_p := c_p (rs_classes rs ! c) + 1\<rparr>"
    using c by (simp_all add: rs'_def ra_class_add_reg_def Let_def)
  have conf: "conflict rs' = conflict rs" by (simp add: conflict_def fun_eq_iff f(2))
  have wfc: "bitset_wf (rs_count rs) (c_regs (rs_classes rs ! b))" if "b < length (rs_classes rs)" for b
    using regs_wfD(5) [OF rs that] .
  have "bitset_wf (rs_count rs) (c_regs (rs_classes rs' ! b))" if "b < length (rs_classes rs)" for b
    using that wfc bs.wf_add [OF wfc [OF c] r] f(4,5) by (cases "b = c") simp_all
  then show "regs_wf rs'" using rs unfolding regs_wf_def conf f(1,2,3) by simp
  show "lists_ok rs \<Longrightarrow> lists_ok rs'" unfolding lists_ok_def reg_list_ok_def conf f(1,2) .
  show cr: "class_regs rs' b = (if b = c then insert r (class_regs rs c) else class_regs rs b)" for b
    using bs.mem_add [OF wfc [OF c] r] r f(4,5)
    by (auto simp: class_regs_def reg_belongs_to_class_def f(1))
  show "p_ok rs'" if p: "p_ok rs" and new: "r \<notin> class_regs rs c" and n: "rs_count rs < 2 ^ 32"
    unfolding p_ok_def f(3)
  proof (intro allI impI)
    fix b assume b: "b < length (rs_classes rs)"
    show "unat (c_p (rs_classes rs' ! b)) = card (class_regs rs' b)"
    proof (cases "b = c")
      case True
      have "insert r (class_regs rs c) \<subseteq> {..< rs_count rs}" using r by (auto simp: class_regs_def)
      then have "card (insert r (class_regs rs c)) \<le> rs_count rs"
        by (metis card_lessThan card_mono finite_lessThan)
      then have "Suc (unat (c_p (rs_classes rs ! c))) < 2 ^ 32"
        using p c new n by (simp add: p_ok_def)
      then have "unat (c_p (rs_classes rs ! c) + 1) = Suc (unat (c_p (rs_classes rs ! c)))"
        by (intro unat_Suc_less) simp
      then show ?thesis using True new p c cr by (simp add: f(5) p_ok_def)
    next
      case False
      then show ?thesis using p b cr f(4) by (simp add: p_ok_def)
    qed
  qed
qed

section \<open>The worst-case counts\<close>

lemma foldl_max: "foldl max (m :: nat) xs = Max (insert m (set xs))"
proof (induction xs arbitrary: m)
  case (Cons x xs)
  then show ?case by (cases "set xs = {}") (simp_all add: max.commute max.left_commute)
qed simp

lemma foldl_count: "foldl (\<lambda>n i. if P i then n + 1 else n) m xs = m + length (filter P xs)"
  by (induction xs arbitrary: m) auto

lemma count_conflicts_ok:
  assumes "lists_ok rs" "rc < rs_count rs"
  shows "count_conflicts rs b rc = Some (card {s \<in> class_regs rs b. conflict rs rc s})"
proof -
  obtain cl where cl: "r_conflict_list (rs_regs rs ! rc) = Some cl"
    "r_num_conflicts (rs_regs rs ! rc) = length cl" "distinct cl"
    "set cl = {s. s < rs_count rs \<and> conflict rs rc s}"
    using assms unfolding lists_ok_def reg_list_ok_def by blast
  let ?P = "\<lambda>s. reg_belongs_to_class s (rs_classes rs ! b)"
  have "filter (\<lambda>i. ?P (cl ! i)) [0 ..< length cl] = filter (?P \<circ> nth cl) [0 ..< length cl]"
    by (simp add: comp_def)
  then have "length (filter (\<lambda>i. ?P (cl ! i)) [0 ..< length cl]) = length (filter ?P cl)"
    by (metis filter_map length_map map_nth)
  also have "\<dots> = card (set (filter ?P cl))" using cl(3) distinct_card [of "filter ?P cl"] by (simp del: set_filter)
  also have "set (filter ?P cl) = {s \<in> class_regs rs b. conflict rs rc s}"
    using cl(4) by (auto simp: class_regs_def)
  finally show ?thesis using cl(1,2) by (simp add: count_conflicts_def foldl_count)
qed

lemma compute_q_ok:
  assumes "lists_ok rs"
  shows "compute_q rs b c = Some (of_nat
    (Max (insert 0 ((\<lambda>rc. card {s \<in> class_regs rs b. conflict rs rc s}) ` class_regs rs c))))"
proof -
  let ?f = "\<lambda>rc. card {s \<in> class_regs rs b. conflict rs rc s}"
  let ?P = "\<lambda>rc. reg_belongs_to_class rc (rs_classes rs ! c)"
  have "foldl (\<lambda>m rc. if \<not> ?P rc then m
                   else case m of None \<Rightarrow> None
                        | Some mx \<Rightarrow> map_option (max mx) (count_conflicts rs b rc))
       (Some m) xs = Some (foldl max m (map ?f (filter ?P xs)))"
    if "\<forall>rc \<in> set xs. rc < rs_count rs" for m xs
    using that by (induction xs arbitrary: m) (auto simp: count_conflicts_ok [OF assms])
  moreover have "set (filter ?P [0 ..< rs_count rs]) = class_regs rs c" by (auto simp: class_regs_def)
  ultimately show ?thesis by (simp add: compute_q_def foldl_max)
qed

lemma those_map_Some: "those (map (\<lambda>x. Some (f x)) xs) = Some (map f xs)"
  by (induction xs) auto

lemma finalize_ok:
  assumes rs: "regs_wf rs" "lists_ok rs" "p_ok rs" "rs_count rs < 2 ^ 32"
  shows "\<exists>rs'. ra_set_finalize rs None = Some rs' \<and> regs_wf rs' \<and> classes_ok rs' \<and>
    rs_count rs' = rs_count rs \<and> length (rs_classes rs') = length (rs_classes rs) \<and>
    (\<forall>r < rs_count rs. conflict rs' r = conflict rs r) \<and>
    (\<forall>b < length (rs_classes rs). class_regs rs' b = class_regs rs b) \<and>
    (\<forall>b < length (rs_classes rs). \<forall>c < length (rs_classes rs). unat (c_q (rs_classes rs' ! b) ! c) =
       Max (insert 0 ((\<lambda>rc. card {s \<in> class_regs rs b. conflict rs rc s}) ` class_regs rs c)))"
proof -
  let ?n = "length (rs_classes rs)"
  define M where "M b c = Max (insert 0 ((\<lambda>rc. card {s \<in> class_regs rs b. conflict rs rc s}) ` class_regs rs c))" for b c
  let ?qs = "map (\<lambda>b. map (\<lambda>c. of_nat (M b c)) [0 ..< ?n]) [0 ..< ?n] :: u32 list list"
  define rs' where "rs' = rs\<lparr>rs_classes := map2 (\<lambda>cl q. cl\<lparr>c_q := q\<rparr>) (rs_classes rs) ?qs,
             rs_regs := map (\<lambda>reg. reg\<lparr>r_conflict_list := None\<rparr>) (rs_regs rs)\<rparr>"
  have q: "compute_q rs b = (\<lambda>c. Some (of_nat (M b c)))" for b
    by (simp add: fun_eq_iff compute_q_ok [OF rs(2)] M_def)
  have fin: "ra_set_finalize rs None = Some rs'"
    by (simp add: ra_set_finalize_def q those_map_Some rs'_def Let_def)
  have f: "rs_count rs' = rs_count rs" "length (rs_classes rs') = ?n" by (simp_all add: rs'_def)
  have cl: "c_regs (rs_classes rs' ! b) = c_regs (rs_classes rs ! b)"
    "c_p (rs_classes rs' ! b) = c_p (rs_classes rs ! b)"
    "c < ?n \<Longrightarrow> c_q (rs_classes rs' ! b) ! c = of_nat (M b c)" if "b < ?n" for b c
    using that by (simp_all add: rs'_def)
  have lenr: "length (rs_regs rs') = length (rs_regs rs)" by (simp add: rs'_def)
  have rc: "r_conflicts (rs_regs rs' ! r) = r_conflicts (rs_regs rs ! r)" if "r < rs_count rs" for r
    using that regs_wfD(1) [OF rs(1)] by (simp add: rs'_def)
  have M: "M b c \<le> rs_count rs" for b c
  proof -
    have "card {s \<in> class_regs rs b. conflict rs rc s} \<le> card {..< rs_count rs}" for rc
      by (rule card_mono) (auto simp: class_regs_def)
    then show ?thesis by (auto simp: M_def)
  qed
  have uq: "unat (c_q (rs_classes rs' ! b) ! c) = M b c" if "b < ?n" "c < ?n" for b c
  proof -
    have "M b c < 2 ^ LENGTH(32)" using M [of b c] rs(4) by simp
    then show ?thesis unfolding cl(3) [OF that] by (rule unat_of_nat_less)
  qed
  have lt: "conflict rs' r s = conflict rs r s" if "r < rs_count rs" for r s
    using rc [OF that] by (simp add: conflict_def)
  have cr: "class_regs rs' b = class_regs rs b" if "b < ?n" for b
    using cl(1) [OF that] by (simp add: class_regs_def reg_belongs_to_class_def f(1))
  have le: "card {r \<in> class_regs rs b. conflict rs r s} \<le> M b c"
    if "s \<in> class_regs rs c" for b c s
  proof -
    have "{r \<in> class_regs rs b. conflict rs r s} = {r \<in> class_regs rs b. conflict rs s r}"
      using that regs_wfD(4) [OF rs(1)] by (auto simp: class_regs_def)
    then show ?thesis using that by (auto simp: M_def intro!: Max_ge)
  qed
  have "{r \<in> class_regs rs b. conflict rs' r s} = {r \<in> class_regs rs b. conflict rs r s}" for b s
    using lt by (auto simp: class_regs_def)
  then have "classes_ok rs'"
    unfolding classes_ok_def f(2)
    using rs(3) cl(2) uq cr le by (simp add: p_ok_def)
  moreover have "regs_wf rs'"
    using rs(1) rc cl(1) lenr lt unfolding regs_wf_def f by simp
  ultimately show ?thesis using fin f lt cr uq by (auto simp: M_def fun_eq_iff)
qed

lemma alloc_reg_class_ok:
  assumes rs: "regs_wf rs" "lists_ok rs" "p_ok rs"
  defines "rs' \<equiv> fst (ra_alloc_reg_class rs)"
  shows "regs_wf rs'" "lists_ok rs'" "p_ok rs'" "snd (ra_alloc_reg_class rs) = length (rs_classes rs)"
    "length (rs_classes rs') = Suc (length (rs_classes rs))"
    "class_regs rs' (length (rs_classes rs)) = {}"
proof -
  have f: "rs_regs rs' = rs_regs rs" "rs_count rs' = rs_count rs"
    "rs_classes rs' = rs_classes rs @ [\<lparr>c_regs = bitset_zero (rs_count rs), c_p = 0, c_q = []\<rparr>]"
    by (simp_all add: rs'_def ra_alloc_reg_class_def)
  have conf: "conflict rs' = conflict rs" by (simp add: conflict_def fun_eq_iff f)
  show "regs_wf rs'"
    using rs(1) bs.wf_empty [of "rs_count rs"] unfolding regs_wf_def conf f
    by (auto simp: nth_append less_Suc_eq)
  show "lists_ok rs'" using rs(2) unfolding lists_ok_def reg_list_ok_def conf f .
  show new: "class_regs rs' (length (rs_classes rs)) = {}"
    using bs.mem_empty by (auto simp: class_regs_def f reg_belongs_to_class_def)
  have "class_regs rs' c = class_regs rs c" if "c < length (rs_classes rs)" for c
    using that by (simp add: class_regs_def f nth_append)
  then show "p_ok rs'"
    using rs(3) new by (auto simp: p_ok_def f nth_append less_Suc_eq)
  show "snd (ra_alloc_reg_class rs) = length (rs_classes rs)"
    "length (rs_classes rs') = Suc (length (rs_classes rs))"
    by (simp_all add: ra_alloc_reg_class_def f)
qed

section \<open>Building a graph\<close>

definition graph_built :: "ra_graph \<Rightarrow> bool" where
  "graph_built g \<longleftrightarrow> graph_wf g \<and> q_inv g \<and> g_stack_count g = 0 \<and> (\<forall>i < nodes_count g. \<not> stacked g i)"

lemma alloc_graph_built:
  assumes "regs_wf rs" "rs_classes rs \<noteq> []"
  shows "graph_built (ra_alloc_interference_graph rs n)"
proof -
  let ?g = "ra_alloc_interference_graph rs n"
  have f: "nodes_count ?g = n" "g_regs ?g = rs" "length (g_stack ?g) = n" "g_stack_count ?g = 0"
    "\<And>i. i < n \<Longrightarrow> g_nodes ?g ! i = \<lparr>n_adjacency = bitset_zero n, n_adjacency_list = [],
       n_adjacency_list_size = 4, n_class = 0, n_reg = NO_REG, n_in_stack = False, n_q_total = 0\<rparr>"
    by (simp_all add: ra_alloc_interference_graph_def)
  have "node_wf ?g i" if "i < n" for i
    using that assms(2) bs.mem_empty [of _ n] bs.wf_empty [of n] by (auto simp: node_wf_def f)
  then have "graph_wf ?g" using assms(1) by (simp add: graph_wf_def f)
  moreover have "q_inv ?g" by (simp add: q_inv_def f active_def)
  ultimately show ?thesis by (simp add: graph_built_def f)
qed

lemma set_node_class_built:
  assumes g: "graph_built g" and n: "n < nodes_count g" "adj g n = []" and c: "c < length (rs_classes (g_regs g))"
  shows "graph_built (ra_set_node_class g n c)"
proof -
  let ?g = "ra_set_node_class g n c"
  have wf: "graph_wf g" using g by (simp add: graph_built_def)
  have f: "nodes_count ?g = nodes_count g" "g_regs ?g = g_regs g" "g_stack ?g = g_stack g"
    "g_stack_count ?g = g_stack_count g"
    by (simp_all add: ra_set_node_class_def)
  have nodes: "adj ?g i = adj g i" "stacked ?g i = stacked g i"
    "n_adjacency (g_nodes ?g ! i) = n_adjacency (g_nodes g ! i)"
    "n_q_total (g_nodes ?g ! i) = n_q_total (g_nodes g ! i)"
    "cls ?g i = (if i = n then c else cls g i)" if "i < nodes_count g" for i
    using that by (cases "i = n"; simp add: ra_set_node_class_def)+
  have nw: "node_wf ?g i" if i: "i < nodes_count g" for i
    using graph_wfD(3) [OF wf i] c nodes i unfolding node_wf_def f by auto
  have "n_q_total (g_nodes ?g ! i) = (\<Sum>j \<in> active ?g i. node_q ?g i j)"
    if i: "i < nodes_count g" "\<not> stacked ?g i" for i
  proof (cases "i = n")
    case True
    then show ?thesis using g i n nodes [OF i(1)] by (simp add: graph_built_def q_inv_def active_def)
  next
    case False
    have j: "j < nodes_count g" "j \<noteq> n" if "j \<in> set (adj g i)" for j
      using graph_wfD(5,7) [OF wf i(1) that] n(2) by auto
    have "active ?g i = active g i" using j nodes i by (auto simp: active_def)
    moreover have "node_q ?g i j = node_q g i j" if "j \<in> active g i" for j
      using that j nodes i False by (simp add: node_q_def class_q_def f active_def)
    ultimately show ?thesis
      using g i nodes [OF i(1)] by (simp add: graph_built_def q_inv_def)
  qed
  then show ?thesis
    using g nw wf nodes(2) unfolding graph_built_def graph_wf_def q_inv_def f by simp
qed

lemma set_node_reg_built:
  assumes "graph_built g"
  shows "graph_built (ra_set_node_reg g n reg)"
proof -
  let ?g = "ra_set_node_reg g n reg"
  have f: "nodes_count ?g = nodes_count g" "g_regs ?g = g_regs g" "g_stack ?g = g_stack g"
    "g_stack_count ?g = g_stack_count g" by (simp_all add: ra_set_node_reg_def)
  have nodes: "adj ?g i = adj g i" "stacked ?g i = stacked g i" "cls ?g i = cls g i"
    "n_adjacency (g_nodes ?g ! i) = n_adjacency (g_nodes g ! i)"
    "n_q_total (g_nodes ?g ! i) = n_q_total (g_nodes g ! i)" if "i < nodes_count g" for i
    using that assms by (cases "i = n"; simp add: ra_set_node_reg_def graph_built_def)+
  have "same_graph g ?g" using nodes by (simp add: same_graph_def f)
  then have wf: "graph_wf g" "graph_wf ?g"
    using assms same_graph_wf by (auto simp: graph_built_def)
  have "(\<Sum>j \<in> active ?g i. node_q ?g i j) = (\<Sum>j \<in> active g i. node_q g i j)"
    if i: "i < nodes_count g" for i
    using graph_wfD(5) [OF wf(1) i] nodes i
    by (intro sum.cong) (auto simp: active_def node_q_def class_q_def f)
  then show ?thesis
    using assms wf nodes unfolding graph_built_def q_inv_def f by simp
qed

lemma add_node_adjacency_simps:
  "g_regs (ra_add_node_adjacency g n1 n2) = g_regs g" "g_stack (ra_add_node_adjacency g n1 n2) = g_stack g"
  "g_stack_count (ra_add_node_adjacency g n1 n2) = g_stack_count g"
  "nodes_count (ra_add_node_adjacency g n1 n2) = nodes_count g"
  "i < nodes_count g \<Longrightarrow> stacked (ra_add_node_adjacency g n1 n2) i = stacked g i"
  "i < nodes_count g \<Longrightarrow> cls (ra_add_node_adjacency g n1 n2) i = cls g i"
  "i < nodes_count g \<Longrightarrow> n_reg (g_nodes (ra_add_node_adjacency g n1 n2) ! i) = n_reg (g_nodes g ! i)"
  "i < nodes_count g \<Longrightarrow> adj (ra_add_node_adjacency g n1 n2) i = (if i = n1 then adj g i @ [n2] else adj g i)"
  "i < nodes_count g \<Longrightarrow> n_q_total (g_nodes (ra_add_node_adjacency g n1 n2) ! i) =
    (if i = n1 then n_q_total (g_nodes g ! i) + class_q g (cls g n1) (cls g n2) else n_q_total (g_nodes g ! i))"
  "i < nodes_count g \<Longrightarrow> n_adjacency (g_nodes (ra_add_node_adjacency g n1 n2) ! i) =
    (if i = n1 then BITSET_SET (n_adjacency (g_nodes g ! i)) n2 else n_adjacency (g_nodes g ! i))"
  by (cases "i = n1"; simp add: ra_add_node_adjacency_def Let_def)+

lemma add_interference_built:
  assumes g: "graph_built g" and n: "n1 < nodes_count g" "n2 < nodes_count g"
  defines "g' \<equiv> ra_add_node_interference g n1 n2"
  shows "graph_built g'" "nodes_count g' = nodes_count g" "g_regs g' = g_regs g"
    "i < nodes_count g \<Longrightarrow> set (adj g' i) = set (adj g i) \<union>
       (if n1 \<noteq> n2 \<and> i = n1 then {n2} else {}) \<union> (if n1 \<noteq> n2 \<and> i = n2 then {n1} else {})"
    "i < nodes_count g \<Longrightarrow> cls g' i = cls g i"
    "i < nodes_count g \<Longrightarrow> n_reg (g_nodes g' ! i) = n_reg (g_nodes g ! i)"
proof -
  have wf: "graph_wf g" and q: "q_inv g" and st: "\<forall>i < nodes_count g. \<not> stacked g i"
    using g by (auto simp: graph_built_def)
  have t: "BITSET_TEST (n_adjacency (g_nodes g ! i)) j \<longleftrightarrow> j \<in> set (adj g i)"
    if "i < nodes_count g" "j < nodes_count g" for i j
    using graph_wfD(3) [OF wf that(1)] that(2) by (simp add: node_wf_def)
  have all: "graph_built g' \<and> nodes_count g' = nodes_count g \<and> g_regs g' = g_regs g \<and>
    (\<forall>i < nodes_count g. set (adj g' i) = set (adj g i) \<union>
       (if n1 \<noteq> n2 \<and> i = n1 then {n2} else {}) \<union> (if n1 \<noteq> n2 \<and> i = n2 then {n1} else {}) \<and>
       cls g' i = cls g i \<and> n_reg (g_nodes g' ! i) = n_reg (g_nodes g ! i))"
  proof (cases "n1 \<noteq> n2 \<and> n2 \<notin> set (adj g n1)")
    case False
    then have "g' = g" using t n by (auto simp: g'_def ra_add_node_interference_def)
    moreover have "n2 \<in> set (adj g n1) \<and> n1 \<in> set (adj g n2)" if "n1 \<noteq> n2"
      using False that graph_wfD(7) [OF wf n(1)] by blast
    ultimately show ?thesis using g by auto
  next
    case True
    have ne: "n1 \<noteq> n2" and new: "n2 \<notin> set (adj g n1)" "n1 \<notin> set (adj g n2)"
      using True graph_wfD(7) [OF wf n(2)] by auto
    have g': "g' = ra_add_node_adjacency (ra_add_node_adjacency g n1 n2) n2 n1"
      using True t n by (simp add: g'_def ra_add_node_interference_def)
    note s = add_node_adjacency_simps
    have f: "g_regs g' = g_regs g" "g_stack g' = g_stack g" "g_stack_count g' = g_stack_count g"
      "nodes_count g' = nodes_count g" by (simp_all add: g' s)
    have nodes: "stacked g' i = stacked g i" "cls g' i = cls g i"
      "n_reg (g_nodes g' ! i) = n_reg (g_nodes g ! i)"
      "adj g' i = adj g i @ (if i = n1 then [n2] else []) @ (if i = n2 then [n1] else [])"
      "n_q_total (g_nodes g' ! i) = n_q_total (g_nodes g ! i)
        + (if i = n1 then node_q g n1 n2 else 0) + (if i = n2 then node_q g n2 n1 else 0)"
      "n_adjacency (g_nodes g' ! i) = (if i = n1 then BITSET_SET (n_adjacency (g_nodes g ! i)) n2
         else if i = n2 then BITSET_SET (n_adjacency (g_nodes g ! i)) n1 else n_adjacency (g_nodes g ! i))"
      if "i < nodes_count g" for i
      using that ne n by (simp_all add: g' s node_q_def class_q_def)
    have sadj: "set (adj g' i) = set (adj g i) \<union> (if i = n1 then {n2} else {}) \<union> (if i = n2 then {n1} else {})"
      if "i < nodes_count g" for i using nodes(4) [OF that] by simp
    have nw: "node_wf g' i" if i: "i < nodes_count g" for i
    proof -
      have w: "node_wf g i" by (rule graph_wfD(3) [OF wf i])
      then have bw: "bitset_wf (nodes_count g) (n_adjacency (g_nodes g ! i))" by (simp add: node_wf_def)
      have "distinct (adj g' i)" using w new ne nodes(4) [OF i] by (auto simp: node_wf_def)
      moreover have "j < nodes_count g \<and> j \<noteq> i \<and> i \<in> set (adj g' j)" if "j \<in> set (adj g' i)" for j
      proof -
        have "j < nodes_count g" "j \<noteq> i"
          using that sadj [OF i] n ne graph_wfD(5,6) [OF wf i] by (auto split: if_splits)
        then show ?thesis using that sadj [OF i] sadj graph_wfD(7) [OF wf i] ne by (auto split: if_splits)
      qed
      moreover have "bitset_wf (nodes_count g) (n_adjacency (g_nodes g' ! i))"
        using bw bs.wf_add [OF bw] n nodes(6) [OF i] by (cases "i = n1"; cases "i = n2"; simp)
      moreover have "BITSET_TEST (n_adjacency (g_nodes g' ! i)) j \<longleftrightarrow> j \<in> set (adj g' i)"
        if "j < nodes_count g" for j
        using bs.mem_add [OF bw _ that] t [OF i that] n ne nodes(6) [OF i] sadj [OF i] by auto
      ultimately show ?thesis using w nodes(2) [OF i] unfolding node_wf_def f by simp
    qed
    have act: "active g' i = set (adj g' i)" "active g i = set (adj g i)" if i: "i < nodes_count g" for i
      using st nodes(1) graph_wfD(5) [OF wf i] sadj [OF i] n i by (auto simp: active_def split: if_splits)
    have nq: "node_q g' i j = node_q g i j" if "i < nodes_count g" "j < nodes_count g" for i j
      using that nodes(2) by (simp add: node_q_def class_q_def f)
    have "n_q_total (g_nodes g' ! i) = (\<Sum>j \<in> active g' i. node_q g' i j)" if i: "i < nodes_count g" for i
    proof -
      have "(\<Sum>j \<in> active g' i. node_q g' i j) = (\<Sum>j \<in> set (adj g' i). node_q g i j)"
        unfolding act(1) [OF i] using nq [OF i] graph_wfD(5) [OF wf i] sadj [OF i] n
        by (intro sum.cong) (auto split: if_splits)
      also have "\<dots> = n_q_total (g_nodes g' ! i)"
        using new ne q st i by (simp add: sadj [OF i] nodes(5) [OF i] q_inv_def act(2) [OF i])
      finally show ?thesis by simp
    qed
    then have "graph_built g'"
      using g nw wf nodes(1) unfolding graph_built_def graph_wf_def q_inv_def f by simp
    then show ?thesis using f nodes(2,3) sadj ne by simp
  qed
  show "graph_built g'" "nodes_count g' = nodes_count g" "g_regs g' = g_regs g" using all by auto
  show "set (adj g' i) = set (adj g i) \<union>
       (if n1 \<noteq> n2 \<and> i = n1 then {n2} else {}) \<union> (if n1 \<noteq> n2 \<and> i = n2 then {n1} else {})"
    "cls g' i = cls g i" "n_reg (g_nodes g' ! i) = n_reg (g_nodes g ! i)"
    if "i < nodes_count g" using all that by auto
qed

section \<open>A small example\<close>

text \<open>Two registers in one class, and two nodes that interfere.\<close>

definition example_regs :: ra_regs where
  "example_regs = ra_class_add_reg (ra_class_add_reg (fst (ra_alloc_reg_class (ra_alloc_reg_set 2 True))) 0 0) 0 1"

definition example_graph :: ra_graph where
  "example_graph = ra_add_node_interference
     (ra_alloc_interference_graph (the (ra_set_finalize example_regs None)) 2) 0 1"

lemma example_regs_ok: "regs_wf example_regs" "lists_ok example_regs" "p_ok example_regs"
  "rs_count example_regs = 2" "length (rs_classes example_regs) = 1"
proof -
  let ?a = "ra_alloc_reg_set 2 True"
  let ?b = "fst (ra_alloc_reg_class ?a)"
  let ?c = "ra_class_add_reg ?b 0 0"
  have n: "rs_count ?b = 2" "length (rs_classes ?b) = 1" "length (rs_classes ?c) = 1" "rs_count ?c = 2"
    by (simp_all add: ra_alloc_reg_class_def ra_alloc_reg_set_def ra_class_add_reg_def Let_def)
  note b = alloc_reg_class_ok [OF alloc_reg_set_ok(1) [of 2 True] alloc_reg_set_ok(2) [of 2]
      alloc_reg_set_ok(3) [of 2 True]]
  have b0: "class_regs ?b 0 = {}" using b(6) by (simp add: ra_alloc_reg_set_def)
  note c = class_add_reg_ok [OF b(1), of 0 0]
  have c1: "regs_wf ?c" "lists_ok ?c" "p_ok ?c" "class_regs ?c 0 = {0}"
    using c b b0 n by simp_all
  note d = class_add_reg_ok [OF c1(1), of 0 1]
  show "regs_wf example_regs" "lists_ok example_regs" "p_ok example_regs"
    using d c1 n by (simp_all add: example_regs_def)
  show "rs_count example_regs = 2" "length (rs_classes example_regs) = 1"
    by (simp_all add: example_regs_def ra_alloc_reg_class_def ra_alloc_reg_set_def ra_class_add_reg_def Let_def)
qed

lemma example_graph_eq:
  "example_graph =
    \<lparr>g_regs = \<lparr>rs_regs = [\<lparr>r_conflicts = [1], r_conflict_list = None, r_conflict_list_size = 4, r_num_conflicts = 1\<rparr>,
       \<lparr>r_conflicts = [2], r_conflict_list = None, r_conflict_list_size = 4, r_num_conflicts = 1\<rparr>],
       rs_count = 2, rs_classes = [\<lparr>c_regs = [3], c_p = 2, c_q = [1]\<rparr>], rs_round_robin = False\<rparr>,
     g_nodes = [\<lparr>n_adjacency = [2], n_adjacency_list = [1], n_adjacency_list_size = 4, n_class = 0,
       n_reg = NO_REG, n_in_stack = False, n_q_total = 1\<rparr>,
       \<lparr>n_adjacency = [1], n_adjacency_list = [0], n_adjacency_list_size = 4, n_class = 0,
       n_reg = NO_REG, n_in_stack = False, n_q_total = 1\<rparr>],
     g_stack = [0, 0], g_stack_count = 0, g_stack_optimistic_start = 0\<rparr>"
  by code_simp

lemma example_finalize: "ra_set_finalize example_regs None = Some (g_regs example_graph)"
  unfolding example_graph_eq by code_simp

lemma example_ready: "graph_ready example_graph" "classes_ok (g_regs example_graph)"
  "forced example_graph = {}" "nodes_count example_graph = 2"
proof -
  obtain rs where rs: "ra_set_finalize example_regs None = Some rs" "regs_wf rs" "classes_ok rs"
    "length (rs_classes rs) = 1"
    using finalize_ok [OF example_regs_ok(1-3)] example_regs_ok(4,5) by auto
  have eq: "rs = g_regs example_graph" using rs(1) example_finalize by simp
  show "classes_ok (g_regs example_graph)" using rs(3) eq by simp
  have "rs_classes rs \<noteq> []" using rs(4) by auto
  then have b: "graph_built (ra_alloc_interference_graph rs 2)" by (rule alloc_graph_built [OF rs(2)])
  have "graph_built example_graph"
    unfolding example_graph_def rs(1) option.sel
    by (rule add_interference_built(1) [OF b]) (simp_all add: ra_alloc_interference_graph_def)
  moreover have "q_bounded example_graph"
    unfolding example_graph_eq
    by (auto simp: q_bounded_def less_Suc_eq numeral_2_eq_2 node_q_def class_q_def)
  moreover have "\<forall>i < 2. n_reg (g_nodes example_graph ! i) = NO_REG"
    unfolding example_graph_eq by (simp add: less_Suc_eq numeral_2_eq_2)
  moreover show "nodes_count example_graph = 2" by (simp add: example_graph_eq)
  ultimately show "graph_ready example_graph" "forced example_graph = {}"
    by (auto simp: graph_ready_def graph_built_def forced_def example_graph_eq)
qed

text \<open>Registers 1 and 2 conflict with register 0, and by transitivity with each other.\<close>

definition stale_regs :: ra_regs where
  "stale_regs = ra_class_add_reg (ra_class_add_reg (fst (ra_alloc_reg_class
     (ra_make_reg_conflicts_transitive
       (ra_add_reg_conflict (ra_add_reg_conflict (ra_alloc_reg_set 3 True) 0 1) 0 2) 0))) 0 1) 0 2"

definition stale_graph :: ra_graph where
  "stale_graph = ra_add_node_interference
     (ra_alloc_interference_graph (the (ra_set_finalize stale_regs None)) 2) 0 1"

section \<open>Properties of the register allocator\<close>

text \<open>C8. When \<open>ra_allocate\<close> succeeds, every node has a register: the one forced on it, or one of its
  class; and of two interfering nodes, not both forced, the registers do not conflict.\<close>

theorem ra_allocate_sound:
  assumes "graph_ready g" "callback_ok callback" "ra_allocate callback g = (g', True)"
    "i < nodes_count g"
  shows "(if i \<in> forced g then ra_get_node_reg g' i = ra_get_node_reg g i
      else ra_get_node_reg g' i \<in> class_regs (g_regs g) (cls g i)) \<and>
    (\<forall>j \<in> set (adj g i). i \<notin> forced g \<or> j \<notin> forced g \<longrightarrow>
      \<not> conflict (g_regs g) (ra_get_node_reg g' i) (ra_get_node_reg g' j))"
proof -
  let ?s = "ra_simplify g"
  have l: "select_loop callback ?s 0 = (g', True)"
    using assms(3) by (simp add: ra_allocate_def ra_select_def)
  note r = select_loop_result [OF assms(2) simplify_select_inv [OF assms(1)] l]
  have s: "same_graph g ?s" "same_assignment g ?s" "\<forall>i < nodes_count g. stacked ?s i \<longleftrightarrow> i \<notin> forced g"
    using simplify_result [OF assms(1)] by (auto simp: simplify_loop_inv_def)
  have g': "same_graph g g'" using same_graph_trans [OF s(1)] r by (simp add: select_rel_def)
  have wf: "graph_wf g" using assms(1) by (simp add: graph_ready_def)
  have un: "\<not> stacked g' j" if "j < nodes_count g" for j using r g' that by (simp add: same_graph_def)
  have act: "active g' i = set (adj g i)"
    using un graph_wfD(5) [OF wf assms(4)] g' assms(4) by (auto simp: active_def same_graph_def)
  have col: "colored (forced g) g'" using r by simp
  have "n_reg (g_nodes g' ! i) = n_reg (g_nodes g ! i)" if "i \<in> forced g"
    using r s that assms(4) by (auto simp: select_rel_def same_assignment_def same_graph_def)
  then show ?thesis
    using col un [OF assms(4)] g' assms(4) act
    by (auto simp: colored_def ra_get_node_reg_def same_graph_def class_regs_def)
qed

theorem ra_allocate_sound_witness:
  "\<exists>g'. ra_allocate None example_graph = (g', True) \<and>
    ra_get_node_reg g' 0 \<in> class_regs (g_regs example_graph) (cls example_graph 0) \<and>
    \<not> conflict (g_regs example_graph) (ra_get_node_reg g' 0) (ra_get_node_reg g' 1)"
proof -
  have "snd (ra_allocate None example_graph)" unfolding example_graph_eq by code_simp
  then obtain g' where g': "ra_allocate None example_graph = (g', True)"
    by (cases "ra_allocate None example_graph") auto
  have cb: "callback_ok None" by (simp add: callback_ok_def)
  have "0 < nodes_count example_graph" "1 \<in> set (adj example_graph 0)"
    by (simp_all add: example_graph_eq)
  then show ?thesis
    using ra_allocate_sound [OF example_ready(1) cb g', of 0] g' by (auto simp: example_ready(3))
qed

text \<open>C9. When \<open>p\<close> and \<open>q\<close> are what they are documented to be and the forced registers are in the
  classes of their nodes, \<open>ra_allocate\<close> fails only on a node above the first one that was pushed
  optimistically: a graph whose nodes are all trivially colourable is coloured, whatever the callback
  chooses.\<close>

theorem ra_allocate_complete:
  assumes "graph_ready g" "callback_ok callback" "classes_ok (g_regs g)"
    "\<forall>i \<in> forced g. n_reg (g_nodes g ! i) \<in> class_regs (g_regs g) (cls g i)"
    "ra_allocate callback g = (g', False)"
  shows "g_stack_optimistic_start g' < g_stack_count g' \<and>
    g_stack_optimistic_start (ra_simplify g) \<noteq> UINT_MAX"
proof -
  let ?s = "ra_simplify g"
  have l: "select_loop callback ?s 0 = (g', False)"
    using assms(5) by (simp add: ra_allocate_def ra_select_def)
  note r = select_loop_result [OF assms(2) simplify_select_inv [OF assms(1)] l]
  have inv: "simplify_loop_inv g (g_stack_optimistic_start ?s) ?s"
    and st: "\<forall>i < nodes_count g. stacked ?s i \<longleftrightarrow> i \<notin> forced g"
    using simplify_result [OF assms(1)] by auto
  then have s: "same_graph g ?s" "same_assignment g ?s" by (auto simp: simplify_loop_inv_def)
  have "all_in_class ?s"
    using assms(4) s st by (auto simp: all_in_class_def same_graph_def same_assignment_def forced_def
        class_regs_def)
  then have f: "g_stack_count g' \<noteq> 0" "\<not> pq_slot ?s (g_stack_count g' - 1)"
    "g_stack_count g' \<le> g_stack_count ?s" "g_stack_optimistic_start g' = g_stack_optimistic_start ?s"
    using r assms(3) s(1) by (auto simp: select_rel_def same_graph_def)
  let ?m = "if g_stack_optimistic_start ?s = UINT_MAX then g_stack_count ?s else g_stack_optimistic_start ?s"
  have "\<not> g_stack_count g' - 1 < ?m" using inv f(2) by (auto simp: simplify_loop_inv_def)
  then show ?thesis using f(1,3,4) by (auto split: if_splits)
qed

theorem ra_allocate_complete_witness:
  "snd (ra_allocate None example_graph)"
proof (rule ccontr)
  assume "\<not> snd (ra_allocate None example_graph)"
  then obtain g' where g': "ra_allocate None example_graph = (g', False)"
    by (cases "ra_allocate None example_graph") auto
  have cb: "callback_ok None" by (simp add: callback_ok_def)
  have "g_stack_optimistic_start (ra_simplify example_graph) \<noteq> UINT_MAX"
    using ra_allocate_complete [OF example_ready(1) cb example_ready(2) _ g'] example_ready(3) by auto
  moreover have "g_stack_optimistic_start (ra_simplify example_graph) = UINT_MAX"
    unfolding example_graph_eq by code_simp
  ultimately show False by simp
qed

text \<open>C10. \<open>ra_simplify\<close> puts every node without a register on the stack, each once, and no other; it
  leaves the graph and the assigned registers alone.\<close>

theorem ra_simplify_stacks_all:
  assumes "graph_ready g"
  shows "distinct (stack_of (ra_simplify g)) \<and>
    set (stack_of (ra_simplify g)) = {i. i < nodes_count g \<and> ra_get_node_reg g i = NO_REG} \<and>
    same_graph g (ra_simplify g) \<and> same_assignment g (ra_simplify g)"
  using simplify_result [OF assms]
  by (auto simp: simplify_loop_inv_def simplify_inv_def stack_wf_def same_graph_def forced_def
      ra_get_node_reg_def)

theorem ra_simplify_stacks_all_witness: "set (stack_of (ra_simplify example_graph)) = {0, 1}"
proof -
  have "{i. i < nodes_count example_graph \<and> ra_get_node_reg example_graph i = NO_REG} = {0, 1}"
    using example_ready(3,4) by (auto simp: forced_def ra_get_node_reg_def)
  then show ?thesis using ra_simplify_stacks_all [OF example_ready(1)] by simp
qed

text \<open>C11. The assertion in \<open>decrement_q\<close> never fails: on a graph whose totals add up, when a node that
  is not on the stack is pushed, the amount subtracted from a neighbour's total is at most the total;
  and after the push the totals add up again.\<close>

theorem decrement_q_assert_holds:
  assumes "simplify_inv g" "to_push g n" "k < length (adj g n)" "\<not> stacked g (adj g n ! k)"
  shows "class_q g (cls g (adj g n ! k)) (cls g n)
      \<le> n_q_total (g_nodes (foldl (decrement_q_step (cls g n)) g (take k (adj g n))) ! (adj g n ! k)) \<and>
    simplify_inv (push_node g n)"
  using decrement_q_assertion [OF assms(1) _ _ assms(3,4)] push_node_inv [OF assms(1,2)] assms(2)
  by (simp add: to_push_def node_q_def)

theorem decrement_q_assert_holds_witness: "simplify_inv (push_node example_graph 0)"
proof -
  have "simplify_inv example_graph" using ready_loop_inv [OF example_ready(1)]
    by (simp add: simplify_loop_inv_def)
  moreover have "to_push example_graph 0" "0 < length (adj example_graph 0)"
    "\<not> stacked example_graph (adj example_graph 0 ! 0)"
    by (simp_all add: to_push_def example_graph_eq)
  ultimately show ?thesis using decrement_q_assert_holds by blast
qed

text \<open>C12. On a register set with conflict lists, \<open>ra_add_transitive_reg_conflict\<close> ends, and the
  conflicts it adds are those of \<open>reg\<close> with \<open>base_reg\<close> and with everything \<open>base_reg\<close> conflicts with, in
  both directions; the conflict lists still list the conflicts. \<open>ra_make_reg_conflicts_transitive\<close>
  makes the registers that conflict with \<open>r\<close> conflict with each other and adds no other conflict;
  conflicts stay symmetric.\<close>

theorem add_transitive_conflict_correct:
  assumes "regs_wf rs" "lists_ok rs" "base < rs_count rs" "reg < rs_count rs"
  shows "(\<exists>rs'. ra_add_transitive_reg_conflict rs base reg = Some rs' \<and> regs_wf rs' \<and> lists_ok rs' \<and>
    (\<forall>s < rs_count rs. \<forall>t < rs_count rs. conflict rs' s t \<longleftrightarrow> conflict rs s t \<or>
       s = reg \<and> conflict rs base t \<or> t = reg \<and> conflict rs base s)) \<and>
    regs_wf (ra_make_reg_conflicts_transitive rs reg) \<and>
    (\<forall>s < rs_count rs. \<forall>t < rs_count rs. conflict (ra_make_reg_conflicts_transitive rs reg) s t \<longleftrightarrow>
       conflict rs s t \<or> conflict rs reg s \<and> conflict rs reg t)"
proof -
  have "regs_wf (ra_make_reg_conflicts_transitive rs reg) \<and>
    (\<forall>s < rs_count rs. \<forall>t < rs_count rs. conflict (ra_make_reg_conflicts_transitive rs reg) s t \<longleftrightarrow>
       conflict rs s t \<or> conflict rs reg s \<and> conflict rs reg t)"
    using make_transitive_ok [OF assms(1,4)] by simp
  then show ?thesis using add_transitive_ok [OF assms] by blast
qed

theorem add_transitive_conflict_correct_witness:
  "(\<exists>rs'. ra_add_transitive_reg_conflict example_regs 0 1 = Some rs' \<and> lists_ok rs') \<and>
   regs_wf (ra_make_reg_conflicts_transitive example_regs 1)"
  using add_transitive_conflict_correct [OF example_regs_ok(1,2), of 0 1] by (auto simp: example_regs_ok(4))

text \<open>C13. On a register set with conflict lists and classes without repeated registers,
  \<open>ra_set_finalize\<close> computes as \<open>q[b][c]\<close> the largest number of registers of class \<open>b\<close> that a register of
  class \<open>c\<close> conflicts with, and keeps conflicts and classes: \<open>p\<close> and \<open>q\<close> are what the completeness of allocation asks for.\<close>

theorem ra_set_finalize_correct:
  assumes "regs_wf rs" "lists_ok rs" "p_ok rs" "rs_count rs < 2 ^ 32"
  shows "\<exists>rs'. ra_set_finalize rs None = Some rs' \<and> regs_wf rs' \<and> classes_ok rs' \<and>
    (\<forall>r < rs_count rs. conflict rs' r = conflict rs r) \<and>
    (\<forall>b < length (rs_classes rs). class_regs rs' b = class_regs rs b) \<and>
    (\<forall>b < length (rs_classes rs). \<forall>c < length (rs_classes rs). unat (c_q (rs_classes rs' ! b) ! c) =
       Max (insert 0 ((\<lambda>r. card {s \<in> class_regs rs b. conflict rs r s}) ` class_regs rs c)))"
  using finalize_ok [OF assms] by blast

theorem ra_set_finalize_correct_witness:
  "\<exists>rs'. ra_set_finalize example_regs None = Some rs' \<and> classes_ok rs'"
  using ra_set_finalize_correct [OF example_regs_ok(1-3)] by (auto simp: example_regs_ok(4))

text \<open>C14. Adding an interference keeps the interference graph symmetric, without loops and with both
  representations in agreement, keeps the totals the sums of \<open>q\<close> over the neighbours, and adds exactly
  the edge between the two nodes.\<close>

theorem add_interference_correct:
  assumes "graph_built g" "n1 < nodes_count g" "n2 < nodes_count g"
  shows "graph_built (ra_add_node_interference g n1 n2) \<and>
    (\<forall>i < nodes_count g. set (adj (ra_add_node_interference g n1 n2) i) = set (adj g i) \<union>
       (if n1 \<noteq> n2 \<and> i = n1 then {n2} else {}) \<union> (if n1 \<noteq> n2 \<and> i = n2 then {n1} else {}))"
  using add_interference_built [OF assms] by simp

theorem add_interference_correct_witness:
  "graph_built (ra_add_node_interference
     (ra_alloc_interference_graph (g_regs example_graph) 5) 3 4)"
proof -
  have "regs_wf (g_regs example_graph)" using example_ready(1) by (simp add: graph_ready_def graph_wf_def)
  moreover have "rs_classes (g_regs example_graph) \<noteq> []" by (simp add: example_graph_eq)
  ultimately have "graph_built (ra_alloc_interference_graph (g_regs example_graph) 5)"
    by (rule alloc_graph_built)
  from add_interference_correct [OF this, of 3 4] show ?thesis
    by (simp add: ra_alloc_interference_graph_def)
qed

text \<open>An example: \<open>ra_make_reg_conflicts_transitive\<close> sets the bits of the new conflicts but not the conflict
  lists \<open>ra_set_finalize\<close> computes \<open>q\<close> from.  In the example registers 1 and 2 conflict, but \<open>q\<close> of their
  class stays 1: two interfering nodes both pass the \<open>pq\<close> test, none is pushed optimistically, and yet
  selection fails.\<close>

lemma transitive_conflicts_stale_q:
  "conflict stale_regs 1 2 \<and>
   c_q (rs_classes (the (ra_set_finalize stale_regs None)) ! 0) = [1] \<and>
   g_stack_optimistic_start (ra_simplify stale_graph) = UINT_MAX \<and> \<not> snd (ra_allocate None stale_graph)"
  by code_simp

end
