(* ===== verification/Blob.thy ===== *)
theory Blob
  imports Prelude
begin

text \<open>
  The serializer of src/src/compiler/blob.c: a growing byte array with aligned little-endian writes
  and a reader that refuses to run past the end.  A data pointer is \<^term>\<open>None\<close> for NULL and the
  bytes of its allocation otherwise; positions of a reader are offsets from its data pointer.
  The allocator is an argument: \<open>realloc d n\<close> is the new block, \<^term>\<open>None\<close> when it fails.
\<close>

section \<open>Bytes of a machine integer\<close>

text \<open>\<open>memcpy\<close> from and to an integer object of \<open>n\<close> bytes on a little-endian host.\<close>

primrec bytes_le :: "nat \<Rightarrow> 'a::len word \<Rightarrow> u8 list" where
  "bytes_le 0 w = []"
| "bytes_le (Suc n) w = ucast w # bytes_le n (drop_bit 8 w)"

primrec word_le :: "u8 list \<Rightarrow> 'a::len word" where
  "word_le [] = 0"
| "word_le (b # bs) = ucast b OR push_bit 8 (word_le bs)"

lemma length_bytes_le [simp]: "length (bytes_le n w) = n"
  by (induction n arbitrary: w) simp_all

lemma word_le_bytes_le: "word_le (bytes_le n w) = take_bit (8 * n) w"
proof (induction n arbitrary: w)
  case 0
  show ?case by simp
next
  case (Suc n)
  have "ucast (ucast w :: u8) OR push_bit 8 (take_bit (8 * n) (drop_bit 8 w)) = take_bit (8 * Suc n) w"
    by (rule bit_word_eqI) (auto simp: bit_simps)
  then show ?case by (simp add: Suc.IH)
qed

lemma word_le_bytes_le_u32: "word_le (bytes_le 4 w) = (w :: u32)"
  by (simp add: word_le_bytes_le take_bit_word_eq_self)

lemma word_le_bytes_le_u64: "word_le (bytes_le 8 w) = (w :: u64)"
  by (simp add: word_le_bytes_le take_bit_word_eq_self)

section \<open>The blob\<close>

record blob =
  b_data :: "u8 list option"
  b_allocated :: u64
  b_size :: u64
  b_fixed_allocation :: bool
  b_out_of_memory :: bool

type_synonym allocator = "u8 list option \<Rightarrow> u64 \<Rightarrow> u8 list option"

definition BLOB_INITIAL_SIZE :: u64 where
  "BLOB_INITIAL_SIZE = 4096"

definition ALIGN :: "u64 \<Rightarrow> u32 \<Rightarrow> u64" where
  "ALIGN value alignment =
    (value + scast alignment - 1) AND NOT (scast (alignment - 1))"

definition memset :: "u8 list \<Rightarrow> nat \<Rightarrow> u8 \<Rightarrow> nat \<Rightarrow> u8 list" where
  "memset d off v n = take off d @ replicate n v @ drop (off + n) d"

definition memcpy :: "u8 list \<Rightarrow> nat \<Rightarrow> u8 list \<Rightarrow> u8 list" where
  "memcpy d off bs = take off d @ bs @ drop (off + length bs) d"

definition grow_to_fit :: "allocator \<Rightarrow> blob \<Rightarrow> u64 \<Rightarrow> blob \<times> bool" where
  "grow_to_fit realloc b additional =
    (if b_out_of_memory b then (b, False)
     else if b_size b + additional \<le> b_allocated b then (b, True)
     else if b_fixed_allocation b then (b\<lparr>b_out_of_memory := True\<rparr>, False)
     else
       let to_allocate = if b_allocated b = 0 then BLOB_INITIAL_SIZE else b_allocated b * 2;
           to_allocate = max to_allocate (b_allocated b + additional)
       in (case realloc (b_data b) to_allocate of
             None \<Rightarrow> (b\<lparr>b_out_of_memory := True\<rparr>, False)
           | Some new_data \<Rightarrow> (b\<lparr>b_data := Some new_data, b_allocated := to_allocate\<rparr>, True)))"

definition align_blob :: "allocator \<Rightarrow> blob \<Rightarrow> u32 \<Rightarrow> blob \<times> bool" where
  "align_blob realloc b alignment =
    (let new_size = ALIGN (b_size b) alignment in
     if b_size b < new_size then
       (case grow_to_fit realloc b (new_size - b_size b) of
          (b, False) \<Rightarrow> (b, False)
        | (b, True) \<Rightarrow>
            (b\<lparr>b_data := map_option (\<lambda>d. memset d (unat (b_size b)) 0 (unat (new_size - b_size b)))
                           (b_data b),
               b_size := new_size\<rparr>, True))
     else (b, True))"

definition blob_init :: blob where
  "blob_init = \<lparr>b_data = None, b_allocated = 0, b_size = 0,
                b_fixed_allocation = False, b_out_of_memory = False\<rparr>"

definition blob_init_fixed :: "u8 list option \<Rightarrow> u64 \<Rightarrow> blob" where
  "blob_init_fixed data n = \<lparr>b_data = data, b_allocated = n, b_size = 0,
                b_fixed_allocation = True, b_out_of_memory = False\<rparr>"

text \<open>The bytes passed are the \<open>to_write\<close> bytes at the caller's pointer.\<close>

definition blob_overwrite_bytes :: "blob \<Rightarrow> u64 \<Rightarrow> u8 list \<Rightarrow> blob \<times> bool" where
  "blob_overwrite_bytes b offset bytes =
    (let to_write = of_nat (length bytes) in
     if offset + to_write < offset \<or> b_size b < offset + to_write then (b, False)
     else (b\<lparr>b_data := map_option (\<lambda>d. memcpy d (unat offset) bytes) (b_data b)\<rparr>, True))"

definition blob_write_bytes :: "allocator \<Rightarrow> blob \<Rightarrow> u8 list \<Rightarrow> blob \<times> bool" where
  "blob_write_bytes realloc b bytes =
    (case grow_to_fit realloc b (of_nat (length bytes)) of
       (b, False) \<Rightarrow> (b, False)
     | (b, True) \<Rightarrow>
         (b\<lparr>b_data := map_option (\<lambda>d. memcpy d (unat (b_size b)) bytes) (b_data b),
            b_size := b_size b + of_nat (length bytes)\<rparr>, True))"

definition blob_reserve_bytes :: "allocator \<Rightarrow> blob \<Rightarrow> u64 \<Rightarrow> blob \<times> u64" where
  "blob_reserve_bytes realloc b to_write =
    (case grow_to_fit realloc b to_write of
       (b, False) \<Rightarrow> (b, -1)
     | (b, True) \<Rightarrow> (b\<lparr>b_size := b_size b + to_write\<rparr>, b_size b))"

definition blob_reserve_uint32 :: "allocator \<Rightarrow> blob \<Rightarrow> blob \<times> u64" where
  "blob_reserve_uint32 realloc b = blob_reserve_bytes realloc (fst (align_blob realloc b 4)) 4"

definition blob_reserve_intptr :: "allocator \<Rightarrow> blob \<Rightarrow> blob \<times> u64" where
  "blob_reserve_intptr realloc b = blob_reserve_bytes realloc (fst (align_blob realloc b 8)) 8"

definition blob_write_uint32 :: "allocator \<Rightarrow> blob \<Rightarrow> u32 \<Rightarrow> blob \<times> bool" where
  "blob_write_uint32 realloc b v =
    blob_write_bytes realloc (fst (align_blob realloc b 4)) (bytes_le 4 v)"

definition blob_overwrite_uint32 :: "blob \<Rightarrow> u64 \<Rightarrow> u32 \<Rightarrow> blob \<times> bool" where
  "blob_overwrite_uint32 b offset v = blob_overwrite_bytes b offset (bytes_le 4 v)"

definition blob_write_uint64 :: "allocator \<Rightarrow> blob \<Rightarrow> u64 \<Rightarrow> blob \<times> bool" where
  "blob_write_uint64 realloc b v =
    blob_write_bytes realloc (fst (align_blob realloc b 8)) (bytes_le 8 v)"

definition blob_write_intptr :: "allocator \<Rightarrow> blob \<Rightarrow> u64 \<Rightarrow> blob \<times> bool" where
  "blob_write_intptr realloc b v =
    blob_write_bytes realloc (fst (align_blob realloc b 8)) (bytes_le 8 v)"

definition blob_overwrite_intptr :: "blob \<Rightarrow> u64 \<Rightarrow> u64 \<Rightarrow> blob \<times> bool" where
  "blob_overwrite_intptr b offset v = blob_overwrite_bytes b offset (bytes_le 8 v)"

text \<open>A C string is the list of its characters, the terminator left out.\<close>

definition blob_write_string :: "allocator \<Rightarrow> blob \<Rightarrow> u8 list \<Rightarrow> blob \<times> bool" where
  "blob_write_string realloc b str = blob_write_bytes realloc b (str @ [0])"

section \<open>The reader\<close>

record blob_reader =
  br_data :: "u8 list"
  br_end :: u64
  br_current :: u64
  br_overrun :: bool

definition blob_reader_init :: "u8 list \<Rightarrow> u64 \<Rightarrow> blob_reader" where
  "blob_reader_init data n =
    \<lparr>br_data = data, br_end = n, br_current = 0, br_overrun = False\<rparr>"

definition align_blob_reader :: "blob_reader \<Rightarrow> u32 \<Rightarrow> blob_reader" where
  "align_blob_reader r alignment = r\<lparr>br_current := ALIGN (br_current r) alignment\<rparr>"

definition ensure_can_read :: "blob_reader \<Rightarrow> u64 \<Rightarrow> blob_reader \<times> bool" where
  "ensure_can_read r n =
    (if br_overrun r then (r, False)
     else if br_current r \<le> br_end r \<and> n \<le> br_end r - br_current r then (r, True)
     else (r\<lparr>br_overrun := True\<rparr>, False))"

text \<open>The pointer returned is an offset into the data, \<^term>\<open>None\<close> for NULL.\<close>

definition blob_read_bytes :: "blob_reader \<Rightarrow> u64 \<Rightarrow> u64 option \<times> blob_reader" where
  "blob_read_bytes r n =
    (case ensure_can_read r n of
       (r, False) \<Rightarrow> (None, r)
     | (r, True) \<Rightarrow> (Some (br_current r), r\<lparr>br_current := br_current r + n\<rparr>))"

definition bytes_at :: "blob_reader \<Rightarrow> u64 \<Rightarrow> nat \<Rightarrow> u8 list" where
  "bytes_at r off n = take n (drop (unat off) (br_data r))"

definition blob_copy_bytes :: "blob_reader \<Rightarrow> u8 list \<Rightarrow> u64 \<Rightarrow> u8 list \<times> blob_reader" where
  "blob_copy_bytes r dest n =
    (case blob_read_bytes r n of
       (None, r') \<Rightarrow> (dest, r')
     | (Some off, r') \<Rightarrow> (memcpy dest 0 (bytes_at r off (unat n)), r'))"

definition blob_read_uint32 :: "blob_reader \<Rightarrow> u32 \<times> blob_reader" where
  "blob_read_uint32 r =
    (case ensure_can_read (align_blob_reader r 4) 4 of
       (r, False) \<Rightarrow> (0, r)
     | (r, True) \<Rightarrow> (word_le (bytes_at r (br_current r) 4), r\<lparr>br_current := br_current r + 4\<rparr>))"

definition blob_read_uint64 :: "blob_reader \<Rightarrow> u64 \<times> blob_reader" where
  "blob_read_uint64 r =
    (case ensure_can_read (align_blob_reader r 8) 8 of
       (r, False) \<Rightarrow> (0, r)
     | (r, True) \<Rightarrow> (word_le (bytes_at r (br_current r) 8), r\<lparr>br_current := br_current r + 8\<rparr>))"

definition blob_read_intptr :: "blob_reader \<Rightarrow> u64 \<times> blob_reader" where
  "blob_read_intptr r =
    (case ensure_can_read (align_blob_reader r 8) 8 of
       (r, False) \<Rightarrow> (0, r)
     | (r, True) \<Rightarrow> (word_le (bytes_at r (br_current r) 8), r\<lparr>br_current := br_current r + 8\<rparr>))"

text \<open>
  \<open>memchr\<close> for a zero byte among the \<open>n\<close> bytes from an offset; the position of the first one.
  The \<open>size\<close> of \<open>blob_read_string\<close> is an \<open>int\<close>, and its \<open>assert\<close>, with the call inside it, is not
  part of a release build.
\<close>

definition memchr0 :: "u8 list \<Rightarrow> u64 \<Rightarrow> u64 \<Rightarrow> u64 option" where
  "memchr0 d off n =
    (let s = takeWhile (\<lambda>c. c \<noteq> 0) (take (unat n) (drop (unat off) d)) in
     if length s < min (unat n) (length d - unat off) then Some (off + of_nat (length s)) else None)"

definition blob_read_string :: "blob_reader \<Rightarrow> u64 option \<times> blob_reader" where
  "blob_read_string r =
    (if br_end r \<le> br_current r then (None, r\<lparr>br_overrun := True\<rparr>)
     else
       (case memchr0 (br_data r) (br_current r) (br_end r - br_current r) of
          None \<Rightarrow> (None, r\<lparr>br_overrun := True\<rparr>)
        | Some nul \<Rightarrow>
            let n = (ucast (nul - br_current r + 1) :: u32) in
            (Some (br_current r), r\<lparr>br_current := br_current r + scast n\<rparr>)))"

section \<open>Alignment\<close>

definition align_nat :: "nat \<Rightarrow> nat \<Rightarrow> nat" where
  "align_nat n a = (n + a - 1) div a * a"

lemma align_nat_eq: "align_nat n a + (n + a - 1) mod a = n + a - 1"
  unfolding align_nat_def by (rule div_mult_mod_eq)

lemma align_nat_ge: "0 < a \<Longrightarrow> n \<le> align_nat n a"
  using align_nat_eq [of n a] mod_less_divisor [of a "n + a - 1"] by linarith

lemma align_nat_less: "0 < a \<Longrightarrow> align_nat n a < n + a"
  using align_nat_eq [of n a] by linarith

lemma align_nat_id: "0 < a \<Longrightarrow> a dvd n \<Longrightarrow> align_nat n a = n"
  using div_mult_self3 [of a "n div a" "a - 1"] unfolding align_nat_def by (auto elim!: dvdE)

lemma align_nat_dvd: "a dvd align_nat n a"
  unfolding align_nat_def by simp

lemma unat_mask_aligned:
  "unat (w AND NOT (mask k)) = unat (w :: u64) div 2 ^ k * 2 ^ k"
proof -
  have "unat (w AND NOT (mask k)) = push_bit k (drop_bit k (unat w))"
    by (rule bit_eqI) (auto simp: bit_simps bit_unsigned_iff not_le dest: bit_imp_le_length)
  then show ?thesis
    by (simp add: drop_bit_eq_div push_bit_eq_mult)
qed

lemma unat_ALIGN4:
  assumes "unat v + 3 < 2 ^ 64"
  shows "unat (ALIGN v 4) = align_nat (unat v) 4"
proof -
  have "ALIGN v 4 = (v + 3) AND NOT (mask 2)"
    unfolding ALIGN_def by (simp add: mask_eq_exp_minus_1 add.commute)
  then have "unat (ALIGN v 4) = unat (v + 3) div 2 ^ 2 * 2 ^ 2"
    by (simp only: unat_mask_aligned)
  then show ?thesis
    using assms unat_add_less [of v 3] by (simp add: align_nat_def)
qed

lemma unat_ALIGN8:
  assumes "unat v + 7 < 2 ^ 64"
  shows "unat (ALIGN v 8) = align_nat (unat v) 8"
proof -
  have "ALIGN v 8 = (v + 7) AND NOT (mask 3)"
    unfolding ALIGN_def by (simp add: mask_eq_exp_minus_1 add.commute)
  then have "unat (ALIGN v 8) = unat (v + 7) div 2 ^ 3 * 2 ^ 3"
    by (simp only: unat_mask_aligned)
  then show ?thesis
    using assms unat_add_less [of v 7] by (simp add: align_nat_def)
qed

section \<open>The contract of the allocator and the invariant\<close>

text \<open>
  \<open>realloc\<close> returns a block of the size asked for that starts with the bytes of the old one, and it
  fails for sizes over \<open>PTRDIFF_MAX\<close>.
\<close>

definition realloc_ok :: "allocator \<Rightarrow> bool" where
  "realloc_ok realloc \<longleftrightarrow>
    (\<forall>d n d'. realloc d n = Some d' \<longrightarrow>
       unat n < 2 ^ 63 \<and> length d' = unat n \<and>
       (\<forall>old. d = Some old \<longrightarrow> take (length old) d' = take (unat n) old))"

definition blob_wf :: "blob \<Rightarrow> bool" where
  "blob_wf b \<longleftrightarrow>
     b_size b \<le> b_allocated b
   \<and> (\<forall>d. b_data b = Some d \<longrightarrow> length d = unat (b_allocated b))
   \<and> (\<not> b_fixed_allocation b \<longrightarrow> unat (b_allocated b) < 2 ^ 63 \<and> (b_data b = None \<longrightarrow> b_allocated b = 0))"

definition blob_contents :: "blob \<Rightarrow> u8 list" where
  "blob_contents b = (case b_data b of None \<Rightarrow> [] | Some d \<Rightarrow> take (unat (b_size b)) d)"

text \<open>
  A blob holds a byte string: it has that size, and its data starts with it.  A fixed blob with a
  NULL pointer, which only measures, holds every string of its size.
\<close>

definition holds :: "blob \<Rightarrow> u8 list \<Rightarrow> bool" where
  "holds b xs \<longleftrightarrow> blob_wf b \<and> unat (b_size b) = length xs
     \<and> (b_data b \<noteq> None \<or> \<not> b_fixed_allocation b \<longrightarrow> blob_contents b = xs)"

text \<open>What an appending operation does: all of the bytes, or a proper prefix and out of memory.\<close>

definition appended :: "blob \<Rightarrow> u8 list \<Rightarrow> u8 list \<Rightarrow> blob \<Rightarrow> bool" where
  "appended b xs bs b' \<longleftrightarrow>
     b_fixed_allocation b' = b_fixed_allocation b
   \<and> (b_fixed_allocation b \<longrightarrow>
        b_allocated b' = b_allocated b \<and> (b_data b' = None \<longleftrightarrow> b_data b = None))
   \<and> (b_out_of_memory b \<longrightarrow> b_out_of_memory b' \<and> holds b' xs)
   \<and> (b_out_of_memory b' \<longrightarrow> b_out_of_memory b \<or>
        (\<exists>k < length bs. holds b' (xs @ take k bs)) \<and>
        (b_fixed_allocation b \<longrightarrow> unat (b_allocated b) < length xs + length bs))
   \<and> (\<not> b_out_of_memory b' \<longrightarrow> holds b' (xs @ bs))"

lemma holds_wf: "holds b xs \<Longrightarrow> blob_wf b"
  by (simp add: holds_def)

lemma holds_size: "holds b xs \<Longrightarrow> unat (b_size b) = length xs"
  by (simp add: holds_def)

lemma holds_take: "holds b xs \<Longrightarrow> b_data b = Some d \<Longrightarrow> take (length xs) d = xs"
  unfolding holds_def blob_contents_def by (metis option.simps(5) option.distinct(1))

lemma holds_oom [simp]: "holds (b\<lparr>b_out_of_memory := v\<rparr>) xs \<longleftrightarrow> holds b xs"
  by (cases "b_data b") (simp_all add: holds_def blob_wf_def blob_contents_def)

lemma appended_refl: "holds b xs \<Longrightarrow> appended b xs [] b"
  by (simp add: appended_def)

lemma appended_trans:
  assumes "appended b xs bs b1" "holds b1 (xs @ bs) \<Longrightarrow> appended b1 (xs @ bs) cs b2"
    and "\<And>ys. b_out_of_memory b1 \<Longrightarrow> holds b1 ys \<Longrightarrow> b2 = b1"
  shows "appended b xs (bs @ cs) b2"
proof (cases "b_out_of_memory b1")
  case True
  then have b2: "b2 = b1"
    using assms(1,3) unfolding appended_def by blast
  show ?thesis
  proof (cases "b_out_of_memory b")
    case True
    then show ?thesis using assms(1) unfolding b2 appended_def by simp
  next
    case False
    then obtain k where "k < length bs" "holds b1 (xs @ take k bs)"
      using assms(1) True unfolding appended_def by blast
    then have "k < length (bs @ cs) \<and> holds b1 (xs @ take k (bs @ cs))" by simp
    then show ?thesis
      using assms(1) True False unfolding b2 appended_def
      by (metis length_append trans_less_add1 add.assoc)
  qed
next
  case False
  then have oom: "\<not> b_out_of_memory b" and h: "holds b1 (xs @ bs)"
    using assms(1) unfolding appended_def by blast+
  have a: "appended b1 (xs @ bs) cs b2" by (rule assms(2) [OF h])
  have "\<exists>k < length (bs @ cs). holds b2 (xs @ take k (bs @ cs))" if "b_out_of_memory b2"
  proof -
    from a that False obtain k where "k < length cs" "holds b2 ((xs @ bs) @ take k cs)"
      unfolding appended_def by blast
    then show ?thesis by (intro exI [of _ "length bs + k"]) simp
  qed
  then show ?thesis
    using a assms(1) oom False unfolding appended_def by (simp add: add.assoc) 
qed

section \<open>Growing\<close>

lemma grow_to_fit_result:
  assumes re: "realloc_ok realloc" and h: "holds b xs" and n: "length xs + unat n < 2 ^ 63"
    and g: "grow_to_fit realloc b n = (b', ok)"
  shows "holds b' xs \<and> (b_size b' = b_size b) \<and> (ok \<longleftrightarrow> \<not> b_out_of_memory b')
       \<and> (ok \<longrightarrow> length xs + unat n \<le> unat (b_allocated b'))
       \<and> (b_out_of_memory b \<longrightarrow> b' = b) 
       \<and> (b_out_of_memory b' \<and> \<not> b_out_of_memory b \<longrightarrow> unat n \<noteq> 0 \<and>
            (b_fixed_allocation b \<longrightarrow> unat (b_allocated b) < length xs + unat n))
       \<and> b_fixed_allocation b' = b_fixed_allocation b
       \<and> (b_fixed_allocation b \<longrightarrow> b_data b' = b_data b \<and> b_allocated b' = b_allocated b)"
proof -
  have sz: "unat (b_size b) = length xs" and wf: "blob_wf b" using h by (simp_all add: holds_def)
  have sn: "unat (b_size b + n) = length xs + unat n"
    using n sz by (subst unat_add_less) simp_all
  have fits: "b_size b + n \<le> b_allocated b \<longleftrightarrow> length xs + unat n \<le> unat (b_allocated b)"
    by (simp add: word_le_nat_alt sn)
  consider (oom) "b_out_of_memory b" | (fits) "\<not> b_out_of_memory b" "b_size b + n \<le> b_allocated b"
    | (fixed) "\<not> b_out_of_memory b" "\<not> b_size b + n \<le> b_allocated b" "b_fixed_allocation b"
    | (grow) "\<not> b_out_of_memory b" "\<not> b_size b + n \<le> b_allocated b" "\<not> b_fixed_allocation b"
    by blast
  then show ?thesis
  proof cases
    case oom
    then show ?thesis using g h by (auto simp: grow_to_fit_def)
  next
    case fits
    then show ?thesis using g h \<open>b_size b + n \<le> b_allocated b \<longleftrightarrow> _\<close> by (auto simp: grow_to_fit_def)
  next
    case fixed
    have "n \<noteq> 0" using fixed(2) wf by (auto simp: blob_wf_def)
    then show ?thesis
      using fixed g h fits by (auto simp: grow_to_fit_def unat_eq_zero)
  next
    case grow
    define m where "m = max (if b_allocated b = 0 then BLOB_INITIAL_SIZE else b_allocated b * 2)
                            (b_allocated b + n)"
    have al: "unat (b_allocated b) < 2 ^ 63" and le: "length xs \<le> unat (b_allocated b)"
      using wf grow sz by (auto simp: blob_wf_def word_le_nat_alt)
    have an: "unat (b_allocated b + n) = unat (b_allocated b) + unat n"
      using al n by (subst unat_add_less) simp_all
    have "b_allocated b + n \<le> m" unfolding m_def by simp
    then have am: "unat (b_allocated b) + unat n \<le> unat m"
      by (simp add: word_le_nat_alt an)
    have n0: "n \<noteq> 0" using grow(2) wf by (auto simp: blob_wf_def)
    show ?thesis
    proof (cases "realloc (b_data b) m")
      case None
      then show ?thesis
        using grow g h n0 by (auto simp: grow_to_fit_def m_def [symmetric] Let_def unat_eq_zero)
    next
      case (Some d')
      then have m: "unat m < 2 ^ 63" "length d' = unat m"
        and pre: "\<And>old. b_data b = Some old \<Longrightarrow> take (length old) d' = take (unat m) old"
        using re unfolding realloc_ok_def by blast+
      have b': "b' = b\<lparr>b_data := Some d', b_allocated := m\<rparr>" and ok
        using grow g Some by (auto simp: grow_to_fit_def m_def [symmetric] Let_def)
      have "take (length xs) d' = xs"
      proof (cases "b_data b")
        case None
        then show ?thesis using wf grow le by (simp add: blob_wf_def)
      next
        case old: (Some old)
        have lo: "length old = unat (b_allocated b)" using wf old by (simp add: blob_wf_def)
        have "take (length xs) d' = take (length xs) (take (length old) d')" using le lo by simp
        also have "\<dots> = take (length xs) old" using pre [OF old] le am by simp
        also have "\<dots> = xs" using h old by (rule holds_take)
        finally show ?thesis .
      qed
      moreover have "b_size b \<le> m" using le am sz by (simp add: word_le_nat_alt)
      ultimately have "holds b' xs"
        using m sz grow by (auto simp: b' holds_def blob_wf_def blob_contents_def)
      then show ?thesis using grow am le n0 \<open>ok\<close> by (simp add: b')
    qed
  qed
qed


section \<open>Writing\<close>

lemma length_memcpy: "off + length bs \<le> length d \<Longrightarrow> length (memcpy d off bs) = length d"
  by (simp add: memcpy_def)

lemma take_memcpy: "off + length bs \<le> length d \<Longrightarrow> take (off + length bs) (memcpy d off bs) = take off d @ bs"
  by (simp add: memcpy_def)

lemma memset_memcpy: "memset d off v n = memcpy d off (replicate n v)"
  by (simp add: memset_def memcpy_def)

text \<open>Copying to the end of the data, once it fits.\<close>

lemma holds_store:
  assumes h: "holds b xs" and fit: "length xs + length bs \<le> unat (b_allocated b)"
    and s: "unat s = length xs + length bs"
  shows "holds (b\<lparr>b_data := map_option (\<lambda>d. memcpy d (unat (b_size b)) bs) (b_data b), b_size := s\<rparr>) (xs @ bs)"
proof -
  have sz: "unat (b_size b) = length xs" and wf: "blob_wf b" using h by (simp_all add: holds_def)
  have le: "s \<le> b_allocated b" using fit s by (simp add: word_le_nat_alt)
  show ?thesis
  proof (cases "b_data b")
    case None
    then show ?thesis
      using wf h fit s le by (auto simp: holds_def blob_wf_def blob_contents_def)
  next
    case (Some d)
    then have ld: "length d = unat (b_allocated b)" using wf by (simp add: blob_wf_def)
    from h Some have "take (length xs) d = xs" by (rule holds_take)
    then show ?thesis
      using wf h fit s le Some ld
      by (auto simp: holds_def blob_wf_def blob_contents_def length_memcpy take_memcpy)
  qed
qed

lemma blob_write_bytes_result:
  assumes re: "realloc_ok realloc" and h: "holds b xs" and n: "length xs + length bs < 2 ^ 63"
    and w: "blob_write_bytes realloc b bs = (b', ok)"
  shows "appended b xs bs b' \<and> (ok \<longleftrightarrow> \<not> b_out_of_memory b') \<and> (b_out_of_memory b \<longrightarrow> b' = b)"
proof -
  have un: "unat (of_nat (length bs) :: u64) = length bs"
    using n by (intro unat_of_nat_less) simp
  obtain b1 ok1 where g: "grow_to_fit realloc b (of_nat (length bs)) = (b1, ok1)" by force
  note r = grow_to_fit_result [OF re h _ g, unfolded un, OF n]
  show ?thesis
  proof (cases ok1)
    case False
    then have "b' = b1" "\<not> ok" using w g by (auto simp: blob_write_bytes_def)
    then show ?thesis
      using r False unfolding appended_def
      by (cases "b_out_of_memory b") (auto intro!: exI [of _ 0])
  next
    case True
    define s where "s = b_size b1 + of_nat (length bs)"
    have "unat s = length xs + length bs"
      using r True holds_size [of b1 xs] n un unfolding s_def by (subst unat_add_less) auto
    then have "holds b' (xs @ bs)"
      using holds_store [of b1 xs bs s] r True w g unfolding s_def
      by (auto simp: blob_write_bytes_def)
    moreover have "b' = b1\<lparr>b_data := map_option (\<lambda>d. memcpy d (unat (b_size b1)) bs) (b_data b1), b_size := s\<rparr>" "ok"
      using w g True unfolding s_def by (auto simp: blob_write_bytes_def)
    ultimately show ?thesis
      using r True unfolding appended_def by auto
  qed
qed

text \<open>The zero bytes \<open>align_blob\<close> adds, and the padding the format has.\<close>

definition padding :: "nat \<Rightarrow> nat \<Rightarrow> u8 list" where
  "padding pos a = replicate (align_nat pos a - pos) 0"

lemma align_blob_result:
  assumes re: "realloc_ok realloc" and h: "holds b xs" 
    and a: "unat (ALIGN (b_size b) al) = align_nat (length xs) a" "0 < a"
    and n: "length xs + length (padding (length xs) a) < 2 ^ 63"
    and w: "align_blob realloc b al = (b', ok)"
  shows "appended b xs (padding (length xs) a) b' \<and> (b_out_of_memory b \<longrightarrow> b' = b)"
proof (cases "b_size b < ALIGN (b_size b) al")
  case False
  then have "align_nat (length xs) a \<le> length xs"
    using a holds_size [OF h] by (simp add: word_less_nat_alt)
  then show ?thesis
    using w False appended_refl [OF h] by (simp add: align_blob_def padding_def)
next
  case True
  define m where "m = ALIGN (b_size b) al - b_size b"
  have um: "unat m = length (padding (length xs) a)"
    using True a holds_size [OF h] unfolding m_def padding_def
    by (subst unat_sub) (auto simp: word_less_nat_alt word_le_nat_alt)
  obtain b1 ok1 where g: "grow_to_fit realloc b m = (b1, ok1)" by force
  note r = grow_to_fit_result [OF re h _ g, unfolded um, OF n]
  show ?thesis
  proof (cases ok1)
    case False
    then have "b' = b1" "\<not> ok" using w g True by (auto simp: align_blob_def m_def Let_def)
    then show ?thesis
      using r False unfolding appended_def
      by (cases "b_out_of_memory b") (auto intro!: exI [of _ 0])
  next
    case ok1: True
    have sz: "b_size b1 = b_size b" using r by simp
    have b': "b' = b1\<lparr>b_data := map_option (\<lambda>d. memcpy d (unat (b_size b1)) (padding (length xs) a)) (b_data b1),
                       b_size := ALIGN (b_size b) al\<rparr>"
      using w g True ok1 um sz
      by (auto simp: align_blob_def m_def Let_def memset_memcpy padding_def)
    have "unat (ALIGN (b_size b) al) = length xs + length (padding (length xs) a)"
      using a align_nat_ge [of a "length xs"] by (simp add: padding_def)
    then have "holds b' (xs @ padding (length xs) a)"
      using holds_store [of b1 xs "padding (length xs) a"] r ok1 unfolding b' by simp
    then show ?thesis
      using r ok1 unfolding b' appended_def by auto
  qed
qed

section \<open>A format of items\<close>

text \<open>What a sequence of writes puts in a blob, written down without the blob.\<close>

datatype item = Bytes "u8 list" | U32 u32 | U64 u64 | Intptr u64 | Str "u8 list"

primrec encode :: "nat \<Rightarrow> item \<Rightarrow> u8 list" where
  "encode pos (Bytes bs) = bs"
| "encode pos (U32 v) = padding pos 4 @ bytes_le 4 v"
| "encode pos (U64 v) = padding pos 8 @ bytes_le 8 v"
| "encode pos (Intptr v) = padding pos 8 @ bytes_le 8 v"
| "encode pos (Str s) = s @ [0]"

primrec encode_all :: "nat \<Rightarrow> item list \<Rightarrow> u8 list" where
  "encode_all pos [] = []"
| "encode_all pos (x # xs) = (let bs = encode pos x in bs @ encode_all (pos + length bs) xs)"

primrec write_item :: "allocator \<Rightarrow> blob \<Rightarrow> item \<Rightarrow> blob \<times> bool" where
  "write_item realloc b (Bytes bs) = blob_write_bytes realloc b bs"
| "write_item realloc b (U32 v) = blob_write_uint32 realloc b v"
| "write_item realloc b (U64 v) = blob_write_uint64 realloc b v"
| "write_item realloc b (Intptr v) = blob_write_intptr realloc b v"
| "write_item realloc b (Str s) = blob_write_string realloc b s"

definition write_items :: "allocator \<Rightarrow> blob \<Rightarrow> item list \<Rightarrow> blob" where
  "write_items realloc b items = foldl (\<lambda>b it. fst (write_item realloc b it)) b items"

lemma aligned_write_result:
  assumes re: "realloc_ok realloc" and h: "holds b xs"
    and a: "unat (ALIGN (b_size b) al) = align_nat (length xs) a" "0 < a"
    and n: "length xs + length (padding (length xs) a @ bs) < 2 ^ 63"
    and w: "blob_write_bytes realloc (fst (align_blob realloc b al)) bs = (b', ok)"
  shows "appended b xs (padding (length xs) a @ bs) b' \<and> (ok \<longleftrightarrow> \<not> b_out_of_memory b')
       \<and> (b_out_of_memory b \<longrightarrow> b' = b)"
proof -
  obtain b1 ok1 where w1: "align_blob realloc b al = (b1, ok1)" by force
  have r1: "appended b xs (padding (length xs) a) b1 \<and> (b_out_of_memory b \<longrightarrow> b1 = b)"
    using n by (intro align_blob_result [OF re h a _ w1]) simp
  have w2: "blob_write_bytes realloc b1 bs = (b', ok)" using w w1 by simp
  have oom: "b_out_of_memory b1 \<Longrightarrow> b' = b1 \<and> \<not> ok"
    using w2 by (auto simp: blob_write_bytes_def grow_to_fit_def)
  have r2: "holds b1 (xs @ padding (length xs) a) \<Longrightarrow>
      appended b1 (xs @ padding (length xs) a) bs b' \<and> (ok \<longleftrightarrow> \<not> b_out_of_memory b')"
    using blob_write_bytes_result [OF re _ _ w2] n by (simp add: add.assoc)
  have "appended b xs (padding (length xs) a @ bs) b'"
    using r1 r2 oom by (intro appended_trans [of b xs _ b1]) auto
  moreover have "ok \<longleftrightarrow> \<not> b_out_of_memory b'"
    using r1 r2 oom unfolding appended_def by (cases "b_out_of_memory b1") auto
  ultimately show ?thesis using r1 oom by auto
qed

lemma write_item_result:
  assumes re: "realloc_ok realloc" and h: "holds b xs"
    and n: "length xs + length (encode (length xs) it) < 2 ^ 63"
    and w: "write_item realloc b it = (b', ok)"
  shows "appended b xs (encode (length xs) it) b' \<and> (ok \<longleftrightarrow> \<not> b_out_of_memory b')
       \<and> (b_out_of_memory b \<longrightarrow> b' = b)"
proof -
  have a4: "unat (ALIGN (b_size b) 4) = align_nat (length xs) 4"
   and a8: "unat (ALIGN (b_size b) 8) = align_nat (length xs) 8"
    using holds_size [OF h] n by (simp_all add: unat_ALIGN4 unat_ALIGN8)
  show ?thesis
  proof (cases it)
    case (Bytes bs)
    then show ?thesis using blob_write_bytes_result [OF re h, of bs] n w by simp
  next
    case (U32 v)
    then show ?thesis
      using aligned_write_result [OF re h a4, of "bytes_le 4 v"] n w
      by (simp add: blob_write_uint32_def)
  next
    case (U64 v)
    then show ?thesis
      using aligned_write_result [OF re h a8, of "bytes_le 8 v"] n w
      by (simp add: blob_write_uint64_def)
  next
    case (Intptr v)
    then show ?thesis
      using aligned_write_result [OF re h a8, of "bytes_le 8 v"] n w
      by (simp add: blob_write_intptr_def)
  next
    case (Str s)
    then show ?thesis
      using blob_write_bytes_result [OF re h, of "s @ [0]"] n w by (simp add: blob_write_string_def)
  qed
qed

lemma write_items_oom: "b_out_of_memory b \<Longrightarrow> write_items realloc b items = b"
proof (induction items)
  case Nil
  then show ?case by (simp add: write_items_def)
next
  case (Cons it items)
  have "fst (write_item realloc b it) = b"
    using Cons.prems
    by (cases it) (auto simp: blob_write_uint32_def blob_write_uint64_def blob_write_intptr_def
        blob_write_string_def blob_write_bytes_def align_blob_def grow_to_fit_def Let_def)
  then show ?case using Cons by (simp add: write_items_def)
qed

lemma write_items_Cons:
  "write_items realloc b (it # items) = write_items realloc (fst (write_item realloc b it)) items"
  by (simp add: write_items_def)

lemma write_items_result:
  assumes "realloc_ok realloc" "holds b xs" "length xs + length (encode_all (length xs) items) < 2 ^ 63"
  shows "appended b xs (encode_all (length xs) items) (write_items realloc b items)"
  using assms(2,3)
proof (induction items arbitrary: b xs)
  case Nil
  then show ?case by (simp add: write_items_def appended_refl)
next
  case (Cons it items)
  obtain b1 ok where w: "write_item realloc b it = (b1, ok)" by force
  have "appended b xs (encode (length xs) it) b1"
    using write_item_result [OF assms(1) Cons.prems(1) _ w] Cons.prems(2) by (simp add: Let_def)
  then have "appended b xs (encode (length xs) it @ encode_all (length (xs @ encode (length xs) it)) items)
      (write_items realloc b1 items)"
    using Cons.prems(2)
    by (intro appended_trans [of b xs _ b1] Cons.IH write_items_oom) (simp_all add: Let_def add.assoc)
  then show ?case by (simp add: write_items_Cons w Let_def)
qed

lemma holds_init: "holds blob_init []"
  by (simp add: holds_def blob_init_def blob_wf_def blob_contents_def)

lemma holds_init_fixed:
  "(\<And>d. data = Some d \<Longrightarrow> length d = unat n) \<Longrightarrow> holds (blob_init_fixed data n) []"
  by (cases data) (auto simp: holds_def blob_init_fixed_def blob_wf_def blob_contents_def)

section \<open>Reading\<close>

datatype kind = KBytes nat | KU32 | KU64 | KIntptr | KStr

primrec kind_of :: "item \<Rightarrow> kind" where
  "kind_of (Bytes bs) = KBytes (length bs)"
| "kind_of (U32 v) = KU32"
| "kind_of (U64 v) = KU64"
| "kind_of (Intptr v) = KIntptr"
| "kind_of (Str s) = KStr"

definition c_string :: "u8 list \<Rightarrow> u64 \<Rightarrow> u8 list" where
  "c_string d off = takeWhile (\<lambda>c. c \<noteq> 0) (drop (unat off) d)"

primrec read_item :: "blob_reader \<Rightarrow> kind \<Rightarrow> item \<times> blob_reader" where
  "read_item r (KBytes n) =
     (let (bs, r) = blob_copy_bytes r (replicate n 0) (of_nat n) in (Bytes bs, r))"
| "read_item r KU32 = (let (v, r) = blob_read_uint32 r in (U32 v, r))"
| "read_item r KU64 = (let (v, r) = blob_read_uint64 r in (U64 v, r))"
| "read_item r KIntptr = (let (v, r) = blob_read_intptr r in (Intptr v, r))"
| "read_item r KStr =
     (let (p, r) = blob_read_string r in
      (Str (case p of None \<Rightarrow> [] | Some off \<Rightarrow> c_string (br_data r) off), r))"

fun read_items :: "blob_reader \<Rightarrow> kind list \<Rightarrow> item list \<times> blob_reader" where
  "read_items r [] = ([], r)"
| "read_items r (k # ks) =
     (let (it, r) = read_item r k; (its, r) = read_items r ks in (it # its, r))"

text \<open>Strings without a zero byte, shorter than the \<open>int\<close> of the reader can count.\<close>

primrec item_ok :: "item \<Rightarrow> bool" where
  "item_ok (Bytes bs) = True"
| "item_ok (U32 v) = True"
| "item_ok (U64 v) = True"
| "item_ok (Intptr v) = True"
| "item_ok (Str s) = (0 \<notin> set s \<and> length s < 2 ^ 31 - 1)"

definition reader_at :: "blob_reader \<Rightarrow> u8 list \<Rightarrow> u8 list \<Rightarrow> bool" where
  "reader_at r xs ys \<longleftrightarrow> br_data r = xs @ ys \<and> unat (br_current r) = length xs
     \<and> unat (br_end r) = length xs + length ys \<and> \<not> br_overrun r"

lemma unat_less_u64: "unat (w :: u64) < 2 ^ 64"
  using unsigned_less [of w] by simp

lemma int_of_size:
  assumes "k < 2 ^ 31"
  shows "scast (ucast (of_nat k :: u64) :: u32) = (of_nat k :: u64)"
proof -
  have "(ucast (of_nat k :: u64) :: u32) = of_nat k"
    using assms by (simp add: unsigned_of_nat take_bit_nat_eq_self)
  moreover have "signed_take_bit 31 (int k) = int k"
    using assms by (intro signed_take_bit_int_eq_self) simp_all
  ultimately show ?thesis by (simp add: signed_of_nat)
qed

lemma reader_at_ensure:
  assumes "reader_at r xs (bs @ ys)" "unat n \<le> length bs"
  shows "ensure_can_read r n = (r, True)"
proof -
  have le: "br_current r \<le> br_end r" using assms by (simp add: reader_at_def word_le_nat_alt)
  then have "unat (br_end r - br_current r) = length bs + length ys"
    using assms by (simp add: reader_at_def unat_sub)
  then have "n \<le> br_end r - br_current r" using assms(2) by (simp add: word_le_nat_alt)
  then show ?thesis using le assms by (simp add: ensure_can_read_def reader_at_def)
qed

lemma reader_at_bytes: "reader_at r xs (bs @ ys) \<Longrightarrow> bytes_at r (br_current r) (length bs) = bs"
  by (simp add: reader_at_def bytes_at_def)

lemma reader_at_advance:
  assumes "reader_at r xs (bs @ ys)" "unat n = length bs"
  shows "reader_at (r\<lparr>br_current := br_current r + n\<rparr>) (xs @ bs) ys"
proof -
  have "unat (br_end r) < 2 ^ 64" by (rule unat_less_u64)
  then have "length xs + length bs < 2 ^ 64" using assms by (simp add: reader_at_def)
  then have "unat (br_current r + n) = length xs + length bs"
    using assms by (subst unat_add_less) (simp_all add: reader_at_def)
  then show ?thesis using assms by (simp add: reader_at_def)
qed

lemma reader_at_align:
  assumes "reader_at r xs (padding (length xs) a @ ys)" "0 < a"
    and "unat (ALIGN (br_current r) al) = align_nat (unat (br_current r)) a"
  shows "reader_at (align_blob_reader r al) (xs @ padding (length xs) a) ys"
  using assms align_nat_ge [of a "length xs"]
  by (auto simp: reader_at_def align_blob_reader_def padding_def)

lemma reader_at_align4:
  "reader_at r xs (padding (length xs) 4 @ ys) \<Longrightarrow> length xs + 3 < 2 ^ 64 \<Longrightarrow>
   reader_at (align_blob_reader r 4) (xs @ padding (length xs) 4) ys"
  by (rule reader_at_align) (simp_all add: reader_at_def unat_ALIGN4)

lemma reader_at_align8:
  "reader_at r xs (padding (length xs) 8 @ ys) \<Longrightarrow> length xs + 7 < 2 ^ 64 \<Longrightarrow>
   reader_at (align_blob_reader r 8) (xs @ padding (length xs) 8) ys"
  by (rule reader_at_align) (simp_all add: reader_at_def unat_ALIGN8)

lemma read_uint32_at:
  assumes "reader_at r xs ((padding (length xs) 4 @ bytes_le 4 v) @ ys)" "length xs + 3 < 2 ^ 64"
  shows "\<exists>r'. blob_read_uint32 r = (v, r') \<and> reader_at r' (xs @ padding (length xs) 4 @ bytes_le 4 v) ys"
proof -
  let ?r = "align_blob_reader r 4"
  have r: "reader_at ?r (xs @ padding (length xs) 4) (bytes_le 4 v @ ys)"
    using assms by (intro reader_at_align4) simp_all
  have "ensure_can_read ?r 4 = (?r, True)" by (rule reader_at_ensure [OF r]) simp
  moreover have "bytes_at ?r (br_current ?r) 4 = bytes_le 4 v" using reader_at_bytes [OF r] by simp
  ultimately show ?thesis
    using reader_at_advance [OF r, of 4] by (simp add: blob_read_uint32_def word_le_bytes_le_u32)
qed

lemma read_uint64_at:
  assumes "reader_at r xs ((padding (length xs) 8 @ bytes_le 8 v) @ ys)" "length xs + 7 < 2 ^ 64"
  shows "\<exists>r'. blob_read_uint64 r = (v, r') \<and> reader_at r' (xs @ padding (length xs) 8 @ bytes_le 8 v) ys"
proof -
  let ?r = "align_blob_reader r 8"
  have r: "reader_at ?r (xs @ padding (length xs) 8) (bytes_le 8 v @ ys)"
    using assms by (intro reader_at_align8) simp_all
  have "ensure_can_read ?r 8 = (?r, True)" by (rule reader_at_ensure [OF r]) simp
  moreover have "bytes_at ?r (br_current ?r) 8 = bytes_le 8 v" using reader_at_bytes [OF r] by simp
  ultimately show ?thesis
    using reader_at_advance [OF r, of 8] by (simp add: blob_read_uint64_def word_le_bytes_le_u64)
qed

lemma read_intptr_eq: "blob_read_intptr r = blob_read_uint64 r"
  by (simp add: blob_read_intptr_def blob_read_uint64_def)

lemma takeWhile_string: "0 \<notin> set s \<Longrightarrow> takeWhile (\<lambda>c. c \<noteq> 0) (s @ 0 # ys) = (s :: u8 list)"
  by (induction s) auto

lemma memchr0_string:
  assumes "0 \<notin> set s" "length xs + length s + 1 \<le> unat e" "unat e \<le> length (xs @ s @ 0 # ys)"
    and "unat c = length xs"
  shows "memchr0 (xs @ s @ 0 # ys) c (e - c) = Some (c + of_nat (length s))"
proof -
  have "c \<le> e" using assms by (simp add: word_le_nat_alt)
  then have n: "unat (e - c) = unat e - length xs" using assms by (simp add: unat_sub)
  obtain m where m: "unat e - length xs = Suc (length s + m)"
  proof
    show "unat e - length xs = Suc (length s + (unat e - length xs - Suc (length s)))"
      using assms(2) by simp
  qed
  have "takeWhile (\<lambda>c. c \<noteq> 0) (take (unat (e - c)) (s @ 0 # ys)) = s"
    unfolding n m using takeWhile_string [OF assms(1)] by (simp add: Suc_diff_le)
  then show ?thesis using assms(4) n m by (simp add: memchr0_def)
qed

lemma read_string_at:
  assumes r: "reader_at r xs ((s @ [0]) @ ys)" and s: "0 \<notin> set s" "length s < 2 ^ 31 - 1"
  shows "\<exists>r'. blob_read_string r = (Some (br_current r), r') \<and> reader_at r' (xs @ s @ [0]) ys"
    "c_string (br_data r) (br_current r) = s"
proof -
  have d: "br_data r = xs @ s @ 0 # ys" and c: "unat (br_current r) = length xs"
    and e: "unat (br_end r) = length xs + length s + 1 + length ys"
    using r by (simp_all add: reader_at_def)
  show "c_string (br_data r) (br_current r) = s"
    using takeWhile_string [OF s(1)] by (simp add: c_string_def d c)
  have less: "\<not> br_end r \<le> br_current r" by (simp add: word_le_nat_alt c e)
  have m: "memchr0 (br_data r) (br_current r) (br_end r - br_current r)
      = Some (br_current r + of_nat (length s))"
    unfolding d using s e c by (intro memchr0_string) simp_all
  define n where "n = (scast (ucast (of_nat (length s) + 1 :: u64) :: u32) :: u64)"
  have "of_nat (length s) + 1 = (of_nat (Suc (length s)) :: u64)" by simp
  then have n: "n = of_nat (Suc (length s))"
    using int_of_size [of "Suc (length s)"] s(2) unfolding n_def by (simp add: add.commute)
  then have "unat n = length (s @ [0])"
    using s(2) by (simp only: n) (subst unat_of_nat_less, simp_all)
  then show "\<exists>r'. blob_read_string r = (Some (br_current r), r') \<and> reader_at r' (xs @ s @ [0]) ys"
    using reader_at_advance [OF r] less m
    by (simp add: blob_read_string_def Let_def n_def [symmetric])
qed

lemma read_bytes_at:
  assumes r: "reader_at r xs (bs @ ys)" 
  shows "\<exists>r'. blob_copy_bytes r (replicate (length bs) 0) (of_nat (length bs)) = (bs, r') \<and> reader_at r' (xs @ bs) ys"
proof -
  have "length bs < 2 ^ 64" using r unat_less_u64 [of "br_end r"] by (simp add: reader_at_def)
  then have n: "unat (of_nat (length bs) :: u64) = length bs" by (intro unat_of_nat_less) simp
  have "ensure_can_read r (of_nat (length bs)) = (r, True)" by (rule reader_at_ensure [OF r]) (simp add: n)
  then show ?thesis
    using reader_at_advance [OF r n] reader_at_bytes [OF r]
    by (simp add: blob_copy_bytes_def blob_read_bytes_def n memcpy_def bytes_at_def)
qed

lemma read_item_at:
  assumes r: "reader_at r xs (encode (length xs) it @ ys)" and "item_ok it" "length xs < 2 ^ 63"
  shows "\<exists>r'. read_item r (kind_of it) = (it, r') \<and> reader_at r' (xs @ encode (length xs) it) ys"
proof (cases it)
  case (Bytes bs)
  then show ?thesis using read_bytes_at [of r xs bs ys] r by auto
next
  case (U32 v)
  then show ?thesis using read_uint32_at [of r xs v ys] r assms(3) by auto
next
  case (U64 v)
  then show ?thesis using read_uint64_at [of r xs v ys] r assms(3) by auto
next
  case (Intptr v)
  then show ?thesis using read_uint64_at [of r xs v ys] r assms(3) by (auto simp: read_intptr_eq)
next
  case (Str s)
  then have s: "reader_at r xs ((s @ [0]) @ ys)" "0 \<notin> set s" "length s < 2 ^ 31 - 1" 
    using r assms(2) by simp_all
  have "br_data (snd (blob_read_string r)) = br_data r"
    by (auto simp: blob_read_string_def Let_def split: option.splits)
  then show ?thesis using read_string_at [OF s] Str by auto
qed

lemma read_items_at:
  assumes "reader_at r xs (encode_all (length xs) items @ ys)" "list_all item_ok items"
    and "length xs + length (encode_all (length xs) items) < 2 ^ 63"
  shows "\<exists>r'. read_items r (map kind_of items) = (items, r')
            \<and> reader_at r' (xs @ encode_all (length xs) items) ys"
  using assms
proof (induction items arbitrary: r xs)
  case Nil
  then show ?case by simp
next
  case (Cons it items)
  obtain r1 where r1: "read_item r (kind_of it) = (it, r1)"
      "reader_at r1 (xs @ encode (length xs) it) (encode_all (length xs + length (encode (length xs) it)) items @ ys)"
    using read_item_at [of r xs it] Cons.prems by (auto simp: Let_def)
  then obtain r2 where "read_items r1 (map kind_of items) = (items, r2)"
      "reader_at r2 ((xs @ encode (length xs) it) @ encode_all (length xs + length (encode (length xs) it)) items) ys"
    using Cons.IH [of r1 "xs @ encode (length xs) it"] Cons.prems by (auto simp: Let_def add.assoc)
  then show ?case using r1 by (simp add: Let_def)
qed

section \<open>An allocator for the examples\<close>

definition example_realloc :: allocator where
  "example_realloc d n =
    (if unat n < 2 ^ 63
     then Some (let old = (case d of None \<Rightarrow> [] | Some x \<Rightarrow> x) in
                take (unat n) old @ replicate (unat n - length old) 0)
     else None)"

lemma example_realloc_ok: "realloc_ok example_realloc"
  by (auto simp: realloc_ok_def example_realloc_def Let_def min_def split: if_splits)

definition example_items :: "item list" where
  "example_items = [Str [104, 105], U32 7, Bytes [1, 2, 3, 4, 5], Intptr (- 1), U64 9]"

text \<open>A new blob, growing or on a block of the caller's.\<close>

definition blob_start :: "blob \<Rightarrow> bool" where
  "blob_start b \<longleftrightarrow> b = blob_init \<or>
     (\<exists>d. b = blob_init_fixed (Some d) (of_nat (length d)) \<and> length d < 2 ^ 64)"

definition example_blob :: blob where
  "example_blob = blob_init_fixed (Some (replicate 40 170)) 40"

lemma example_blob_start: "blob_start example_blob"
  unfolding blob_start_def example_blob_def
  by (rule disjI2, rule exI [of _ "replicate 40 170"]) simp

lemma blob_start_holds: "blob_start b \<Longrightarrow> holds b []"
  unfolding blob_start_def by (auto intro!: holds_init holds_init_fixed simp: unat_of_nat take_bit_nat_eq_self)

lemma blob_start_real: "blob_start b \<Longrightarrow> b_data b \<noteq> None \<or> \<not> b_fixed_allocation b"
  by (auto simp: blob_start_def blob_init_def blob_init_fixed_def)

lemma appended_real:
  "appended b xs bs b' \<Longrightarrow> b_data b \<noteq> None \<or> \<not> b_fixed_allocation b \<Longrightarrow>
   b_data b' \<noteq> None \<or> \<not> b_fixed_allocation b'"
  by (auto simp: appended_def)

lemma holds_real:
  "holds b xs \<Longrightarrow> b_data b \<noteq> None \<or> \<not> b_fixed_allocation b \<Longrightarrow> blob_contents b = xs"
  by (auto simp: holds_def)

section \<open>Writing serializes\<close>





section \<open>Reading back\<close>

text \<open>
  C16. Reading the contents of a blob that did not run out of memory, with the calls that match the
  writes, returns the values written, without an overrun and with \<open>current\<close> at \<open>end\<close>.
\<close>

theorem blob_roundtrip:
  assumes "realloc_ok realloc" "blob_start b0" "length (encode_all 0 items) < 2 ^ 63"
    and "list_all item_ok items" "b = write_items realloc b0 items" "\<not> b_out_of_memory b"
  shows "\<exists>r. read_items (blob_reader_init (blob_contents b) (b_size b)) (map kind_of items) = (items, r)
           \<and> \<not> br_overrun r \<and> br_current r = br_end r"
proof -
  let ?r = "blob_reader_init (blob_contents b) (b_size b)"
  have a: "appended b0 [] (encode_all 0 items) b"
    using write_items_result [OF assms(1) blob_start_holds [OF assms(2)], of items] assms(3,5) by simp
  then have h: "holds b (encode_all 0 items)"
    using assms(6) by (simp add: appended_def)
  have "blob_contents b = encode_all 0 items"
    using holds_real [OF h] appended_real [OF a blob_start_real [OF assms(2)]] by blast
  then have "reader_at ?r [] (encode_all 0 items @ [])"
    using holds_size [OF h] by (simp add: reader_at_def blob_reader_init_def)
  then obtain r where "read_items ?r (map kind_of items) = (items, r)"
      "reader_at r (encode_all 0 items) []"
    using read_items_at [of ?r "[]" items "[]"] assms(3,4) by auto
  then show ?thesis by (auto simp: reader_at_def word_unat_eq_iff)
qed

lemma example_blob_ok: "\<not> b_out_of_memory (write_items example_realloc example_blob example_items)"
  by code_simp

theorem blob_roundtrip_witness:
  "\<exists>r. read_items (blob_reader_init (blob_contents (write_items example_realloc example_blob example_items))
         (b_size (write_items example_realloc example_blob example_items))) (map kind_of example_items)
       = (example_items, r) \<and> \<not> br_overrun r \<and> br_current r = br_end r"
  by (rule blob_roundtrip [OF example_realloc_ok example_blob_start _ _ refl example_blob_ok]) code_simp+

section \<open>Reserving and overwriting\<close>

lemma blob_reserve_bytes_result:
  assumes re: "realloc_ok realloc" and h: "holds b xs" and n: "length xs + unat n < 2 ^ 63"
    and w: "blob_reserve_bytes realloc b n = (b', off)" and ok: "\<not> b_out_of_memory b'"
  shows "\<exists>us. length us = unat n \<and> holds b' (xs @ us)" "unat off = length xs"
    "b_fixed_allocation b' = b_fixed_allocation b" "b_fixed_allocation b \<longrightarrow> b_data b' = b_data b"
proof -
  obtain b1 ok1 where g: "grow_to_fit realloc b n = (b1, ok1)" by force
  note r = grow_to_fit_result [OF re h n g]
  have ok1: ok1 using w g ok r by (cases ok1) (auto simp: blob_reserve_bytes_def)
  have b': "b' = b1\<lparr>b_size := b_size b1 + n\<rparr>" and off: "off = b_size b1"
    using w g ok1 by (auto simp: blob_reserve_bytes_def)
  have s: "unat (b_size b1 + n) = length xs + unat n"
    using r n holds_size [OF h] by (subst unat_add_less) auto
  define us where "us = (case b_data b1 of None \<Rightarrow> replicate (unat n) 0 
                          | Some d \<Rightarrow> take (unat n) (drop (length xs) d))"
  show "unat off = length xs" using off r holds_size [OF h] by simp
  show "b_fixed_allocation b' = b_fixed_allocation b" "b_fixed_allocation b \<longrightarrow> b_data b' = b_data b"
    using r b' by simp_all
  have "length us = unat n \<and> holds b' (xs @ us)"
  proof (cases "b_data b1")
    case None
    then show ?thesis
      using r ok1 s unfolding b' us_def by (auto simp: holds_def blob_wf_def blob_contents_def word_le_nat_alt)
  next
    case (Some d)
    have d: "length d = unat (b_allocated b1)" using r Some by (auto simp: holds_def blob_wf_def)
    have "take (length xs) d = xs" using r Some holds_take by blast
    then have "take (length xs + unat n) d = xs @ take (unat n) (drop (length xs) d)"
      by (simp add: take_add)
    then show ?thesis
      using r ok1 s Some d unfolding b' us_def
      by (auto simp: holds_def blob_wf_def blob_contents_def word_le_nat_alt)
  qed
  then show "\<exists>us. length us = unat n \<and> holds b' (xs @ us)" by blast
qed

lemma blob_overwrite_bytes_result:
  assumes h: "holds b (xs @ us @ ys)" and n: "length bs = length us" "unat off = length xs"
    and l: "length (xs @ us @ ys) < 2 ^ 63"
  shows "\<exists>b'. blob_overwrite_bytes b off bs = (b', True) \<and> holds b' (xs @ bs @ ys)
            \<and> b_fixed_allocation b' = b_fixed_allocation b \<and> (b_data b' = None \<longleftrightarrow> b_data b = None)"
proof -
  have un: "unat (of_nat (length bs) :: u64) = length bs"
    using n l by (intro unat_of_nat_less) simp
  have s: "unat (off + of_nat (length bs)) = length xs + length bs"
    using l n un by (subst unat_add_less) simp_all
  define b' where "b' = b\<lparr>b_data := map_option (\<lambda>d. memcpy d (unat off) bs) (b_data b)\<rparr>"
  have w: "blob_overwrite_bytes b off bs = (b', True)"
    using s n holds_size [OF h] un
    by (simp add: blob_overwrite_bytes_def b'_def word_less_nat_alt)
  have "holds b' (xs @ bs @ ys)"
  proof (cases "b_data b")
    case None
    then show ?thesis using h n by (auto simp: b'_def holds_def blob_wf_def blob_contents_def)
  next
    case (Some d)
    have d: "length d = unat (b_allocated b)" using h Some by (simp add: holds_def blob_wf_def)
    have t: "take (length (xs @ us @ ys)) d = xs @ us @ ys" using h Some by (rule holds_take)
    have le: "length (xs @ us @ ys) \<le> length d"
      using h d by (simp add: holds_def blob_wf_def word_le_nat_alt)
    obtain zs where zs: "d = (xs @ us @ ys) @ zs" using t append_take_drop_id by metis
    have "memcpy d (unat off) bs = (xs @ bs @ ys) @ zs" using n by (simp add: zs memcpy_def)
    then show ?thesis
      using h n Some d zs by (auto simp: b'_def holds_def blob_wf_def blob_contents_def)
  qed
  then show ?thesis using w by (auto simp: b'_def)
qed

lemma encode_all_append:
  "encode_all pos (xs @ ys) = encode_all pos xs @ encode_all (pos + length (encode_all pos xs)) ys"
  by (induction xs arbitrary: pos) (simp_all add: Let_def add.assoc)

text \<open>
  C17. The pattern the header documents: reserve a \<open>uint32_t\<close>, write more items, then overwrite the
  reserved place.  The overwrite succeeds, and the blob is the one of writing the value in place at
  the time of the reservation.
\<close>

theorem blob_reserve_then_overwrite:
  assumes "realloc_ok realloc" "blob_start b0" "length (encode_all 0 (pre @ U32 v # post)) < 2 ^ 63"
    and "blob_reserve_uint32 realloc (write_items realloc b0 pre) = (b1, off)"
    and "b2 = write_items realloc b1 post" "\<not> b_out_of_memory b2"
  shows "\<exists>b3. blob_overwrite_uint32 b2 off v = (b3, True)
            \<and> blob_contents b3 = encode_all 0 (pre @ U32 v # post)"
proof -
  let ?xs = "encode_all 0 pre" and ?b = "write_items realloc b0 pre"
  let ?pad = "padding (length ?xs) 4"
  have len: "length ?xs + length ?pad + 4 + length (encode_all (length (?xs @ ?pad) + 4) post) < 2 ^ 63"
    using assms(3) by (simp add: encode_all_append Let_def add.assoc)
  have oom1: "\<not> b_out_of_memory b1" using assms(5,6) write_items_oom [of b1] by auto
  obtain ba ok where al: "align_blob realloc ?b 4 = (ba, ok)" by force
  have w: "blob_reserve_bytes realloc ba 4 = (b1, off)"
    using assms(4) al by (simp add: blob_reserve_uint32_def)
  have ooma: "\<not> b_out_of_memory ba"
    using w oom1 by (auto simp: blob_reserve_bytes_def grow_to_fit_def split: if_splits)
  have a0: "appended b0 [] ?xs ?b"
    using write_items_result [OF assms(1) blob_start_holds [OF assms(2)], of pre] len by simp
  have oom: "\<not> b_out_of_memory ?b"
    using al ooma by (auto simp: align_blob_def grow_to_fit_def Let_def split: if_splits)
  then have h: "holds ?b ?xs" using a0 by (simp add: appended_def)
  have a1: "appended ?b ?xs ?pad ba"
    using align_blob_result [OF assms(1) h _ _ _ al, of 4] len holds_size [OF h]
    by (simp add: unat_ALIGN4)
  then have ha: "holds ba (?xs @ ?pad)" using ooma by (simp add: appended_def)
  obtain us where us: "length us = 4" "holds b1 ((?xs @ ?pad) @ us)"
    and off: "unat off = length (?xs @ ?pad)" and f1: "b_fixed_allocation b1 = b_fixed_allocation ba" "b_fixed_allocation ba \<longrightarrow> b_data b1 = b_data ba"
    using blob_reserve_bytes_result [OF assms(1) ha _ w oom1] len by auto
  have "appended b1 ((?xs @ ?pad) @ us) (encode_all (length ((?xs @ ?pad) @ us)) post) b2"
    using write_items_result [OF assms(1) us(2), of post] us(1) len assms(5) by (simp add: add.assoc)
  note a2 = this
  then have h2: "holds b2 ((?xs @ ?pad) @ us @ encode_all (length ((?xs @ ?pad) @ us)) post)"
    using assms(6) by (simp add: appended_def)
  obtain b3 where b3: "blob_overwrite_bytes b2 off (bytes_le 4 v) = (b3, True)"
      "holds b3 ((?xs @ ?pad) @ bytes_le 4 v @ encode_all (length ((?xs @ ?pad) @ us)) post)"
      "b_fixed_allocation b3 = b_fixed_allocation b2" "b_data b3 = None \<longleftrightarrow> b_data b2 = None"
    using blob_overwrite_bytes_result [OF h2 _ off, of "bytes_le 4 v"] us(1) len by (auto simp: add.assoc)
  have "b_data ba \<noteq> None \<or> \<not> b_fixed_allocation ba"
    using blob_start_real [OF assms(2)] appended_real [OF a0] appended_real [OF a1] by blast
  then have "b_data b1 \<noteq> None \<or> \<not> b_fixed_allocation b1" using f1 by auto
  then have "b_data b3 \<noteq> None \<or> \<not> b_fixed_allocation b3" using appended_real [OF a2] b3(3,4) by auto
  then have "blob_contents b3 = encode_all 0 (pre @ U32 v # post)"
    using holds_real [OF b3(2)] us(1) by (simp add: encode_all_append Let_def add.assoc)
  then show ?thesis using b3(1) by (auto simp: blob_overwrite_uint32_def)
qed


definition example_reserved :: "blob \<times> u64" where
  "example_reserved =
    blob_reserve_uint32 example_realloc (write_items example_realloc example_blob [Str [65]])"

lemma example_reserved_ok:
  "\<not> b_out_of_memory (write_items example_realloc (fst example_reserved) [U64 5])"
  by code_simp

theorem blob_reserve_then_overwrite_witness:
  "\<exists>b3. blob_overwrite_uint32 (write_items example_realloc (fst example_reserved) [U64 5])
          (snd example_reserved) 77 = (b3, True)
      \<and> blob_contents b3 = encode_all 0 ([Str [65]] @ U32 77 # [U64 5])"
  by (rule blob_reserve_then_overwrite [OF example_realloc_ok example_blob_start _ _ refl example_reserved_ok])
     (code_simp, simp add: example_reserved_def)

section \<open>Bounds of the reader\<close>

text \<open>The reader has passed its end only when it says so.\<close>

definition reader_ok :: "blob_reader \<Rightarrow> bool" where
  "reader_ok r \<longleftrightarrow> unat (br_end r) \<le> length (br_data r) \<and> length (br_data r) < 2 ^ 63
     \<and> (br_overrun r \<or> br_current r \<le> br_end r)"

definition reader_step :: "blob_reader \<Rightarrow> blob_reader \<Rightarrow> bool" where
  "reader_step r r' \<longleftrightarrow> br_data r' = br_data r \<and> br_end r' = br_end r \<and> reader_ok r'
     \<and> (br_overrun r \<longrightarrow> br_overrun r')"

lemma unat_plus_le:
  fixes c n e :: u64
  assumes "c \<le> e" "n \<le> e - c"
  shows "unat (c + n) = unat c + unat n" "c + n \<le> e" "unat c + unat n \<le> unat e"
proof -
  have le: "unat c + unat n \<le> unat e"
    using assms by (simp add: word_le_nat_alt unat_sub)
  then have "unat c + unat n < 2 ^ LENGTH(64)" using unat_less_u64 [of e] by simp
  then show s: "unat (c + n) = unat c + unat n" by (rule unat_add_less)
  show "c + n \<le> e" using le by (simp add: word_le_nat_alt s)
  show "unat c + unat n \<le> unat e" by (rule le)
qed

lemma ensure_can_read_step:
  assumes "reader_ok r" "ensure_can_read (r\<lparr>br_current := c\<rparr>) n = (r', ok)"
  shows "if ok then r' = r\<lparr>br_current := c\<rparr> \<and> \<not> br_overrun r \<and> unat c + unat n \<le> unat (br_end r)
           \<and> reader_step r (r\<lparr>br_current := c + n\<rparr>)
         else br_overrun r' \<and> reader_step r r'"
  using assms unat_plus_le [of c "br_end r" n]
  by (auto simp: ensure_can_read_def reader_ok_def reader_step_def split: if_splits)

lemma read_bytes_step:
  assumes "reader_ok r" "blob_read_bytes r n = (p, r')"
  shows "reader_step r r'"
    and "p = Some off \<Longrightarrow> off = br_current r \<and> unat off + unat n \<le> unat (br_end r) \<and> br_overrun r' = br_overrun r"
    and "p = None \<Longrightarrow> br_overrun r'"
  using assms ensure_can_read_step [of r "br_current r" n]
  by (auto simp: blob_read_bytes_def split: prod.splits bool.splits)

lemma read_uint32_step:
  assumes "reader_ok r" "blob_read_uint32 r = (v, r')"
  shows "reader_step r r'"
    and "\<not> br_overrun r' \<Longrightarrow> unat (ALIGN (br_current r) 4) + 4 \<le> unat (br_end r)
       \<and> v = word_le (bytes_at r (ALIGN (br_current r) 4) 4)"
    and "br_overrun r' \<Longrightarrow> v = 0"
  using assms ensure_can_read_step [of r "ALIGN (br_current r) 4" 4]
  by (auto simp: blob_read_uint32_def align_blob_reader_def bytes_at_def reader_step_def
      split: prod.splits bool.splits)

lemma read_uint64_step:
  assumes "reader_ok r" "blob_read_uint64 r = (v, r')"
  shows "reader_step r r'"
    and "\<not> br_overrun r' \<Longrightarrow> unat (ALIGN (br_current r) 8) + 8 \<le> unat (br_end r)
       \<and> v = word_le (bytes_at r (ALIGN (br_current r) 8) 8)"
    and "br_overrun r' \<Longrightarrow> v = 0"
  using assms ensure_can_read_step [of r "ALIGN (br_current r) 8" 8]
  by (auto simp: blob_read_uint64_def align_blob_reader_def bytes_at_def reader_step_def
      split: prod.splits bool.splits)

lemma takeWhile_short:
  "length (takeWhile P xs) < length xs \<Longrightarrow> \<not> P (xs ! length (takeWhile P xs))"
  by (rule nth_length_takeWhile)

lemma memchr0_in:
  assumes "memchr0 d off n = Some nul" "unat off + unat n \<le> length d" "unat off + unat n < 2 ^ 64"
  shows "unat off \<le> unat nul" "unat nul < unat off + unat n" "d ! unat nul = 0"
    "unat off \<le> j \<Longrightarrow> j < unat nul \<Longrightarrow> d ! j \<noteq> 0"
proof -
  define s where "s = takeWhile (\<lambda>c. c \<noteq> 0) (take (unat n) (drop (unat off) d))"
  have s: "length s < unat n" and nul: "nul = off + of_nat (length s)"
    using assms by (auto simp: memchr0_def s_def [symmetric] Let_def split: if_splits)
  have u: "unat (of_nat (length s) :: u64) = length s"
    using s unat_less_u64 [of n] by (intro unat_of_nat_less) simp
  have "unat nul = unat off + length s"
    using s assms(3) unfolding nul by (subst unat_add_less) (simp_all add: u)
  moreover have "take (unat n) (drop (unat off) d) ! length s = 0"
    using takeWhile_short [of "\<lambda>c. c \<noteq> 0" "take (unat n) (drop (unat off) d)"] s assms(2)
    unfolding s_def by simp
  ultimately show "unat off \<le> unat nul" "unat nul < unat off + unat n" "d ! unat nul = 0"
    using s assms(2) by simp_all
  show "d ! j \<noteq> 0" if j: "unat off \<le> j" "j < unat nul"
  proof -
    have js: "j - unat off < length s" using j \<open>unat nul = unat off + length s\<close> by simp
    then have "s ! (j - unat off) \<noteq> 0" using set_takeWhileD [OF nth_mem, of "j - unat off"] unfolding s_def by blast
    moreover have "s ! (j - unat off) = d ! j"
      using js j s assms(2) takeWhile_nth [of "j - unat off" "\<lambda>c. c \<noteq> 0" "take (unat n) (drop (unat off) d)"]
      unfolding s_def by (simp only: s_def [symmetric]) simp
    ultimately show ?thesis by simp
  qed
qed

text \<open>The length of a string goes through an \<open>int\<close>.\<close>

lemma int_of_size_iff:
  assumes "0 < k" "k < 2 ^ 63"
  shows "scast (ucast (of_nat k :: u64) :: u32) = (of_nat k :: u64) \<longleftrightarrow> k < 2 ^ 31"
proof
  assume "k < 2 ^ 31"
  then show "scast (ucast (of_nat k :: u64) :: u32) = (of_nat k :: u64)" by (rule int_of_size)
next
  assume a: "scast (ucast (of_nat k :: u64) :: u32) = (of_nat k :: u64)"
  have "sint (of_nat k :: u64) = int k"
    using assms(2) by (simp add: signed_of_nat signed_take_bit_int_eq_self)
  moreover have "sint (scast (ucast (of_nat k :: u64) :: u32) :: u64) = sint (ucast (of_nat k :: u64) :: u32)"
    by (rule sint_up_scast) (simp add: is_up)
  ultimately have "int k = sint (ucast (of_nat k :: u64) :: u32)" using a by simp
  also have "\<dots> < 2 ^ 31" using sint_lt [of "ucast (of_nat k :: u64) :: u32"] by simp
  finally show "k < 2 ^ 31" by simp
qed

text \<open>A string that is found ends at the first zero byte; \<open>current\<close> gets past it exactly when the string, with the
  zero byte, is shorter than 2^31 bytes.\<close>

lemma read_string_result:
  assumes ok: "reader_ok r" and r: "blob_read_string r = (Some off, r')"
  shows "off = br_current r \<and> br_overrun r' = br_overrun r \<and> br_data r' = br_data r \<and> br_end r' = br_end r \<and>
    (\<exists>nul. unat off \<le> nul \<and> nul < unat (br_end r) \<and> br_data r ! nul = 0 \<and>
       (\<forall>j. unat off \<le> j \<and> j < nul \<longrightarrow> br_data r ! j \<noteq> 0) \<and>
       (unat (br_current r') = nul + 1 \<longleftrightarrow> nul + 1 - unat off < 2 ^ 31))"
proof -
  obtain nul where found: "br_current r < br_end r"
    "memchr0 (br_data r) (br_current r) (br_end r - br_current r) = Some nul" "off = br_current r"
    "r' = r\<lparr>br_current := br_current r + scast (ucast (nul - br_current r + 1) :: u32)\<rparr>"
    using r by (auto simp: blob_read_string_def Let_def not_le split: if_splits option.splits)
  let ?c = "br_current r" and ?e = "br_end r"
  have le: "?c \<le> ?e" using found(1) by simp
  have ec: "unat ?c + unat (?e - ?c) = unat ?e" using le by (simp add: unat_sub word_le_nat_alt)
  have dl: "unat ?e \<le> length (br_data r)" "unat ?e < 2 ^ 63" using ok by (auto simp: reader_ok_def)
  note m = memchr0_in [OF found(2), unfolded ec, OF dl(1) unat_less_u64]
  have u: "unat (nul - ?c) = unat nul - unat ?c" using m(1) by (simp add: unat_sub word_le_nat_alt)
  define k where "k = unat nul + 1 - unat ?c"
  have k: "0 < k" "k < 2 ^ 63" using m(1,2) dl(2) by (simp_all add: k_def)
  have w: "nul - ?c + 1 = of_nat k"
  proof -
    have "of_nat (Suc (unat (nul - ?c))) = nul - ?c + 1" by simp
    then show ?thesis using u m(1) by (simp add: k_def Suc_diff_le)
  qed
  have nb: "unat (nul + 1) = unat nul + 1"
    using unat_add_less [of nul 1] m(2) dl(2) by simp
  have "unat (br_current r') = unat nul + 1 \<longleftrightarrow> br_current r' = nul + 1"
    using nb by (metis word_unat_eq_iff)
  also have "\<dots> \<longleftrightarrow> scast (ucast (of_nat k :: u64) :: u32) = (of_nat k :: u64)"
  proof -
    have "nul + 1 = ?c + of_nat k" using w by (simp add: algebra_simps)
    then show ?thesis using found(4) w by simp
  qed
  also have "\<dots> \<longleftrightarrow> k < 2 ^ 31" by (rule int_of_size_iff [OF k])
  finally show ?thesis using m found(3,4) by (auto simp: k_def intro!: exI [of _ "unat nul"])
qed

lemma read_string_step:
  assumes ok: "reader_ok r" and short: "length (br_data r) < 2 ^ 31" and r: "blob_read_string r = (p, r')"
  shows "reader_step r r'"
proof (cases p)
  case None
  then have "r' = r\<lparr>br_overrun := True\<rparr>"
    using r by (auto simp: blob_read_string_def Let_def split: if_splits option.splits)
  then show ?thesis using ok by (auto simp: reader_step_def reader_ok_def)
next
  case (Some off)
  from read_string_result [OF ok r [unfolded Some]] obtain nul where
    n: "nul < unat (br_end r)" "unat (br_current r') = nul + 1 \<longleftrightarrow> nul + 1 - unat off < 2 ^ 31"
    and f: "br_overrun r' = br_overrun r" "br_data r' = br_data r" "br_end r' = br_end r" by blast
  have "nul + 1 < 2 ^ 31" using n(1) short ok by (simp add: reader_ok_def)
  then have "nul + 1 - unat off < 2 ^ 31" by linarith
  then have "unat (br_current r') = nul + 1" using n(2) by blast
  then have "br_current r' \<le> br_end r" using n(1) by (simp add: word_le_nat_alt)
  then show ?thesis using ok f by (simp add: reader_step_def reader_ok_def)
qed

lemma read_string_overrun: "br_overrun r \<Longrightarrow> br_overrun (snd (blob_read_string r))"
  by (simp add: blob_read_string_def Let_def split: option.split)

lemma reader_step_trans: "reader_step r r1 \<Longrightarrow> reader_step r1 r2 \<Longrightarrow> reader_step r r2"
  by (auto simp: reader_step_def)

lemma read_item_step:
  assumes "reader_ok r" "k = KStr \<longrightarrow> length (br_data r) < 2 ^ 31"
  shows "reader_step r (snd (read_item r k))"
proof (cases k)
  case (KBytes n)
  then show ?thesis
    using read_bytes_step(1) [OF assms(1), of "of_nat n"]
    by (auto simp: blob_copy_bytes_def split: prod.splits option.splits)
next
  case KU32
  then show ?thesis using read_uint32_step(1) [OF assms(1)] by (auto split: prod.splits)
next
  case KU64
  then show ?thesis using read_uint64_step(1) [OF assms(1)] by (auto split: prod.splits)
next
  case KIntptr
  then show ?thesis using read_uint64_step(1) [OF assms(1)] by (auto simp: read_intptr_eq split: prod.splits)
next
  case KStr
  then show ?thesis using read_string_step [OF assms(1)] assms(2) by (auto split: prod.splits)
qed

lemma read_items_step:
  "reader_ok r \<Longrightarrow> KStr \<in> set ks \<longrightarrow> length (br_data r) < 2 ^ 31 \<Longrightarrow> reader_step r (snd (read_items r ks))"
proof (induction r ks rule: read_items.induct)
  case (1 r)
  then show ?case by (simp add: reader_step_def)
next
  case (2 r k ks)
  obtain it r1 where r1: "read_item r k = (it, r1)" by force
  have s: "reader_step r r1" using read_item_step [OF 2(2), of k] 2(3) r1 by simp
  then have "reader_step r1 (snd (read_items r1 ks))"
    using 2(1) [OF r1 [symmetric] refl] 2(3) by (simp add: reader_step_def)
  then show ?case using s r1 reader_step_trans by (auto split: prod.splits)
qed

lemma read_item_overrun: "br_overrun r \<Longrightarrow> br_overrun (snd (read_item r k))"
  using read_string_overrun [of r]
  by (cases k) (auto simp: blob_copy_bytes_def blob_read_bytes_def blob_read_uint32_def blob_read_uint64_def
      blob_read_intptr_def ensure_can_read_def align_blob_reader_def split: prod.splits option.splits bool.splits if_splits)

text \<open>
  C18. On any bytes that memory can hold (under 2^63), and after any sequence of reads, the memory each
  further read loads, copies or hands out lies between the data pointer and \<open>end\<close>; \<open>current\<close> is past \<open>end\<close> only
  with \<open>overrun\<close> set, an overrun stays, and a failed integer read is 0, a failed copy leaves the destination
  alone.  The sequence may contain reads of strings only when the data has fewer than 2^31 bytes, since
  the size of a string is an \<open>int\<close>: a string is always found up to its first zero byte inside the data, but
  \<open>current\<close> gets past it exactly when it has fewer than 2^31 bytes.
\<close>

theorem blob_reads_in_bounds:
  assumes "unat n = length d" "length d < 2 ^ 63" "KStr \<in> set ks \<longrightarrow> length d < 2 ^ 31"
    and "r = snd (read_items (blob_reader_init d n) ks)"
  shows "(br_overrun r \<or> br_current r \<le> n) \<and> br_end r = n \<and> br_data r = d
    \<and> (\<forall>m off r'. blob_read_bytes r m = (Some off, r') \<longrightarrow> unat off + unat m \<le> length d)
    \<and> (\<forall>dest m dest' r'. blob_copy_bytes r dest m = (dest', r') \<longrightarrow>
         (if br_overrun r' then dest' = dest
          else unat (br_current r) + unat m \<le> length d
             \<and> dest' = memcpy dest 0 (take (unat m) (drop (unat (br_current r)) d))))
    \<and> (\<forall>v r'. blob_read_uint32 r = (v, r') \<longrightarrow>
         (if br_overrun r' then v = 0 else unat (ALIGN (br_current r) 4) + 4 \<le> length d))
    \<and> (\<forall>v r'. blob_read_uint64 r = (v, r') \<longrightarrow>
         (if br_overrun r' then v = 0 else unat (ALIGN (br_current r) 8) + 8 \<le> length d))
    \<and> (\<forall>v r'. blob_read_intptr r = (v, r') \<longrightarrow>
         (if br_overrun r' then v = 0 else unat (ALIGN (br_current r) 8) + 8 \<le> length d))
    \<and> (\<forall>off r'. blob_read_string r = (Some off, r') \<longrightarrow>
         (\<exists>nul. unat off \<le> nul \<and> nul < length d \<and> d ! nul = 0
            \<and> (\<forall>j. unat off \<le> j \<and> j < nul \<longrightarrow> d ! j \<noteq> 0)
            \<and> (unat (br_current r') = nul + 1 \<longleftrightarrow> nul + 1 - unat off < 2 ^ 31)))
    \<and> (br_overrun r \<longrightarrow> (\<forall>k. br_overrun (snd (read_item r k))))"
proof -
  have "reader_ok (blob_reader_init d n)"
    using assms(1,2) by (simp add: reader_ok_def blob_reader_init_def)
  from read_items_step [OF this, of ks]
  have ok: "reader_ok r" and e: "br_end r = n" and d: "br_data r = d"
    using assms(3,4) by (simp_all add: reader_step_def blob_reader_init_def)
  show ?thesis
  proof (intro conjI allI impI)
    show "br_overrun r \<or> br_current r \<le> n" using ok e by (simp add: reader_ok_def)
  next
    fix m off r' assume "blob_read_bytes r m = (Some off, r')"
    from read_bytes_step(2) [OF ok this] show "unat off + unat m \<le> length d" using e assms(1) by auto
  next
    fix dest m dest' r' assume c: "blob_copy_bytes r dest m = (dest', r')"
    obtain p where b: "blob_read_bytes r m = (p, r')"
      using c by (auto simp: blob_copy_bytes_def split: prod.splits option.splits)
    show "if br_overrun r' then dest' = dest
      else unat (br_current r) + unat m \<le> length d \<and> dest' = memcpy dest 0 (take (unat m) (drop (unat (br_current r)) d))"
    proof (cases p)
      case None
      then show ?thesis using b c read_bytes_step(3) [OF ok b] by (simp add: blob_copy_bytes_def)
    next
      case (Some off)
      then have "\<not> br_overrun r'"
        using b by (auto simp: blob_read_bytes_def ensure_can_read_def split: prod.splits bool.splits if_splits)
      then show ?thesis
        using b c Some read_bytes_step(2) [OF ok b Some] e d assms(1) by (auto simp: blob_copy_bytes_def bytes_at_def)
    qed
  next
    fix v r' assume "blob_read_uint32 r = (v, r')"
    from read_uint32_step(2,3) [OF ok this]
    show "if br_overrun r' then v = 0 else unat (ALIGN (br_current r) 4) + 4 \<le> length d"
      using e assms(1) by auto
  next
    fix v r' assume "blob_read_uint64 r = (v, r')"
    from read_uint64_step(2,3) [OF ok this]
    show "if br_overrun r' then v = 0 else unat (ALIGN (br_current r) 8) + 8 \<le> length d"
      using e assms(1) by auto
  next
    fix v r' assume "blob_read_intptr r = (v, r')"
    from read_uint64_step(2,3) [OF ok this [unfolded read_intptr_eq]]
    show "if br_overrun r' then v = 0 else unat (ALIGN (br_current r) 8) + 8 \<le> length d"
      using e assms(1) by auto
  next
    fix off r' assume "blob_read_string r = (Some off, r')"
    from read_string_result [OF ok this]
    show "\<exists>nul. unat off \<le> nul \<and> nul < length d \<and> d ! nul = 0
            \<and> (\<forall>j. unat off \<le> j \<and> j < nul \<longrightarrow> d ! j \<noteq> 0)
            \<and> (unat (br_current r') = nul + 1 \<longleftrightarrow> nul + 1 - unat off < 2 ^ 31)"
      using e d assms(1) by auto
  qed (use e d read_item_overrun in simp_all)
qed

theorem blob_reads_in_bounds_witness:
  "br_overrun (snd (read_items (blob_reader_init [65, 66, 67] 3) [KStr]))
 \<or> br_current (snd (read_items (blob_reader_init [65, 66, 67] 3) [KStr])) \<le> 3"
  using blob_reads_in_bounds [of 3 "[65, 66, 67]" "[KStr]", OF _ _ _ refl] by simp

text \<open>
  C19. \<open>grow_to_fit\<close> adds the request to the size in \<open>size_t\<close>: a reservation whose sum wraps is
  granted without growing the block, and leaves a size smaller than before.
\<close>

theorem blob_reserve_wraps:
  assumes "blob_wf b" "\<not> b_out_of_memory b" "2 ^ 64 \<le> unat (b_size b) + unat n"
  shows "\<exists>b'. blob_reserve_bytes realloc b n = (b', b_size b)
            \<and> b_allocated b' = b_allocated b \<and> b_data b' = b_data b \<and> b_size b' < b_size b"
proof -
  have u: "unat (b_size b + n) = unat (b_size b) + unat n - 2 ^ 64"
    using assms(3) unat_less_u64 [of "b_size b"] unat_less_u64 [of n]
    by (simp add: unat_word_ariths mod_if)
  then have less: "b_size b + n < b_size b"
    using assms(3) unat_less_u64 [of n] by (simp add: word_less_nat_alt)
  moreover have "b_size b + n \<le> b_allocated b"
    using less assms(1) by (auto simp: blob_wf_def)
  ultimately show ?thesis
    using assms(2) by (simp add: blob_reserve_bytes_def grow_to_fit_def)
qed

theorem blob_reserve_wraps_witness:
  "\<exists>b'. blob_reserve_bytes example_realloc (write_items example_realloc example_blob [U64 1]) (- 4)
          = (b', b_size (write_items example_realloc example_blob [U64 1]))
      \<and> b_allocated b' = b_allocated (write_items example_realloc example_blob [U64 1])
      \<and> b_data b' = b_data (write_items example_realloc example_blob [U64 1])
      \<and> b_size b' < b_size (write_items example_realloc example_blob [U64 1])"
proof (rule blob_reserve_wraps)
  have "appended example_blob [] (encode_all 0 [U64 1]) (write_items example_realloc example_blob [U64 1])"
    using write_items_result [OF example_realloc_ok blob_start_holds [OF example_blob_start], of "[U64 1]"]
    by (simp add: Let_def padding_def align_nat_def)
  moreover show "\<not> b_out_of_memory (write_items example_realloc example_blob [U64 1])" by code_simp
  ultimately show "blob_wf (write_items example_realloc example_blob [U64 1])"
    by (auto simp: appended_def dest: holds_wf)
  show "2 ^ 64 \<le> unat (b_size (write_items example_realloc example_blob [U64 1])) + unat (- 4 :: u64)"
    by code_simp
qed

end
