(* ===== verification/Qpu.thy ===== *)
theory Qpu
  imports Prelude
begin

text \<open>
  The instructions of the VideoCore V and VI shader processor, src/src/broadcom/qpu/qpu_instr.h,
  with the tables and the predicates of qpu_instr.c.  An enumeration is a datatype with the C
  constants as constructors; a field the code fills with a number that need not be one of the
  constants (a write address, \<open>bdu\<close>) keeps its width.  The two members of the union in
  \<open>v3d_qpu_instr\<close> are separate components, of which \<open>type\<close> names the one in use.
\<close>

section \<open>Data\<close>

record v3d_device_info =
  ver :: u8

record v3d_qpu_sig =
  thrsw :: bool
  ldunif :: bool
  ldunifa :: bool
  ldunifrf :: bool
  ldunifarf :: bool
  ldtmu :: bool
  ldvary :: bool
  ldvpm :: bool
  ldtlb :: bool
  ldtlbu :: bool
  small_imm :: bool
  ucb :: bool
  rotate_sig :: bool
  wrtmuc :: bool

datatype v3d_qpu_cond =
    V3D_QPU_COND_NONE | V3D_QPU_COND_IFA | V3D_QPU_COND_IFB | V3D_QPU_COND_IFNA
    | V3D_QPU_COND_IFNB

datatype v3d_qpu_pf =
    V3D_QPU_PF_NONE | V3D_QPU_PF_PUSHZ | V3D_QPU_PF_PUSHN | V3D_QPU_PF_PUSHC

datatype v3d_qpu_uf =
    V3D_QPU_UF_NONE | V3D_QPU_UF_ANDZ | V3D_QPU_UF_ANDNZ | V3D_QPU_UF_NORNZ | V3D_QPU_UF_NORZ
    | V3D_QPU_UF_ANDN | V3D_QPU_UF_ANDNN | V3D_QPU_UF_NORNN | V3D_QPU_UF_NORN | V3D_QPU_UF_ANDC
    | V3D_QPU_UF_ANDNC | V3D_QPU_UF_NORNC | V3D_QPU_UF_NORC

datatype (plugins only: size) v3d_qpu_waddr =
    V3D_QPU_WADDR_R0 | V3D_QPU_WADDR_R1 | V3D_QPU_WADDR_R2 | V3D_QPU_WADDR_R3 | V3D_QPU_WADDR_R4
    | V3D_QPU_WADDR_R5 | V3D_QPU_WADDR_NOP | V3D_QPU_WADDR_TLB | V3D_QPU_WADDR_TLBU
    | V3D_QPU_WADDR_TMU | V3D_QPU_WADDR_TMUL | V3D_QPU_WADDR_TMUD | V3D_QPU_WADDR_TMUA
    | V3D_QPU_WADDR_TMUAU | V3D_QPU_WADDR_VPM | V3D_QPU_WADDR_VPMU | V3D_QPU_WADDR_SYNC
    | V3D_QPU_WADDR_SYNCU | V3D_QPU_WADDR_SYNCB | V3D_QPU_WADDR_RECIP | V3D_QPU_WADDR_RSQRT
    | V3D_QPU_WADDR_EXP | V3D_QPU_WADDR_LOG | V3D_QPU_WADDR_SIN | V3D_QPU_WADDR_RSQRT2
    | V3D_QPU_WADDR_TMUC | V3D_QPU_WADDR_TMUS | V3D_QPU_WADDR_TMUT | V3D_QPU_WADDR_TMUR
    | V3D_QPU_WADDR_TMUI | V3D_QPU_WADDR_TMUB | V3D_QPU_WADDR_TMUDREF | V3D_QPU_WADDR_TMUOFF
    | V3D_QPU_WADDR_TMUSCM | V3D_QPU_WADDR_TMUSF | V3D_QPU_WADDR_TMUSLOD | V3D_QPU_WADDR_TMUHS
    | V3D_QPU_WADDR_TMUHSCM | V3D_QPU_WADDR_TMUHSF | V3D_QPU_WADDR_TMUHSLOD
    | V3D_QPU_WADDR_R5REP

primrec waddr_num :: "v3d_qpu_waddr \<Rightarrow> u8" where
  "waddr_num V3D_QPU_WADDR_R0 = 0"
| "waddr_num V3D_QPU_WADDR_R1 = 1"
| "waddr_num V3D_QPU_WADDR_R2 = 2"
| "waddr_num V3D_QPU_WADDR_R3 = 3"
| "waddr_num V3D_QPU_WADDR_R4 = 4"
| "waddr_num V3D_QPU_WADDR_R5 = 5"
| "waddr_num V3D_QPU_WADDR_NOP = 6"
| "waddr_num V3D_QPU_WADDR_TLB = 7"
| "waddr_num V3D_QPU_WADDR_TLBU = 8"
| "waddr_num V3D_QPU_WADDR_TMU = 9"
| "waddr_num V3D_QPU_WADDR_TMUL = 10"
| "waddr_num V3D_QPU_WADDR_TMUD = 11"
| "waddr_num V3D_QPU_WADDR_TMUA = 12"
| "waddr_num V3D_QPU_WADDR_TMUAU = 13"
| "waddr_num V3D_QPU_WADDR_VPM = 14"
| "waddr_num V3D_QPU_WADDR_VPMU = 15"
| "waddr_num V3D_QPU_WADDR_SYNC = 16"
| "waddr_num V3D_QPU_WADDR_SYNCU = 17"
| "waddr_num V3D_QPU_WADDR_SYNCB = 18"
| "waddr_num V3D_QPU_WADDR_RECIP = 19"
| "waddr_num V3D_QPU_WADDR_RSQRT = 20"
| "waddr_num V3D_QPU_WADDR_EXP = 21"
| "waddr_num V3D_QPU_WADDR_LOG = 22"
| "waddr_num V3D_QPU_WADDR_SIN = 23"
| "waddr_num V3D_QPU_WADDR_RSQRT2 = 24"
| "waddr_num V3D_QPU_WADDR_TMUC = 32"
| "waddr_num V3D_QPU_WADDR_TMUS = 33"
| "waddr_num V3D_QPU_WADDR_TMUT = 34"
| "waddr_num V3D_QPU_WADDR_TMUR = 35"
| "waddr_num V3D_QPU_WADDR_TMUI = 36"
| "waddr_num V3D_QPU_WADDR_TMUB = 37"
| "waddr_num V3D_QPU_WADDR_TMUDREF = 38"
| "waddr_num V3D_QPU_WADDR_TMUOFF = 39"
| "waddr_num V3D_QPU_WADDR_TMUSCM = 40"
| "waddr_num V3D_QPU_WADDR_TMUSF = 41"
| "waddr_num V3D_QPU_WADDR_TMUSLOD = 42"
| "waddr_num V3D_QPU_WADDR_TMUHS = 43"
| "waddr_num V3D_QPU_WADDR_TMUHSCM = 44"
| "waddr_num V3D_QPU_WADDR_TMUHSF = 45"
| "waddr_num V3D_QPU_WADDR_TMUHSLOD = 46"
| "waddr_num V3D_QPU_WADDR_R5REP = 55"

record v3d_qpu_flags =
  ac :: v3d_qpu_cond
  mc :: v3d_qpu_cond
  apf :: v3d_qpu_pf
  mpf :: v3d_qpu_pf
  auf :: v3d_qpu_uf
  muf :: v3d_qpu_uf

datatype (plugins only: size) v3d_qpu_add_op =
    V3D_QPU_A_FADD | V3D_QPU_A_FADDNF | V3D_QPU_A_VFPACK | V3D_QPU_A_ADD | V3D_QPU_A_SUB
    | V3D_QPU_A_FSUB | V3D_QPU_A_MIN | V3D_QPU_A_MAX | V3D_QPU_A_UMIN | V3D_QPU_A_UMAX
    | V3D_QPU_A_SHL | V3D_QPU_A_SHR | V3D_QPU_A_ASR | V3D_QPU_A_ROR | V3D_QPU_A_FMIN
    | V3D_QPU_A_FMAX | V3D_QPU_A_VFMIN | V3D_QPU_A_AND | V3D_QPU_A_OR | V3D_QPU_A_XOR
    | V3D_QPU_A_VADD | V3D_QPU_A_VSUB | V3D_QPU_A_NOT | V3D_QPU_A_NEG | V3D_QPU_A_FLAPUSH
    | V3D_QPU_A_FLBPUSH | V3D_QPU_A_FLBPOP | V3D_QPU_A_SETMSF | V3D_QPU_A_SETREVF
    | V3D_QPU_A_NOP | V3D_QPU_A_TIDX | V3D_QPU_A_EIDX | V3D_QPU_A_LR | V3D_QPU_A_VFLA
    | V3D_QPU_A_VFLNA | V3D_QPU_A_VFLB | V3D_QPU_A_VFLNB | V3D_QPU_A_FXCD | V3D_QPU_A_XCD
    | V3D_QPU_A_FYCD | V3D_QPU_A_YCD | V3D_QPU_A_MSF | V3D_QPU_A_REVF | V3D_QPU_A_VDWWT
    | V3D_QPU_A_IID | V3D_QPU_A_SAMPID | V3D_QPU_A_BARRIERID | V3D_QPU_A_TMUWT
    | V3D_QPU_A_VPMSETUP | V3D_QPU_A_VPMWT | V3D_QPU_A_LDVPMV_IN | V3D_QPU_A_LDVPMV_OUT
    | V3D_QPU_A_LDVPMD_IN | V3D_QPU_A_LDVPMD_OUT | V3D_QPU_A_LDVPMP | V3D_QPU_A_LDVPMG_IN
    | V3D_QPU_A_LDVPMG_OUT | V3D_QPU_A_FCMP | V3D_QPU_A_VFMAX | V3D_QPU_A_FROUND
    | V3D_QPU_A_FTOIN | V3D_QPU_A_FTRUNC | V3D_QPU_A_FTOIZ | V3D_QPU_A_FFLOOR | V3D_QPU_A_FTOUZ
    | V3D_QPU_A_FCEIL | V3D_QPU_A_FTOC | V3D_QPU_A_FDX | V3D_QPU_A_FDY | V3D_QPU_A_STVPMV
    | V3D_QPU_A_STVPMD | V3D_QPU_A_STVPMP | V3D_QPU_A_ITOF | V3D_QPU_A_CLZ | V3D_QPU_A_UTOF

datatype v3d_qpu_mul_op =
    V3D_QPU_M_ADD | V3D_QPU_M_SUB | V3D_QPU_M_UMUL24 | V3D_QPU_M_VFMUL | V3D_QPU_M_SMUL24
    | V3D_QPU_M_MULTOP | V3D_QPU_M_FMOV | V3D_QPU_M_MOV | V3D_QPU_M_NOP | V3D_QPU_M_FMUL

datatype v3d_qpu_output_pack =
    V3D_QPU_PACK_NONE | V3D_QPU_PACK_L | V3D_QPU_PACK_H

datatype v3d_qpu_input_unpack =
    V3D_QPU_UNPACK_NONE | V3D_QPU_UNPACK_ABS | V3D_QPU_UNPACK_L | V3D_QPU_UNPACK_H
    | V3D_QPU_UNPACK_REPLICATE_32F_16 | V3D_QPU_UNPACK_REPLICATE_L_16
    | V3D_QPU_UNPACK_REPLICATE_H_16 | V3D_QPU_UNPACK_SWAP_16

datatype v3d_qpu_mux =
    V3D_QPU_MUX_R0 | V3D_QPU_MUX_R1 | V3D_QPU_MUX_R2 | V3D_QPU_MUX_R3 | V3D_QPU_MUX_R4
    | V3D_QPU_MUX_R5 | V3D_QPU_MUX_A | V3D_QPU_MUX_B

text \<open>The two anonymous structures of \<open>v3d_qpu_alu_instr\<close>, which differ in the type of \<open>op\<close>.\<close>

record 'op alu_half =
  alu_op :: 'op
  alu_a :: v3d_qpu_mux
  alu_b :: v3d_qpu_mux
  alu_waddr :: u8
  magic_write :: bool
  output_pack :: v3d_qpu_output_pack
  a_unpack :: v3d_qpu_input_unpack
  b_unpack :: v3d_qpu_input_unpack

record v3d_qpu_alu_instr =
  add :: "v3d_qpu_add_op alu_half"
  mul :: "v3d_qpu_mul_op alu_half"

datatype v3d_qpu_branch_cond =
    V3D_QPU_BRANCH_COND_ALWAYS | V3D_QPU_BRANCH_COND_A0 | V3D_QPU_BRANCH_COND_NA0
    | V3D_QPU_BRANCH_COND_ALLA | V3D_QPU_BRANCH_COND_ANYNA | V3D_QPU_BRANCH_COND_ANYA
    | V3D_QPU_BRANCH_COND_ALLNA

datatype v3d_qpu_msfign =
    V3D_QPU_MSFIGN_NONE | V3D_QPU_MSFIGN_P | V3D_QPU_MSFIGN_Q

datatype v3d_qpu_branch_dest =
    V3D_QPU_BRANCH_DEST_ABS | V3D_QPU_BRANCH_DEST_REL | V3D_QPU_BRANCH_DEST_LINK_REG
    | V3D_QPU_BRANCH_DEST_REGFILE

record v3d_qpu_branch_instr =
  br_cond :: v3d_qpu_branch_cond
  br_msfign :: v3d_qpu_msfign
  bdi :: v3d_qpu_branch_dest
  bdu :: u32
  br_ub :: bool
  br_raddr_a :: u8
  br_offset :: u32

datatype v3d_qpu_instr_type =
    V3D_QPU_INSTR_TYPE_ALU | V3D_QPU_INSTR_TYPE_BRANCH

record v3d_qpu_instr =
  itype :: v3d_qpu_instr_type
  sig :: v3d_qpu_sig
  sig_addr :: u8
  sig_magic :: bool
  raddr_a :: u8
  raddr_b :: u8
  flags :: v3d_qpu_flags
  alu :: v3d_qpu_alu_instr
  branch :: v3d_qpu_branch_instr

text \<open>The values of the enumerations that the code computes with.\<close>

primrec cond_num :: "v3d_qpu_cond \<Rightarrow> u32" where
  "cond_num V3D_QPU_COND_NONE = 0"
| "cond_num V3D_QPU_COND_IFA = 1"
| "cond_num V3D_QPU_COND_IFB = 2"
| "cond_num V3D_QPU_COND_IFNA = 3"
| "cond_num V3D_QPU_COND_IFNB = 4"

primrec pf_num :: "v3d_qpu_pf \<Rightarrow> u32" where
  "pf_num V3D_QPU_PF_NONE = 0"
| "pf_num V3D_QPU_PF_PUSHZ = 1"
| "pf_num V3D_QPU_PF_PUSHN = 2"
| "pf_num V3D_QPU_PF_PUSHC = 3"

primrec uf_num :: "v3d_qpu_uf \<Rightarrow> u32" where
  "uf_num V3D_QPU_UF_NONE = 0"
| "uf_num V3D_QPU_UF_ANDZ = 1"
| "uf_num V3D_QPU_UF_ANDNZ = 2"
| "uf_num V3D_QPU_UF_NORNZ = 3"
| "uf_num V3D_QPU_UF_NORZ = 4"
| "uf_num V3D_QPU_UF_ANDN = 5"
| "uf_num V3D_QPU_UF_ANDNN = 6"
| "uf_num V3D_QPU_UF_NORNN = 7"
| "uf_num V3D_QPU_UF_NORN = 8"
| "uf_num V3D_QPU_UF_ANDC = 9"
| "uf_num V3D_QPU_UF_ANDNC = 10"
| "uf_num V3D_QPU_UF_NORNC = 11"
| "uf_num V3D_QPU_UF_NORC = 12"

primrec pack_num :: "v3d_qpu_output_pack \<Rightarrow> u32" where
  "pack_num V3D_QPU_PACK_NONE = 0"
| "pack_num V3D_QPU_PACK_L = 1"
| "pack_num V3D_QPU_PACK_H = 2"

primrec mux_num :: "v3d_qpu_mux \<Rightarrow> u32" where
  "mux_num V3D_QPU_MUX_R0 = 0"
| "mux_num V3D_QPU_MUX_R1 = 1"
| "mux_num V3D_QPU_MUX_R2 = 2"
| "mux_num V3D_QPU_MUX_R3 = 3"
| "mux_num V3D_QPU_MUX_R4 = 4"
| "mux_num V3D_QPU_MUX_R5 = 5"
| "mux_num V3D_QPU_MUX_A = 6"
| "mux_num V3D_QPU_MUX_B = 7"

primrec branch_cond_num :: "v3d_qpu_branch_cond \<Rightarrow> u32" where
  "branch_cond_num V3D_QPU_BRANCH_COND_ALWAYS = 0"
| "branch_cond_num V3D_QPU_BRANCH_COND_A0 = 1"
| "branch_cond_num V3D_QPU_BRANCH_COND_NA0 = 2"
| "branch_cond_num V3D_QPU_BRANCH_COND_ALLA = 3"
| "branch_cond_num V3D_QPU_BRANCH_COND_ANYNA = 4"
| "branch_cond_num V3D_QPU_BRANCH_COND_ANYA = 5"
| "branch_cond_num V3D_QPU_BRANCH_COND_ALLNA = 6"

primrec msfign_num :: "v3d_qpu_msfign \<Rightarrow> u32" where
  "msfign_num V3D_QPU_MSFIGN_NONE = 0"
| "msfign_num V3D_QPU_MSFIGN_P = 1"
| "msfign_num V3D_QPU_MSFIGN_Q = 2"

primrec branch_dest_num :: "v3d_qpu_branch_dest \<Rightarrow> u32" where
  "branch_dest_num V3D_QPU_BRANCH_DEST_ABS = 0"
| "branch_dest_num V3D_QPU_BRANCH_DEST_REL = 1"
| "branch_dest_num V3D_QPU_BRANCH_DEST_LINK_REG = 2"
| "branch_dest_num V3D_QPU_BRANCH_DEST_REGFILE = 3"

text \<open>A number assigned to an enumeration; out of its range there is no constant to name.\<close>

definition cond_of :: "u32 \<Rightarrow> v3d_qpu_cond" where
  "cond_of n =
    [V3D_QPU_COND_NONE, V3D_QPU_COND_IFA, V3D_QPU_COND_IFB, V3D_QPU_COND_IFNA, V3D_QPU_COND_IFNB] ! unat n"

definition pf_of :: "u32 \<Rightarrow> v3d_qpu_pf" where
  "pf_of n =
    [V3D_QPU_PF_NONE, V3D_QPU_PF_PUSHZ, V3D_QPU_PF_PUSHN, V3D_QPU_PF_PUSHC] ! unat n"

definition uf_of :: "u32 \<Rightarrow> v3d_qpu_uf" where
  "uf_of n =
    [V3D_QPU_UF_NONE, V3D_QPU_UF_ANDZ, V3D_QPU_UF_ANDNZ, V3D_QPU_UF_NORNZ, V3D_QPU_UF_NORZ,
     V3D_QPU_UF_ANDN, V3D_QPU_UF_ANDNN, V3D_QPU_UF_NORNN, V3D_QPU_UF_NORN, V3D_QPU_UF_ANDC,
     V3D_QPU_UF_ANDNC, V3D_QPU_UF_NORNC, V3D_QPU_UF_NORC] ! unat n"

definition pack_of :: "u32 \<Rightarrow> v3d_qpu_output_pack" where
  "pack_of n =
    [V3D_QPU_PACK_NONE, V3D_QPU_PACK_L, V3D_QPU_PACK_H] ! unat n"

definition mux_of :: "u32 \<Rightarrow> v3d_qpu_mux" where
  "mux_of n =
    [V3D_QPU_MUX_R0, V3D_QPU_MUX_R1, V3D_QPU_MUX_R2, V3D_QPU_MUX_R3, V3D_QPU_MUX_R4,
     V3D_QPU_MUX_R5, V3D_QPU_MUX_A, V3D_QPU_MUX_B] ! unat n"

definition branch_cond_of :: "u32 \<Rightarrow> v3d_qpu_branch_cond" where
  "branch_cond_of n =
    [V3D_QPU_BRANCH_COND_ALWAYS, V3D_QPU_BRANCH_COND_A0, V3D_QPU_BRANCH_COND_NA0,
     V3D_QPU_BRANCH_COND_ALLA, V3D_QPU_BRANCH_COND_ANYNA, V3D_QPU_BRANCH_COND_ANYA,
     V3D_QPU_BRANCH_COND_ALLNA] ! unat n"

definition msfign_of :: "u32 \<Rightarrow> v3d_qpu_msfign" where
  "msfign_of n =
    [V3D_QPU_MSFIGN_NONE, V3D_QPU_MSFIGN_P, V3D_QPU_MSFIGN_Q] ! unat n"

definition branch_dest_of :: "u32 \<Rightarrow> v3d_qpu_branch_dest" where
  "branch_dest_of n =
    [V3D_QPU_BRANCH_DEST_ABS, V3D_QPU_BRANCH_DEST_REL, V3D_QPU_BRANCH_DEST_LINK_REG,
     V3D_QPU_BRANCH_DEST_REGFILE] ! unat n"

section \<open>Names\<close>

text \<open>
  \<open>v3d_qpu_magic_waddr_name\<close> reads an array of 56 pointers without looking at the index: the result
  is \<^term>\<open>None\<close> for a read outside of the array and \<^term>\<open>Some None\<close> for an element the
  initializer leaves NULL.
\<close>

primrec waddr_name :: "v3d_qpu_waddr \<Rightarrow> string" where
  "waddr_name V3D_QPU_WADDR_R0 = ''r0''"
| "waddr_name V3D_QPU_WADDR_R1 = ''r1''"
| "waddr_name V3D_QPU_WADDR_R2 = ''r2''"
| "waddr_name V3D_QPU_WADDR_R3 = ''r3''"
| "waddr_name V3D_QPU_WADDR_R4 = ''r4''"
| "waddr_name V3D_QPU_WADDR_R5 = ''r5''"
| "waddr_name V3D_QPU_WADDR_NOP = ''-''"
| "waddr_name V3D_QPU_WADDR_TLB = ''tlb''"
| "waddr_name V3D_QPU_WADDR_TLBU = ''tlbu''"
| "waddr_name V3D_QPU_WADDR_TMU = ''tmu''"
| "waddr_name V3D_QPU_WADDR_TMUL = ''tmul''"
| "waddr_name V3D_QPU_WADDR_TMUD = ''tmud''"
| "waddr_name V3D_QPU_WADDR_TMUA = ''tmua''"
| "waddr_name V3D_QPU_WADDR_TMUAU = ''tmuau''"
| "waddr_name V3D_QPU_WADDR_VPM = ''vpm''"
| "waddr_name V3D_QPU_WADDR_VPMU = ''vpmu''"
| "waddr_name V3D_QPU_WADDR_SYNC = ''sync''"
| "waddr_name V3D_QPU_WADDR_SYNCU = ''syncu''"
| "waddr_name V3D_QPU_WADDR_SYNCB = ''syncb''"
| "waddr_name V3D_QPU_WADDR_RECIP = ''recip''"
| "waddr_name V3D_QPU_WADDR_RSQRT = ''rsqrt''"
| "waddr_name V3D_QPU_WADDR_EXP = ''exp''"
| "waddr_name V3D_QPU_WADDR_LOG = ''log''"
| "waddr_name V3D_QPU_WADDR_SIN = ''sin''"
| "waddr_name V3D_QPU_WADDR_RSQRT2 = ''rsqrt2''"
| "waddr_name V3D_QPU_WADDR_TMUC = ''tmuc''"
| "waddr_name V3D_QPU_WADDR_TMUS = ''tmus''"
| "waddr_name V3D_QPU_WADDR_TMUT = ''tmut''"
| "waddr_name V3D_QPU_WADDR_TMUR = ''tmur''"
| "waddr_name V3D_QPU_WADDR_TMUI = ''tmui''"
| "waddr_name V3D_QPU_WADDR_TMUB = ''tmub''"
| "waddr_name V3D_QPU_WADDR_TMUDREF = ''tmudref''"
| "waddr_name V3D_QPU_WADDR_TMUOFF = ''tmuoff''"
| "waddr_name V3D_QPU_WADDR_TMUSCM = ''tmuscm''"
| "waddr_name V3D_QPU_WADDR_TMUSF = ''tmusf''"
| "waddr_name V3D_QPU_WADDR_TMUSLOD = ''tmuslod''"
| "waddr_name V3D_QPU_WADDR_TMUHS = ''tmuhs''"
| "waddr_name V3D_QPU_WADDR_TMUHSCM = ''tmuscm''"
| "waddr_name V3D_QPU_WADDR_TMUHSF = ''tmuhsf''"
| "waddr_name V3D_QPU_WADDR_TMUHSLOD = ''tmuhslod''"
| "waddr_name V3D_QPU_WADDR_R5REP = ''r5rep''"

definition all_waddrs :: "v3d_qpu_waddr list" where
  "all_waddrs =
    [V3D_QPU_WADDR_R0, V3D_QPU_WADDR_R1, V3D_QPU_WADDR_R2, V3D_QPU_WADDR_R3,
     V3D_QPU_WADDR_R4, V3D_QPU_WADDR_R5, V3D_QPU_WADDR_NOP, V3D_QPU_WADDR_TLB,
     V3D_QPU_WADDR_TLBU, V3D_QPU_WADDR_TMU, V3D_QPU_WADDR_TMUL, V3D_QPU_WADDR_TMUD,
     V3D_QPU_WADDR_TMUA, V3D_QPU_WADDR_TMUAU, V3D_QPU_WADDR_VPM, V3D_QPU_WADDR_VPMU,
     V3D_QPU_WADDR_SYNC, V3D_QPU_WADDR_SYNCU, V3D_QPU_WADDR_SYNCB, V3D_QPU_WADDR_RECIP,
     V3D_QPU_WADDR_RSQRT, V3D_QPU_WADDR_EXP, V3D_QPU_WADDR_LOG, V3D_QPU_WADDR_SIN,
     V3D_QPU_WADDR_RSQRT2, V3D_QPU_WADDR_TMUC, V3D_QPU_WADDR_TMUS, V3D_QPU_WADDR_TMUT,
     V3D_QPU_WADDR_TMUR, V3D_QPU_WADDR_TMUI, V3D_QPU_WADDR_TMUB, V3D_QPU_WADDR_TMUDREF,
     V3D_QPU_WADDR_TMUOFF, V3D_QPU_WADDR_TMUSCM, V3D_QPU_WADDR_TMUSF, V3D_QPU_WADDR_TMUSLOD,
     V3D_QPU_WADDR_TMUHS, V3D_QPU_WADDR_TMUHSCM, V3D_QPU_WADDR_TMUHSF, V3D_QPU_WADDR_TMUHSLOD,
     V3D_QPU_WADDR_R5REP]"

definition v3d_qpu_magic_waddr_name :: "u8 \<Rightarrow> string option option" where
  "v3d_qpu_magic_waddr_name waddr =
    (if 55 < waddr then None
     else Some (map_option waddr_name (find (\<lambda>w. waddr_num w = waddr) all_waddrs)))"

primrec v3d_qpu_add_op_name :: "v3d_qpu_add_op \<Rightarrow> string" where
  "v3d_qpu_add_op_name V3D_QPU_A_FADD = ''fadd''"
| "v3d_qpu_add_op_name V3D_QPU_A_FADDNF = ''faddnf''"
| "v3d_qpu_add_op_name V3D_QPU_A_VFPACK = ''vfpack''"
| "v3d_qpu_add_op_name V3D_QPU_A_ADD = ''add''"
| "v3d_qpu_add_op_name V3D_QPU_A_SUB = ''sub''"
| "v3d_qpu_add_op_name V3D_QPU_A_FSUB = ''fsub''"
| "v3d_qpu_add_op_name V3D_QPU_A_MIN = ''min''"
| "v3d_qpu_add_op_name V3D_QPU_A_MAX = ''max''"
| "v3d_qpu_add_op_name V3D_QPU_A_UMIN = ''umin''"
| "v3d_qpu_add_op_name V3D_QPU_A_UMAX = ''umax''"
| "v3d_qpu_add_op_name V3D_QPU_A_SHL = ''shl''"
| "v3d_qpu_add_op_name V3D_QPU_A_SHR = ''shr''"
| "v3d_qpu_add_op_name V3D_QPU_A_ASR = ''asr''"
| "v3d_qpu_add_op_name V3D_QPU_A_ROR = ''ror''"
| "v3d_qpu_add_op_name V3D_QPU_A_FMIN = ''fmin''"
| "v3d_qpu_add_op_name V3D_QPU_A_FMAX = ''fmax''"
| "v3d_qpu_add_op_name V3D_QPU_A_VFMIN = ''vfmin''"
| "v3d_qpu_add_op_name V3D_QPU_A_AND = ''and''"
| "v3d_qpu_add_op_name V3D_QPU_A_OR = ''or''"
| "v3d_qpu_add_op_name V3D_QPU_A_XOR = ''xor''"
| "v3d_qpu_add_op_name V3D_QPU_A_VADD = ''vadd''"
| "v3d_qpu_add_op_name V3D_QPU_A_VSUB = ''vsub''"
| "v3d_qpu_add_op_name V3D_QPU_A_NOT = ''not''"
| "v3d_qpu_add_op_name V3D_QPU_A_NEG = ''neg''"
| "v3d_qpu_add_op_name V3D_QPU_A_FLAPUSH = ''flapush''"
| "v3d_qpu_add_op_name V3D_QPU_A_FLBPUSH = ''flbpush''"
| "v3d_qpu_add_op_name V3D_QPU_A_FLBPOP = ''flbpop''"
| "v3d_qpu_add_op_name V3D_QPU_A_SETMSF = ''setmsf''"
| "v3d_qpu_add_op_name V3D_QPU_A_SETREVF = ''setrevf''"
| "v3d_qpu_add_op_name V3D_QPU_A_NOP = ''nop''"
| "v3d_qpu_add_op_name V3D_QPU_A_TIDX = ''tidx''"
| "v3d_qpu_add_op_name V3D_QPU_A_EIDX = ''eidx''"
| "v3d_qpu_add_op_name V3D_QPU_A_LR = ''lr''"
| "v3d_qpu_add_op_name V3D_QPU_A_VFLA = ''vfla''"
| "v3d_qpu_add_op_name V3D_QPU_A_VFLNA = ''vflna''"
| "v3d_qpu_add_op_name V3D_QPU_A_VFLB = ''vflb''"
| "v3d_qpu_add_op_name V3D_QPU_A_VFLNB = ''vflnb''"
| "v3d_qpu_add_op_name V3D_QPU_A_FXCD = ''fxcd''"
| "v3d_qpu_add_op_name V3D_QPU_A_XCD = ''xcd''"
| "v3d_qpu_add_op_name V3D_QPU_A_FYCD = ''fycd''"
| "v3d_qpu_add_op_name V3D_QPU_A_YCD = ''ycd''"
| "v3d_qpu_add_op_name V3D_QPU_A_MSF = ''msf''"
| "v3d_qpu_add_op_name V3D_QPU_A_REVF = ''revf''"
| "v3d_qpu_add_op_name V3D_QPU_A_VDWWT = ''vdwwt''"
| "v3d_qpu_add_op_name V3D_QPU_A_IID = ''iid''"
| "v3d_qpu_add_op_name V3D_QPU_A_SAMPID = ''sampid''"
| "v3d_qpu_add_op_name V3D_QPU_A_BARRIERID = ''barrierid''"
| "v3d_qpu_add_op_name V3D_QPU_A_TMUWT = ''tmuwt''"
| "v3d_qpu_add_op_name V3D_QPU_A_VPMSETUP = ''vpmsetup''"
| "v3d_qpu_add_op_name V3D_QPU_A_VPMWT = ''vpmwt''"
| "v3d_qpu_add_op_name V3D_QPU_A_LDVPMV_IN = ''ldvpmv_in''"
| "v3d_qpu_add_op_name V3D_QPU_A_LDVPMV_OUT = ''ldvpmv_out''"
| "v3d_qpu_add_op_name V3D_QPU_A_LDVPMD_IN = ''ldvpmd_in''"
| "v3d_qpu_add_op_name V3D_QPU_A_LDVPMD_OUT = ''ldvpmd_out''"
| "v3d_qpu_add_op_name V3D_QPU_A_LDVPMP = ''ldvpmp''"
| "v3d_qpu_add_op_name V3D_QPU_A_LDVPMG_IN = ''ldvpmg_in''"
| "v3d_qpu_add_op_name V3D_QPU_A_LDVPMG_OUT = ''ldvpmg_out''"
| "v3d_qpu_add_op_name V3D_QPU_A_FCMP = ''fcmp''"
| "v3d_qpu_add_op_name V3D_QPU_A_VFMAX = ''vfmax''"
| "v3d_qpu_add_op_name V3D_QPU_A_FROUND = ''fround''"
| "v3d_qpu_add_op_name V3D_QPU_A_FTOIN = ''ftoin''"
| "v3d_qpu_add_op_name V3D_QPU_A_FTRUNC = ''ftrunc''"
| "v3d_qpu_add_op_name V3D_QPU_A_FTOIZ = ''ftoiz''"
| "v3d_qpu_add_op_name V3D_QPU_A_FFLOOR = ''ffloor''"
| "v3d_qpu_add_op_name V3D_QPU_A_FTOUZ = ''ftouz''"
| "v3d_qpu_add_op_name V3D_QPU_A_FCEIL = ''fceil''"
| "v3d_qpu_add_op_name V3D_QPU_A_FTOC = ''ftoc''"
| "v3d_qpu_add_op_name V3D_QPU_A_FDX = ''fdx''"
| "v3d_qpu_add_op_name V3D_QPU_A_FDY = ''fdy''"
| "v3d_qpu_add_op_name V3D_QPU_A_STVPMV = ''stvpmv''"
| "v3d_qpu_add_op_name V3D_QPU_A_STVPMD = ''stvpmd''"
| "v3d_qpu_add_op_name V3D_QPU_A_STVPMP = ''stvpmp''"
| "v3d_qpu_add_op_name V3D_QPU_A_ITOF = ''itof''"
| "v3d_qpu_add_op_name V3D_QPU_A_CLZ = ''clz''"
| "v3d_qpu_add_op_name V3D_QPU_A_UTOF = ''utof''"

primrec v3d_qpu_mul_op_name :: "v3d_qpu_mul_op \<Rightarrow> string" where
  "v3d_qpu_mul_op_name V3D_QPU_M_ADD = ''add''"
| "v3d_qpu_mul_op_name V3D_QPU_M_SUB = ''sub''"
| "v3d_qpu_mul_op_name V3D_QPU_M_UMUL24 = ''umul24''"
| "v3d_qpu_mul_op_name V3D_QPU_M_VFMUL = ''vfmul''"
| "v3d_qpu_mul_op_name V3D_QPU_M_SMUL24 = ''smul24''"
| "v3d_qpu_mul_op_name V3D_QPU_M_MULTOP = ''multop''"
| "v3d_qpu_mul_op_name V3D_QPU_M_FMOV = ''fmov''"
| "v3d_qpu_mul_op_name V3D_QPU_M_MOV = ''mov''"
| "v3d_qpu_mul_op_name V3D_QPU_M_NOP = ''nop''"
| "v3d_qpu_mul_op_name V3D_QPU_M_FMUL = ''fmul''"

primrec v3d_qpu_cond_name :: "v3d_qpu_cond \<Rightarrow> string" where
  "v3d_qpu_cond_name V3D_QPU_COND_NONE = ''''"
| "v3d_qpu_cond_name V3D_QPU_COND_IFA = ''.ifa''"
| "v3d_qpu_cond_name V3D_QPU_COND_IFB = ''.ifb''"
| "v3d_qpu_cond_name V3D_QPU_COND_IFNA = ''.ifna''"
| "v3d_qpu_cond_name V3D_QPU_COND_IFNB = ''.ifnb''"

primrec v3d_qpu_branch_cond_name :: "v3d_qpu_branch_cond \<Rightarrow> string" where
  "v3d_qpu_branch_cond_name V3D_QPU_BRANCH_COND_ALWAYS = ''''"
| "v3d_qpu_branch_cond_name V3D_QPU_BRANCH_COND_A0 = ''.a0''"
| "v3d_qpu_branch_cond_name V3D_QPU_BRANCH_COND_NA0 = ''.na0''"
| "v3d_qpu_branch_cond_name V3D_QPU_BRANCH_COND_ALLA = ''.alla''"
| "v3d_qpu_branch_cond_name V3D_QPU_BRANCH_COND_ANYNA = ''.anyna''"
| "v3d_qpu_branch_cond_name V3D_QPU_BRANCH_COND_ANYA = ''.anya''"
| "v3d_qpu_branch_cond_name V3D_QPU_BRANCH_COND_ALLNA = ''.allna''"

primrec v3d_qpu_msfign_name :: "v3d_qpu_msfign \<Rightarrow> string" where
  "v3d_qpu_msfign_name V3D_QPU_MSFIGN_NONE = ''''"
| "v3d_qpu_msfign_name V3D_QPU_MSFIGN_P = ''p''"
| "v3d_qpu_msfign_name V3D_QPU_MSFIGN_Q = ''q''"

primrec v3d_qpu_pf_name :: "v3d_qpu_pf \<Rightarrow> string" where
  "v3d_qpu_pf_name V3D_QPU_PF_NONE = ''''"
| "v3d_qpu_pf_name V3D_QPU_PF_PUSHZ = ''.pushz''"
| "v3d_qpu_pf_name V3D_QPU_PF_PUSHN = ''.pushn''"
| "v3d_qpu_pf_name V3D_QPU_PF_PUSHC = ''.pushc''"

primrec v3d_qpu_uf_name :: "v3d_qpu_uf \<Rightarrow> string" where
  "v3d_qpu_uf_name V3D_QPU_UF_NONE = ''''"
| "v3d_qpu_uf_name V3D_QPU_UF_ANDZ = ''.andz''"
| "v3d_qpu_uf_name V3D_QPU_UF_ANDNZ = ''.andnz''"
| "v3d_qpu_uf_name V3D_QPU_UF_NORNZ = ''.nornz''"
| "v3d_qpu_uf_name V3D_QPU_UF_NORZ = ''.norz''"
| "v3d_qpu_uf_name V3D_QPU_UF_ANDN = ''.andn''"
| "v3d_qpu_uf_name V3D_QPU_UF_ANDNN = ''.andnn''"
| "v3d_qpu_uf_name V3D_QPU_UF_NORNN = ''.nornn''"
| "v3d_qpu_uf_name V3D_QPU_UF_NORN = ''.norn''"
| "v3d_qpu_uf_name V3D_QPU_UF_ANDC = ''.andc''"
| "v3d_qpu_uf_name V3D_QPU_UF_ANDNC = ''.andnc''"
| "v3d_qpu_uf_name V3D_QPU_UF_NORNC = ''.nornc''"
| "v3d_qpu_uf_name V3D_QPU_UF_NORC = ''.norc''"

primrec v3d_qpu_pack_name :: "v3d_qpu_output_pack \<Rightarrow> string" where
  "v3d_qpu_pack_name V3D_QPU_PACK_NONE = ''''"
| "v3d_qpu_pack_name V3D_QPU_PACK_L = ''.l''"
| "v3d_qpu_pack_name V3D_QPU_PACK_H = ''.h''"

primrec v3d_qpu_unpack_name :: "v3d_qpu_input_unpack \<Rightarrow> string" where
  "v3d_qpu_unpack_name V3D_QPU_UNPACK_NONE = ''''"
| "v3d_qpu_unpack_name V3D_QPU_UNPACK_ABS = ''.abs''"
| "v3d_qpu_unpack_name V3D_QPU_UNPACK_L = ''.l''"
| "v3d_qpu_unpack_name V3D_QPU_UNPACK_H = ''.h''"
| "v3d_qpu_unpack_name V3D_QPU_UNPACK_REPLICATE_32F_16 = ''.ff''"
| "v3d_qpu_unpack_name V3D_QPU_UNPACK_REPLICATE_L_16 = ''.ll''"
| "v3d_qpu_unpack_name V3D_QPU_UNPACK_REPLICATE_H_16 = ''.hh''"
| "v3d_qpu_unpack_name V3D_QPU_UNPACK_SWAP_16 = ''.swp''"

section \<open>Operands\<close>

definition ARG_D :: u8 where
  "ARG_D = 1"

definition ARG_A :: u8 where
  "ARG_A = 2"

definition ARG_B :: u8 where
  "ARG_B = 4"

primrec add_op_args :: "v3d_qpu_add_op \<Rightarrow> u8" where
  "add_op_args V3D_QPU_A_FADD = ARG_D OR ARG_A OR ARG_B"
| "add_op_args V3D_QPU_A_FADDNF = ARG_D OR ARG_A OR ARG_B"
| "add_op_args V3D_QPU_A_VFPACK = ARG_D OR ARG_A OR ARG_B"
| "add_op_args V3D_QPU_A_ADD = ARG_D OR ARG_A OR ARG_B"
| "add_op_args V3D_QPU_A_SUB = ARG_D OR ARG_A OR ARG_B"
| "add_op_args V3D_QPU_A_FSUB = ARG_D OR ARG_A OR ARG_B"
| "add_op_args V3D_QPU_A_MIN = ARG_D OR ARG_A OR ARG_B"
| "add_op_args V3D_QPU_A_MAX = ARG_D OR ARG_A OR ARG_B"
| "add_op_args V3D_QPU_A_UMIN = ARG_D OR ARG_A OR ARG_B"
| "add_op_args V3D_QPU_A_UMAX = ARG_D OR ARG_A OR ARG_B"
| "add_op_args V3D_QPU_A_SHL = ARG_D OR ARG_A OR ARG_B"
| "add_op_args V3D_QPU_A_SHR = ARG_D OR ARG_A OR ARG_B"
| "add_op_args V3D_QPU_A_ASR = ARG_D OR ARG_A OR ARG_B"
| "add_op_args V3D_QPU_A_ROR = ARG_D OR ARG_A OR ARG_B"
| "add_op_args V3D_QPU_A_FMIN = ARG_D OR ARG_A OR ARG_B"
| "add_op_args V3D_QPU_A_FMAX = ARG_D OR ARG_A OR ARG_B"
| "add_op_args V3D_QPU_A_VFMIN = ARG_D OR ARG_A OR ARG_B"
| "add_op_args V3D_QPU_A_AND = ARG_D OR ARG_A OR ARG_B"
| "add_op_args V3D_QPU_A_OR = ARG_D OR ARG_A OR ARG_B"
| "add_op_args V3D_QPU_A_XOR = ARG_D OR ARG_A OR ARG_B"
| "add_op_args V3D_QPU_A_VADD = ARG_D OR ARG_A OR ARG_B"
| "add_op_args V3D_QPU_A_VSUB = ARG_D OR ARG_A OR ARG_B"
| "add_op_args V3D_QPU_A_NOT = ARG_D OR ARG_A"
| "add_op_args V3D_QPU_A_NEG = ARG_D OR ARG_A"
| "add_op_args V3D_QPU_A_FLAPUSH = ARG_D OR ARG_A"
| "add_op_args V3D_QPU_A_FLBPUSH = ARG_D OR ARG_A"
| "add_op_args V3D_QPU_A_FLBPOP = ARG_D OR ARG_A"
| "add_op_args V3D_QPU_A_SETMSF = ARG_D OR ARG_A"
| "add_op_args V3D_QPU_A_SETREVF = ARG_D OR ARG_A"
| "add_op_args V3D_QPU_A_NOP = 0"
| "add_op_args V3D_QPU_A_TIDX = ARG_D"
| "add_op_args V3D_QPU_A_EIDX = ARG_D"
| "add_op_args V3D_QPU_A_LR = ARG_D"
| "add_op_args V3D_QPU_A_VFLA = ARG_D"
| "add_op_args V3D_QPU_A_VFLNA = ARG_D"
| "add_op_args V3D_QPU_A_VFLB = ARG_D"
| "add_op_args V3D_QPU_A_VFLNB = ARG_D"
| "add_op_args V3D_QPU_A_FXCD = ARG_D"
| "add_op_args V3D_QPU_A_XCD = ARG_D"
| "add_op_args V3D_QPU_A_FYCD = ARG_D"
| "add_op_args V3D_QPU_A_YCD = ARG_D"
| "add_op_args V3D_QPU_A_MSF = ARG_D"
| "add_op_args V3D_QPU_A_REVF = ARG_D"
| "add_op_args V3D_QPU_A_VDWWT = ARG_D"
| "add_op_args V3D_QPU_A_IID = ARG_D"
| "add_op_args V3D_QPU_A_SAMPID = ARG_D"
| "add_op_args V3D_QPU_A_BARRIERID = ARG_D"
| "add_op_args V3D_QPU_A_TMUWT = ARG_D"
| "add_op_args V3D_QPU_A_VPMSETUP = ARG_D OR ARG_A"
| "add_op_args V3D_QPU_A_VPMWT = ARG_D"
| "add_op_args V3D_QPU_A_LDVPMV_IN = ARG_D OR ARG_A"
| "add_op_args V3D_QPU_A_LDVPMV_OUT = ARG_D OR ARG_A"
| "add_op_args V3D_QPU_A_LDVPMD_IN = ARG_D OR ARG_A"
| "add_op_args V3D_QPU_A_LDVPMD_OUT = ARG_D OR ARG_A"
| "add_op_args V3D_QPU_A_LDVPMP = ARG_D OR ARG_A"
| "add_op_args V3D_QPU_A_LDVPMG_IN = ARG_D OR ARG_A OR ARG_B"
| "add_op_args V3D_QPU_A_LDVPMG_OUT = ARG_D OR ARG_A OR ARG_B"
| "add_op_args V3D_QPU_A_FCMP = ARG_D OR ARG_A OR ARG_B"
| "add_op_args V3D_QPU_A_VFMAX = ARG_D OR ARG_A OR ARG_B"
| "add_op_args V3D_QPU_A_FROUND = ARG_D OR ARG_A"
| "add_op_args V3D_QPU_A_FTOIN = ARG_D OR ARG_A"
| "add_op_args V3D_QPU_A_FTRUNC = ARG_D OR ARG_A"
| "add_op_args V3D_QPU_A_FTOIZ = ARG_D OR ARG_A"
| "add_op_args V3D_QPU_A_FFLOOR = ARG_D OR ARG_A"
| "add_op_args V3D_QPU_A_FTOUZ = ARG_D OR ARG_A"
| "add_op_args V3D_QPU_A_FCEIL = ARG_D OR ARG_A"
| "add_op_args V3D_QPU_A_FTOC = ARG_D OR ARG_A"
| "add_op_args V3D_QPU_A_FDX = ARG_D OR ARG_A"
| "add_op_args V3D_QPU_A_FDY = ARG_D OR ARG_A"
| "add_op_args V3D_QPU_A_STVPMV = ARG_A OR ARG_B"
| "add_op_args V3D_QPU_A_STVPMD = ARG_A OR ARG_B"
| "add_op_args V3D_QPU_A_STVPMP = ARG_A OR ARG_B"
| "add_op_args V3D_QPU_A_ITOF = ARG_D OR ARG_A"
| "add_op_args V3D_QPU_A_CLZ = ARG_D OR ARG_A"
| "add_op_args V3D_QPU_A_UTOF = ARG_D OR ARG_A"

primrec mul_op_args :: "v3d_qpu_mul_op \<Rightarrow> u8" where
  "mul_op_args V3D_QPU_M_ADD = ARG_D OR ARG_A OR ARG_B"
| "mul_op_args V3D_QPU_M_SUB = ARG_D OR ARG_A OR ARG_B"
| "mul_op_args V3D_QPU_M_UMUL24 = ARG_D OR ARG_A OR ARG_B"
| "mul_op_args V3D_QPU_M_VFMUL = ARG_D OR ARG_A OR ARG_B"
| "mul_op_args V3D_QPU_M_SMUL24 = ARG_D OR ARG_A OR ARG_B"
| "mul_op_args V3D_QPU_M_MULTOP = ARG_D OR ARG_A OR ARG_B"
| "mul_op_args V3D_QPU_M_FMOV = ARG_D OR ARG_A"
| "mul_op_args V3D_QPU_M_MOV = ARG_D OR ARG_A"
| "mul_op_args V3D_QPU_M_NOP = 0"
| "mul_op_args V3D_QPU_M_FMUL = ARG_D OR ARG_A OR ARG_B"

definition v3d_qpu_add_op_has_dst :: "v3d_qpu_add_op \<Rightarrow> bool" where
  "v3d_qpu_add_op_has_dst op \<longleftrightarrow> add_op_args op AND ARG_D \<noteq> 0"

definition v3d_qpu_mul_op_has_dst :: "v3d_qpu_mul_op \<Rightarrow> bool" where
  "v3d_qpu_mul_op_has_dst op \<longleftrightarrow> mul_op_args op AND ARG_D \<noteq> 0"

definition v3d_qpu_add_op_num_src :: "v3d_qpu_add_op \<Rightarrow> nat" where
  "v3d_qpu_add_op_num_src op =
    (let args = add_op_args op in
     if args AND ARG_B \<noteq> 0 then 2 else if args AND ARG_A \<noteq> 0 then 1 else 0)"

definition v3d_qpu_mul_op_num_src :: "v3d_qpu_mul_op \<Rightarrow> nat" where
  "v3d_qpu_mul_op_num_src op =
    (let args = mul_op_args op in
     if args AND ARG_B \<noteq> 0 then 2 else if args AND ARG_A \<noteq> 0 then 1 else 0)"

section \<open>Predicates\<close>

definition v3d_qpu_magic_waddr_is_sfu :: "u8 \<Rightarrow> bool" where
  "v3d_qpu_magic_waddr_is_sfu waddr \<longleftrightarrow>
    waddr \<in> set (map waddr_num
      [V3D_QPU_WADDR_RECIP, V3D_QPU_WADDR_RSQRT, V3D_QPU_WADDR_EXP, V3D_QPU_WADDR_LOG,
       V3D_QPU_WADDR_SIN, V3D_QPU_WADDR_RSQRT2])"

definition v3d_qpu_magic_waddr_is_tmu :: "u8 \<Rightarrow> bool" where
  "v3d_qpu_magic_waddr_is_tmu waddr \<longleftrightarrow>
    (waddr_num V3D_QPU_WADDR_TMU \<le> waddr \<and> waddr \<le> waddr_num V3D_QPU_WADDR_TMUAU) \<or>
    (waddr_num V3D_QPU_WADDR_TMUC \<le> waddr \<and> waddr \<le> waddr_num V3D_QPU_WADDR_TMUHSLOD)"

definition v3d_qpu_magic_waddr_is_tlb :: "u8 \<Rightarrow> bool" where
  "v3d_qpu_magic_waddr_is_tlb waddr \<longleftrightarrow>
    waddr = waddr_num V3D_QPU_WADDR_TLB \<or> waddr = waddr_num V3D_QPU_WADDR_TLBU"

definition v3d_qpu_magic_waddr_is_vpm :: "u8 \<Rightarrow> bool" where
  "v3d_qpu_magic_waddr_is_vpm waddr \<longleftrightarrow>
    waddr = waddr_num V3D_QPU_WADDR_VPM \<or> waddr = waddr_num V3D_QPU_WADDR_VPMU"

definition v3d_qpu_magic_waddr_is_tsy :: "u8 \<Rightarrow> bool" where
  "v3d_qpu_magic_waddr_is_tsy waddr \<longleftrightarrow>
    waddr = waddr_num V3D_QPU_WADDR_SYNC \<or> waddr = waddr_num V3D_QPU_WADDR_SYNCU"

definition v3d_qpu_add_op_reads_vpm :: "v3d_qpu_add_op \<Rightarrow> bool" where
  "v3d_qpu_add_op_reads_vpm op \<longleftrightarrow>
    op \<in> {V3D_QPU_A_VPMSETUP, V3D_QPU_A_VPMWT, V3D_QPU_A_LDVPMV_IN, V3D_QPU_A_LDVPMV_OUT,
          V3D_QPU_A_LDVPMD_IN, V3D_QPU_A_LDVPMD_OUT, V3D_QPU_A_LDVPMP, V3D_QPU_A_LDVPMG_IN,
          V3D_QPU_A_LDVPMG_OUT}"

definition v3d_qpu_add_op_writes_vpm :: "v3d_qpu_add_op \<Rightarrow> bool" where
  "v3d_qpu_add_op_writes_vpm op \<longleftrightarrow>
    op \<in> {V3D_QPU_A_VPMSETUP, V3D_QPU_A_VPMWT, V3D_QPU_A_STVPMV, V3D_QPU_A_STVPMD,
          V3D_QPU_A_STVPMP}"

definition v3d_qpu_uses_tlb :: "v3d_qpu_instr \<Rightarrow> bool" where
  "v3d_qpu_uses_tlb inst \<longleftrightarrow>
     ldtlb (sig inst) \<or> ldtlbu (sig inst)
   \<or> (itype inst = V3D_QPU_INSTR_TYPE_ALU \<and>
      ((magic_write (add (alu inst)) \<and> v3d_qpu_magic_waddr_is_tlb (alu_waddr (add (alu inst)))) \<or>
       (magic_write (mul (alu inst)) \<and> v3d_qpu_magic_waddr_is_tlb (alu_waddr (mul (alu inst))))))"

definition v3d_qpu_writes_tmu :: "v3d_qpu_instr \<Rightarrow> bool" where
  "v3d_qpu_writes_tmu inst \<longleftrightarrow>
     itype inst = V3D_QPU_INSTR_TYPE_ALU \<and>
     ((magic_write (add (alu inst)) \<and> v3d_qpu_magic_waddr_is_tmu (alu_waddr (add (alu inst)))) \<or>
      (magic_write (mul (alu inst)) \<and> v3d_qpu_magic_waddr_is_tmu (alu_waddr (mul (alu inst)))))"

definition v3d_qpu_reads_vpm :: "v3d_qpu_instr \<Rightarrow> bool" where
  "v3d_qpu_reads_vpm inst \<longleftrightarrow>
     ldvpm (sig inst)
   \<or> (itype inst = V3D_QPU_INSTR_TYPE_ALU \<and> v3d_qpu_add_op_reads_vpm (alu_op (add (alu inst))))"

definition v3d_qpu_writes_vpm :: "v3d_qpu_instr \<Rightarrow> bool" where
  "v3d_qpu_writes_vpm inst \<longleftrightarrow>
     itype inst = V3D_QPU_INSTR_TYPE_ALU \<and>
     (v3d_qpu_add_op_writes_vpm (alu_op (add (alu inst))) \<or>
      (magic_write (add (alu inst)) \<and> v3d_qpu_magic_waddr_is_vpm (alu_waddr (add (alu inst)))) \<or>
      (magic_write (mul (alu inst)) \<and> v3d_qpu_magic_waddr_is_vpm (alu_waddr (mul (alu inst)))))"

definition v3d_qpu_uses_vpm :: "v3d_qpu_instr \<Rightarrow> bool" where
  "v3d_qpu_uses_vpm inst \<longleftrightarrow> v3d_qpu_reads_vpm inst \<or> v3d_qpu_writes_vpm inst"

definition v3d_qpu_sig_writes_address :: "v3d_device_info \<Rightarrow> v3d_qpu_sig \<Rightarrow> bool" where
  "v3d_qpu_sig_writes_address devinfo s \<longleftrightarrow>
    (if ver devinfo < 41 then False
     else ldunifrf s \<or> ldunifarf s \<or> ldvary s \<or> ldtmu s \<or> ldtlb s \<or> ldtlbu s)"

definition v3d_qpu_writes_r3 :: "v3d_device_info \<Rightarrow> v3d_qpu_instr \<Rightarrow> bool" where
  "v3d_qpu_writes_r3 devinfo inst \<longleftrightarrow>
     (itype inst = V3D_QPU_INSTR_TYPE_ALU \<and>
      ((magic_write (add (alu inst)) \<and> alu_waddr (add (alu inst)) = waddr_num V3D_QPU_WADDR_R3) \<or>
       (magic_write (mul (alu inst)) \<and> alu_waddr (mul (alu inst)) = waddr_num V3D_QPU_WADDR_R3)))
   \<or> (v3d_qpu_sig_writes_address devinfo (sig inst) \<and> sig_magic inst \<and>
      sig_addr inst = waddr_num V3D_QPU_WADDR_R3)
   \<or> ldvary (sig inst) \<or> ldvpm (sig inst)"

definition v3d_qpu_writes_r4 :: "v3d_device_info \<Rightarrow> v3d_qpu_instr \<Rightarrow> bool" where
  "v3d_qpu_writes_r4 devinfo inst \<longleftrightarrow>
     ldtmu (sig inst)
   \<or> (itype inst = V3D_QPU_INSTR_TYPE_ALU \<and>
      ((magic_write (add (alu inst)) \<and>
        (alu_waddr (add (alu inst)) = waddr_num V3D_QPU_WADDR_R4 \<or>
         v3d_qpu_magic_waddr_is_sfu (alu_waddr (add (alu inst))))) \<or>
       (magic_write (mul (alu inst)) \<and>
        (alu_waddr (mul (alu inst)) = waddr_num V3D_QPU_WADDR_R4 \<or>
         v3d_qpu_magic_waddr_is_sfu (alu_waddr (mul (alu inst)))))))
   \<or> (v3d_qpu_sig_writes_address devinfo (sig inst) \<and> sig_magic inst \<and>
      sig_addr inst = waddr_num V3D_QPU_WADDR_R4)"

definition v3d_qpu_writes_r5 :: "v3d_device_info \<Rightarrow> v3d_qpu_instr \<Rightarrow> bool" where
  "v3d_qpu_writes_r5 devinfo inst \<longleftrightarrow>
     (itype inst = V3D_QPU_INSTR_TYPE_ALU \<and>
      ((magic_write (add (alu inst)) \<and> alu_waddr (add (alu inst)) = waddr_num V3D_QPU_WADDR_R5) \<or>
       (magic_write (mul (alu inst)) \<and> alu_waddr (mul (alu inst)) = waddr_num V3D_QPU_WADDR_R5)))
   \<or> (v3d_qpu_sig_writes_address devinfo (sig inst) \<and> sig_magic inst \<and>
      sig_addr inst = waddr_num V3D_QPU_WADDR_R5)
   \<or> ldvary (sig inst) \<or> ldunif (sig inst) \<or> ldunifa (sig inst)"

definition v3d_qpu_uses_mux :: "v3d_qpu_instr \<Rightarrow> v3d_qpu_mux \<Rightarrow> bool" where
  "v3d_qpu_uses_mux inst mux \<longleftrightarrow>
    (let add_nsrc = v3d_qpu_add_op_num_src (alu_op (add (alu inst)));
         mul_nsrc = v3d_qpu_mul_op_num_src (alu_op (mul (alu inst)))
     in (0 < add_nsrc \<and> alu_a (add (alu inst)) = mux)
      \<or> (1 < add_nsrc \<and> alu_b (add (alu inst)) = mux)
      \<or> (0 < mul_nsrc \<and> alu_a (mul (alu inst)) = mux)
      \<or> (1 < mul_nsrc \<and> alu_b (mul (alu inst)) = mux))"

end
