(* ===== verification/QpuPack.thy ===== *)
theory QpuPack
  imports Qpu Bitset
begin

text \<open>
  The 64-bit encoding of QPU instructions, src/src/broadcom/qpu/qpu_pack.c: the bit fields, the
  tables of signals, flags and opcodes, and the packing and unpacking functions.  A function with
  an out-parameter and a \<open>bool\<close> result is an option; an unpacking function takes the structure it
  fills, whose fields it does not write keep their values.  The assertions of \<open>QPU_SET_FIELD\<close> and
  of \<open>v3d_qpu_add_pack\<close> are not part of a release build.
\<close>

section \<open>Bit fields\<close>

type_synonym field = "nat \<times> nat"

definition QPU_MASK :: "field \<Rightarrow> u64" where
  "QPU_MASK f = push_bit (snd f) (push_bit (fst f - snd f + 1) 1 - 1)"

definition QPU_SET_FIELD :: "u32 \<Rightarrow> field \<Rightarrow> u64" where
  "QPU_SET_FIELD v f = push_bit (snd f) (ucast v) AND QPU_MASK f"

definition QPU_GET_FIELD :: "u64 \<Rightarrow> field \<Rightarrow> u32" where
  "QPU_GET_FIELD w f = ucast (drop_bit (snd f) (w AND QPU_MASK f))"

definition VC5_QPU_OP_MUL :: field where
  "VC5_QPU_OP_MUL = (63, 58)"

definition VC5_QPU_SIG :: field where
  "VC5_QPU_SIG = (57, 53)"

definition VC5_QPU_COND :: field where
  "VC5_QPU_COND = (52, 46)"

definition VC5_QPU_COND_SIG_MAGIC_ADDR :: u32 where
  "VC5_QPU_COND_SIG_MAGIC_ADDR = push_bit 6 1"

definition VC5_QPU_MM :: u64 where
  "VC5_QPU_MM = QPU_MASK (45, 45)"

definition VC5_QPU_MA :: u64 where
  "VC5_QPU_MA = QPU_MASK (44, 44)"

definition V3D_QPU_WADDR_M :: field where
  "V3D_QPU_WADDR_M = (43, 38)"

definition VC5_QPU_BRANCH_ADDR_LOW :: field where
  "VC5_QPU_BRANCH_ADDR_LOW = (55, 35)"

definition V3D_QPU_WADDR_A :: field where
  "V3D_QPU_WADDR_A = (37, 32)"

definition VC5_QPU_BRANCH_COND :: field where
  "VC5_QPU_BRANCH_COND = (34, 32)"

definition VC5_QPU_BRANCH_ADDR_HIGH :: field where
  "VC5_QPU_BRANCH_ADDR_HIGH = (31, 24)"

definition VC5_QPU_OP_ADD :: field where
  "VC5_QPU_OP_ADD = (31, 24)"

definition VC5_QPU_MUL_B :: field where
  "VC5_QPU_MUL_B = (23, 21)"

definition VC5_QPU_BRANCH_MSFIGN :: field where
  "VC5_QPU_BRANCH_MSFIGN = (22, 21)"

definition VC5_QPU_MUL_A :: field where
  "VC5_QPU_MUL_A = (20, 18)"

definition VC5_QPU_ADD_B :: field where
  "VC5_QPU_ADD_B = (17, 15)"

definition VC5_QPU_BRANCH_BDU :: field where
  "VC5_QPU_BRANCH_BDU = (17, 15)"

definition VC5_QPU_BRANCH_UB :: u64 where
  "VC5_QPU_BRANCH_UB = QPU_MASK (14, 14)"

definition VC5_QPU_ADD_A :: field where
  "VC5_QPU_ADD_A = (14, 12)"

definition VC5_QPU_BRANCH_BDI :: field where
  "VC5_QPU_BRANCH_BDI = (13, 12)"

definition VC5_QPU_RADDR_A :: field where
  "VC5_QPU_RADDR_A = (11, 6)"

definition VC5_QPU_RADDR_B :: field where
  "VC5_QPU_RADDR_B = (5, 0)"

section \<open>Signals\<close>

definition no_sig :: v3d_qpu_sig where
  "no_sig = \<lparr>thrsw = False, ldunif = False, ldunifa = False, ldunifrf = False,
             ldunifarf = False, ldtmu = False, ldvary = False, ldvpm = False, ldtlb = False,
             ldtlbu = False, small_imm = False, ucb = False, rotate_sig = False,
             wrtmuc = False\<rparr>"

text \<open>The designated initializers.\<close>

definition THRSW :: "v3d_qpu_sig \<Rightarrow> v3d_qpu_sig" where
  "THRSW s = s\<lparr>thrsw := True\<rparr>"

definition LDUNIF :: "v3d_qpu_sig \<Rightarrow> v3d_qpu_sig" where
  "LDUNIF s = s\<lparr>ldunif := True\<rparr>"

definition LDUNIFRF :: "v3d_qpu_sig \<Rightarrow> v3d_qpu_sig" where
  "LDUNIFRF s = s\<lparr>ldunifrf := True\<rparr>"

definition LDUNIFA :: "v3d_qpu_sig \<Rightarrow> v3d_qpu_sig" where
  "LDUNIFA s = s\<lparr>ldunifa := True\<rparr>"

definition LDUNIFARF :: "v3d_qpu_sig \<Rightarrow> v3d_qpu_sig" where
  "LDUNIFARF s = s\<lparr>ldunifarf := True\<rparr>"

definition LDTMU :: "v3d_qpu_sig \<Rightarrow> v3d_qpu_sig" where
  "LDTMU s = s\<lparr>ldtmu := True\<rparr>"

definition LDVARY :: "v3d_qpu_sig \<Rightarrow> v3d_qpu_sig" where
  "LDVARY s = s\<lparr>ldvary := True\<rparr>"

definition LDVPM :: "v3d_qpu_sig \<Rightarrow> v3d_qpu_sig" where
  "LDVPM s = s\<lparr>ldvpm := True\<rparr>"

definition SMIMM :: "v3d_qpu_sig \<Rightarrow> v3d_qpu_sig" where
  "SMIMM s = s\<lparr>small_imm := True\<rparr>"

definition LDTLB :: "v3d_qpu_sig \<Rightarrow> v3d_qpu_sig" where
  "LDTLB s = s\<lparr>ldtlb := True\<rparr>"

definition LDTLBU :: "v3d_qpu_sig \<Rightarrow> v3d_qpu_sig" where
  "LDTLBU s = s\<lparr>ldtlbu := True\<rparr>"

definition UCB :: "v3d_qpu_sig \<Rightarrow> v3d_qpu_sig" where
  "UCB s = s\<lparr>ucb := True\<rparr>"

definition ROT :: "v3d_qpu_sig \<Rightarrow> v3d_qpu_sig" where
  "ROT s = s\<lparr>rotate_sig := True\<rparr>"

definition WRTMUC :: "v3d_qpu_sig \<Rightarrow> v3d_qpu_sig" where
  "WRTMUC s = s\<lparr>wrtmuc := True\<rparr>"

definition v33_sig_map :: "v3d_qpu_sig list" where
  "v33_sig_map =
    [no_sig, THRSW no_sig,
     LDUNIF no_sig, THRSW (LDUNIF no_sig),
     LDTMU no_sig, THRSW (LDTMU no_sig),
     LDTMU (LDUNIF no_sig), THRSW (LDTMU (LDUNIF no_sig)),
     LDVARY no_sig, THRSW (LDVARY no_sig),
     LDVARY (LDUNIF no_sig), THRSW (LDVARY (LDUNIF no_sig)),
     LDVARY (LDTMU no_sig), THRSW (LDVARY (LDTMU no_sig)),
     SMIMM (LDVARY no_sig), SMIMM no_sig,
     LDTLB no_sig, LDTLBU no_sig,
     no_sig, no_sig,
     no_sig, no_sig,
     UCB no_sig, ROT no_sig,
     LDVPM no_sig, THRSW (LDVPM no_sig),
     LDVPM (LDUNIF no_sig), THRSW (LDVPM (LDUNIF no_sig)),
     LDVPM (LDTMU no_sig), THRSW (LDVPM (LDTMU no_sig)),
     SMIMM (LDVPM no_sig), SMIMM no_sig]"

definition v40_sig_map :: "v3d_qpu_sig list" where
  "v40_sig_map =
    [no_sig, THRSW no_sig,
     LDUNIF no_sig, THRSW (LDUNIF no_sig),
     LDTMU no_sig, THRSW (LDTMU no_sig),
     LDTMU (LDUNIF no_sig), THRSW (LDTMU (LDUNIF no_sig)),
     LDVARY no_sig, THRSW (LDVARY no_sig),
     LDVARY (LDUNIF no_sig), THRSW (LDVARY (LDUNIF no_sig)),
     no_sig, no_sig,
     SMIMM (LDVARY no_sig), SMIMM no_sig,
     LDTLB no_sig, LDTLBU no_sig,
     WRTMUC no_sig, THRSW (WRTMUC no_sig),
     LDVARY (WRTMUC no_sig), THRSW (LDVARY (WRTMUC no_sig)),
     UCB no_sig, ROT no_sig,
     no_sig, no_sig,
     no_sig, no_sig,
     no_sig, no_sig,
     no_sig, SMIMM (LDTMU no_sig)]"

definition v41_sig_map :: "v3d_qpu_sig list" where
  "v41_sig_map =
    [no_sig, THRSW no_sig,
     LDUNIF no_sig, THRSW (LDUNIF no_sig),
     LDTMU no_sig, THRSW (LDTMU no_sig),
     LDTMU (LDUNIF no_sig), THRSW (LDTMU (LDUNIF no_sig)),
     LDVARY no_sig, THRSW (LDVARY no_sig),
     LDVARY (LDUNIF no_sig), THRSW (LDVARY (LDUNIF no_sig)),
     LDUNIFRF no_sig, THRSW (LDUNIFRF no_sig),
     SMIMM (LDVARY no_sig), SMIMM no_sig,
     LDTLB no_sig, LDTLBU no_sig,
     WRTMUC no_sig, THRSW (WRTMUC no_sig),
     LDVARY (WRTMUC no_sig), THRSW (LDVARY (WRTMUC no_sig)),
     UCB no_sig, ROT no_sig,
     LDUNIFA no_sig, LDUNIFARF no_sig,
     no_sig, no_sig,
     no_sig, no_sig,
     no_sig, SMIMM (LDTMU no_sig)]"

text \<open>The structures are zeroed before they are filled, so \<open>memcmp\<close> is equality.\<close>

definition sig_map :: "v3d_device_info \<Rightarrow> v3d_qpu_sig list" where
  "sig_map devinfo =
    (if 41 \<le> ver devinfo then v41_sig_map
     else if ver devinfo = 40 then v40_sig_map
     else v33_sig_map)"

definition v3d_qpu_sig_unpack :: "v3d_device_info \<Rightarrow> u32 \<Rightarrow> v3d_qpu_sig option" where
  "v3d_qpu_sig_unpack devinfo packed_sig =
    (if length v33_sig_map \<le> unat packed_sig then None
     else let s = sig_map devinfo ! unat packed_sig in
          if packed_sig = 0 \<or> s \<noteq> v33_sig_map ! 0 then Some s else None)"

definition v3d_qpu_sig_pack :: "v3d_device_info \<Rightarrow> v3d_qpu_sig \<Rightarrow> u32 option" where
  "v3d_qpu_sig_pack devinfo s =
    map_option of_nat (find (\<lambda>i. sig_map devinfo ! i = s) [0 ..< length v33_sig_map])"

section \<open>Small immediates\<close>

definition small_immediates :: "u32 list" where
  "small_immediates =
    [0, 1, 2, 3,
     4, 5, 6, 7,
     8, 9, 10, 11,
     12, 13, 14, 15,
     - 16, - 15, - 14, - 13,
     - 12, - 11, - 10, - 9,
     - 8, - 7, - 6, - 5,
     - 4, - 3, - 2, - 1,
     0x3b800000, 0x3c000000, 0x3c800000, 0x3d000000,
     0x3d800000, 0x3e000000, 0x3e800000, 0x3f000000,
     0x3f800000, 0x40000000, 0x40800000, 0x41000000,
     0x41800000, 0x42000000, 0x42800000, 0x43000000]"

definition v3d_qpu_small_imm_unpack :: "u32 \<Rightarrow> u32 option" where
  "v3d_qpu_small_imm_unpack packed =
    (if length small_immediates \<le> unat packed then None
     else Some (small_immediates ! unat packed))"

definition v3d_qpu_small_imm_pack :: "u32 \<Rightarrow> u32 option" where
  "v3d_qpu_small_imm_pack v =
    map_option of_nat (find (\<lambda>i. small_immediates ! i = v) [0 ..< length small_immediates])"

section \<open>Condition flags\<close>

definition no_flags :: v3d_qpu_flags where
  "no_flags = \<lparr>ac = V3D_QPU_COND_NONE, mc = V3D_QPU_COND_NONE, apf = V3D_QPU_PF_NONE,
               mpf = V3D_QPU_PF_NONE, auf = V3D_QPU_UF_NONE, muf = V3D_QPU_UF_NONE\<rparr>"

definition cond_map :: "v3d_qpu_cond list" where
  "cond_map = [V3D_QPU_COND_IFA, V3D_QPU_COND_IFB, V3D_QPU_COND_IFNA, V3D_QPU_COND_IFNB]"

definition v3d_qpu_flags_unpack :: "u32 \<Rightarrow> v3d_qpu_flags option" where
  "v3d_qpu_flags_unpack packed_cond =
    (if packed_cond = 0 then Some no_flags
     else if drop_bit 2 packed_cond = 0 then
       Some (no_flags\<lparr>apf := pf_of (packed_cond AND 0x3)\<rparr>)
     else if drop_bit 4 packed_cond = 0 then
       Some (no_flags\<lparr>auf := uf_of ((packed_cond AND 0xf) - 4 + uf_num V3D_QPU_UF_ANDZ)\<rparr>)
     else if packed_cond = 0x10 then None
     else if drop_bit 2 packed_cond = 0x4 then
       Some (no_flags\<lparr>mpf := pf_of (packed_cond AND 0x3)\<rparr>)
     else if drop_bit 4 packed_cond = 0x1 then
       Some (no_flags\<lparr>muf := uf_of ((packed_cond AND 0xf) - 4 + uf_num V3D_QPU_UF_ANDZ)\<rparr>)
     else if drop_bit 4 packed_cond = 0x2 then
       Some (no_flags\<lparr>ac := cond_of ((drop_bit 2 packed_cond AND 0x3) + cond_num V3D_QPU_COND_IFA),
                      mpf := pf_of (packed_cond AND 0x3)\<rparr>)
     else if drop_bit 4 packed_cond = 0x3 then
       Some (no_flags\<lparr>mc := cond_of ((drop_bit 2 packed_cond AND 0x3) + cond_num V3D_QPU_COND_IFA),
                      apf := pf_of (packed_cond AND 0x3)\<rparr>)
     else if drop_bit 6 packed_cond \<noteq> 0 then
       let f = no_flags\<lparr>mc := cond_map ! unat (drop_bit 4 packed_cond AND 0x3)\<rparr> in
       if drop_bit 2 packed_cond AND 0x3 = 0
       then Some (f\<lparr>ac := cond_map ! unat (packed_cond AND 0x3)\<rparr>)
       else Some (f\<lparr>auf := uf_of ((packed_cond AND 0xf) - 4 + uf_num V3D_QPU_UF_ANDZ)\<rparr>)
     else Some no_flags)"

definition AC :: u8 where "AC = push_bit 0 1"

definition MC :: u8 where "MC = push_bit 1 1"

definition APF :: u8 where "APF = push_bit 2 1"

definition MPF :: u8 where "MPF = push_bit 3 1"

definition AUF :: u8 where "AUF = push_bit 4 1"

definition MUF :: u8 where "MUF = push_bit 5 1"

definition flags_table :: "(u8 \<times> u8) list" where
  "flags_table =
    [(0, 0), (APF, 0), (AUF, 0), (MPF, push_bit 4 1), (MUF, push_bit 4 1), (AC, push_bit 5 1),
     (AC OR MPF, push_bit 5 1), (MC, push_bit 5 1 OR push_bit 4 1),
     (MC OR APF, push_bit 5 1 OR push_bit 4 1), (MC OR AC, push_bit 6 1),
     (MC OR AUF, push_bit 6 1)]"

definition flags_present :: "v3d_qpu_flags \<Rightarrow> u8" where
  "flags_present f =
    (if ac f \<noteq> V3D_QPU_COND_NONE then AC else 0)
 OR (if mc f \<noteq> V3D_QPU_COND_NONE then MC else 0)
 OR (if apf f \<noteq> V3D_QPU_PF_NONE then APF else 0)
 OR (if mpf f \<noteq> V3D_QPU_PF_NONE then MPF else 0)
 OR (if auf f \<noteq> V3D_QPU_UF_NONE then AUF else 0)
 OR (if muf f \<noteq> V3D_QPU_UF_NONE then MUF else 0)"

definition v3d_qpu_flags_pack :: "v3d_qpu_flags \<Rightarrow> u32 option" where
  "v3d_qpu_flags_pack f =
    (let present = flags_present f in
     case find (\<lambda>row. fst row = present) flags_table of
       None \<Rightarrow> None
     | Some row \<Rightarrow>
         let p = ucast (snd row);
             p = p OR pf_num (apf f);
             p = p OR pf_num (mpf f);
             p = (if present AND AUF \<noteq> 0 then p OR (uf_num (auf f) - uf_num V3D_QPU_UF_ANDZ + 4) else p);
             p = (if present AND MUF \<noteq> 0 then p OR (uf_num (muf f) - uf_num V3D_QPU_UF_ANDZ + 4) else p);
             p = (if present AND AC \<noteq> 0
                  then p OR push_bit 2 (cond_num (ac f) - cond_num V3D_QPU_COND_IFA) else p);
             p = (if present AND MC \<noteq> 0 then
                    (if p AND push_bit 6 1 \<noteq> 0
                     then p OR push_bit 4 (cond_num (mc f) - cond_num V3D_QPU_COND_IFA)
                     else p OR push_bit 2 (cond_num (mc f) - cond_num V3D_QPU_COND_IFA)) else p)
         in Some p)"

section \<open>Opcodes\<close>

definition MUX_MASK :: "nat \<Rightarrow> nat \<Rightarrow> u8" where
  "MUX_MASK lo hi = ucast ((push_bit (hi + 1) 1 - 1) - (push_bit lo 1 - 1) :: u32)"

definition ANYMUX :: u8 where
  "ANYMUX = MUX_MASK 0 7"

record 'op opcode_desc =
  opcode_first :: u8
  opcode_last :: u8
  mux_b_mask :: u8
  mux_a_mask :: u8
  desc_op :: 'op
  desc_ver :: u8

definition desc :: "u8 \<Rightarrow> u8 \<Rightarrow> u8 \<Rightarrow> u8 \<Rightarrow> 'op \<Rightarrow> u8 \<Rightarrow> 'op opcode_desc" where
  "desc lo hi b a op v = \<lparr>opcode_first = lo, opcode_last = hi, mux_b_mask = b,
                               mux_a_mask = a, desc_op = op, desc_ver = v\<rparr>"

definition add_ops :: "v3d_qpu_add_op opcode_desc list" where
  "add_ops =
    [desc 0 47 ANYMUX ANYMUX V3D_QPU_A_FADD 0,
     desc 0 47 ANYMUX ANYMUX V3D_QPU_A_FADDNF 0,
     desc 53 55 ANYMUX ANYMUX V3D_QPU_A_VFPACK 0,
     desc 56 56 ANYMUX ANYMUX V3D_QPU_A_ADD 0,
     desc 57 59 ANYMUX ANYMUX V3D_QPU_A_VFPACK 0,
     desc 60 60 ANYMUX ANYMUX V3D_QPU_A_SUB 0,
     desc 61 63 ANYMUX ANYMUX V3D_QPU_A_VFPACK 0,
     desc 64 111 ANYMUX ANYMUX V3D_QPU_A_FSUB 0,
     desc 120 120 ANYMUX ANYMUX V3D_QPU_A_MIN 0,
     desc 121 121 ANYMUX ANYMUX V3D_QPU_A_MAX 0,
     desc 122 122 ANYMUX ANYMUX V3D_QPU_A_UMIN 0,
     desc 123 123 ANYMUX ANYMUX V3D_QPU_A_UMAX 0,
     desc 124 124 ANYMUX ANYMUX V3D_QPU_A_SHL 0,
     desc 125 125 ANYMUX ANYMUX V3D_QPU_A_SHR 0,
     desc 126 126 ANYMUX ANYMUX V3D_QPU_A_ASR 0,
     desc 127 127 ANYMUX ANYMUX V3D_QPU_A_ROR 0,
     desc 128 175 ANYMUX ANYMUX V3D_QPU_A_FMIN 0,
     desc 128 175 ANYMUX ANYMUX V3D_QPU_A_FMAX 0,
     desc 176 180 ANYMUX ANYMUX V3D_QPU_A_VFMIN 0,
     desc 181 181 ANYMUX ANYMUX V3D_QPU_A_AND 0,
     desc 182 182 ANYMUX ANYMUX V3D_QPU_A_OR 0,
     desc 183 183 ANYMUX ANYMUX V3D_QPU_A_XOR 0,
     desc 184 184 ANYMUX ANYMUX V3D_QPU_A_VADD 0,
     desc 185 185 ANYMUX ANYMUX V3D_QPU_A_VSUB 0,
     desc 186 186 (push_bit 0 1) ANYMUX V3D_QPU_A_NOT 0,
     desc 186 186 (push_bit 1 1) ANYMUX V3D_QPU_A_NEG 0,
     desc 186 186 (push_bit 2 1) ANYMUX V3D_QPU_A_FLAPUSH 0,
     desc 186 186 (push_bit 3 1) ANYMUX V3D_QPU_A_FLBPUSH 0,
     desc 186 186 (push_bit 4 1) ANYMUX V3D_QPU_A_FLBPOP 0,
     desc 186 186 (push_bit 6 1) ANYMUX V3D_QPU_A_SETMSF 0,
     desc 186 186 (push_bit 7 1) ANYMUX V3D_QPU_A_SETREVF 0,
     desc 187 187 (push_bit 0 1) (push_bit 0 1) V3D_QPU_A_NOP 0,
     desc 187 187 (push_bit 0 1) (push_bit 1 1) V3D_QPU_A_TIDX 0,
     desc 187 187 (push_bit 0 1) (push_bit 2 1) V3D_QPU_A_EIDX 0,
     desc 187 187 (push_bit 0 1) (push_bit 3 1) V3D_QPU_A_LR 0,
     desc 187 187 (push_bit 0 1) (push_bit 4 1) V3D_QPU_A_VFLA 0,
     desc 187 187 (push_bit 0 1) (push_bit 5 1) V3D_QPU_A_VFLNA 0,
     desc 187 187 (push_bit 0 1) (push_bit 6 1) V3D_QPU_A_VFLB 0,
     desc 187 187 (push_bit 0 1) (push_bit 7 1) V3D_QPU_A_VFLNB 0,
     desc 187 187 (push_bit 1 1) (MUX_MASK 0 2) V3D_QPU_A_FXCD 0,
     desc 187 187 (push_bit 1 1) (push_bit 3 1) V3D_QPU_A_XCD 0,
     desc 187 187 (push_bit 1 1) (MUX_MASK 4 6) V3D_QPU_A_FYCD 0,
     desc 187 187 (push_bit 1 1) (push_bit 7 1) V3D_QPU_A_YCD 0,
     desc 187 187 (push_bit 2 1) (push_bit 0 1) V3D_QPU_A_MSF 0,
     desc 187 187 (push_bit 2 1) (push_bit 1 1) V3D_QPU_A_REVF 0,
     desc 187 187 (push_bit 2 1) (push_bit 2 1) V3D_QPU_A_VDWWT 33,
     desc 187 187 (push_bit 2 1) (push_bit 2 1) V3D_QPU_A_IID 40,
     desc 187 187 (push_bit 2 1) (push_bit 3 1) V3D_QPU_A_SAMPID 40,
     desc 187 187 (push_bit 2 1) (push_bit 4 1) V3D_QPU_A_BARRIERID 40,
     desc 187 187 (push_bit 2 1) (push_bit 5 1) V3D_QPU_A_TMUWT 0,
     desc 187 187 (push_bit 2 1) (push_bit 6 1) V3D_QPU_A_VPMWT 0,
     desc 187 187 (push_bit 3 1) ANYMUX V3D_QPU_A_VPMSETUP 33,
     desc 188 188 (push_bit 0 1) ANYMUX V3D_QPU_A_LDVPMV_IN 40,
     desc 188 188 (push_bit 1 1) ANYMUX V3D_QPU_A_LDVPMD_IN 40,
     desc 188 188 (push_bit 2 1) ANYMUX V3D_QPU_A_LDVPMP 40,
     desc 189 189 ANYMUX ANYMUX V3D_QPU_A_LDVPMG_IN 40,
     desc 192 239 ANYMUX ANYMUX V3D_QPU_A_FCMP 0,
     desc 240 244 ANYMUX ANYMUX V3D_QPU_A_VFMAX 0,
     desc 245 245 (MUX_MASK 0 2) ANYMUX V3D_QPU_A_FROUND 0,
     desc 245 245 (push_bit 3 1) ANYMUX V3D_QPU_A_FTOIN 0,
     desc 245 245 (MUX_MASK 4 6) ANYMUX V3D_QPU_A_FTRUNC 0,
     desc 245 245 (push_bit 7 1) ANYMUX V3D_QPU_A_FTOIZ 0,
     desc 246 246 (MUX_MASK 0 2) ANYMUX V3D_QPU_A_FFLOOR 0,
     desc 246 246 (push_bit 3 1) ANYMUX V3D_QPU_A_FTOUZ 0,
     desc 246 246 (MUX_MASK 4 6) ANYMUX V3D_QPU_A_FCEIL 0,
     desc 246 246 (push_bit 7 1) ANYMUX V3D_QPU_A_FTOC 0,
     desc 247 247 (MUX_MASK 0 2) ANYMUX V3D_QPU_A_FDX 0,
     desc 247 247 (MUX_MASK 4 6) ANYMUX V3D_QPU_A_FDY 0,
     desc 248 248 ANYMUX ANYMUX V3D_QPU_A_STVPMV 0,
     desc 248 248 ANYMUX ANYMUX V3D_QPU_A_STVPMD 0,
     desc 248 248 ANYMUX ANYMUX V3D_QPU_A_STVPMP 0,
     desc 252 252 (MUX_MASK 0 2) ANYMUX V3D_QPU_A_ITOF 0,
     desc 252 252 (push_bit 3 1) ANYMUX V3D_QPU_A_CLZ 0,
     desc 252 252 (MUX_MASK 4 6) ANYMUX V3D_QPU_A_UTOF 0]"

definition mul_ops :: "v3d_qpu_mul_op opcode_desc list" where
  "mul_ops =
    [desc 1 1 ANYMUX ANYMUX V3D_QPU_M_ADD 0,
     desc 2 2 ANYMUX ANYMUX V3D_QPU_M_SUB 0,
     desc 3 3 ANYMUX ANYMUX V3D_QPU_M_UMUL24 0,
     desc 4 8 ANYMUX ANYMUX V3D_QPU_M_VFMUL 0,
     desc 9 9 ANYMUX ANYMUX V3D_QPU_M_SMUL24 0,
     desc 10 10 ANYMUX ANYMUX V3D_QPU_M_MULTOP 0,
     desc 14 14 ANYMUX ANYMUX V3D_QPU_M_FMOV 0,
     desc 15 15 (MUX_MASK 0 3) ANYMUX V3D_QPU_M_FMOV 0,
     desc 15 15 (push_bit 4 1) (push_bit 0 1) V3D_QPU_M_NOP 0,
     desc 15 15 (push_bit 7 1) ANYMUX V3D_QPU_M_MOV 0,
     desc 16 63 ANYMUX ANYMUX V3D_QPU_M_FMUL 0]"

fun lookup_opcode :: "'op opcode_desc list \<Rightarrow> u32 \<Rightarrow> u32 \<Rightarrow> u32 \<Rightarrow> 'op opcode_desc option" where
  "lookup_opcode [] opcode mux_a mux_b = None"
| "lookup_opcode (d # ds) opcode mux_a mux_b =
    (if opcode < ucast (opcode_first d) \<or> ucast (opcode_last d) < opcode then
       lookup_opcode ds opcode mux_a mux_b
     else if ucast (mux_b_mask d) AND push_bit (unat mux_b) 1 = (0 :: u32) then
       lookup_opcode ds opcode mux_a mux_b
     else if ucast (mux_a_mask d) AND push_bit (unat mux_a) 1 = (0 :: u32) then
       lookup_opcode ds opcode mux_a mux_b
     else Some d)"

section \<open>Input unpacking and output packing\<close>

definition v3d_qpu_float32_unpack_unpack :: "u32 \<Rightarrow> v3d_qpu_input_unpack option" where
  "v3d_qpu_float32_unpack_unpack packed =
    (if packed = 0 then Some V3D_QPU_UNPACK_ABS
     else if packed = 1 then Some V3D_QPU_UNPACK_NONE
     else if packed = 2 then Some V3D_QPU_UNPACK_L
     else if packed = 3 then Some V3D_QPU_UNPACK_H
     else None)"

definition v3d_qpu_float32_unpack_pack :: "v3d_qpu_input_unpack \<Rightarrow> u32 option" where
  "v3d_qpu_float32_unpack_pack unpacked =
    (case unpacked of
       V3D_QPU_UNPACK_ABS \<Rightarrow> Some 0
     | V3D_QPU_UNPACK_NONE \<Rightarrow> Some 1
     | V3D_QPU_UNPACK_L \<Rightarrow> Some 2
     | V3D_QPU_UNPACK_H \<Rightarrow> Some 3
     | _ \<Rightarrow> None)"

definition v3d_qpu_float16_unpack_unpack :: "u32 \<Rightarrow> v3d_qpu_input_unpack option" where
  "v3d_qpu_float16_unpack_unpack packed =
    (if packed = 0 then Some V3D_QPU_UNPACK_NONE
     else if packed = 1 then Some V3D_QPU_UNPACK_REPLICATE_32F_16
     else if packed = 2 then Some V3D_QPU_UNPACK_REPLICATE_L_16
     else if packed = 3 then Some V3D_QPU_UNPACK_REPLICATE_H_16
     else if packed = 4 then Some V3D_QPU_UNPACK_SWAP_16
     else None)"

definition v3d_qpu_float16_unpack_pack :: "v3d_qpu_input_unpack \<Rightarrow> u32 option" where
  "v3d_qpu_float16_unpack_pack unpacked =
    (case unpacked of
       V3D_QPU_UNPACK_NONE \<Rightarrow> Some 0
     | V3D_QPU_UNPACK_REPLICATE_32F_16 \<Rightarrow> Some 1
     | V3D_QPU_UNPACK_REPLICATE_L_16 \<Rightarrow> Some 2
     | V3D_QPU_UNPACK_REPLICATE_H_16 \<Rightarrow> Some 3
     | V3D_QPU_UNPACK_SWAP_16 \<Rightarrow> Some 4
     | _ \<Rightarrow> None)"

definition v3d_qpu_float32_pack_pack :: "v3d_qpu_output_pack \<Rightarrow> u32 option" where
  "v3d_qpu_float32_pack_pack packed =
    (case packed of V3D_QPU_PACK_NONE \<Rightarrow> Some 0 | V3D_QPU_PACK_L \<Rightarrow> Some 1 | V3D_QPU_PACK_H \<Rightarrow> Some 2)"

text \<open>The cases of the switch statements over the add operation.\<close>

definition float32_binary :: "v3d_qpu_add_op \<Rightarrow> bool" where
  "float32_binary op \<longleftrightarrow>
    op \<in> {V3D_QPU_A_FADD, V3D_QPU_A_FADDNF, V3D_QPU_A_FSUB, V3D_QPU_A_FMIN, V3D_QPU_A_FMAX,
          V3D_QPU_A_FCMP}"

definition float32_round :: "v3d_qpu_add_op \<Rightarrow> bool" where
  "float32_round op \<longleftrightarrow>
    op \<in> {V3D_QPU_A_FFLOOR, V3D_QPU_A_FROUND, V3D_QPU_A_FTRUNC, V3D_QPU_A_FCEIL, V3D_QPU_A_FDX,
          V3D_QPU_A_FDY}"

definition float32_to_int :: "v3d_qpu_add_op \<Rightarrow> bool" where
  "float32_to_int op \<longleftrightarrow>
    op \<in> {V3D_QPU_A_FTOIN, V3D_QPU_A_FTOIZ, V3D_QPU_A_FTOUZ, V3D_QPU_A_FTOC}"

definition float16_minmax :: "v3d_qpu_add_op \<Rightarrow> bool" where
  "float16_minmax op \<longleftrightarrow> op \<in> {V3D_QPU_A_VFMIN, V3D_QPU_A_VFMAX}"

definition stvpm :: "v3d_qpu_add_op \<Rightarrow> bool" where
  "stvpm op \<longleftrightarrow> op \<in> {V3D_QPU_A_STVPMV, V3D_QPU_A_STVPMD, V3D_QPU_A_STVPMP}"

section \<open>Unpacking the ALU halves\<close>

definition add_map_op :: "u32 \<Rightarrow> u32" where
  "add_map_op op =
    (let map_op = op;
         map_op = (if 249 \<le> map_op \<and> map_op \<le> 251 then map_op - 249 + 245 else map_op);
         map_op = (if 253 \<le> map_op \<and> map_op \<le> 255 then map_op - 253 + 245 else map_op)
     in map_op)"

definition add_ordered_op :: "u32 \<Rightarrow> u32 \<Rightarrow> u32 \<Rightarrow> v3d_qpu_add_op \<Rightarrow> v3d_qpu_add_op" where
  "add_ordered_op op mux_a mux_b aop =
    (if (op AND 3) * 8 + mux_b < (drop_bit 2 op AND 3) * 8 + mux_a then
       let aop = (if aop = V3D_QPU_A_FMIN then V3D_QPU_A_FMAX else aop);
           aop = (if aop = V3D_QPU_A_FADD then V3D_QPU_A_FADDNF else aop)
       in aop
     else aop)"

definition add_stvpm_op :: "u32 \<Rightarrow> v3d_qpu_add_op \<Rightarrow> v3d_qpu_add_op option" where
  "add_stvpm_op waddr aop =
    (if stvpm aop then
       (if waddr = 0 then Some V3D_QPU_A_STVPMV
        else if waddr = 1 then Some V3D_QPU_A_STVPMD
        else if waddr = 2 then Some V3D_QPU_A_STVPMP
        else None)
     else Some aop)"

definition add_unpack_packs ::
  "u32 \<Rightarrow> u32 \<Rightarrow> v3d_qpu_add_op alu_half \<Rightarrow> v3d_qpu_add_op alu_half option" where
  "add_unpack_packs op mux_b h =
    (if float32_binary (alu_op h) then
       (case v3d_qpu_float32_unpack_unpack (drop_bit 2 op AND 0x3) of
          None \<Rightarrow> None
        | Some ua \<Rightarrow>
            (case v3d_qpu_float32_unpack_unpack (drop_bit 0 op AND 0x3) of
               None \<Rightarrow> None
             | Some ub \<Rightarrow> Some (h\<lparr>output_pack := pack_of (drop_bit 4 op AND 0x3),
                                  a_unpack := ua, b_unpack := ub\<rparr>)))
     else if float32_round (alu_op h) then
       (case v3d_qpu_float32_unpack_unpack (drop_bit 2 op AND 0x3) of
          None \<Rightarrow> None
        | Some ua \<Rightarrow> Some (h\<lparr>output_pack := pack_of (mux_b AND 0x3), a_unpack := ua\<rparr>))
     else if float32_to_int (alu_op h) then
       (case v3d_qpu_float32_unpack_unpack (drop_bit 2 op AND 0x3) of
          None \<Rightarrow> None
        | Some ua \<Rightarrow> Some (h\<lparr>output_pack := V3D_QPU_PACK_NONE, a_unpack := ua\<rparr>))
     else if float16_minmax (alu_op h) then
       (case v3d_qpu_float16_unpack_unpack (op AND 0x7) of
          None \<Rightarrow> None
        | Some ua \<Rightarrow> Some (h\<lparr>a_unpack := ua, output_pack := V3D_QPU_PACK_NONE,
                             b_unpack := V3D_QPU_UNPACK_NONE\<rparr>))
     else Some (h\<lparr>output_pack := V3D_QPU_PACK_NONE, a_unpack := V3D_QPU_UNPACK_NONE,
                  b_unpack := V3D_QPU_UNPACK_NONE\<rparr>))"

definition add_magic :: "u64 \<Rightarrow> v3d_qpu_add_op alu_half \<Rightarrow> v3d_qpu_add_op alu_half" where
  "add_magic packed_inst h =
    (let h = h\<lparr>magic_write := False\<rparr> in
     if packed_inst AND VC5_QPU_MA \<noteq> 0 then
       (if alu_op h = V3D_QPU_A_LDVPMV_IN then h\<lparr>alu_op := V3D_QPU_A_LDVPMV_OUT\<rparr>
        else if alu_op h = V3D_QPU_A_LDVPMD_IN then h\<lparr>alu_op := V3D_QPU_A_LDVPMD_OUT\<rparr>
        else if alu_op h = V3D_QPU_A_LDVPMG_IN then h\<lparr>alu_op := V3D_QPU_A_LDVPMG_OUT\<rparr>
        else h\<lparr>magic_write := True\<rparr>)
     else h)"

definition v3d_qpu_add_unpack :: "u64 \<Rightarrow> v3d_qpu_instr \<Rightarrow> v3d_qpu_instr option" where
  "v3d_qpu_add_unpack packed_inst instr =
    (let op = QPU_GET_FIELD packed_inst VC5_QPU_OP_ADD;
         mux_a = QPU_GET_FIELD packed_inst VC5_QPU_ADD_A;
         mux_b = QPU_GET_FIELD packed_inst VC5_QPU_ADD_B;
         waddr = QPU_GET_FIELD packed_inst V3D_QPU_WADDR_A
     in case lookup_opcode add_ops (add_map_op op) mux_a mux_b of
          None \<Rightarrow> None
        | Some d \<Rightarrow>
            (case add_stvpm_op waddr (add_ordered_op op mux_a mux_b (desc_op d)) of
               None \<Rightarrow> None
             | Some aop \<Rightarrow>
                 (case add_unpack_packs op mux_b (add (alu instr)\<lparr>alu_op := aop\<rparr>) of
                    None \<Rightarrow> None
                  | Some h \<Rightarrow>
                      let h = add_magic packed_inst
                                (h\<lparr>alu_a := mux_of mux_a, alu_b := mux_of mux_b,
                                   alu_waddr := ucast waddr\<rparr>)
                      in Some (instr\<lparr>alu := alu instr\<lparr>add := h\<rparr>\<rparr>))))"

definition mul_unpack_packs ::
  "u32 \<Rightarrow> u32 \<Rightarrow> v3d_qpu_mul_op alu_half \<Rightarrow> v3d_qpu_mul_op alu_half option" where
  "mul_unpack_packs op mux_b h =
    (if alu_op h = V3D_QPU_M_FMUL then
       (case v3d_qpu_float32_unpack_unpack (drop_bit 2 op AND 0x3) of
          None \<Rightarrow> None
        | Some ua \<Rightarrow>
            (case v3d_qpu_float32_unpack_unpack (drop_bit 0 op AND 0x3) of
               None \<Rightarrow> None
             | Some ub \<Rightarrow> Some (h\<lparr>output_pack := pack_of ((drop_bit 4 op AND 0x3) - 1),
                                  a_unpack := ua, b_unpack := ub\<rparr>)))
     else if alu_op h = V3D_QPU_M_FMOV then
       (case v3d_qpu_float32_unpack_unpack (mux_b AND 0x3) of
          None \<Rightarrow> None
        | Some ua \<Rightarrow>
            Some (h\<lparr>output_pack := pack_of (push_bit 1 (op AND 1) + (drop_bit 2 mux_b AND 1)),
                    a_unpack := ua\<rparr>))
     else if alu_op h = V3D_QPU_M_VFMUL then
       (case v3d_qpu_float16_unpack_unpack (((op AND 0x7) - 4) AND 7) of
          None \<Rightarrow> None
        | Some ua \<Rightarrow> Some (h\<lparr>output_pack := V3D_QPU_PACK_NONE, a_unpack := ua,
                             b_unpack := V3D_QPU_UNPACK_NONE\<rparr>))
     else Some (h\<lparr>output_pack := V3D_QPU_PACK_NONE, a_unpack := V3D_QPU_UNPACK_NONE,
                  b_unpack := V3D_QPU_UNPACK_NONE\<rparr>))"

definition v3d_qpu_mul_unpack :: "u64 \<Rightarrow> v3d_qpu_instr \<Rightarrow> v3d_qpu_instr option" where
  "v3d_qpu_mul_unpack packed_inst instr =
    (let op = QPU_GET_FIELD packed_inst VC5_QPU_OP_MUL;
         mux_a = QPU_GET_FIELD packed_inst VC5_QPU_MUL_A;
         mux_b = QPU_GET_FIELD packed_inst VC5_QPU_MUL_B
     in case lookup_opcode mul_ops op mux_a mux_b of
          None \<Rightarrow> None
        | Some d \<Rightarrow>
            (case mul_unpack_packs op mux_b (mul (alu instr)\<lparr>alu_op := desc_op d\<rparr>) of
               None \<Rightarrow> None
             | Some h \<Rightarrow>
                 let h = h\<lparr>alu_a := mux_of mux_a, alu_b := mux_of mux_b,
                           alu_waddr := ucast (QPU_GET_FIELD packed_inst V3D_QPU_WADDR_M),
                           magic_write := packed_inst AND VC5_QPU_MM \<noteq> 0\<rparr>
                 in Some (instr\<lparr>alu := alu instr\<lparr>mul := h\<rparr>\<rparr>)))"

section \<open>Packing the ALU halves\<close>

text \<open>The write address that goes into the word, whether a magic write is ignored, and the bit
  that makes a load of the output segment.\<close>

definition add_pack_waddr :: "v3d_qpu_add_op alu_half \<Rightarrow> u32 \<times> bool \<times> u64" where
  "add_pack_waddr h =
    (let op = alu_op h in
     if op = V3D_QPU_A_STVPMV then (0, True, 0)
     else if op = V3D_QPU_A_STVPMD then (1, True, 0)
     else if op = V3D_QPU_A_STVPMP then (2, True, 0)
     else if op \<in> {V3D_QPU_A_LDVPMV_OUT, V3D_QPU_A_LDVPMD_OUT, V3D_QPU_A_LDVPMG_OUT}
       then (ucast (alu_waddr h), False, VC5_QPU_MA)
     else (ucast (alu_waddr h), False, 0))"

definition add_pack_binary ::
  "v3d_qpu_add_op alu_half \<Rightarrow> u32 \<Rightarrow> u32 \<Rightarrow> u32 \<Rightarrow> (u32 \<times> u32 \<times> u32) option" where
  "add_pack_binary h opcode mux_a mux_b =
    (case v3d_qpu_float32_pack_pack (output_pack h) of
       None \<Rightarrow> None
     | Some out \<Rightarrow>
         let opcode = opcode OR push_bit 4 out in
         (case v3d_qpu_float32_unpack_pack (a_unpack h) of
            None \<Rightarrow> None
          | Some ua \<Rightarrow>
              (case v3d_qpu_float32_unpack_pack (b_unpack h) of
                 None \<Rightarrow> None
               | Some ub \<Rightarrow>
                   let ordering = (ub * 8 + mux_b < ua * 8 + mux_a);
                       op = alu_op h;
                       (ua, ub, mux_a, mux_b) =
                         (if ((op = V3D_QPU_A_FMIN \<or> op = V3D_QPU_A_FADD) \<and> ordering) \<or>
                             ((op = V3D_QPU_A_FMAX \<or> op = V3D_QPU_A_FADDNF) \<and> \<not> ordering)
                          then (ub, ua, mux_b, mux_a) else (ua, ub, mux_a, mux_b));
                       opcode = opcode OR push_bit 2 ua;
                       opcode = opcode OR push_bit 0 ub
                   in Some (opcode, mux_a, mux_b))))"

definition add_pack_encode ::
  "v3d_qpu_add_op alu_half \<Rightarrow> u32 \<Rightarrow> u32 \<Rightarrow> u32 \<Rightarrow> (u32 \<times> u32 \<times> u32) option" where
  "add_pack_encode h opcode mux_a mux_b =
    (let op = alu_op h in
     if float32_binary op then add_pack_binary h opcode mux_a mux_b
     else if float32_round op then
       (case v3d_qpu_float32_pack_pack (output_pack h) of
          None \<Rightarrow> None
        | Some packed \<Rightarrow>
            let mux_b = mux_b OR packed in
            (case v3d_qpu_float32_unpack_pack (a_unpack h) of
               None \<Rightarrow> None
             | Some packed \<Rightarrow>
                 if packed = 0 then None
                 else Some (opcode OR push_bit 2 packed, mux_a, mux_b)))
     else if float32_to_int op then
       (if output_pack h \<noteq> V3D_QPU_PACK_NONE then None
        else (case v3d_qpu_float32_unpack_pack (a_unpack h) of
                None \<Rightarrow> None
              | Some packed \<Rightarrow>
                  if packed = 0 then None
                  else Some (opcode OR push_bit 2 packed, mux_a, mux_b)))
     else if float16_minmax op then
       (if output_pack h \<noteq> V3D_QPU_PACK_NONE \<or> b_unpack h \<noteq> V3D_QPU_UNPACK_NONE then None
        else (case v3d_qpu_float16_unpack_pack (a_unpack h) of
                None \<Rightarrow> None
              | Some packed \<Rightarrow> Some (opcode OR packed, mux_a, mux_b)))
     else if op \<noteq> V3D_QPU_A_NOP \<and>
         (output_pack h \<noteq> V3D_QPU_PACK_NONE \<or> a_unpack h \<noteq> V3D_QPU_UNPACK_NONE \<or>
          b_unpack h \<noteq> V3D_QPU_UNPACK_NONE) then None
     else Some (opcode, mux_a, mux_b))"

definition mask_mux :: "u8 \<Rightarrow> u32" where
  "mask_mux m = of_nat (ffs (ucast m)) - 1"

definition v3d_qpu_add_pack :: "v3d_qpu_instr \<Rightarrow> u64 \<Rightarrow> u64 option" where
  "v3d_qpu_add_pack instr packed_instr =
    (let h = add (alu instr); nsrc = v3d_qpu_add_op_num_src (alu_op h) in
     case find (\<lambda>d. desc_op d = alu_op h) add_ops of
       None \<Rightarrow> None
     | Some d \<Rightarrow>
         let mux_b = (if nsrc < 2 then mask_mux (mux_b_mask d) else mux_num (alu_b h));
             mux_a = (if nsrc < 1 then mask_mux (mux_a_mask d) else mux_num (alu_a h));
             (waddr, no_magic_write, ma) = add_pack_waddr h;
             packed_instr = packed_instr OR ma
         in (case add_pack_encode h (ucast (opcode_first d)) mux_a mux_b of
               None \<Rightarrow> None
             | Some (opcode, mux_a, mux_b) \<Rightarrow>
                 let p = packed_instr OR QPU_SET_FIELD mux_a VC5_QPU_ADD_A;
                     p = p OR QPU_SET_FIELD mux_b VC5_QPU_ADD_B;
                     p = p OR QPU_SET_FIELD opcode VC5_QPU_OP_ADD;
                     p = p OR QPU_SET_FIELD waddr V3D_QPU_WADDR_A
                 in Some (if magic_write h \<and> \<not> no_magic_write then p OR VC5_QPU_MA else p)))"

definition mul_pack_encode ::
  "v3d_qpu_mul_op alu_half \<Rightarrow> u32 \<Rightarrow> u32 \<Rightarrow> (u32 \<times> u32) option" where
  "mul_pack_encode h opcode mux_b =
    (if alu_op h = V3D_QPU_M_FMUL then
       (case v3d_qpu_float32_pack_pack (output_pack h) of
          None \<Rightarrow> None
        | Some packed \<Rightarrow>
            let opcode = opcode + push_bit 4 packed in
            (case v3d_qpu_float32_unpack_pack (a_unpack h) of
               None \<Rightarrow> None
             | Some packed \<Rightarrow>
                 let opcode = opcode OR push_bit 2 packed in
                 (case v3d_qpu_float32_unpack_pack (b_unpack h) of
                    None \<Rightarrow> None
                  | Some packed \<Rightarrow> Some (opcode OR push_bit 0 packed, mux_b))))
     else if alu_op h = V3D_QPU_M_FMOV then
       (case v3d_qpu_float32_pack_pack (output_pack h) of
          None \<Rightarrow> None
        | Some packed \<Rightarrow>
            let opcode = opcode OR (drop_bit 1 packed AND 1);
                mux_b = push_bit 2 (packed AND 1)
            in (case v3d_qpu_float32_unpack_pack (a_unpack h) of
                  None \<Rightarrow> None
                | Some packed \<Rightarrow> Some (opcode, mux_b OR packed)))
     else if alu_op h = V3D_QPU_M_VFMUL then
       (if output_pack h \<noteq> V3D_QPU_PACK_NONE then None
        else (case v3d_qpu_float16_unpack_pack (a_unpack h) of
                None \<Rightarrow> None
              | Some packed \<Rightarrow>
                  let opcode = (if a_unpack h = V3D_QPU_UNPACK_SWAP_16 then 8
                                else opcode OR (packed + 4 AND 7))
                  in if b_unpack h \<noteq> V3D_QPU_UNPACK_NONE then None else Some (opcode, mux_b)))
     else Some (opcode, mux_b))"

definition v3d_qpu_mul_pack :: "v3d_qpu_instr \<Rightarrow> u64 \<Rightarrow> u64 option" where
  "v3d_qpu_mul_pack instr packed_instr =
    (let h = mul (alu instr); nsrc = v3d_qpu_mul_op_num_src (alu_op h) in
     case find (\<lambda>d. desc_op d = alu_op h) mul_ops of
       None \<Rightarrow> None
     | Some d \<Rightarrow>
         let mux_b = (if nsrc < 2 then mask_mux (mux_b_mask d) else mux_num (alu_b h));
             mux_a = (if nsrc < 1 then mask_mux (mux_a_mask d) else mux_num (alu_a h))
         in (case mul_pack_encode h (ucast (opcode_first d)) mux_b of
               None \<Rightarrow> None
             | Some (opcode, mux_b) \<Rightarrow>
                 let p = packed_instr OR QPU_SET_FIELD mux_a VC5_QPU_MUL_A;
                     p = p OR QPU_SET_FIELD mux_b VC5_QPU_MUL_B;
                     p = p OR QPU_SET_FIELD opcode VC5_QPU_OP_MUL;
                     p = p OR QPU_SET_FIELD (ucast (alu_waddr h)) V3D_QPU_WADDR_M
                 in Some (if magic_write h then p OR VC5_QPU_MM else p)))"

section \<open>Instructions\<close>

definition v3d_qpu_instr_unpack_alu ::
  "v3d_device_info \<Rightarrow> u64 \<Rightarrow> v3d_qpu_instr \<Rightarrow> v3d_qpu_instr option" where
  "v3d_qpu_instr_unpack_alu devinfo packed_instr instr =
    (let instr = instr\<lparr>itype := V3D_QPU_INSTR_TYPE_ALU\<rparr> in
     case v3d_qpu_sig_unpack devinfo (QPU_GET_FIELD packed_instr VC5_QPU_SIG) of
       None \<Rightarrow> None
     | Some s \<Rightarrow>
         let instr = instr\<lparr>sig := s\<rparr>;
             packed_cond = QPU_GET_FIELD packed_instr VC5_QPU_COND
         in (case (if v3d_qpu_sig_writes_address devinfo s then
                     Some (instr\<lparr>sig_addr := ucast (packed_cond AND NOT VC5_QPU_COND_SIG_MAGIC_ADDR),
                                 sig_magic := packed_cond AND VC5_QPU_COND_SIG_MAGIC_ADDR \<noteq> 0,
                                 flags := no_flags\<rparr>)
                   else (case v3d_qpu_flags_unpack packed_cond of
                           None \<Rightarrow> None
                         | Some f \<Rightarrow> Some (instr\<lparr>flags := f\<rparr>))) of
               None \<Rightarrow> None
             | Some instr \<Rightarrow>
                 let instr = instr\<lparr>raddr_a := ucast (QPU_GET_FIELD packed_instr VC5_QPU_RADDR_A),
                                   raddr_b := ucast (QPU_GET_FIELD packed_instr VC5_QPU_RADDR_B)\<rparr>
                 in (case v3d_qpu_add_unpack packed_instr instr of
                       None \<Rightarrow> None
                     | Some instr \<Rightarrow> v3d_qpu_mul_unpack packed_instr instr)))"

definition v3d_qpu_instr_unpack_branch ::
  "u64 \<Rightarrow> v3d_qpu_instr \<Rightarrow> v3d_qpu_instr option" where
  "v3d_qpu_instr_unpack_branch packed_instr instr =
    (let instr = instr\<lparr>itype := V3D_QPU_INSTR_TYPE_BRANCH\<rparr>;
         cond = QPU_GET_FIELD packed_instr VC5_QPU_BRANCH_COND
     in case (if cond = 0 then Some V3D_QPU_BRANCH_COND_ALWAYS
              else if branch_cond_num V3D_QPU_BRANCH_COND_A0 + (cond - 2)
                        \<le> branch_cond_num V3D_QPU_BRANCH_COND_ALLNA
              then Some (branch_cond_of (branch_cond_num V3D_QPU_BRANCH_COND_A0 + (cond - 2)))
              else None) of
          None \<Rightarrow> None
        | Some c \<Rightarrow>
            let msfign = QPU_GET_FIELD packed_instr VC5_QPU_BRANCH_MSFIGN in
            if msfign = 3 then None
            else
              let b = (branch instr)\<lparr>br_cond := c, br_msfign := msfign_of msfign,
                        bdi := branch_dest_of (QPU_GET_FIELD packed_instr VC5_QPU_BRANCH_BDI),
                        br_ub := packed_instr AND VC5_QPU_BRANCH_UB \<noteq> 0\<rparr>;
                  b = (if br_ub b then b\<lparr>bdu := QPU_GET_FIELD packed_instr VC5_QPU_BRANCH_BDU\<rparr> else b);
                  b = b\<lparr>br_raddr_a := ucast (QPU_GET_FIELD packed_instr VC5_QPU_RADDR_A),
                        br_offset := 0\<rparr>;
                  b = b\<lparr>br_offset := br_offset b
                          + push_bit 3 (QPU_GET_FIELD packed_instr VC5_QPU_BRANCH_ADDR_LOW)\<rparr>;
                  b = b\<lparr>br_offset := br_offset b
                          + push_bit 24 (QPU_GET_FIELD packed_instr VC5_QPU_BRANCH_ADDR_HIGH)\<rparr>
              in Some (instr\<lparr>branch := b\<rparr>))"

definition v3d_qpu_instr_unpack ::
  "v3d_device_info \<Rightarrow> u64 \<Rightarrow> v3d_qpu_instr \<Rightarrow> v3d_qpu_instr option" where
  "v3d_qpu_instr_unpack devinfo packed_instr instr =
    (if QPU_GET_FIELD packed_instr VC5_QPU_OP_MUL \<noteq> 0 then
       v3d_qpu_instr_unpack_alu devinfo packed_instr instr
     else
       let s = QPU_GET_FIELD packed_instr VC5_QPU_SIG in
       if s AND 24 = 16 then v3d_qpu_instr_unpack_branch packed_instr instr else None)"

definition v3d_qpu_instr_pack_alu ::
  "v3d_device_info \<Rightarrow> v3d_qpu_instr \<Rightarrow> u64 \<Rightarrow> u64 option" where
  "v3d_qpu_instr_pack_alu devinfo instr packed_instr =
    (case v3d_qpu_sig_pack devinfo (sig instr) of
       None \<Rightarrow> None
     | Some s \<Rightarrow>
         let p = packed_instr OR QPU_SET_FIELD s VC5_QPU_SIG in
         if itype instr = V3D_QPU_INSTR_TYPE_ALU then
           let p = p OR QPU_SET_FIELD (ucast (raddr_a instr)) VC5_QPU_RADDR_A;
               p = p OR QPU_SET_FIELD (ucast (raddr_b instr)) VC5_QPU_RADDR_B
           in (case v3d_qpu_add_pack instr p of
                 None \<Rightarrow> None
               | Some p \<Rightarrow>
                   (case v3d_qpu_mul_pack instr p of
                      None \<Rightarrow> None
                    | Some p \<Rightarrow>
                        (case (if v3d_qpu_sig_writes_address devinfo (sig instr) then
                                 (if flags instr \<noteq> no_flags then None
                                  else Some (if sig_magic instr
                                             then ucast (sig_addr instr) OR VC5_QPU_COND_SIG_MAGIC_ADDR
                                             else ucast (sig_addr instr)))
                               else v3d_qpu_flags_pack (flags instr)) of
                           None \<Rightarrow> None
                         | Some fl \<Rightarrow> Some (p OR QPU_SET_FIELD fl VC5_QPU_COND))))
         else if v3d_qpu_sig_writes_address devinfo (sig instr) then None
         else Some p)"

definition v3d_qpu_instr_pack_branch :: "v3d_qpu_instr \<Rightarrow> u64 \<Rightarrow> u64 option" where
  "v3d_qpu_instr_pack_branch instr packed_instr =
    (let b = branch instr;
         p = packed_instr OR QPU_SET_FIELD 16 VC5_QPU_SIG;
         p = (if br_cond b \<noteq> V3D_QPU_BRANCH_COND_ALWAYS
              then p OR QPU_SET_FIELD (2 + (branch_cond_num (br_cond b)
                                            - branch_cond_num V3D_QPU_BRANCH_COND_A0))
                          VC5_QPU_BRANCH_COND
              else p);
         p = p OR QPU_SET_FIELD (msfign_num (br_msfign b)) VC5_QPU_BRANCH_MSFIGN;
         p = p OR QPU_SET_FIELD (branch_dest_num (bdi b)) VC5_QPU_BRANCH_BDI;
         p = (if br_ub b
              then (p OR VC5_QPU_BRANCH_UB) OR QPU_SET_FIELD (bdu b) VC5_QPU_BRANCH_BDU
              else p);
         p = (if bdi b = V3D_QPU_BRANCH_DEST_ABS \<or> bdi b = V3D_QPU_BRANCH_DEST_REL then
                let p = p OR QPU_SET_FIELD (msfign_num (br_msfign b)) VC5_QPU_BRANCH_MSFIGN;
                    p = p OR QPU_SET_FIELD (drop_bit 3 (br_offset b AND NOT 0xff000000))
                                VC5_QPU_BRANCH_ADDR_LOW;
                    p = p OR QPU_SET_FIELD (drop_bit 24 (br_offset b)) VC5_QPU_BRANCH_ADDR_HIGH
                in p OR QPU_SET_FIELD (ucast (br_raddr_a b)) VC5_QPU_RADDR_A
              else if bdi b = V3D_QPU_BRANCH_DEST_REGFILE
              then p OR QPU_SET_FIELD (ucast (br_raddr_a b)) VC5_QPU_RADDR_A
              else p)
     in Some p)"

definition v3d_qpu_instr_pack :: "v3d_device_info \<Rightarrow> v3d_qpu_instr \<Rightarrow> u64 option" where
  "v3d_qpu_instr_pack devinfo instr =
    (case itype instr of
       V3D_QPU_INSTR_TYPE_ALU \<Rightarrow> v3d_qpu_instr_pack_alu devinfo instr 0
     | V3D_QPU_INSTR_TYPE_BRANCH \<Rightarrow> v3d_qpu_instr_pack_branch instr 0)"

end
