(* ===== verification/QpuTables.thy ===== *)
theory QpuTables
  imports QpuPack
begin

text \<open>
  The bit fields of a word as disjoint ranges of bits, and the tables of QpuPack: signals, small
  immediates and condition flags, each with its round trip.
\<close>

section \<open>Fields of a word\<close>

lemma QPU_MASK_mask: "QPU_MASK f = push_bit (snd f) (mask (fst f - snd f + 1))"
  unfolding QPU_MASK_def by (simp only: mask_eq_exp_minus_1 push_bit_of_1)

lemma bit_QPU_MASK:
  "snd f \<le> fst f \<Longrightarrow> fst f < 64 \<Longrightarrow> bit (QPU_MASK f) i \<longleftrightarrow> snd f \<le> i \<and> i \<le> fst f"
  unfolding QPU_MASK_mask by (auto simp: bit_push_bit_iff bit_mask_iff)

lemma bit_SET_FIELD:
  "snd f \<le> fst f \<Longrightarrow> fst f < 64 \<Longrightarrow>
   bit (QPU_SET_FIELD v f) i \<longleftrightarrow> snd f \<le> i \<and> i \<le> fst f \<and> bit v (i - snd f)"
  unfolding QPU_SET_FIELD_def
  by (auto simp: bit_and_iff bit_push_bit_iff bit_QPU_MASK bit_ucast_iff dest: bit_imp_le_length)

lemma bit_GET_FIELD:
  "snd f \<le> fst f \<Longrightarrow> fst f < 64 \<Longrightarrow>
   bit (QPU_GET_FIELD w f) i \<longleftrightarrow> i < 32 \<and> i \<le> fst f - snd f \<and> bit w (snd f + i)"
  unfolding QPU_GET_FIELD_def
  by (auto simp: bit_and_iff bit_drop_bit_eq bit_QPU_MASK bit_ucast_iff)

lemma GET_OR: "QPU_GET_FIELD (x OR y) f = QPU_GET_FIELD x f OR QPU_GET_FIELD y f"
  unfolding QPU_GET_FIELD_def by (rule bit_word_eqI) (auto simp: bit_simps)

lemma GET_zero: "QPU_GET_FIELD 0 f = 0"
  by (simp add: QPU_GET_FIELD_def)

lemma GET_SET_same:
  "snd f \<le> fst f \<Longrightarrow> fst f < 64 \<Longrightarrow>
   QPU_GET_FIELD (QPU_SET_FIELD v f) f = take_bit (fst f - snd f + 1) v"
  by (rule bit_word_eqI) (auto simp: bit_GET_FIELD bit_SET_FIELD bit_take_bit_iff)

lemma GET_SET_other:
  "snd f \<le> fst f \<Longrightarrow> fst f < 64 \<Longrightarrow> snd g \<le> fst g \<Longrightarrow> fst g < 64 \<Longrightarrow>
   fst f < snd g \<or> fst g < snd f \<Longrightarrow> QPU_GET_FIELD (QPU_SET_FIELD v g) f = 0"
  by (rule bit_word_eqI) (auto simp: bit_GET_FIELD bit_SET_FIELD)

lemma GET_MASK_other:
  "snd f \<le> fst f \<Longrightarrow> fst f < 64 \<Longrightarrow> snd g \<le> fst g \<Longrightarrow> fst g < 64 \<Longrightarrow>
   fst f < snd g \<or> fst g < snd f \<Longrightarrow> QPU_GET_FIELD (QPU_MASK g) f = 0"
  by (rule bit_word_eqI) (auto simp: bit_GET_FIELD bit_QPU_MASK)

lemma AND_OR_distrib: "(x OR y) AND m = (x AND m) OR (y AND (m :: u64))"
  by (rule bit_word_eqI) (auto simp: bit_simps)

lemma SET_AND_MASK_other:
  "snd f \<le> fst f \<Longrightarrow> fst f < 64 \<Longrightarrow> snd g \<le> fst g \<Longrightarrow> fst g < 64 \<Longrightarrow>
   fst f < snd g \<or> fst g < snd f \<Longrightarrow> QPU_SET_FIELD v f AND QPU_MASK g = 0"
  by (rule bit_word_eqI) (auto simp: bit_SET_FIELD bit_QPU_MASK bit_and_iff)

lemma MASK_AND_MASK_other:
  "snd f \<le> fst f \<Longrightarrow> fst f < 64 \<Longrightarrow> snd g \<le> fst g \<Longrightarrow> fst g < 64 \<Longrightarrow>
   fst f < snd g \<or> fst g < snd f \<Longrightarrow> QPU_MASK f AND QPU_MASK g = 0"
  by (rule bit_word_eqI) (auto simp: bit_QPU_MASK bit_and_iff)

lemma MASK_nonzero: "snd f \<le> fst f \<Longrightarrow> fst f < 64 \<Longrightarrow> QPU_MASK f \<noteq> 0"
  using bit_QPU_MASK [of f "snd f"] by auto

lemmas alu_fields =
  VC5_QPU_OP_MUL_def VC5_QPU_SIG_def VC5_QPU_COND_def V3D_QPU_WADDR_M_def V3D_QPU_WADDR_A_def
  VC5_QPU_OP_ADD_def VC5_QPU_MUL_B_def VC5_QPU_MUL_A_def VC5_QPU_ADD_B_def VC5_QPU_ADD_A_def
  VC5_QPU_RADDR_A_def VC5_QPU_RADDR_B_def VC5_QPU_MM_def VC5_QPU_MA_def

lemmas branch_fields =
  VC5_QPU_OP_MUL_def VC5_QPU_SIG_def VC5_QPU_BRANCH_ADDR_LOW_def VC5_QPU_BRANCH_COND_def
  VC5_QPU_BRANCH_ADDR_HIGH_def VC5_QPU_BRANCH_MSFIGN_def VC5_QPU_BRANCH_BDU_def
  VC5_QPU_BRANCH_UB_def VC5_QPU_BRANCH_BDI_def VC5_QPU_RADDR_A_def

lemmas field_simps_qpu =
  GET_OR GET_zero GET_SET_same GET_SET_other GET_MASK_other AND_OR_distrib SET_AND_MASK_other
  MASK_AND_MASK_other MASK_nonzero

section \<open>Signals and small immediates\<close>

lemma find_index_SomeD:
  "map_option of_nat (find P [0 ..< n]) = Some (w :: u32) \<Longrightarrow> n < 2 ^ 32 \<Longrightarrow> unat w < n \<and> P (unat w)"
  by (auto simp: find_Some_iff unat_of_nat_less)

lemma find_first: "find P [0 ..< n] = Some j \<Longrightarrow> P i \<Longrightarrow> j \<le> i"
  by (auto simp: find_Some_iff not_le) (metis (full_types) linorder_not_less nth_upt plus_nat.add_0 less_trans diff_zero)

lemma length_sig_maps [simp]:
  "length v33_sig_map = 32" "length v40_sig_map = 32" "length v41_sig_map = 32" "length (sig_map d) = 32"
  by (simp_all add: v33_sig_map_def v40_sig_map_def v41_sig_map_def sig_map_def)

lemma v33_sig_map_0: "v33_sig_map ! 0 = no_sig" and sig_map_0: "sig_map d ! 0 = no_sig"
  by (simp_all add: v33_sig_map_def v40_sig_map_def v41_sig_map_def sig_map_def)

lemma sig_unpack_packed:
  assumes p: "v3d_qpu_sig_pack d s = Some k"
  shows "unat k < 32 \<and> v3d_qpu_sig_unpack d k = Some s"
proof -
  have k: "unat k < 32" "sig_map d ! unat k = s"
    using p find_index_SomeD [of "\<lambda>i. sig_map d ! i = s" 32 k] by (auto simp: v3d_qpu_sig_pack_def)
  have "k = 0" if "s = no_sig"
  proof -
    have "find (\<lambda>i. sig_map d ! i = s) [0 ..< 32] = Some 0"
      using that by (simp add: upt_conv_Cons sig_map_0)
    then show ?thesis using p by (simp add: v3d_qpu_sig_pack_def)
  qed
  then show ?thesis
    using k by (auto simp: v3d_qpu_sig_unpack_def v33_sig_map_0)
qed

lemma length_small_immediates [simp]: "length small_immediates = 48"
  by (simp add: small_immediates_def)

lemma distinct_small_immediates: "distinct small_immediates"
  by (simp add: small_immediates_def)

lemma small_imm_inverse:
  "(v3d_qpu_small_imm_pack v = Some k \<longleftrightarrow> v3d_qpu_small_imm_unpack k = Some v)
 \<and> (v3d_qpu_small_imm_unpack k \<noteq> None \<longleftrightarrow> unat k < 48)"
proof (intro conjI iffI)
  assume "v3d_qpu_small_imm_pack v = Some k"
  then show "v3d_qpu_small_imm_unpack k = Some v"
    using find_index_SomeD [of "\<lambda>i. small_immediates ! i = v" 48 k]
    by (auto simp: v3d_qpu_small_imm_pack_def v3d_qpu_small_imm_unpack_def)
next
  assume "v3d_qpu_small_imm_unpack k = Some v"
  then have k: "unat k < 48" "small_immediates ! unat k = v"
    by (auto simp: v3d_qpu_small_imm_unpack_def split: if_splits)
  have "find (\<lambda>i. small_immediates ! i = v) [0 ..< 48] = Some (unat k)"
    unfolding find_Some_iff
    using k distinct_small_immediates
    by (intro exI [of _ "unat k"]) (auto simp: nth_eq_iff_index_eq)
  then show "v3d_qpu_small_imm_pack v = Some k" by (simp add: v3d_qpu_small_imm_pack_def)
qed (auto simp: v3d_qpu_small_imm_unpack_def split: if_splits)

text \<open>
  A signal structure that packs is the one its number unpacks to; a number that unpacks is the packing
  of its structure or, for a structure listed twice, of the same structure at a smaller number.
\<close>

lemma sig_packed_first:
  assumes u: "v3d_qpu_sig_unpack d k = Some s"
  shows "\<exists>j \<le> k. v3d_qpu_sig_pack d s = Some j"
proof -
  have k: "unat k < 32" "sig_map d ! unat k = s"
    using u by (auto simp: v3d_qpu_sig_unpack_def Let_def split: if_splits)
  then have "find (\<lambda>i. sig_map d ! i = s) [0 ..< 32] \<noteq> None"
    by (auto simp: find_None_iff)
  then obtain j where j: "find (\<lambda>i. sig_map d ! i = s) [0 ..< 32] = Some j" by blast
  then have "j \<le> unat k"
    by (rule find_first) (rule k(2))
  then have "word_of_nat j \<le> k"
    using k by (simp add: word_le_nat_alt unat_of_nat_less)
  then show ?thesis
    using j by (auto simp: v3d_qpu_sig_pack_def)
qed

section \<open>Condition flags\<close>

lemmas flag_bits = AC_def MC_def APF_def MPF_def AUF_def MUF_def

lemma flags_present_cases:
  assumes "find (\<lambda>row. fst row = flags_present f) flags_table = Some row"
  obtains "f = no_flags"
  | x where "f = no_flags\<lparr>apf := x\<rparr>" "x \<noteq> V3D_QPU_PF_NONE"
  | x where "f = no_flags\<lparr>auf := x\<rparr>" "x \<noteq> V3D_QPU_UF_NONE"
  | x where "f = no_flags\<lparr>mpf := x\<rparr>" "x \<noteq> V3D_QPU_PF_NONE"
  | x where "f = no_flags\<lparr>muf := x\<rparr>" "x \<noteq> V3D_QPU_UF_NONE"
  | x y where "f = no_flags\<lparr>ac := x, mpf := y\<rparr>" "x \<noteq> V3D_QPU_COND_NONE"
  | x y where "f = no_flags\<lparr>mc := x, apf := y\<rparr>" "x \<noteq> V3D_QPU_COND_NONE"
  | x y where "f = no_flags\<lparr>mc := x, ac := y\<rparr>" "x \<noteq> V3D_QPU_COND_NONE" "y \<noteq> V3D_QPU_COND_NONE"
  | x y where "f = no_flags\<lparr>mc := x, auf := y\<rparr>" "x \<noteq> V3D_QPU_COND_NONE" "y \<noteq> V3D_QPU_UF_NONE"
proof -
  obtain a m ap mp au mu where f: "f = \<lparr>ac = a, mc = m, apf = ap, mpf = mp, auf = au, muf = mu\<rparr>"
    by (cases f)
  show ?thesis
    using assms that unfolding f
    by (cases "a = V3D_QPU_COND_NONE"; cases "m = V3D_QPU_COND_NONE"; cases "ap = V3D_QPU_PF_NONE";
        cases "mp = V3D_QPU_PF_NONE"; cases "au = V3D_QPU_UF_NONE"; cases "mu = V3D_QPU_UF_NONE";
        simp add: flags_present_def flags_table_def flag_bits no_flags_def)
qed

lemmas flag_nums = cond_of_def pf_of_def uf_of_def cond_map_def

lemma flags_pack_simple:
  "v3d_qpu_flags_pack no_flags = Some 0"
  "x \<noteq> V3D_QPU_PF_NONE \<Longrightarrow> v3d_qpu_flags_pack (no_flags\<lparr>apf := x\<rparr>) = Some (pf_num x)"
  "u \<noteq> V3D_QPU_UF_NONE \<Longrightarrow> v3d_qpu_flags_pack (no_flags\<lparr>auf := u\<rparr>) = Some (uf_num u + 3)"
  "x \<noteq> V3D_QPU_PF_NONE \<Longrightarrow> v3d_qpu_flags_pack (no_flags\<lparr>mpf := x\<rparr>) = Some (16 + pf_num x)"
  "u \<noteq> V3D_QPU_UF_NONE \<Longrightarrow> v3d_qpu_flags_pack (no_flags\<lparr>muf := u\<rparr>) = Some (16 + uf_num u + 3)"
  by (cases x; cases u; simp add: v3d_qpu_flags_pack_def no_flags_def flags_present_def flags_table_def flag_bits)+

lemma flags_pack_double:
  "c \<noteq> V3D_QPU_COND_NONE \<Longrightarrow>
    v3d_qpu_flags_pack (no_flags\<lparr>ac := c, mpf := x\<rparr>) = Some (32 + 4 * (cond_num c - 1) + pf_num x)"
  "c \<noteq> V3D_QPU_COND_NONE \<Longrightarrow>
    v3d_qpu_flags_pack (no_flags\<lparr>mc := c, apf := x\<rparr>) = Some (48 + 4 * (cond_num c - 1) + pf_num x)"
  "c \<noteq> V3D_QPU_COND_NONE \<Longrightarrow> e \<noteq> V3D_QPU_COND_NONE \<Longrightarrow>
    v3d_qpu_flags_pack (no_flags\<lparr>mc := c, ac := e\<rparr>)
      = Some (64 + 16 * (cond_num c - 1) + 4 * (cond_num e - 1))"
  "c \<noteq> V3D_QPU_COND_NONE \<Longrightarrow> u \<noteq> V3D_QPU_UF_NONE \<Longrightarrow>
    v3d_qpu_flags_pack (no_flags\<lparr>mc := c, auf := u\<rparr>)
      = Some (64 + 16 * (cond_num c - 1) + (uf_num u + 3))"
  subgoal by (cases c; cases x; simp add: v3d_qpu_flags_pack_def no_flags_def flags_present_def flags_table_def flag_bits)
  subgoal by (cases c; cases x; simp add: v3d_qpu_flags_pack_def no_flags_def flags_present_def flags_table_def flag_bits)
  subgoal by (cases c; cases e; simp add: v3d_qpu_flags_pack_def no_flags_def flags_present_def flags_table_def flag_bits)
  subgoal by (cases c; cases u; simp add: v3d_qpu_flags_pack_def no_flags_def flags_present_def flags_table_def flag_bits)
  done

lemma flags_unpack_simple:
  "v3d_qpu_flags_unpack 0 = Some no_flags"
  "v3d_qpu_flags_unpack (pf_num x) = Some (no_flags\<lparr>apf := x\<rparr>)"
  "u \<noteq> V3D_QPU_UF_NONE \<Longrightarrow> v3d_qpu_flags_unpack (uf_num u + 3) = Some (no_flags\<lparr>auf := u\<rparr>)"
  "x \<noteq> V3D_QPU_PF_NONE \<Longrightarrow> v3d_qpu_flags_unpack (16 + pf_num x) = Some (no_flags\<lparr>mpf := x\<rparr>)"
  "u \<noteq> V3D_QPU_UF_NONE \<Longrightarrow> v3d_qpu_flags_unpack (16 + uf_num u + 3) = Some (no_flags\<lparr>muf := u\<rparr>)"
  by (cases x; cases u; simp add: v3d_qpu_flags_unpack_def no_flags_def flag_nums)+

lemma flags_unpack_double:
  "c \<noteq> V3D_QPU_COND_NONE \<Longrightarrow>
    v3d_qpu_flags_unpack (32 + 4 * (cond_num c - 1) + pf_num x) = Some (no_flags\<lparr>ac := c, mpf := x\<rparr>)"
  "c \<noteq> V3D_QPU_COND_NONE \<Longrightarrow>
    v3d_qpu_flags_unpack (48 + 4 * (cond_num c - 1) + pf_num x) = Some (no_flags\<lparr>mc := c, apf := x\<rparr>)"
  "c \<noteq> V3D_QPU_COND_NONE \<Longrightarrow> u \<noteq> V3D_QPU_UF_NONE \<Longrightarrow>
    v3d_qpu_flags_unpack (64 + 16 * (cond_num c - 1) + (uf_num u + 3))
      = Some (no_flags\<lparr>mc := c, auf := u\<rparr>)"
  "c \<noteq> V3D_QPU_COND_NONE \<Longrightarrow>
    v3d_qpu_flags_unpack (64 + 16 * (cond_num c - 1)) = Some (no_flags\<lparr>mc := c, ac := V3D_QPU_COND_IFA\<rparr>)"
  subgoal by (cases c; cases x; simp add: v3d_qpu_flags_unpack_def no_flags_def flag_nums)
  subgoal by (cases c; cases x; simp add: v3d_qpu_flags_unpack_def no_flags_def flag_nums)
  subgoal by (cases c; cases u; simp add: v3d_qpu_flags_unpack_def no_flags_def flag_nums)
  subgoal by (cases c; simp add: v3d_qpu_flags_unpack_def no_flags_def flag_nums)
  done

lemma flags_num_bounds:
  "unat (pf_num x) < 4" "unat (cond_num c) < 5" "unat (uf_num u) < 13"
  "c \<noteq> V3D_QPU_COND_NONE \<Longrightarrow> unat (cond_num c - 1) < 4"
  subgoal by (cases x) simp_all
  subgoal by (cases c) simp_all
  subgoal by (cases u) simp_all
  subgoal by (cases c) simp_all
  done

lemma flags_pack_SomeE:
  assumes "v3d_qpu_flags_pack f = Some k"
  obtains row where "find (\<lambda>row. fst row = flags_present f) flags_table = Some row"
  using assms by (auto simp: v3d_qpu_flags_pack_def Let_def split: option.splits)

lemma flags_packed_unpack:
  assumes "v3d_qpu_flags_pack f = Some k"
    and "mc f = V3D_QPU_COND_NONE \<or> ac f = V3D_QPU_COND_NONE \<or> ac f = V3D_QPU_COND_IFA"
  shows "unat k < 128 \<and> v3d_qpu_flags_unpack k = Some f"
proof -
  obtain row where "find (\<lambda>row. fst row = flags_present f) flags_table = Some row"
    using assms(1) by (rule flags_pack_SomeE)
  then show ?thesis
  proof (cases rule: flags_present_cases)
    case 1
    then show ?thesis using assms(1) by (simp add: flags_pack_simple flags_unpack_simple)
  next
    case (2 x)
    then show ?thesis using assms(1) flags_unpack_simple(2) [of x] by (cases x) (auto simp: flags_pack_simple)
  next
    case (3 x)
    then show ?thesis using assms(1) flags_unpack_simple(3) [of x] by (cases x) (auto simp: flags_pack_simple)
  next
    case (4 x)
    then show ?thesis using assms(1) flags_unpack_simple(4) [of x] by (cases x) (auto simp: flags_pack_simple)
  next
    case (5 x)
    then show ?thesis using assms(1) flags_unpack_simple(5) [of x] by (cases x) (auto simp: flags_pack_simple)
  next
    case (6 x y)
    then show ?thesis using assms(1) flags_unpack_double(1) [of x y] by (cases x; cases y) (auto simp: flags_pack_double)
  next
    case (7 x y)
    then show ?thesis using assms(1) flags_unpack_double(2) [of x y] by (cases x; cases y) (auto simp: flags_pack_double)
  next
    case (8 x y)
    then have "y = V3D_QPU_COND_IFA" using assms(2) by (simp add: no_flags_def)
    then show ?thesis using 8 assms(1) flags_unpack_double(4) [of x] by (cases x) (auto simp: flags_pack_double)
  next
    case (9 x y)
    then show ?thesis using assms(1) flags_unpack_double(3) [of x y] by (cases x; cases y) (auto simp: flags_pack_double)
  qed
qed

text \<open>
  C20. A signal structure that packs is the one its number unpacks to, on every version, and a
  number that unpacks is the packing of its structure or, for a structure listed twice, of the
  same structure at a smaller number. Small immediates: the packed numbers are the 48 indices of
  the table, and packing and unpacking are inverse to each other. Condition flags that pack fit the
  seven bits of the field and unpack to themselves, except for a condition other than \<open>IFA\<close> on the
  add half next to one on the mul half.
\<close>

theorem sig_pack_unpack:
  "(v3d_qpu_sig_pack d s = Some k \<longrightarrow> unat k < 32 \<and> v3d_qpu_sig_unpack d k = Some s)
 \<and> (v3d_qpu_sig_unpack d k = Some s \<longrightarrow> (\<exists>j \<le> k. v3d_qpu_sig_pack d s = Some j))
 \<and> (v3d_qpu_small_imm_pack v = Some i \<longleftrightarrow> v3d_qpu_small_imm_unpack i = Some v)
 \<and> (v3d_qpu_small_imm_unpack i \<noteq> None \<longleftrightarrow> unat i < 48)
 \<and> (v3d_qpu_flags_pack f = Some w
      \<and> (mc f = V3D_QPU_COND_NONE \<or> ac f = V3D_QPU_COND_NONE \<or> ac f = V3D_QPU_COND_IFA)
    \<longrightarrow> unat w < 128 \<and> v3d_qpu_flags_unpack w = Some f)"
  using sig_unpack_packed sig_packed_first small_imm_inverse flags_packed_unpack by blast

theorem sig_pack_unpack_witness:
  "(v3d_qpu_sig_pack \<lparr>ver = 41\<rparr> (LDTMU no_sig) = Some 4
    \<and> v3d_qpu_sig_unpack \<lparr>ver = 41\<rparr> 4 = Some (LDTMU no_sig))
 \<and> unat (0x59 :: u32) < 128
 \<and> v3d_qpu_flags_unpack 0x59 = Some (no_flags\<lparr>mc := V3D_QPU_COND_IFB, auf := V3D_QPU_UF_ANDNN\<rparr>)"
proof -
  let ?f = "no_flags\<lparr>mc := V3D_QPU_COND_IFB, auf := V3D_QPU_UF_ANDNN\<rparr>"
  have p: "v3d_qpu_sig_pack \<lparr>ver = 41\<rparr> (LDTMU no_sig) = Some 4" by code_simp
  have q: "v3d_qpu_flags_pack ?f = Some 0x59" "ac ?f = V3D_QPU_COND_NONE"
    by (simp_all add: flags_pack_double no_flags_def [THEN arg_cong [where f = ac]])
  show ?thesis
    using p q sig_pack_unpack [where d = "\<lparr>ver = 41\<rparr>" and s = "LDTMU no_sig" and k = "4" and f = "?f" and w = "0x59"]
    by blast
qed

text \<open>
  With a condition on both halves \<open>v3d_qpu_flags_pack\<close> puts the one of the add half two bits
  above the place \<open>v3d_qpu_flags_unpack\<close> reads it from: every condition other than \<open>IFA\<close> is
  read back as an update of the add flags.
\<close>

lemma flags_pack_two_conds:
  assumes "c \<noteq> V3D_QPU_COND_NONE" "e \<noteq> V3D_QPU_COND_NONE" "e \<noteq> V3D_QPU_COND_IFA"
  shows "\<exists>k u. v3d_qpu_flags_pack (no_flags\<lparr>mc := c, ac := e\<rparr>) = Some k
            \<and> v3d_qpu_flags_unpack k = Some (no_flags\<lparr>mc := c, auf := u\<rparr>) \<and> u \<noteq> V3D_QPU_UF_NONE"
proof -
  define u where "u = (case e of V3D_QPU_COND_IFB \<Rightarrow> V3D_QPU_UF_ANDZ
      | V3D_QPU_COND_IFNA \<Rightarrow> V3D_QPU_UF_ANDN | _ \<Rightarrow> V3D_QPU_UF_ANDC)"
  have u: "u \<noteq> V3D_QPU_UF_NONE" and n: "uf_num u + 3 = 4 * (cond_num e - 1)"
    using assms(2,3) unfolding u_def by (cases e; simp)+
  have "v3d_qpu_flags_unpack (64 + 16 * (cond_num c - 1) + (uf_num u + 3))
      = Some (no_flags\<lparr>mc := c, auf := u\<rparr>)"
    by (rule flags_unpack_double(3) [OF assms(1) u])
  then show ?thesis
    unfolding n using flags_pack_double(3) [OF assms(1,2)] u by blast
qed

end
