(* ===== verification/QpuAlu.thy ===== *)
theory QpuAlu
  imports QpuTables
begin

text \<open>
  The two halves of an ALU instruction: the opcode tables as decision lists over numbers, and the
  proof that the three numbers the packing of a half chooses decode to the same half.
\<close>

section \<open>The opcode tables\<close>

lemma mask_test: "ucast (m :: u8) AND 2 ^ k = (0 :: u32) \<longleftrightarrow> \<not> bit m k"
  by (auto simp: and_exp_eq_0_iff_not_bit bit_ucast_iff dest: bit_imp_le_length)

lemma unat_ucast_u8: "unat (ucast (x :: u8) :: u32) = unat x"
proof -
  have "unat x < 2 ^ 32" using unsigned_less [of x] by (rule less_le_trans) simp
  then show ?thesis by (simp add: unsigned_ucast_eq take_bit_nat_eq_self)
qed

definition row_matches :: "nat \<Rightarrow> nat \<Rightarrow> nat \<Rightarrow> 'op opcode_desc \<Rightarrow> bool" where
  "row_matches n a b d \<longleftrightarrow> unat (opcode_first d) \<le> n \<and> n \<le> unat (opcode_last d)
     \<and> bit (mux_b_mask d) b \<and> bit (mux_a_mask d) a"

lemma opcode_lookup_find: "lookup_opcode ds op a b = find (row_matches (unat op) (unat a) (unat b)) ds"
  by (induction ds) (auto simp: row_matches_def mask_test word_less_nat_alt unat_ucast_u8)

lemma row_matches_desc:
  "row_matches n a b (desc lo hi mb ma p v) \<longleftrightarrow> unat lo \<le> n \<and> n \<le> unat hi \<and> bit mb b \<and> bit ma a"
  by (simp add: row_matches_def desc_def)

lemma ANYMUX_bit: "bit ANYMUX k \<longleftrightarrow> k < 8"
proof -
  have "ANYMUX = - 1" by (simp add: ANYMUX_def MUX_MASK_def)
  then show ?thesis unfolding \<open>ANYMUX = - 1\<close> by (auto simp: bit_minus_1_iff)
qed

lemma MUX_MASK_values:
  "MUX_MASK 0 2 = 7" "MUX_MASK 4 6 = 112" "MUX_MASK 0 3 = 15"
  by (simp_all add: MUX_MASK_def)

lemma mux_num_less [simp]: "unat (mux_num m) < 8"
  by (cases m) simp_all

lemma mux_of_num [simp]: "mux_of (mux_num m) = m"
  by (cases m) (simp_all add: mux_of_def)

lemma mux_num_inject: "mux_num m = mux_num m' \<longleftrightarrow> m = m'"
  by (metis mux_of_num)

lemma pack_of_num [simp]: "pack_of (pack_num p) = p"
  by (cases p) (simp_all add: pack_of_def)

lemma desc_sel:
  "opcode_first (desc lo hi mb ma p v) = lo" "mux_b_mask (desc lo hi mb ma p v) = mb"
  "mux_a_mask (desc lo hi mb ma p v) = ma" "desc_op (desc lo hi mb ma p v) = p"
  by (simp_all add: desc_def)

lemma mask_mux_values:
  "mask_mux ANYMUX = 0" "mask_mux 1 = 0" "mask_mux 2 = 1" "mask_mux 4 = 2" "mask_mux 8 = 3"
  "mask_mux 16 = 4" "mask_mux 32 = 5" "mask_mux 64 = 6" "mask_mux 128 = 7" "mask_mux 7 = 0"
  "mask_mux 112 = 4" "mask_mux 15 = 0"
  by (simp_all add: mask_mux_def ffs_def ANYMUX_def MUX_MASK_def upt_rec)

text \<open>The three numbers that identify an add operation in a word.\<close>

definition add_encoding :: "v3d_qpu_add_op alu_half \<Rightarrow> (u32 \<times> u32 \<times> u32) option" where
  "add_encoding h =
    (case find (\<lambda>d. desc_op d = alu_op h) add_ops of
       None \<Rightarrow> None
     | Some d \<Rightarrow>
         add_pack_encode h (ucast (opcode_first d))
           (if v3d_qpu_add_op_num_src (alu_op h) < 1 then mask_mux (mux_a_mask d) else mux_num (alu_a h))
           (if v3d_qpu_add_op_num_src (alu_op h) < 2 then mask_mux (mux_b_mask d) else mux_num (alu_b h)))"

definition plain_op :: "v3d_qpu_add_op \<Rightarrow> bool" where
  "plain_op op \<longleftrightarrow> \<not> float32_binary op \<and> \<not> float32_round op \<and> \<not> float32_to_int op \<and> \<not> float16_minmax op"

lemmas op_classes = plain_op_def float32_binary_def float32_round_def float32_to_int_def
  float16_minmax_def stvpm_def

lemmas num_src_simps = v3d_qpu_add_op_num_src_def v3d_qpu_mul_op_num_src_def ARG_A_def ARG_B_def ARG_D_def

text \<open>The write address of an operation that has one of its own.\<close>

definition row_waddr :: "v3d_qpu_add_op \<Rightarrow> u32 \<Rightarrow> u32" where
  "row_waddr op w = (if op = V3D_QPU_A_STVPMV then 0 else if op = V3D_QPU_A_STVPMD then 1
     else if op = V3D_QPU_A_STVPMP then 2 else w)"

lemma mux_mask_bits:
  "bit (push_bit k 1 :: u8) j \<longleftrightarrow> k = j \<and> j < 8"
  "bit (MUX_MASK 0 2) j \<longleftrightarrow> j \<le> 2"
  "bit (MUX_MASK 0 3) j \<longleftrightarrow> j \<le> 3"
  "bit (MUX_MASK 4 6) j \<longleftrightarrow> 4 \<le> j \<and> j \<le> 6"
proof -
  show "bit (push_bit k 1 :: u8) j \<longleftrightarrow> k = j \<and> j < 8"
    by (auto simp: bit_exp_iff)
  have "MUX_MASK 0 2 = mask 3" "MUX_MASK 0 3 = mask 4" "MUX_MASK 4 6 = push_bit 4 (mask 3)"
    by (simp_all add: MUX_MASK_def mask_eq_exp_minus_1)
  then show "bit (MUX_MASK 0 2) j \<longleftrightarrow> j \<le> 2" "bit (MUX_MASK 0 3) j \<longleftrightarrow> j \<le> 3"
    "bit (MUX_MASK 4 6) j \<longleftrightarrow> 4 \<le> j \<and> j \<le> 6"
    unfolding \<open>MUX_MASK 0 2 = mask 3\<close> \<open>MUX_MASK 0 3 = mask 4\<close> \<open>MUX_MASK 4 6 = push_bit 4 (mask 3)\<close>
    by (auto simp: bit_mask_iff bit_push_bit_iff)
qed

lemma row_op_step:
  "map_option desc_op (find (row_matches n a b) (desc lo hi mb ma p v # ds)) =
    (if unat lo \<le> n \<and> n \<le> unat hi \<and> bit mb b \<and> bit ma a then Some p
     else map_option desc_op (find (row_matches n a b) ds))"
  by (simp add: row_matches_desc desc_sel)

lemma row_op_end: "map_option desc_op (find (row_matches n a b) []) = None"
  by simp

lemma eq_by_bounds: "m \<le> n \<and> n \<le> (m :: nat) \<longleftrightarrow> n = m" "m \<le> n \<and> n \<le> m \<and> P \<longleftrightarrow> n = m \<and> P"
  by auto

text \<open>The two tables as decision lists over numbers.\<close>

definition add_row_op :: "nat \<Rightarrow> nat \<Rightarrow> nat \<Rightarrow> v3d_qpu_add_op option" where
  "add_row_op n a b =
     (      if n \<le> 47 then Some V3D_QPU_A_FADD
      else if 53 \<le> n \<and> n \<le> 55 then Some V3D_QPU_A_VFPACK
      else if n = 56 then Some V3D_QPU_A_ADD
      else if 57 \<le> n \<and> n \<le> 59 then Some V3D_QPU_A_VFPACK
      else if n = 60 then Some V3D_QPU_A_SUB
      else if 61 \<le> n \<and> n \<le> 63 then Some V3D_QPU_A_VFPACK
      else if 64 \<le> n \<and> n \<le> 111 then Some V3D_QPU_A_FSUB
      else if n = 120 then Some V3D_QPU_A_MIN
      else if n = 121 then Some V3D_QPU_A_MAX
      else if n = 122 then Some V3D_QPU_A_UMIN
      else if n = 123 then Some V3D_QPU_A_UMAX
      else if n = 124 then Some V3D_QPU_A_SHL
      else if n = 125 then Some V3D_QPU_A_SHR
      else if n = 126 then Some V3D_QPU_A_ASR
      else if n = 127 then Some V3D_QPU_A_ROR
      else if 128 \<le> n \<and> n \<le> 175 then Some V3D_QPU_A_FMIN
      else if 176 \<le> n \<and> n \<le> 180 then Some V3D_QPU_A_VFMIN
      else if n = 181 then Some V3D_QPU_A_AND
      else if n = 182 then Some V3D_QPU_A_OR
      else if n = 183 then Some V3D_QPU_A_XOR
      else if n = 184 then Some V3D_QPU_A_VADD
      else if n = 185 then Some V3D_QPU_A_VSUB
      else if n = 186 \<and> b = 0 then Some V3D_QPU_A_NOT
      else if n = 186 \<and> b = 1 then Some V3D_QPU_A_NEG
      else if n = 186 \<and> b = 2 then Some V3D_QPU_A_FLAPUSH
      else if n = 186 \<and> b = 3 then Some V3D_QPU_A_FLBPUSH
      else if n = 186 \<and> b = 4 then Some V3D_QPU_A_FLBPOP
      else if n = 186 \<and> b = 6 then Some V3D_QPU_A_SETMSF
      else if n = 186 \<and> b = 7 then Some V3D_QPU_A_SETREVF
      else if n = 187 \<and> b = 0 \<and> a = 0 then Some V3D_QPU_A_NOP
      else if n = 187 \<and> b = 0 \<and> a = 1 then Some V3D_QPU_A_TIDX
      else if n = 187 \<and> b = 0 \<and> a = 2 then Some V3D_QPU_A_EIDX
      else if n = 187 \<and> b = 0 \<and> a = 3 then Some V3D_QPU_A_LR
      else if n = 187 \<and> b = 0 \<and> a = 4 then Some V3D_QPU_A_VFLA
      else if n = 187 \<and> b = 0 \<and> a = 5 then Some V3D_QPU_A_VFLNA
      else if n = 187 \<and> b = 0 \<and> a = 6 then Some V3D_QPU_A_VFLB
      else if n = 187 \<and> b = 0 \<and> a = 7 then Some V3D_QPU_A_VFLNB
      else if n = 187 \<and> b = 1 \<and> a \<le> 2 then Some V3D_QPU_A_FXCD
      else if n = 187 \<and> b = 1 \<and> a = 3 then Some V3D_QPU_A_XCD
      else if n = 187 \<and> b = 1 \<and> 4 \<le> a \<and> a \<le> 6 then Some V3D_QPU_A_FYCD
      else if n = 187 \<and> b = 1 \<and> a = 7 then Some V3D_QPU_A_YCD
      else if n = 187 \<and> b = 2 \<and> a = 0 then Some V3D_QPU_A_MSF
      else if n = 187 \<and> b = 2 \<and> a = 1 then Some V3D_QPU_A_REVF
      else if n = 187 \<and> b = 2 \<and> a = 2 then Some V3D_QPU_A_VDWWT
      else if n = 187 \<and> b = 2 \<and> a = 3 then Some V3D_QPU_A_SAMPID
      else if n = 187 \<and> b = 2 \<and> a = 4 then Some V3D_QPU_A_BARRIERID
      else if n = 187 \<and> b = 2 \<and> a = 5 then Some V3D_QPU_A_TMUWT
      else if n = 187 \<and> b = 2 \<and> a = 6 then Some V3D_QPU_A_VPMWT
      else if n = 187 \<and> b = 3 then Some V3D_QPU_A_VPMSETUP
      else if n = 188 \<and> b = 0 then Some V3D_QPU_A_LDVPMV_IN
      else if n = 188 \<and> b = 1 then Some V3D_QPU_A_LDVPMD_IN
      else if n = 188 \<and> b = 2 then Some V3D_QPU_A_LDVPMP
      else if n = 189 then Some V3D_QPU_A_LDVPMG_IN
      else if 192 \<le> n \<and> n \<le> 239 then Some V3D_QPU_A_FCMP
      else if 240 \<le> n \<and> n \<le> 244 then Some V3D_QPU_A_VFMAX
      else if n = 245 \<and> b \<le> 2 then Some V3D_QPU_A_FROUND
      else if n = 245 \<and> b = 3 then Some V3D_QPU_A_FTOIN
      else if n = 245 \<and> 4 \<le> b \<and> b \<le> 6 then Some V3D_QPU_A_FTRUNC
      else if n = 245 \<and> b = 7 then Some V3D_QPU_A_FTOIZ
      else if n = 246 \<and> b \<le> 2 then Some V3D_QPU_A_FFLOOR
      else if n = 246 \<and> b = 3 then Some V3D_QPU_A_FTOUZ
      else if n = 246 \<and> 4 \<le> b \<and> b \<le> 6 then Some V3D_QPU_A_FCEIL
      else if n = 246 \<and> b = 7 then Some V3D_QPU_A_FTOC
      else if n = 247 \<and> b \<le> 2 then Some V3D_QPU_A_FDX
      else if n = 247 \<and> 4 \<le> b \<and> b \<le> 6 then Some V3D_QPU_A_FDY
      else if n = 248 then Some V3D_QPU_A_STVPMV
      else if n = 252 \<and> b \<le> 2 then Some V3D_QPU_A_ITOF
      else if n = 252 \<and> b = 3 then Some V3D_QPU_A_CLZ
      else if n = 252 \<and> 4 \<le> b \<and> b \<le> 6 then Some V3D_QPU_A_UTOF
      else None)"

definition mul_row_op :: "nat \<Rightarrow> nat \<Rightarrow> nat \<Rightarrow> v3d_qpu_mul_op option" where
  "mul_row_op n a b =
     (      if n = 1 then Some V3D_QPU_M_ADD
      else if n = 2 then Some V3D_QPU_M_SUB
      else if n = 3 then Some V3D_QPU_M_UMUL24
      else if 4 \<le> n \<and> n \<le> 8 then Some V3D_QPU_M_VFMUL
      else if n = 9 then Some V3D_QPU_M_SMUL24
      else if n = 10 then Some V3D_QPU_M_MULTOP
      else if n = 14 then Some V3D_QPU_M_FMOV
      else if n = 15 \<and> b \<le> 3 then Some V3D_QPU_M_FMOV
      else if n = 15 \<and> b = 4 \<and> a = 0 then Some V3D_QPU_M_NOP
      else if n = 15 \<and> b = 7 then Some V3D_QPU_M_MOV
      else if 16 \<le> n \<and> n \<le> 63 then Some V3D_QPU_M_FMUL
      else None)"

lemma add_row_lookup:
  assumes "a < 8" "b < 8"
  shows "map_option desc_op (find (row_matches n a b) add_ops) = add_row_op n a b"
  unfolding add_ops_def row_op_step row_op_end ANYMUX_bit mux_mask_bits add_row_op_def
  using assms by (simp add: eq_by_bounds eq_commute [of _ a] eq_commute [of _ b] cong: if_cong)

lemma mul_row_lookup:
  assumes "a < 8" "b < 8"
  shows "map_option desc_op (find (row_matches n a b) mul_ops) = mul_row_op n a b"
  unfolding mul_ops_def row_op_step row_op_end ANYMUX_bit mux_mask_bits mul_row_op_def
  using assms by (simp add: eq_by_bounds eq_commute [of _ a] eq_commute [of _ b] cong: if_cong)


lemma add_lookup_op:
  assumes "unat a < 8" "unat b < 8" "add_row_op (unat n) (unat a) (unat b) = Some p"
  shows "\<exists>d. lookup_opcode add_ops n a b = Some d \<and> desc_op d = p"
  using assms add_row_lookup [of "unat a" "unat b" "unat n"] by (auto simp: opcode_lookup_find)

lemma mul_lookup_op:
  assumes "unat a < 8" "unat b < 8" "mul_row_op (unat n) (unat a) (unat b) = Some p"
  shows "\<exists>d. lookup_opcode mul_ops n a b = Some d \<and> desc_op d = p"
  using assms mul_row_lookup [of "unat a" "unat b" "unat n"] by (auto simp: opcode_lookup_find)

lemma ordered_plain: "p \<noteq> V3D_QPU_A_FMIN \<Longrightarrow> p \<noteq> V3D_QPU_A_FADD \<Longrightarrow> add_ordered_op op a b p = p"
  by (simp add: add_ordered_op_def)

text \<open>A row decodes to its own operation, or to one of the three the write address tells apart.\<close>

definition plain_row_ok :: "v3d_qpu_add_op opcode_desc \<Rightarrow> bool" where
  "plain_row_ok d \<longleftrightarrow> (plain_op (desc_op d) \<and> desc_op d \<noteq> V3D_QPU_A_IID \<longrightarrow>
     (\<forall>x y.
       let nsrc = v3d_qpu_add_op_num_src (desc_op d);
           a = (if nsrc < 1 then mask_mux (mux_a_mask d) else mux_num x);
           b = (if nsrc < 2 then mask_mux (mux_b_mask d) else mux_num y)
       in unat a < 8 \<and> unat b < 8 \<and>
          add_row_op (unat (add_map_op (ucast (opcode_first d)))) (unat a) (unat b)
            = Some (if stvpm (desc_op d) then V3D_QPU_A_STVPMV else desc_op d)))"

lemma plain_row_desc:
  "plain_row_ok (desc lo hi mb ma p v) \<longleftrightarrow> (plain_op p \<and> p \<noteq> V3D_QPU_A_IID \<longrightarrow>
     (\<forall>x y.
       let nsrc = v3d_qpu_add_op_num_src p;
           a = (if nsrc < 1 then mask_mux ma else mux_num x);
           b = (if nsrc < 2 then mask_mux mb else mux_num y)
       in unat a < 8 \<and> unat b < 8 \<and>
          add_row_op (unat (add_map_op (ucast lo))) (unat a) (unat b)
            = Some (if stvpm p then V3D_QPU_A_STVPMV else p)))"
  by (simp add: plain_row_ok_def desc_sel)

lemma plain_rows: "list_all plain_row_ok add_ops"
  unfolding add_ops_def list.pred_inject plain_row_desc MUX_MASK_values
  by (intro conjI; simp add: op_classes num_src_simps mask_mux_values add_map_op_def add_row_op_def)

section \<open>The add half\<close>

text \<open>
  What is left out of the round trip: the operations and operands that the encoding of the code
  does not keep apart (the theorems below show it for each), a magic write of a load of the input
  segment, which the code asserts away, and a write address wider than its field.
\<close>

definition add_ok :: "v3d_qpu_add_op alu_half \<Rightarrow> bool" where
  "add_ok h \<longleftrightarrow> alu_op h \<noteq> V3D_QPU_A_IID
   \<and> (float32_round (alu_op h) \<or> float32_to_int (alu_op h) \<longrightarrow> a_unpack h \<noteq> V3D_QPU_UNPACK_L)
   \<and> (alu_op h = V3D_QPU_A_FADDNF \<or> alu_op h = V3D_QPU_A_FMAX \<longrightarrow>
        \<not> (alu_a h = alu_b h \<and> a_unpack h = b_unpack h))
   \<and> (alu_op h \<in> {V3D_QPU_A_LDVPMV_IN, V3D_QPU_A_LDVPMD_IN, V3D_QPU_A_LDVPMG_IN} \<longrightarrow>
        \<not> magic_write h)
   \<and> unat (alu_waddr h) < 64"

definition commutes :: "v3d_qpu_add_op \<Rightarrow> bool" where
  "commutes op \<longleftrightarrow> op \<in> {V3D_QPU_A_FADD, V3D_QPU_A_FADDNF, V3D_QPU_A_FMIN, V3D_QPU_A_FMAX}"

definition add_operands :: "v3d_qpu_add_op alu_half \<Rightarrow> (v3d_qpu_mux \<times> v3d_qpu_input_unpack) list" where
  "add_operands h = take (v3d_qpu_add_op_num_src (alu_op h))
     [(alu_a h, a_unpack h), (alu_b h, b_unpack h)]"

text \<open>Two add halves that mean the same: the fields the operation uses agree, up to the order of
  the operands of a commutative one.\<close>

definition add_packs_same :: "v3d_qpu_add_op alu_half \<Rightarrow> v3d_qpu_add_op alu_half \<Rightarrow> bool" where
  "add_packs_same x y \<longleftrightarrow> alu_op y = alu_op x
   \<and> (alu_op x \<noteq> V3D_QPU_A_NOP \<longrightarrow> output_pack y = output_pack x)
   \<and> (add_operands y = add_operands x \<or>
      commutes (alu_op x) \<and> add_operands y = rev (add_operands x))"

definition add_same :: "v3d_qpu_add_op alu_half \<Rightarrow> v3d_qpu_add_op alu_half \<Rightarrow> bool" where
  "add_same x y \<longleftrightarrow> add_packs_same x y
   \<and> (if stvpm (alu_op x) then \<not> magic_write y
      else alu_waddr y = alu_waddr x \<and> magic_write y = magic_write x)"

definition add_decodes :: "v3d_qpu_add_op alu_half \<Rightarrow> u32 \<Rightarrow> u32 \<Rightarrow> u32 \<Rightarrow> bool" where
  "add_decodes h opc a b \<longleftrightarrow> unat opc < 256 \<and> unat a < 8 \<and> unat b < 8 \<and>
     (\<exists>p. add_row_op (unat (add_map_op opc)) (unat a) (unat b) = Some p \<and>
        add_stvpm_op (fst (add_pack_waddr h)) (add_ordered_op opc a b p) = Some (alu_op h)) \<and>
     (\<forall>h0. alu_op h0 = alu_op h \<longrightarrow>
        (\<exists>h1. add_unpack_packs opc b h0 = Some h1 \<and> alu_op h1 = alu_op h \<and>
              add_packs_same h (h1\<lparr>alu_a := mux_of a, alu_b := mux_of b\<rparr>)))"

lemma float32_unpack_roundtrip:
  "v3d_qpu_float32_unpack_pack u = Some k \<Longrightarrow> v3d_qpu_float32_unpack_unpack k = Some u \<and> unat k < 4"
  by (cases u) (auto simp: v3d_qpu_float32_unpack_pack_def v3d_qpu_float32_unpack_unpack_def)

lemma float16_unpack_roundtrip:
  "v3d_qpu_float16_unpack_pack u = Some k \<Longrightarrow> v3d_qpu_float16_unpack_unpack k = Some u \<and> unat k < 5"
  by (cases u) (auto simp: v3d_qpu_float16_unpack_pack_def v3d_qpu_float16_unpack_unpack_def)

lemma float32_pack_pack_num: "v3d_qpu_float32_pack_pack p = Some (pack_num p)"
  by (cases p) (simp_all add: v3d_qpu_float32_pack_pack_def)

lemma num_src_cases:
  "v3d_qpu_add_op_num_src op = 0 \<or> v3d_qpu_add_op_num_src op = 1 \<or> v3d_qpu_add_op_num_src op = 2"
  by (simp add: v3d_qpu_add_op_num_src_def Let_def)

lemma plain_decodes:
  assumes p: "plain_op (alu_op h)" and ok: "add_ok h" and e: "add_encoding h = Some (opc, a, b)"
  shows "add_decodes h opc a b"
proof -
  obtain d where d: "find (\<lambda>d. desc_op d = alu_op h) add_ops = Some d"
    using e by (auto simp: add_encoding_def split: option.splits)
  then have op: "desc_op d = alu_op h" and mem: "d \<in> set add_ops"
    by (auto simp: find_Some_iff)
  have row: "plain_row_ok d" using plain_rows mem by (simp add: list_all_iff)
  define x where "x = (if v3d_qpu_add_op_num_src (alu_op h) < 1 then mask_mux (mux_a_mask d) else mux_num (alu_a h))"
  define y where "y = (if v3d_qpu_add_op_num_src (alu_op h) < 2 then mask_mux (mux_b_mask d) else mux_num (alu_b h))"
  have "alu_op h \<noteq> V3D_QPU_A_IID" using ok by (simp add: add_ok_def)
  from row [unfolded plain_row_ok_def op, rule_format, OF conjI, OF p this, of "alu_a h" "alu_b h"]
  have r: "unat x < 8" "unat y < 8"
      "add_row_op (unat (add_map_op (ucast (opcode_first d)))) (unat x) (unat y)
        = Some (if stvpm (alu_op h) then V3D_QPU_A_STVPMV else alu_op h)"
    by (simp_all add: Let_def x_def y_def)
  have np: "alu_op h \<noteq> V3D_QPU_A_FMIN" "alu_op h \<noteq> V3D_QPU_A_FADD"
    using p by (auto simp: op_classes)
  from e d p have "opc = ucast (opcode_first d)" "a = x" "b = y"
    and none: "alu_op h \<noteq> V3D_QPU_A_NOP \<Longrightarrow> output_pack h = V3D_QPU_PACK_NONE \<and>
        a_unpack h = V3D_QPU_UNPACK_NONE \<and> b_unpack h = V3D_QPU_UNPACK_NONE"
    by (auto simp: add_encoding_def add_pack_encode_def plain_op_def Let_def x_def y_def split: if_splits)
  note eqs = this
  have "unat opc < 256"
    using unsigned_less [of "opcode_first d"] by (simp add: eqs(1) unat_ucast_u8)
  moreover have "add_stvpm_op (fst (add_pack_waddr h))
      (add_ordered_op opc a b (if stvpm (alu_op h) then V3D_QPU_A_STVPMV else alu_op h)) = Some (alu_op h)"
    using np by (auto simp: ordered_plain add_stvpm_op_def add_pack_waddr_def stvpm_def)
  moreover have "\<exists>h1. add_unpack_packs opc b h0 = Some h1 \<and> alu_op h1 = alu_op h \<and>
      add_packs_same h (h1\<lparr>alu_a := mux_of a, alu_b := mux_of b\<rparr>)" if h0: "alu_op h0 = alu_op h" for h0
  proof -
    let ?h1 = "h0\<lparr>output_pack := V3D_QPU_PACK_NONE, a_unpack := V3D_QPU_UNPACK_NONE,
                  b_unpack := V3D_QPU_UNPACK_NONE\<rparr>"
    have "add_unpack_packs opc b h0 = Some ?h1"
      using p h0 by (simp add: add_unpack_packs_def plain_op_def)
    moreover have "add_packs_same h (?h1\<lparr>alu_a := mux_of a, alu_b := mux_of b\<rparr>)"
    proof (cases "alu_op h = V3D_QPU_A_NOP")
      case True
      then show ?thesis using h0 by (simp add: add_packs_same_def add_operands_def num_src_simps)
    next
      case False
      then show ?thesis
        using none h0 num_src_cases [of "alu_op h"] unfolding eqs(2,3) x_def y_def
        by (auto simp: add_packs_same_def add_operands_def)
    qed
    ultimately show ?thesis using h0 by auto
  qed
  ultimately show ?thesis
    using r unfolding add_decodes_def eqs by blast
qed


text \<open>The opcodes with fields for the output and the two inputs.\<close>

lemma small_u32:
  assumes "unat (k :: u32) < 4"
  shows "k = 0 \<or> k = 1 \<or> k = 2 \<or> k = 3"
proof -
  have "unat k = 0 \<or> unat k = 1 \<or> unat k = 2 \<or> unat k = 3" using assms by linarith
  then show ?thesis by (simp add: word_unat_eq_iff)
qed

lemma pack_num_less: "unat (pack_num p) < 3"
  by (cases p) simp_all

definition binary_opcode :: "u32 \<Rightarrow> u32 \<Rightarrow> u32 \<Rightarrow> u32 \<Rightarrow> u32" where
  "binary_opcode base out xa xb =
    ((base OR push_bit 4 out) OR push_bit 2 xa) OR push_bit 0 xb"

definition binary_fields_ok :: "u32 \<Rightarrow> u32 \<Rightarrow> u32 \<Rightarrow> u32 \<Rightarrow> bool" where
  "binary_fields_ok base out xa xb \<longleftrightarrow>
    (let opc = binary_opcode base out xa xb in
     opc AND 3 = xb \<and> drop_bit 2 opc AND 3 = xa \<and> drop_bit 4 opc AND 3 = out \<and>
     unat base \<le> unat opc \<and> unat opc \<le> unat base + 47 \<and> add_map_op opc = opc)"

lemma not_le_one: "\<not> (253 :: u32) \<le> 1" "\<not> (249 :: u32) \<le> 1"
  by (simp_all add: word_le_nat_alt)

lemma binary_fields_all:
  "\<forall>base \<in> {0, 64, 128, 192}. \<forall>out \<in> {0, 1, 2}. \<forall>xa \<in> {0, 1, 2, 3}. \<forall>xb \<in> {0, 1, 2, 3}.
     binary_fields_ok base out xa xb"
  by (simp add: binary_fields_ok_def binary_opcode_def add_map_op_def not_le_one)

lemma binary_opcode_fields:
  assumes "base \<in> {0, 64, 128, 192}" "unat xa < 4" "unat xb < 4"
  shows "binary_fields_ok base (pack_num p) xa xb"
proof -
  have "pack_num p \<in> {0, 1, 2}" by (cases p) simp_all
  moreover have "xa \<in> {0, 1, 2, 3}" "xb \<in> {0, 1, 2, 3}"
    using small_u32 assms(2,3) by auto
  ultimately show ?thesis using binary_fields_all assms(1) by blast
qed


text \<open>The first row of each of the operations with fields.\<close>

lemma float_rows:
  "find (\<lambda>d. desc_op d = V3D_QPU_A_FADD) add_ops = Some (desc 0 47 ANYMUX ANYMUX V3D_QPU_A_FADD 0)"
  "find (\<lambda>d. desc_op d = V3D_QPU_A_FADDNF) add_ops = Some (desc 0 47 ANYMUX ANYMUX V3D_QPU_A_FADDNF 0)"
  "find (\<lambda>d. desc_op d = V3D_QPU_A_FSUB) add_ops = Some (desc 64 111 ANYMUX ANYMUX V3D_QPU_A_FSUB 0)"
  "find (\<lambda>d. desc_op d = V3D_QPU_A_FMIN) add_ops = Some (desc 128 175 ANYMUX ANYMUX V3D_QPU_A_FMIN 0)"
  "find (\<lambda>d. desc_op d = V3D_QPU_A_FMAX) add_ops = Some (desc 128 175 ANYMUX ANYMUX V3D_QPU_A_FMAX 0)"
  "find (\<lambda>d. desc_op d = V3D_QPU_A_FCMP) add_ops = Some (desc 192 239 ANYMUX ANYMUX V3D_QPU_A_FCMP 0)"
  "find (\<lambda>d. desc_op d = V3D_QPU_A_FROUND) add_ops = Some (desc 245 245 (MUX_MASK 0 2) ANYMUX V3D_QPU_A_FROUND 0)"
  "find (\<lambda>d. desc_op d = V3D_QPU_A_FTOIN) add_ops = Some (desc 245 245 (push_bit 3 1) ANYMUX V3D_QPU_A_FTOIN 0)"
  "find (\<lambda>d. desc_op d = V3D_QPU_A_FTRUNC) add_ops = Some (desc 245 245 (MUX_MASK 4 6) ANYMUX V3D_QPU_A_FTRUNC 0)"
  "find (\<lambda>d. desc_op d = V3D_QPU_A_FTOIZ) add_ops = Some (desc 245 245 (push_bit 7 1) ANYMUX V3D_QPU_A_FTOIZ 0)"
  "find (\<lambda>d. desc_op d = V3D_QPU_A_FFLOOR) add_ops = Some (desc 246 246 (MUX_MASK 0 2) ANYMUX V3D_QPU_A_FFLOOR 0)"
  "find (\<lambda>d. desc_op d = V3D_QPU_A_FTOUZ) add_ops = Some (desc 246 246 (push_bit 3 1) ANYMUX V3D_QPU_A_FTOUZ 0)"
  "find (\<lambda>d. desc_op d = V3D_QPU_A_FCEIL) add_ops = Some (desc 246 246 (MUX_MASK 4 6) ANYMUX V3D_QPU_A_FCEIL 0)"
  "find (\<lambda>d. desc_op d = V3D_QPU_A_FTOC) add_ops = Some (desc 246 246 (push_bit 7 1) ANYMUX V3D_QPU_A_FTOC 0)"
  "find (\<lambda>d. desc_op d = V3D_QPU_A_FDX) add_ops = Some (desc 247 247 (MUX_MASK 0 2) ANYMUX V3D_QPU_A_FDX 0)"
  "find (\<lambda>d. desc_op d = V3D_QPU_A_FDY) add_ops = Some (desc 247 247 (MUX_MASK 4 6) ANYMUX V3D_QPU_A_FDY 0)"
  "find (\<lambda>d. desc_op d = V3D_QPU_A_VFMIN) add_ops = Some (desc 176 180 ANYMUX ANYMUX V3D_QPU_A_VFMIN 0)"
  "find (\<lambda>d. desc_op d = V3D_QPU_A_VFMAX) add_ops = Some (desc 240 244 ANYMUX ANYMUX V3D_QPU_A_VFMAX 0)"
  unfolding add_ops_def by (simp_all add: desc_sel)

text \<open>The order of two operands, each with its unpacking.\<close>

lemma operand_key:
  assumes "unat xa < 4" "unat xb < 4"
  shows "xb * 8 + mux_num b < xa * 8 + mux_num a
      \<longleftrightarrow> unat xb * 8 + unat (mux_num b) < unat xa * 8 + unat (mux_num a)"
proof -
  have "unat (x * 8 + mux_num m) = unat x * 8 + unat (mux_num m)" if "unat x < 4" for x :: u32 and m
  proof -
    have "unat (x * 8) = unat x * 8" using that by (simp add: unat_word_ariths)
    moreover have "unat x * 8 + unat (mux_num m) < 40"
      using that mux_num_less [of m] by linarith
    then have "unat x * 8 + unat (mux_num m) < 2 ^ LENGTH(32)"
      by (rule less_le_trans) simp
    ultimately show ?thesis by (simp only: unat_add_less)
  qed
  then show ?thesis using assms by (simp add: word_less_nat_alt)
qed

lemma operand_key_inject:
  assumes "unat xa < 4" "unat xb < 4"
    and "unat xb * 8 + unat (mux_num b) = unat xa * 8 + unat (mux_num a)"
  shows "xa = xb \<and> a = b"
proof -
  have "unat (mux_num b) = unat (mux_num a)" "unat xb = unat xa"
    using assms(3) mux_num_less [of a] mux_num_less [of b] by presburger+
  then show ?thesis by (metis mux_num_inject word_unat_eq_iff)
qed

lemma add_row_op_ranges:
  "n \<le> 47 \<Longrightarrow> add_row_op n a b = Some V3D_QPU_A_FADD"
  "64 \<le> n \<Longrightarrow> n \<le> 111 \<Longrightarrow> add_row_op n a b = Some V3D_QPU_A_FSUB"
  "128 \<le> n \<Longrightarrow> n \<le> 175 \<Longrightarrow> add_row_op n a b = Some V3D_QPU_A_FMIN"
  "192 \<le> n \<Longrightarrow> n \<le> 239 \<Longrightarrow> add_row_op n a b = Some V3D_QPU_A_FCMP"
  "176 \<le> n \<Longrightarrow> n \<le> 180 \<Longrightarrow> add_row_op n a b = Some V3D_QPU_A_VFMIN"
  "240 \<le> n \<Longrightarrow> n \<le> 244 \<Longrightarrow> add_row_op n a b = Some V3D_QPU_A_VFMAX"
  by (simp_all add: add_row_op_def)


text \<open>First opcode of each of them, and the operation its range decodes to.\<close>

definition binary_base :: "v3d_qpu_add_op \<Rightarrow> u8" where
  "binary_base op = (if op = V3D_QPU_A_FSUB then 64
     else if op = V3D_QPU_A_FMIN \<or> op = V3D_QPU_A_FMAX then 128
     else if op = V3D_QPU_A_FCMP then 192 else 0)"

definition binary_op :: "v3d_qpu_add_op \<Rightarrow> v3d_qpu_add_op" where
  "binary_op op = (if op = V3D_QPU_A_FADDNF then V3D_QPU_A_FADD
     else if op = V3D_QPU_A_FMAX then V3D_QPU_A_FMIN else op)"

lemma binary_row:
  assumes "float32_binary op"
  shows "find (\<lambda>d. desc_op d = op) add_ops
      = Some (desc (binary_base op) (binary_base op + 47) ANYMUX ANYMUX op 0)"
    "ucast (binary_base op) \<in> {0, 64, 128, 192 :: u32}"
    "unat (ucast (binary_base op) :: u32) \<le> n \<Longrightarrow> n \<le> unat (ucast (binary_base op) :: u32) + 47 \<Longrightarrow>
     add_row_op n a b = Some (binary_op op)"
  using assms unfolding float32_binary_def
  by (auto simp: binary_base_def binary_op_def float_rows add_row_op_ranges)

lemma binary_decodes:
  assumes c: "float32_binary (alu_op h)" and ok: "add_ok h" and e: "add_encoding h = Some (opc, a, b)"
  shows "add_decodes h opc a b"
proof -
  let ?op = "alu_op h"
  have nsrc: "v3d_qpu_add_op_num_src ?op = 2"
    using c by (auto simp: float32_binary_def num_src_simps)
  define lo where "lo = binary_base ?op"
  define p where "p = binary_op ?op"
  note row = binary_row(1) [OF c, folded lo_def]
  note lo = binary_row(2) [OF c, folded lo_def]
  note range = binary_row(3) [OF c, folded lo_def p_def]
  obtain xa xb where xa: "v3d_qpu_float32_unpack_pack (a_unpack h) = Some xa"
    and xb: "v3d_qpu_float32_unpack_pack (b_unpack h) = Some xb"
    using e c by (auto simp: add_encoding_def row add_pack_encode_def add_pack_binary_def Let_def
        split: option.splits)
  note ua = float32_unpack_roundtrip [OF xa] and ub = float32_unpack_roundtrip [OF xb]
  define swap where "swap \<longleftrightarrow>
      (let ordering = xb * 8 + mux_num (alu_b h) < xa * 8 + mux_num (alu_a h) in
       ((?op = V3D_QPU_A_FMIN \<or> ?op = V3D_QPU_A_FADD) \<and> ordering) \<or>
       ((?op = V3D_QPU_A_FMAX \<or> ?op = V3D_QPU_A_FADDNF) \<and> \<not> ordering))"
  define ya yb ma mb where y: "ya = (if swap then xb else xa)" "yb = (if swap then xa else xb)"
      "ma = (if swap then alu_b h else alu_a h)" "mb = (if swap then alu_a h else alu_b h)"
  have eqs: "opc = binary_opcode (ucast lo) (pack_num (output_pack h)) ya yb" "a = mux_num ma" "b = mux_num mb"
    using e c nsrc unfolding y
    by (auto simp: add_encoding_def row desc_sel add_pack_encode_def add_pack_binary_def
        float32_pack_pack_num xa xb swap_def binary_opcode_def Let_def split: if_splits)
  have y4: "unat ya < 4" "unat yb < 4" using ua ub by (simp_all add: y)
  from binary_opcode_fields [OF lo y4, of "output_pack h"]
  have f: "opc AND 3 = yb" "drop_bit 2 opc AND 3 = ya" "drop_bit 4 opc AND 3 = pack_num (output_pack h)"
    "unat (ucast lo :: u32) \<le> unat opc" "unat opc \<le> unat (ucast lo :: u32) + 47" "add_map_op opc = opc"
    by (simp_all add: binary_fields_ok_def Let_def flip: eqs(1))
  have "unat (ucast lo :: u32) \<le> 192" using lo by auto
  then have opc: "unat opc < 256" using f(5) by linarith
  have key: "\<not> (unat xb * 8 + unat (mux_num (alu_b h)) = unat xa * 8 + unat (mux_num (alu_a h)))"
    if "?op = V3D_QPU_A_FADDNF \<or> ?op = V3D_QPU_A_FMAX"
  proof
    assume "unat xb * 8 + unat (mux_num (alu_b h)) = unat xa * 8 + unat (mux_num (alu_a h))"
    from operand_key_inject [OF conjunct2 [OF ua] conjunct2 [OF ub] this]
    have "xa = xb" "alu_a h = alu_b h" by simp_all
    then show False using ok that ua ub by (auto simp: add_ok_def)
  qed
  have "yb * 8 + mux_num mb < ya * 8 + mux_num ma \<longleftrightarrow> ?op = V3D_QPU_A_FADDNF \<or> ?op = V3D_QPU_A_FMAX"
    if "commutes ?op"
    using that key ua ub unfolding y swap_def commutes_def Let_def
    by (auto simp: operand_key)
  then have "add_ordered_op opc a b p = ?op"
    using c unfolding add_ordered_op_def f eqs(2,3) p_def binary_op_def
    by (auto simp: float32_binary_def commutes_def)
  moreover have "\<not> stvpm ?op" using c by (auto simp: stvpm_def float32_binary_def)
  moreover have "\<exists>h1. add_unpack_packs opc b h0 = Some h1 \<and> alu_op h1 = ?op \<and>
      add_packs_same h (h1\<lparr>alu_a := mux_of a, alu_b := mux_of b\<rparr>)" if h0: "alu_op h0 = ?op" for h0
  proof -
    have "v3d_qpu_float32_unpack_unpack ya = Some (if swap then b_unpack h else a_unpack h)"
      "v3d_qpu_float32_unpack_unpack yb = Some (if swap then a_unpack h else b_unpack h)"
      using ua ub by (simp_all add: y)
    moreover have "swap \<Longrightarrow> commutes ?op" by (auto simp: swap_def commutes_def Let_def)
    ultimately show ?thesis
      using h0 c nsrc unfolding eqs(2,3)
      by (auto simp: add_unpack_packs_def f add_packs_same_def add_operands_def y)
  qed
  ultimately show ?thesis
    using opc range f by (auto simp: add_decodes_def eqs(2,3) add_stvpm_op_def)
qed


text \<open>The operations with one source and an unpacking in the opcode.\<close>

definition unary_op :: "v3d_qpu_add_op \<Rightarrow> bool" where
  "unary_op op \<longleftrightarrow> float32_round op \<or> float32_to_int op"

definition unary_code :: "v3d_qpu_add_op \<Rightarrow> u8 \<times> u8" where
  "unary_code op =
    (if op = V3D_QPU_A_FROUND then (245, MUX_MASK 0 2) else if op = V3D_QPU_A_FTOIN then (245, push_bit 3 1)
     else if op = V3D_QPU_A_FTRUNC then (245, MUX_MASK 4 6) else if op = V3D_QPU_A_FTOIZ then (245, push_bit 7 1)
     else if op = V3D_QPU_A_FFLOOR then (246, MUX_MASK 0 2) else if op = V3D_QPU_A_FTOUZ then (246, push_bit 3 1)
     else if op = V3D_QPU_A_FCEIL then (246, MUX_MASK 4 6) else if op = V3D_QPU_A_FTOC then (246, push_bit 7 1)
     else if op = V3D_QPU_A_FDX then (247, MUX_MASK 0 2) else (247, MUX_MASK 4 6))"

lemma unary_row:
  assumes "unary_op op"
  shows "find (\<lambda>d. desc_op d = op) add_ops
      = Some (desc (fst (unary_code op)) (fst (unary_code op)) (snd (unary_code op)) ANYMUX op 0)"
    "v3d_qpu_add_op_num_src op = 1" "\<not> float32_binary op" "\<not> stvpm op"
    "op \<noteq> V3D_QPU_A_FMIN" "op \<noteq> V3D_QPU_A_FADD" "float32_to_int op \<longleftrightarrow> \<not> float32_round op"
    "fst (unary_code op) \<in> {245, 246, 247}"
  using assms unfolding unary_op_def float32_round_def float32_to_int_def float32_binary_def stvpm_def
  by (auto simp: unary_code_def float_rows num_src_simps)

lemma unary_opcode:
  assumes "lo \<in> {245, 246, 247 :: u8}" "xa = 1 \<or> xa = 3"
  shows "unat (ucast lo OR push_bit 2 xa :: u32) < 256"
    "add_map_op (ucast lo OR push_bit 2 xa) = ucast lo"
    "drop_bit 2 (ucast lo OR push_bit 2 xa) AND 3 = xa"
  using assms by (auto simp: add_map_op_def)

lemma unary_mux:
  assumes "unary_op op" "b = (if float32_round op then mask_mux (snd (unary_code op)) OR pack_num p
                               else mask_mux (snd (unary_code op)))"
  shows "unat b < 8" "add_row_op (unat (fst (unary_code op))) a (unat b) = Some op"
    "float32_round op \<Longrightarrow> b AND 3 = pack_num p"
  using assms unfolding unary_op_def float32_round_def float32_to_int_def
  by (cases p; auto simp: unary_code_def mask_mux_values MUX_MASK_values add_row_op_def)+

lemma unary_decodes:
  assumes c: "unary_op (alu_op h)" and ok: "add_ok h" and e: "add_encoding h = Some (opc, a, b)"
  shows "add_decodes h opc a b"
proof -
  let ?op = "alu_op h"
  note row = unary_row [OF c]
  obtain xa where xa: "v3d_qpu_float32_unpack_pack (a_unpack h) = Some xa" "xa \<noteq> 0"
    and opc: "opc = ucast (fst (unary_code ?op)) OR push_bit 2 xa" and a: "a = mux_num (alu_a h)"
    and b: "b = (if float32_round ?op then mask_mux (snd (unary_code ?op)) OR pack_num (output_pack h)
                 else mask_mux (snd (unary_code ?op)))"
    and none: "float32_to_int ?op \<Longrightarrow> output_pack h = V3D_QPU_PACK_NONE"
    using e row
    by (auto simp: add_encoding_def desc_sel add_pack_encode_def float32_pack_pack_num Let_def
        split: if_splits option.splits)
  have ua: "v3d_qpu_float32_unpack_unpack xa = Some (a_unpack h)"
    using float32_unpack_roundtrip [OF xa(1)] by simp
  have x: "xa = 1 \<or> xa = 3"
    using xa ok c by (cases "a_unpack h") (auto simp: v3d_qpu_float32_unpack_pack_def add_ok_def unary_op_def)
  note f = unary_opcode [OF row(8) x, folded opc] and m = unary_mux [OF c b]
  have "\<exists>h1. add_unpack_packs opc b h0 = Some h1 \<and> alu_op h1 = ?op \<and>
      add_packs_same h (h1\<lparr>alu_a := mux_of a, alu_b := mux_of b\<rparr>)" if h0: "alu_op h0 = ?op" for h0
    using h0 row m none ua
    by (auto simp: add_unpack_packs_def f add_packs_same_def add_operands_def a)
  moreover have "add_row_op (unat (add_map_op opc)) (unat a) (unat b) = Some ?op"
    using m(2) by (simp add: f(2) unat_ucast_u8)
  ultimately show ?thesis
    using f(1) m(1) row by (auto simp: add_decodes_def a ordered_plain add_stvpm_op_def)
qed

text \<open>The half-precision minimum and maximum.\<close>

lemma small_u32_5: "unat (k :: u32) < 5 \<Longrightarrow> k = 0 \<or> k = 1 \<or> k = 2 \<or> k = 3 \<or> k = 4"
  using small_u32 [of k] by (cases "unat k = 4") (auto simp: word_unat_eq_iff)

lemma vfminmax_row:
  assumes "float16_minmax op"
  shows "find (\<lambda>d. desc_op d = op) add_ops = Some (desc (if op = V3D_QPU_A_VFMIN then 176 else 240)
           (if op = V3D_QPU_A_VFMIN then 180 else 244) ANYMUX ANYMUX op 0)"
    "v3d_qpu_add_op_num_src op = 2" "\<not> float32_binary op" "\<not> float32_round op" "\<not> float32_to_int op"
    "\<not> stvpm op" "op \<noteq> V3D_QPU_A_FMIN" "op \<noteq> V3D_QPU_A_FADD" "op \<noteq> V3D_QPU_A_NOP"
  using assms by (auto simp: op_classes float_rows num_src_simps)

lemma vfminmax_opcode:
  assumes "float16_minmax op" "unat xa < 5"
    and "opc = ucast (if op = V3D_QPU_A_VFMIN then 176 else 240 :: u8) OR xa"
  shows "unat opc < 256" "add_row_op (unat (add_map_op opc)) a b = Some op" "opc AND 7 = xa"
  using assms(1,3) small_u32_5 [OF assms(2)]
  by (auto simp: float16_minmax_def add_map_op_def add_row_op_ranges)

lemma vfminmax_decodes:
  assumes c: "float16_minmax (alu_op h)" and e: "add_encoding h = Some (opc, a, b)"
  shows "add_decodes h opc a b"
proof -
  let ?op = "alu_op h"
  note row = vfminmax_row [OF c]
  obtain xa where xa: "v3d_qpu_float16_unpack_pack (a_unpack h) = Some xa"
    and opc: "opc = ucast (if ?op = V3D_QPU_A_VFMIN then 176 else 240 :: u8) OR xa"
    and ab: "a = mux_num (alu_a h)" "b = mux_num (alu_b h)"
    and none: "output_pack h = V3D_QPU_PACK_NONE" "b_unpack h = V3D_QPU_UNPACK_NONE"
    using e row c
    by (auto simp: add_encoding_def desc_sel add_pack_encode_def Let_def split: if_splits option.splits)
  note ua = float16_unpack_roundtrip [OF xa]
  note f = vfminmax_opcode [OF c conjunct2 [OF ua] opc]
  have "\<exists>h1. add_unpack_packs opc b h0 = Some h1 \<and> alu_op h1 = ?op \<and>
      add_packs_same h (h1\<lparr>alu_a := mux_of a, alu_b := mux_of b\<rparr>)" if h0: "alu_op h0 = ?op" for h0
    using h0 row none ua c
    by (auto simp: add_unpack_packs_def f add_packs_same_def add_operands_def ab)
  then show ?thesis
    using f row by (auto simp: add_decodes_def ab ordered_plain add_stvpm_op_def)
qed

lemma add_half_decodes:
  assumes "add_ok h" "add_encoding h = Some (opc, a, b)"
  shows "add_decodes h opc a b"
proof -
  consider "plain_op (alu_op h)" | "float32_binary (alu_op h)" | "unary_op (alu_op h)" | "float16_minmax (alu_op h)"
    by (auto simp: plain_op_def unary_op_def)
  then show ?thesis
    using plain_decodes binary_decodes unary_decodes vfminmax_decodes assms by cases blast+
qed

end
