(* ===== verification/QpuCorrect.thy ===== *)
theory QpuCorrect
  imports QpuAlu
begin

text \<open>
  The round trip of whole instructions, and what it does not cover: the operations and operands the
  encoding confuses.
\<close>

section \<open>The mul half\<close>

text \<open>The operations with neither output packing nor input unpacking drop both without a check.\<close>

definition mul_plain :: "v3d_qpu_mul_op \<Rightarrow> bool" where
  "mul_plain op \<longleftrightarrow> op \<noteq> V3D_QPU_M_FMUL \<and> op \<noteq> V3D_QPU_M_FMOV \<and> op \<noteq> V3D_QPU_M_VFMUL"

definition mul_ok :: "v3d_qpu_mul_op alu_half \<Rightarrow> bool" where
  "mul_ok h \<longleftrightarrow>
     (mul_plain (alu_op h) \<and> alu_op h \<noteq> V3D_QPU_M_NOP \<longrightarrow>
        output_pack h = V3D_QPU_PACK_NONE \<and> a_unpack h = V3D_QPU_UNPACK_NONE \<and>
        (alu_op h \<noteq> V3D_QPU_M_MOV \<longrightarrow> b_unpack h = V3D_QPU_UNPACK_NONE))
   \<and> unat (alu_waddr h) < 64"

definition mul_operands :: "v3d_qpu_mul_op alu_half \<Rightarrow> (v3d_qpu_mux \<times> v3d_qpu_input_unpack) list" where
  "mul_operands h = take (v3d_qpu_mul_op_num_src (alu_op h))
     [(alu_a h, a_unpack h), (alu_b h, b_unpack h)]"

definition mul_packs_same :: "v3d_qpu_mul_op alu_half \<Rightarrow> v3d_qpu_mul_op alu_half \<Rightarrow> bool" where
  "mul_packs_same x y \<longleftrightarrow> alu_op y = alu_op x
   \<and> (alu_op x \<noteq> V3D_QPU_M_NOP \<longrightarrow> output_pack y = output_pack x)
   \<and> mul_operands y = mul_operands x"

definition mul_same :: "v3d_qpu_mul_op alu_half \<Rightarrow> v3d_qpu_mul_op alu_half \<Rightarrow> bool" where
  "mul_same x y \<longleftrightarrow> mul_packs_same x y \<and> alu_waddr y = alu_waddr x \<and> magic_write y = magic_write x"

definition mul_encoding :: "v3d_qpu_mul_op alu_half \<Rightarrow> (u32 \<times> u32 \<times> u32) option" where
  "mul_encoding h =
    (case find (\<lambda>d. desc_op d = alu_op h) mul_ops of
       None \<Rightarrow> None
     | Some d \<Rightarrow>
         (case mul_pack_encode h (ucast (opcode_first d))
            (if v3d_qpu_mul_op_num_src (alu_op h) < 2 then mask_mux (mux_b_mask d) else mux_num (alu_b h)) of
            None \<Rightarrow> None
          | Some (opc, b) \<Rightarrow> Some (opc,
              (if v3d_qpu_mul_op_num_src (alu_op h) < 1 then mask_mux (mux_a_mask d) else mux_num (alu_a h)), b)))"

definition mul_decodes :: "v3d_qpu_mul_op alu_half \<Rightarrow> u32 \<Rightarrow> u32 \<Rightarrow> u32 \<Rightarrow> bool" where
  "mul_decodes h opc a b \<longleftrightarrow> opc \<noteq> 0 \<and> unat opc < 64 \<and> unat a < 8 \<and> unat b < 8 \<and>
     mul_row_op (unat opc) (unat a) (unat b) = Some (alu_op h) \<and>
     (\<forall>h0. alu_op h0 = alu_op h \<longrightarrow>
        (\<exists>h1. mul_unpack_packs opc b h0 = Some h1 \<and> alu_op h1 = alu_op h \<and>
              mul_packs_same h (h1\<lparr>alu_a := mux_of a, alu_b := mux_of b\<rparr>)))"

lemma mul_rows:
  "find (\<lambda>d. desc_op d = V3D_QPU_M_ADD) mul_ops = Some (desc 1 1 ANYMUX ANYMUX V3D_QPU_M_ADD 0)"
  "find (\<lambda>d. desc_op d = V3D_QPU_M_SUB) mul_ops = Some (desc 2 2 ANYMUX ANYMUX V3D_QPU_M_SUB 0)"
  "find (\<lambda>d. desc_op d = V3D_QPU_M_UMUL24) mul_ops = Some (desc 3 3 ANYMUX ANYMUX V3D_QPU_M_UMUL24 0)"
  "find (\<lambda>d. desc_op d = V3D_QPU_M_VFMUL) mul_ops = Some (desc 4 8 ANYMUX ANYMUX V3D_QPU_M_VFMUL 0)"
  "find (\<lambda>d. desc_op d = V3D_QPU_M_SMUL24) mul_ops = Some (desc 9 9 ANYMUX ANYMUX V3D_QPU_M_SMUL24 0)"
  "find (\<lambda>d. desc_op d = V3D_QPU_M_MULTOP) mul_ops = Some (desc 10 10 ANYMUX ANYMUX V3D_QPU_M_MULTOP 0)"
  "find (\<lambda>d. desc_op d = V3D_QPU_M_FMOV) mul_ops = Some (desc 14 14 ANYMUX ANYMUX V3D_QPU_M_FMOV 0)"
  "find (\<lambda>d. desc_op d = V3D_QPU_M_NOP) mul_ops = Some (desc 15 15 (push_bit 4 1) (push_bit 0 1) V3D_QPU_M_NOP 0)"
  "find (\<lambda>d. desc_op d = V3D_QPU_M_MOV) mul_ops = Some (desc 15 15 (push_bit 7 1) ANYMUX V3D_QPU_M_MOV 0)"
  "find (\<lambda>d. desc_op d = V3D_QPU_M_FMUL) mul_ops = Some (desc 16 63 ANYMUX ANYMUX V3D_QPU_M_FMUL 0)"
  unfolding mul_ops_def by (simp_all add: desc_sel)

lemma mul_plain_decodes:
  assumes "mul_plain (alu_op h)" "mul_ok h" "mul_encoding h = Some (opc, a, b)"
  shows "mul_decodes h opc a b"
  using assms
  by (cases "alu_op h")
     (auto simp: mul_plain_def mul_ok_def mul_encoding_def mul_rows desc_sel num_src_simps mul_pack_encode_def
        mask_mux_values mul_decodes_def mul_row_op_def mul_unpack_packs_def mul_packs_same_def mul_operands_def
        split: if_splits)

text \<open>The opcodes of \<open>FMUL\<close>, \<open>FMOV\<close> and \<open>VFMUL\<close>.\<close>

definition fmul_opcode :: "u32 \<Rightarrow> u32 \<Rightarrow> u32 \<Rightarrow> u32" where
  "fmul_opcode out xa xb = (16 + push_bit 4 out OR push_bit 2 xa) OR push_bit 0 xb"

definition fmul_fields_ok :: "u32 \<Rightarrow> u32 \<Rightarrow> u32 \<Rightarrow> bool" where
  "fmul_fields_ok out xa xb \<longleftrightarrow>
    (let opc = fmul_opcode out xa xb in
     opc AND 3 = xb \<and> drop_bit 2 opc AND 3 = xa \<and> (drop_bit 4 opc AND 3) - 1 = out \<and>
     16 \<le> unat opc \<and> unat opc < 64)"

lemma fmul_fields_all:
  "\<forall>out \<in> {0, 1, 2}. \<forall>xa \<in> {0, 1, 2, 3}. \<forall>xb \<in> {0, 1, 2, 3}. fmul_fields_ok out xa xb"
  by (simp add: fmul_fields_ok_def fmul_opcode_def)

lemma fmul_fields:
  assumes "unat xa < 4" "unat xb < 4"
  shows "fmul_fields_ok (pack_num p) xa xb"
proof -
  have "pack_num p \<in> {0, 1, 2}" by (cases p) simp_all
  moreover have "xa \<in> {0, 1, 2, 3}" "xb \<in> {0, 1, 2, 3}"
    using small_u32 assms by auto
  ultimately show ?thesis using fmul_fields_all by blast
qed

lemma fmul_decodes:
  assumes c: "alu_op h = V3D_QPU_M_FMUL" and e: "mul_encoding h = Some (opc, a, b)"
  shows "mul_decodes h opc a b"
proof -
  have nsrc: "v3d_qpu_mul_op_num_src V3D_QPU_M_FMUL = 2" by (simp add: num_src_simps)
  obtain xa xb where xa: "v3d_qpu_float32_unpack_pack (a_unpack h) = Some xa"
    and xb: "v3d_qpu_float32_unpack_pack (b_unpack h) = Some xb"
    and opc: "opc = fmul_opcode (pack_num (output_pack h)) xa xb"
    and ab: "a = mux_num (alu_a h)" "b = mux_num (alu_b h)"
    using e c nsrc
    by (auto simp: mul_encoding_def mul_rows desc_sel mul_pack_encode_def float32_pack_pack_num
        fmul_opcode_def Let_def split: option.splits)
  note ua = float32_unpack_roundtrip [OF xa] and ub = float32_unpack_roundtrip [OF xb]
  have f: "opc AND 3 = xb" "drop_bit 2 opc AND 3 = xa" "(drop_bit 4 opc AND 3) - 1 = pack_num (output_pack h)"
      "16 \<le> unat opc" "unat opc < 64"
    using fmul_fields [of xa xb "output_pack h"] ua ub by (simp_all add: fmul_fields_ok_def Let_def flip: opc)
  have "mul_row_op (unat opc) x y = Some V3D_QPU_M_FMUL" for x y
    using f by (simp add: mul_row_op_def)
  moreover have "opc \<noteq> 0" using f(4) by auto
  ultimately show ?thesis
    using f ua ub c nsrc
    by (auto simp: mul_decodes_def ab mul_unpack_packs_def mul_packs_same_def mul_operands_def)
qed

lemma fmov_decodes:
  assumes c: "alu_op h = V3D_QPU_M_FMOV" and e: "mul_encoding h = Some (opc, a, b)"
  shows "mul_decodes h opc a b"
proof -
  have nsrc: "v3d_qpu_mul_op_num_src V3D_QPU_M_FMOV = 1" by (simp add: num_src_simps)
  obtain xa where xa: "v3d_qpu_float32_unpack_pack (a_unpack h) = Some xa"
    and opc: "opc = 14 OR (drop_bit 1 (pack_num (output_pack h)) AND 1)"
    and b: "b = push_bit 2 (pack_num (output_pack h) AND 1) OR xa"
    and a: "a = mux_num (alu_a h)"
    using e c nsrc
    by (auto simp: mul_encoding_def mul_rows desc_sel mul_pack_encode_def float32_pack_pack_num
        Let_def split: option.splits)
  note ua = float32_unpack_roundtrip [OF xa]
  have f: "opc \<noteq> 0 \<and> unat opc < 64 \<and> unat b < 8 \<and> mul_row_op (unat opc) (unat a) (unat b) = Some V3D_QPU_M_FMOV
      \<and> b AND 3 = xa \<and> push_bit 1 (opc AND 1) + (drop_bit 2 b AND 1) = pack_num (output_pack h)"
    using small_u32 [OF conjunct2 [OF ua]] unfolding opc b
    by (cases "output_pack h"; auto simp: mul_row_op_def)
  then show ?thesis
    using ua c nsrc
    by (auto simp: mul_decodes_def a mul_unpack_packs_def mul_packs_same_def mul_operands_def)
qed

lemma vfmul_decodes:
  assumes c: "alu_op h = V3D_QPU_M_VFMUL" and e: "mul_encoding h = Some (opc, a, b)"
  shows "mul_decodes h opc a b"
proof -
  have nsrc: "v3d_qpu_mul_op_num_src V3D_QPU_M_VFMUL = 2" by (simp add: num_src_simps)
  obtain xa where xa: "v3d_qpu_float16_unpack_pack (a_unpack h) = Some xa"
    and opc: "opc = (if a_unpack h = V3D_QPU_UNPACK_SWAP_16 then 8 else 4 OR (xa + 4 AND 7))"
    and ab: "a = mux_num (alu_a h)" "b = mux_num (alu_b h)"
    and none: "output_pack h = V3D_QPU_PACK_NONE" "b_unpack h = V3D_QPU_UNPACK_NONE"
    using e c nsrc
    by (auto simp: mul_encoding_def mul_rows desc_sel mul_pack_encode_def
        Let_def split: option.splits if_splits)
  have f: "opc \<noteq> 0 \<and> unat opc < 64 \<and> mul_row_op (unat opc) (unat a) (unat b) = Some V3D_QPU_M_VFMUL
      \<and> v3d_qpu_float16_unpack_unpack (((opc AND 7) - 4) AND 7) = Some (a_unpack h)"
    using xa unfolding opc
    by (cases "a_unpack h")
       (auto simp: mul_row_op_def v3d_qpu_float16_unpack_pack_def v3d_qpu_float16_unpack_unpack_def)
  then show ?thesis
    using c nsrc none
    by (auto simp: mul_decodes_def ab mul_unpack_packs_def mul_packs_same_def mul_operands_def)
qed

lemma mul_half_decodes:
  assumes "mul_ok h" "mul_encoding h = Some (opc, a, b)"
  shows "mul_decodes h opc a b"
  using mul_plain_decodes fmul_decodes fmov_decodes vfmul_decodes assms
  by (cases "mul_plain (alu_op h)") (auto simp: mul_plain_def)

section \<open>The words of ALU instructions\<close>

lemma add_pack_word:
  assumes "v3d_qpu_add_pack instr p = Some q"
  defines "h \<equiv> add (alu instr)"
  shows "\<exists>opc a b. add_encoding h = Some (opc, a, b) \<and>
    (let w = (((p OR QPU_SET_FIELD a VC5_QPU_ADD_A) OR QPU_SET_FIELD b VC5_QPU_ADD_B)
              OR QPU_SET_FIELD opc VC5_QPU_OP_ADD)
              OR QPU_SET_FIELD (fst (add_pack_waddr h)) V3D_QPU_WADDR_A
     in q = (if magic_write h \<and> \<not> stvpm (alu_op h) then w OR VC5_QPU_MA else w))"
proof -
  obtain d where d: "find (\<lambda>d. desc_op d = alu_op h) add_ops = Some d"
    using assms by (auto simp: v3d_qpu_add_pack_def Let_def split: option.splits)
  have "desc_op d = alu_op h" "d \<in> set add_ops" using d by (auto simp: find_Some_iff)
  then have "alu_op h \<notin> {V3D_QPU_A_LDVPMV_OUT, V3D_QPU_A_LDVPMD_OUT, V3D_QPU_A_LDVPMG_OUT}"
    by (auto simp: add_ops_def desc_sel)
  then have w: "snd (add_pack_waddr h) = (stvpm (alu_op h), 0)"
    by (simp add: add_pack_waddr_def stvpm_def Let_def)
  obtain wa where w': "add_pack_waddr h = (wa, stvpm (alu_op h), 0)"
    using w by (cases "add_pack_waddr h") auto
  let ?enc = "add_encoding h"
  obtain opc a b where e: "?enc = Some (opc, a, b)"
    using assms(1) d
    by (auto simp: v3d_qpu_add_pack_def add_encoding_def Let_def h_def split: option.splits prod.splits)
  then show ?thesis
    using assms(1) d
    by (simp add: v3d_qpu_add_pack_def add_encoding_def w' Let_def flip: h_def split del: if_split)
qed

lemma mul_pack_word:
  assumes "v3d_qpu_mul_pack instr p = Some q"
  defines "h \<equiv> mul (alu instr)"
  shows "\<exists>opc a b. mul_encoding h = Some (opc, a, b) \<and>
    (let w = (((p OR QPU_SET_FIELD a VC5_QPU_MUL_A) OR QPU_SET_FIELD b VC5_QPU_MUL_B)
              OR QPU_SET_FIELD opc VC5_QPU_OP_MUL)
              OR QPU_SET_FIELD (ucast (alu_waddr h)) V3D_QPU_WADDR_M
     in q = (if magic_write h then w OR VC5_QPU_MM else w))"
proof -
  obtain d where d: "find (\<lambda>d. desc_op d = alu_op h) mul_ops = Some d"
    using assms by (auto simp: v3d_qpu_mul_pack_def Let_def split: option.splits)
  obtain opc a b where e: "mul_encoding h = Some (opc, a, b)"
    using assms(1) d
    by (auto simp: v3d_qpu_mul_pack_def mul_encoding_def Let_def h_def split: option.splits prod.splits)
  then show ?thesis
    using assms(1) d
    by (auto simp: v3d_qpu_mul_pack_def mul_encoding_def Let_def h_def split: option.splits prod.splits)
qed

lemma take_bit_small:
  assumes "unat (v :: u32) < 2 ^ n"
  shows "take_bit n v = v"
proof -
  have "unat (take_bit n v) = unat v"
    using assms by (simp add: unsigned_take_bit_eq take_bit_nat_eq_self)
  then show ?thesis by (simp add: word_unat_eq_iff)
qed

text \<open>The fields of a word put together from all of them.\<close>

definition alu_word ::
  "u32 \<Rightarrow> u32 \<Rightarrow> u32 \<Rightarrow> u32 \<times> u32 \<times> u32 \<Rightarrow> u32 \<Rightarrow> bool \<Rightarrow> u32 \<times> u32 \<times> u32 \<Rightarrow> u32 \<Rightarrow> bool \<Rightarrow> u32 \<Rightarrow> u64" where
  "alu_word s ra rb addc wa ma mulc wm mm fl =
    QPU_SET_FIELD s VC5_QPU_SIG OR QPU_SET_FIELD ra VC5_QPU_RADDR_A OR QPU_SET_FIELD rb VC5_QPU_RADDR_B
    OR QPU_SET_FIELD (fst (snd addc)) VC5_QPU_ADD_A OR QPU_SET_FIELD (snd (snd addc)) VC5_QPU_ADD_B
    OR QPU_SET_FIELD (fst addc) VC5_QPU_OP_ADD OR QPU_SET_FIELD wa V3D_QPU_WADDR_A
    OR (if ma then VC5_QPU_MA else 0)
    OR QPU_SET_FIELD (fst (snd mulc)) VC5_QPU_MUL_A OR QPU_SET_FIELD (snd (snd mulc)) VC5_QPU_MUL_B
    OR QPU_SET_FIELD (fst mulc) VC5_QPU_OP_MUL OR QPU_SET_FIELD wm V3D_QPU_WADDR_M
    OR (if mm then VC5_QPU_MM else 0) OR QPU_SET_FIELD fl VC5_QPU_COND"

lemma alu_word_fields:
  assumes "unat s < 32" "unat ra < 64" "unat rb < 64" "unat opc < 256" "unat a < 8" "unat b < 8"
    "unat wa < 64" "unat mopc < 64" "unat x < 8" "unat y < 8" "unat wm < 64" "unat fl < 128"
    and w: "w = alu_word s ra rb (opc, a, b) wa ma (mopc, x, y) wm mm fl"
  shows "QPU_GET_FIELD w VC5_QPU_SIG = s" "QPU_GET_FIELD w VC5_QPU_RADDR_A = ra"
    "QPU_GET_FIELD w VC5_QPU_RADDR_B = rb" "QPU_GET_FIELD w VC5_QPU_OP_ADD = opc"
    "QPU_GET_FIELD w VC5_QPU_ADD_A = a" "QPU_GET_FIELD w VC5_QPU_ADD_B = b"
    "QPU_GET_FIELD w V3D_QPU_WADDR_A = wa" "QPU_GET_FIELD w VC5_QPU_OP_MUL = mopc"
    "QPU_GET_FIELD w VC5_QPU_MUL_A = x" "QPU_GET_FIELD w VC5_QPU_MUL_B = y"
    "QPU_GET_FIELD w V3D_QPU_WADDR_M = wm" "QPU_GET_FIELD w VC5_QPU_COND = fl"
    "w AND VC5_QPU_MA \<noteq> 0 \<longleftrightarrow> ma" "w AND VC5_QPU_MM \<noteq> 0 \<longleftrightarrow> mm"
  using assms
  by (simp_all add: w alu_word_def alu_fields field_simps_qpu take_bit_small)

lemma alu_pack_word:
  assumes "v3d_qpu_instr_pack_alu d i 0 = Some w" "itype i = V3D_QPU_INSTR_TYPE_ALU"
  shows "\<exists>s addc mulc fl. v3d_qpu_sig_pack d (sig i) = Some s \<and>
     add_encoding (add (alu i)) = Some addc \<and> mul_encoding (mul (alu i)) = Some mulc \<and>
     (if v3d_qpu_sig_writes_address d (sig i)
      then flags i = no_flags \<and>
           fl = (if sig_magic i then ucast (sig_addr i) OR VC5_QPU_COND_SIG_MAGIC_ADDR else ucast (sig_addr i))
      else v3d_qpu_flags_pack (flags i) = Some fl) \<and>
     w = alu_word s (ucast (raddr_a i)) (ucast (raddr_b i)) addc (fst (add_pack_waddr (add (alu i))))
           (magic_write (add (alu i)) \<and> \<not> stvpm (alu_op (add (alu i)))) mulc
           (ucast (alu_waddr (mul (alu i)))) (magic_write (mul (alu i))) fl"
proof -
  obtain s where s: "v3d_qpu_sig_pack d (sig i) = Some s"
    using assms by (auto simp: v3d_qpu_instr_pack_alu_def split: option.splits)
  let ?p = "(QPU_SET_FIELD s VC5_QPU_SIG OR QPU_SET_FIELD (ucast (raddr_a i)) VC5_QPU_RADDR_A)
      OR QPU_SET_FIELD (ucast (raddr_b i)) VC5_QPU_RADDR_B"
  obtain q where q: "v3d_qpu_add_pack i ?p = Some q"
    using assms s by (auto simp: v3d_qpu_instr_pack_alu_def Let_def split: option.splits)
  obtain r where r: "v3d_qpu_mul_pack i q = Some r"
    using assms s q by (auto simp: v3d_qpu_instr_pack_alu_def Let_def split: option.splits)
  obtain fl where fl: "if v3d_qpu_sig_writes_address d (sig i)
      then flags i = no_flags \<and>
           fl = (if sig_magic i then ucast (sig_addr i) OR VC5_QPU_COND_SIG_MAGIC_ADDR else ucast (sig_addr i))
      else v3d_qpu_flags_pack (flags i) = Some fl"
    and w: "w = r OR QPU_SET_FIELD fl VC5_QPU_COND"
    using assms s q r
    by (auto simp: v3d_qpu_instr_pack_alu_def Let_def split: option.splits if_splits)
  obtain opc a b where a: "add_encoding (add (alu i)) = Some (opc, a, b)" and q': 
    "q = (let w = (((?p OR QPU_SET_FIELD a VC5_QPU_ADD_A) OR QPU_SET_FIELD b VC5_QPU_ADD_B)
              OR QPU_SET_FIELD opc VC5_QPU_OP_ADD)
              OR QPU_SET_FIELD (fst (add_pack_waddr (add (alu i)))) V3D_QPU_WADDR_A
     in (if magic_write (add (alu i)) \<and> \<not> stvpm (alu_op (add (alu i))) then w OR VC5_QPU_MA else w))"
    using add_pack_word [OF q] by (auto simp: Let_def)
  obtain mopc x y where m: "mul_encoding (mul (alu i)) = Some (mopc, x, y)" and r': 
    "r = (let w = (((q OR QPU_SET_FIELD x VC5_QPU_MUL_A) OR QPU_SET_FIELD y VC5_QPU_MUL_B)
              OR QPU_SET_FIELD mopc VC5_QPU_OP_MUL)
              OR QPU_SET_FIELD (ucast (alu_waddr (mul (alu i)))) V3D_QPU_WADDR_M
     in (if magic_write (mul (alu i)) then w OR VC5_QPU_MM else w))"
    using mul_pack_word [OF r] by (auto simp: Let_def)
  have "w = alu_word s (ucast (raddr_a i)) (ucast (raddr_b i)) (opc, a, b) (fst (add_pack_waddr (add (alu i))))
           (magic_write (add (alu i)) \<and> \<not> stvpm (alu_op (add (alu i)))) (mopc, x, y)
           (ucast (alu_waddr (mul (alu i)))) (magic_write (mul (alu i))) fl"
    unfolding w r' q' alu_word_def Let_def by (simp add: or.assoc)
  then show ?thesis using s a m fl by blast
qed

section \<open>The round trip of ALU instructions\<close>

definition alu_ok :: "v3d_device_info \<Rightarrow> v3d_qpu_instr \<Rightarrow> bool" where
  "alu_ok d i \<longleftrightarrow> add_ok (add (alu i)) \<and> mul_ok (mul (alu i))
   \<and> unat (raddr_a i) < 64 \<and> unat (raddr_b i) < 64
   \<and> (if v3d_qpu_sig_writes_address d (sig i) then unat (sig_addr i) < 64
      else mc (flags i) = V3D_QPU_COND_NONE \<or> ac (flags i) = V3D_QPU_COND_NONE \<or>
           ac (flags i) = V3D_QPU_COND_IFA)"

definition alu_same :: "v3d_device_info \<Rightarrow> v3d_qpu_instr \<Rightarrow> v3d_qpu_instr \<Rightarrow> bool" where
  "alu_same d x y \<longleftrightarrow> itype y = V3D_QPU_INSTR_TYPE_ALU \<and> sig y = sig x \<and> flags y = flags x
   \<and> raddr_a y = raddr_a x \<and> raddr_b y = raddr_b x
   \<and> (v3d_qpu_sig_writes_address d (sig x) \<longrightarrow> sig_addr y = sig_addr x \<and> sig_magic y = sig_magic x)
   \<and> add_same (add (alu x)) (add (alu y)) \<and> mul_same (mul (alu x)) (mul (alu y))"

lemma sig_addr_field:
  assumes "unat (x :: u8) < 64"
  shows "unat (ucast x OR VC5_QPU_COND_SIG_MAGIC_ADDR) < 128"
    "(ucast x OR VC5_QPU_COND_SIG_MAGIC_ADDR) AND NOT VC5_QPU_COND_SIG_MAGIC_ADDR = ucast x"
    "ucast x AND NOT VC5_QPU_COND_SIG_MAGIC_ADDR = ucast x"
    "(ucast x OR VC5_QPU_COND_SIG_MAGIC_ADDR) AND VC5_QPU_COND_SIG_MAGIC_ADDR \<noteq> 0"
    "ucast x AND VC5_QPU_COND_SIG_MAGIC_ADDR = 0"
proof -
  have x: "take_bit 6 (ucast x :: u32) = ucast x"
    using assms by (intro take_bit_small) (simp add: unat_ucast_u8)
  have b: "bit (ucast x :: u32) n \<Longrightarrow> n < 6" for n
    using x by (metis bit_take_bit_iff)
  have m: "bit VC5_QPU_COND_SIG_MAGIC_ADDR n \<longleftrightarrow> n = 6" for n
    by (auto simp: VC5_QPU_COND_SIG_MAGIC_ADDR_def bit_push_bit_iff bit_exp_iff simp del: push_bit_of_1)
       (auto simp: bit_1_iff)
  show "(ucast x OR VC5_QPU_COND_SIG_MAGIC_ADDR) AND NOT VC5_QPU_COND_SIG_MAGIC_ADDR = ucast x"
    "ucast x AND NOT VC5_QPU_COND_SIG_MAGIC_ADDR = ucast x"
    by (rule bit_word_eqI; use b m in \<open>auto simp: bit_simps\<close>)+
  show "ucast x AND VC5_QPU_COND_SIG_MAGIC_ADDR = 0"
    by (rule bit_word_eqI) (use b m in \<open>auto simp: bit_simps\<close>)
  show "(ucast x OR VC5_QPU_COND_SIG_MAGIC_ADDR) AND VC5_QPU_COND_SIG_MAGIC_ADDR \<noteq> 0"
  proof
    assume "(ucast x OR VC5_QPU_COND_SIG_MAGIC_ADDR) AND VC5_QPU_COND_SIG_MAGIC_ADDR = 0"
    then have "\<not> bit ((ucast x OR VC5_QPU_COND_SIG_MAGIC_ADDR) AND VC5_QPU_COND_SIG_MAGIC_ADDR) 6" by simp
    then show False by (simp add: bit_and_iff bit_or_iff m)
  qed
  have "take_bit 7 (ucast x OR VC5_QPU_COND_SIG_MAGIC_ADDR) = ucast x OR VC5_QPU_COND_SIG_MAGIC_ADDR"
  proof (rule bit_word_eqI)
    fix n
    have "bit (ucast x OR VC5_QPU_COND_SIG_MAGIC_ADDR) n \<Longrightarrow> n < 7"
      using b [of n] m [of n] by (auto simp: bit_or_iff)
    then show "bit (take_bit 7 (ucast x OR VC5_QPU_COND_SIG_MAGIC_ADDR)) n
        \<longleftrightarrow> bit (ucast x OR VC5_QPU_COND_SIG_MAGIC_ADDR) n"
      unfolding bit_take_bit_iff by blast
  qed
  then have "unat (ucast x OR VC5_QPU_COND_SIG_MAGIC_ADDR) = take_bit 7 (unat (ucast x OR VC5_QPU_COND_SIG_MAGIC_ADDR))"
    by (metis unsigned_take_bit_eq)
  then show "unat (ucast x OR VC5_QPU_COND_SIG_MAGIC_ADDR) < 128"
    using take_bit_nat_less_exp [of 7 "unat (ucast x OR VC5_QPU_COND_SIG_MAGIC_ADDR)"] by simp
qed

lemma ucast_u8_u32: "(ucast (ucast (x :: u8) :: u32) :: u8) = x"
  by (rule bit_word_eqI) (auto simp: bit_simps)

lemma add_pack_waddr_less: "add_ok h \<Longrightarrow> unat (fst (add_pack_waddr h)) < 64"
  by (auto simp: add_pack_waddr_def add_ok_def unat_ucast_u8 Let_def)

lemma add_unpack_result:
  assumes "add_ok h" "add_encoding h = Some (opc, a, b)"
    and "QPU_GET_FIELD w VC5_QPU_OP_ADD = opc" "QPU_GET_FIELD w VC5_QPU_ADD_A = a"
    and "QPU_GET_FIELD w VC5_QPU_ADD_B = b" "QPU_GET_FIELD w V3D_QPU_WADDR_A = fst (add_pack_waddr h)"
    and "w AND VC5_QPU_MA \<noteq> 0 \<longleftrightarrow> magic_write h \<and> \<not> stvpm (alu_op h)"
  shows "\<exists>h'. v3d_qpu_add_unpack w i = Some (i\<lparr>alu := alu i\<lparr>add := h'\<rparr>\<rparr>) \<and> add_same h h'"
proof -
  have dec: "add_decodes h opc a b" using assms(1,2) by (rule add_half_decodes)
  then obtain p where ab: "unat a < 8" "unat b < 8"
    and row: "add_row_op (unat (add_map_op opc)) (unat a) (unat b) = Some p"
    and op: "add_stvpm_op (fst (add_pack_waddr h)) (add_ordered_op opc a b p) = Some (alu_op h)"
    by (auto simp: add_decodes_def)
  obtain d where d: "lookup_opcode add_ops (add_map_op opc) a b = Some d" "desc_op d = p"
    using add_lookup_op [OF ab row] by blast
  obtain h1 where h1: "add_unpack_packs opc b (add (alu i)\<lparr>alu_op := alu_op h\<rparr>) = Some h1" "alu_op h1 = alu_op h"
      "add_packs_same h (h1\<lparr>alu_a := mux_of a, alu_b := mux_of b\<rparr>)"
    using dec unfolding add_decodes_def by (metis alu_half.select_convs(1) alu_half.surjective alu_half.update_convs(1))
  let ?h = "h1\<lparr>alu_a := mux_of a, alu_b := mux_of b, alu_waddr := ucast (fst (add_pack_waddr h))\<rparr>"
  have "v3d_qpu_add_unpack w i = Some (i\<lparr>alu := alu i\<lparr>add := add_magic w ?h\<rparr>\<rparr>)"
    by (simp add: v3d_qpu_add_unpack_def assms(3-6) d op h1(1))
  moreover have "add_same h (add_magic w ?h)"
  proof -
    have "alu_op h \<in> {V3D_QPU_A_LDVPMV_IN, V3D_QPU_A_LDVPMD_IN, V3D_QPU_A_LDVPMG_IN} \<Longrightarrow> \<not> magic_write h"
      using assms(1) by (simp add: add_ok_def)
    then have m: "add_magic w ?h = ?h\<lparr>magic_write := (magic_write h \<and> \<not> stvpm (alu_op h))\<rparr>"
      using assms(7) h1(2) by (auto simp: add_magic_def Let_def)
    have "alu_waddr h = ucast (fst (add_pack_waddr h))" if "\<not> stvpm (alu_op h)"
      using that by (auto simp: add_pack_waddr_def stvpm_def Let_def ucast_u8_u32)
    then show ?thesis
      using h1(2,3) unfolding m by (auto simp: add_same_def add_packs_same_def add_operands_def)
  qed
  ultimately show ?thesis by blast
qed

lemma mul_unpack_result:
  assumes "mul_ok h" "mul_encoding h = Some (opc, a, b)"
    and "QPU_GET_FIELD w VC5_QPU_OP_MUL = opc" "QPU_GET_FIELD w VC5_QPU_MUL_A = a"
    and "QPU_GET_FIELD w VC5_QPU_MUL_B = b" "QPU_GET_FIELD w V3D_QPU_WADDR_M = ucast (alu_waddr h)"
    and "w AND VC5_QPU_MM \<noteq> 0 \<longleftrightarrow> magic_write h"
  shows "\<exists>h'. v3d_qpu_mul_unpack w i = Some (i\<lparr>alu := alu i\<lparr>mul := h'\<rparr>\<rparr>) \<and> mul_same h h'"
proof -
  have dec: "mul_decodes h opc a b" using assms(1,2) by (rule mul_half_decodes)
  then have ab: "unat a < 8" "unat b < 8"
    and row: "mul_row_op (unat opc) (unat a) (unat b) = Some (alu_op h)"
    by (auto simp: mul_decodes_def)
  obtain d where d: "lookup_opcode mul_ops opc a b = Some d" "desc_op d = alu_op h"
    using mul_lookup_op [OF ab row] by blast
  obtain h1 where h1: "mul_unpack_packs opc b (mul (alu i)\<lparr>alu_op := alu_op h\<rparr>) = Some h1" "alu_op h1 = alu_op h"
      "mul_packs_same h (h1\<lparr>alu_a := mux_of a, alu_b := mux_of b\<rparr>)"
    using dec unfolding mul_decodes_def by (metis alu_half.select_convs(1) alu_half.surjective alu_half.update_convs(1))
  let ?h = "h1\<lparr>alu_a := mux_of a, alu_b := mux_of b, alu_waddr := alu_waddr h, magic_write := magic_write h\<rparr>"
  have "v3d_qpu_mul_unpack w i = Some (i\<lparr>alu := alu i\<lparr>mul := ?h\<rparr>\<rparr>)"
    using assms(7) by (simp add: v3d_qpu_mul_unpack_def assms(3-6) d h1(1) ucast_u8_u32)
  moreover have "mul_same h ?h"
    using h1(3) by (auto simp: mul_same_def mul_packs_same_def mul_operands_def)
  ultimately show ?thesis by blast
qed


lemma alu_unpack_packed:
  assumes "v3d_qpu_instr_pack d i = Some w" "itype i = V3D_QPU_INSTR_TYPE_ALU" "alu_ok d i"
  shows "\<exists>y. v3d_qpu_instr_unpack d w i0 = Some y \<and> alu_same d i y"
proof -
  have pack: "v3d_qpu_instr_pack_alu d i 0 = Some w"
    using assms(1,2) by (simp add: v3d_qpu_instr_pack_def)
  let ?a = "add (alu i)" and ?m = "mul (alu i)"
  obtain s opc a b mopc x y fl where s: "v3d_qpu_sig_pack d (sig i) = Some s"
    and ea: "add_encoding ?a = Some (opc, a, b)" and em: "mul_encoding ?m = Some (mopc, x, y)"
    and fl: "if v3d_qpu_sig_writes_address d (sig i)
      then flags i = no_flags \<and>
           fl = (if sig_magic i then ucast (sig_addr i) OR VC5_QPU_COND_SIG_MAGIC_ADDR else ucast (sig_addr i))
      else v3d_qpu_flags_pack (flags i) = Some fl"
    and w: "w = alu_word s (ucast (raddr_a i)) (ucast (raddr_b i)) (opc, a, b) (fst (add_pack_waddr ?a))
           (magic_write ?a \<and> \<not> stvpm (alu_op ?a)) (mopc, x, y) (ucast (alu_waddr ?m)) (magic_write ?m) fl"
    using alu_pack_word [OF pack assms(2)] by (metis prod.exhaust)
  note ok = assms(3) [unfolded alu_ok_def]
  have sig: "unat s < 32" "v3d_qpu_sig_unpack d s = Some (sig i)"
    using sig_unpack_packed s by auto
  have fl128: "unat fl < 128"
    using fl ok sig_addr_field(1) [of "sig_addr i"] flags_packed_unpack [of "flags i" fl]
    by (auto simp: unat_ucast_u8 split: if_splits)
  have da: "add_decodes ?a opc a b" using ok ea by (intro add_half_decodes) auto
  have dm: "mul_decodes ?m mopc x y" using ok em by (intro mul_half_decodes) auto
  have r: "unat (ucast (raddr_a i) :: u32) < 64" "unat (ucast (raddr_b i) :: u32) < 64"
    "unat (fst (add_pack_waddr ?a)) < 64" "unat (ucast (alu_waddr ?m) :: u32) < 64"
    using ok by (auto simp: unat_ucast_u8 add_pack_waddr_less mul_ok_def)
  have c: "unat opc < 256" "unat a < 8" "unat b < 8" "unat mopc < 64" "unat x < 8" "unat y < 8"
    using da dm by (auto simp: add_decodes_def mul_decodes_def)
  note f = alu_word_fields [OF sig(1) r(1,2) c(1-3) r(3) c(4-6) r(4) fl128 w]
  define i1 where "i1 = (i0\<lparr>itype := V3D_QPU_INSTR_TYPE_ALU, sig := sig i\<rparr>)"
  obtain i2 where i2: "(if v3d_qpu_sig_writes_address d (sig i) then
       Some (i1\<lparr>sig_addr := ucast (fl AND NOT VC5_QPU_COND_SIG_MAGIC_ADDR),
                sig_magic := fl AND VC5_QPU_COND_SIG_MAGIC_ADDR \<noteq> 0, flags := no_flags\<rparr>)
     else (case v3d_qpu_flags_unpack fl of None \<Rightarrow> None | Some g \<Rightarrow> Some (i1\<lparr>flags := g\<rparr>))) = Some i2"
    and i2': "itype i2 = V3D_QPU_INSTR_TYPE_ALU" "sig i2 = sig i" "flags i2 = flags i"
      "v3d_qpu_sig_writes_address d (sig i) \<Longrightarrow> sig_addr i2 = sig_addr i \<and> sig_magic i2 = sig_magic i"
    using fl ok sig_addr_field [of "sig_addr i"] flags_packed_unpack [of "flags i" fl]
    by (auto simp: i1_def ucast_u8_u32 split: if_splits)
  define i3 where "i3 = i2\<lparr>raddr_a := raddr_a i, raddr_b := raddr_b i\<rparr>"
  obtain ha where ha: "v3d_qpu_add_unpack w i3 = Some (i3\<lparr>alu := alu i3\<lparr>add := ha\<rparr>\<rparr>)" "add_same ?a ha"
    using add_unpack_result [OF _ ea f(4-7,13), of i3] ok by auto
  define i4 where "i4 = i3\<lparr>alu := alu i3\<lparr>add := ha\<rparr>\<rparr>"
  obtain hm where hm: "v3d_qpu_mul_unpack w i4 = Some (i4\<lparr>alu := alu i4\<lparr>mul := hm\<rparr>\<rparr>)" "mul_same ?m hm"
    using mul_unpack_result [OF _ em f(8-11,14), of i4] ok by auto
  have "mopc \<noteq> 0" using dm by (simp add: mul_decodes_def)
  then have "v3d_qpu_instr_unpack d w i0 = v3d_qpu_instr_unpack_alu d w i0"
    by (simp add: v3d_qpu_instr_unpack_def f(8))
  also have "\<dots> = Some (i4\<lparr>alu := alu i4\<lparr>mul := hm\<rparr>\<rparr>)"
    using i2 ha(1) hm(1)
    by (cases "v3d_qpu_sig_writes_address d (sig i)"; cases "v3d_qpu_flags_unpack fl")
       (auto simp: v3d_qpu_instr_unpack_alu_def Let_def f(1-3,12) sig(2) ucast_u8_u32 i1_def i3_def i4_def)
  finally show ?thesis
    using i2' ha(2) hm(2) by (auto simp: alu_same_def i3_def i4_def)
qed

definition example_add :: "v3d_qpu_add_op alu_half" where
  "example_add = \<lparr>alu_op = V3D_QPU_A_FADD, alu_a = V3D_QPU_MUX_A, alu_b = V3D_QPU_MUX_R1, alu_waddr = 3,
     magic_write = True, output_pack = V3D_QPU_PACK_H, a_unpack = V3D_QPU_UNPACK_NONE,
     b_unpack = V3D_QPU_UNPACK_ABS\<rparr>"

definition example_mul :: "v3d_qpu_mul_op alu_half" where
  "example_mul = \<lparr>alu_op = V3D_QPU_M_FMOV, alu_a = V3D_QPU_MUX_B, alu_b = V3D_QPU_MUX_R0, alu_waddr = 12,
     magic_write = False, output_pack = V3D_QPU_PACK_L, a_unpack = V3D_QPU_UNPACK_ABS,
     b_unpack = V3D_QPU_UNPACK_NONE\<rparr>"

definition example_instr :: v3d_qpu_instr where
  "example_instr = \<lparr>itype = V3D_QPU_INSTR_TYPE_ALU, sig = LDUNIF no_sig, sig_addr = 0, sig_magic = False,
     raddr_a = 17, raddr_b = 40, flags = no_flags\<lparr>mc := V3D_QPU_COND_IFNA, apf := V3D_QPU_PF_PUSHZ\<rparr>,
     alu = \<lparr>add = example_add, mul = example_mul\<rparr>,
     branch = \<lparr>br_cond = V3D_QPU_BRANCH_COND_ALWAYS, br_msfign = V3D_QPU_MSFIGN_NONE,
       bdi = V3D_QPU_BRANCH_DEST_REL, bdu = 1, br_ub = True, br_raddr_a = 3, br_offset = 0xfffffff8\<rparr>\<rparr>"

lemmas example_defs = example_instr_def example_add_def example_mul_def

lemma example_sig: "v3d_qpu_sig_pack \<lparr>ver = 41\<rparr> (LDUNIF no_sig) = Some 2"
  by (simp add: v3d_qpu_sig_pack_def sig_map_def v41_sig_map_def no_sig_def LDUNIF_def THRSW_def upt_conv_Cons)

lemma example_sig_addr: "\<not> v3d_qpu_sig_writes_address \<lparr>ver = 41\<rparr> (LDUNIF no_sig)"
  by (simp add: v3d_qpu_sig_writes_address_def LDUNIF_def no_sig_def)

lemma example_packs: "\<exists>w. v3d_qpu_instr_pack \<lparr>ver = 41\<rparr> example_instr = Some w"
  by (simp add: example_defs v3d_qpu_instr_pack_def v3d_qpu_instr_pack_alu_def example_sig example_sig_addr
      v3d_qpu_add_pack_def v3d_qpu_mul_pack_def float_rows mul_rows desc_sel num_src_simps add_pack_encode_def
      add_pack_binary_def float32_binary_def float32_pack_pack_num v3d_qpu_float32_unpack_pack_def
      add_pack_waddr_def mul_pack_encode_def flags_pack_double Let_def)

lemma example_ok: "alu_ok \<lparr>ver = 41\<rparr> example_instr"
  by (simp add: alu_ok_def example_defs example_sig_addr add_ok_def mul_ok_def op_classes no_flags_def mul_plain_def)

text \<open>
  C21. When \<open>v3d_qpu_instr_pack\<close> accepts an ALU instruction that satisfies \<open>alu_ok\<close>, \<open>v3d_qpu_instr_unpack\<close>
  reads the word back, whatever was in the structure before, as the same instruction up to what the
  encoding does not hold.  \<open>alu_ok\<close> asks that the write and register addresses, and the address of a signal that
  has one, are below 64; that there is no condition on the mul half together with one other than \<open>IFA\<close> on the
  add half; that the add operation is not \<open>IID\<close>, nor \<open>FADDNF\<close> or \<open>FMAX\<close> of an operand with itself, nor a rounding or
  conversion of the low half of its operand, nor a load from the input segment with a magic write; and that a mul
  operation other than \<open>FMUL\<close>, \<open>FMOV\<close>, \<open>VFMUL\<close> and \<open>NOP\<close> asks for no output packing or input unpacking (the
  unused second one of \<open>MOV\<close> aside), which packing would drop without a check.  The same (\<open>alu_same\<close>) are: the signals, the flags, the register addresses,
  the address of a signal that has one, and on each half the operation, its output packing unless it is \<open>NOP\<close>, the
  operands it uses with their unpacking, which are possibly swapped for \<open>FADD\<close>, \<open>FADDNF\<close>, \<open>FMIN\<close> and \<open>FMAX\<close>, and the
  destination, except that of the three \<open>STVPM\<close> operations, which have none and come back without a magic write.
\<close>

theorem alu_pack_unpack:
  assumes "v3d_qpu_instr_pack d i = Some w" "itype i = V3D_QPU_INSTR_TYPE_ALU" "alu_ok d i"
  shows "\<exists>y. v3d_qpu_instr_unpack d w i0 = Some y \<and> alu_same d i y"
  using assms by (rule alu_unpack_packed)

theorem alu_pack_unpack_witness:
  "\<exists>y. v3d_qpu_instr_unpack \<lparr>ver = 41\<rparr> (the (v3d_qpu_instr_pack \<lparr>ver = 41\<rparr> example_instr)) example_instr = Some y
     \<and> alu_same \<lparr>ver = 41\<rparr> example_instr y"
proof (rule alu_pack_unpack)
  show "v3d_qpu_instr_pack \<lparr>ver = 41\<rparr> example_instr = Some (the (v3d_qpu_instr_pack \<lparr>ver = 41\<rparr> example_instr))"
    using example_packs by auto
  show "itype example_instr = V3D_QPU_INSTR_TYPE_ALU" by (simp add: example_instr_def)
  show "alu_ok \<lparr>ver = 41\<rparr> example_instr" by (rule example_ok)
qed

section \<open>What the encoding does not keep apart\<close>

definition with_add :: "v3d_qpu_instr \<Rightarrow> v3d_qpu_add_op alu_half \<Rightarrow> v3d_qpu_instr" where
  "with_add i h = i\<lparr>alu := alu i\<lparr>add := h\<rparr>\<rparr>"

lemma add_with_add [simp]: "add (alu (with_add i h)) = h"
  by (simp add: with_add_def)

text \<open>
  A half-precision input of a rounding or conversion operation: the opcodes of these groups
  have the bit below the field of the input already set, so packing with the low half of the
  operand gives the word of the high half.
\<close>

lemma unary_low_packs_as_high:
  assumes "float32_round (alu_op h) \<or> float32_to_int (alu_op h)"
  shows "v3d_qpu_add_pack (with_add i (h\<lparr>a_unpack := V3D_QPU_UNPACK_L\<rparr>)) p
       = v3d_qpu_add_pack (with_add i (h\<lparr>a_unpack := V3D_QPU_UNPACK_H\<rparr>)) p"
proof -
  have u: "unary_op (alu_op h)" using assms by (simp add: unary_op_def)
  note row = unary_row [OF u]
  let ?L = "h\<lparr>a_unpack := V3D_QPU_UNPACK_L\<rparr>" and ?H = "h\<lparr>a_unpack := V3D_QPU_UNPACK_H\<rparr>"
  have same: "ucast lo OR push_bit 2 2 = (ucast lo OR push_bit 2 3 :: u32)" if "lo \<in> {245, 246, 247 :: u8}" for lo
    using that by auto
  have "add_pack_encode ?L (ucast (fst (unary_code (alu_op h)))) x y
      = add_pack_encode ?H (ucast (fst (unary_code (alu_op h)))) x y" for x y
    using same [OF row(8)] row(3,7)
    by (simp add: add_pack_encode_def float32_pack_pack_num v3d_qpu_float32_unpack_pack_def Let_def)
  moreover have "add_pack_waddr ?L = add_pack_waddr ?H"
    by (simp add: add_pack_waddr_def Let_def)
  ultimately show ?thesis
    by (simp add: v3d_qpu_add_pack_def row(1,2) desc_sel Let_def split: prod.splits option.splits)
qed

lemma no_out_rows:
  "find (\<lambda>d. desc_op d = V3D_QPU_A_LDVPMV_OUT) add_ops = None"
  "find (\<lambda>d. desc_op d = V3D_QPU_A_LDVPMD_OUT) add_ops = None"
  "find (\<lambda>d. desc_op d = V3D_QPU_A_LDVPMG_OUT) add_ops = None"
  unfolding add_ops_def by (simp_all add: desc_sel)

text \<open>
  The other gaps of the add encoding: the version column of the opcode table is not consulted,
  so \<open>IID\<close> of version 4 packs as \<open>VDWWT\<close> of version 3.3; \<open>FADDNF\<close> and \<open>FMAX\<close> of an operand with itself
  pack as \<open>FADD\<close> and \<open>FMIN\<close>; and the loads from the output segment do not pack at all, although
  unpacking produces them.
\<close>

lemma add_pack_collisions:
  "v3d_qpu_add_pack (with_add i (h\<lparr>alu_op := V3D_QPU_A_IID\<rparr>)) p
     = v3d_qpu_add_pack (with_add i (h\<lparr>alu_op := V3D_QPU_A_VDWWT\<rparr>)) p
 \<and> v3d_qpu_add_pack (with_add i (h\<lparr>alu_op := V3D_QPU_A_FADDNF, alu_b := alu_a h, b_unpack := a_unpack h\<rparr>)) p
     = v3d_qpu_add_pack (with_add i (h\<lparr>alu_op := V3D_QPU_A_FADD, alu_b := alu_a h, b_unpack := a_unpack h\<rparr>)) p
 \<and> v3d_qpu_add_pack (with_add i (h\<lparr>alu_op := V3D_QPU_A_FMAX, alu_b := alu_a h, b_unpack := a_unpack h\<rparr>)) p
     = v3d_qpu_add_pack (with_add i (h\<lparr>alu_op := V3D_QPU_A_FMIN, alu_b := alu_a h, b_unpack := a_unpack h\<rparr>)) p
 \<and> v3d_qpu_add_pack (with_add i (h\<lparr>alu_op := V3D_QPU_A_LDVPMV_OUT\<rparr>)) p = None
 \<and> v3d_qpu_add_pack (with_add i (h\<lparr>alu_op := V3D_QPU_A_LDVPMD_OUT\<rparr>)) p = None
 \<and> v3d_qpu_add_pack (with_add i (h\<lparr>alu_op := V3D_QPU_A_LDVPMG_OUT\<rparr>)) p = None"
proof (intro conjI)
  have "find (\<lambda>d. desc_op d = V3D_QPU_A_IID) add_ops = Some (desc 187 187 4 4 V3D_QPU_A_IID 40)"
    "find (\<lambda>d. desc_op d = V3D_QPU_A_VDWWT) add_ops = Some (desc 187 187 4 4 V3D_QPU_A_VDWWT 33)"
    unfolding add_ops_def by (simp_all add: desc_sel)
  then show "v3d_qpu_add_pack (with_add i (h\<lparr>alu_op := V3D_QPU_A_IID\<rparr>)) p
     = v3d_qpu_add_pack (with_add i (h\<lparr>alu_op := V3D_QPU_A_VDWWT\<rparr>)) p"
    by (simp add: v3d_qpu_add_pack_def desc_sel num_src_simps add_pack_encode_def add_pack_waddr_def
        op_classes mask_mux_values Let_def)
  show "v3d_qpu_add_pack (with_add i (h\<lparr>alu_op := V3D_QPU_A_FADDNF, alu_b := alu_a h, b_unpack := a_unpack h\<rparr>)) p
     = v3d_qpu_add_pack (with_add i (h\<lparr>alu_op := V3D_QPU_A_FADD, alu_b := alu_a h, b_unpack := a_unpack h\<rparr>)) p"
    "v3d_qpu_add_pack (with_add i (h\<lparr>alu_op := V3D_QPU_A_FMAX, alu_b := alu_a h, b_unpack := a_unpack h\<rparr>)) p
     = v3d_qpu_add_pack (with_add i (h\<lparr>alu_op := V3D_QPU_A_FMIN, alu_b := alu_a h, b_unpack := a_unpack h\<rparr>)) p"
    by (auto simp: v3d_qpu_add_pack_def float_rows desc_sel num_src_simps add_pack_encode_def add_pack_waddr_def
        add_pack_binary_def float32_binary_def Let_def split: option.splits)
  show "v3d_qpu_add_pack (with_add i (h\<lparr>alu_op := V3D_QPU_A_LDVPMV_OUT\<rparr>)) p = None"
    "v3d_qpu_add_pack (with_add i (h\<lparr>alu_op := V3D_QPU_A_LDVPMD_OUT\<rparr>)) p = None"
    "v3d_qpu_add_pack (with_add i (h\<lparr>alu_op := V3D_QPU_A_LDVPMG_OUT\<rparr>)) p = None"
    by (simp_all add: v3d_qpu_add_pack_def no_out_rows Let_def)
qed

text \<open>
  C22. The gaps of the encoding. With a condition on both halves \<open>v3d_qpu_flags_pack\<close> puts the one
  of the add half two bits above the place \<open>v3d_qpu_flags_unpack\<close> reads it from: every condition
  other than \<open>IFA\<close> is read back as an update of the add flags. A rounding or conversion operation
  with the low half of its operand packs as the one with the high half. The version column of the
  opcode table is not consulted, so \<open>IID\<close> of version 4 packs as \<open>VDWWT\<close> of version 3.3; \<open>FADDNF\<close> and
  \<open>FMAX\<close> of an operand with itself pack as \<open>FADD\<close> and \<open>FMIN\<close>; and the loads from the output segment
  do not pack at all, although unpacking produces them.
\<close>

theorem qpu_encoding_gaps:
  assumes "c \<noteq> V3D_QPU_COND_NONE" "e \<noteq> V3D_QPU_COND_NONE" "e \<noteq> V3D_QPU_COND_IFA"
    and "float32_round (alu_op h) \<or> float32_to_int (alu_op h)"
  shows "(\<exists>k u. v3d_qpu_flags_pack (no_flags\<lparr>mc := c, ac := e\<rparr>) = Some k
            \<and> v3d_qpu_flags_unpack k = Some (no_flags\<lparr>mc := c, auf := u\<rparr>) \<and> u \<noteq> V3D_QPU_UF_NONE)
  \<and> v3d_qpu_add_pack (with_add i (h\<lparr>a_unpack := V3D_QPU_UNPACK_L\<rparr>)) p
      = v3d_qpu_add_pack (with_add i (h\<lparr>a_unpack := V3D_QPU_UNPACK_H\<rparr>)) p
  \<and> v3d_qpu_add_pack (with_add i (g\<lparr>alu_op := V3D_QPU_A_IID\<rparr>)) p
      = v3d_qpu_add_pack (with_add i (g\<lparr>alu_op := V3D_QPU_A_VDWWT\<rparr>)) p
  \<and> v3d_qpu_add_pack (with_add i (g\<lparr>alu_op := V3D_QPU_A_FADDNF, alu_b := alu_a g, b_unpack := a_unpack g\<rparr>)) p
      = v3d_qpu_add_pack (with_add i (g\<lparr>alu_op := V3D_QPU_A_FADD, alu_b := alu_a g, b_unpack := a_unpack g\<rparr>)) p
  \<and> v3d_qpu_add_pack (with_add i (g\<lparr>alu_op := V3D_QPU_A_FMAX, alu_b := alu_a g, b_unpack := a_unpack g\<rparr>)) p
      = v3d_qpu_add_pack (with_add i (g\<lparr>alu_op := V3D_QPU_A_FMIN, alu_b := alu_a g, b_unpack := a_unpack g\<rparr>)) p
  \<and> v3d_qpu_add_pack (with_add i (g\<lparr>alu_op := V3D_QPU_A_LDVPMV_OUT\<rparr>)) p = None
  \<and> v3d_qpu_add_pack (with_add i (g\<lparr>alu_op := V3D_QPU_A_LDVPMD_OUT\<rparr>)) p = None
  \<and> v3d_qpu_add_pack (with_add i (g\<lparr>alu_op := V3D_QPU_A_LDVPMG_OUT\<rparr>)) p = None"
  by (rule conjI [OF flags_pack_two_conds [OF assms(1-3)]
      conjI [OF unary_low_packs_as_high [OF assms(4)] add_pack_collisions]])

theorem qpu_encoding_gaps_witness:
  "(\<exists>k u. v3d_qpu_flags_pack (no_flags\<lparr>mc := V3D_QPU_COND_IFA, ac := V3D_QPU_COND_IFB\<rparr>) = Some k
       \<and> v3d_qpu_flags_unpack k = Some (no_flags\<lparr>mc := V3D_QPU_COND_IFA, auf := u\<rparr>)
       \<and> u \<noteq> V3D_QPU_UF_NONE)
   \<and> v3d_qpu_add_pack (with_add example_instr
      (example_add\<lparr>alu_op := V3D_QPU_A_FFLOOR, a_unpack := V3D_QPU_UNPACK_L\<rparr>)) 0
     = v3d_qpu_add_pack (with_add example_instr
      (example_add\<lparr>alu_op := V3D_QPU_A_FFLOOR, a_unpack := V3D_QPU_UNPACK_H\<rparr>)) 0"
  using qpu_encoding_gaps [of V3D_QPU_COND_IFA V3D_QPU_COND_IFB "example_add\<lparr>alu_op := V3D_QPU_A_FFLOOR\<rparr>" example_instr 0]
  by (simp add: float32_round_def)

section \<open>The view of the scheduler\<close>

lemma add_same_op: "add_same x y \<Longrightarrow> alu_op y = alu_op x"
  by (simp add: add_same_def add_packs_same_def)

lemma mul_same_op: "mul_same x y \<Longrightarrow> alu_op y = alu_op x"
  by (simp add: mul_same_def mul_packs_same_def)

lemma add_same_magic:
  assumes "add_same x y" "stvpm (alu_op x) \<longrightarrow> \<not> magic_write x"
  shows "magic_write y = magic_write x" "magic_write x \<Longrightarrow> alu_waddr y = alu_waddr x"
  using assms by (auto simp: add_same_def split: if_splits)

lemma mul_same_magic: "mul_same x y \<Longrightarrow> magic_write y = magic_write x \<and> alu_waddr y = alu_waddr x"
  by (simp add: mul_same_def)

lemma operand_set_two:
  "n = 0 \<or> n = 1 \<or> n = (2 :: nat) \<Longrightarrow>
   (0 < n \<and> a = m) \<or> (1 < n \<and> b = m) \<longleftrightarrow> m \<in> fst ` set (take n [(a, u), (b, v)])"
  by auto

lemma mul_num_src_cases:
  "v3d_qpu_mul_op_num_src op = 0 \<or> v3d_qpu_mul_op_num_src op = 1 \<or> v3d_qpu_mul_op_num_src op = 2"
  by (simp add: v3d_qpu_mul_op_num_src_def Let_def)

lemma uses_mux_operands:
  "v3d_qpu_uses_mux i m \<longleftrightarrow>
     m \<in> fst ` set (add_operands (add (alu i))) \<or> m \<in> fst ` set (mul_operands (mul (alu i)))"
  unfolding v3d_qpu_uses_mux_def add_operands_def mul_operands_def Let_def
  by (simp only: operand_set_two [OF num_src_cases, symmetric] operand_set_two [OF mul_num_src_cases, symmetric]) blast

text \<open>
  C23. For an ALU instruction that packs, satisfies \<open>alu_ok\<close> (the conditions listed with the round trip of ALU
  instructions) and is not an \<open>STVPM\<close> operation with a magic write, whose destination the encoding drops, the
  predicates the scheduler and the validator ask about it give the same answers on the instruction the packed
  word decodes to, so hazards found on one are those of the other.
\<close>

theorem predicates_survive_packing:
  assumes "v3d_qpu_instr_pack d i = Some w" "itype i = V3D_QPU_INSTR_TYPE_ALU" "alu_ok d i"
    and "stvpm (alu_op (add (alu i))) \<longrightarrow> \<not> magic_write (add (alu i))"
  shows "\<exists>y. v3d_qpu_instr_unpack d w i0 = Some y
    \<and> v3d_qpu_uses_tlb y = v3d_qpu_uses_tlb i \<and> v3d_qpu_writes_tmu y = v3d_qpu_writes_tmu i
    \<and> v3d_qpu_reads_vpm y = v3d_qpu_reads_vpm i \<and> v3d_qpu_writes_vpm y = v3d_qpu_writes_vpm i
    \<and> v3d_qpu_uses_vpm y = v3d_qpu_uses_vpm i
    \<and> v3d_qpu_writes_r3 d y = v3d_qpu_writes_r3 d i \<and> v3d_qpu_writes_r4 d y = v3d_qpu_writes_r4 d i
    \<and> v3d_qpu_writes_r5 d y = v3d_qpu_writes_r5 d i
    \<and> (\<forall>m. v3d_qpu_uses_mux y m = v3d_qpu_uses_mux i m)"
proof -
  obtain y where y: "v3d_qpu_instr_unpack d w i0 = Some y" "alu_same d i y"
    using alu_unpack_packed [OF assms(1-3)] by blast
  have t: "itype y = V3D_QPU_INSTR_TYPE_ALU" and sig: "sig y = sig i"
    and addr: "v3d_qpu_sig_writes_address d (sig i) \<Longrightarrow> sig_addr y = sig_addr i \<and> sig_magic y = sig_magic i"
    and a: "add_same (add (alu i)) (add (alu y))" and m: "mul_same (mul (alu i)) (mul (alu y))"
    using y(2) by (auto simp: alu_same_def)
  note facts = t sig assms(2) add_same_op [OF a] mul_same_op [OF m] add_same_magic [OF a assms(4)]
    mul_same_magic [OF m]
  have "v3d_qpu_uses_tlb y = v3d_qpu_uses_tlb i" "v3d_qpu_writes_tmu y = v3d_qpu_writes_tmu i"
    "v3d_qpu_reads_vpm y = v3d_qpu_reads_vpm i" "v3d_qpu_writes_vpm y = v3d_qpu_writes_vpm i"
    using facts
    by (auto simp: v3d_qpu_uses_tlb_def v3d_qpu_writes_tmu_def v3d_qpu_reads_vpm_def v3d_qpu_writes_vpm_def)
  moreover have "v3d_qpu_writes_r3 d y = v3d_qpu_writes_r3 d i" "v3d_qpu_writes_r4 d y = v3d_qpu_writes_r4 d i"
    "v3d_qpu_writes_r5 d y = v3d_qpu_writes_r5 d i"
    using facts addr by (auto simp: v3d_qpu_writes_r3_def v3d_qpu_writes_r4_def v3d_qpu_writes_r5_def)
  moreover have "set (add_operands (add (alu y))) = set (add_operands (add (alu i)))"
    "mul_operands (mul (alu y)) = mul_operands (mul (alu i))"
    using a m by (auto simp: add_same_def add_packs_same_def mul_same_def mul_packs_same_def)
  then have "\<forall>m. v3d_qpu_uses_mux y m = v3d_qpu_uses_mux i m"
    by (simp add: uses_mux_operands)
  ultimately show ?thesis using y(1) by (auto simp: v3d_qpu_uses_vpm_def)
qed

section \<open>Names\<close>

definition all_add_ops :: "v3d_qpu_add_op list" where
  "all_add_ops =
    [V3D_QPU_A_FADD, V3D_QPU_A_FADDNF, V3D_QPU_A_VFPACK, V3D_QPU_A_ADD,
     V3D_QPU_A_SUB, V3D_QPU_A_FSUB, V3D_QPU_A_MIN, V3D_QPU_A_MAX,
     V3D_QPU_A_UMIN, V3D_QPU_A_UMAX, V3D_QPU_A_SHL, V3D_QPU_A_SHR,
     V3D_QPU_A_ASR, V3D_QPU_A_ROR, V3D_QPU_A_FMIN, V3D_QPU_A_FMAX,
     V3D_QPU_A_VFMIN, V3D_QPU_A_AND, V3D_QPU_A_OR, V3D_QPU_A_XOR,
     V3D_QPU_A_VADD, V3D_QPU_A_VSUB, V3D_QPU_A_NOT, V3D_QPU_A_NEG,
     V3D_QPU_A_FLAPUSH, V3D_QPU_A_FLBPUSH, V3D_QPU_A_FLBPOP, V3D_QPU_A_SETMSF,
     V3D_QPU_A_SETREVF, V3D_QPU_A_NOP, V3D_QPU_A_TIDX, V3D_QPU_A_EIDX,
     V3D_QPU_A_LR, V3D_QPU_A_VFLA, V3D_QPU_A_VFLNA, V3D_QPU_A_VFLB,
     V3D_QPU_A_VFLNB, V3D_QPU_A_FXCD, V3D_QPU_A_XCD, V3D_QPU_A_FYCD,
     V3D_QPU_A_YCD, V3D_QPU_A_MSF, V3D_QPU_A_REVF, V3D_QPU_A_VDWWT,
     V3D_QPU_A_IID, V3D_QPU_A_SAMPID, V3D_QPU_A_BARRIERID, V3D_QPU_A_TMUWT,
     V3D_QPU_A_VPMSETUP, V3D_QPU_A_VPMWT, V3D_QPU_A_LDVPMV_IN, V3D_QPU_A_LDVPMV_OUT,
     V3D_QPU_A_LDVPMD_IN, V3D_QPU_A_LDVPMD_OUT, V3D_QPU_A_LDVPMP, V3D_QPU_A_LDVPMG_IN,
     V3D_QPU_A_LDVPMG_OUT, V3D_QPU_A_FCMP, V3D_QPU_A_VFMAX, V3D_QPU_A_FROUND,
     V3D_QPU_A_FTOIN, V3D_QPU_A_FTRUNC, V3D_QPU_A_FTOIZ, V3D_QPU_A_FFLOOR,
     V3D_QPU_A_FTOUZ, V3D_QPU_A_FCEIL, V3D_QPU_A_FTOC, V3D_QPU_A_FDX,
     V3D_QPU_A_FDY, V3D_QPU_A_STVPMV, V3D_QPU_A_STVPMD, V3D_QPU_A_STVPMP,
     V3D_QPU_A_ITOF, V3D_QPU_A_CLZ, V3D_QPU_A_UTOF]"

lemma all_add_ops: "op \<in> set all_add_ops"
  by (cases op) (simp_all add: all_add_ops_def)

lemma all_waddrs: "w \<in> set all_waddrs"
  by (cases w) (simp_all add: all_waddrs_def)

lemma distinct_add_op_names: "distinct (map v3d_qpu_add_op_name all_add_ops)"
  by (simp add: all_add_ops_def)

lemma distinct_waddr_names: "distinct (map waddr_name (remove1 V3D_QPU_WADDR_TMUHSCM all_waddrs))"
  by (simp add: all_waddrs_def)

lemma waddr_num_less: "waddr_num w \<le> 55"
  by (cases w) simp_all

lemma distinct_waddr_nums: "distinct (map waddr_num all_waddrs)"
  by (simp add: all_waddrs_def)

lemma inj_from_distinct: "distinct (map f xs) \<Longrightarrow> x \<in> set xs \<Longrightarrow> y \<in> set xs \<Longrightarrow> f x = f y \<Longrightarrow> x = y"
  by (auto simp: distinct_map dest: inj_onD)

lemma magic_waddr_name: "v3d_qpu_magic_waddr_name (waddr_num w) = Some (Some (waddr_name w))"
proof -
  obtain v where v: "find (\<lambda>v. waddr_num v = waddr_num w) all_waddrs = Some v"
    using all_waddrs by (cases "find (\<lambda>v. waddr_num v = waddr_num w) all_waddrs") (auto simp: find_None_iff)
  then have "waddr_num v = waddr_num w" by (auto simp: find_Some_iff)
  then have "v = w" using inj_from_distinct [OF distinct_waddr_nums all_waddrs all_waddrs] by blast
  then show ?thesis
    using v waddr_num_less [of w] by (simp add: v3d_qpu_magic_waddr_name_def not_less)
qed

text \<open>
  The disassembler's names of the add operations are distinct, and so are those of the magic
  write addresses except for \<open>TMUSCM\<close> and \<open>TMUHSCM\<close>, which share one; an address of the six-bit
  field past the end of the table is read out of its bounds.
\<close>

lemma qpu_names:
  "inj v3d_qpu_add_op_name
 \<and> (v3d_qpu_magic_waddr_name (waddr_num v) = v3d_qpu_magic_waddr_name (waddr_num w) \<longleftrightarrow>
      v = w \<or> {v, w} = {V3D_QPU_WADDR_TMUSCM, V3D_QPU_WADDR_TMUHSCM})
 \<and> (v3d_qpu_magic_waddr_name n = None \<longleftrightarrow> 55 < n)"
proof (intro conjI)
  show "inj v3d_qpu_add_op_name"
    using inj_from_distinct [OF distinct_add_op_names all_add_ops all_add_ops] by (auto intro: injI)
  have main: "v = w" if "waddr_name v = waddr_name w" "v \<noteq> V3D_QPU_WADDR_TMUHSCM" "w \<noteq> V3D_QPU_WADDR_TMUHSCM" for v w
    using inj_from_distinct [OF distinct_waddr_names, of v w] all_waddrs that by simp
  have "waddr_name V3D_QPU_WADDR_TMUHSCM = waddr_name V3D_QPU_WADDR_TMUSCM" by simp
  then have "waddr_name v = waddr_name w \<longleftrightarrow> v = w \<or> {v, w} = {V3D_QPU_WADDR_TMUSCM, V3D_QPU_WADDR_TMUHSCM}"
    using main [of v w] main [of V3D_QPU_WADDR_TMUSCM w] main [of v V3D_QPU_WADDR_TMUSCM]
    by (cases "v = V3D_QPU_WADDR_TMUHSCM"; cases "w = V3D_QPU_WADDR_TMUHSCM") (auto simp: doubleton_eq_iff)
  then show "v3d_qpu_magic_waddr_name (waddr_num v) = v3d_qpu_magic_waddr_name (waddr_num w) \<longleftrightarrow>
      v = w \<or> {v, w} = {V3D_QPU_WADDR_TMUSCM, V3D_QPU_WADDR_TMUHSCM}"
    by (simp only: magic_waddr_name option.inject)
  show "v3d_qpu_magic_waddr_name n = None \<longleftrightarrow> 55 < n" by (simp add: v3d_qpu_magic_waddr_name_def)
qed

section \<open>Branches\<close>

text \<open>The word of a branch with a zero for each field that is left out.\<close>

definition branch_word :: "u32 \<Rightarrow> u32 \<Rightarrow> u32 \<Rightarrow> bool \<Rightarrow> u32 \<Rightarrow> u32 \<Rightarrow> u32 \<Rightarrow> u32 \<Rightarrow> u64" where
  "branch_word c m bi u bu lo hi ra =
    QPU_SET_FIELD 16 VC5_QPU_SIG OR QPU_SET_FIELD c VC5_QPU_BRANCH_COND OR QPU_SET_FIELD m VC5_QPU_BRANCH_MSFIGN
    OR QPU_SET_FIELD bi VC5_QPU_BRANCH_BDI OR (if u then VC5_QPU_BRANCH_UB else 0)
    OR QPU_SET_FIELD bu VC5_QPU_BRANCH_BDU OR QPU_SET_FIELD lo VC5_QPU_BRANCH_ADDR_LOW
    OR QPU_SET_FIELD hi VC5_QPU_BRANCH_ADDR_HIGH OR QPU_SET_FIELD ra VC5_QPU_RADDR_A"

lemma branch_sig_low: "QPU_GET_FIELD (QPU_SET_FIELD 16 VC5_QPU_SIG) VC5_QPU_BRANCH_ADDR_LOW = 0"
  by (simp add: QPU_GET_FIELD_def QPU_SET_FIELD_def QPU_MASK_def branch_fields)

lemma branch_sig_kind:
  "QPU_GET_FIELD (QPU_SET_FIELD 16 VC5_QPU_SIG) VC5_QPU_SIG AND 24 = 16"
  by (simp add: QPU_GET_FIELD_def QPU_SET_FIELD_def QPU_MASK_def branch_fields)

lemma bit_24: "bit (24 :: u32) n \<longleftrightarrow> n = 3 \<or> n = 4"
proof -
  have "(24 :: u32) = push_bit 3 (mask 2)" by (simp add: mask_eq_exp_minus_1)
  then show ?thesis unfolding \<open>(24 :: u32) = _\<close> by (auto simp: bit_push_bit_iff bit_mask_iff)
qed

lemma branch_low_kind:
  "QPU_GET_FIELD (QPU_SET_FIELD lo VC5_QPU_BRANCH_ADDR_LOW) VC5_QPU_SIG AND 24 = 0"
proof (rule bit_word_eqI)
  fix n
  show "bit (QPU_GET_FIELD (QPU_SET_FIELD lo VC5_QPU_BRANCH_ADDR_LOW) VC5_QPU_SIG AND 24) n = bit (0 :: u32) n"
    unfolding bit_and_iff bit_24 by (auto simp: bit_GET_FIELD bit_SET_FIELD branch_fields)
qed

lemma branch_word_fields:
  assumes "unat c < 8" "unat m < 4" "unat bi < 4" "unat bu < 8" "unat lo < 2 ^ 21" "unat hi < 256" "unat ra < 64"
    and w: "w = branch_word c m bi u bu lo hi ra"
  shows "QPU_GET_FIELD w VC5_QPU_OP_MUL = 0" "QPU_GET_FIELD w VC5_QPU_SIG AND 24 = 16"
    "QPU_GET_FIELD w VC5_QPU_BRANCH_COND = c" "QPU_GET_FIELD w VC5_QPU_BRANCH_MSFIGN = m"
    "QPU_GET_FIELD w VC5_QPU_BRANCH_BDI = bi" "QPU_GET_FIELD w VC5_QPU_BRANCH_BDU = bu"
    "QPU_GET_FIELD w VC5_QPU_BRANCH_ADDR_LOW = lo" "QPU_GET_FIELD w VC5_QPU_BRANCH_ADDR_HIGH = hi"
    "QPU_GET_FIELD w VC5_QPU_RADDR_A = ra" "w AND VC5_QPU_BRANCH_UB \<noteq> 0 \<longleftrightarrow> u"
proof -
  have d: "(x OR y) AND 24 = (x AND 24) OR (y AND (24 :: u32))" for x y
    by (rule bit_word_eqI) (auto simp: bit_simps)
  show "QPU_GET_FIELD w VC5_QPU_SIG AND 24 = 16"
    unfolding w branch_word_def GET_OR d branch_sig_kind branch_low_kind
    by (simp add: branch_fields field_simps_qpu)
  show "QPU_GET_FIELD w VC5_QPU_BRANCH_ADDR_LOW = lo"
    unfolding w branch_word_def GET_OR branch_sig_low
    using assms by (simp add: branch_fields field_simps_qpu take_bit_small)
qed (use assms in \<open>simp_all add: w branch_word_def branch_fields field_simps_qpu take_bit_small\<close>)

lemma bit_high_byte: "bit (0xff000000 :: u32) n \<longleftrightarrow> 24 \<le> n \<and> n < 32"
proof -
  have "(0xff000000 :: u32) = push_bit 24 (mask 8)" by (simp add: mask_eq_exp_minus_1)
  then show ?thesis by (simp only: bit_push_bit_iff bit_mask_iff) auto
qed

lemma bit_low_offset: "bit (off AND NOT (0xff000000 :: u32)) n \<longleftrightarrow> bit off n \<and> n < 24"
  unfolding bit_and_iff bit_not_iff bit_high_byte by (auto dest: bit_imp_le_length)

lemma take_bit_bound: "take_bit k x = x \<Longrightarrow> unat (x :: u32) < 2 ^ k"
  by (metis unsigned_take_bit_eq take_bit_nat_less_exp)

lemma offset_split:
  assumes "off AND 7 = (0 :: u32)"
  shows "push_bit 3 (drop_bit 3 (off AND NOT 0xff000000)) + push_bit 24 (drop_bit 24 off) = off"
    "unat (drop_bit 3 (off AND NOT 0xff000000)) < 2 ^ 21" "unat (drop_bit 24 off) < 256"
proof -
  define m where "m = off AND NOT (0xff000000 :: u32)"
  have m: "bit m n \<longleftrightarrow> bit off n \<and> n < 24" for n unfolding m_def by (rule bit_low_offset)
  have low: "\<not> bit off n" if "n < 3" for n
  proof
    assume "bit off n"
    then have "bit (off AND mask 3) n" using that by (simp add: bit_and_iff bit_mask_iff)
    moreover have "(7 :: u32) = mask 3" by (simp add: mask_eq_exp_minus_1)
    ultimately show False using assms by simp
  qed
  let ?x = "push_bit 3 (drop_bit 3 m)" and ?y = "push_bit 24 (drop_bit 24 off)"
  have x: "bit ?x n \<longleftrightarrow> bit off n \<and> n < 24" for n
    using low [of n] by (cases "n < 3") (auto simp: bit_push_bit_iff bit_drop_bit_eq m)
  have y: "bit ?y n \<longleftrightarrow> bit off n \<and> 24 \<le> n" for n
    by (auto simp: bit_push_bit_iff bit_drop_bit_eq dest: bit_imp_le_length)
  have "?x AND ?y = 0" by (rule bit_word_eqI) (auto simp: bit_and_iff x y)
  then have "?x + ?y = ?x OR ?y" by (rule disjunctive_add_eq_or)
  also have "\<dots> = off" by (rule bit_word_eqI) (auto simp: bit_or_iff x y)
  finally show "push_bit 3 (drop_bit 3 (off AND NOT 0xff000000)) + push_bit 24 (drop_bit 24 off) = off"
    by (simp only: m_def)
  have "take_bit 21 (drop_bit 3 m) = drop_bit 3 m"
    by (rule bit_word_eqI) (auto simp: bit_take_bit_iff bit_drop_bit_eq m)
  then show "unat (drop_bit 3 (off AND NOT 0xff000000)) < 2 ^ 21"
    unfolding m_def [symmetric] by (rule take_bit_bound)
  have "take_bit 8 (drop_bit 24 off) = drop_bit 24 off"
    by (rule bit_word_eqI) (auto simp: bit_take_bit_iff bit_drop_bit_eq dest: bit_imp_le_length)
  from take_bit_bound [OF this] show "unat (drop_bit 24 off) < 256" by simp
qed

definition branch_relative :: "v3d_qpu_branch_instr \<Rightarrow> bool" where
  "branch_relative b \<longleftrightarrow> bdi b = V3D_QPU_BRANCH_DEST_ABS \<or> bdi b = V3D_QPU_BRANCH_DEST_REL"

definition branch_uses_reg :: "v3d_qpu_branch_instr \<Rightarrow> bool" where
  "branch_uses_reg b \<longleftrightarrow> branch_relative b \<or> bdi b = V3D_QPU_BRANCH_DEST_REGFILE"

definition branch_ok :: "v3d_qpu_branch_instr \<Rightarrow> bool" where
  "branch_ok b \<longleftrightarrow> unat (bdu b) < 8 \<and> unat (br_raddr_a b) < 64 \<and> br_offset b AND 7 = 0"

definition branch_same :: "v3d_qpu_branch_instr \<Rightarrow> v3d_qpu_branch_instr \<Rightarrow> bool" where
  "branch_same x y \<longleftrightarrow> br_cond y = br_cond x \<and> br_msfign y = br_msfign x \<and> bdi y = bdi x \<and> br_ub y = br_ub x
   \<and> (br_ub x \<longrightarrow> bdu y = bdu x)
   \<and> br_offset y = (if branch_relative x then br_offset x else 0)
   \<and> br_raddr_a y = (if branch_uses_reg x then br_raddr_a x else 0)"

lemma branch_cond_roundtrip:
  "branch_cond_of (branch_cond_num c) = c" "msfign_of (msfign_num m) = m" "branch_dest_of (branch_dest_num e) = e"
  "unat (msfign_num m) < 3" "unat (branch_dest_num e) < 4"
  by (cases c; cases m; cases e; simp add: branch_cond_of_def msfign_of_def branch_dest_of_def)+

lemma branch_unpack_packed:
  assumes "itype i = V3D_QPU_INSTR_TYPE_BRANCH" "branch_ok (branch i)"
  shows "\<exists>w y. v3d_qpu_instr_pack d i = Some w \<and> v3d_qpu_instr_unpack d w i0 = Some y
             \<and> itype y = V3D_QPU_INSTR_TYPE_BRANCH \<and> branch_same (branch i) (branch y)
             \<and> sig y = sig i0"
proof -
  let ?b = "branch i"
  define c where "c = (if br_cond ?b = V3D_QPU_BRANCH_COND_ALWAYS then 0
      else 2 + (branch_cond_num (br_cond ?b) - branch_cond_num V3D_QPU_BRANCH_COND_A0))"
  define lo where "lo = (if branch_relative ?b then drop_bit 3 (br_offset ?b AND NOT 0xff000000) else 0)"
  define hi where "hi = (if branch_relative ?b then drop_bit 24 (br_offset ?b) else 0)"
  define ra where "ra = (if branch_uses_reg ?b then ucast (br_raddr_a ?b) else (0 :: u32))"
  define bu where "bu = (if br_ub ?b then bdu ?b else 0)"
  define w where "w = branch_word c (msfign_num (br_msfign ?b)) (branch_dest_num (bdi ?b)) (br_ub ?b) bu lo hi ra"
  have set0: "QPU_SET_FIELD 0 f = 0" for f by (simp add: QPU_SET_FIELD_def)
  have idem: "x OR (x OR y) = x OR (y :: u64)" for x y by (simp add: or.left_idem)
  have pack: "v3d_qpu_instr_pack d i = Some w"
    using assms(1)
    by (cases "bdi ?b"; cases "br_ub ?b"; cases "br_cond ?b = V3D_QPU_BRANCH_COND_ALWAYS")
       (simp_all add: v3d_qpu_instr_pack_def v3d_qpu_instr_pack_branch_def w_def branch_word_def c_def lo_def hi_def
          ra_def bu_def branch_relative_def branch_uses_reg_def set0 Let_def ac_simps idem)
  note ok = assms(2) [unfolded branch_ok_def]
  note off = offset_split [OF conjunct2 [OF conjunct2 [OF ok]]]
  have c8: "unat c < 8" unfolding c_def by (cases "br_cond ?b") simp_all
  have bounds: "unat (msfign_num (br_msfign ?b)) < 4" "unat (branch_dest_num (bdi ?b)) < 4" "unat bu < 8"
      "unat lo < 2 ^ 21" "unat hi < 256" "unat ra < 64"
    using ok off(2,3) branch_cond_roundtrip(4) [of "br_msfign ?b"] branch_cond_roundtrip(5) [of "bdi ?b"]
    by (auto simp: bu_def lo_def hi_def ra_def unat_ucast_u8)
  note f = branch_word_fields [OF c8 bounds w_def]
  have cond: "(if c = 0 then Some V3D_QPU_BRANCH_COND_ALWAYS
      else if branch_cond_num V3D_QPU_BRANCH_COND_A0 + (c - 2) \<le> branch_cond_num V3D_QPU_BRANCH_COND_ALLNA
      then Some (branch_cond_of (branch_cond_num V3D_QPU_BRANCH_COND_A0 + (c - 2))) else None) = Some (br_cond ?b)"
    unfolding c_def by (cases "br_cond ?b") (simp_all add: branch_cond_of_def)
  have m3: "msfign_num (br_msfign ?b) \<noteq> 3" by (cases "br_msfign ?b") simp_all
  have offs: "push_bit 3 lo + push_bit 24 hi = (if branch_relative ?b then br_offset ?b else 0)"
    using off(1) by (simp add: lo_def hi_def)
  obtain y where y: "v3d_qpu_instr_unpack d w i0 = Some y" "itype y = V3D_QPU_INSTR_TYPE_BRANCH"
      "branch_same ?b (branch y)" "sig y = sig i0"
    using m3 offs cond
    by (auto simp: v3d_qpu_instr_unpack_def v3d_qpu_instr_unpack_branch_def f Let_def branch_cond_roundtrip
        branch_same_def bu_def ra_def ucast_u8_u32 simp del: branch_cond_num.simps)
  show ?thesis using pack y by blast
qed

text \<open>
  C24. Every branch whose fields fit the word (\<open>branch_ok\<close>: the kind of the uniforms branch below 8, the register
  below 64, the offset a multiple of 8) packs, and the word unpacks to a branch with the same condition, flags,
  destination kind and \<open>ub\<close>.  The kind of the uniforms branch is kept when \<open>ub\<close> is set, the offset for absolute
  and relative branches, and the register for these and for branches to a register; where the branch does not
  use them offset and register come back as 0.
\<close>

theorem branch_pack_unpack:
  assumes "itype i = V3D_QPU_INSTR_TYPE_BRANCH" "branch_ok (branch i)"
  shows "\<exists>w y. v3d_qpu_instr_pack d i = Some w \<and> v3d_qpu_instr_unpack d w i0 = Some y
             \<and> itype y = V3D_QPU_INSTR_TYPE_BRANCH \<and> branch_same (branch i) (branch y)"
  using branch_unpack_packed [OF assms] by blast

theorem branch_pack_unpack_witness:
  "\<exists>w y. v3d_qpu_instr_pack \<lparr>ver = 33\<rparr> (example_instr\<lparr>itype := V3D_QPU_INSTR_TYPE_BRANCH\<rparr>) = Some w
     \<and> v3d_qpu_instr_unpack \<lparr>ver = 33\<rparr> w example_instr = Some y \<and> itype y = V3D_QPU_INSTR_TYPE_BRANCH
     \<and> branch_same (branch (example_instr\<lparr>itype := V3D_QPU_INSTR_TYPE_BRANCH\<rparr>)) (branch y)"
  by (rule branch_pack_unpack) (simp_all add: example_instr_def branch_ok_def)

theorem predicates_survive_packing_witness:
  "\<exists>y. v3d_qpu_instr_unpack \<lparr>ver = 41\<rparr> (the (v3d_qpu_instr_pack \<lparr>ver = 41\<rparr> example_instr)) example_instr = Some y
    \<and> v3d_qpu_uses_tlb y = v3d_qpu_uses_tlb example_instr \<and> v3d_qpu_writes_tmu y = v3d_qpu_writes_tmu example_instr
    \<and> v3d_qpu_reads_vpm y = v3d_qpu_reads_vpm example_instr \<and> v3d_qpu_writes_vpm y = v3d_qpu_writes_vpm example_instr
    \<and> v3d_qpu_uses_vpm y = v3d_qpu_uses_vpm example_instr
    \<and> v3d_qpu_writes_r3 \<lparr>ver = 41\<rparr> y = v3d_qpu_writes_r3 \<lparr>ver = 41\<rparr> example_instr
    \<and> v3d_qpu_writes_r4 \<lparr>ver = 41\<rparr> y = v3d_qpu_writes_r4 \<lparr>ver = 41\<rparr> example_instr
    \<and> v3d_qpu_writes_r5 \<lparr>ver = 41\<rparr> y = v3d_qpu_writes_r5 \<lparr>ver = 41\<rparr> example_instr
    \<and> (\<forall>m. v3d_qpu_uses_mux y m = v3d_qpu_uses_mux example_instr m)"
proof (rule predicates_survive_packing)
  show "v3d_qpu_instr_pack \<lparr>ver = 41\<rparr> example_instr = Some (the (v3d_qpu_instr_pack \<lparr>ver = 41\<rparr> example_instr))"
    using example_packs by auto
qed (simp_all add: example_ok, simp_all add: example_defs stvpm_def)

end
