(* ===== verification/QpuValidate.thy ===== *)
theory QpuValidate
  imports QpuCorrect
begin

text \<open>
  The validator of scheduled QPU programs, \<open>src/src/broadcom/compiler/qpu_validate.c\<close>: a state
  machine over the instructions, whose \<open>fail_instr\<close> (a message and an abort) is the left injection of
  a sum.  It is proved equal to a specification on the positions of the instructions, and unable to
  tell a program from the one its packed words decode to.
\<close>

section \<open>The state of the validator\<close>

record v3d_qpu_validate_state =
  v_last :: "v3d_qpu_instr option"
  v_ip :: int
  v_last_sfu_write :: int
  v_last_branch_ip :: int
  v_last_thrsw_ip :: int
  v_last_thrsw_found :: bool
  v_thrend_found :: bool
  v_thrsw_count :: int

text \<open>
  What the validator reads of \<open>struct v3d_compile\<close>: the device, whether there is a last thread switch,
  and the instructions of each block.
\<close>

record v3d_compile =
  c_devinfo :: v3d_device_info
  c_last_thrsw :: bool
  c_blocks :: "v3d_qpu_instr list list"

type_synonym failure = "int \<times> string"

definition fail_instr :: "v3d_qpu_validate_state \<Rightarrow> string \<Rightarrow> failure + 'a" where
  "fail_instr st msg = Inl (v_ip st, msg)"

text \<open>A guarded \<open>fail_instr\<close>, followed by the rest of the function.\<close>

definition fail_if :: "bool \<Rightarrow> v3d_qpu_validate_state \<Rightarrow> string \<Rightarrow> failure + 'a \<Rightarrow> failure + 'a" where
  "fail_if b st msg rest = (if b then fail_instr st msg else rest)"

primrec and_then :: "failure + 'a \<Rightarrow> ('a \<Rightarrow> failure + 'b) \<Rightarrow> failure + 'b" where
  "and_then (Inl e) f = Inl e"
| "and_then (Inr x) f = f x"

definition in_branch_delay_slots :: "v3d_qpu_validate_state \<Rightarrow> bool" where
  "in_branch_delay_slots st \<longleftrightarrow> v_ip st - v_last_branch_ip st < 3"

definition in_thrsw_delay_slots :: "v3d_qpu_validate_state \<Rightarrow> bool" where
  "in_thrsw_delay_slots st \<longleftrightarrow> v_ip st - v_last_thrsw_ip st < 3"

section \<open>One instruction\<close>

text \<open>
  How many halves of the instruction write a magic address of the given kind: the value at which
  each of the counters of \<open>qpu_validate_inst\<close> arrives.
\<close>

definition magic_writes :: "(u8 \<Rightarrow> bool) \<Rightarrow> v3d_qpu_instr \<Rightarrow> nat" where
  "magic_writes kind inst =
    (let a = add (alu inst); m = mul (alu inst) in
     of_bool (alu_op a \<noteq> V3D_QPU_A_NOP \<and> magic_write a \<and> kind (alu_waddr a)) +
     of_bool (alu_op m \<noteq> V3D_QPU_M_NOP \<and> magic_write m \<and> kind (alu_waddr m)))"

text \<open>Unused by the validator itself.\<close>

definition qpu_magic_waddr_matches :: "v3d_qpu_instr \<Rightarrow> (u8 \<Rightarrow> bool) \<Rightarrow> bool" where
  "qpu_magic_waddr_matches inst predicate \<longleftrightarrow>
    (let a = add (alu inst); m = mul (alu inst) in
     if itype inst = V3D_QPU_INSTR_TYPE_ALU then False
     else if alu_op a \<noteq> V3D_QPU_A_NOP \<and> magic_write a \<and> predicate (alu_waddr a) then True
     else if alu_op m \<noteq> V3D_QPU_M_NOP \<and> magic_write m \<and> predicate (alu_waddr m) then True
     else False)"

definition unit_accesses :: "v3d_qpu_instr \<Rightarrow> nat" where
  "unit_accesses inst =
    magic_writes v3d_qpu_magic_waddr_is_tmu inst +
    magic_writes v3d_qpu_magic_waddr_is_sfu inst +
    magic_writes v3d_qpu_magic_waddr_is_vpm inst +
    magic_writes v3d_qpu_magic_waddr_is_tlb inst +
    magic_writes v3d_qpu_magic_waddr_is_tsy inst +
    of_bool (ldtmu (sig inst)) + of_bool (ldtlb (sig inst)) +
    of_bool (ldvpm (sig inst)) + of_bool (ldtlbu (sig inst))"

definition last_sig :: "(v3d_qpu_sig \<Rightarrow> bool) \<Rightarrow> v3d_qpu_validate_state \<Rightarrow> bool" where
  "last_sig f st = (case v_last st of None \<Rightarrow> False | Some i \<Rightarrow> f (sig i))"

definition validate_hazards ::
  "v3d_device_info \<Rightarrow> v3d_qpu_validate_state \<Rightarrow> v3d_qpu_instr \<Rightarrow> failure + v3d_qpu_validate_state" where
  "validate_hazards devinfo st inst =
    (let s = sig inst;
         last_reads_ldunif = last_sig ldunif st \<or> last_sig ldunifrf st;
         last_reads_ldunifa = last_sig ldunifa st \<or> last_sig ldunifarf st;
         reads_ldunif = ldunif s \<or> ldunifrf s;
         reads_ldunifa = ldunifa s \<or> ldunifarf s;
         sfu_writes = magic_writes v3d_qpu_magic_waddr_is_sfu inst
     in
     fail_if (last_sig ldvary st \<and> (ldunif s \<or> ldunifa s)) st ''LDUNIF after a LDVARY''
    (fail_if ((last_reads_ldunif \<and> reads_ldunifa) \<or> (last_reads_ldunifa \<and> reads_ldunif)) st
       ''LDUNIF and LDUNIFA can't be next to each other''
    (fail_if (in_thrsw_delay_slots st \<and> sfu_writes \<noteq> 0) st
       ''SFU write started during THRSW delay slots ''
    (fail_if (in_thrsw_delay_slots st \<and> ldvary s) st ''LDVARY during THRSW delay slots''
    (fail_if (v_ip st - v_last_sfu_write st < 2 \<and> v3d_qpu_uses_mux inst V3D_QPU_MUX_R4) st
       ''R4 read too soon after SFU''
    (fail_if (v_ip st - v_last_sfu_write st < 2 \<and> v3d_qpu_writes_r4 devinfo inst) st
       ''R4 write too soon after SFU''
    (fail_if (v_ip st - v_last_sfu_write st < 2 \<and> sfu_writes \<noteq> 0) st
       ''SFU write too soon after SFU''
    (fail_if (1 < unit_accesses inst) st
       ''Only one of [TMU, SFU, TSY, TLB read, VPM] allowed''
    (Inr (if sfu_writes \<noteq> 0 then st\<lparr>v_last_sfu_write := v_ip st\<rparr> else st))))))))))"

definition validate_thrsw ::
  "v3d_qpu_validate_state \<Rightarrow> v3d_qpu_instr \<Rightarrow> failure + v3d_qpu_validate_state" where
  "validate_thrsw st inst =
    (if \<not> thrsw (sig inst) then Inr st
     else
       fail_if (in_branch_delay_slots st) st ''THRSW in a branch delay slot.''
      (let st = (if v_last_thrsw_found st then st\<lparr>v_thrend_found := True\<rparr> else st) in
       if v_last_thrsw_ip st = v_ip st - 1 then
         fail_if (v_last_thrsw_found st) st ''Two last-THRSW signals''
           (Inr (st\<lparr>v_last_thrsw_found := True\<rparr>))
       else
         fail_if (in_thrsw_delay_slots st) st ''THRSW too close to another THRSW.''
           (Inr (st\<lparr>v_thrsw_count := v_thrsw_count st + 1, v_last_thrsw_ip := v_ip st\<rparr>))))"

definition validate_thrend ::
  "v3d_device_info \<Rightarrow> v3d_qpu_validate_state \<Rightarrow> v3d_qpu_instr \<Rightarrow> failure + v3d_qpu_validate_state" where
  "validate_thrend devinfo st inst =
    (let a = add (alu inst); m = mul (alu inst) in
     if v_thrend_found st \<and> v_last_thrsw_ip st - v_ip st \<le> 2 \<and> itype inst = V3D_QPU_INSTR_TYPE_ALU then
       fail_if (alu_op a \<noteq> V3D_QPU_A_NOP \<and> \<not> magic_write a) st ''RF write after THREND''
      (fail_if (alu_op m \<noteq> V3D_QPU_M_NOP \<and> \<not> magic_write m) st ''RF write after THREND''
      (fail_if (v3d_qpu_sig_writes_address devinfo (sig inst)) st ''RF write after THREND''
      (fail_if (v_last_thrsw_ip st - v_ip st = 2 \<and> alu_op a = V3D_QPU_A_TMUWT) st
         ''TMUWT in last instruction'' (Inr st))))
     else Inr st)"

definition validate_branch ::
  "v3d_qpu_validate_state \<Rightarrow> v3d_qpu_instr \<Rightarrow> failure + v3d_qpu_validate_state" where
  "validate_branch st inst =
    (if itype inst = V3D_QPU_INSTR_TYPE_BRANCH then
       fail_if (in_branch_delay_slots st) st ''branch in a branch delay slot.''
      (fail_if (in_thrsw_delay_slots st) st ''branch in a THRSW delay slot.''
      (Inr (st\<lparr>v_last_branch_ip := v_ip st\<rparr>)))
     else Inr st)"

definition qpu_validate_inst ::
  "v3d_device_info \<Rightarrow> v3d_qpu_validate_state \<Rightarrow> v3d_qpu_instr \<Rightarrow> failure + v3d_qpu_validate_state" where
  "qpu_validate_inst devinfo st inst =
    (if itype inst \<noteq> V3D_QPU_INSTR_TYPE_ALU then Inr st
     else and_then (validate_hazards devinfo st inst)
       (\<lambda>st. and_then (validate_thrsw st inst)
       (\<lambda>st. and_then (validate_thrend devinfo st inst)
       (\<lambda>st. validate_branch st inst))))"

section \<open>Blocks and programs\<close>

primrec qpu_validate_block ::
  "v3d_device_info \<Rightarrow> v3d_qpu_validate_state \<Rightarrow> v3d_qpu_instr list \<Rightarrow> failure + v3d_qpu_validate_state" where
  "qpu_validate_block devinfo st [] = Inr st"
| "qpu_validate_block devinfo st (inst # insts) =
    and_then (qpu_validate_inst devinfo st inst)
      (\<lambda>st. qpu_validate_block devinfo (st\<lparr>v_last := Some inst, v_ip := v_ip st + 1\<rparr>) insts)"

primrec validate_blocks ::
  "v3d_device_info \<Rightarrow> v3d_qpu_validate_state \<Rightarrow> v3d_qpu_instr list list \<Rightarrow> failure + v3d_qpu_validate_state" where
  "validate_blocks devinfo st [] = Inr st"
| "validate_blocks devinfo st (block # blocks) =
    and_then (qpu_validate_block devinfo st block) (\<lambda>st. validate_blocks devinfo st blocks)"

definition validate_start :: "v3d_compile \<Rightarrow> v3d_qpu_validate_state" where
  "validate_start c =
    \<lparr>v_last = None, v_ip = 0, v_last_sfu_write = - 10, v_last_branch_ip = - 10, v_last_thrsw_ip = - 10,
     v_last_thrsw_found = (\<not> c_last_thrsw c), v_thrend_found = False, v_thrsw_count = 0\<rparr>"

text \<open>The check of a build with \<open>DEBUG\<close>; any other build returns at once.\<close>

definition qpu_validate :: "bool \<Rightarrow> v3d_compile \<Rightarrow> failure + unit" where
  "qpu_validate debug c =
    (if \<not> debug then Inr ()
     else and_then (validate_blocks (c_devinfo c) (validate_start c) (c_blocks c))
       (\<lambda>st. fail_if (1 < v_thrsw_count st \<and> \<not> v_last_thrsw_found st) st
               ''thread switch found without last-THRSW in program''
            (fail_if (\<not> v_thrend_found st) st ''No program-end THRSW found'' (Inr ()))))"

section \<open>The restrictions on a program\<close>

text \<open>
  The same restrictions without a state: what instruction \<open>n\<close> of the program must satisfy, in terms
  of the instructions before it.  A thread switch that follows another one marks it as the last; the
  others start a switch.  \<open>single\<close> says that there is no last thread switch to mark.
\<close>

definition alu_at :: "v3d_qpu_instr list \<Rightarrow> nat \<Rightarrow> bool" where
  "alu_at is n \<longleftrightarrow> itype (is ! n) = V3D_QPU_INSTR_TYPE_ALU"

definition sfu_at :: "v3d_qpu_instr list \<Rightarrow> nat \<Rightarrow> bool" where
  "sfu_at is n \<longleftrightarrow> alu_at is n \<and> magic_writes v3d_qpu_magic_waddr_is_sfu (is ! n) \<noteq> 0"

definition thrsw_at :: "v3d_qpu_instr list \<Rightarrow> nat \<Rightarrow> bool" where
  "thrsw_at is n \<longleftrightarrow> alu_at is n \<and> thrsw (sig (is ! n))"

definition switch_at :: "v3d_qpu_instr list \<Rightarrow> nat \<Rightarrow> bool" where
  "switch_at is n \<longleftrightarrow> thrsw_at is n \<and> \<not> (0 < n \<and> thrsw_at is (n - 1))"

definition marks_last :: "v3d_qpu_instr list \<Rightarrow> nat \<Rightarrow> bool" where
  "marks_last is n \<longleftrightarrow> thrsw_at is n \<and> 0 < n \<and> switch_at is (n - 1)"

definition last_found :: "bool \<Rightarrow> v3d_qpu_instr list \<Rightarrow> nat \<Rightarrow> bool" where
  "last_found single is n \<longleftrightarrow> single \<or> (\<exists>k < n. marks_last is k)"

definition thrend_at :: "bool \<Rightarrow> v3d_qpu_instr list \<Rightarrow> nat \<Rightarrow> bool" where
  "thrend_at single is n \<longleftrightarrow> thrsw_at is n \<and> last_found single is n"

definition after_switch :: "v3d_qpu_instr list \<Rightarrow> nat \<Rightarrow> bool" where
  "after_switch is n \<longleftrightarrow> (\<exists>k < n. switch_at is k \<and> n - k < 3)"

definition sig_before :: "(v3d_qpu_sig \<Rightarrow> bool) \<Rightarrow> v3d_qpu_instr list \<Rightarrow> nat \<Rightarrow> bool" where
  "sig_before f is n \<longleftrightarrow> 0 < n \<and> f (sig (is ! (n - 1)))"

definition rf_write :: "v3d_device_info \<Rightarrow> v3d_qpu_instr \<Rightarrow> bool" where
  "rf_write d i \<longleftrightarrow> (alu_op (add (alu i)) \<noteq> V3D_QPU_A_NOP \<and> \<not> magic_write (add (alu i)))
     \<or> (alu_op (mul (alu i)) \<noteq> V3D_QPU_M_NOP \<and> \<not> magic_write (mul (alu i)))
     \<or> v3d_qpu_sig_writes_address d (sig i)"

definition uniform_ok :: "v3d_qpu_instr list \<Rightarrow> nat \<Rightarrow> bool" where
  "uniform_ok is n \<longleftrightarrow>
     (let s = sig (is ! n); last = (\<lambda>f. sig_before f is n) in
       \<not> (last ldvary \<and> (ldunif s \<or> ldunifa s))
     \<and> \<not> ((last ldunif \<or> last ldunifrf) \<and> (ldunifa s \<or> ldunifarf s))
     \<and> \<not> ((last ldunifa \<or> last ldunifarf) \<and> (ldunif s \<or> ldunifrf s)))"

definition sfu_ok :: "v3d_device_info \<Rightarrow> v3d_qpu_instr list \<Rightarrow> nat \<Rightarrow> bool" where
  "sfu_ok d is n \<longleftrightarrow>
     (let i = is ! n in
       \<not> (after_switch is n \<and> (sfu_at is n \<or> ldvary (sig i)))
     \<and> \<not> (0 < n \<and> sfu_at is (n - 1) \<and>
           (v3d_qpu_uses_mux i V3D_QPU_MUX_R4 \<or> v3d_qpu_writes_r4 d i \<or> sfu_at is n))
     \<and> unit_accesses i \<le> 1)"

definition switch_ok :: "bool \<Rightarrow> v3d_qpu_instr list \<Rightarrow> nat \<Rightarrow> bool" where
  "switch_ok single is n \<longleftrightarrow> \<not> thrsw_at is n \<or>
     (if 0 < n \<and> switch_at is (n - 1) then \<not> last_found single is n else \<not> after_switch is n)"

definition thrend_ok :: "v3d_device_info \<Rightarrow> bool \<Rightarrow> v3d_qpu_instr list \<Rightarrow> nat \<Rightarrow> bool" where
  "thrend_ok d single is n \<longleftrightarrow> \<not> ((\<exists>k \<le> n. thrend_at single is k) \<and> rf_write d (is ! n))"

definition instr_ok :: "v3d_device_info \<Rightarrow> bool \<Rightarrow> v3d_qpu_instr list \<Rightarrow> nat \<Rightarrow> bool" where
  "instr_ok d single is n \<longleftrightarrow> \<not> alu_at is n \<or>
     (uniform_ok is n \<and> sfu_ok d is n \<and> switch_ok single is n \<and> thrend_ok d single is n)"

definition end_ok :: "bool \<Rightarrow> v3d_qpu_instr list \<Rightarrow> bool" where
  "end_ok single is \<longleftrightarrow>
     (card {k. k < length is \<and> switch_at is k} \<le> 1 \<or> last_found single is (length is))
   \<and> (\<exists>k < length is. thrend_at single is k)"

definition program_ok :: "v3d_device_info \<Rightarrow> bool \<Rightarrow> v3d_qpu_instr list \<Rightarrow> bool" where
  "program_ok d single is \<longleftrightarrow> (\<forall>n < length is. instr_ok d single is n) \<and> end_ok single is"

definition fails_at :: "v3d_device_info \<Rightarrow> bool \<Rightarrow> v3d_qpu_instr list \<Rightarrow> nat \<Rightarrow> bool" where
  "fails_at d single is n \<longleftrightarrow> (\<forall>k < n. instr_ok d single is k) \<and>
     (if n < length is then \<not> instr_ok d single is n else n = length is \<and> \<not> end_ok single is)"

section \<open>The state as a summary of the instructions before\<close>

definition sfu_ip_ok :: "v3d_qpu_instr list \<Rightarrow> nat \<Rightarrow> int \<Rightarrow> bool" where
  "sfu_ip_ok is n l \<longleftrightarrow> l < int n \<and> (int n - l < 2 \<longleftrightarrow> 0 < n \<and> sfu_at is (n - 1))"

definition thrsw_ip_ok :: "v3d_qpu_instr list \<Rightarrow> nat \<Rightarrow> int \<Rightarrow> bool" where
  "thrsw_ip_ok is n l \<longleftrightarrow> (l = - 10 \<or> (\<exists>k < n. l = int k \<and> switch_at is k))
     \<and> (\<forall>k < n. switch_at is k \<longrightarrow> int k \<le> l)"

definition validate_inv :: "bool \<Rightarrow> v3d_qpu_instr list \<Rightarrow> nat \<Rightarrow> v3d_qpu_validate_state \<Rightarrow> bool" where
  "validate_inv single is n st \<longleftrightarrow>
     v_last st = (if n = 0 then None else Some (is ! (n - 1)))
   \<and> v_ip st = int n
   \<and> v_last_branch_ip st = - 10
   \<and> sfu_ip_ok is n (v_last_sfu_write st)
   \<and> thrsw_ip_ok is n (v_last_thrsw_ip st)
   \<and> (v_last_thrsw_found st \<longleftrightarrow> last_found single is n)
   \<and> (v_thrend_found st \<longleftrightarrow> (\<exists>k < n. thrend_at single is k))
   \<and> v_thrsw_count st = int (card {k. k < n \<and> switch_at is k})"

lemma validate_invD:
  assumes "validate_inv single is n st"
  shows "v_ip st = int n" "last_sig f st \<longleftrightarrow> sig_before f is n" "\<not> in_branch_delay_slots st"
    "int n - v_last_sfu_write st < 2 \<longleftrightarrow> 0 < n \<and> sfu_at is (n - 1)"
    "in_thrsw_delay_slots st \<longleftrightarrow> after_switch is n"
    "v_last_thrsw_ip st = int n - 1 \<longleftrightarrow> 0 < n \<and> switch_at is (n - 1)"
    "v_last_thrsw_ip st < int n"
    "v_last_thrsw_found st \<longleftrightarrow> last_found single is n"
    "v_thrend_found st \<longleftrightarrow> (\<exists>k < n. thrend_at single is k)"
proof -
  show "v_ip st = int n" "\<not> in_branch_delay_slots st"
    "int n - v_last_sfu_write st < 2 \<longleftrightarrow> 0 < n \<and> sfu_at is (n - 1)"
    "v_last_thrsw_found st \<longleftrightarrow> last_found single is n"
    "v_thrend_found st \<longleftrightarrow> (\<exists>k < n. thrend_at single is k)"
    using assms by (simp_all add: validate_inv_def sfu_ip_ok_def in_branch_delay_slots_def)
  show "last_sig f st \<longleftrightarrow> sig_before f is n"
    using assms by (simp add: validate_inv_def last_sig_def sig_before_def)
  have l: "v_last_thrsw_ip st = - 10 \<or> (\<exists>k < n. v_last_thrsw_ip st = int k \<and> switch_at is k)"
    and m: "\<And>k. k < n \<Longrightarrow> switch_at is k \<Longrightarrow> int k \<le> v_last_thrsw_ip st" and ip: "v_ip st = int n"
    using assms by (auto simp: validate_inv_def thrsw_ip_ok_def)
  show "v_last_thrsw_ip st < int n" using l by auto
  show "v_last_thrsw_ip st = int n - 1 \<longleftrightarrow> 0 < n \<and> switch_at is (n - 1)"
  proof
    assume "v_last_thrsw_ip st = int n - 1"
    with l obtain k where "k < n" "int k = int n - 1" "switch_at is k" by auto
    moreover from this have "k = n - 1" by linarith
    ultimately show "0 < n \<and> switch_at is (n - 1)" by auto
  next
    assume "0 < n \<and> switch_at is (n - 1)"
    then have "int (n - 1) \<le> v_last_thrsw_ip st" using m [of "n - 1"] by auto
    then show "v_last_thrsw_ip st = int n - 1"
      using l \<open>0 < n \<and> switch_at is (n - 1)\<close> by (auto simp: of_nat_diff)
  qed
  show "in_thrsw_delay_slots st \<longleftrightarrow> after_switch is n"
  proof
    assume "in_thrsw_delay_slots st"
    then have "int n - v_last_thrsw_ip st < 3" by (simp add: in_thrsw_delay_slots_def ip)
    with l obtain k where "k < n" "switch_at is k" "int n - int k < 3" by auto
    then show "after_switch is n" unfolding after_switch_def by (intro exI [of _ k]) auto
  next
    assume "after_switch is n"
    then obtain k where "k < n" "switch_at is k" "n - k < 3" by (auto simp: after_switch_def)
    with m [of k] show "in_thrsw_delay_slots st" by (simp add: in_thrsw_delay_slots_def ip)
  qed
qed

lemmas fail_simps = fail_if_def fail_instr_def

definition after_hazards :: "v3d_qpu_validate_state \<Rightarrow> v3d_qpu_instr \<Rightarrow> v3d_qpu_validate_state" where
  "after_hazards st inst = (if magic_writes v3d_qpu_magic_waddr_is_sfu inst \<noteq> 0
     then st\<lparr>v_last_sfu_write := v_ip st\<rparr> else st)"

lemma hazards_result:
  assumes "validate_inv single is n st" "alu_at is n"
  shows "if uniform_ok is n \<and> sfu_ok d is n
         then validate_hazards d st (is ! n) = Inr (after_hazards st (is ! n))
         else \<exists>msg. validate_hazards d st (is ! n) = Inl (int n, msg)"
proof -
  have sfu: "magic_writes v3d_qpu_magic_waddr_is_sfu (is ! n) \<noteq> 0 \<longleftrightarrow> sfu_at is n"
    using assms(2) by (simp add: sfu_at_def)
  note inv = validate_invD [OF assms(1)]
  show ?thesis
    unfolding validate_hazards_def uniform_ok_def sfu_ok_def fail_simps Let_def inv(1,2,4,5) sfu after_hazards_def
    by (simp add: not_less) blast
qed

definition after_thrsw :: "bool \<Rightarrow> v3d_qpu_instr list \<Rightarrow> nat \<Rightarrow> v3d_qpu_validate_state \<Rightarrow> v3d_qpu_validate_state" where
  "after_thrsw single is n st =
    (if \<not> thrsw_at is n then st
     else let st = st\<lparr>v_thrend_found := v_thrend_found st \<or> last_found single is n\<rparr> in
       if 0 < n \<and> switch_at is (n - 1) then st\<lparr>v_last_thrsw_found := True\<rparr>
       else st\<lparr>v_thrsw_count := v_thrsw_count st + 1, v_last_thrsw_ip := int n\<rparr>)"

lemma validate_thrsw_cases:
  assumes "v_ip st = int n" "\<not> in_branch_delay_slots st" "in_thrsw_delay_slots st \<longleftrightarrow> w"
    and "v_last_thrsw_ip st = int n - 1 \<longleftrightarrow> p" "v_last_thrsw_found st \<longleftrightarrow> f"
  shows "validate_thrsw st i =
    (if \<not> thrsw (sig i) then Inr st
     else let st = st\<lparr>v_thrend_found := v_thrend_found st \<or> f\<rparr> in
       if p then if f then Inl (int n, ''Two last-THRSW signals'') else Inr (st\<lparr>v_last_thrsw_found := True\<rparr>)
       else if w then Inl (int n, ''THRSW too close to another THRSW.'')
       else Inr (st\<lparr>v_thrsw_count := v_thrsw_count st + 1, v_last_thrsw_ip := int n\<rparr>))"
proof (cases f)
  case True
  then show ?thesis using assms
    by (simp add: validate_thrsw_def fail_simps Let_def in_thrsw_delay_slots_def)
next
  case False
  have "st\<lparr>v_thrend_found := v_thrend_found st\<rparr> = st" by simp
  with False show ?thesis using assms by (simp add: validate_thrsw_def fail_simps Let_def)
qed

lemma thrsw_result:
  assumes "validate_inv single is n st" "alu_at is n"
  shows "if switch_ok single is n
         then validate_thrsw (after_hazards st (is ! n)) (is ! n)
                = Inr (after_thrsw single is n (after_hazards st (is ! n)))
         else \<exists>msg. validate_thrsw (after_hazards st (is ! n)) (is ! n) = Inl (int n, msg)"
proof -
  let ?st = "after_hazards st (is ! n)"
  note inv = validate_invD [OF assms(1)]
  have st: "v_ip ?st = int n" "\<not> in_branch_delay_slots ?st" "in_thrsw_delay_slots ?st \<longleftrightarrow> after_switch is n"
    "v_last_thrsw_ip ?st = int n - 1 \<longleftrightarrow> 0 < n \<and> switch_at is (n - 1)"
    "v_last_thrsw_found ?st \<longleftrightarrow> last_found single is n"
    using inv by (simp_all add: after_hazards_def in_branch_delay_slots_def in_thrsw_delay_slots_def)
  have t: "thrsw (sig (is ! n)) \<longleftrightarrow> thrsw_at is n" using assms(2) by (simp add: thrsw_at_def)
  show ?thesis
    unfolding validate_thrsw_cases [OF st] switch_ok_def after_thrsw_def t Let_def by simp
qed

lemma ex_below_Suc: "(\<exists>k < Suc n. P k) \<longleftrightarrow> (\<exists>k < n. P k) \<or> P n"
  by (auto simp: less_Suc_eq)

lemma thrend_result:
  assumes "validate_inv single is n st" "alu_at is n"
  defines "st' \<equiv> after_thrsw single is n (after_hazards st (is ! n))"
  shows "if thrend_ok d single is n then validate_thrend d st' (is ! n) = Inr st'
         else \<exists>msg. validate_thrend d st' (is ! n) = Inl (int n, msg)"
proof -
  note inv = validate_invD [OF assms(1)]
  have le: "(\<exists>k \<le> n. thrend_at single is k) \<longleftrightarrow> (\<exists>k < n. thrend_at single is k) \<or> thrend_at single is n"
    using ex_below_Suc by (simp only: less_Suc_eq_le)
  have f: "v_thrend_found st' \<longleftrightarrow> (\<exists>k \<le> n. thrend_at single is k)"
    unfolding le using inv(9) by (simp add: st'_def after_thrsw_def after_hazards_def Let_def thrend_at_def)
  have ip: "v_last_thrsw_ip st' \<le> int n" "v_ip st' = int n"
    using inv(1,7) by (simp_all add: st'_def after_thrsw_def after_hazards_def Let_def)
  have t: "itype (is ! n) = V3D_QPU_INSTR_TYPE_ALU" using assms(2) by (simp add: alu_at_def)
  show ?thesis
    using ip t unfolding validate_thrend_def thrend_ok_def rf_write_def fail_simps Let_def f by auto
qed

text \<open>In a program that passes, a thread switch starts a switch or marks the last one.\<close>

lemma switch_or_mark:
  assumes "\<And>k. k \<le> n \<Longrightarrow> switch_ok single is k" "thrsw_at is n"
  shows "switch_at is n \<or> marks_last is n"
  using assms
proof (induction n)
  case 0
  then show ?case by (simp add: switch_at_def)
next
  case (Suc n)
  show ?case
  proof (rule ccontr)
    assume c: "\<not> ?thesis"
    then have t: "thrsw_at is n" and no: "\<not> switch_at is n"
      using Suc.prems(2) by (auto simp: switch_at_def marks_last_def)
    then have "marks_last is n" using Suc.IH Suc.prems(1) by auto
    then have "0 < n" "switch_at is (n - 1)" by (auto simp: marks_last_def)
    then have "after_switch is (Suc n)" unfolding after_switch_def by (intro exI [of _ "n - 1"]) auto
    then show False using Suc.prems no by (force simp: switch_ok_def)
  qed
qed

lemma switch_cases:
  assumes "\<And>k. k < n \<Longrightarrow> instr_ok d single is k" "switch_ok single is n"
  shows "switch_at is n \<longleftrightarrow> thrsw_at is n \<and> \<not> (0 < n \<and> switch_at is (n - 1))"
proof -
  have "switch_ok single is k" if "k \<le> n" for k
    using assms that by (cases "k = n") (auto simp: instr_ok_def switch_ok_def thrsw_at_def)
  then show ?thesis
    using switch_or_mark [of n single "is"] by (auto simp: marks_last_def switch_at_def)
qed

lemma card_below_Suc:
  "card {k. k < Suc n \<and> P k} = card {k. k < n \<and> P k} + of_bool (P n)"
proof (cases "P n")
  case True
  then have "{k. k < Suc n \<and> P k} = insert n {k. k < n \<and> P k}" by (auto simp: less_Suc_eq)
  then show ?thesis using True by simp
next
  case False
  then have "{k. k < Suc n \<and> P k} = {k. k < n \<and> P k}" by (auto simp: less_Suc_eq)
  then show ?thesis using False by simp
qed

lemma last_found_Suc: "last_found single is (Suc n) \<longleftrightarrow> last_found single is n \<or> marks_last is n"
  by (simp add: last_found_def ex_below_Suc)

lemma sfu_ip_ok_Suc:
  "\<not> sfu_at is n \<Longrightarrow> sfu_ip_ok is n l \<Longrightarrow> sfu_ip_ok is (Suc n) l"
  "sfu_at is n \<Longrightarrow> sfu_ip_ok is (Suc n) (int n)"
  by (auto simp: sfu_ip_ok_def)

lemma thrsw_ip_ok_Suc:
  "\<not> switch_at is n \<Longrightarrow> thrsw_ip_ok is n l \<Longrightarrow> thrsw_ip_ok is (Suc n) l"
  "switch_at is n \<Longrightarrow> thrsw_ip_ok is (Suc n) (int n)"
  by (auto simp: thrsw_ip_ok_def less_Suc_eq)

lemmas inv_Suc = sfu_ip_ok_Suc thrsw_ip_ok_Suc last_found_Suc ex_below_Suc card_below_Suc

definition next_inst :: "v3d_qpu_instr \<Rightarrow> v3d_qpu_validate_state \<Rightarrow> v3d_qpu_validate_state" where
  "next_inst i st = st\<lparr>v_last := Some i, v_ip := v_ip st + 1\<rparr>"

lemma inv_skip:
  assumes "validate_inv single is n st" "\<not> alu_at is n"
  shows "validate_inv single is (Suc n) (next_inst (is ! n) st)"
proof -
  have no: "\<not> sfu_at is n" "\<not> switch_at is n" "\<not> marks_last is n" "\<not> thrend_at single is n"
    using assms(2) by (simp_all add: sfu_at_def switch_at_def marks_last_def thrend_at_def thrsw_at_def)
  show ?thesis
    using assms(1) unfolding validate_inv_def by (simp add: next_inst_def no inv_Suc)
qed

lemma inv_step:
  assumes "validate_inv single is n st" "alu_at is n" "switch_ok single is n"
    and "\<And>k. k < n \<Longrightarrow> instr_ok d single is k"
  shows "validate_inv single is (Suc n)
           (next_inst (is ! n) (after_thrsw single is n (after_hazards st (is ! n))))"
proof -
  have sfu: "magic_writes v3d_qpu_magic_waddr_is_sfu (is ! n) \<noteq> 0 \<longleftrightarrow> sfu_at is n"
    using assms(2) by (simp add: sfu_at_def)
  note sw = switch_cases [OF assms(4,3)]
  define p where "p \<longleftrightarrow> 0 < n \<and> switch_at is (n - 1)"
  have facts: "switch_at is n \<longleftrightarrow> thrsw_at is n \<and> \<not> p" "marks_last is n \<longleftrightarrow> thrsw_at is n \<and> p"
    "thrend_at single is n \<longleftrightarrow> thrsw_at is n \<and> last_found single is n"
    using sw by (auto simp: p_def marks_last_def thrend_at_def)
  show ?thesis
    using assms(1) unfolding validate_inv_def after_thrsw_def after_hazards_def sfu p_def [symmetric]
    by (cases "thrsw_at is n"; cases p; cases "sfu_at is n")
       (simp_all add: next_inst_def facts inv_Suc Let_def)
qed

section \<open>The verdict on a program\<close>

lemma inst_result:
  assumes "validate_inv single is n st" "\<And>k. k < n \<Longrightarrow> instr_ok d single is k"
  shows "if instr_ok d single is n
         then \<exists>st'. qpu_validate_inst d st (is ! n) = Inr st' \<and> validate_inv single is (Suc n) (next_inst (is ! n) st')
         else \<exists>msg. qpu_validate_inst d st (is ! n) = Inl (int n, msg)"
proof (cases "alu_at is n")
  case False
  then show ?thesis using inv_skip [OF assms(1)]
    by (simp add: instr_ok_def qpu_validate_inst_def alu_at_def)
next
  case True
  let ?h = "after_hazards st (is ! n)"
  let ?s = "after_thrsw single is n ?h"
  have t: "itype (is ! n) = V3D_QPU_INSTR_TYPE_ALU" using True by (simp add: alu_at_def)
  have b: "validate_branch ?s (is ! n) = Inr ?s" by (simp add: validate_branch_def t)
  note h = hazards_result [OF assms(1) True, of d]
  note w = thrsw_result [OF assms(1) True]
  note e = thrend_result [OF assms(1) True, of d]
  show ?thesis
  proof (cases "uniform_ok is n \<and> sfu_ok d is n")
    case False
    then show ?thesis using h True t by (auto simp: qpu_validate_inst_def instr_ok_def)
  next
    case hz: True
    show ?thesis
    proof (cases "switch_ok single is n")
      case False
      then show ?thesis using h w hz True t by (auto simp: qpu_validate_inst_def instr_ok_def)
    next
      case sw: True
      show ?thesis using h w e hz sw True t b inv_step [OF assms(1) True sw assms(2)]
        by (cases "thrend_ok d single is n") (auto simp: qpu_validate_inst_def instr_ok_def)
    qed
  qed
qed

lemma block_result:
  assumes "validate_inv single is n st" "\<And>k. k < n \<Longrightarrow> instr_ok d single is k" "drop n is = xs"
    "n \<le> length is"
  shows "(\<exists>st'. qpu_validate_block d st xs = Inr st' \<and> validate_inv single is (length is) st'
            \<and> (\<forall>k < length is. instr_ok d single is k))
       \<or> (\<exists>m msg. qpu_validate_block d st xs = Inl (int m, msg) \<and> m < length is
            \<and> \<not> instr_ok d single is m \<and> (\<forall>k < m. instr_ok d single is k))"
  using assms
proof (induction xs arbitrary: n st)
  case Nil
  then show ?case by auto
next
  case (Cons x xs)
  have "n < length is" using Cons.prems(3) by (cases "n < length is") auto
  moreover have "is ! n = x" using Cons.prems(3) by (rule nth_via_drop)
  moreover have "drop (Suc n) is = xs" using Cons.prems(3) by (metis drop_Suc list.sel(3) tl_drop)
  ultimately have n: "n < length is" "is ! n = x" "drop (Suc n) is = xs" by auto
  show ?case
  proof (cases "instr_ok d single is n")
    case False
    then show ?thesis using inst_result [OF Cons.prems(1,2)] Cons.prems(2) n by auto
  next
    case True
    then obtain st' where st': "qpu_validate_inst d st x = Inr st'"
        "validate_inv single is (Suc n) (next_inst x st')"
      using inst_result [OF Cons.prems(1,2)] n by auto
    have "instr_ok d single is k" if "k < Suc n" for k
      using that True Cons.prems(2) by (auto simp: less_Suc_eq)
    from Cons.IH [OF st'(2) this n(3)] n(1) show ?thesis
      using st'(1) by (simp add: next_inst_def)
  qed
qed

lemma and_then_assoc: "and_then (and_then r f) g = and_then r (\<lambda>x. and_then (f x) g)"
  by (cases r) simp_all

lemma block_append:
  "qpu_validate_block d st (xs @ ys) =
     and_then (qpu_validate_block d st xs) (\<lambda>st. qpu_validate_block d st ys)"
  by (induction xs arbitrary: st) (simp_all add: and_then_assoc)

lemma blocks_concat: "validate_blocks d st bs = qpu_validate_block d st (concat bs)"
  by (induction bs arbitrary: st) (simp_all add: block_append)

lemma start_inv: "validate_inv (\<not> c_last_thrsw c) is 0 (validate_start c)"
  by (simp add: validate_inv_def validate_start_def sfu_ip_ok_def thrsw_ip_ok_def last_found_def)

lemma validate_outcome:
  fixes c
  defines "d \<equiv> c_devinfo c" and "single \<equiv> \<not> c_last_thrsw c" and "is \<equiv> concat (c_blocks c)"
  shows "(qpu_validate True c = Inr () \<and> program_ok d single is)
       \<or> (\<exists>n msg. qpu_validate True c = Inl (int n, msg) \<and> fails_at d single is n)"
proof -
  have v: "validate_blocks (c_devinfo c) (validate_start c) (c_blocks c) = qpu_validate_block d (validate_start c) is"
    by (simp add: blocks_concat d_def is_def)
  consider st where "qpu_validate_block d (validate_start c) is = Inr st" "validate_inv single is (length is) st"
      "\<forall>k < length is. instr_ok d single is k"
    | m msg where "qpu_validate_block d (validate_start c) is = Inl (int m, msg)" "m < length is"
      "\<not> instr_ok d single is m" "\<forall>k < m. instr_ok d single is k"
    using block_result [OF start_inv [of c "is"], of d "is"] unfolding single_def by auto
  then show ?thesis
  proof cases
    case 1
    have f: "v_ip st = int (length is)" "v_last_thrsw_found st \<longleftrightarrow> last_found single is (length is)"
      "v_thrend_found st \<longleftrightarrow> (\<exists>k < length is. thrend_at single is k)"
      "v_thrsw_count st = int (card {k. k < length is \<and> switch_at is k})"
      using 1(2) by (simp_all add: validate_inv_def)
    have e: "end_ok single is \<longleftrightarrow> \<not> (1 < v_thrsw_count st \<and> \<not> v_last_thrsw_found st) \<and> v_thrend_found st"
      by (auto simp: end_ok_def f)
    show ?thesis
      using 1(3) by (cases "v_thrend_found st")
        (auto simp: qpu_validate_def v 1(1) fail_simps program_ok_def fails_at_def e f(1))
  next
    case 2
    then show ?thesis by (auto simp: qpu_validate_def v fails_at_def)
  qed
qed

lemma fails_at_unique: "fails_at d single is m \<Longrightarrow> fails_at d single is n \<Longrightarrow> m = n"
  by (cases m n rule: linorder_cases) (auto simp: fails_at_def split: if_splits)

lemma fails_at_not_ok: "fails_at d single is n \<Longrightarrow> \<not> program_ok d single is"
  by (auto simp: fails_at_def program_ok_def split: if_splits)

text \<open>
  C25. In a debug build the validator accepts exactly the programs that satisfy the restrictions,
  stated on the positions of their instructions; the others it rejects at the first instruction
  that breaks one, or at the end when the program as a whole does.
\<close>

theorem qpu_validate_exact:
  "(qpu_validate True c = Inr () \<longleftrightarrow>
      program_ok (c_devinfo c) (\<not> c_last_thrsw c) (concat (c_blocks c)))
 \<and> ((\<exists>msg. qpu_validate True c = Inl (int n, msg)) \<longleftrightarrow>
      fails_at (c_devinfo c) (\<not> c_last_thrsw c) (concat (c_blocks c)) n)"
proof -
  let ?d = "c_devinfo c" and ?single = "\<not> c_last_thrsw c" and ?is = "concat (c_blocks c)"
  consider "qpu_validate True c = Inr ()" "program_ok ?d ?single ?is"
    | m msg where "qpu_validate True c = Inl (int m, msg)" "fails_at ?d ?single ?is m"
    using validate_outcome [of c] by blast
  then show ?thesis
  proof cases
    case 1
    then show ?thesis using fails_at_not_ok [of ?d ?single ?is n] by auto
  next
    case 2
    then show ?thesis
      using fails_at_not_ok [OF 2(2)] fails_at_unique [OF 2(2), of n] by auto
  qed
qed

section \<open>Checks that cannot fire\<close>

definition dead_messages :: "string list" where
  "dead_messages = [''THRSW in a branch delay slot.'', ''branch in a branch delay slot.'',
     ''branch in a THRSW delay slot.'', ''TMUWT in last instruction'']"

definition no_branch_yet :: "v3d_qpu_validate_state \<Rightarrow> bool" where
  "no_branch_yet st \<longleftrightarrow> 0 \<le> v_ip st \<and> v_last_branch_ip st = - 10 \<and> v_last_thrsw_ip st \<le> v_ip st"

definition keeps_quiet :: "failure + v3d_qpu_validate_state \<Rightarrow> bool" where
  "keeps_quiet r \<longleftrightarrow> (case r of Inl (ip, msg) \<Rightarrow> msg \<notin> set dead_messages | Inr st \<Rightarrow> no_branch_yet st)"

lemma keeps_quiet_and_then:
  "keeps_quiet r \<Longrightarrow> (\<And>st. no_branch_yet st \<Longrightarrow> keeps_quiet (f st)) \<Longrightarrow> keeps_quiet (and_then r f)"
  by (cases r) (auto simp: keeps_quiet_def)

lemma keeps_quiet_fail_if:
  "msg \<notin> set dead_messages \<Longrightarrow> keeps_quiet r \<Longrightarrow> keeps_quiet (fail_if b st msg r)"
  by (simp add: keeps_quiet_def fail_simps)

lemma keeps_quiet_Inr: "no_branch_yet st \<Longrightarrow> keeps_quiet (Inr st)"
  by (simp add: keeps_quiet_def)

lemma hazards_quiet: "no_branch_yet st \<Longrightarrow> keeps_quiet (validate_hazards d st i)"
  unfolding validate_hazards_def Let_def
  by (intro keeps_quiet_fail_if keeps_quiet_Inr) (simp_all add: dead_messages_def no_branch_yet_def)

lemma thrsw_quiet: "no_branch_yet st \<Longrightarrow> keeps_quiet (validate_thrsw st i)"
  by (auto simp: validate_thrsw_def Let_def keeps_quiet_def fail_simps dead_messages_def no_branch_yet_def
      in_branch_delay_slots_def)

lemma thrend_quiet: "no_branch_yet st \<Longrightarrow> keeps_quiet (validate_thrend d st i)"
  by (auto simp: validate_thrend_def Let_def keeps_quiet_def fail_simps dead_messages_def no_branch_yet_def)

lemma inst_quiet: "no_branch_yet st \<Longrightarrow> keeps_quiet (qpu_validate_inst d st i)"
  unfolding qpu_validate_inst_def
  by (auto intro!: keeps_quiet_and_then hazards_quiet thrsw_quiet thrend_quiet keeps_quiet_Inr
      simp: validate_branch_def)

lemma block_quiet: "no_branch_yet st \<Longrightarrow> keeps_quiet (qpu_validate_block d st xs)"
proof (induction xs arbitrary: st)
  case Nil
  then show ?case by (simp add: keeps_quiet_Inr)
next
  case (Cons x xs)
  then show ?case by (auto intro!: keeps_quiet_and_then inst_quiet Cons.IH simp: no_branch_yet_def)
qed

lemma validate_quiet:
  assumes "qpu_validate debug c = Inl (ip, msg)"
  shows "msg \<notin> set dead_messages"
proof -
  have "keeps_quiet (validate_blocks (c_devinfo c) (validate_start c) (c_blocks c))"
    unfolding blocks_concat by (rule block_quiet) (simp add: no_branch_yet_def validate_start_def)
  with assms show ?thesis
    by (cases "validate_blocks (c_devinfo c) (validate_start c) (c_blocks c)")
       (auto simp: qpu_validate_def keeps_quiet_def fail_simps dead_messages_def split: if_splits)
qed

definition nop_instr :: v3d_qpu_instr where
  "nop_instr = \<lparr>itype = V3D_QPU_INSTR_TYPE_ALU, sig = no_sig, sig_addr = 0, sig_magic = False,
     raddr_a = 0, raddr_b = 0, flags = no_flags,
     alu = \<lparr>add = \<lparr>alu_op = V3D_QPU_A_NOP, alu_a = V3D_QPU_MUX_R0, alu_b = V3D_QPU_MUX_R0, alu_waddr = 6,
       magic_write = True, output_pack = V3D_QPU_PACK_NONE, a_unpack = V3D_QPU_UNPACK_NONE,
       b_unpack = V3D_QPU_UNPACK_NONE\<rparr>,
       mul = \<lparr>alu_op = V3D_QPU_M_NOP, alu_a = V3D_QPU_MUX_R0, alu_b = V3D_QPU_MUX_R0, alu_waddr = 6,
       magic_write = True, output_pack = V3D_QPU_PACK_NONE, a_unpack = V3D_QPU_UNPACK_NONE,
       b_unpack = V3D_QPU_UNPACK_NONE\<rparr>\<rparr>,
     branch = \<lparr>br_cond = V3D_QPU_BRANCH_COND_ALWAYS, br_msfign = V3D_QPU_MSFIGN_NONE,
       bdi = V3D_QPU_BRANCH_DEST_REL, bdu = 0, br_ub = False, br_raddr_a = 0, br_offset = 0\<rparr>\<rparr>"

text \<open>The end of a thread, with two branches in its delay slots and in each other's.\<close>

definition branches_program :: v3d_compile where
  "branches_program = \<lparr>c_devinfo = \<lparr>ver = 41\<rparr>, c_last_thrsw = False,
     c_blocks = [[nop_instr\<lparr>sig := THRSW no_sig\<rparr>, nop_instr\<lparr>itype := V3D_QPU_INSTR_TYPE_BRANCH\<rparr>,
                  nop_instr\<lparr>itype := V3D_QPU_INSTR_TYPE_BRANCH\<rparr>]]\<rparr>"

text \<open>
  C26. \<open>qpu_validate_inst\<close> returns early on branches and compares the last switch with the current
  instruction the wrong way round: the restrictions on branches and on \<open>TMUWT\<close> are never enforced.
\<close>

theorem branch_checks_dead:
  "qpu_validate debug c \<noteq> Inl (ip, ''THRSW in a branch delay slot.'')
 \<and> qpu_validate debug c \<noteq> Inl (ip, ''branch in a branch delay slot.'')
 \<and> qpu_validate debug c \<noteq> Inl (ip, ''branch in a THRSW delay slot.'')
 \<and> qpu_validate debug c \<noteq> Inl (ip, ''TMUWT in last instruction'')
 \<and> qpu_validate True branches_program = Inr ()"
proof -
  have "qpu_validate True branches_program = Inr ()"
    by (simp add: branches_program_def nop_instr_def no_sig_def THRSW_def qpu_validate_def validate_start_def
        qpu_validate_inst_def validate_hazards_def validate_thrsw_def validate_thrend_def validate_branch_def
        magic_writes_def unit_accesses_def last_sig_def fail_simps in_thrsw_delay_slots_def
        in_branch_delay_slots_def v3d_qpu_sig_writes_address_def Let_def)
  moreover have "qpu_validate debug c \<noteq> Inl (ip, m)" if "m \<in> set dead_messages" for m
    using validate_quiet that by blast
  ultimately show ?thesis by (simp add: dead_messages_def)
qed

section \<open>Validating what the words say\<close>

text \<open>Two instructions the validator cannot tell apart.\<close>

definition validates_same :: "v3d_device_info \<Rightarrow> v3d_qpu_instr \<Rightarrow> v3d_qpu_instr \<Rightarrow> bool" where
  "validates_same d x y \<longleftrightarrow> itype y = itype x \<and> sig y = sig x \<and>
     (itype x = V3D_QPU_INSTR_TYPE_ALU \<longrightarrow>
        (\<forall>kind. magic_writes kind y = magic_writes kind x)
      \<and> alu_op (add (alu y)) = alu_op (add (alu x)) \<and> alu_op (mul (alu y)) = alu_op (mul (alu x))
      \<and> magic_write (add (alu y)) = magic_write (add (alu x))
      \<and> magic_write (mul (alu y)) = magic_write (mul (alu x))
      \<and> v3d_qpu_uses_mux y V3D_QPU_MUX_R4 = v3d_qpu_uses_mux x V3D_QPU_MUX_R4
      \<and> v3d_qpu_writes_r4 d y = v3d_qpu_writes_r4 d x)"

definition with_last :: "v3d_qpu_instr option \<Rightarrow> v3d_qpu_validate_state \<Rightarrow> v3d_qpu_validate_state" where
  "with_last l st = st\<lparr>v_last := l\<rparr>"

lemma with_last_simps [simp]:
  "v_ip (with_last l st) = v_ip st" "v_last_sfu_write (with_last l st) = v_last_sfu_write st"
  "v_last_branch_ip (with_last l st) = v_last_branch_ip st" "v_last_thrsw_ip (with_last l st) = v_last_thrsw_ip st"
  "v_last_thrsw_found (with_last l st) = v_last_thrsw_found st" "v_thrend_found (with_last l st) = v_thrend_found st"
  "v_thrsw_count (with_last l st) = v_thrsw_count st" "v_last (with_last l st) = l"
  "in_thrsw_delay_slots (with_last l st) = in_thrsw_delay_slots st"
  "in_branch_delay_slots (with_last l st) = in_branch_delay_slots st"
  by (simp_all add: with_last_def in_thrsw_delay_slots_def in_branch_delay_slots_def)

lemma map_sum_fail_if:
  "map_sum id g (fail_if b st msg r) = fail_if b st msg (map_sum id g r)"
  by (simp add: fail_simps)

lemma fail_if_with_last: "fail_if b (with_last l st) msg r = fail_if b st msg r"
  by (simp add: fail_simps)

lemma last_sig_with_last:
  "map_option sig l = map_option sig (v_last st) \<Longrightarrow> last_sig f (with_last l st) = last_sig f st"
  by (cases l; cases "v_last st") (auto simp: last_sig_def)

lemma with_last_sfu: "(with_last l st)\<lparr>v_last_sfu_write := k\<rparr> = with_last l (st\<lparr>v_last_sfu_write := k\<rparr>)"
  by (simp add: with_last_def)

lemma with_last_next:
  "(with_last l st)\<lparr>v_last := Some y, v_ip := n\<rparr> = with_last (Some y) (st\<lparr>v_last := Some x, v_ip := n\<rparr>)"
  by (cases st) (simp add: with_last_def)

lemma hazards_same:
  assumes "validates_same d x y" "itype x = V3D_QPU_INSTR_TYPE_ALU" "map_option sig l = map_option sig (v_last st)"
  shows "validate_hazards d (with_last l st) y = map_sum id (with_last l) (validate_hazards d st x)"
proof -
  have e: "sig y = sig x" "\<And>kind. magic_writes kind y = magic_writes kind x"
    "v3d_qpu_uses_mux y V3D_QPU_MUX_R4 = v3d_qpu_uses_mux x V3D_QPU_MUX_R4"
    "v3d_qpu_writes_r4 d y = v3d_qpu_writes_r4 d x"
    using assms(1,2) by (simp_all add: validates_same_def)
  show ?thesis
    unfolding validate_hazards_def Let_def unit_accesses_def e last_sig_with_last [OF assms(3)] map_sum_fail_if
      fail_if_with_last with_last_simps with_last_sfu
    by (simp only: map_sum.simps if_distrib [of "with_last l"])
qed

lemma thrsw_same:
  assumes "sig y = sig x"
  shows "validate_thrsw (with_last l st) y = map_sum id (with_last l) (validate_thrsw st x)"
proof -
  have u: "(with_last l st)\<lparr>v_thrend_found := b\<rparr> = with_last l (st\<lparr>v_thrend_found := b\<rparr>)"
    "(with_last l st)\<lparr>v_last_thrsw_found := b\<rparr> = with_last l (st\<lparr>v_last_thrsw_found := b\<rparr>)"
    "(with_last l st)\<lparr>v_thrsw_count := n, v_last_thrsw_ip := k\<rparr> = with_last l (st\<lparr>v_thrsw_count := n, v_last_thrsw_ip := k\<rparr>)"
    for st b n k by (simp_all add: with_last_def)
  show ?thesis
    by (simp add: validate_thrsw_def assms u Let_def map_sum_fail_if fail_if_with_last)
qed

lemma thrend_same:
  assumes "validates_same d x y"
  shows "validate_thrend d (with_last l st) y = map_sum id (with_last l) (validate_thrend d st x)"
  using assms by (auto simp: validate_thrend_def validates_same_def Let_def map_sum_fail_if fail_if_with_last)

lemma map_sum_and_then:
  "(\<And>st. g (with_last l st) = map_sum id (with_last l) (f st)) \<Longrightarrow>
   and_then (map_sum id (with_last l) r) g = map_sum id (with_last l) (and_then r f)"
  by (cases r) simp_all

lemma inst_same:
  assumes "validates_same d x y" "map_option sig l = map_option sig (v_last st)"
  shows "qpu_validate_inst d (with_last l st) y = map_sum id (with_last l) (qpu_validate_inst d st x)"
proof (cases "itype x = V3D_QPU_INSTR_TYPE_ALU")
  case True
  have e: "itype y = itype x" "sig y = sig x" using assms(1) by (simp_all add: validates_same_def)
  have "qpu_validate_inst d (with_last l st) y = and_then (map_sum id (with_last l) (validate_hazards d st x))
     (\<lambda>st. and_then (validate_thrsw st y) (\<lambda>st. and_then (validate_thrend d st y) (\<lambda>st. validate_branch st y)))"
    using True e hazards_same [OF assms(1) True assms(2)] by (simp add: qpu_validate_inst_def)
  also have "\<dots> = map_sum id (with_last l) (and_then (validate_hazards d st x)
     (\<lambda>st. and_then (validate_thrsw st x) (\<lambda>st. and_then (validate_thrend d st x) (\<lambda>st. validate_branch st x))))"
    using True e
    by (intro map_sum_and_then) (simp add: thrsw_same [OF e(2)] thrend_same [OF assms(1)] map_sum_and_then validate_branch_def)
  finally show ?thesis using True by (simp add: qpu_validate_inst_def)
next
  case False
  then show ?thesis using assms(1) by (simp add: qpu_validate_inst_def validates_same_def)
qed

lemma block_same:
  assumes "list_all2 (validates_same d) xs ys" "map_option sig l = map_option sig (v_last st)"
  shows "\<exists>k. qpu_validate_block d (with_last l st) ys = map_sum id (with_last k) (qpu_validate_block d st xs)"
  using assms
proof (induction xs ys arbitrary: l st rule: list_all2_induct)
  case Nil
  then show ?case by auto
next
  case (Cons x xs y ys)
  show ?case
  proof (cases "qpu_validate_inst d st x")
    case (Inl e)
    then show ?thesis using inst_same [OF Cons(1) Cons.prems] by simp
  next
    case (Inr st')
    let ?next = "st'\<lparr>v_last := Some x, v_ip := v_ip st' + 1\<rparr>"
    have "qpu_validate_block d (with_last l st) (y # ys) = qpu_validate_block d (with_last (Some y) ?next) ys"
      using inst_same [OF Cons(1) Cons.prems] Inr by (simp add: with_last_next [of _ _ _ _ x])
    moreover have "map_option sig (Some y) = map_option sig (v_last ?next)"
      using Cons(1) by (simp add: validates_same_def)
    ultimately show ?thesis using Inr Cons.IH [of "Some y" ?next] by simp
  qed
qed

lemma concat_all2: "list_all2 (list_all2 R) xss yss \<Longrightarrow> list_all2 R (concat xss) (concat yss)"
  by (induction rule: list_all2_induct) (simp_all add: list_all2_appendI)

lemma validate_same:
  assumes "list_all2 (list_all2 (validates_same (c_devinfo c))) (c_blocks c) blocks"
  shows "qpu_validate debug (c\<lparr>c_blocks := blocks\<rparr>) = qpu_validate debug c"
proof -
  let ?d = "c_devinfo c" and ?xs = "concat (c_blocks c)" and ?st = "validate_start c"
  have "with_last None ?st = ?st" by (simp add: with_last_def validate_start_def)
  moreover have "map_option sig None = map_option sig (v_last ?st)" by (simp add: validate_start_def)
  ultimately obtain k where "qpu_validate_block ?d ?st (concat blocks) = map_sum id (with_last k) (qpu_validate_block ?d ?st ?xs)"
    using block_same [OF concat_all2 [OF assms], of None ?st] by metis
  moreover have "validate_start (c\<lparr>c_blocks := blocks\<rparr>) = ?st" by (simp add: validate_start_def)
  ultimately show ?thesis
    by (cases "qpu_validate_block ?d ?st ?xs") (simp_all add: qpu_validate_def blocks_concat fail_if_with_last fail_simps)
qed

text \<open>What packing and unpacking make of an instruction; \<open>i0\<close> is the structure unpacked into.\<close>

definition redecode :: "v3d_device_info \<Rightarrow> v3d_qpu_instr \<Rightarrow> v3d_qpu_instr \<Rightarrow> v3d_qpu_instr option" where
  "redecode d i0 i = Option.bind (v3d_qpu_instr_pack d i) (\<lambda>w. v3d_qpu_instr_unpack d w i0)"

definition encodable :: "v3d_device_info \<Rightarrow> v3d_qpu_instr \<Rightarrow> v3d_qpu_instr \<Rightarrow> bool" where
  "encodable d i0 i \<longleftrightarrow> v3d_qpu_instr_pack d i \<noteq> None \<and>
     (if itype i = V3D_QPU_INSTR_TYPE_ALU
      then alu_ok d i \<and> \<not> (stvpm (alu_op (add (alu i))) \<and> magic_write (add (alu i)))
      else branch_ok (branch i) \<and> sig i = sig i0)"

lemma redecode_same:
  assumes "encodable d i0 i"
  shows "\<exists>y. redecode d i0 i = Some y \<and> validates_same d i y"
proof (cases "itype i = V3D_QPU_INSTR_TYPE_ALU")
  case True
  then have ok: "alu_ok d i" "stvpm (alu_op (add (alu i))) \<longrightarrow> \<not> magic_write (add (alu i))"
    using assms by (auto simp: encodable_def)
  obtain w where w: "v3d_qpu_instr_pack d i = Some w" using assms by (auto simp: encodable_def)
  then obtain y where y: "v3d_qpu_instr_unpack d w i0 = Some y" "alu_same d i y"
    using alu_unpack_packed [OF w True ok(1)] by blast
  have t: "itype y = V3D_QPU_INSTR_TYPE_ALU" "sig y = sig i"
    and addr: "v3d_qpu_sig_writes_address d (sig i) \<Longrightarrow> sig_addr y = sig_addr i \<and> sig_magic y = sig_magic i"
    and a: "add_same (add (alu i)) (add (alu y))" and m: "mul_same (mul (alu i)) (mul (alu y))"
    using y(2) by (auto simp: alu_same_def)
  note facts = t True add_same_op [OF a] mul_same_op [OF m] add_same_magic [OF a ok(2)] mul_same_magic [OF m]
  have "v3d_qpu_writes_r4 d y = v3d_qpu_writes_r4 d i"
    using facts addr by (auto simp: v3d_qpu_writes_r4_def)
  moreover have "set (add_operands (add (alu y))) = set (add_operands (add (alu i)))"
    "mul_operands (mul (alu y)) = mul_operands (mul (alu i))"
    using a m by (auto simp: add_same_def add_packs_same_def mul_same_def mul_packs_same_def)
  then have "v3d_qpu_uses_mux y V3D_QPU_MUX_R4 = v3d_qpu_uses_mux i V3D_QPU_MUX_R4"
    by (simp add: uses_mux_operands)
  moreover have "magic_writes kind y = magic_writes kind i" for kind
    using facts by (cases "magic_write (add (alu i))") (simp_all add: magic_writes_def Let_def)
  ultimately show ?thesis
    using facts w y(1) by (auto simp: redecode_def validates_same_def)
next
  case False
  then have b: "itype i = V3D_QPU_INSTR_TYPE_BRANCH" by (cases "itype i") auto
  then show ?thesis
    using branch_unpack_packed [OF b, of d i0] assms by (auto simp: encodable_def redecode_def validates_same_def)
qed

definition redecode_block :: "v3d_device_info \<Rightarrow> v3d_qpu_instr \<Rightarrow> v3d_qpu_instr list \<Rightarrow> v3d_qpu_instr list" where
  "redecode_block d i0 = List.map_filter (redecode d i0)"

lemma redecode_block_same:
  "list_all (encodable d i0) xs \<Longrightarrow> list_all2 (validates_same d) xs (redecode_block d i0 xs)"
proof (induction xs)
  case Nil
  then show ?case by (simp add: redecode_block_def)
next
  case (Cons x xs)
  then show ?case using redecode_same [of d i0 x] by (auto simp: redecode_block_def map_filter_simps)
qed

text \<open>
  C27. Let every instruction of a program be one the encoding can hold (\<open>encodable\<close>): it packs, and it is an ALU
  instruction that satisfies \<open>alu_ok\<close> and is not an \<open>STVPM\<close> operation with a magic write, or a branch that
  satisfies \<open>branch_ok\<close> and whose signals are those of the structure that is unpacked into, which unpacking a
  branch leaves alone.  Then validating the program that the packed words decode to gives the verdict, with its
  message and position, of validating the program before packing.
\<close>

theorem validate_survives_packing:
  assumes "list_all (list_all (encodable (c_devinfo c) i0)) (c_blocks c)"
  shows "qpu_validate debug (c\<lparr>c_blocks := map (redecode_block (c_devinfo c) i0) (c_blocks c)\<rparr>)
       = qpu_validate debug c"
  using assms by (intro validate_same) (simp add: list_all2_conv_all_nth [of "list_all2 _"] list_all_length [of "list_all _"] redecode_block_same)

lemma nop_packs: "v3d_qpu_instr_pack \<lparr>ver = 41\<rparr> (nop_instr\<lparr>sig := THRSW no_sig\<rparr>) \<noteq> None"
proof -
  have "v3d_qpu_sig_pack \<lparr>ver = 41\<rparr> (THRSW no_sig) = Some 1"
    by (simp add: v3d_qpu_sig_pack_def sig_map_def v41_sig_map_def no_sig_def THRSW_def upt_conv_Cons)
  moreover have "\<not> v3d_qpu_sig_writes_address \<lparr>ver = 41\<rparr> (THRSW no_sig)"
    by (simp add: v3d_qpu_sig_writes_address_def THRSW_def no_sig_def)
  moreover have "find (\<lambda>d. desc_op d = V3D_QPU_A_NOP) add_ops \<noteq> None"
    "find (\<lambda>d. desc_op d = V3D_QPU_M_NOP) mul_ops \<noteq> None"
    by (simp_all add: find_None_iff add_ops_def mul_ops_def desc_sel)
  moreover have "v3d_qpu_flags_pack no_flags = Some 0"
    by (simp add: v3d_qpu_flags_pack_def no_flags_def flags_present_def flags_table_def)
  ultimately show ?thesis
    by (auto simp: nop_instr_def v3d_qpu_instr_pack_def v3d_qpu_instr_pack_alu_def v3d_qpu_add_pack_def
        v3d_qpu_mul_pack_def num_src_simps add_pack_encode_def op_classes add_pack_waddr_def mul_pack_encode_def
        Let_def)
qed

theorem validate_survives_packing_witness:
  "qpu_validate True (branches_program\<lparr>c_blocks :=
       map (redecode_block \<lparr>ver = 41\<rparr> nop_instr) (c_blocks branches_program)\<rparr>)
     = qpu_validate True branches_program"
proof -
  have t: "encodable \<lparr>ver = 41\<rparr> nop_instr (nop_instr\<lparr>sig := THRSW no_sig\<rparr>)"
    using nop_packs by (simp add: encodable_def alu_ok_def nop_instr_def add_ok_def mul_ok_def op_classes
        no_flags_def mul_plain_def v3d_qpu_sig_writes_address_def THRSW_def no_sig_def)
  have b: "encodable \<lparr>ver = 41\<rparr> nop_instr (nop_instr\<lparr>itype := V3D_QPU_INSTR_TYPE_BRANCH\<rparr>)"
    by (simp add: encodable_def nop_instr_def branch_ok_def v3d_qpu_instr_pack_def v3d_qpu_instr_pack_branch_def Let_def)
  have "c_devinfo branches_program = \<lparr>ver = 41\<rparr>" by (simp add: branches_program_def)
  then show ?thesis
    using validate_survives_packing [of branches_program nop_instr True] t b
    by (simp add: branches_program_def)
qed

end
