(* ===== verification/LinkedRing.thy ===== *)
theory LinkedRing
  imports Main
begin

text \<open>
  Circular doubly linked lists with a sentinel, as a predicate on the two pointer functions and the
  list of the elements' addresses: what reading a pointer gives, and that the usual assignments for
  inserting after an element and for removing one do so.
\<close>

text \<open>A doubly linked segment: from \<open>a\<close> the next pointers lead through \<open>xs\<close> to \<open>b\<close>, the others back.\<close>

fun linked :: "(nat \<Rightarrow> nat) \<Rightarrow> (nat \<Rightarrow> nat) \<Rightarrow> nat \<Rightarrow> nat list \<Rightarrow> nat \<Rightarrow> bool" where
  "linked nx pv a [] b \<longleftrightarrow> nx a = b \<and> pv b = a"
| "linked nx pv a (x # xs) b \<longleftrightarrow> nx a = x \<and> pv x = a \<and> linked nx pv x xs b"

lemma linked_append:
  "linked nx pv a (xs @ y # ys) b \<longleftrightarrow> linked nx pv a xs y \<and> linked nx pv y ys b"
  by (induction xs arbitrary: a) auto

lemma linked_cong:
  assumes "linked nx pv a xs b" "\<And>p. p \<in> insert a (set xs) \<Longrightarrow> nx' p = nx p"
    "\<And>p. p \<in> insert b (set xs) \<Longrightarrow> pv' p = pv p"
  shows "linked nx' pv' a xs b"
  using assms by (induction xs arbitrary: a) auto

text \<open>A circular list with the sentinel \<open>h\<close>.\<close>

definition ring :: "(nat \<Rightarrow> nat) \<Rightarrow> (nat \<Rightarrow> nat) \<Rightarrow> nat \<Rightarrow> nat list \<Rightarrow> bool" where
  "ring nx pv h xs \<longleftrightarrow> linked nx pv h xs h \<and> distinct (h # xs)"

lemma ring_distinct: "ring nx pv h xs \<Longrightarrow> distinct (h # xs)"
  by (simp add: ring_def)

lemma ring_cong:
  assumes "ring nx pv h xs" "\<And>p. p \<in> insert h (set xs) \<Longrightarrow> nx' p = nx p \<and> pv' p = pv p"
  shows "ring nx' pv' h xs"
  using assms linked_cong [of nx pv h xs h nx' pv'] by (auto simp: ring_def)

lemma ring_next: "ring nx pv h (us @ p # vs) \<Longrightarrow> nx p = hd (vs @ [h])"
  by (cases vs) (auto simp: ring_def linked_append)

lemma ring_prev: "ring nx pv h (us @ p # vs) \<Longrightarrow> pv p = last (h # us)"
  by (cases us rule: rev_cases) (auto simp: ring_def linked_append)

lemma ring_first: "ring nx pv h xs \<Longrightarrow> nx h = hd (xs @ [h])"
  by (cases xs) (auto simp: ring_def)

lemma ring_last: "ring nx pv h xs \<Longrightarrow> pv h = last (h # xs)"
  by (cases xs rule: rev_cases) (auto simp: ring_def linked_append)

text \<open>The two updates: a new element after one of the list or after the sentinel, and a removal.\<close>

lemma linked_insert_first:
  assumes "linked nx pv a xs b" "q \<notin> set (a # b # xs)" "distinct (a # xs)" "b \<notin> set xs"
  shows "linked (nx(q := nx a, a := q)) (pv(q := a, nx a := q)) a (q # xs) b"
proof (cases xs)
  case Nil
  then show ?thesis using assms by auto
next
  case (Cons y ys)
  have "linked (nx(q := nx a, a := q)) (pv(q := a, nx a := q)) y ys b"
    by (rule linked_cong [of nx pv]) (use assms Cons in auto)
  then show ?thesis using assms Cons by auto
qed

lemma ring_insert_first:
  assumes "ring nx pv h xs" "q \<notin> set (h # xs)"
  shows "ring (nx(q := nx h, h := q)) (pv(q := h, nx h := q)) h (q # xs)"
  using linked_insert_first [of nx pv h xs h q] assms by (auto simp: ring_def)

lemma ring_insert_after:
  assumes "ring nx pv h (us @ p # vs)" "q \<notin> set (h # us @ p # vs)"
  shows "ring (nx(q := nx p, p := q)) (pv(q := p, nx p := q)) h (us @ p # q # vs)"
proof -
  let ?nx = "nx(q := nx p, p := q)" and ?pv = "pv(q := p, nx p := q)"
  have l: "linked nx pv h us p" "linked nx pv p vs h" and d: "distinct (h # us @ p # vs)"
    using assms(1) by (auto simp: ring_def linked_append)
  have "linked ?nx ?pv p (q # vs) h"
    using l(2) d assms(2) by (intro linked_insert_first) auto
  moreover have "linked ?nx ?pv h us p"
  proof (rule linked_cong [OF l(1)])
    fix x assume "x \<in> insert p (set us)"
    moreover have "nx p \<in> set (vs @ [h])" using ring_next [OF assms(1)] by (cases vs) auto
    ultimately show "?pv x = pv x" using d assms(2) by auto
  qed (use d assms(2) in auto)
  ultimately show ?thesis using d assms(2) by (auto simp: ring_def linked_append)
qed

lemma ring_remove:
  assumes "ring nx pv h (us @ q # vs)"
  shows "ring (nx(pv q := nx q)) (pv(nx q := pv q)) h (us @ vs)"
proof -
  let ?nx = "nx(pv q := nx q)" and ?pv = "pv(nx q := pv q)"
  have l: "linked nx pv h us q" "linked nx pv q vs h" and d: "distinct (h # us @ q # vs)"
    using assms by (auto simp: ring_def linked_append)
  note n = ring_next [OF assms] and p = ring_prev [OF assms]
  have before: "pv q \<in> insert h (set us)" using p last_in_set [of us] by auto
  have "linked ?nx ?pv h (us @ vs) h"
  proof (cases vs)
    case Nil
    show ?thesis
    proof (cases us rule: rev_cases)
      case Nil
      then show ?thesis using \<open>vs = []\<close> n p by simp
    next
      case (snoc us' u)
      have "linked ?nx ?pv h us' u"
        by (rule linked_cong [of nx pv]) (use l d n p snoc Nil in \<open>auto simp: linked_append\<close>)
      then show ?thesis using Nil snoc n p by (simp add: linked_append)
    qed
  next
    case (Cons v vs')
    have v: "linked ?nx ?pv v vs' h"
      by (rule linked_cong [of nx pv]) (use l d before Cons in auto)
    show ?thesis
    proof (cases us rule: rev_cases)
      case Nil
      then show ?thesis using v Cons n p by simp
    next
      case (snoc us' u)
      have "linked ?nx ?pv h us' u"
        by (rule linked_cong [of nx pv]) (use l d n p snoc Cons in \<open>auto simp: linked_append\<close>)
      then show ?thesis using v snoc Cons n p by (simp add: linked_append)
    qed
  qed
  then show ?thesis using d by (auto simp: ring_def)
qed

end
