(* ===== verification/MemManager.thy ===== *)
theory MemManager
  imports LinkedRing "HOL-Library.Word" "HOL-Library.Monad_Syntax"
begin

text \<open>
  The offset allocator \<open>src/src/gallium/auxiliary/util/u_mm.c\<close>, assignment by assignment, on an
  explicit store from addresses to \<open>struct mem_block\<close>.  A block is a member of two circular lists whose
  sentinel is the heap.  Following a pointer that is not in the store, a signed addition that
  overflows, and a loop that does not end are \<open>None\<close>.  \<open>CALLOC_STRUCT\<close> is a parameter that may fail.
\<close>

unbundle bit_operations_syntax

section \<open>The heap of blocks\<close>

record mem_block =
  b_next :: nat
  b_prev :: nat
  b_next_free :: nat
  b_prev_free :: nat
  b_heap :: nat
  b_ofs :: int
  b_size :: int
  b_free :: bool
  b_reserved :: bool

type_synonym store = "nat \<rightharpoonup> mem_block"
type_synonym calloc = "store \<Rightarrow> nat option"

text \<open>\<open>CALLOC_STRUCT\<close> gives zeroed memory at the address the allocator picks, or fails.\<close>

definition zero_block :: mem_block where
  "zero_block = \<lparr>b_next = 0, b_prev = 0, b_next_free = 0, b_prev_free = 0, b_heap = 0,
     b_ofs = 0, b_size = 0, b_free = False, b_reserved = False\<rparr>"

definition modify :: "nat \<Rightarrow> (mem_block \<Rightarrow> mem_block) \<Rightarrow> store \<Rightarrow> store option" where
  "modify p f s = map_option (\<lambda>b. s(p \<mapsto> f b)) (s p)"

definition cint :: "int \<Rightarrow> int option" where
  "cint x = (if - (2 ^ 31) \<le> x \<and> x < 2 ^ 31 then Some x else None)"

definition u_mmInit :: "calloc \<Rightarrow> store \<Rightarrow> int \<Rightarrow> int \<Rightarrow> nat \<times> store" where
  "u_mmInit calloc s ofs sz =
    (if sz \<le> 0 then (0, s)
     else case calloc s of
       None \<Rightarrow> (0, s)
     | Some heap \<Rightarrow>
         let s = s(heap \<mapsto> zero_block) in
         case calloc s of
           None \<Rightarrow> (0, s(heap := None))
         | Some block \<Rightarrow>
             let h = zero_block\<lparr>b_next := block, b_prev := block, b_next_free := block, b_prev_free := block\<rparr>;
                 b = zero_block\<lparr>b_heap := heap, b_next := heap, b_prev := heap, b_next_free := heap,
                       b_prev_free := heap, b_ofs := ofs, b_size := sz, b_free := True\<rparr>
             in (heap, s(heap \<mapsto> h, block \<mapsto> b)))"

text \<open>The eight assignments that link \<open>newblock\<close> after \<open>p\<close>, the same in both branches of \<open>SliceBlock\<close>.\<close>

definition link_after :: "nat \<Rightarrow> nat \<Rightarrow> store \<Rightarrow> store option" where
  "link_after p newblock s = do {
     b \<leftarrow> s p;
     s \<leftarrow> modify newblock (b_next_update (\<lambda>_. b_next b)) s;
     s \<leftarrow> modify newblock (b_prev_update (\<lambda>_. p)) s;
     s \<leftarrow> modify (b_next b) (b_prev_update (\<lambda>_. newblock)) s;
     s \<leftarrow> modify p (b_next_update (\<lambda>_. newblock)) s;
     b \<leftarrow> s p;
     s \<leftarrow> modify newblock (b_next_free_update (\<lambda>_. b_next_free b)) s;
     s \<leftarrow> modify newblock (b_prev_free_update (\<lambda>_. p)) s;
     s \<leftarrow> modify (b_next_free b) (b_prev_free_update (\<lambda>_. newblock)) s;
     modify p (b_next_free_update (\<lambda>_. newblock)) s }"

definition unlink_free :: "nat \<Rightarrow> store \<Rightarrow> store option" where
  "unlink_free p s = do {
     b \<leftarrow> s p;
     s \<leftarrow> modify (b_next_free b) (b_prev_free_update (\<lambda>_. b_prev_free b)) s;
     b \<leftarrow> s p;
     modify (b_prev_free b) (b_next_free_update (\<lambda>_. b_next_free b)) s }"

text \<open>Splitting off the right part of \<open>p\<close>, from offset \<open>at\<close>; \<open>None\<close> inside is a failed allocation.\<close>

definition break_at :: "calloc \<Rightarrow> nat \<Rightarrow> int \<Rightarrow> int \<Rightarrow> store \<Rightarrow> (nat option \<times> store) option" where
  "break_at calloc p at left s =
    (case calloc s of
       None \<Rightarrow> Some (None, s)
     | Some newblock \<Rightarrow> do {
         b \<leftarrow> s p;
         s \<leftarrow> link_after p newblock (s(newblock \<mapsto> zero_block\<lparr>b_ofs := at, b_size := b_size b - left,
                b_free := True, b_heap := b_heap b\<rparr>));
         s \<leftarrow> modify p (b_size_update (\<lambda>_. left)) s;
         Some (Some newblock, s) })"

text \<open>The second half of \<open>SliceBlock\<close>: break right, then make \<open>p\<close> the middle block.\<close>

definition take_block :: "nat \<Rightarrow> bool \<Rightarrow> store \<Rightarrow> (nat \<times> store) option" where
  "take_block p reserved s = do {
     s \<leftarrow> modify p (b_free_update (\<lambda>_. False)) s;
     s \<leftarrow> unlink_free p s;
     s \<leftarrow> modify p (b_next_free_update (\<lambda>_. 0)) s;
     s \<leftarrow> modify p (b_prev_free_update (\<lambda>_. 0)) s;
     s \<leftarrow> modify p (b_reserved_update (\<lambda>_. reserved)) s;
     Some (p, s) }"

definition slice_right ::
  "calloc \<Rightarrow> nat \<Rightarrow> int \<Rightarrow> int \<Rightarrow> bool \<Rightarrow> store \<Rightarrow> (nat \<times> store) option" where
  "slice_right calloc p startofs sz reserved s = do {
     b \<leftarrow> s p;
     (r, s) \<leftarrow> (if sz < b_size b then break_at calloc p (startofs + sz) sz s else Some (Some p, s));
     case r of None \<Rightarrow> Some (0, s) | Some _ \<Rightarrow> take_block p reserved s }"

definition SliceBlock ::
  "calloc \<Rightarrow> nat \<Rightarrow> int \<Rightarrow> int \<Rightarrow> bool \<Rightarrow> store \<Rightarrow> (nat \<times> store) option" where
  "SliceBlock calloc p startofs sz reserved s = do {
     b \<leftarrow> s p;
     (r, s) \<leftarrow> (if b_ofs b < startofs then break_at calloc p startofs (startofs - b_ofs b) s
                else Some (Some p, s));
     case r of
       None \<Rightarrow> Some (0, s)
     | Some p \<Rightarrow> slice_right calloc p startofs sz reserved s }"

section \<open>Allocation and release\<close>

text \<open>The search of \<open>u_mmAllocMem\<close> along the free list: the block that fits and the offset in it.\<close>

partial_function (option) find_fit ::
  "nat \<Rightarrow> int \<Rightarrow> int \<Rightarrow> int \<Rightarrow> store \<Rightarrow> nat \<Rightarrow> (nat \<times> int) option" where
  "find_fit heap m sz startSearch s p =
    (if p = heap then Some (heap, 0)
     else Option.bind (s p) (\<lambda>b.
          Option.bind (cint (b_ofs b + m)) (\<lambda>a.
          let startofs = (if a AND NOT m < startSearch then startSearch else a AND NOT m) in
          Option.bind (cint (startofs + sz)) (\<lambda>endofs.
          Option.bind (cint (b_ofs b + b_size b)) (\<lambda>block_end.
          if endofs \<le> block_end then Some (p, startofs)
          else find_fit heap m sz startSearch s (b_next_free b))))))"

text \<open>A shift by 31 or more is undefined.\<close>

definition u_mmAllocMem ::
  "calloc \<Rightarrow> nat \<Rightarrow> int \<Rightarrow> int \<Rightarrow> int \<Rightarrow> store \<Rightarrow> (nat \<times> store) option" where
  "u_mmAllocMem calloc heap sz align2 startSearch s =
    (if heap = 0 \<or> align2 < 0 \<or> sz \<le> 0 then Some (0, s)
     else if 31 \<le> align2 then None
     else do {
       h \<leftarrow> s heap;
       (p, startofs) \<leftarrow> find_fit heap (2 ^ nat align2 - 1) sz startSearch s (b_next_free h);
       if p = heap then Some (0, s) else SliceBlock calloc p startofs sz False s })"

partial_function (option) find_ofs :: "nat \<Rightarrow> int \<Rightarrow> store \<Rightarrow> nat \<Rightarrow> nat option" where
  "find_ofs heap start s p =
    (if p = heap then Some 0
     else Option.bind (s p) (\<lambda>b. if b_ofs b = start then Some p else find_ofs heap start s (b_next b)))"

definition u_mmFindBlock :: "nat \<Rightarrow> int \<Rightarrow> store \<Rightarrow> nat option" where
  "u_mmFindBlock heap start s = do { h \<leftarrow> s heap; find_ofs heap start s (b_next h) }"

definition Join2Blocks :: "nat \<Rightarrow> store \<Rightarrow> (int \<times> store) option" where
  "Join2Blocks p s = do {
     b \<leftarrow> s p;
     if \<not> b_free b then Some (0, s) else do {
       let q = b_next b;
       c \<leftarrow> s q;
       if \<not> b_free c then Some (0, s) else do {
         sum \<leftarrow> cint (b_size b + b_size c);
         s \<leftarrow> modify p (b_size_update (\<lambda>_. sum)) s;
         s \<leftarrow> modify p (b_next_update (\<lambda>_. b_next c)) s;
         s \<leftarrow> modify (b_next c) (b_prev_update (\<lambda>_. p)) s;
         s \<leftarrow> unlink_free q s;
         Some (1, s(q := None)) } } }"

definition u_mmFreeMem :: "nat \<Rightarrow> store \<Rightarrow> (int \<times> store) option" where
  "u_mmFreeMem b s =
    (if b = 0 then Some (0, s)
     else do {
       m \<leftarrow> s b;
       if b_free m then Some (- 1, s)
       else if b_reserved m then Some (- 1, s)
       else do {
         s \<leftarrow> modify b (b_free_update (\<lambda>_. True)) s;
         h \<leftarrow> s (b_heap m);
         s \<leftarrow> modify b (b_next_free_update (\<lambda>_. b_next_free h)) s;
         s \<leftarrow> modify b (b_prev_free_update (\<lambda>_. b_heap m)) s;
         m \<leftarrow> s b;
         s \<leftarrow> modify (b_next_free m) (b_prev_free_update (\<lambda>_. b)) s;
         m \<leftarrow> s b;
         s \<leftarrow> modify (b_prev_free m) (b_next_free_update (\<lambda>_. b)) s;
         (_, s) \<leftarrow> Join2Blocks b s;
         m \<leftarrow> s b;
         (_, s) \<leftarrow> (if b_prev m \<noteq> b_heap m then Join2Blocks (b_prev m) s else Some (0, s));
         Some (0, s) } })"

partial_function (option) destroy_from :: "nat \<Rightarrow> nat \<Rightarrow> store \<Rightarrow> store option" where
  "destroy_from heap p s =
    (if p = heap then Some s
     else Option.bind (s p) (\<lambda>b. destroy_from heap (b_next b) (s(p := None))))"

definition u_mmDestroy :: "nat \<Rightarrow> store \<Rightarrow> store option" where
  "u_mmDestroy heap s =
    (if heap = 0 then Some s
     else do { h \<leftarrow> s heap; s \<leftarrow> destroy_from heap (b_next h) s; Some (s(heap := None)) })"

declare find_fit.simps [code] find_ofs.simps [code] destroy_from.simps [code]

end
