(* ===== verification/MemManagerCorrect.thy ===== *)
theory MemManagerCorrect
  imports MemManager
begin

text \<open>
  The allocator keeps its two lists linked and its blocks a partition of the heap, on every run and
  whichever allocations of descriptors fail.  The proofs run the assignments on a view of the store as
  one function per field: \<open>ok\<close> says that a call returns with a result that satisfies a predicate, and
  the rules \<open>run\<close> execute one load or store of a field.
\<close>

section \<open>The store as functions\<close>

record heap_view =
  w_dom :: "nat set"
  w_next :: "nat \<Rightarrow> nat"
  w_prev :: "nat \<Rightarrow> nat"
  w_next_free :: "nat \<Rightarrow> nat"
  w_prev_free :: "nat \<Rightarrow> nat"
  w_heap :: "nat \<Rightarrow> nat"
  w_ofs :: "nat \<Rightarrow> int"
  w_size :: "nat \<Rightarrow> int"
  w_free :: "nat \<Rightarrow> bool"
  w_reserved :: "nat \<Rightarrow> bool"

definition view :: "store \<Rightarrow> heap_view" where
  "view s = \<lparr>w_dom = dom s, w_next = \<lambda>p. b_next (the (s p)), w_prev = \<lambda>p. b_prev (the (s p)),
     w_next_free = \<lambda>p. b_next_free (the (s p)), w_prev_free = \<lambda>p. b_prev_free (the (s p)),
     w_heap = \<lambda>p. b_heap (the (s p)), w_ofs = \<lambda>p. b_ofs (the (s p)), w_size = \<lambda>p. b_size (the (s p)),
     w_free = \<lambda>p. b_free (the (s p)), w_reserved = \<lambda>p. b_reserved (the (s p))\<rparr>"

lemma view_load:
  assumes "p \<in> w_dom (view s)"
  shows "\<exists>b. s p = Some b \<and> b_next b = w_next (view s) p \<and> b_prev b = w_prev (view s) p
    \<and> b_next_free b = w_next_free (view s) p \<and> b_prev_free b = w_prev_free (view s) p
    \<and> b_heap b = w_heap (view s) p \<and> b_ofs b = w_ofs (view s) p \<and> b_size b = w_size (view s) p
    \<and> b_free b = w_free (view s) p \<and> b_reserved b = w_reserved (view s) p"
  using assms by (auto simp: view_def)

lemma view_store:
  "view (s(p \<mapsto> b)) = \<lparr>w_dom = insert p (w_dom (view s)),
     w_next = (w_next (view s))(p := b_next b), w_prev = (w_prev (view s))(p := b_prev b),
     w_next_free = (w_next_free (view s))(p := b_next_free b),
     w_prev_free = (w_prev_free (view s))(p := b_prev_free b),
     w_heap = (w_heap (view s))(p := b_heap b), w_ofs = (w_ofs (view s))(p := b_ofs b),
     w_size = (w_size (view s))(p := b_size b), w_free = (w_free (view s))(p := b_free b),
     w_reserved = (w_reserved (view s))(p := b_reserved b)\<rparr>"
  by (simp add: view_def fun_eq_iff)

text \<open>The call returns, with a result that satisfies the predicate.\<close>

definition ok :: "'a option \<Rightarrow> ('a \<Rightarrow> bool) \<Rightarrow> bool" where
  "ok r Q \<longleftrightarrow> (\<exists>x. r = Some x \<and> Q x)"

lemma ok_Some [simp]: "ok (Some x) Q = Q x"
  by (simp add: ok_def)

lemma ok_bind [simp]: "ok (Option.bind r k) Q = ok r (\<lambda>x. ok (k x) Q)"
  by (cases r) (auto simp: ok_def)

lemma ok_mono: "ok r Q \<Longrightarrow> (\<And>x. Q x \<Longrightarrow> R x) \<Longrightarrow> ok r R"
  by (auto simp: ok_def)

lemma ok_load:
  assumes "p \<in> w_dom (view s)"
    and "\<And>b. \<lbrakk>b_next b = w_next (view s) p; b_prev b = w_prev (view s) p;
      b_next_free b = w_next_free (view s) p; b_prev_free b = w_prev_free (view s) p;
      b_heap b = w_heap (view s) p; b_ofs b = w_ofs (view s) p; b_size b = w_size (view s) p;
      b_free b = w_free (view s) p; b_reserved b = w_reserved (view s) p\<rbrakk> \<Longrightarrow> Q b"
  shows "ok (s p) Q"
proof -
  have "p \<in> dom s" using assms(1) by (simp add: view_def)
  then obtain b where "s p = Some b" by blast
  then show ?thesis using assms(2) [of b] by (simp add: ok_def view_def)
qed

lemma modify_ok:
  assumes "p \<in> w_dom (view s)" "\<And>b. s p = Some b \<Longrightarrow> view (s(p \<mapsto> f b)) = v" "\<And>s'. view s' = v \<Longrightarrow> Q s'"
  shows "ok (modify p f s) Q"
proof -
  have "p \<in> dom s" using assms(1) by (simp add: view_def)
  then obtain b where "s p = Some b" by blast
  then show ?thesis using assms(2,3) by (simp add: ok_def modify_def)
qed

lemma view_update:
  assumes "s p = Some b"
  shows "view (s(p \<mapsto> b\<lparr>b_next := x\<rparr>)) = (view s)\<lparr>w_next := (w_next (view s))(p := x)\<rparr>"
    "view (s(p \<mapsto> b\<lparr>b_prev := x\<rparr>)) = (view s)\<lparr>w_prev := (w_prev (view s))(p := x)\<rparr>"
    "view (s(p \<mapsto> b\<lparr>b_next_free := x\<rparr>)) = (view s)\<lparr>w_next_free := (w_next_free (view s))(p := x)\<rparr>"
    "view (s(p \<mapsto> b\<lparr>b_prev_free := x\<rparr>)) = (view s)\<lparr>w_prev_free := (w_prev_free (view s))(p := x)\<rparr>"
    "view (s(p \<mapsto> b\<lparr>b_size := n\<rparr>)) = (view s)\<lparr>w_size := (w_size (view s))(p := n)\<rparr>"
    "view (s(p \<mapsto> b\<lparr>b_free := y\<rparr>)) = (view s)\<lparr>w_free := (w_free (view s))(p := y)\<rparr>"
    "view (s(p \<mapsto> b\<lparr>b_reserved := y\<rparr>)) = (view s)\<lparr>w_reserved := (w_reserved (view s))(p := y)\<rparr>"
  using assms by (auto intro!: heap_view.equality simp: view_def fun_eq_iff)

lemmas modify_rules =
  modify_ok [where f = "b_next_update (\<lambda>_. x)" for x, OF _ view_update(1)]
  modify_ok [where f = "b_prev_update (\<lambda>_. x)" for x, OF _ view_update(2)]
  modify_ok [where f = "b_next_free_update (\<lambda>_. x)" for x, OF _ view_update(3)]
  modify_ok [where f = "b_prev_free_update (\<lambda>_. x)" for x, OF _ view_update(4)]
  modify_ok [where f = "b_size_update (\<lambda>_. x)" for x, OF _ view_update(5)]
  modify_ok [where f = "b_free_update (\<lambda>_. x)" for x, OF _ view_update(6)]
  modify_ok [where f = "b_reserved_update (\<lambda>_. x)" for x, OF _ view_update(7)]

lemmas run = ok_load modify_rules

lemma link_after_ok:
  assumes "p \<in> w_dom (view s)" "q \<in> w_dom (view s)" "p \<noteq> q"
    and "w_next (view s) p \<in> w_dom (view s)" "w_next_free (view s) p \<in> w_dom (view s)"
    and "w_next (view s) p \<noteq> q" "w_next_free (view s) p \<noteq> q"
  shows "ok (link_after p q s) (\<lambda>s'. view s' = (view s)\<lparr>
      w_next := (w_next (view s))(q := w_next (view s) p, p := q),
      w_prev := (w_prev (view s))(q := p, w_next (view s) p := q),
      w_next_free := (w_next_free (view s))(q := w_next_free (view s) p, p := q),
      w_prev_free := (w_prev_free (view s))(q := p, w_next_free (view s) p := q)\<rparr>)"
  unfolding link_after_def ok_bind by (intro run) (use assms in \<open>auto\<close>)

lemma unlink_free_ok:
  assumes "p \<in> w_dom (view s)" "w_next_free (view s) p \<in> w_dom (view s)" "w_prev_free (view s) p \<in> w_dom (view s)"
    and "w_next_free (view s) p \<noteq> p" "w_prev_free (view s) p \<noteq> p"
  shows "ok (unlink_free p s) (\<lambda>s'. view s' = (view s)\<lparr>
      w_prev_free := (w_prev_free (view s))(w_next_free (view s) p := w_prev_free (view s) p),
      w_next_free := (w_next_free (view s))(w_prev_free (view s) p := w_next_free (view s) p)\<rparr>)"
  unfolding unlink_free_def ok_bind by (intro run) (use assms in \<open>auto\<close>)

section \<open>What a heap represents\<close>

definition heap_rep :: "heap_view \<Rightarrow> nat \<Rightarrow> nat list \<Rightarrow> nat list \<Rightarrow> bool" where
  "heap_rep v h xs fs \<longleftrightarrow>
     0 \<notin> set (h # xs) \<and> w_dom v = set (h # xs)
   \<and> ring (w_next v) (w_prev v) h xs \<and> ring (w_next_free v) (w_prev_free v) h fs
   \<and> set fs = {p \<in> set xs. w_free v p} \<and> \<not> w_free v h
   \<and> (\<forall>p \<in> set xs. w_heap v p = h \<and> 0 < w_size v p)"

text \<open>The blocks cover the offsets from \<open>a\<close> to \<open>e\<close> without gaps or overlaps.\<close>

fun tiled :: "(nat \<Rightarrow> int) \<Rightarrow> (nat \<Rightarrow> int) \<Rightarrow> int \<Rightarrow> nat list \<Rightarrow> int \<Rightarrow> bool" where
  "tiled ofs sz a [] e \<longleftrightarrow> a = e"
| "tiled ofs sz a (p # ps) e \<longleftrightarrow> ofs p = a \<and> tiled ofs sz (a + sz p) ps e"

lemma tiled_append:
  "tiled ofs sz a (xs @ y # ys) e \<longleftrightarrow> tiled ofs sz a xs (ofs y) \<and> tiled ofs sz (ofs y + sz y) ys e"
  by (induction xs arbitrary: a) auto

lemma tiled_cong:
  "tiled ofs sz a xs e \<Longrightarrow> (\<And>p. p \<in> set xs \<Longrightarrow> ofs' p = ofs p \<and> sz' p = sz p) \<Longrightarrow> tiled ofs' sz' a xs e"
  by (induction xs arbitrary: a) auto

lemma tiled_le: "tiled ofs sz a xs e \<Longrightarrow> (\<And>p. p \<in> set xs \<Longrightarrow> 0 < sz p) \<Longrightarrow> a \<le> e"
  by (induction xs arbitrary: a) force+

lemma tiled_bounds:
  assumes "tiled ofs sz a xs e" "\<And>p. p \<in> set xs \<Longrightarrow> 0 < sz p" "p \<in> set xs"
  shows "a \<le> ofs p \<and> ofs p + sz p \<le> e"
proof -
  obtain us vs where xs: "xs = us @ p # vs" using assms(3) by (meson split_list)
  then have "tiled ofs sz a us (ofs p)" "tiled ofs sz (ofs p + sz p) vs e"
    using assms(1) by (simp_all add: tiled_append)
  then show ?thesis using assms(2) xs by (auto dest!: tiled_le)
qed

definition mm_state :: "store \<Rightarrow> nat \<Rightarrow> int \<Rightarrow> int \<Rightarrow> nat list \<Rightarrow> nat list \<Rightarrow> bool" where
  "mm_state s h a e xs fs \<longleftrightarrow>
     heap_rep (view s) h xs fs \<and> tiled (w_ofs (view s)) (w_size (view s)) a xs e"

text \<open>The blocks in use: address, offset, size and whether they are reserved.\<close>

definition used :: "heap_view \<Rightarrow> nat list \<Rightarrow> (nat \<times> int \<times> int \<times> bool) set" where
  "used v xs = (\<lambda>p. (p, w_ofs v p, w_size v p, w_reserved v p)) ` {p \<in> set xs. \<not> w_free v p}"

section \<open>Splitting and occupying\<close>

definition split_view :: "heap_view \<Rightarrow> nat \<Rightarrow> nat \<Rightarrow> int \<Rightarrow> int \<Rightarrow> heap_view" where
  "split_view v p q at left = v\<lparr>
     w_dom := insert q (w_dom v),
     w_next := (w_next v)(q := w_next v p, p := q),
     w_prev := (w_prev v)(q := p, w_next v p := q),
     w_next_free := (w_next_free v)(q := w_next_free v p, p := q),
     w_prev_free := (w_prev_free v)(q := p, w_next_free v p := q),
     w_heap := (w_heap v)(q := w_heap v p), w_ofs := (w_ofs v)(q := at),
     w_size := (w_size v)(q := w_size v p - left, p := left),
     w_free := (w_free v)(q := True), w_reserved := (w_reserved v)(q := False)\<rparr>"

lemma heap_rep_next:
  assumes "heap_rep v h (us @ p # vs) fs"
  shows "w_next v p \<in> w_dom v" "w_prev v p \<in> w_dom v" "p \<in> w_dom v"
  using assms ring_next [of "w_next v" "w_prev v" h us p vs] ring_prev [of "w_next v" "w_prev v" h us p vs]
  by (cases vs; cases us rule: rev_cases; auto simp: heap_rep_def)+

lemma heap_rep_next_free:
  assumes "heap_rep v h xs (us @ p # vs)"
  shows "w_next_free v p \<in> w_dom v" "w_prev_free v p \<in> w_dom v" "w_next_free v p \<noteq> p" "w_prev_free v p \<noteq> p"
proof -
  have r: "ring (w_next_free v) (w_prev_free v) h (us @ p # vs)" and f: "set (us @ p # vs) \<subseteq> set xs"
    and d: "w_dom v = set (h # xs)"
    using assms by (auto simp: heap_rep_def)
  note n = ring_next [OF r] ring_prev [OF r] and dist = ring_distinct [OF r]
  show "w_next_free v p \<in> w_dom v" "w_next_free v p \<noteq> p" using n f d dist by (cases vs; auto)+
  show "w_prev_free v p \<in> w_dom v" "w_prev_free v p \<noteq> p" using n f d dist by (cases us rule: rev_cases; auto)+
qed

lemma split_rep:
  assumes "heap_rep v h (us @ p # vs) (fs @ p # gs)" "0 < left" "left < w_size v p" "q \<notin> w_dom v" "q \<noteq> 0"
  shows "heap_rep (split_view v p q at left) h (us @ p # q # vs) (fs @ p # q # gs)"
proof -
  let ?w = "split_view v p q at left"
  have r: "ring (w_next v) (w_prev v) h (us @ p # vs)" "ring (w_next_free v) (w_prev_free v) h (fs @ p # gs)"
    and s: "set (fs @ p # gs) = {x \<in> set (us @ p # vs). w_free v x}" "\<not> w_free v h"
    and d: "w_dom v = set (h # us @ p # vs)" "0 \<notin> set (h # us @ p # vs)"
    and b: "\<forall>x \<in> set (us @ p # vs). w_heap v x = h \<and> 0 < w_size v x"
    using assms(1) by (simp_all add: heap_rep_def)
  have q: "q \<notin> set (h # us @ p # vs)" using assms(4) d by simp
  then have q': "q \<notin> set (h # fs @ p # gs)" using s(1) by auto
  have "ring (w_next ?w) (w_prev ?w) h (us @ p # q # vs)"
    using ring_insert_after [OF r(1) q] by (simp add: split_view_def)
  moreover have "ring (w_next_free ?w) (w_prev_free ?w) h (fs @ p # q # gs)"
    using ring_insert_after [OF r(2) q'] by (simp add: split_view_def)
  moreover have "{x \<in> set (us @ p # q # vs). w_free ?w x} = insert q {x \<in> set (us @ p # vs). w_free v x}"
    using q by (auto simp: split_view_def)
  then have "set (fs @ p # q # gs) = {x \<in> set (us @ p # q # vs). w_free ?w x}"
    unfolding s(1) [symmetric] by auto
  moreover have "\<forall>x \<in> set (us @ p # q # vs). w_heap ?w x = h \<and> 0 < w_size ?w x"
    using b assms(2,3) by (simp add: split_view_def)
  moreover have "w_dom ?w = set (h # us @ p # q # vs)" unfolding split_view_def by (simp add: d(1)) blast
  moreover have "\<not> w_free ?w h" using s(2) q by (simp add: split_view_def)
  moreover have "0 \<notin> set (h # us @ p # q # vs)" using d(2) assms(5) by simp
  ultimately show ?thesis
    unfolding heap_rep_def by blast
qed

lemma split_tiled:
  assumes "tiled (w_ofs v) (w_size v) a (us @ p # vs) e" "at = w_ofs v p + left"
    and "q \<notin> set (us @ p # vs)" "distinct (us @ p # vs)"
  shows "tiled (w_ofs (split_view v p q at left)) (w_size (split_view v p q at left)) a (us @ p # q # vs) e"
proof -
  let ?w = "split_view v p q at left"
  have t: "tiled (w_ofs v) (w_size v) a us (w_ofs v p)" "tiled (w_ofs v) (w_size v) (w_ofs v p + w_size v p) vs e"
    using assms(1) by (simp_all add: tiled_append)
  have "tiled (w_ofs ?w) (w_size ?w) a us (w_ofs v p)" "tiled (w_ofs ?w) (w_size ?w) (w_ofs v p + w_size v p) vs e"
    using assms(3,4) by (auto intro!: tiled_cong [OF t(1)] tiled_cong [OF t(2)] simp: split_view_def)
  then show ?thesis using assms(2,3) by (auto simp: tiled_append split_view_def)
qed

definition occupy_view :: "heap_view \<Rightarrow> nat \<Rightarrow> bool \<Rightarrow> heap_view" where
  "occupy_view v p res = v\<lparr>
     w_free := (w_free v)(p := False),
     w_prev_free := (w_prev_free v)(w_next_free v p := w_prev_free v p, p := 0),
     w_next_free := (w_next_free v)(w_prev_free v p := w_next_free v p, p := 0),
     w_reserved := (w_reserved v)(p := res)\<rparr>"

lemma occupy_rep:
  assumes "heap_rep v h xs (fs @ p # gs)"
  shows "heap_rep (occupy_view v p res) h xs (fs @ gs)"
proof -
  let ?w = "occupy_view v p res"
  have r: "ring (w_next_free v) (w_prev_free v) h (fs @ p # gs)"
    and s: "set (fs @ p # gs) = {x \<in> set xs. w_free v x}" and "\<not> w_free v h"
    using assms by (simp_all add: heap_rep_def)
  have d: "distinct (h # fs @ p # gs)" by (rule ring_distinct [OF r])
  have "ring (w_next_free ?w) (w_prev_free ?w) h (fs @ gs)"
    by (rule ring_cong [OF ring_remove [OF r]]) (use d in \<open>auto simp: occupy_view_def\<close>)
  moreover have "set (fs @ gs) = {x \<in> set xs. w_free ?w x}"
    using s d by (auto simp: occupy_view_def)
  ultimately show ?thesis
    using assms by (auto simp: heap_rep_def occupy_view_def)
qed

definition calloc_ok :: "calloc \<Rightarrow> bool" where
  "calloc_ok calloc \<longleftrightarrow> (\<forall>s q. calloc s = Some q \<longrightarrow> q \<noteq> 0 \<and> q \<notin> dom s)"

lemma view_dom: "w_dom (view s) = dom s"
  by (simp add: view_def)

lemma break_at_ok:
  assumes "calloc_ok calloc" "heap_rep (view s) h (us @ p # vs) (fs @ p # gs)"
  shows "ok (break_at calloc p at left s) (\<lambda>(r, s').
     (case calloc s of None \<Rightarrow> r = None \<and> s' = s
      | Some q \<Rightarrow> r = Some q \<and> view s' = split_view (view s) p q at left))"
proof (cases "calloc s")
  case None
  then show ?thesis by (simp add: break_at_def)
next
  case (Some q)
  then have q: "q \<noteq> 0" "q \<notin> w_dom (view s)" using assms(1) by (auto simp: calloc_ok_def view_dom)
  note n = heap_rep_next [OF assms(2)] heap_rep_next_free [OF assms(2)]
  have pq: "p \<noteq> q" "w_next (view s) p \<noteq> q" "w_next_free (view s) p \<noteq> q" using n q by auto
  show ?thesis
    unfolding break_at_def Some option.case ok_bind
    by (intro ok_load ok_mono [OF link_after_ok] modify_rules)
       (use n q pq in \<open>auto simp: view_store split_view_def zero_block_def fun_upd_twist\<close>)
qed

lemma used_split:
  assumes "w_free v p" "q \<notin> set (us @ p # vs)"
  shows "used (split_view v p q at left) (us @ p # q # vs) = used v (us @ p # vs)"
proof -
  let ?w = "split_view v p q at left"
  have "{x \<in> set (us @ p # q # vs). \<not> w_free ?w x} = {x \<in> set (us @ p # vs). \<not> w_free v x}"
    using assms by (auto simp: split_view_def)
  moreover have "w_ofs ?w x = w_ofs v x \<and> w_size ?w x = w_size v x \<and> w_reserved ?w x = w_reserved v x"
    if "x \<in> {x \<in> set (us @ p # vs). \<not> w_free v x}" for x
    using that assms by (auto simp: split_view_def)
  ultimately show ?thesis unfolding used_def by (simp cong: image_cong_simp)
qed

lemma used_occupy:
  assumes "w_free v p" "p \<in> set xs"
  shows "used (occupy_view v p res) xs = insert (p, w_ofs v p, w_size v p, res) (used v xs)"
proof -
  let ?w = "occupy_view v p res"
  have "{x \<in> set xs. \<not> w_free ?w x} = insert p {x \<in> set xs. \<not> w_free v x}"
    using assms by (auto simp: occupy_view_def)
  moreover have "w_ofs ?w x = w_ofs v x \<and> w_size ?w x = w_size v x \<and> w_reserved ?w x = w_reserved v x"
    if "x \<in> {x \<in> set xs. \<not> w_free v x}" for x
    using that assms by (auto simp: occupy_view_def)
  ultimately show ?thesis unfolding used_def by (simp add: occupy_view_def cong: image_cong_simp)
qed

lemma mm_state_free:
  assumes "mm_state s h a e xs (fs @ p # gs)"
  shows "p \<in> set xs" "w_free (view s) p" "p \<in> w_dom (view s)" "0 < w_size (view s) p" "p \<noteq> 0"
proof -
  have "p \<in> set (fs @ p # gs)" by simp
  then have "p \<in> {x \<in> set xs. w_free (view s) x}" using assms unfolding mm_state_def heap_rep_def by blast
  then show "p \<in> set xs" "w_free (view s) p" "p \<in> w_dom (view s)" "0 < w_size (view s) p" "p \<noteq> 0"
    using assms by (auto simp: mm_state_def heap_rep_def)
qed

lemma mm_state_split:
  assumes "mm_state s h a e (us @ p # vs) (fs @ p # gs)" "q \<notin> dom s" "q \<noteq> 0"
    and "0 < left" "left < w_size (view s) p"
    and "view s' = split_view (view s) p q (w_ofs (view s) p + left) left"
  shows "mm_state s' h a e (us @ p # q # vs) (fs @ p # q # gs)"
    "used (view s') (us @ p # q # vs) = used (view s) (us @ p # vs)"
    "w_ofs (view s') q = w_ofs (view s) p + left" "w_size (view s') q = w_size (view s) p - left"
    "w_ofs (view s') p = w_ofs (view s) p" "w_size (view s') p = left"
proof -
  have r: "heap_rep (view s) h (us @ p # vs) (fs @ p # gs)"
    and t: "tiled (w_ofs (view s)) (w_size (view s)) a (us @ p # vs) e"
    using assms(1) by (simp_all add: mm_state_def)
  have "ring (w_next (view s)) (w_prev (view s)) h (us @ p # vs)" using r by (simp add: heap_rep_def)
  from ring_distinct [OF this] have d: "distinct (us @ p # vs)" by simp
  have q: "q \<notin> w_dom (view s)" using assms(2) by (simp add: view_dom)
  then have q': "q \<notin> set (us @ p # vs)" using r by (auto simp: heap_rep_def)
  show "mm_state s' h a e (us @ p # q # vs) (fs @ p # q # gs)"
    unfolding mm_state_def assms(6)
    using split_rep [OF r assms(4,5) q assms(3)] split_tiled [OF t refl q' d] by blast
  show "used (view s') (us @ p # q # vs) = used (view s) (us @ p # vs)"
    unfolding assms(6) by (rule used_split [OF mm_state_free(2) [OF assms(1)] q'])
  have "p \<noteq> q" using q' by auto
  then show "w_ofs (view s') q = w_ofs (view s) p + left" "w_size (view s') q = w_size (view s) p - left"
    "w_ofs (view s') p = w_ofs (view s) p" "w_size (view s') p = left"
    by (simp_all add: assms(6) split_view_def)
qed

lemma take_block_ok:
  assumes "heap_rep (view s) h xs (fs @ p # gs)"
  shows "ok (take_block p res s) (\<lambda>(r, s'). r = p \<and> view s' = occupy_view (view s) p res)"
proof -
  note n = heap_rep_next_free [OF assms]
  have "p \<in> set (fs @ p # gs)" by simp
  then have p: "p \<in> w_dom (view s)" using assms unfolding heap_rep_def by auto
  show ?thesis
    unfolding take_block_def ok_bind
    by (intro modify_rules ok_mono [OF unlink_free_ok])
      (use n p in \<open>auto simp: occupy_view_def\<close>)
qed

definition sliced ::
  "calloc \<Rightarrow> nat \<Rightarrow> int \<Rightarrow> int \<Rightarrow> int \<Rightarrow> int \<Rightarrow> bool \<Rightarrow> (nat \<times> int \<times> int \<times> bool) set \<Rightarrow> nat \<times> store \<Rightarrow> bool" where
  "sliced calloc h a e at sz res before = (\<lambda>(r, s'). \<exists>xs fs. mm_state s' h a e xs fs \<and>
     (if r = 0 then used (view s') xs = before \<and> calloc s' = None
      else used (view s') xs = insert (r, at, sz, res) before \<and> r \<notin> fst ` before))"

lemma used_fst: "fst ` used v xs = {p \<in> set xs. \<not> w_free v p}"
  by (force simp: used_def)

lemma take_sliced:
  assumes "mm_state s h a e xs (fs @ p # gs)" "w_ofs (view s) p = at" "w_size (view s) p = sz"
    and "view s' = occupy_view (view s) p res"
  shows "sliced calloc h a e at sz res (used (view s) xs) (p, s')"
proof -
  note p = mm_state_free [OF assms(1)]
  have "mm_state s' h a e xs (fs @ gs)"
    using assms(1,4) occupy_rep [of "view s" h xs fs p gs res]
    by (simp add: mm_state_def) (simp add: occupy_view_def)
  then show ?thesis
    using used_occupy [OF p(2,1), of res] p assms(2-4) by (auto simp: sliced_def used_fst)
qed

lemma slice_right_ok:
  assumes "calloc_ok calloc" "mm_state s h a e xs (fs @ p # gs)" "w_ofs (view s) p = at"
    and "0 < sz" "sz \<le> w_size (view s) p"
  shows "ok (slice_right calloc p at sz res s) (sliced calloc h a e at sz res (used (view s) xs))"
proof -
  note p = mm_state_free [OF assms(2)]
  obtain us vs where xs: "xs = us @ p # vs" using p(1) by (meson split_list)
  note st = assms(2) [unfolded xs]
  then have rep: "heap_rep (view s) h (us @ p # vs) (fs @ p # gs)" by (simp add: mm_state_def)
  show ?thesis
    unfolding slice_right_def ok_bind
  proof (rule ok_load [OF p(3)])
    fix b :: mem_block assume b: "b_size b = w_size (view s) p"
    show "ok (if sz < b_size b then break_at calloc p (at + sz) sz s else Some (Some p, s))
      (\<lambda>x. ok (case x of (r, s) \<Rightarrow> (case r of None \<Rightarrow> Some (0, s) | Some _ \<Rightarrow> take_block p res s))
         (sliced calloc h a e at sz res (used (view s) xs)))"
    proof (cases "sz < w_size (view s) p")
      case False
      then have sz: "w_size (view s) p = sz" using assms(5) by simp
      have "heap_rep (view s) h xs (fs @ p # gs)" using assms(2) by (simp add: mm_state_def)
      then show ?thesis
        using b False take_sliced [OF assms(2,3) sz]
        by (auto intro!: ok_mono [OF take_block_ok])
    next
      case True
      show ?thesis
      proof (cases "calloc s")
        case None
        have "sliced calloc h a e at sz res (used (view s) xs) (0, s)"
          unfolding sliced_def by (simp, rule exI [of _ xs]) (use assms(2) None in blast)
        then show ?thesis
          using b True None by (auto intro!: ok_mono [OF break_at_ok [OF assms(1) rep]])
      next
        case (Some q)
        then have q: "q \<notin> dom s" "q \<noteq> 0" using assms(1) by (auto simp: calloc_ok_def)
        have "ok (take_block p res s') (sliced calloc h a e at sz res (used (view s) xs))"
          if v: "view s' = split_view (view s) p q (at + sz) sz" for s'
        proof -
          note m = mm_state_split [OF st q assms(4) True v [folded assms(3)]]
          from take_sliced [OF m(1,5,6)] m(1,2) assms(3) show ?thesis
            by (auto intro!: ok_mono [OF take_block_ok] simp: mm_state_def xs)
        qed
        then show ?thesis
          using b True Some by (auto intro!: ok_mono [OF break_at_ok [OF assms(1) rep]])
      qed
    qed
  qed
qed

lemma SliceBlock_ok:
  assumes "calloc_ok calloc" "mm_state s h a e xs (fs @ p # gs)"
    and "w_ofs (view s) p \<le> at" "0 < sz" "at + sz \<le> w_ofs (view s) p + w_size (view s) p"
  shows "ok (SliceBlock calloc p at sz res s) (sliced calloc h a e at sz res (used (view s) xs))"
proof -
  note p = mm_state_free [OF assms(2)]
  obtain us vs where xs: "xs = us @ p # vs" using p(1) by (meson split_list)
  note st = assms(2) [unfolded xs]
  then have rep: "heap_rep (view s) h (us @ p # vs) (fs @ p # gs)" by (simp add: mm_state_def)
  show ?thesis
    unfolding SliceBlock_def ok_bind
  proof (rule ok_load [OF p(3)])
    fix b :: mem_block assume b: "b_ofs b = w_ofs (view s) p"
    show "ok (if b_ofs b < at then break_at calloc p at (at - b_ofs b) s else Some (Some p, s))
      (\<lambda>x. ok (case x of (r, s) \<Rightarrow> (case r of None \<Rightarrow> Some (0, s) | Some p \<Rightarrow> slice_right calloc p at sz res s))
         (sliced calloc h a e at sz res (used (view s) xs)))"
    proof (cases "w_ofs (view s) p < at")
      case False
      then show ?thesis
        using b assms(3) slice_right_ok [OF assms(1,2) _ assms(4), of at res] assms(5) by auto
    next
      case True
      show ?thesis
      proof (cases "calloc s")
        case None
        have "sliced calloc h a e at sz res (used (view s) xs) (0, s)"
          unfolding sliced_def by (simp, rule exI [of _ xs]) (use assms(2) None in blast)
        then show ?thesis
          using b True None by (auto intro!: ok_mono [OF break_at_ok [OF assms(1) rep]])
      next
        case (Some q)
        then have q: "q \<notin> dom s" "q \<noteq> 0" using assms(1) by (auto simp: calloc_ok_def)
        have "ok (slice_right calloc q at sz res s') (sliced calloc h a e at sz res (used (view s) xs))"
          if v: "view s' = split_view (view s) p q at (at - w_ofs (view s) p)" for s'
        proof -
          have left: "0 < at - w_ofs (view s) p" "at - w_ofs (view s) p < w_size (view s) p"
            using True assms(4,5) by auto
          have "view s' = split_view (view s) p q (w_ofs (view s) p + (at - w_ofs (view s) p)) (at - w_ofs (view s) p)"
            using v by simp
          note m = mm_state_split [OF st q left this]
          have "mm_state s' h a e (us @ p # q # vs) ((fs @ [p]) @ q # gs)" using m(1) by simp
          from slice_right_ok [OF assms(1) this _ assms(4), of at res] show ?thesis
            using m(2-4) assms(5) by (simp add: xs)
        qed
        then show ?thesis
          using b True Some by (auto intro!: ok_mono [OF break_at_ok [OF assms(1) rep]])
      qed
    qed
  qed
qed

section \<open>The search for a free block\<close>

definition align_up :: "int \<Rightarrow> int \<Rightarrow> int" where
  "align_up k x = (x + (2 ^ nat k - 1)) AND NOT (2 ^ nat k - 1)"

lemma and_not_mask: "x AND NOT (2 ^ k - 1) = (x div 2 ^ k) * (2 ^ k :: int)"
proof -
  have "x AND NOT (mask k) = push_bit k (drop_bit k x)" by (rule bit_eqI) (auto simp: bit_simps)
  then show ?thesis by (simp add: mask_eq_exp_minus_1 push_bit_eq_mult drop_bit_eq_div)
qed

lemma align_up_bounds:
  "x \<le> align_up k x" "align_up k x < x + 2 ^ nat k" "2 ^ nat k dvd align_up k x"
proof -
  let ?m = "2 ^ nat k :: int"
  have e: "align_up k x = x + (?m - 1) - (x + (?m - 1)) mod ?m"
    unfolding align_up_def and_not_mask by (simp add: minus_mod_eq_div_mult)
  have "0 \<le> (x + (?m - 1)) mod ?m" "(x + (?m - 1)) mod ?m < ?m" by simp_all
  then show "x \<le> align_up k x" "align_up k x < x + ?m" unfolding e by linarith+
  show "?m dvd align_up k x" unfolding align_up_def and_not_mask by simp
qed

definition start_in :: "int \<Rightarrow> int \<Rightarrow> int \<Rightarrow> int" where
  "start_in k start ofs = max (align_up k ofs) start"

definition fits :: "heap_view \<Rightarrow> int \<Rightarrow> int \<Rightarrow> int \<Rightarrow> nat \<Rightarrow> bool" where
  "fits v sz k start p \<longleftrightarrow> w_free v p \<and> start_in k start (w_ofs v p) + sz \<le> w_ofs v p + w_size v p"

lemma cint_nonneg: "0 \<le> x \<Longrightarrow> x < 2 ^ 31 \<Longrightarrow> cint x = Some x"
  by (simp add: cint_def)

lemma find_fit_result:
  assumes "heap_rep (view s) h xs (gs @ fs)"
    and "\<And>p. p \<in> set fs \<Longrightarrow> 0 \<le> w_ofs (view s) p \<and> w_ofs (view s) p + w_size (view s) p < 2 ^ 31
           \<and> w_ofs (view s) p + 2 ^ nat k + sz \<le> 2 ^ 31"
    and "0 < sz" "start + sz < 2 ^ 31"
  shows "find_fit h (2 ^ nat k - 1) sz start s (hd (fs @ [h])) =
    Some (case find (fits (view s) sz k start) fs of
            None \<Rightarrow> (h, 0) | Some p \<Rightarrow> (p, start_in k start (w_ofs (view s) p)))"
  using assms(1,2)
proof (induction fs arbitrary: gs)
  case Nil
  then show ?case by (simp add: find_fit.simps)
next
  case (Cons p fs)
  let ?v = "view s"
  have st: "p \<in> set xs" "w_free ?v p" "p \<in> w_dom ?v" "0 < w_size ?v p" "p \<noteq> h"
  proof -
    have "p \<in> {x \<in> set xs. w_free ?v x}" using Cons.prems(1) unfolding heap_rep_def by auto
    then show "p \<in> set xs" "w_free ?v p" "p \<in> w_dom ?v" "0 < w_size ?v p" "p \<noteq> h"
      using Cons.prems(1) by (auto simp: heap_rep_def)
  qed
  obtain b where b: "s p = Some b" "b_ofs b = w_ofs ?v p" "b_size b = w_size ?v p"
      "b_next_free b = w_next_free ?v p"
    using view_load [OF st(3)] by auto
  have "ring (w_next_free ?v) (w_prev_free ?v) h (gs @ p # fs)" using Cons.prems(1) by (simp add: heap_rep_def)
  from ring_next [OF this] have n: "w_next_free ?v p = hd (fs @ [h])" .
  have "heap_rep ?v h xs ((gs @ [p]) @ fs)" using Cons.prems(1) by simp
  note IH = Cons.IH [OF this Cons.prems(2)]
  have bounds: "0 \<le> w_ofs ?v p" "w_ofs ?v p + w_size ?v p < 2 ^ 31" "w_ofs ?v p + 2 ^ nat k + sz \<le> 2 ^ 31"
    using Cons.prems(2) by auto
  note al = align_up_bounds [where x = "w_ofs ?v p" and k = k]
  have si: "0 \<le> start_in k start (w_ofs ?v p)" "start_in k start (w_ofs ?v p) + sz < 2 ^ 31"
    using bounds al assms(4) by (auto simp: start_in_def max_def)
  have "0 < (2 :: int) ^ nat k" by simp
  then have c: "cint (w_ofs ?v p + (2 ^ nat k - 1)) = Some (w_ofs ?v p + (2 ^ nat k - 1))"
    "cint (start_in k start (w_ofs ?v p) + sz) = Some (start_in k start (w_ofs ?v p) + sz)"
    "cint (w_ofs ?v p + w_size ?v p) = Some (w_ofs ?v p + w_size ?v p)"
    using bounds si st(4) assms(3) by (auto intro!: cint_nonneg)
  have m: "(if align_up k (w_ofs ?v p) < start then start else align_up k (w_ofs ?v p)) = start_in k start (w_ofs ?v p)"
    by (simp add: start_in_def max_def)
  have "find_fit h (2 ^ nat k - 1) sz start s p =
      (if fits ?v sz k start p then Some (p, start_in k start (w_ofs ?v p))
       else find_fit h (2 ^ nat k - 1) sz start s (w_next_free ?v p))"
    by (subst find_fit.simps)
      (simp only: b c Let_def align_up_def [symmetric] m fits_def st(2,5) Option.bind.simps if_False simp_thms)
  then show ?case using IH n by simp
qed

text \<open>Whatever the arguments, a search that returns finds the same.\<close>

lemma cint_Some: "cint x = Some y \<Longrightarrow> y = x"
  by (simp add: cint_def split: if_splits)

lemma find_fit_partial:
  assumes "heap_rep (view s) h xs (gs @ fs)" "find_fit h (2 ^ nat k - 1) sz start s (hd (fs @ [h])) = Some r"
  shows "r = (case find (fits (view s) sz k start) fs of
            None \<Rightarrow> (h, 0) | Some p \<Rightarrow> (p, start_in k start (w_ofs (view s) p)))"
  using assms
proof (induction fs arbitrary: gs)
  case Nil
  then show ?case by (simp add: find_fit.simps)
next
  case (Cons p fs)
  let ?v = "view s"
  have "p \<in> {x \<in> set xs. w_free ?v x}" using Cons.prems(1) unfolding heap_rep_def by auto
  then have st: "w_free ?v p" "p \<in> w_dom ?v" "p \<noteq> h" using Cons.prems(1) by (auto simp: heap_rep_def)
  obtain b where b: "s p = Some b" "b_ofs b = w_ofs ?v p" "b_size b = w_size ?v p"
      "b_next_free b = w_next_free ?v p"
    using view_load [OF st(2)] by auto
  have "ring (w_next_free ?v) (w_prev_free ?v) h (gs @ p # fs)" using Cons.prems(1) by (simp add: heap_rep_def)
  from ring_next [OF this] have n: "w_next_free ?v p = hd (fs @ [h])" .
  have "heap_rep ?v h xs ((gs @ [p]) @ fs)" using Cons.prems(1) by simp
  note IH = Cons.IH [OF this]
  have m: "(if align_up k (w_ofs ?v p) < start then start else align_up k (w_ofs ?v p)) = start_in k start (w_ofs ?v p)"
    by (simp add: start_in_def max_def)
  have run: "find_fit h (2 ^ nat k - 1) sz start s p = Some r" using Cons.prems(2) by simp
  have "cint (b_ofs b + (2 ^ nat k - 1)) \<noteq> None"
    using run st(3) b(1) by (subst (asm) find_fit.simps) (auto simp: b(1) bind_eq_Some_conv)
  then have c1: "cint (b_ofs b + (2 ^ nat k - 1)) = Some (w_ofs ?v p + (2 ^ nat k - 1))"
    using cint_Some b(2) by fastforce
  have r2: "Option.bind (cint (start_in k start (w_ofs ?v p) + sz)) (\<lambda>endofs.
      Option.bind (cint (w_ofs ?v p + w_size ?v p)) (\<lambda>block_end.
      if endofs \<le> block_end then Some (p, start_in k start (w_ofs ?v p))
      else find_fit h (2 ^ nat k - 1) sz start s (w_next_free ?v p))) = Some r"
    using run unfolding find_fit.simps [of h "2 ^ nat k - 1" sz start s p]
    by (simp only: st(3) if_False b Option.bind.simps c1 [unfolded b(2)] Let_def align_up_def [symmetric] m)
  then obtain x y where xy: "cint (start_in k start (w_ofs ?v p) + sz) = Some x" "cint (w_ofs ?v p + w_size ?v p) = Some y"
    by (auto simp: bind_eq_Some_conv)
  have "(if x \<le> y then Some (p, start_in k start (w_ofs ?v p))
      else find_fit h (2 ^ nat k - 1) sz start s (w_next_free ?v p)) = Some r"
    using r2 unfolding xy by (simp only: Option.bind.simps)
  then have "(if fits ?v sz k start p then Some (p, start_in k start (w_ofs ?v p))
      else find_fit h (2 ^ nat k - 1) sz start s (w_next_free ?v p)) = Some r"
    unfolding fits_def cint_Some [OF xy(1)] cint_Some [OF xy(2)] using st(1) by (simp only: simp_thms)
  then show ?case using IH n by (auto split: if_splits)
qed

section \<open>Allocation\<close>

definition alloc_args_ok :: "int \<Rightarrow> int \<Rightarrow> int \<Rightarrow> int \<Rightarrow> bool" where
  "alloc_args_ok e sz k start \<longleftrightarrow>
     k < 31 \<and> (0 \<le> k \<and> 0 < sz \<longrightarrow> e + 2 ^ nat k + sz \<le> 2 ^ 31 \<and> start + sz < 2 ^ 31)"

lemma mm_state_sentinel:
  assumes "mm_state s h a e xs fs"
  shows "h \<noteq> 0" "h \<in> w_dom (view s)" "w_next_free (view s) h = hd (fs @ [h])" "w_next (view s) h = hd (xs @ [h])"
    "h \<notin> set xs" "h \<notin> set fs"
proof -
  have r: "heap_rep (view s) h xs fs" using assms by (simp add: mm_state_def)
  then have "ring (w_next (view s)) (w_prev (view s)) h xs" "ring (w_next_free (view s)) (w_prev_free (view s)) h fs"
    by (simp_all add: heap_rep_def)
  from ring_first [OF this(1)] ring_first [OF this(2)] ring_distinct [OF this(1)] ring_distinct [OF this(2)]
  show "w_next_free (view s) h = hd (fs @ [h])" "w_next (view s) h = hd (xs @ [h])" "h \<notin> set xs" "h \<notin> set fs"
    by simp_all
  show "h \<noteq> 0" "h \<in> w_dom (view s)" using r by (auto simp: heap_rep_def)
qed

lemma mm_state_bounds:
  assumes "mm_state s h a e xs fs" "p \<in> set xs"
  shows "a \<le> w_ofs (view s) p" "w_ofs (view s) p + w_size (view s) p \<le> e" "0 < w_size (view s) p"
  using tiled_bounds [of "w_ofs (view s)" "w_size (view s)" a xs e p] assms
  by (auto simp: mm_state_def heap_rep_def)

lemma mm_free_list: "mm_state s h a e xs fs \<Longrightarrow> set fs = {p \<in> set xs. w_free (view s) p}"
  by (simp add: mm_state_def heap_rep_def)

text \<open>The result of an allocation: the first block of the free list that fits is sliced, if there is one.\<close>

lemma u_mmAllocMem_found:
  assumes "calloc_ok calloc" "mm_state s h a e xs fs" "k < 31"
    and "0 \<le> k \<Longrightarrow> 0 < sz \<Longrightarrow> find_fit h (2 ^ nat k - 1) sz start s (hd (fs @ [h])) =
      Some (case find (fits (view s) sz k start) fs of
            None \<Rightarrow> (h, 0) | Some p \<Rightarrow> (p, start_in k start (w_ofs (view s) p)))"
  shows "ok (u_mmAllocMem calloc h sz k start s) (\<lambda>(r, s').
    if 0 \<le> k \<and> 0 < sz \<and> (\<exists>p \<in> set xs. fits (view s) sz k start p)
    then \<exists>p \<in> set xs. fits (view s) sz k start p \<and>
           sliced calloc h a e (start_in k start (w_ofs (view s) p)) sz False (used (view s) xs) (r, s')
    else r = 0 \<and> s' = s)"
proof (cases "k < 0 \<or> sz \<le> 0")
  case True
  then show ?thesis by (auto simp: u_mmAllocMem_def)
next
  case False
  let ?v = "view s"
  note h = mm_state_sentinel [OF assms(2)]
  have rep: "heap_rep ?v h xs ([] @ fs)" using assms(2) by (simp add: mm_state_def)
  have sk: "0 < sz" "0 \<le> k" "k < 31" using False assms(3) by auto
  obtain c where c: "s h = Some c" "b_next_free c = w_next_free ?v h" using view_load [OF h(2)] by auto
  note ff = assms(4) [OF sk(2,1)]
  have ex: "(\<exists>p \<in> set xs. fits ?v sz k start p) \<longleftrightarrow> (\<exists>p \<in> set fs. fits ?v sz k start p)"
    using mm_free_list [OF assms(2)] by (auto simp: fits_def)
  show ?thesis
  proof (cases "find (fits ?v sz k start) fs")
    case None
    then have "find_fit h (2 ^ nat k - 1) sz start s (b_next_free c) = Some (h, 0)"
      using ff c(2) h(3) by simp
    moreover have "\<not> (\<exists>p \<in> set xs. fits ?v sz k start p)" using None ex by (auto simp: find_None_iff)
    ultimately show ?thesis using False sk(3) h(1) c(1) by (simp add: u_mmAllocMem_def)
  next
    case (Some p)
    then have "p \<in> set fs" and p: "fits ?v sz k start p" by (auto simp: find_Some_iff)
    then obtain us vs where fs: "fs = us @ p # vs" by (meson split_list)
    have "p \<in> set fs" by fact
    then have px: "p \<in> set xs" "p \<noteq> h" using mm_free_list [OF assms(2)] h(6) by auto
    have "w_ofs ?v p \<le> start_in k start (w_ofs ?v p)"
      using align_up_bounds(1) [of "w_ofs ?v p" k] by (simp add: start_in_def le_max_iff_disj)
    from SliceBlock_ok [OF assms(1) assms(2) [unfolded fs] this sk(1), of False]
    have "ok (SliceBlock calloc p (start_in k start (w_ofs ?v p)) sz False s)
       (sliced calloc h a e (start_in k start (w_ofs ?v p)) sz False (used ?v xs))"
      using p by (simp add: fits_def)
    moreover have "find_fit h (2 ^ nat k - 1) sz start s (b_next_free c) = Some (p, start_in k start (w_ofs ?v p))"
      using ff c(2) h(3) Some by simp
    moreover have "\<exists>p \<in> set xs. fits ?v sz k start p" using px(1) p by blast
    ultimately show ?thesis
      using False sk(3) h(1) c(1) px p
      by (auto simp: u_mmAllocMem_def intro!: bexI [of _ p] elim!: ok_mono)
  qed
qed

lemma u_mmAllocMem_ok:
  assumes "calloc_ok calloc" "mm_state s h a e xs fs" "0 \<le> a" "e < 2 ^ 31" "alloc_args_ok e sz k start"
  shows "u_mmAllocMem calloc h sz k start s \<noteq> None"
proof -
  have rep: "heap_rep (view s) h xs ([] @ fs)" using assms(2) by (simp add: mm_state_def)
  have b: "0 \<le> w_ofs (view s) p \<and> w_ofs (view s) p + w_size (view s) p < 2 ^ 31
      \<and> w_ofs (view s) p + 2 ^ nat k + sz \<le> 2 ^ 31"
    if "p \<in> set fs" "0 \<le> k" "0 < sz" for p
    using that mm_free_list [OF assms(2)] mm_state_bounds [OF assms(2), of p] assms(3-5)
    by (auto simp: alloc_args_ok_def)
  have k: "k < 31" "0 \<le> k \<Longrightarrow> 0 < sz \<Longrightarrow> start + sz < 2 ^ 31" using assms(5) by (auto simp: alloc_args_ok_def)
  from u_mmAllocMem_found [OF assms(1,2) k(1) find_fit_result [OF rep b _ k(2)]] show ?thesis
    by (auto simp: ok_def)
qed

lemma u_mmAllocMem_result:
  assumes "calloc_ok calloc" "mm_state s h a e xs fs" "u_mmAllocMem calloc h sz k start s = Some (r, s')"
  shows "if 0 \<le> k \<and> 0 < sz \<and> (\<exists>p \<in> set xs. fits (view s) sz k start p)
    then \<exists>p \<in> set xs. fits (view s) sz k start p \<and>
           sliced calloc h a e (start_in k start (w_ofs (view s) p)) sz False (used (view s) xs) (r, s')
    else r = 0 \<and> s' = s"
proof (cases "k < 0 \<or> sz \<le> 0")
  case True
  then show ?thesis using assms(3) by (auto simp: u_mmAllocMem_def)
next
  case False
  note h = mm_state_sentinel [OF assms(2)]
  have rep: "heap_rep (view s) h xs ([] @ fs)" using assms(2) by (simp add: mm_state_def)
  obtain c where c: "s h = Some c" "b_next_free c = hd (fs @ [h])" using view_load [OF h(2)] h(3) by auto
  have k: "k < 31" using assms(3) False h(1) by (auto simp: u_mmAllocMem_def split: if_splits)
  have "find_fit h (2 ^ nat k - 1) sz start s (hd (fs @ [h])) \<noteq> None"
    using assms(3) False h(1) k c by (auto simp: u_mmAllocMem_def bind_eq_Some_conv)
  then have ff: "find_fit h (2 ^ nat k - 1) sz start s (hd (fs @ [h])) =
      Some (case find (fits (view s) sz k start) fs of
            None \<Rightarrow> (h, 0) | Some p \<Rightarrow> (p, start_in k start (w_ofs (view s) p)))"
    using find_fit_partial [OF rep] by blast
  from u_mmAllocMem_found [OF assms(1,2) k ff] show ?thesis unfolding assms(3) by simp
qed

text \<open>What overflows: the shift, and the end of the allocation at the first block that is looked at.\<close>

lemma u_mmAllocMem_overflows:
  assumes "mm_state s h a e xs fs" "0 \<le> k" "0 < sz"
    and "31 \<le> k \<or> 2 ^ 31 \<le> start + sz \<and> (\<exists>p \<in> dom s - {h}. b_free (the (s p)))"
  shows "u_mmAllocMem calloc h sz k start s = None"
proof (cases "31 \<le> k")
  case True
  then show ?thesis using assms(2,3) mm_state_sentinel(1) [OF assms(1)] by (simp add: u_mmAllocMem_def)
next
  case False
  note h = mm_state_sentinel [OF assms(1)]
  have "dom s - {h} = set xs"
    using assms(1) h(5) by (auto simp: mm_state_def heap_rep_def view_dom [symmetric])
  then have "fs \<noteq> []" using False assms(4) mm_free_list [OF assms(1)] by (auto simp: view_def)
  then obtain p gs where fs: "fs = p # gs" by (cases fs) auto
  then have p: "p \<in> set xs" "p \<noteq> h" using mm_free_list [OF assms(1)] h(6) by auto
  then have "p \<in> w_dom (view s)" using assms(1) by (auto simp: mm_state_def heap_rep_def)
  then obtain b where b: "s p = Some b" using view_load by blast
  obtain c where c: "s h = Some c" "b_next_free c = p" using view_load [OF h(2)] h(3) fs by auto
  have start: "start \<le> (if x < start then start else x)" for x :: int by simp
  have over: "cint ((if x < start then start else x) + sz) = None" for x
    using False assms(4) start [of x] by (auto simp: cint_def)
  have "find_fit h (2 ^ nat k - 1) sz start s p = None"
    by (subst find_fit.simps) (simp add: p(2) b Let_def over del: add_is_0 split: option.split bind_split)
  then show ?thesis using False assms(2,3) h(1) c by (simp add: u_mmAllocMem_def)
qed

section \<open>Joining and freeing\<close>

definition join_view :: "heap_view \<Rightarrow> nat \<Rightarrow> nat \<Rightarrow> heap_view" where
  "join_view v p q = v\<lparr>
     w_size := (w_size v)(p := w_size v p + w_size v q),
     w_next := (w_next v)(p := w_next v q), w_prev := (w_prev v)(w_next v q := p),
     w_prev_free := (w_prev_free v)(w_next_free v q := w_prev_free v q),
     w_next_free := (w_next_free v)(w_prev_free v q := w_next_free v q)\<rparr>"

text \<open>The two views agree on every block but \<open>q\<close>, which only the first has.\<close>

definition without :: "heap_view \<Rightarrow> nat \<Rightarrow> heap_view \<Rightarrow> bool" where
  "without v q v' \<longleftrightarrow> w_dom v' = w_dom v - {q} \<and> (\<forall>x. x \<noteq> q \<longrightarrow>
     w_next v' x = w_next v x \<and> w_prev v' x = w_prev v x \<and> w_next_free v' x = w_next_free v x
   \<and> w_prev_free v' x = w_prev_free v x \<and> w_heap v' x = w_heap v x \<and> w_ofs v' x = w_ofs v x
   \<and> w_size v' x = w_size v x \<and> w_free v' x = w_free v x \<and> w_reserved v' x = w_reserved v x)"

lemma view_delete: "view s = v \<Longrightarrow> without v q (view (s(q := None)))"
  by (auto simp: without_def view_def)

definition same_blocks :: "heap_view \<Rightarrow> heap_view \<Rightarrow> nat list \<Rightarrow> bool" where
  "same_blocks v w xs \<longleftrightarrow>
     (\<forall>x \<in> set xs. w_ofs w x = w_ofs v x \<and> w_free w x = w_free v x \<and> w_reserved w x = w_reserved v x)"

lemma join_state:
  assumes "mm_state s h a e (us @ p # q # vs) fs" "w_free (view s) p" "w_free (view s) q"
    and "without (join_view (view s) p q) q (view s')"
  shows "mm_state s' h a e (us @ p # vs) (removeAll q fs)"
    "used (view s') (us @ p # vs) = used (view s) (us @ p # q # vs)"
    "same_blocks (view s) (view s') (us @ p # vs)"
proof -
  let ?v = "view s" and ?w = "view s'"
  have rep: "heap_rep ?v h (us @ p # q # vs) fs" and t: "tiled (w_ofs ?v) (w_size ?v) a (us @ p # q # vs) e"
    using assms(1) by (simp_all add: mm_state_def)
  have r: "ring (w_next ?v) (w_prev ?v) h ((us @ [p]) @ q # vs)" "ring (w_next_free ?v) (w_prev_free ?v) h fs"
    and f: "set fs = {x \<in> set (us @ p # q # vs). w_free ?v x}"
    and d: "w_dom ?v = set (h # us @ p # q # vs)" "0 \<notin> set (h # us @ p # q # vs)" "\<not> w_free ?v h"
    and b: "\<forall>x \<in> set (us @ p # q # vs). w_heap ?v x = h \<and> 0 < w_size ?v x"
    using rep by (simp_all add: heap_rep_def)
  have dist: "distinct (h # us @ p # q # vs)" using ring_distinct [OF r(1)] by simp
  have w: "w_dom ?w = w_dom ?v - {q}"
    "\<And>x. x \<noteq> q \<Longrightarrow> w_next ?w x = ((w_next ?v)(p := w_next ?v q)) x"
    "\<And>x. x \<noteq> q \<Longrightarrow> w_prev ?w x = ((w_prev ?v)(w_next ?v q := p)) x"
    "\<And>x. x \<noteq> q \<Longrightarrow> w_next_free ?w x = ((w_next_free ?v)(w_prev_free ?v q := w_next_free ?v q)) x"
    "\<And>x. x \<noteq> q \<Longrightarrow> w_prev_free ?w x = ((w_prev_free ?v)(w_next_free ?v q := w_prev_free ?v q)) x"
    "\<And>x. x \<noteq> q \<Longrightarrow> w_size ?w x = ((w_size ?v)(p := w_size ?v p + w_size ?v q)) x"
    "\<And>x. x \<noteq> q \<Longrightarrow> w_heap ?w x = w_heap ?v x \<and> w_ofs ?w x = w_ofs ?v x \<and> w_free ?w x = w_free ?v x
       \<and> w_reserved ?w x = w_reserved ?v x"
    using assms(4) by (simp_all add: without_def join_view_def)
  have keep: "\<forall>x \<in> set (h # us @ p # vs). x \<noteq> q \<and> w_heap ?w x = w_heap ?v x \<and> w_ofs ?w x = w_ofs ?v x
      \<and> w_free ?w x = w_free ?v x \<and> w_reserved ?w x = w_reserved ?v x"
  proof
    fix x assume "x \<in> set (h # us @ p # vs)"
    then have "x \<noteq> q" using dist by auto
    then show "x \<noteq> q \<and> w_heap ?w x = w_heap ?v x \<and> w_ofs ?w x = w_ofs ?v x
      \<and> w_free ?w x = w_free ?v x \<and> w_reserved ?w x = w_reserved ?v x" using w(7) by simp
  qed
  have size: "\<forall>x \<in> set us \<union> set vs. w_size ?w x = w_size ?v x"
    using keep w(6) dist by auto
  have qfs: "q \<in> set fs" using f assms(3) by auto
  then obtain gs hs where fs: "fs = gs @ q # hs" by (meson split_list)
  have distf: "distinct (h # gs @ q # hs)" using ring_distinct [OF r(2)] fs by simp
  then have rem: "removeAll q fs = gs @ hs" by (simp add: fs)
  have pq: "w_prev ?v q = p" using ring_prev [OF r(1)] by simp
  have "ring (w_next ?w) (w_prev ?w) h ((us @ [p]) @ vs)"
  proof (rule ring_cong [OF ring_remove [OF r(1)]])
    fix x assume "x \<in> insert h (set ((us @ [p]) @ vs))"
    then have "x \<noteq> q" using dist by auto
    then show "w_next ?w x = ((w_next ?v)(w_prev ?v q := w_next ?v q)) x
        \<and> w_prev ?w x = ((w_prev ?v)(w_next ?v q := w_prev ?v q)) x"
      using w(2,3) pq by simp
  qed
  then have "ring (w_next ?w) (w_prev ?w) h (us @ p # vs)" by simp
  moreover have "ring (w_next_free ?w) (w_prev_free ?w) h (gs @ hs)"
  proof (rule ring_cong [OF ring_remove [OF r(2) [unfolded fs]]])
    fix x assume "x \<in> insert h (set (gs @ hs))"
    then have "x \<noteq> q" using distf by auto
    then show "w_next_free ?w x = ((w_next_free ?v)(w_prev_free ?v q := w_next_free ?v q)) x
        \<and> w_prev_free ?w x = ((w_prev_free ?v)(w_next_free ?v q := w_prev_free ?v q)) x"
      using w(4,5) by simp
  qed
  moreover have "set (gs @ hs) = {x \<in> set (us @ p # vs). w_free ?w x}"
  proof -
    have "set (gs @ hs) = set fs - {q}" using distf by (auto simp: fs)
    also have "\<dots> = {x \<in> set (us @ p # vs). w_free ?v x}" unfolding f using dist by auto
    also have "\<dots> = {x \<in> set (us @ p # vs). w_free ?w x}" using keep by (intro Collect_cong) auto
    finally show ?thesis .
  qed
  moreover have "w_dom ?w = set (h # us @ p # vs)" unfolding w(1) d(1) using dist by auto
  moreover have "\<not> w_free ?w h" using keep d(3) by auto
  moreover have "\<forall>x \<in> set (us @ p # vs). w_heap ?w x = h \<and> 0 < w_size ?w x"
  proof
    fix x assume "x \<in> set (us @ p # vs)"
    then have "x \<noteq> q" "x \<in> set (us @ p # q # vs)" using dist by auto
    then show "w_heap ?w x = h \<and> 0 < w_size ?w x" using bspec [OF b, of x] bspec [OF b, of q] w(6,7) [of x] by auto
  qed
  ultimately have "heap_rep ?w h (us @ p # vs) (removeAll q fs)"
    using d(2) by (simp add: heap_rep_def rem)
  moreover have "tiled (w_ofs ?w) (w_size ?w) a (us @ p # vs) e"
  proof -
    have t1: "tiled (w_ofs ?v) (w_size ?v) a us (w_ofs ?v p)" "w_ofs ?v q = w_ofs ?v p + w_size ?v p"
      "tiled (w_ofs ?v) (w_size ?v) (w_ofs ?v q + w_size ?v q) vs e"
      using t by (simp_all add: tiled_append)
    have "tiled (w_ofs ?w) (w_size ?w) a us (w_ofs ?v p)"
      by (rule tiled_cong [OF t1(1)]) (use keep size in auto)
    moreover have "tiled (w_ofs ?w) (w_size ?w) (w_ofs ?v q + w_size ?v q) vs e"
      by (rule tiled_cong [OF t1(3)]) (use keep size in auto)
    ultimately show ?thesis using t1(2) w(6) [of p] keep by (simp add: tiled_append add.assoc)
  qed
  ultimately show "mm_state s' h a e (us @ p # vs) (removeAll q fs)" by (simp add: mm_state_def)
  show "same_blocks ?v ?w (us @ p # vs)" using keep by (simp add: same_blocks_def)
  have nf: "{x \<in> set (us @ p # vs). \<not> w_free ?w x} = {x \<in> set (us @ p # q # vs). \<not> w_free ?v x}"
    using keep assms(3) by auto
  have "(x, w_ofs ?w x, w_size ?w x, w_reserved ?w x) = (x, w_ofs ?v x, w_size ?v x, w_reserved ?v x)"
    if "x \<in> {x \<in> set (us @ p # q # vs). \<not> w_free ?v x}" for x
    using that assms(2,3) keep size by auto
  then show "used ?w (us @ p # vs) = used ?v (us @ p # q # vs)"
    unfolding used_def nf by (intro image_cong refl)
qed

lemma Join2Blocks_ok:
  assumes "mm_state s h a e (us @ p # vs) fs" "0 \<le> a" "e < 2 ^ 31"
  shows "ok (Join2Blocks p s) (\<lambda>(r, s').
    if w_free (view s) p \<and> vs \<noteq> [] \<and> w_free (view s) (hd vs)
    then r = 1 \<and> mm_state s' h a e (us @ p # tl vs) (removeAll (hd vs) fs)
       \<and> used (view s') (us @ p # tl vs) = used (view s) (us @ p # vs)
       \<and> same_blocks (view s) (view s') (us @ p # tl vs)
    else r = 0 \<and> s' = s)"
proof -
  let ?v = "view s"
  have rep: "heap_rep ?v h (us @ p # vs) fs" using assms(1) by (simp add: mm_state_def)
  then have r: "ring (w_next ?v) (w_prev ?v) h (us @ p # vs)" by (simp add: heap_rep_def)
  note n = heap_rep_next [OF rep] and nx = ring_next [OF r]
  obtain b where b: "s p = Some b" "b_free b = w_free ?v p" "b_next b = w_next ?v p" "b_size b = w_size ?v p"
    using view_load [OF n(3)] by auto
  obtain c where c: "s (w_next ?v p) = Some c" "b_free c = w_free ?v (w_next ?v p)"
      "b_next c = w_next ?v (w_next ?v p)" "b_size c = w_size ?v (w_next ?v p)"
    using view_load [OF n(1)] by auto
  have "\<not> w_free ?v h" using rep by (simp add: heap_rep_def)
  then have cond: "w_free ?v (w_next ?v p) \<longleftrightarrow> vs \<noteq> [] \<and> w_free ?v (hd vs)"
    using nx by (cases vs) auto
  show ?thesis
  proof (cases "w_free ?v p \<and> vs \<noteq> [] \<and> w_free ?v (hd vs)")
    case False
    then show ?thesis using b c cond by (auto simp: Join2Blocks_def Let_def)
  next
    case True
    then obtain q vs' where vs: "vs = q # vs'" and fr: "w_free ?v p" "w_free ?v q" by (cases vs) auto
    have q: "w_next ?v p = q" using nx vs by simp
    note st = assms(1) [unfolded vs]
    have "heap_rep ?v h ((us @ [p]) @ q # vs') fs" using st by (simp add: mm_state_def)
    note nq = heap_rep_next [OF this]
    have "q \<in> set fs" using mm_free_list [OF st] fr by auto
    then obtain gs hs where "fs = gs @ q # hs" by (meson split_list)
    then have "heap_rep ?v h (us @ p # vs) (gs @ q # hs)" using rep by simp
    note nfq = heap_rep_next_free [OF this]
    have t: "tiled (w_ofs ?v) (w_size ?v) a (us @ p # q # vs') e" using st by (simp add: mm_state_def)
    have "w_ofs ?v q = w_ofs ?v p + w_size ?v p" using t by (simp add: tiled_append)
    then have sum: "cint (w_size ?v p + w_size ?v q) = Some (w_size ?v p + w_size ?v q)"
      using mm_state_bounds [OF st, of p] mm_state_bounds [OF st, of q] assms(2,3) by (intro cint_nonneg) auto
    have "ok (Join2Blocks p s) (\<lambda>(r, s'). r = 1 \<and> without (join_view ?v p q) q (view s'))"
      using fr b c q sum n nq nfq
      by (simp add: Join2Blocks_def Let_def del: fun_upd_apply)
        (intro modify_rules ok_mono [OF unlink_free_ok] view_delete;
         use n nq nfq q in \<open>simp add: join_view_def del: fun_upd_apply\<close>)
    then show ?thesis
      using True vs join_state [OF st fr] by (auto elim!: ok_mono)
  qed
qed

definition free_view :: "heap_view \<Rightarrow> nat \<Rightarrow> nat \<Rightarrow> heap_view" where
  "free_view v h p = v\<lparr>w_free := (w_free v)(p := True),
     w_next_free := (w_next_free v)(p := w_next_free v h, h := p),
     w_prev_free := (w_prev_free v)(p := h, w_next_free v h := p)\<rparr>"

lemma free_rep:
  assumes "heap_rep v h xs fs" "p \<in> set xs" "\<not> w_free v p"
  shows "heap_rep (free_view v h p) h xs (p # fs)"
proof -
  let ?w = "free_view v h p"
  have r: "ring (w_next_free v) (w_prev_free v) h fs" "ring (w_next v) (w_prev v) h xs"
    and f: "set fs = {x \<in> set xs. w_free v x}" "\<not> w_free v h"
    using assms(1) by (simp_all add: heap_rep_def)
  have "h \<notin> set xs" using ring_distinct [OF r(2)] by simp
  then have p: "p \<notin> set (h # fs)" using f assms(2,3) by auto
  have "ring (w_next_free ?w) (w_prev_free ?w) h (p # fs)"
    using ring_insert_first [OF r(1) p] by (simp add: free_view_def)
  moreover have "set (p # fs) = {x \<in> set xs. w_free ?w x}"
    using f(1) assms(2) by (auto simp: free_view_def)
  ultimately show ?thesis
    using assms f(2) p by (simp add: heap_rep_def free_view_def)
qed

lemma free_state:
  assumes "mm_state s h a e xs fs" "p \<in> set xs" "\<not> w_free (view s) p"
    and "view s' = free_view (view s) h p"
  shows "mm_state s' h a e xs (p # fs)"
    "used (view s') xs = used (view s) xs - {(p, w_ofs (view s) p, w_size (view s) p, w_reserved (view s) p)}"
proof -
  show "mm_state s' h a e xs (p # fs)"
    using free_rep [of "view s" h xs fs p] assms by (simp add: mm_state_def) (simp add: free_view_def)
  show "used (view s') xs = used (view s) xs - {(p, w_ofs (view s) p, w_size (view s) p, w_reserved (view s) p)}"
    using assms(2,3) unfolding assms(4) used_def by (auto simp: free_view_def)
qed

text \<open>The blocks after a release: the neighbours that were free become one with the released block.\<close>

definition merged :: "heap_view \<Rightarrow> nat list \<Rightarrow> nat \<Rightarrow> nat list \<Rightarrow> nat list" where
  "merged v us p vs =
    (let vs' = (if vs \<noteq> [] \<and> w_free v (hd vs) then tl vs else vs)
     in if us \<noteq> [] \<and> w_free v (last us) then us @ vs' else us @ p # vs')"

lemma join_neighbours_ok:
  assumes "mm_state s h a e (us @ p # vs) fs" "0 \<le> a" "e < 2 ^ 31" "w_free (view s) p"
  shows "ok (Option.bind (Join2Blocks p s) (\<lambda>(_, s).
      Option.bind (s p) (\<lambda>m.
      Option.bind (if b_prev m \<noteq> b_heap m then Join2Blocks (b_prev m) s else Some (0, s)) (\<lambda>(_, s). Some (0, s)))))
    (\<lambda>(r, s'). r = (0 :: int) \<and> (\<exists>fs'. mm_state s' h a e (merged (view s) us p vs) fs')
       \<and> used (view s') (merged (view s) us p vs) = used (view s) (us @ p # vs)
       \<and> same_blocks (view s) (view s') (merged (view s) us p vs))"
proof -
  let ?v = "view s"
  define vs' where "vs' = (if vs \<noteq> [] \<and> w_free ?v (hd vs) then tl vs else vs)"
  have m: "merged ?v us p vs = (if us \<noteq> [] \<and> w_free ?v (last us) then us @ vs' else us @ p # vs')"
    by (simp add: merged_def vs'_def)
  have right: "ok (Join2Blocks p s) (\<lambda>(r, s'). (\<exists>fs'. mm_state s' h a e (us @ p # vs') fs')
      \<and> used (view s') (us @ p # vs') = used ?v (us @ p # vs) \<and> same_blocks ?v (view s') (us @ p # vs'))"
    using assms(1,4) by (auto intro!: ok_mono [OF Join2Blocks_ok [OF assms(1-3)]] simp: vs'_def same_blocks_def split: if_splits)
  let ?m = "if us \<noteq> [] \<and> w_free ?v (last us) then us @ vs' else us @ p # vs'"
  have left: "ok (Option.bind (s1 p) (\<lambda>m.
      Option.bind (if b_prev m \<noteq> b_heap m then Join2Blocks (b_prev m) s1 else Some (0, s1)) (\<lambda>(_, s). Some (0, s))))
    (\<lambda>(r, s'). r = (0 :: int) \<and> (\<exists>fs'. mm_state s' h a e ?m fs')
       \<and> used (view s') ?m = used ?v (us @ p # vs) \<and> same_blocks ?v (view s') ?m)"
    if st: "mm_state s1 h a e (us @ p # vs') fs1"
      and u: "used (view s1) (us @ p # vs') = used ?v (us @ p # vs)"
      and sb: "same_blocks ?v (view s1) (us @ p # vs')" for s1 fs1
  proof -
    have rep: "heap_rep (view s1) h (us @ p # vs') fs1" using st by (simp add: mm_state_def)
    note n = heap_rep_next [OF rep]
    have rg: "ring (w_next (view s1)) (w_prev (view s1)) h (us @ p # vs')" and hp: "w_heap (view s1) p = h"
      using rep by (simp_all add: heap_rep_def)
    obtain c where c: "s1 p = Some c" "b_prev c = last (h # us)" "b_heap c = h"
      using view_load [OF n(3)] ring_prev [OF rg] hp by auto
    have "h \<notin> set us" using ring_distinct [OF rg] by simp
    show ?thesis
    proof (cases us rule: rev_cases)
      case Nil
      then show ?thesis using c st u sb by auto
    next
      case (snoc us' l)
      then have l: "b_prev c = l" "l \<noteq> h" using c(2) \<open>h \<notin> set us\<close> by auto
      have "mm_state s1 h a e (us' @ l # p # vs') fs1" using st snoc by simp
      note J = Join2Blocks_ok [OF this assms(2,3)]
      have fr: "w_free (view s1) l = w_free ?v l" "w_free (view s1) p"
        using sb snoc assms(4) by (simp_all add: same_blocks_def)
      have e: "(if b_prev c \<noteq> b_heap c then Join2Blocks (b_prev c) s1 else Some (0, s1)) = Join2Blocks l s1"
        using l c(3) by simp
      show ?thesis
        unfolding c(1) ok_Some ok_bind e
        by (rule ok_mono [OF J]) (use fr st u sb snoc in \<open>auto simp: same_blocks_def split: if_splits\<close>)
    qed
  qed
  show ?thesis
    unfolding ok_bind [of "Join2Blocks p s"] m
    by (rule ok_mono [OF right]) (clarsimp simp del: ok_bind split del: if_split, erule (2) left)
qed

lemma u_mmFreeMem_ok:
  assumes "mm_state s h a e (us @ p # vs) fs" "0 \<le> a" "e < 2 ^ 31"
  shows "ok (u_mmFreeMem p s) (\<lambda>(r, s').
    if w_free (view s) p \<or> w_reserved (view s) p then r = - 1 \<and> s' = s
    else r = 0 \<and> (\<exists>fs'. mm_state s' h a e (merged (view s) us p vs) fs')
       \<and> used (view s') (merged (view s) us p vs)
           = used (view s) (us @ p # vs) - {(p, w_ofs (view s) p, w_size (view s) p, False)}
       \<and> (\<forall>x \<in> set (merged (view s) us p vs). w_ofs (view s') x = w_ofs (view s) x
            \<and> w_free (view s') x = (x = p \<or> w_free (view s) x)))"
proof -
  let ?v = "view s"
  have rep: "heap_rep ?v h (us @ p # vs) fs" using assms(1) by (simp add: mm_state_def)
  note n = heap_rep_next [OF rep] and h = mm_state_sentinel [OF assms(1)]
  have p: "p \<noteq> 0" "w_heap ?v p = h" using rep by (simp_all add: heap_rep_def)
  obtain b where b: "s p = Some b" "b_free b = w_free ?v p" "b_reserved b = w_reserved ?v p" "b_heap b = h"
    using view_load [OF n(3)] p(2) by auto
  show ?thesis
  proof (cases "w_free ?v p \<or> w_reserved ?v p")
    case True
    then show ?thesis using b p(1) by (auto simp: u_mmFreeMem_def)
  next
    case False
    have nh: "w_next_free ?v h \<in> w_dom ?v" "w_next_free ?v h \<noteq> p"
      using h rep False n(3) by (cases fs; auto simp: heap_rep_def)+
    have ph: "p \<noteq> h" using h(5) by auto
    have step: "ok (Option.bind (modify p (b_free_update (\<lambda>_. True)) s) (\<lambda>s.
        Option.bind (s h) (\<lambda>hb.
        Option.bind (modify p (b_next_free_update (\<lambda>_. b_next_free hb)) s) (\<lambda>s.
        Option.bind (modify p (b_prev_free_update (\<lambda>_. h)) s) (\<lambda>s.
        Option.bind (s p) (\<lambda>m.
        Option.bind (modify (b_next_free m) (b_prev_free_update (\<lambda>_. p)) s) (\<lambda>s.
        Option.bind (s p) (\<lambda>m.
        modify (b_prev_free m) (b_next_free_update (\<lambda>_. p)) s))))))))
      (\<lambda>s'. view s' = free_view ?v h p)"
      unfolding ok_bind
      by (intro run) (use n h nh ph in \<open>auto simp: free_view_def\<close>)
    have fin: "ok (Option.bind (Join2Blocks p s') (\<lambda>(_, s).
        Option.bind (s p) (\<lambda>m.
        Option.bind (if b_prev m \<noteq> b_heap m then Join2Blocks (b_prev m) s else Some (0, s)) (\<lambda>(_, s). Some (0, s)))))
      (\<lambda>(r, s'). r = (0 :: int) \<and> (\<exists>fs'. mm_state s' h a e (merged ?v us p vs) fs')
       \<and> used (view s') (merged ?v us p vs) = used ?v (us @ p # vs) - {(p, w_ofs ?v p, w_size ?v p, False)}
       \<and> (\<forall>x \<in> set (merged ?v us p vs). w_ofs (view s') x = w_ofs ?v x
            \<and> w_free (view s') x = (x = p \<or> w_free ?v x)))"
      if v: "view s' = free_view ?v h p" for s'
    proof -
      have px: "p \<in> set (us @ p # vs)" by simp
      have np: "\<not> w_free ?v p" using False by simp
      note st = free_state [OF assms(1) px np v]
      have fp: "w_free (view s') x \<longleftrightarrow> x = p \<or> w_free ?v x" and o: "w_ofs (view s') x = w_ofs ?v x" for x
        by (simp_all add: v free_view_def)
      have "ring (w_next ?v) (w_prev ?v) h (us @ p # vs)" using rep by (simp add: heap_rep_def)
      from ring_distinct [OF this] have "p \<notin> set us" "p \<notin> set vs" by simp_all
      then have m: "merged (view s') us p vs = merged ?v us p vs"
        by (cases vs; cases us rule: rev_cases) (auto simp: merged_def fp)
      have "w_free (view s') p" by (simp add: fp)
      from join_neighbours_ok [OF st(1) assms(2,3) this] show ?thesis
        unfolding m by (rule ok_mono) (use st(2) False fp o in \<open>auto simp: same_blocks_def\<close>)
    qed
    show ?thesis
      using False p(1) b ok_mono [OF step fin] by (simp add: u_mmFreeMem_def)
  qed
qed

section \<open>Lookup and destruction\<close>

lemma find_ofs_result:
  assumes "heap_rep (view s) h xs fs" "xs = gs @ ps"
  shows "find_ofs h start s (hd (ps @ [h])) =
    Some (case find (\<lambda>p. w_ofs (view s) p = start) ps of None \<Rightarrow> 0 | Some p \<Rightarrow> p)"
  using assms(2)
proof (induction ps arbitrary: gs)
  case Nil
  then show ?case by (simp add: find_ofs.simps)
next
  case (Cons p ps)
  note rep = assms(1) [unfolded Cons.prems]
  note n = heap_rep_next [OF rep]
  have r: "ring (w_next (view s)) (w_prev (view s)) h (gs @ p # ps)" using rep by (simp add: heap_rep_def)
  obtain b where b: "s p = Some b" "b_ofs b = w_ofs (view s) p" "b_next b = hd (ps @ [h])"
    using view_load [OF n(3)] ring_next [OF r] by auto
  have "p \<noteq> h" using ring_distinct [OF r] by auto
  then have "find_ofs h start s p = (if w_ofs (view s) p = start then Some p else find_ofs h start s (hd (ps @ [h])))"
    by (subst find_ofs.simps) (simp add: b)
  then show ?case using Cons.IH [of "gs @ [p]"] Cons.prems by simp
qed

lemma u_mmFindBlock_ok:
  assumes "mm_state s h a e xs fs"
  shows "\<exists>r. u_mmFindBlock h start s = Some r \<and>
    (if r = 0 then \<forall>p \<in> set xs. w_ofs (view s) p \<noteq> start else r \<in> set xs \<and> w_ofs (view s) r = start)"
proof -
  note h = mm_state_sentinel [OF assms]
  have rep: "heap_rep (view s) h xs fs" using assms by (simp add: mm_state_def)
  obtain c where c: "s h = Some c" "b_next c = w_next (view s) h" using view_load [OF h(2)] by auto
  have z: "0 \<notin> set xs" using rep by (simp add: heap_rep_def)
  have f: "u_mmFindBlock h start s = Some (case find (\<lambda>p. w_ofs (view s) p = start) xs of None \<Rightarrow> 0 | Some p \<Rightarrow> p)"
    using find_ofs_result [OF rep, of "[]" xs start] c h(4) by (simp add: u_mmFindBlock_def)
  show ?thesis
  proof (cases "find (\<lambda>p. w_ofs (view s) p = start) xs")
    case None
    then have "\<forall>p \<in> set xs. w_ofs (view s) p \<noteq> start" by (auto simp: find_None_iff)
    then show ?thesis using f None by simp
  next
    case (Some p)
    then have "p \<in> set xs" "w_ofs (view s) p = start" by (auto simp: find_Some_iff)
    then show ?thesis using f Some z by (cases "p = 0") auto
  qed
qed

lemma destroy_from_result:
  assumes "ring (\<lambda>p. b_next (the (s p))) pv h (gs @ ps)" "set ps \<subseteq> dom s"
    and "\<And>p. p \<in> set ps \<Longrightarrow> t p = s p"
  shows "\<exists>t'. destroy_from h (hd (ps @ [h])) t = Some t' \<and> dom t' = dom t - set ps"
  using assms
proof (induction ps arbitrary: gs t)
  case Nil
  then show ?case by (simp add: destroy_from.simps)
next
  case (Cons p ps)
  have d: "distinct (h # gs @ p # ps)" by (rule ring_distinct [OF Cons.prems(1)])
  obtain b where b: "s p = Some b" using Cons.prems(2) by auto
  have n: "b_next b = hd (ps @ [h])" using ring_next [OF Cons.prems(1)] b by simp
  have "\<exists>t'. destroy_from h (hd (ps @ [h])) (t(p := None)) = Some t' \<and> dom t' = dom (t(p := None)) - set ps"
    by (rule Cons.IH [of "gs @ [p]"]) (use Cons.prems d in auto)
  then show ?case
    using d b n Cons.prems(3) [of p] by (subst destroy_from.simps) auto
qed

lemma u_mmDestroy_ok:
  assumes "mm_state s h a e xs fs"
  shows "\<exists>s'. u_mmDestroy h s = Some s' \<and> dom s' = dom s - set (h # xs)"
proof -
  note h = mm_state_sentinel [OF assms]
  have rep: "heap_rep (view s) h xs fs" using assms by (simp add: mm_state_def)
  then have r: "ring (\<lambda>p. b_next (the (s p))) (w_prev (view s)) h ([] @ xs)" and d: "set xs \<subseteq> dom s"
    by (auto simp: heap_rep_def view_def)
  obtain c where c: "s h = Some c" "b_next c = hd (xs @ [h])" using view_load [OF h(2)] h(4) by auto
  show ?thesis
    using destroy_from_result [OF r d, of s] c h(1) by (auto simp: u_mmDestroy_def)
qed

section \<open>Runs\<close>

lemma u_mmInit_ok:
  assumes "calloc_ok calloc" "u_mmInit calloc Map.empty a n = (h, s)" "h \<noteq> 0"
  shows "\<exists>b. mm_state s h a (a + n) [b] [b] \<and> used (view s) [b] = {}"
proof -
  have n: "0 < n" using assms(2,3) by (auto simp: u_mmInit_def split: if_splits)
  obtain b where b: "calloc Map.empty = Some h" "calloc [h \<mapsto> zero_block] = Some b"
    and s: "s = [h \<mapsto> zero_block\<lparr>b_next := b, b_prev := b, b_next_free := b, b_prev_free := b\<rparr>,
      b \<mapsto> zero_block\<lparr>b_heap := h, b_next := h, b_prev := h, b_next_free := h, b_prev_free := h,
        b_ofs := a, b_size := n, b_free := True\<rparr>]"
    using assms(2,3) n by (auto simp: u_mmInit_def Let_def split: option.splits)
  have "b \<noteq> 0 \<and> b \<notin> dom [h \<mapsto> zero_block]" using assms(1) b(2) unfolding calloc_ok_def by blast
  then have "b \<noteq> 0" "b \<noteq> h" by auto
  then have "heap_rep (view s) h [b] [b]"
    using assms(3) n by (auto simp: heap_rep_def ring_def view_def s zero_block_def)
  moreover have "w_ofs (view s) b = a" "w_size (view s) b = n" "w_free (view s) b"
    by (simp_all add: view_def s)
  ultimately show ?thesis by (auto simp: mm_state_def used_def)
qed

text \<open>
  The states a client can bring a new heap, the only one in its store, to.  Freed blocks are \<open>NULL\<close> or blocks
  of the heap; the arguments of an allocation are arbitrary.  Each call has its own allocator of
  descriptors: within a call it is asked twice at most, on different stores, so every pattern of failures is
  covered.
\<close>

inductive mm_reach :: "nat \<Rightarrow> int \<Rightarrow> int \<Rightarrow> store \<Rightarrow> bool" for h a e where
  init: "calloc_ok calloc \<Longrightarrow> u_mmInit calloc Map.empty a (e - a) = (h, s) \<Longrightarrow> h \<noteq> 0 \<Longrightarrow> mm_reach h a e s"
| alloc: "mm_reach h a e s \<Longrightarrow> calloc_ok calloc \<Longrightarrow>
    u_mmAllocMem calloc h sz k start s = Some (r, s') \<Longrightarrow> mm_reach h a e s'"
| free: "mm_reach h a e s \<Longrightarrow> p = 0 \<or> p \<in> dom s - {h} \<Longrightarrow>
    u_mmFreeMem p s = Some (r, s') \<Longrightarrow> mm_reach h a e s'"

text \<open>The blocks in use: address, offset and size.\<close>

definition in_use :: "store \<Rightarrow> nat \<Rightarrow> (nat \<times> int \<times> int) set" where
  "in_use s h = (\<lambda>p. (p, b_ofs (the (s p)), b_size (the (s p)))) ` {p \<in> dom s - {h}. \<not> b_free (the (s p))}"

lemma mm_state_dom: "mm_state s h a e xs fs \<Longrightarrow> dom s - {h} = set xs"
  using mm_state_sentinel(5) [of s h a e xs fs] by (auto simp: mm_state_def heap_rep_def view_dom [symmetric])

lemma used_in_use:
  assumes "mm_state s h a e xs fs" "\<forall>x \<in> set xs. \<not> w_free (view s) x \<longrightarrow> \<not> w_reserved (view s) x"
  shows "used (view s) xs = (\<lambda>(p, ofs, n). (p, ofs, n, False)) ` in_use s h"
  using assms(2) unfolding used_def in_use_def mm_state_dom [OF assms(1)] image_image
  by (intro image_cong) (auto simp: view_def)

definition mm_inv :: "store \<Rightarrow> nat \<Rightarrow> int \<Rightarrow> int \<Rightarrow> bool" where
  "mm_inv s h a e \<longleftrightarrow> (\<exists>xs fs. mm_state s h a e xs fs \<and> (\<forall>u \<in> used (view s) xs. \<not> snd (snd (snd u))))"

lemma not_reserved:
  "(\<forall>u \<in> used v xs. \<not> snd (snd (snd u))) \<longleftrightarrow> (\<forall>x \<in> set xs. \<not> w_free v x \<longrightarrow> \<not> w_reserved v x)"
  by (auto simp: used_def)

lemma filter_tag:
  "{u \<in> (\<lambda>(p, ofs, n). (p, ofs, n, False)) ` A. fst u \<noteq> p} = (\<lambda>(p, ofs, n). (p, ofs, n, False)) ` {u \<in> A. fst u \<noteq> p}"
  by force

text \<open>Allocation as the client sees it.  When it returns \<open>NULL\<close> although a block fits, the descriptor it asked
  for last was refused, on the store that it leaves.\<close>

definition alloc_result ::
  "calloc \<Rightarrow> nat \<Rightarrow> int \<Rightarrow> int \<Rightarrow> int \<Rightarrow> int \<Rightarrow> int \<Rightarrow> store \<Rightarrow> nat \<Rightarrow> store \<Rightarrow> bool" where
  "alloc_result calloc h a e sz k start s r s' \<longleftrightarrow>
     (if r = 0 then in_use s' h = in_use s h \<and>
        (k < 0 \<or> sz \<le> 0 \<or> (\<forall>p \<in> dom s - {h}. \<not> fits (view s) sz k start p) \<or> calloc s' = None)
      else \<exists>at. in_use s' h = insert (r, at, sz) (in_use s h) \<and> r \<notin> fst ` in_use s h \<and>
        a \<le> at \<and> at + sz \<le> e \<and> start \<le> at \<and> (at = start \<or> 2 ^ nat k dvd at))"

lemma inj_used: "(\<lambda>(p, ofs, n). (p, ofs, n, False)) ` A = (\<lambda>(p, ofs, n). (p, ofs, n, False)) ` B \<longleftrightarrow> A = B"
  by (rule inj_image_eq_iff) (auto simp: inj_on_def)

lemma alloc_step:
  assumes "calloc_ok calloc" "mm_inv s h a e" "u_mmAllocMem calloc h sz k start s = Some (r, s')"
  shows "mm_inv s' h a e \<and> alloc_result calloc h a e sz k start s r s'"
proof -
  obtain xs fs where st: "mm_state s h a e xs fs" and nr: "\<forall>u \<in> used (view s) xs. \<not> snd (snd (snd u))"
    using assms(2) by (auto simp: mm_inv_def)
  note d = mm_state_dom [OF st]
  note u = used_in_use [OF st nr [unfolded not_reserved]]
  note res = u_mmAllocMem_result [OF assms(1) st assms(3)]
  show ?thesis
  proof (cases "0 \<le> k \<and> 0 < sz \<and> (\<exists>p \<in> set xs. fits (view s) sz k start p)")
    case False
    then show ?thesis using res assms(2) d by (auto simp: alloc_result_def)
  next
    case True
    then obtain p where p: "p \<in> set xs" "fits (view s) sz k start p"
      and sl: "sliced calloc h a e (start_in k start (w_ofs (view s) p)) sz False (used (view s) xs) (r, s')"
      using res by auto
    let ?at = "start_in k start (w_ofs (view s) p)"
    obtain ys gs where st': "mm_state s' h a e ys gs"
      and c: "if r = 0 then used (view s') ys = used (view s) xs \<and> calloc s' = None
        else used (view s') ys = insert (r, ?at, sz, False) (used (view s) xs) \<and> r \<notin> fst ` used (view s) xs"
      using sl by (auto simp: sliced_def)
    have nr': "\<forall>u \<in> used (view s') ys. \<not> snd (snd (snd u))" using c nr by (auto split: if_splits)
    note u' = used_in_use [OF st' nr' [unfolded not_reserved]]
    have "a \<le> ?at" "?at + sz \<le> e"
      using mm_state_bounds [OF st p(1)] p(2) align_up_bounds(1) [of "w_ofs (view s) p" k]
      by (auto simp: fits_def start_in_def)
    moreover have "start \<le> ?at" "?at = start \<or> 2 ^ nat k dvd ?at"
      using align_up_bounds(3) [of k "w_ofs (view s) p"] by (auto simp: start_in_def max_def)
    moreover have "in_use s' h = insert (r, ?at, sz) (in_use s h) \<and> r \<notin> fst ` in_use s h" if "r \<noteq> 0"
    proof -
      have "used (view s') ys = insert (r, ?at, sz, False) (used (view s) xs)" using c that by simp
      then have "(\<lambda>(p, ofs, n). (p, ofs, n, False)) ` in_use s' h
          = (\<lambda>(p, ofs, n). (p, ofs, n, False)) ` insert (r, ?at, sz) (in_use s h)"
        unfolding u u' by simp
      moreover have "fst ` used (view s) xs = fst ` in_use s h" unfolding u image_image by force
      then have "r \<notin> fst ` in_use s h" using c that by simp
      ultimately show ?thesis unfolding inj_used by blast
    qed
    moreover have "in_use s' h = in_use s h \<and> calloc s' = None" if "r = 0"
      using c that unfolding u u' inj_used by auto
    ultimately have "alloc_result calloc h a e sz k start s r s'"
      unfolding alloc_result_def by (cases "r = 0") (simp, auto intro!: exI [of _ ?at])
    then show ?thesis using st' nr' by (auto simp: mm_inv_def)
  qed
qed

lemma okE: "ok r (\<lambda>(x, y). P x y) \<Longrightarrow> \<exists>x y. r = Some (x, y) \<and> P x y"
  by (auto simp: ok_def)

text \<open>Release: nothing for \<open>NULL\<close>, a free block is refused, and a block in use is merged with its free neighbours.\<close>

definition free_result :: "nat \<Rightarrow> int \<Rightarrow> int \<Rightarrow> nat \<Rightarrow> store \<Rightarrow> int \<Rightarrow> store \<Rightarrow> bool" where
  "free_result h a e p s r s' \<longleftrightarrow>
     (if p = 0 then r = 0 \<and> s' = s
      else if b_free (the (s p)) then r = - 1 \<and> s' = s
      else r = 0 \<and> in_use s' h = {u \<in> in_use s h. fst u \<noteq> p} \<and>
        (\<exists>us vs fs fs'. mm_state s h a e (us @ p # vs) fs \<and> mm_state s' h a e (merged (view s) us p vs) fs'))"

lemma free_step:
  assumes "mm_inv s h a e" "0 \<le> a" "e < 2 ^ 31" "p = 0 \<or> p \<in> dom s - {h}"
  shows "\<exists>r s'. u_mmFreeMem p s = Some (r, s') \<and> mm_inv s' h a e \<and> free_result h a e p s r s'"
proof (cases "p = 0")
  case True
  then show ?thesis using assms(1) by (simp add: u_mmFreeMem_def free_result_def)
next
  case False
  obtain xs fs where st: "mm_state s h a e xs fs" and nr: "\<forall>u \<in> used (view s) xs. \<not> snd (snd (snd u))"
    using assms(1) by (auto simp: mm_inv_def)
  have px: "p \<in> set xs" using assms(4) False mm_state_dom [OF st] by auto
  then obtain us vs where xs: "xs = us @ p # vs" by (meson split_list)
  note u = used_in_use [OF st nr [unfolded not_reserved]]
  have wf: "w_free (view s) p = b_free (the (s p))" by (simp add: view_def)
  obtain r s' where rs: "u_mmFreeMem p s = Some (r, s')"
    and res: "if w_free (view s) p \<or> w_reserved (view s) p then r = - 1 \<and> s' = s
      else r = 0 \<and> (\<exists>fs'. mm_state s' h a e (merged (view s) us p vs) fs')
       \<and> used (view s') (merged (view s) us p vs) = used (view s) xs - {(p, w_ofs (view s) p, w_size (view s) p, False)}
       \<and> (\<forall>x \<in> set (merged (view s) us p vs). w_ofs (view s') x = w_ofs (view s) x
            \<and> w_free (view s') x = (x = p \<or> w_free (view s) x))"
    using okE [OF u_mmFreeMem_ok [OF st [unfolded xs] assms(2,3)]] unfolding xs by blast
  have "mm_inv s' h a e \<and> free_result h a e p s r s'"
  proof (cases "w_free (view s) p")
    case True
    then show ?thesis using res assms(1) wf False by (auto simp: free_result_def)
  next
    case free: False
    then have "\<not> w_reserved (view s) p" using nr px unfolding not_reserved by auto
    then have r: "r = 0" and us': "used (view s') (merged (view s) us p vs)
          = used (view s) xs - {(p, w_ofs (view s) p, w_size (view s) p, False)}"
      and "\<exists>fs'. mm_state s' h a e (merged (view s) us p vs) fs'"
      using res free by auto
    then obtain fs' where st': "mm_state s' h a e (merged (view s) us p vs) fs'" by auto
    have nr': "\<forall>u \<in> used (view s') (merged (view s) us p vs). \<not> snd (snd (snd u))" using us' nr by auto
    note u' = used_in_use [OF st' nr' [unfolded not_reserved]]
    have "used (view s) xs - {(p, w_ofs (view s) p, w_size (view s) p, False)}
        = {u \<in> used (view s) xs. fst u \<noteq> p}"
      using nr by (auto simp: used_def)
    then have "(\<lambda>(p, ofs, n). (p, ofs, n, False)) ` in_use s' h
        = (\<lambda>(p, ofs, n). (p, ofs, n, False)) ` {u \<in> in_use s h. fst u \<noteq> p}"
      unfolding u' [symmetric] us' using filter_tag [of "in_use s h" p] u by simp
    then have "in_use s' h = {u \<in> in_use s h. fst u \<noteq> p}" unfolding inj_used .
    moreover have "mm_inv s' h a e" using st' nr' by (auto simp: mm_inv_def)
    ultimately show ?thesis using r st st' free wf False xs by (auto simp: free_result_def)
  qed
  then show ?thesis using rs by blast
qed

lemma init_inv:
  assumes "calloc_ok calloc" "u_mmInit calloc Map.empty a (e - a) = (h, s)" "h \<noteq> 0"
  shows "mm_inv s h a e"
  using u_mmInit_ok [OF assms] by (auto simp: mm_inv_def)

lemma reach_inv:
  assumes "mm_reach h a e s" "0 \<le> a" "e < 2 ^ 31"
  shows "mm_inv s h a e"
  using assms
proof (induction rule: mm_reach.induct)
  case (init calloc s)
  then show ?case using init_inv [of calloc a e h s] by blast
next
  case (alloc s calloc sz k start r s')
  then show ?case using alloc_step [of calloc s h a e sz k start r s'] by blast
next
  case (free s p r s')
  then show ?case using free_step [of s h a e p] by auto
qed

lemma tiled_disjoint:
  assumes "tiled ofs sz a xs e" "\<And>p. p \<in> set xs \<Longrightarrow> 0 < sz p" "p \<in> set xs" "q \<in> set xs" "p \<noteq> q"
  shows "ofs p + sz p \<le> ofs q \<or> ofs q + sz q \<le> ofs p"
  using assms
proof (induction xs arbitrary: a)
  case (Cons x xs)
  then have t: "tiled ofs sz (a + sz x) xs e" "ofs x = a" by simp_all
  have "a + sz x \<le> ofs y" if "y \<in> set xs" for y
    using tiled_bounds [OF t(1), of y] Cons.prems(2) that by auto
  then show ?case using Cons.IH [OF t(1)] Cons.prems t(2) by auto
qed simp

lemma in_use_layout:
  assumes "mm_inv s h a e" "(p, x, n) \<in> in_use s h"
  shows "a \<le> x \<and> 0 < n \<and> x + n \<le> e"
    "(q, y, m) \<in> in_use s h \<Longrightarrow> p \<noteq> q \<Longrightarrow> x + n \<le> y \<or> y + m \<le> x"
proof -
  obtain xs fs where st: "mm_state s h a e xs fs" using assms(1) by (auto simp: mm_inv_def)
  note d = mm_state_dom [OF st]
  have t: "tiled (w_ofs (view s)) (w_size (view s)) a xs e" using st by (simp add: mm_state_def)
  have v: "z \<in> set xs \<and> c = w_ofs (view s) z \<and> l = w_size (view s) z" if "(z, c, l) \<in> in_use s h" for z c l
    using that unfolding in_use_def d by (auto simp: view_def)
  show "a \<le> x \<and> 0 < n \<and> x + n \<le> e" using v [OF assms(2)] mm_state_bounds [OF st, of p] by auto
  show "x + n \<le> y \<or> y + m \<le> x" if "(q, y, m) \<in> in_use s h" "p \<noteq> q"
    using tiled_disjoint [OF t _ _ _ that(2)] v [OF assms(2)] v [OF that(1)] mm_state_bounds(3) [OF st] by auto
qed

definition layout_ok :: "(nat \<times> int \<times> int) set \<Rightarrow> int \<Rightarrow> int \<Rightarrow> bool" where
  "layout_ok us a e \<longleftrightarrow>
     (\<forall>(p, x, n) \<in> us. a \<le> x \<and> 0 < n \<and> x + n \<le> e)
   \<and> (\<forall>(p, x, n) \<in> us. \<forall>(q, y, m) \<in> us. p \<noteq> q \<longrightarrow> x + n \<le> y \<or> y + m \<le> x)"

definition never_stuck :: "nat \<Rightarrow> int \<Rightarrow> store \<Rightarrow> bool" where
  "never_stuck h e s \<longleftrightarrow>
     (\<forall>calloc sz k start. calloc_ok calloc \<and> alloc_args_ok e sz k start \<longrightarrow> u_mmAllocMem calloc h sz k start s \<noteq> None)
   \<and> (\<forall>p. p = 0 \<or> p \<in> dom s - {h} \<longrightarrow> u_mmFreeMem p s \<noteq> None)
   \<and> (\<forall>start. u_mmFindBlock h start s \<noteq> None)
   \<and> (\<exists>s'. u_mmDestroy h s = Some s' \<and> dom s' = {})"

lemma mm_inv_facts:
  assumes "0 \<le> a" "e < 2 ^ 31" "mm_inv s h a e"
  shows "layout_ok (in_use s h) a e" "never_stuck h e s"
proof -
  show "layout_ok (in_use s h) a e"
    using in_use_layout [OF assms(3)] by (fastforce simp: layout_ok_def)
  obtain xs fs where st: "mm_state s h a e xs fs" using assms(3) by (auto simp: mm_inv_def)
  have d: "dom s = set (h # xs)" using st by (simp add: mm_state_def heap_rep_def view_dom)
  show "never_stuck h e s"
    unfolding never_stuck_def
  proof (intro conjI allI impI)
    fix calloc sz k start assume "calloc_ok calloc \<and> alloc_args_ok e sz k start"
    then show "u_mmAllocMem calloc h sz k start s \<noteq> None" using u_mmAllocMem_ok [OF _ st assms(1,2)] by blast
  next
    fix p assume "p = 0 \<or> p \<in> dom s - {h}"
    from free_step [OF assms(3,1,2) this] show "u_mmFreeMem p s \<noteq> None" by auto
  next
    fix start show "u_mmFindBlock h start s \<noteq> None" using u_mmFindBlock_ok [OF st, of start] by auto
  next
    show "\<exists>s'. u_mmDestroy h s = Some s' \<and> dom s' = {}" using u_mmDestroy_ok [OF st] d by auto
  qed
qed

text \<open>
  C28. On every run of allocations, with any arguments, and of frees, on a heap of offsets from 0 to 2^31 that
  is alone in its store, whichever allocations of descriptors fail, the two circular lists of the heap stay
  linked, its blocks cover the heap without gaps or overlaps, and the blocks in use lie inside it and apart.
  In every such state freeing, lookup and destruction return, without following a bad pointer, overflowing or
  looping, and so does an allocation whose arguments cannot overflow: \<open>align2\<close> below 31, the size plus
  \<open>startSearch\<close> below 2^31, and the end of the heap plus the alignment plus the size at most 2^31 (\<open>alloc_args_ok\<close>).  Destroying the
  heap releases every descriptor.
\<close>

theorem mm_heap_invariant:
  assumes "0 \<le> a" "e < 2 ^ 31" "mm_reach h a e s"
  shows "(\<exists>xs fs. mm_state s h a e xs fs) \<and> layout_ok (in_use s h) a e \<and> never_stuck h e s"
  using mm_inv_facts [OF assms(1,2) reach_inv [OF assms(3,1,2)]] reach_inv [OF assms(3,1,2)]
  by (auto simp: mm_inv_def)

text \<open>
  C29. On every such run an allocation that returns either puts one block of the requested size into use,
  inside the heap, not before \<open>startSearch\<close> and, unless it starts exactly there, aligned; or it returns \<open>NULL\<close>
  and leaves the blocks in use alone, which happens only when the arguments ask for nothing, no free block
  fits, or the allocator of descriptors refuses one on the store that is left.  It returns whenever the
  arguments cannot overflow (\<open>alloc_args_ok\<close>); with \<open>align2\<close> of 31 or more, or when \<open>startSearch\<close> plus the size
  is 2^31 or more and some block is free, the arithmetic of \<open>int\<close> does overflow.
  Freeing a block in use returns 0, takes exactly it out of use and joins it with the free blocks before
  and after it; \<open>NULL\<close> is accepted and a free block refused, both without effect.
\<close>

theorem mm_alloc_free_correct:
  assumes "0 \<le> a" "e < 2 ^ 31" "mm_reach h a e s" "calloc_ok calloc"
  shows "(case u_mmAllocMem calloc h sz k start s of
        None \<Rightarrow> \<not> alloc_args_ok e sz k start
      | Some (r, s') \<Rightarrow> alloc_result calloc h a e sz k start s r s')
    \<and> (0 \<le> k \<and> 0 < sz \<and> (31 \<le> k \<or> 2 ^ 31 \<le> start + sz \<and> (\<exists>p \<in> dom s - {h}. b_free (the (s p)))) \<longrightarrow>
       u_mmAllocMem calloc h sz k start s = None)
    \<and> (p = 0 \<or> p \<in> dom s - {h} \<longrightarrow>
      (\<exists>r s'. u_mmFreeMem p s = Some (r, s') \<and> free_result h a e p s r s'))"
proof (intro conjI impI)
  note inv = reach_inv [OF assms(3,1,2)]
  then obtain xs fs where st: "mm_state s h a e xs fs" by (auto simp: mm_inv_def)
  show "case u_mmAllocMem calloc h sz k start s of
        None \<Rightarrow> \<not> alloc_args_ok e sz k start
      | Some (r, s') \<Rightarrow> alloc_result calloc h a e sz k start s r s'"
  proof (cases "u_mmAllocMem calloc h sz k start s")
    case None
    then show ?thesis using u_mmAllocMem_ok [OF assms(4) st assms(1,2), of sz k start] by auto
  next
    case (Some x)
    then show ?thesis using alloc_step [OF assms(4) inv, of sz k start "fst x" "snd x"] by auto
  qed
  show "u_mmAllocMem calloc h sz k start s = None"
    if "0 \<le> k \<and> 0 < sz \<and> (31 \<le> k \<or> 2 ^ 31 \<le> start + sz \<and> (\<exists>p \<in> dom s - {h}. b_free (the (s p))))"
    using u_mmAllocMem_overflows [OF st] that by blast
  show "\<exists>r s'. u_mmFreeMem p s = Some (r, s') \<and> free_result h a e p s r s'" if "p = 0 \<or> p \<in> dom s - {h}"
    using free_step [OF inv assms(1,2) that] by blast
qed

section \<open>Examples\<close>

definition example_calloc :: calloc where
  "example_calloc s = find (\<lambda>q. s q = None) [1 ..< 100]"

lemma example_calloc_ok: "calloc_ok example_calloc"
  by (auto simp: calloc_ok_def example_calloc_def find_Some_iff)

definition example_heap :: store where
  "example_heap = snd (u_mmInit example_calloc Map.empty 0 4096)"

lemma example_reach: "mm_reach 1 0 4096 example_heap"
proof (rule mm_reach.init [OF example_calloc_ok])
  have "fst (u_mmInit example_calloc Map.empty 0 (4096 - 0)) = 1" by code_simp
  then show "u_mmInit example_calloc Map.empty 0 (4096 - 0) = (1, example_heap)"
    by (simp add: example_heap_def prod_eq_iff)
qed simp

definition example_alloc :: "(nat \<times> store) option" where
  "example_alloc = u_mmAllocMem example_calloc 1 100 4 1000 example_heap"

definition example_used :: store where
  "example_used = snd (the example_alloc)"

lemma example_alloc: "example_alloc = Some (3, example_used)"
proof -
  have "map_option fst example_alloc = Some 3" by code_simp
  then obtain t where "example_alloc = Some (3, t)" by auto
  then show ?thesis unfolding example_used_def by (metis option.sel snd_conv)
qed

lemma example_used_reach: "mm_reach 1 0 4096 example_used"
  using mm_reach.alloc [OF example_reach example_calloc_ok, of 100 4 1000 3] example_alloc
  by (simp add: example_alloc_def)

theorem mm_heap_invariant_witness:
  "(\<exists>xs fs. mm_state example_used 1 0 4096 xs fs) \<and> layout_ok (in_use example_used 1) 0 4096
 \<and> never_stuck 1 4096 example_used"
  by (rule mm_heap_invariant [OF _ _ example_used_reach]) simp_all

theorem mm_alloc_free_correct_witness:
  "alloc_result example_calloc 1 0 4096 100 4 1000 example_heap 3 example_used
 \<and> (\<exists>r s'. u_mmFreeMem 3 example_used = Some (r, s') \<and> free_result 1 0 4096 3 example_used r s')"
proof -
  have "example_used 3 \<noteq> None" by code_simp
  then show ?thesis
    using mm_alloc_free_correct [OF _ _ example_reach example_calloc_ok, of 100 4 1000 0]
      mm_alloc_free_correct [OF _ _ example_used_reach example_calloc_ok, of 100 4 1000 3] example_alloc
    by (auto simp: example_alloc_def)
qed

end
