(* ===== verification/NirInt64.thy ===== *)
theory NirInt64
  imports Prelude "HOL-Library.Signed_Division"
begin

text \<open>
  The lowering of 64-bit integer instructions, \<open>src/src/compiler/nir/nir_lower_int64.c\<close>.  The code
  builds instructions; here a builder function returns the value its instruction computes, with the
  constant expressions of \<open>nir_opcodes.py\<close> and the component rules of \<open>nir_build_alu\<close>.  A value is the
  list of its components, so that the coupling of the components of a vector by the conditional of
  the division is part of the model.
\<close>

section \<open>Values and opcodes\<close>

text \<open>The value of an SSA definition is the list of its components; a source with fewer components
  than the instruction repeats its last one.\<close>

type_synonym 'w ssa_def = "'w word list"

definition channel :: "'a list \<Rightarrow> nat \<Rightarrow> 'a" where
  "channel xs i = (if i < length xs then xs ! i else last xs)"

definition nir_build_alu2 :: "('a \<Rightarrow> 'b \<Rightarrow> 'c) \<Rightarrow> 'a list \<Rightarrow> 'b list \<Rightarrow> 'c list" where
  "nir_build_alu2 f xs ys =
    map (\<lambda>i. f (channel xs i) (channel ys i)) [0 ..< max (length xs) (length ys)]"

definition nir_build_alu3 ::
  "('a \<Rightarrow> 'b \<Rightarrow> 'c \<Rightarrow> 'd) \<Rightarrow> 'a list \<Rightarrow> 'b list \<Rightarrow> 'c list \<Rightarrow> 'd list" where
  "nir_build_alu3 f xs ys zs =
    map (\<lambda>i. f (channel xs i) (channel ys i) (channel zs i))
      [0 ..< max (max (length xs) (length ys)) (length zs)]"

definition nir_bool :: "bool \<Rightarrow> u32" where
  "nir_bool c = (if c then - 1 else 0)"

definition op_umul_high :: "u32 \<Rightarrow> u32 \<Rightarrow> u32" where
  "op_umul_high x y = ucast (drop_bit 32 ((ucast x :: u64) * ucast y))"

definition op_ufind_msb :: "'a::len word \<Rightarrow> u32" where
  "op_ufind_msb x = (case List.find (bit x) (rev [0 ..< LENGTH('a)]) of None \<Rightarrow> - 1 | Some b \<Rightarrow> of_nat b)"

definition op_pack_64_2x32_split :: "u32 \<Rightarrow> u32 \<Rightarrow> u64" where
  "op_pack_64_2x32_split x y = ucast x OR push_bit 32 (ucast y)"

definition op_iabs :: "'a::len word \<Rightarrow> 'a word" where
  "op_iabs x = (if x <s 0 then - x else x)"

definition op_isign :: "'a::len word \<Rightarrow> 'a word" where
  "op_isign x = (if x = 0 then 0 else if 0 <s x then 1 else - 1)"

definition op_udiv :: "'a::len word \<Rightarrow> 'a word \<Rightarrow> 'a word" where
  "op_udiv x y = (if y = 0 then 0 else x div y)"

definition op_umod :: "'a::len word \<Rightarrow> 'a word \<Rightarrow> 'a word" where
  "op_umod x y = (if y = 0 then 0 else x mod y)"

text \<open>The signed division and remainder of C truncate towards zero.\<close>

definition op_idiv :: "'a::len word \<Rightarrow> 'a word \<Rightarrow> 'a word" where
  "op_idiv x y = (if y = 0 then 0 else word_of_int (sint x sdiv sint y))"

definition op_irem :: "'a::len word \<Rightarrow> 'a word \<Rightarrow> 'a word" where
  "op_irem x y = (if y = 0 then 0 else word_of_int (sint x smod sint y))"

definition op_imod :: "'a::len word \<Rightarrow> 'a word \<Rightarrow> 'a word" where
  "op_imod x y =
    (if y = 0 then 0
     else if sint x smod sint y = 0 \<or> (0 \<le> sint x) = (0 \<le> sint y)
          then word_of_int (sint x smod sint y)
          else word_of_int (sint x smod sint y + sint y))"

section \<open>The builder\<close>

definition nir_unpack_64_2x32_split_x :: "64 ssa_def \<Rightarrow> 32 ssa_def" where
  "nir_unpack_64_2x32_split_x = map ucast"

definition nir_unpack_64_2x32_split_y :: "64 ssa_def \<Rightarrow> 32 ssa_def" where
  "nir_unpack_64_2x32_split_y = map (\<lambda>x. ucast (drop_bit 32 x))"

definition nir_pack_64_2x32_split :: "32 ssa_def \<Rightarrow> 32 ssa_def \<Rightarrow> 64 ssa_def" where
  "nir_pack_64_2x32_split = nir_build_alu2 op_pack_64_2x32_split"

definition nir_imm_int :: "u32 \<Rightarrow> 32 ssa_def" where
  "nir_imm_int x = [x]"

definition nir_imm_int64 :: "u64 \<Rightarrow> 64 ssa_def" where
  "nir_imm_int64 x = [x]"

definition nir_iadd :: "'a::len ssa_def \<Rightarrow> 'a ssa_def \<Rightarrow> 'a ssa_def" where
  "nir_iadd = nir_build_alu2 (+)"

definition nir_isub :: "'a::len ssa_def \<Rightarrow> 'a ssa_def \<Rightarrow> 'a ssa_def" where
  "nir_isub = nir_build_alu2 (-)"

definition nir_imul :: "'a::len ssa_def \<Rightarrow> 'a ssa_def \<Rightarrow> 'a ssa_def" where
  "nir_imul = nir_build_alu2 (*)"

definition nir_umul_high :: "32 ssa_def \<Rightarrow> 32 ssa_def \<Rightarrow> 32 ssa_def" where
  "nir_umul_high = nir_build_alu2 op_umul_high"

definition nir_iand :: "'a::len ssa_def \<Rightarrow> 'a ssa_def \<Rightarrow> 'a ssa_def" where
  "nir_iand = nir_build_alu2 (AND)"

definition nir_ior :: "'a::len ssa_def \<Rightarrow> 'a ssa_def \<Rightarrow> 'a ssa_def" where
  "nir_ior = nir_build_alu2 (OR)"

definition nir_ishl :: "'a::len ssa_def \<Rightarrow> 32 ssa_def \<Rightarrow> 'a ssa_def" where
  "nir_ishl = nir_build_alu2 (\<lambda>x s. push_bit (unat s) x)"

definition nir_ishr :: "'a::len ssa_def \<Rightarrow> 32 ssa_def \<Rightarrow> 'a ssa_def" where
  "nir_ishr = nir_build_alu2 (\<lambda>x s. signed_drop_bit (unat s) x)"

definition nir_ieq :: "'a::len ssa_def \<Rightarrow> 'a ssa_def \<Rightarrow> 32 ssa_def" where
  "nir_ieq = nir_build_alu2 (\<lambda>x y. nir_bool (x = y))"

definition nir_ine :: "'a::len ssa_def \<Rightarrow> 'a ssa_def \<Rightarrow> 32 ssa_def" where
  "nir_ine = nir_build_alu2 (\<lambda>x y. nir_bool (x \<noteq> y))"

definition nir_ilt :: "'a::len ssa_def \<Rightarrow> 'a ssa_def \<Rightarrow> 32 ssa_def" where
  "nir_ilt = nir_build_alu2 (\<lambda>x y. nir_bool (x <s y))"

definition nir_ige :: "'a::len ssa_def \<Rightarrow> 'a ssa_def \<Rightarrow> 32 ssa_def" where
  "nir_ige = nir_build_alu2 (\<lambda>x y. nir_bool (y \<le>s x))"

definition nir_uge :: "'a::len ssa_def \<Rightarrow> 'a ssa_def \<Rightarrow> 32 ssa_def" where
  "nir_uge = nir_build_alu2 (\<lambda>x y. nir_bool (y \<le> x))"

definition nir_bcsel :: "32 ssa_def \<Rightarrow> 'a::len ssa_def \<Rightarrow> 'a ssa_def \<Rightarrow> 'a ssa_def" where
  "nir_bcsel = nir_build_alu3 (\<lambda>c x y. if c \<noteq> 0 then x else y)"

definition nir_i2b :: "'a::len ssa_def \<Rightarrow> 32 ssa_def" where
  "nir_i2b = map (\<lambda>x. nir_bool (x \<noteq> 0))"

definition nir_b2i :: "32 ssa_def \<Rightarrow> 32 ssa_def" where
  "nir_b2i = map (\<lambda>c. if c \<noteq> 0 then 1 else 0)"

definition nir_iabs :: "'a::len ssa_def \<Rightarrow> 'a ssa_def" where
  "nir_iabs = map op_iabs"

definition nir_ineg :: "'a::len ssa_def \<Rightarrow> 'a ssa_def" where
  "nir_ineg = map uminus"

definition nir_ufind_msb :: "'a::len ssa_def \<Rightarrow> 32 ssa_def" where
  "nir_ufind_msb = map op_ufind_msb"

definition nir_bany :: "32 ssa_def \<Rightarrow> 32 ssa_def" where
  "nir_bany src = [nir_bool (list_ex (\<lambda>c. c \<noteq> 0) src)]"

text \<open>The phi after an \<open>if\<close> on a one-component condition.\<close>

definition nir_if_phi :: "32 ssa_def \<Rightarrow> 'a list \<Rightarrow> 'a list \<Rightarrow> 'a list" where
  "nir_if_phi c then_def else_def = (if hd c \<noteq> 0 then then_def else else_def)"

section \<open>The lowering\<close>

definition lower_imul64 :: "64 ssa_def \<Rightarrow> 64 ssa_def \<Rightarrow> 64 ssa_def" where
  "lower_imul64 x y =
    (let x_lo = nir_unpack_64_2x32_split_x x; x_hi = nir_unpack_64_2x32_split_y x;
         y_lo = nir_unpack_64_2x32_split_x y; y_hi = nir_unpack_64_2x32_split_y y;
         res_lo = nir_imul x_lo y_lo;
         res_hi = nir_iadd (nir_umul_high x_lo y_lo)
                    (nir_iadd (nir_imul x_lo y_hi) (nir_imul x_hi y_lo))
     in nir_pack_64_2x32_split res_lo res_hi)"

definition lower_isign64 :: "64 ssa_def \<Rightarrow> 64 ssa_def" where
  "lower_isign64 x =
    (let x_lo = nir_unpack_64_2x32_split_x x; x_hi = nir_unpack_64_2x32_split_y x;
         is_non_zero = nir_i2b (nir_ior x_lo x_hi);
         res_hi = nir_ishr x_hi (nir_imm_int 31);
         res_lo = nir_ior res_hi (nir_b2i is_non_zero)
     in nir_pack_64_2x32_split res_lo res_hi)"

definition high_div_step ::
  "32 ssa_def \<Rightarrow> 32 ssa_def \<Rightarrow> 32 ssa_def \<Rightarrow> nat \<Rightarrow> 32 ssa_def \<times> 32 ssa_def \<Rightarrow> 32 ssa_def \<times> 32 ssa_def" where
  "high_div_step d_lo need_high_div log2_d_lo i = (\<lambda>(n_hi, q_hi).
    let d_shift = nir_ishl d_lo (nir_imm_int (of_nat i));
        new_n_hi = nir_isub n_hi d_shift;
        new_q_hi = nir_ior q_hi (nir_imm_int (push_bit i 1));
        cond = nir_iand need_high_div (nir_uge n_hi d_shift);
        cond = (if i \<noteq> 0 then nir_iand cond (nir_ige (nir_imm_int (of_nat (31 - i))) log2_d_lo) else cond)
    in (nir_bcsel cond new_n_hi n_hi, nir_bcsel cond new_q_hi q_hi))"

definition low_div_step ::
  "64 ssa_def \<Rightarrow> 32 ssa_def \<Rightarrow> nat \<Rightarrow> 64 ssa_def \<times> 32 ssa_def \<Rightarrow> 64 ssa_def \<times> 32 ssa_def" where
  "low_div_step d log2_denom i = (\<lambda>(n, q_lo).
    let d_shift = nir_ishl d (nir_imm_int (of_nat i));
        new_n = nir_isub n d_shift;
        new_q_lo = nir_ior q_lo (nir_imm_int (push_bit i 1));
        cond = nir_uge n d_shift;
        cond = (if i \<noteq> 0 then nir_iand cond (nir_ige (nir_imm_int (of_nat (31 - i))) log2_denom) else cond)
    in (nir_bcsel cond new_n n, nir_bcsel cond new_q_lo q_lo))"

definition lower_udiv64_mod64 :: "64 ssa_def \<Rightarrow> 64 ssa_def \<Rightarrow> 64 ssa_def \<times> 64 ssa_def" where
  "lower_udiv64_mod64 n d =
    (let n_lo = nir_unpack_64_2x32_split_x n; n_hi = nir_unpack_64_2x32_split_y n;
         d_lo = nir_unpack_64_2x32_split_x d; d_hi = nir_unpack_64_2x32_split_y d;
         q_lo = replicate (length n) 0; q_hi = replicate (length n) 0;
         need_high_div = nir_iand (nir_ieq d_hi (nir_imm_int 0)) (nir_uge n_hi d_lo);
         branch = nir_bany need_high_div;
         need_high_div = (if length n = 1 then nir_imm_int (- 1) else need_high_div);
         (n_hi', q_hi') = fold (high_div_step d_lo need_high_div (nir_ufind_msb d_lo)) (rev [0 ..< 32])
                            (n_hi, q_hi);
         n_hi = nir_if_phi branch n_hi' n_hi;
         q_hi = nir_if_phi branch q_hi' q_hi;
         log2_denom = nir_ufind_msb d_hi;
         (n, q_lo) = fold (low_div_step (nir_pack_64_2x32_split d_lo d_hi) log2_denom) (rev [0 ..< 32])
                       (nir_pack_64_2x32_split n_lo n_hi, q_lo)
     in (nir_pack_64_2x32_split q_lo q_hi, n))"

definition lower_udiv64 :: "64 ssa_def \<Rightarrow> 64 ssa_def \<Rightarrow> 64 ssa_def" where
  "lower_udiv64 n d = (let (q, r) = lower_udiv64_mod64 n d in q)"

definition lower_idiv64 :: "64 ssa_def \<Rightarrow> 64 ssa_def \<Rightarrow> 64 ssa_def" where
  "lower_idiv64 n d =
    (let n_hi = nir_unpack_64_2x32_split_y n; d_hi = nir_unpack_64_2x32_split_y d;
         negate = nir_ine (nir_ilt n_hi (nir_imm_int 0)) (nir_ilt d_hi (nir_imm_int 0));
         (q, r) = lower_udiv64_mod64 (nir_iabs n) (nir_iabs d)
     in nir_bcsel negate (nir_ineg q) q)"

definition lower_umod64 :: "64 ssa_def \<Rightarrow> 64 ssa_def \<Rightarrow> 64 ssa_def" where
  "lower_umod64 n d = (let (q, r) = lower_udiv64_mod64 n d in r)"

definition lower_imod64 :: "64 ssa_def \<Rightarrow> 64 ssa_def \<Rightarrow> 64 ssa_def" where
  "lower_imod64 n d =
    (let n_hi = nir_unpack_64_2x32_split_y n; d_hi = nir_unpack_64_2x32_split_y d;
         n_is_neg = nir_ilt n_hi (nir_imm_int 0); d_is_neg = nir_ilt d_hi (nir_imm_int 0);
         (q, r) = lower_udiv64_mod64 (nir_iabs n) (nir_iabs d);
         rem = nir_bcsel n_is_neg (nir_ineg r) r
     in nir_bcsel (nir_ieq r (nir_imm_int64 0)) (nir_imm_int64 0)
          (nir_bcsel (nir_ieq n_is_neg d_is_neg) rem (nir_iadd rem d)))"

definition lower_irem64 :: "64 ssa_def \<Rightarrow> 64 ssa_def \<Rightarrow> 64 ssa_def" where
  "lower_irem64 n d =
    (let n_hi = nir_unpack_64_2x32_split_y n;
         n_is_neg = nir_ilt n_hi (nir_imm_int 0);
         (q, r) = lower_udiv64_mod64 (nir_iabs n) (nir_iabs d)
     in nir_bcsel n_is_neg (nir_ineg r) r)"


section \<open>The choice of the instructions to lower\<close>

datatype nir_op = nir_op_imul | nir_op_isign | nir_op_udiv | nir_op_idiv | nir_op_umod | nir_op_imod
  | nir_op_irem | nir_op_other nat

definition nir_lower_imul64 :: u32 where "nir_lower_imul64 = 1"

definition nir_lower_isign64 :: u32 where "nir_lower_isign64 = 2"

definition nir_lower_divmod64 :: u32 where "nir_lower_divmod64 = 4"

fun opcode_to_options_mask :: "nir_op \<Rightarrow> u32" where
  "opcode_to_options_mask nir_op_imul = nir_lower_imul64"
| "opcode_to_options_mask nir_op_isign = nir_lower_isign64"
| "opcode_to_options_mask nir_op_udiv = nir_lower_divmod64"
| "opcode_to_options_mask nir_op_idiv = nir_lower_divmod64"
| "opcode_to_options_mask nir_op_umod = nir_lower_divmod64"
| "opcode_to_options_mask nir_op_imod = nir_lower_divmod64"
| "opcode_to_options_mask nir_op_irem = nir_lower_divmod64"
| "opcode_to_options_mask (nir_op_other _) = 0"

text \<open>The default of the switch is unreachable.\<close>

fun lower_int64_alu_instr :: "nir_op \<Rightarrow> 64 ssa_def list \<Rightarrow> 64 ssa_def option" where
  "lower_int64_alu_instr nir_op_imul src = Some (lower_imul64 (src ! 0) (src ! 1))"
| "lower_int64_alu_instr nir_op_isign src = Some (lower_isign64 (src ! 0))"
| "lower_int64_alu_instr nir_op_udiv src = Some (lower_udiv64 (src ! 0) (src ! 1))"
| "lower_int64_alu_instr nir_op_idiv src = Some (lower_idiv64 (src ! 0) (src ! 1))"
| "lower_int64_alu_instr nir_op_umod src = Some (lower_umod64 (src ! 0) (src ! 1))"
| "lower_int64_alu_instr nir_op_imod src = Some (lower_imod64 (src ! 0) (src ! 1))"
| "lower_int64_alu_instr nir_op_irem src = Some (lower_irem64 (src ! 0) (src ! 1))"
| "lower_int64_alu_instr (nir_op_other _) src = None"

text \<open>What the opcodes compute on one component.\<close>

fun nir_op_num_inputs :: "nir_op \<Rightarrow> nat" where
  "nir_op_num_inputs nir_op_isign = 1"
| "nir_op_num_inputs _ = 2"

fun nir_op_eval :: "nir_op \<Rightarrow> 'a::len word list \<Rightarrow> 'a word" where
  "nir_op_eval nir_op_imul src = src ! 0 * src ! 1"
| "nir_op_eval nir_op_isign src = op_isign (src ! 0)"
| "nir_op_eval nir_op_udiv src = op_udiv (src ! 0) (src ! 1)"
| "nir_op_eval nir_op_idiv src = op_idiv (src ! 0) (src ! 1)"
| "nir_op_eval nir_op_umod src = op_umod (src ! 0) (src ! 1)"
| "nir_op_eval nir_op_imod src = op_imod (src ! 0) (src ! 1)"
| "nir_op_eval nir_op_irem src = op_irem (src ! 0) (src ! 1)"
| "nir_op_eval (nir_op_other _) src = 0"

end
