(* ===== verification/NirInt64Correct.thy ===== *)
theory NirInt64Correct
  imports NirInt64
begin

text \<open>
  The lowered code computes what the opcode means on every component: the long division by shift and
  subtract with its shortcut for the high half, its signed variants, the multiplication by halves and
  the sign.  The collection \<open>channels\<close> reads a component of the result of a builder function.
\<close>

section \<open>Components\<close>

named_theorems channels

lemma channel_last:
  assumes "xs \<noteq> []" "length xs - 1 \<le> i"
  shows "channel xs i = channel xs (length xs - 1)"
proof (cases "i < length xs")
  case True
  then have "i = length xs - 1" using assms by simp
  then show ?thesis by simp
qed (use assms in \<open>simp add: channel_def last_conv_nth\<close>)

lemma channel_in_set: "xs \<noteq> [] \<Longrightarrow> channel xs i \<in> set xs"
  by (simp add: channel_def)

lemma channel_map_upt: "0 < n \<Longrightarrow> channel (map g [0 ..< n]) i = (if i < n then g i else g (n - 1))"
  by (simp add: channel_def last_conv_nth)

lemma channel_map [channels]: "xs \<noteq> [] \<Longrightarrow> channel (map f xs) i = f (channel xs i)"
  by (simp add: channel_def last_map)

lemma channel_replicate [channels]: "0 < n \<Longrightarrow> channel (replicate n x) i = x"
  by (simp add: channel_def)

lemma channel_single [channels]: "channel [x] i = x"
  by (simp add: channel_def)

lemma channel_build_alu2 [channels]:
  assumes "xs \<noteq> []" "ys \<noteq> []"
  shows "channel (nir_build_alu2 f xs ys) i = f (channel xs i) (channel ys i)"
proof -
  let ?m = "max (length xs) (length ys)"
  have "0 < ?m" using assms by (cases xs) auto
  moreover have "channel xs i = channel xs (?m - 1)" "channel ys i = channel ys (?m - 1)" if "\<not> i < ?m"
    using that assms channel_last [of xs i] channel_last [of xs "?m - 1"]
      channel_last [of ys i] channel_last [of ys "?m - 1"] by auto
  ultimately show ?thesis by (auto simp: nir_build_alu2_def channel_map_upt)
qed

lemma channel_build_alu3 [channels]:
  assumes "xs \<noteq> []" "ys \<noteq> []" "zs \<noteq> []"
  shows "channel (nir_build_alu3 f xs ys zs) i = f (channel xs i) (channel ys i) (channel zs i)"
proof -
  let ?m = "max (max (length xs) (length ys)) (length zs)"
  have "0 < ?m" using assms by (cases xs) auto
  moreover have "channel xs i = channel xs (?m - 1)" "channel ys i = channel ys (?m - 1)"
      "channel zs i = channel zs (?m - 1)" if "\<not> i < ?m"
    using that assms channel_last [of xs i] channel_last [of xs "?m - 1"]
      channel_last [of ys i] channel_last [of ys "?m - 1"]
      channel_last [of zs i] channel_last [of zs "?m - 1"] by auto
  ultimately show ?thesis by (auto simp: nir_build_alu3_def channel_map_upt)
qed

lemma length_build_alu2 [simp]: "length (nir_build_alu2 f xs ys) = max (length xs) (length ys)"
  by (simp add: nir_build_alu2_def)

lemma length_build_alu3 [simp]:
  "length (nir_build_alu3 f xs ys zs) = max (max (length xs) (length ys)) (length zs)"
  by (simp add: nir_build_alu3_def)

lemma build_alu2_Nil [simp]: "nir_build_alu2 f xs ys = [] \<longleftrightarrow> xs = [] \<and> ys = []"
  by (auto simp: nir_build_alu2_def max_def)

lemma build_alu3_Nil [simp]: "nir_build_alu3 f xs ys zs = [] \<longleftrightarrow> xs = [] \<and> ys = [] \<and> zs = []"
  by (auto simp: nir_build_alu3_def max_def)

lemmas nir_defs = nir_unpack_64_2x32_split_x_def nir_unpack_64_2x32_split_y_def
  nir_pack_64_2x32_split_def nir_imm_int_def nir_imm_int64_def nir_iadd_def nir_isub_def nir_imul_def
  nir_umul_high_def nir_iand_def nir_ior_def nir_ishl_def nir_ishr_def nir_ieq_def nir_ine_def
  nir_ilt_def nir_ige_def nir_uge_def nir_bcsel_def nir_i2b_def nir_b2i_def nir_iabs_def nir_ineg_def
  nir_ufind_msb_def

text \<open>Two values of the same number of components are equal when their components are.\<close>

lemma ssa_def_eqI:
  assumes "length xs = length ys" "\<And>i. channel xs i = channel ys i"
  shows "xs = ys"
  using assms(1)
proof (rule nth_equalityI)
  fix i assume "i < length xs"
  then show "xs ! i = ys ! i" using assms(2) [of i] assms(1) by (simp add: channel_def)
qed

lemma nir_bool_simps [simp]:
  "nir_bool c \<noteq> 0 \<longleftrightarrow> c" "nir_bool c = 0 \<longleftrightarrow> \<not> c" "nir_bool c AND nir_bool d = nir_bool (c \<and> d)"
  "nir_bool c = nir_bool d \<longleftrightarrow> c = d" "- 1 AND nir_bool d = nir_bool d"
  by (simp_all add: nir_bool_def)

section \<open>Shifts and the most significant bit\<close>

lemma bit_unat_div: "bit (x :: 'a::len word) n \<longleftrightarrow> odd (unat x div 2 ^ n)"
proof -
  have "bit x n = bit (unat x) n" by (simp add: bit_unsigned_iff)
  then show ?thesis by (simp add: bit_iff_odd)
qed

lemma find_msb_bounds:
  fixes x :: "'a::len word"
  assumes "unat x < 2 ^ n" "n \<le> LENGTH('a)"
  shows "case List.find (bit x) (rev [0 ..< n]) of None \<Rightarrow> x = 0
     | Some b \<Rightarrow> b < n \<and> 2 ^ b \<le> unat x \<and> unat x < 2 ^ Suc b"
  using assms
proof (induction n)
  case 0
  then show ?case by (simp add: unat_eq_zero)
next
  case (Suc n)
  show ?case
  proof (cases "bit x n")
    case True
    then have "2 ^ n \<le> unat x"
      by (metis bit_unat_div div_less even_zero linorder_not_less)
    then show ?thesis using True Suc.prems by simp
  next
    case False
    have "unat x < 2 ^ n"
    proof (rule ccontr)
      assume "\<not> unat x < 2 ^ n"
      then have "unat x div 2 ^ n = 1" using Suc.prems(1) by (intro div_nat_eqI) auto
      then show False using False by (simp add: bit_unat_div)
    qed
    with Suc have "case List.find (bit x) (rev [0 ..< n]) of None \<Rightarrow> x = 0
       | Some b \<Rightarrow> b < n \<and> 2 ^ b \<le> unat x \<and> unat x < 2 ^ Suc b" by simp
    then show ?thesis using False by (auto split: option.splits)
  qed
qed

text \<open>The guard on the most significant bit says that the shift does not overflow.\<close>

lemma msb_guard:
  fixes x :: u32
  assumes "i < 32"
  shows "op_ufind_msb x \<le>s of_nat (31 - i) \<longleftrightarrow> unat x * 2 ^ i < 2 ^ 32"
proof -
  have "unat x < 2 ^ 32" using unsigned_less [of x, where 'a=nat] by simp
  then have b: "case List.find (bit x) (rev [0 ..< 32]) of None \<Rightarrow> x = 0
     | Some b \<Rightarrow> b < 32 \<and> 2 ^ b \<le> unat x \<and> unat x < 2 ^ Suc b"
    by (intro find_msb_bounds) simp_all
  show ?thesis
  proof (cases "List.find (bit x) (rev [0 ..< 32])")
    case None
    then have "x = 0" "op_ufind_msb x = - 1" using b by (simp_all add: op_ufind_msb_def)
    moreover have "sint (of_nat (31 - i) :: u32) = int (31 - i)" by (rule sint_small) simp
    ultimately show ?thesis by (simp add: word_sle_eq)
  next
    case (Some m)
    then have m: "m < 32" "2 ^ m \<le> unat x" "unat x < 2 ^ Suc m" "op_ufind_msb x = of_nat m"
      using b by (simp_all add: op_ufind_msb_def)
    have "sint (of_nat (31 - i) :: u32) = int (31 - i)" by (rule sint_small) simp
    moreover have "sint (of_nat m :: u32) = int m" using m(1) by (intro sint_small) simp
    ultimately have "op_ufind_msb x \<le>s of_nat (31 - i) \<longleftrightarrow> m + i \<le> 31"
      using assms by (auto simp: word_sle_eq m(4) simp del: of_nat_diff)
    also have "m + i \<le> 31 \<longleftrightarrow> unat x * 2 ^ i < 2 ^ 32"
    proof
      assume "m + i \<le> 31"
      then have "(2::nat) ^ (Suc m + i) \<le> 2 ^ 32" by (intro power_increasing) auto
      moreover have "unat x * 2 ^ i < 2 ^ (Suc m + i)" using m(3) by (simp add: power_add)
      ultimately show "unat x * 2 ^ i < 2 ^ 32" by linarith
    next
      assume "unat x * 2 ^ i < 2 ^ 32"
      moreover have "(2::nat) ^ (m + i) \<le> unat x * 2 ^ i" using m(2) by (simp add: power_add)
      ultimately have "(2::nat) ^ (m + i) < 2 ^ 32" by linarith
      then have "m + i < 32" by (rule power_less_imp_less_exp [rotated]) simp
      then show "m + i \<le> 31" by simp
    qed
    finally show ?thesis .
  qed
qed

section \<open>Shift and subtract\<close>

text \<open>One scalar step, and the loop over the bits from the most significant one.\<close>

definition div_step :: "'a::len word \<Rightarrow> nat \<Rightarrow> 'a word \<times> u32 \<Rightarrow> 'a word \<times> u32" where
  "div_step d i = (\<lambda>(n, q). if unat d * 2 ^ i \<le> unat n then (n - push_bit i d, q OR push_bit i 1) else (n, q))"

lemma unat_push_bit:
  fixes d :: "'a::len word"
  assumes "unat d * 2 ^ i < 2 ^ LENGTH('a)"
  shows "unat (push_bit i d) = unat d * 2 ^ i"
proof -
  have "unat (push_bit i d) = take_bit LENGTH('a) (push_bit i (unat d))"
    by (rule unsigned_push_bit_eq)
  then show ?thesis using assms by (simp only: push_bit_eq_mult take_bit_nat_eq_self)
qed

lemma push_bit_le:
  fixes n d :: "'a::len word"
  assumes "unat d * 2 ^ i < 2 ^ LENGTH('a)"
  shows "push_bit i d \<le> n \<longleftrightarrow> unat d * 2 ^ i \<le> unat n"
  using unat_push_bit [OF assms] by (simp add: word_le_nat_alt)

lemma or_new_bit:
  fixes q :: u32
  assumes "\<And>j. j \<le> i \<Longrightarrow> \<not> bit q j"
  shows "q OR push_bit i 1 = q + 2 ^ i"
proof -
  have "q + push_bit i 1 = q OR push_bit i 1"
    by (rule disjunctive_add) (use assms in \<open>auto simp: bit_simps\<close>)
  then show ?thesis by (simp add: push_bit_eq_mult)
qed

lemma div_loop:
  fixes n d :: "'a::len word"
  assumes "0 < unat d" "unat n < unat d * 2 ^ k" "\<And>j. j < k \<Longrightarrow> \<not> bit q j"
  shows "fold (div_step d) (rev [0 ..< k]) (n, q) =
    (of_nat (unat n mod unat d), q + of_nat (unat n div unat d))"
  using assms
proof (induction k arbitrary: n q)
  case 0
  then show ?case by simp
next
  case (Suc k)
  let ?D = "unat d * 2 ^ k"
  show ?case
  proof (cases "?D \<le> unat n")
    case True
    then have l: "?D < 2 ^ LENGTH('a)" using unsigned_less by (rule le_less_trans)
    note p = unat_push_bit [OF l]
    have n: "unat (n - push_bit k d) = unat n - ?D"
      using True p by (simp add: unat_sub word_le_nat_alt)
    have q: "q OR push_bit k 1 = q + 2 ^ k" by (rule or_new_bit) (use Suc.prems(3) in auto)
    then have q': "q OR 2 ^ k = q + 2 ^ k" by (simp add: push_bit_eq_mult)
    have b: "\<not> bit (q OR push_bit k 1) j" if "j < k" for j
      using that Suc.prems(3) by (simp add: bit_simps)
    have s: "unat n = unat n - ?D + 2 ^ k * unat d" using True by (simp add: mult.commute)
    have m: "(unat n - ?D) mod unat d = unat n mod unat d"
      by (subst (2) s) (rule mod_mult_self1 [symmetric])
    have "unat n div unat d = 2 ^ k + (unat n - ?D) div unat d"
      by (subst s, rule div_mult_self1) (use Suc.prems(1) in simp)
    then have d: "of_nat (unat n div unat d) = (of_nat ((unat n - ?D) div unat d) + 2 ^ k :: u32)"
      by simp
    have "unat (n - push_bit k d) < unat d * 2 ^ k" using n Suc.prems(2) True by simp
    with Suc.IH [OF Suc.prems(1) this b] show ?thesis
      using True by (simp add: div_step_def n m d q')
  next
    case False
    then show ?thesis using Suc.IH [of n q] Suc.prems by (simp add: div_step_def)
  qed
qed

section \<open>The loops of the lowering, component by component\<close>

definition channel2 :: "'a list \<times> 'b list \<Rightarrow> nat \<Rightarrow> 'a \<times> 'b" where
  "channel2 s i = (channel (fst s) i, channel (snd s) i)"

lemma high_step_channel:
  assumes "n \<noteq> []" "q \<noteq> []" "d \<noteq> []" "need \<noteq> []" "lg \<noteq> []" "i < 32"
    "channel need j = nir_bool c" "channel lg j = op_ufind_msb (channel d j)"
  shows "channel2 (high_div_step d need lg i (n, q)) j =
    (if c then div_step (channel d j) i (channel n j, channel q j) else (channel n j, channel q j))"
proof -
  let ?d = "channel d j"
  have i: "unat (of_nat i :: u32) = i" using assms(6) by (simp add: unat_of_nat)
  have g: "op_ufind_msb ?d \<le>s of_nat (31 - i) \<longleftrightarrow> unat ?d * 2 ^ i < 2 ^ 32"
    by (rule msb_guard [OF assms(6)])
  have n: "unat (channel n j) < 2 ^ 32" using unsigned_less [of "channel n j", where 'a=nat] by simp
  have c: "(push_bit i ?d \<le> channel n j \<and> (i \<noteq> 0 \<longrightarrow> unat ?d * 2 ^ i < 2 ^ 32)) =
      (unat ?d * 2 ^ i \<le> unat (channel n j))"
    using push_bit_le [of ?d i "channel n j"] n unsigned_less [of ?d, where 'a=nat]
    by (cases "unat ?d * 2 ^ i < 2 ^ 32"; cases i) (auto simp: word_le_nat_alt)
  have "channel2 (high_div_step d need lg i (n, q)) j =
    (if c \<and> push_bit i ?d \<le> channel n j \<and> (i \<noteq> 0 \<longrightarrow> unat ?d * 2 ^ i < 2 ^ 32)
     then (channel n j - push_bit i ?d, channel q j OR push_bit i 1) else (channel n j, channel q j))"
    using assms(1-5,7,8)
    by (cases c; cases "i = 0"; simp add: channel2_def high_div_step_def Let_def nir_defs channels i g)
  then show ?thesis unfolding c by (simp add: div_step_def)
qed


lemma unat_high: "unat (ucast (drop_bit 32 (x :: u64)) :: u32) = unat x div 2 ^ 32"
proof -
  have "unat (drop_bit 32 x) = unat x div 2 ^ 32" by (simp only: unat_drop_bit_eq drop_bit_eq_div [where 'a=nat])
  moreover have "unat x div 2 ^ 32 < 2 ^ 32"
    using unsigned_less [of x, where 'a=nat] by (simp add: div_less_iff_less_mult)
  ultimately show ?thesis by (simp only: unsigned_ucast_eq) (simp add: take_bit_nat_eq_self)
qed

lemma low_step_channel:
  assumes "n \<noteq> []" "q \<noteq> []" "d \<noteq> []" "lg \<noteq> []" "i < 32"
    "channel lg j = op_ufind_msb (ucast (drop_bit 32 (channel d j)) :: u32)"
  shows "channel2 (low_div_step d lg i (n, q)) j = div_step (channel d j) i (channel n j, channel q j)"
proof -
  let ?d = "channel d j" and ?n = "channel n j"
  let ?h = "ucast (drop_bit 32 ?d) :: u32"
  have i: "unat (of_nat i :: u32) = i" using assms(5) by (simp add: unat_of_nat)
  have g: "op_ufind_msb ?h \<le>s of_nat (31 - i) \<longleftrightarrow> unat ?h * 2 ^ i < 2 ^ 32"
    by (rule msb_guard [OF assms(5)])
  have lt: "unat x < 2 ^ 64" for x :: u64 using unsigned_less [of x, where 'a=nat] by simp
  have h: "unat ?h = unat ?d div 2 ^ 32"
    by (rule unat_high)
  have p: "(2::nat) ^ 32 = 2 ^ (32 - i) * 2 ^ i"
    using assms(5) by (simp flip: power_add)
  have guard: "unat ?h * 2 ^ i < 2 ^ 32 \<longleftrightarrow> unat ?d * 2 ^ i < 2 ^ 64"
  proof -
    have "unat ?h * 2 ^ i < 2 ^ 32 \<longleftrightarrow> unat ?d div 2 ^ 32 < 2 ^ (32 - i)"
      by (subst p) (simp add: h)
    also have "\<dots> \<longleftrightarrow> unat ?d < 2 ^ (32 - i) * 2 ^ 32" by (rule div_less_iff_less_mult) simp
    also have "\<dots> \<longleftrightarrow> unat ?d * 2 ^ i < 2 ^ (32 - i) * 2 ^ 32 * 2 ^ i" by simp
    also have "(2::nat) ^ (32 - i) * 2 ^ 32 * 2 ^ i = 2 ^ 64"
      using p by (simp add: ac_simps)
    finally show ?thesis .
  qed
  have c: "(push_bit i ?d \<le> ?n \<and> (i \<noteq> 0 \<longrightarrow> unat ?h * 2 ^ i < 2 ^ 32)) = (unat ?d * 2 ^ i \<le> unat ?n)"
  proof (cases "unat ?d * 2 ^ i < 2 ^ 64")
    case True
    then show ?thesis using push_bit_le [of ?d i ?n] guard by simp
  next
    case False
    then have "i \<noteq> 0" using lt [of ?d] by (cases i) auto
    moreover have "\<not> unat ?d * 2 ^ i \<le> unat ?n" using False lt [of ?n] by linarith
    ultimately show ?thesis using False guard by simp
  qed
  have "channel2 (low_div_step d lg i (n, q)) j =
    (if push_bit i ?d \<le> ?n \<and> (i \<noteq> 0 \<longrightarrow> unat ?h * 2 ^ i < 2 ^ 32)
     then (?n - push_bit i ?d, channel q j OR push_bit i 1) else (?n, channel q j))"
    using assms(1-4,6)
    by (cases "i = 0"; simp add: channel2_def low_div_step_def Let_def nir_defs channels i g)
  then show ?thesis unfolding c by (simp add: div_step_def)
qed

text \<open>Lengths: every value of the loops has as many components as the operands.\<close>

lemma high_step_length:
  "length n = k \<Longrightarrow> length q = k \<Longrightarrow> length d = k \<Longrightarrow> length need \<le> k \<Longrightarrow> length lg = k \<Longrightarrow> 0 < k
   \<Longrightarrow> length (fst (high_div_step d need lg i (n, q))) = k \<and> length (snd (high_div_step d need lg i (n, q))) = k"
  by (auto simp: high_div_step_def Let_def nir_defs max_def)

lemma low_step_length:
  "length n = k \<Longrightarrow> length q = k \<Longrightarrow> length d = k \<Longrightarrow> length lg = k \<Longrightarrow> 0 < k
   \<Longrightarrow> length (fst (low_div_step d lg i (n, q))) = k \<and> length (snd (low_div_step d lg i (n, q))) = k"
  by (auto simp: low_div_step_def Let_def nir_defs max_def)

lemma high_fold_channel:
  assumes "length n = k" "length q = k" "length d = k" "0 < length need" "length need \<le> k"
    "length lg = k" "0 < k" "\<forall>i \<in> set is. i < 32" "channel need j = nir_bool c"
    "channel lg j = op_ufind_msb (channel d j)"
  shows "(let s = fold (high_div_step d need lg) is (n, q) in
      length (fst s) = k \<and> length (snd s) = k \<and>
      channel2 s j = (if c then fold (div_step (channel d j)) is (channel n j, channel q j)
        else (channel n j, channel q j)))"
  using assms(1,2,8)
proof (induction "is" arbitrary: n q)
  case Nil
  then show ?case by (simp add: channel2_def)
next
  case (Cons i "is")
  obtain n' q' where s: "high_div_step d need lg i (n, q) = (n', q')" by force
  have "length n' = k" "length q' = k"
    using high_step_length [of n k q d need lg i] assms(3-7) Cons.prems s by auto
  moreover have "n \<noteq> []" "q \<noteq> []" "d \<noteq> []" "need \<noteq> []" "lg \<noteq> []" using assms(3-7) Cons.prems by force+
  then have "(channel n' j, channel q' j) =
      (if c then div_step (channel d j) i (channel n j, channel q j) else (channel n j, channel q j))"
    using high_step_channel [of n q d need lg i j c] assms(9,10) Cons.prems(3) s
    by (simp add: channel2_def)
  ultimately show ?case using Cons.IH [of n' q'] Cons.prems(3) by (simp add: s Let_def)
qed

lemma low_fold_channel:
  assumes "length n = k" "length q = k" "length d = k" "length lg = k" "0 < k" "\<forall>i \<in> set is. i < 32"
    "channel lg j = op_ufind_msb (ucast (drop_bit 32 (channel d j)) :: u32)"
  shows "(let s = fold (low_div_step d lg) is (n, q) in
      length (fst s) = k \<and> length (snd s) = k \<and>
      channel2 s j = fold (div_step (channel d j)) is (channel n j, channel q j))"
  using assms(1,2,6)
proof (induction "is" arbitrary: n q)
  case Nil
  then show ?case by (simp add: channel2_def)
next
  case (Cons i "is")
  obtain n' q' where s: "low_div_step d lg i (n, q) = (n', q')" by force
  have "length n' = k" "length q' = k"
    using low_step_length [of n k q d lg i] assms(3-5) Cons.prems s by auto
  moreover have "n \<noteq> []" "q \<noteq> []" "d \<noteq> []" "lg \<noteq> []" using assms(3-5) Cons.prems by force+
  then have "(channel n' j, channel q' j) = div_step (channel d j) i (channel n j, channel q j)"
    using low_step_channel [of n q d lg i j] assms(7) Cons.prems(3) s by (simp add: channel2_def)
  ultimately show ?case using Cons.IH [of n' q'] Cons.prems(3) by (simp add: s Let_def)
qed

section \<open>Unsigned division\<close>

lemma unat_pack: "unat (op_pack_64_2x32_split lo hi) = unat lo + 2 ^ 32 * unat hi"
proof -
  let ?lo = "ucast lo :: u64" and ?hi = "ucast hi :: u64"
  have b: "unat lo < 2 ^ 32" "unat hi < 2 ^ 32"
    using unsigned_less [of lo, where 'a=nat] unsigned_less [of hi, where 'a=nat] by simp_all
  have u: "unat ?lo = unat lo" "unat ?hi = unat hi"
    using b by (simp_all only: unsigned_ucast_eq) (simp_all add: take_bit_nat_eq_self)
  have h: "unat (push_bit 32 ?hi) = unat hi * 2 ^ 32"
    using b by (subst unat_push_bit) (simp_all add: u)
  have "?lo + push_bit 32 ?hi = ?lo OR push_bit 32 ?hi"
    by (rule disjunctive_add) (auto simp: bit_simps dest: bit_imp_le_length)
  moreover have "unat (?lo + push_bit 32 ?hi) = unat lo + unat hi * 2 ^ 32"
    using b u h by (subst unat_add_less) simp_all
  ultimately show ?thesis by (simp add: op_pack_64_2x32_split_def)
qed

lemma unat_low: "unat (ucast (x :: u64) :: u32) = unat x mod 2 ^ 32"
  by (simp add: unsigned_ucast_eq take_bit_eq_mod)

lemma pack_split [simp]: "op_pack_64_2x32_split (ucast x) (ucast (drop_bit 32 x)) = x"
  unfolding word_unat_eq_iff unat_pack unat_high unfolding unat_low by simp

text \<open>What the two loops compute on one component.\<close>

lemma halves_divide:
  fixes n d :: u64 and nh :: u32
  defines "m \<equiv> op_pack_64_2x32_split (ucast n) nh"
  assumes "d \<noteq> 0"
    and need: "c \<longleftrightarrow> (ucast (drop_bit 32 d) :: u32) = 0 \<and> (ucast d :: u32) \<le> ucast (drop_bit 32 n)"
    and high: "(nh, qh) = (if c then fold (div_step (ucast d)) (rev [0 ..< 32]) (ucast (drop_bit 32 n), 0)
                else (ucast (drop_bit 32 n), 0))"
    and low: "(r, ql) = fold (div_step d) (rev [0 ..< 32]) (m, 0)"
  shows "op_pack_64_2x32_split ql qh = n div d \<and> r = n mod d"
proof -
  let ?n = "unat n" and ?d = "unat d" and ?m = "unat m"
  have d: "0 < ?d" using assms(2) by (simp add: unat_gt_0)
  have lt: "unat x < 2 ^ 64" for x :: u64 using unsigned_less [of x, where 'a=nat] by simp
  have m: "?m = ?n mod 2 ^ 32 + 2 ^ 32 * unat nh" by (simp add: m_def unat_pack unat_low)
  have "?m < ?d * 2 ^ 32 \<and> ?n = ?m + 2 ^ 32 * unat qh * ?d"
  proof (cases "(ucast (drop_bit 32 d) :: u32) = 0")
    case True
    then have "?d div 2 ^ 32 = 0" using unat_high [of d] by (metis unat_0)
    then have dl: "unat (ucast d :: u32) = ?d" "?d < 2 ^ 32" by (simp_all add: unat_low div_eq_0_iff)
    have "unat nh = ?n div 2 ^ 32 mod ?d \<and> unat qh = ?n div 2 ^ 32 div ?d"
    proof (cases c)
      case True
      have "?n div 2 ^ 32 < ?d * 2 ^ 32" using d lt [of n] by (simp add: div_less_iff_less_mult) 
      then have "(nh, qh) = (of_nat (?n div 2 ^ 32 mod ?d), of_nat (?n div 2 ^ 32 div ?d))"
        using high True d by (subst (asm) div_loop) (simp_all add: dl(1) unat_high)
      moreover have "?n div 2 ^ 32 < 2 ^ 32" using lt [of n] by (simp add: div_less_iff_less_mult)
      then have "?n div 2 ^ 32 div ?d < 2 ^ 32" "?n div 2 ^ 32 mod ?d < 2 ^ 32"
        using div_le_dividend [of "?n div 2 ^ 32" ?d] mod_less_eq_dividend [of "?n div 2 ^ 32" ?d]
        by linarith+
      ultimately show ?thesis by (simp add: unat_of_nat)
    next
      case False
      then have "?n div 2 ^ 32 < ?d" using need True by (simp add: word_less_nat_alt dl unat_high not_le)
      then show ?thesis using False high by (simp add: unat_high)
    qed
    then have nq: "unat nh < ?d" "?n div 2 ^ 32 = unat nh + unat qh * ?d" using d by simp_all
    have "?m < 2 ^ 32 * Suc (unat nh)" unfolding m by simp
    also have "\<dots> \<le> 2 ^ 32 * ?d" using nq(1) by (intro mult_left_mono) simp_all
    finally have "?m < ?d * 2 ^ 32" by simp
    moreover have "?n = ?n mod 2 ^ 32 + 2 ^ 32 * (?n div 2 ^ 32)" by simp
    then have "?n = ?m + 2 ^ 32 * unat qh * ?d" unfolding m nq(2) by (simp add: algebra_simps)
    ultimately show ?thesis by blast
  next
    case False
    then have "c \<longleftrightarrow> False" using need by simp
    then have e: "m = n" "qh = 0" using high by (simp_all add: m_def)
    have "?d div 2 ^ 32 \<noteq> 0" using False unat_high [of d] by (metis unat_eq_zero)
    then have "2 ^ 32 \<le> ?d" by (simp add: div_eq_0_iff)
    then show ?thesis using e lt [of n] by simp
  qed
  then have l: "?m < ?d * 2 ^ 32" and n: "?n = ?m + 2 ^ 32 * unat qh * ?d" by simp_all
  have rq: "r = of_nat (?m mod ?d)" "ql = of_nat (?m div ?d)"
    using low div_loop [OF d l, of 0] by simp_all
  have "?m div ?d < 2 ^ 32" using l d by (simp add: div_less_iff_less_mult mult.commute)
  then have "unat (op_pack_64_2x32_split ql qh) = ?m div ?d + 2 ^ 32 * unat qh"
    by (simp add: unat_pack rq(2) unat_of_nat)
  also have "\<dots> = ?n div ?d" using d by (subst n) simp
  finally have "op_pack_64_2x32_split ql qh = n div d" by (simp add: word_unat_eq_iff unat_div)
  moreover have "?m mod ?d = ?n mod ?d" by (subst n) simp
  then have "r = n mod d" unfolding rq(1) by (simp flip: unat_mod)
  ultimately show ?thesis by simp
qed


text \<open>The algorithm on one component.\<close>

definition scalar_divmod :: "u64 \<Rightarrow> u64 \<Rightarrow> u64 \<times> u64" where
  "scalar_divmod n d =
    (let (nh, qh) = (if (ucast (drop_bit 32 d) :: u32) = 0 \<and> (ucast d :: u32) \<le> ucast (drop_bit 32 n)
                     then fold (div_step (ucast d)) (rev [0 ..< 32]) (ucast (drop_bit 32 n), 0)
                     else (ucast (drop_bit 32 n), 0));
         (r, ql) = fold (div_step d) (rev [0 ..< 32]) (op_pack_64_2x32_split (ucast n) nh, 0)
     in (op_pack_64_2x32_split ql qh, r))"

lemma scalar_divmod: "d \<noteq> 0 \<Longrightarrow> scalar_divmod n d = (n div d, n mod d)"
  using halves_divide [OF _ refl surjective_pairing [symmetric] surjective_pairing [symmetric], of d n]
  by (simp add: scalar_divmod_def Let_def split_def)

lemma div_step_zero: "fold (div_step 0) is (n, q) = (n, fold (\<lambda>i q. q OR 2 ^ i) is q)"
  by (induction "is" arbitrary: q) (simp_all add: div_step_def)

lemma all_ones: "fold (\<lambda>i q. q OR 2 ^ i) (rev [0 ..< 32]) (0 :: u32) = - 1"
  by code_simp

lemma scalar_divmod_zero: "scalar_divmod n 0 = (op_pack_64_2x32_split (- 1) (- 1), n)"
  by (simp add: scalar_divmod_def Let_def split_def div_step_zero all_ones)

lemma udiv64_mod64_channel:
  assumes k: "length n = k" "length d = k" "0 < k"
  shows "length (fst (lower_udiv64_mod64 n d)) = k \<and> length (snd (lower_udiv64_mod64 n d)) = k \<and>
    channel2 (lower_udiv64_mod64 n d) j = scalar_divmod (channel n j) (channel d j)"
proof -
  let ?n = "channel n j" and ?d = "channel d j"
  have ne: "n \<noteq> []" "d \<noteq> []" using k by auto
  define n_lo n_hi d_lo d_hi where halves: "n_lo = nir_unpack_64_2x32_split_x n"
    "n_hi = nir_unpack_64_2x32_split_y n" "d_lo = nir_unpack_64_2x32_split_x d"
    "d_hi = nir_unpack_64_2x32_split_y d"
  have len: "length n_lo = k" "length n_hi = k" "length d_lo = k" "length d_hi = k"
    by (simp_all add: halves k nir_defs)
  have ch: "channel n_lo j = ucast ?n" "channel n_hi j = ucast (drop_bit 32 ?n)"
    "channel d_lo j = ucast ?d" "channel d_hi j = ucast (drop_bit 32 ?d)"
    using ne by (simp_all add: halves nir_defs channels)
  have ne2: "n_lo \<noteq> []" "n_hi \<noteq> []" "d_lo \<noteq> []" "d_hi \<noteq> []" using len k by force+
  define need where "need = nir_iand (nir_ieq d_hi (nir_imm_int 0)) (nir_uge n_hi d_lo)"
  define need' where "need' = (if length n = 1 then nir_imm_int (- 1) else need)"
  define c where "c \<longleftrightarrow> (ucast (drop_bit 32 ?d) :: u32) = 0 \<and> (ucast ?d :: u32) \<le> ucast (drop_bit 32 ?n)"
  have need_ne: "need \<noteq> []" "length need = k" using len k by (auto simp: need_def nir_defs max_def)
  have need: "channel need j = nir_bool c"
    using ne2 ch by (simp add: need_def nir_defs channels c_def)
  define hs where "hs = fold (high_div_step d_lo need' (nir_ufind_msb d_lo)) (rev [0 ..< 32]) (n_hi, replicate k 0)"
  define n_hi' q_hi' where hi': "n_hi' = nir_if_phi (nir_bany need) (fst hs) n_hi"
    "q_hi' = nir_if_phi (nir_bany need) (snd hs) (replicate k 0)"
  define ls where "ls = fold (low_div_step (nir_pack_64_2x32_split d_lo d_hi) (nir_ufind_msb d_hi)) (rev [0 ..< 32])
    (nir_pack_64_2x32_split n_lo n_hi', replicate k 0)"
  have run: "lower_udiv64_mod64 n d = (nir_pack_64_2x32_split (snd ls) q_hi', fst ls)"
    by (simp add: lower_udiv64_mod64_def Let_def ls_def hi' hs_def need'_def need_def halves k split_def)
  have high: "length n_hi' = k \<and> length q_hi' = k \<and> (channel n_hi' j, channel q_hi' j) =
    (if c then fold (div_step (ucast ?d)) (rev [0 ..< 32]) (ucast (drop_bit 32 ?n), 0)
     else (ucast (drop_bit 32 ?n), 0))"
  proof (cases "list_ex (\<lambda>c. c \<noteq> 0) need")
    case False
    have "channel need j \<in> set need" using need_ne(1) by (simp add: channel_def)
    then have "\<not> c" using False need by (auto simp: list_ex_iff)
    then show ?thesis using False len k ch by (simp add: hi' nir_if_phi_def nir_bany_def channels)
  next
    case True
    have "channel need' j = nir_bool c"
    proof (cases "k = 1")
      case True
      then obtain x where "need = [x]" using need_ne(2) by (cases need) auto
      then have "c" using \<open>list_ex _ need\<close> need by (simp add: channels)
      then show ?thesis using True k by (simp add: need'_def nir_imm_int_def channels nir_bool_def)
    qed (use need k in \<open>simp add: need'_def\<close>)
    moreover have "0 < length need'" "length need' \<le> k"
      using need_ne k by (simp_all add: need'_def nir_imm_int_def)
    moreover have "channel (nir_ufind_msb d_lo) j = op_ufind_msb (channel d_lo j)"
      using ne2 by (simp add: nir_ufind_msb_def channels)
    ultimately show ?thesis
      using high_fold_channel [of n_hi k "replicate k 0" d_lo need' "nir_ufind_msb d_lo" "rev [0 ..< 32]" j c]
        True len k ch
      by (simp add: hi' nir_if_phi_def nir_bany_def hs_def channel2_def Let_def nir_ufind_msb_def channels)
  qed
  then have hl: "length n_hi' = k" "length q_hi' = k" by simp_all
  have pd: "nir_pack_64_2x32_split d_lo d_hi = d"
    by (rule ssa_def_eqI) (use ne in \<open>simp_all add: halves nir_defs channels\<close>)
  have ne': "n_lo \<noteq> []" "n_hi' \<noteq> []" using len hl k by auto
  have low: "length (fst ls) = k \<and> length (snd ls) = k \<and> channel2 ls j = fold (div_step ?d) (rev [0 ..< 32])
      (op_pack_64_2x32_split (ucast ?n) (channel n_hi' j), 0)"
    using low_fold_channel [of "nir_pack_64_2x32_split n_lo n_hi'" k "replicate k 0" d "nir_ufind_msb d_hi" "rev [0 ..< 32]" j]
      len hl k ch ne2 ne'
    unfolding ls_def pd by (simp add: Let_def nir_defs channels)
  then have l: "fold (div_step ?d) (rev [0 ..< 32]) (op_pack_64_2x32_split (ucast ?n) (channel n_hi' j), 0) =
      (channel (fst ls) j, channel (snd ls) j)" by (simp add: channel2_def)
  have h: "(if c then fold (div_step (ucast ?d)) (rev [0 ..< 32]) (ucast (drop_bit 32 ?n), 0)
     else (ucast (drop_bit 32 ?n), 0)) = (channel n_hi' j, channel q_hi' j)"
    using high by (elim conjE) (rule sym)
  have "(op_pack_64_2x32_split (channel (snd ls) j) (channel q_hi' j), channel (fst ls) j) = scalar_divmod ?n ?d"
    by (simp only: scalar_divmod_def c_def [symmetric] h l Let_def prod.case)
  moreover have "snd ls \<noteq> []" "q_hi' \<noteq> []" using low hl k by auto
  ultimately show ?thesis
    using low hl k by (auto simp: run channel2_def nir_pack_64_2x32_split_def channels)
qed

section \<open>Multiplication and sign\<close>

lemma sint_neg_high: "(ucast (drop_bit 32 x) :: u32) <s 0 \<longleftrightarrow> sint (x :: u64) < 0"
proof -
  have "bit (ucast (drop_bit 32 x) :: u32) 31 = bit x 63" by (simp add: bit_simps)
  then show ?thesis
    using bit_last_iff [of "ucast (drop_bit 32 x) :: u32"] bit_last_iff [of x]
    by (simp add: word_sless_alt)
qed

lemma uint_iabs:
  fixes x :: "'a::len word"
  shows "uint (op_iabs x) = \<bar>sint x\<bar>"
proof -
  have m: "uint y = sint y mod 2 ^ LENGTH('a)" for y :: "'a word"
    by (simp add: uint_sint take_bit_eq_mod)
  have r: "- (2 ^ (LENGTH('a) - 1)) \<le> sint x" "sint x < 2 ^ (LENGTH('a) - 1)"
    using sint_greater_eq [of x] sint_less [of x] by simp_all
  have p: "(2::int) ^ (LENGTH('a) - 1) < 2 ^ LENGTH('a)" by (intro power_strict_increasing) simp_all
  show ?thesis
  proof (cases "sint x < 0")
    case True
    have "uint (- x) = (- sint x) mod 2 ^ LENGTH('a)"
      by (simp add: uint_word_ariths m [of x] mod_minus_eq)
    also have "\<dots> = - sint x" using True r p by (intro mod_pos_pos_trivial) linarith+
    finally show ?thesis using True by (simp add: op_iabs_def word_sless_alt)
  next
    case False
    then have "sint x mod 2 ^ LENGTH('a) = sint x" using r p by (intro mod_pos_pos_trivial) linarith+
    then show ?thesis using False m [of x] by (simp add: op_iabs_def word_sless_alt)
  qed
qed

lemma iabs_div: "op_iabs x div op_iabs y = word_of_int (\<bar>sint x\<bar> div \<bar>sint y\<bar>)"
  by (simp add: word_div_def uint_iabs)

lemma iabs_mod: "op_iabs x mod op_iabs y = word_of_int (\<bar>sint x\<bar> mod \<bar>sint y\<bar>)"
  by (simp add: word_mod_def uint_iabs)

lemma iabs_zero: "op_iabs x = 0 \<longleftrightarrow> x = 0"
  by (auto simp: op_iabs_def)

lemma sint_nonzero: "x \<noteq> 0 \<Longrightarrow> sint x \<noteq> 0"
  by (metis uint_sint take_bit_of_0 uint_0_iff)

lemma signed_division_by_magnitudes:
  fixes n d :: "'a::len word"
  assumes "d \<noteq> 0"
  shows "(if (sint n < 0) \<noteq> (sint d < 0) then - (op_iabs n div op_iabs d) else op_iabs n div op_iabs d) = op_idiv n d"
    and "(if sint n < 0 then - (op_iabs n mod op_iabs d) else op_iabs n mod op_iabs d) = op_irem n d"
proof -
  have d: "sint d \<noteq> 0" using assms by (rule sint_nonzero)
  show "(if (sint n < 0) \<noteq> (sint d < 0) then - (op_iabs n div op_iabs d) else op_iabs n div op_iabs d) = op_idiv n d"
    using assms d
    by (cases "sint n" "0 :: int" rule: linorder_cases; cases "sint d < 0";
        simp add: op_idiv_def iabs_div signed_divide_int_def sgn_if)
  show "(if sint n < 0 then - (op_iabs n mod op_iabs d) else op_iabs n mod op_iabs d) = op_irem n d"
    using assms
    by (cases "sint n" "0 :: int" rule: linorder_cases;
        simp add: op_irem_def iabs_mod smod_int_alt_def sgn_if)
qed

lemma imod_by_magnitudes:
  fixes n d :: "'a::len word"
  assumes "d \<noteq> 0"
  shows "(if op_iabs n mod op_iabs d = 0 then 0
    else if (sint n < 0) = (sint d < 0) then op_irem n d else op_irem n d + d) = op_imod n d"
proof -
  have "0 \<le> \<bar>sint n\<bar> mod \<bar>sint d\<bar>" using sint_nonzero [OF assms] by (intro pos_mod_sign) simp
  moreover have "\<bar>sint n\<bar> mod \<bar>sint d\<bar> = uint (op_iabs n mod op_iabs d)"
    by (simp add: uint_mod uint_iabs)
  ultimately have z: "op_iabs n mod op_iabs d = 0 \<longleftrightarrow> sint n smod sint d = 0"
    by (auto simp: smod_int_alt_def sgn_if simp flip: uint_0_iff simp del: uint_mod)
  have w: "word_of_int (sint n smod sint d + sint d) = word_of_int (sint n smod sint d) + d"
    by simp
  show ?thesis using assms by (simp add: op_imod_def op_irem_def z w not_le [symmetric] not_less)
qed

lemma mod_two_digits: "r < w \<Longrightarrow> (r + w * s) mod (w * w) = r + w * (s mod (w :: nat))"
  by (simp add: mod_mult2_eq)

lemma imul_halves:
  fixes x y :: u64
  defines "xl \<equiv> ucast x :: u32" and "xh \<equiv> ucast (drop_bit 32 x) :: u32"
    and "yl \<equiv> ucast y :: u32" and "yh \<equiv> ucast (drop_bit 32 y) :: u32"
  shows "op_pack_64_2x32_split (xl * yl) (op_umul_high xl yl + (xl * yh + xh * yl)) = x * y"
proof -
  let ?a = "unat xl" and ?b = "unat xh" and ?c = "unat yl" and ?d = "unat yh"
  let ?W = "2 ^ 32 :: nat"
  have x: "unat x = ?a + ?W * ?b" "unat y = ?c + ?W * ?d"
    by (simp_all only: xl_def xh_def yl_def yh_def flip: unat_pack) simp_all
  have h: "unat (op_umul_high xl yl) = ?a * ?c div ?W"
  proof -
    have l: "unat v < 2 ^ 32" for v :: u32 using unsigned_less [of v, where 'a=nat] by simp
    have u: "unat (ucast v :: u64) = unat v" for v :: u32
      using l [of v] by (simp only: unsigned_ucast_eq) (simp add: take_bit_nat_eq_self)
    have "?a * ?c < 2 ^ 32 * 2 ^ 32" using l by (intro mult_strict_mono) simp_all
    then have "unat ((ucast xl :: u64) * ucast yl) = ?a * ?c" by (simp add: unat_word_ariths u)
    then show ?thesis unfolding op_umul_high_def unat_high by simp
  qed
  have lo: "unat (xl * yl) = ?a * ?c mod ?W" by (simp add: unat_word_ariths)
  have hi: "unat (op_umul_high xl yl + (xl * yh + xh * yl)) = (?a * ?c div ?W + (?a * ?d + ?b * ?c)) mod ?W"
    by (simp add: unat_word_ariths h mod_simps)
  let ?s = "?a * ?c div ?W + (?a * ?d + ?b * ?c)"
  have "unat x * unat y = ?a * ?c mod ?W + ?W * ?s + ?W * ?W * (?b * ?d)"
    unfolding x using div_mult_mod_eq [of "?a * ?c" ?W] by (simp add: algebra_simps)
  then have "unat (x * y) = (?a * ?c mod ?W + ?W * ?s) mod (?W * ?W)"
    by (simp add: unat_word_ariths)
  also have "\<dots> = ?a * ?c mod ?W + ?W * (?s mod ?W)"
    by (rule mod_two_digits) simp
  finally show ?thesis by (simp add: word_unat_eq_iff unat_pack lo hi)
qed

lemma signed_drop_31: "signed_drop_bit 31 (x :: u32) = (if x <s 0 then - 1 else 0)"
proof -
  have "bit x 31 \<longleftrightarrow> x <s 0" using bit_last_iff [of x] by (simp add: word_sless_alt)
  moreover have "bit (signed_drop_bit 31 x) n = bit x 31" if "n < 32" for n
    using that by (cases n) (simp_all add: bit_signed_drop_bit_iff)
  ultimately show ?thesis by (intro bit_word_eqI) simp
qed

lemma pack_minus_one: "op_pack_64_2x32_split (- 1) (- 1) = - 1"
  by (rule bit_word_eqI) (auto simp: op_pack_64_2x32_split_def bit_simps)

lemma isign_halves:
  fixes x :: u64
  defines "xl \<equiv> ucast x :: u32" and "xh \<equiv> ucast (drop_bit 32 x) :: u32"
  shows "op_pack_64_2x32_split
    (signed_drop_bit 31 xh OR (if nir_bool (xl OR xh \<noteq> 0) \<noteq> 0 then 1 else 0)) (signed_drop_bit 31 xh) = op_isign x"
proof -
  have x: "x = op_pack_64_2x32_split xl xh" by (simp add: xl_def xh_def)
  have z: "xl OR xh = 0 \<longleftrightarrow> x = 0"
  proof
    assume "xl OR xh = 0"
    then have "xl = 0" "xh = 0" by (simp_all add: or_eq_0_iff)
    then show "x = 0" unfolding x by (simp add: op_pack_64_2x32_split_def)
  qed (simp add: xl_def xh_def)
  have n: "xh <s 0 \<longleftrightarrow> sint x < 0" unfolding xh_def by (rule sint_neg_high)
  have p: "0 <s x \<longleftrightarrow> 0 < sint x" by (simp add: word_sless_alt)
  show ?thesis
  proof (cases "sint x" "0 :: int" rule: linorder_cases)
    case less
    then have "x \<noteq> 0" "\<not> 0 < sint x" by auto
    then show ?thesis using less
      by (simp add: signed_drop_31 n z p op_isign_def pack_minus_one)
  next
    case equal
    then have "x = 0" using sint_nonzero [of x] by auto
    then show ?thesis by (simp add: xl_def xh_def op_isign_def op_pack_64_2x32_split_def)
  next
    case greater
    then have "x \<noteq> 0" by auto
    then show ?thesis using greater
      by (simp add: signed_drop_31 n z p op_isign_def) (simp add: op_pack_64_2x32_split_def)
  qed
qed

section \<open>The lowered instructions\<close>

lemma imul64_channel:
  assumes "x \<noteq> []" "y \<noteq> []"
  shows "channel (lower_imul64 x y) j = channel x j * channel y j"
  using assms imul_halves [of "channel x j" "channel y j"]
  by (simp add: lower_imul64_def Let_def nir_defs channels)

lemma isign64_channel:
  assumes "x \<noteq> []"
  shows "channel (lower_isign64 x) j = op_isign (channel x j)"
  using assms isign_halves [of "channel x j"]
  by (simp add: lower_isign64_def Let_def nir_defs channels)

lemma channel_nth: "i < length xs \<Longrightarrow> channel xs i = xs ! i"
  by (simp add: channel_def)

lemma imul_isign_lengths:
  assumes "length x = k" "0 < k"
  shows "length (lower_isign64 x) = k" "length y = k \<Longrightarrow> length (lower_imul64 x y) = k"
  using assms by (auto simp: lower_isign64_def lower_imul64_def Let_def nir_defs max_def)

lemma iabs_channel: "x \<noteq> [] \<Longrightarrow> channel (nir_iabs x) j = op_iabs (channel x j)"
  by (simp add: nir_defs channels)

lemma divmod_lengths:
  assumes "length n = k" "length d = k" "0 < k"
  shows "length (lower_udiv64 n d) = k" "length (lower_umod64 n d) = k" "length (lower_idiv64 n d) = k"
    "length (lower_irem64 n d) = k" "length (lower_imod64 n d) = k"
  using udiv64_mod64_channel [OF assms]
    udiv64_mod64_channel [of "nir_iabs n" k "nir_iabs d"] assms
  by (auto simp: lower_udiv64_def lower_umod64_def lower_idiv64_def lower_irem64_def lower_imod64_def
      Let_def split_def nir_defs max_def)

lemma divmod_channels:
  assumes "length n = k" "length d = k" "0 < k" "0 \<notin> set d"
  shows "channel (lower_udiv64 n d) j = op_udiv (channel n j) (channel d j)"
    "channel (lower_umod64 n d) j = op_umod (channel n j) (channel d j)"
    "channel (lower_idiv64 n d) j = op_idiv (channel n j) (channel d j)"
    "channel (lower_irem64 n d) j = op_irem (channel n j) (channel d j)"
    "channel (lower_imod64 n d) j = op_imod (channel n j) (channel d j)"
proof -
  let ?n = "channel n j" and ?d = "channel d j"
  have ne: "n \<noteq> []" "d \<noteq> []" using assms by auto
  have dz: "?d \<noteq> 0" using channel_in_set [OF ne(2), of j] assms(4) by auto
  note u = udiv64_mod64_channel [OF assms(1-3), of j]
  obtain q r where qr: "lower_udiv64_mod64 (nir_iabs n) (nir_iabs d) = (q, r)" by force
  have "length (nir_iabs n) = k" "length (nir_iabs d) = k" using assms by (simp_all add: nir_iabs_def)
  then have "length q = k \<and> length r = k \<and> channel q j = op_iabs ?n div op_iabs ?d \<and> channel r j = op_iabs ?n mod op_iabs ?d"
    using udiv64_mod64_channel [of "nir_iabs n" k "nir_iabs d" j] assms(3) dz
    by (simp add: qr channel2_def iabs_channel ne scalar_divmod iabs_zero)
  moreover from this have "q \<noteq> []" "r \<noteq> []" using assms(3) by auto
  ultimately have s: "q \<noteq> []" "r \<noteq> []" "channel q j = op_iabs ?n div op_iabs ?d" "channel r j = op_iabs ?n mod op_iabs ?d"
    by simp_all
  show "channel (lower_udiv64 n d) j = op_udiv ?n ?d" "channel (lower_umod64 n d) j = op_umod ?n ?d"
    using u dz by (simp_all add: scalar_divmod lower_udiv64_def lower_umod64_def split_def channel2_def op_udiv_def op_umod_def)
  show "channel (lower_idiv64 n d) j = op_idiv ?n ?d"
    using s ne signed_division_by_magnitudes(1) [OF dz, of ?n]
    by (simp add: lower_idiv64_def Let_def qr nir_defs channels sint_neg_high del: nir_iabs_def)
  show "channel (lower_irem64 n d) j = op_irem ?n ?d"
    using s ne signed_division_by_magnitudes(2) [OF dz, of ?n]
    by (simp add: lower_irem64_def Let_def qr nir_defs channels sint_neg_high del: nir_iabs_def)
  show "channel (lower_imod64 n d) j = op_imod ?n ?d"
    using s ne imod_by_magnitudes [OF dz, of ?n] signed_division_by_magnitudes(2) [OF dz, of ?n]
    by (simp add: lower_imod64_def Let_def qr nir_defs channels sint_neg_high del: nir_iabs_def)
qed

section \<open>Properties of the lowering\<close>

text \<open>C30. For every 64-bit opcode the pass lowers, and operands of any number of components without a
  zero divisor, the code it builds computes the constant expression of the opcode on every component.\<close>

theorem lower_int64_correct:
  assumes "opcode_to_options_mask op \<noteq> 0" "length src = nir_op_num_inputs op"
    "\<forall>x \<in> set src. length x = k" "0 < k"
    "op \<notin> {nir_op_imul, nir_op_isign} \<longrightarrow> 0 \<notin> set (src ! 1)"
  shows "lower_int64_alu_instr op src =
    Some (map (\<lambda>i. nir_op_eval op (map (\<lambda>x. x ! i) src)) [0 ..< k])"
proof -
  have eq: "xs = map f [0 ..< k]" if "length xs = k" "\<And>i. i < k \<Longrightarrow> channel xs i = f i" for xs :: "u64 list" and f
    using that by (intro nth_equalityI) (simp_all add: channel_def)
  show ?thesis
  proof (cases "op = nir_op_isign")
    case True
    then obtain x where x: "src = [x]" using assms(2) by (cases src) auto
    then have "length x = k" "x \<noteq> []" using assms(3,4) by auto
    then show ?thesis
      using isign64_channel [of x] imul_isign_lengths [of x k] assms(4)
      by (simp add: x True, intro eq) (simp_all add: channel_nth)
  next
    case False
    then have "length src = 2" using assms(1,2) by (cases op) auto
    then obtain x y where s: "src = [x, y]" by (auto simp: length_Suc_conv numeral_2_eq_2)
    then have l: "length x = k" "length y = k" using assms(3) by auto
    have ne: "x \<noteq> []" "y \<noteq> []" using l assms(4) by auto
    have c: "channel x i = x ! i" "channel y i = y ! i" if "i < k" for i
      using that l by (simp_all add: channel_nth)
    show ?thesis
    proof (cases "op = nir_op_imul")
      case True
      then show ?thesis
        using imul64_channel [OF ne] imul_isign_lengths [OF l(1) assms(4)] c l
        by (simp add: s, intro eq) simp_all
    next
      case False
      with \<open>op \<noteq> nir_op_isign\<close> have z: "0 \<notin> set y" using assms(5) by (simp add: s)
      note d = divmod_lengths [OF l assms(4)] divmod_channels [OF l assms(4) z]
      show ?thesis using assms(1) False \<open>op \<noteq> nir_op_isign\<close> c
        by (cases op) (simp_all add: s, (intro eq; simp add: d)+)
    qed
  qed
qed


theorem lower_int64_correct_witness:
  "lower_int64_alu_instr nir_op_imod [[- 7, 5], [3, - 2]] = Some [2, - 1]"
  using lower_int64_correct [of nir_op_imod "[[- 7, 5], [3, - 2]]" 2]
  by (simp add: upt_rec op_imod_def nir_lower_divmod64_def)

text \<open>By zero the lowered division gives all ones, where the opcode gives zero.\<close>

lemma lower_div64_by_zero:
  "lower_udiv64 [n] [0] = [- 1] \<and> lower_umod64 [n] [0] = [n] \<and> op_udiv n 0 = 0 \<and> op_umod n 0 = 0"
proof -
  have "length (lower_udiv64 [n] [0]) = 1" "length (lower_umod64 [n] [0]) = 1"
    using divmod_lengths [of "[n]" 1 "[0]"] by simp_all
  moreover have "channel (lower_udiv64 [n] [0]) 0 = - 1" "channel (lower_umod64 [n] [0]) 0 = n"
    using udiv64_mod64_channel [of "[n]" 1 "[0]" 0]
    by (simp_all add: lower_udiv64_def lower_umod64_def split_def channel2_def scalar_divmod_zero channels
        pack_minus_one)
  ultimately show ?thesis
    by (auto simp: length_Suc_conv channels op_udiv_def op_umod_def)
qed

end
