(* ===== verification/ParallelCopy.thy ===== *)
theory ParallelCopy
  imports Prelude "HOL-Library.Monad_Syntax"
begin

text \<open>
  Parallel copies into sequences of moves, \<open>resolve_parallel_copy\<close> of
  \<open>src/src/compiler/nir/nir_from_ssa.c\<close>, with the arrays and stacks of the code: an access outside of an
  array, or at the index -1, is \<open>None\<close>.
\<close>

section \<open>Registers, values and copies\<close>

text \<open>A source is an SSA value or a register; the registers a parallel copy mentions have neither an
  offset nor an indirect, so that \<open>nir_srcs_equal\<close> is equality.\<close>

datatype nir_src = Ssa nat | Reg nat

record nir_parallel_copy_entry =
  pc_src :: nir_src
  pc_dest :: nat

text \<open>An emitted \<open>imov\<close>: destination register, source and write mask.\<close>

record nir_mov =
  mv_dest :: nat
  mv_src :: nir_src
  mv_write_mask :: nat

text \<open>\<open>regs\<close> are the numbers of components of the registers of the function, by index.\<close>

definition num_components :: "(nat \<Rightarrow> nat) \<Rightarrow> nat list \<Rightarrow> nir_src \<Rightarrow> nat" where
  "num_components ssa_comps regs v = (case v of Ssa s \<Rightarrow> ssa_comps s | Reg r \<Rightarrow> regs ! r)"

definition emit_copy :: "nat list \<Rightarrow> nir_src \<Rightarrow> nat \<Rightarrow> nir_mov" where
  "emit_copy regs src dest = \<lparr>mv_dest = dest, mv_src = src, mv_write_mask = 2 ^ (regs ! dest) - 1\<rparr>"

text \<open>The local state of \<open>resolve_parallel_copy\<close>.  \<open>None\<close> is the index -1; the arrays \<open>loc\<close> and
  \<open>pred\<close> have \<open>2 * num_copies\<close> elements, \<open>values\<close> holds the first \<open>num_vals\<close> of as many, and the
  stacks \<open>to_do\<close> and \<open>ready\<close> have their top first.\<close>

record copy_state =
  c_values :: "nir_src list"
  c_loc :: "nat option list"
  c_pred :: "nat option list"
  c_to_do :: "nat list"
  c_ready :: "nat list"
  c_regs :: "nat list"
  c_movs :: "nir_mov list"

section \<open>Setting up\<close>

definition self_copy :: "nir_parallel_copy_entry \<Rightarrow> bool" where
  "self_copy e \<longleftrightarrow> pc_src e = Reg (pc_dest e)"

text \<open>The index of a value, entered at the end when it is new.\<close>

definition value_index :: "nir_src list \<Rightarrow> nir_src \<Rightarrow> nat \<times> nir_src list" where
  "value_index values v =
    (case List.find (\<lambda>i. values ! i = v) (rev [0 ..< length values]) of
       Some i \<Rightarrow> (i, values)
     | None \<Rightarrow> (length values, values @ [v]))"

definition setup_entry :: "nir_parallel_copy_entry \<Rightarrow> copy_state \<Rightarrow> copy_state" where
  "setup_entry e st =
    (if self_copy e then st
     else let (src_idx, values) = value_index (c_values st) (pc_src e);
              (dest_idx, values) = value_index values (Reg (pc_dest e))
          in st\<lparr>c_values := values, c_loc := (c_loc st)[src_idx := Some src_idx],
               c_pred := (c_pred st)[dest_idx := Some src_idx], c_to_do := dest_idx # c_to_do st\<rparr>)"

definition mark_ready :: "copy_state \<Rightarrow> copy_state" where
  "mark_ready st =
    st\<lparr>c_ready := rev (filter (\<lambda>i. c_pred st ! i \<noteq> None \<and> c_loc st ! i = None) [0 ..< length (c_values st)])\<rparr>"

definition copy_setup :: "nat list \<Rightarrow> nir_parallel_copy_entry list \<Rightarrow> copy_state" where
  "copy_setup regs entries =
    (let n = length (filter (\<lambda>e. \<not> self_copy e) entries)
     in mark_ready (fold setup_entry entries
          \<lparr>c_values = [], c_loc = replicate (n * 2) None, c_pred = replicate (n * 2) None,
           c_to_do = [], c_ready = [], c_regs = regs, c_movs = []\<rparr>))"

section \<open>The loops\<close>

text \<open>An index out of the range of an array, or -1, is undefined behaviour and makes the result \<open>None\<close>.\<close>

definition push_ready :: "nat \<Rightarrow> copy_state \<Rightarrow> copy_state option" where
  "push_ready i st =
    (if length (c_ready st) < length (c_pred st) then Some (st\<lparr>c_ready := i # c_ready st\<rparr>) else None)"

definition copy_ready :: "nat \<Rightarrow> copy_state \<Rightarrow> copy_state option" where
  "copy_ready b st =
    (if b < length (c_pred st)
     then do {
       a \<leftarrow> c_pred st ! b;
       l \<leftarrow> (if a < length (c_loc st) then c_loc st ! a else None);
       (case c_values st ! b of
          Ssa _ \<Rightarrow> None
        | Reg d \<Rightarrow> (let st = st\<lparr>c_movs := c_movs st @ [emit_copy (c_regs st) (c_values st ! l) d],
                          c_loc := (c_loc st)[a := Some b], c_pred := (c_pred st)[b := None]\<rparr>
                   in if c_pred st ! a \<noteq> None then push_ready a st else Some st)) }
     else None)"

lemma copy_ready_pred: "copy_ready b st = Some st' \<Longrightarrow>
    b < length (c_pred st) \<and> c_pred st ! b \<noteq> None \<and> c_pred st' = (c_pred st)[b := None]"
  by (cases "c_values st ! b")
    (auto simp: copy_ready_def push_ready_def Let_def Option.bind_eq_Some_conv split: if_splits)

lemma pending_decreases:
  "b < length xs \<Longrightarrow> xs ! b = Some a \<Longrightarrow>
    length (filter (Not \<circ> Option.is_none) (xs[b := None])) < length (filter (Not \<circ> Option.is_none) xs)"
  by (induction xs arbitrary: b) (auto split: nat.splits)

function drain_ready :: "copy_state \<Rightarrow> copy_state option" where
  "drain_ready st =
    (case c_ready st of
       [] \<Rightarrow> Some st
     | b # ready \<Rightarrow>
         (case copy_ready b (st\<lparr>c_ready := ready\<rparr>) of None \<Rightarrow> None | Some st \<Rightarrow> drain_ready st))"
  by auto
termination
  by (relation "measure (\<lambda>st. length (filter (Not \<circ> Option.is_none) (c_pred st)))")
    (auto dest!: copy_ready_pred simp: pending_decreases)

declare drain_ready.simps [simp del]

definition break_cycle :: "(nat \<Rightarrow> nat) \<Rightarrow> nat \<Rightarrow> copy_state \<Rightarrow> copy_state option" where
  "break_cycle ssa_comps b st =
    (if length (c_values st) < length (c_pred st)
     then let num_vals = length (c_values st); reg = length (c_regs st);
              regs = c_regs st @ [num_components ssa_comps (c_regs st) (c_values st ! b)]
          in push_ready b (st\<lparr>c_regs := regs, c_values := c_values st @ [Reg reg],
               c_movs := c_movs st @ [emit_copy regs (c_values st ! b) reg],
               c_loc := (c_loc st)[b := Some num_vals]\<rparr>)
     else None)"

fun copy_loop :: "(nat \<Rightarrow> nat) \<Rightarrow> nat list \<Rightarrow> copy_state \<Rightarrow> copy_state option" where
  "copy_loop ssa_comps [] st = Some st"
| "copy_loop ssa_comps (b # to_do) st = do {
     st \<leftarrow> drain_ready st;
     if c_pred st ! b = None then copy_loop ssa_comps to_do st
     else do { st \<leftarrow> break_cycle ssa_comps b st; copy_loop ssa_comps to_do st } }"

text \<open>The registers of the function afterwards and the copies that replace the instruction.\<close>

definition resolve_parallel_copy ::
  "(nat \<Rightarrow> nat) \<Rightarrow> nat list \<Rightarrow> nir_parallel_copy_entry list \<Rightarrow> (nat list \<times> nir_mov list) option" where
  "resolve_parallel_copy ssa_comps regs entries =
    (if filter (\<lambda>e. \<not> self_copy e) entries = [] then Some (regs, [])
     else do {
       let st = copy_setup regs entries;
       st \<leftarrow> copy_loop ssa_comps (c_to_do st) st;
       Some (c_regs st, c_movs st) })"

section \<open>What the instructions do\<close>

text \<open>A memory gives every value its components; a move writes those in its mask.\<close>

definition exec_mov :: "nir_mov \<Rightarrow> (nir_src \<Rightarrow> 'v list) \<Rightarrow> (nir_src \<Rightarrow> 'v list)" where
  "exec_mov mv m = m(Reg (mv_dest mv) :=
     map (\<lambda>i. if bit (mv_write_mask mv) i then m (mv_src mv) ! i else m (Reg (mv_dest mv)) ! i)
       [0 ..< length (m (Reg (mv_dest mv)))])"

definition exec_movs :: "nir_mov list \<Rightarrow> (nir_src \<Rightarrow> 'v list) \<Rightarrow> (nir_src \<Rightarrow> 'v list)" where
  "exec_movs mvs m = fold exec_mov mvs m"

definition memory_ok :: "(nat \<Rightarrow> nat) \<Rightarrow> nat list \<Rightarrow> (nir_src \<Rightarrow> 'v list) \<Rightarrow> bool" where
  "memory_ok ssa_comps regs m \<longleftrightarrow>
    (\<forall>s. length (m (Ssa s)) = ssa_comps s) \<and> (\<forall>r < length regs. length (m (Reg r)) = regs ! r)"

lemma swap_example:
  "resolve_parallel_copy (\<lambda>_. 4) [4, 4, 4]
     [\<lparr>pc_src = Reg 0, pc_dest = 1\<rparr>, \<lparr>pc_src = Reg 1, pc_dest = 0\<rparr>, \<lparr>pc_src = Reg 0, pc_dest = 2\<rparr>] =
   Some ([4, 4, 4],
     [\<lparr>mv_dest = 2, mv_src = Reg 0, mv_write_mask = 15\<rparr>,
      \<lparr>mv_dest = 0, mv_src = Reg 1, mv_write_mask = 15\<rparr>,
      \<lparr>mv_dest = 1, mv_src = Reg 2, mv_write_mask = 15\<rparr>])"
  by code_simp

lemma cycle_example:
  "resolve_parallel_copy (\<lambda>_. 4) [4, 4]
     [\<lparr>pc_src = Reg 0, pc_dest = 1\<rparr>, \<lparr>pc_src = Reg 1, pc_dest = 0\<rparr>] =
   Some ([4, 4, 4],
     [\<lparr>mv_dest = 2, mv_src = Reg 0, mv_write_mask = 15\<rparr>,
      \<lparr>mv_dest = 0, mv_src = Reg 1, mv_write_mask = 15\<rparr>,
      \<lparr>mv_dest = 1, mv_src = Reg 2, mv_write_mask = 15\<rparr>])"
  by code_simp

end
