(* ===== verification/ParallelCopyCorrect.thy ===== *)
theory ParallelCopyCorrect
  imports ParallelCopy
begin

text \<open>
  The moves have the effect of the parallel copy on every memory, no array is accessed out of its
  bounds, and there is one move per copy and one per temporary.  The invariant says of every value
  that is still needed where it lives, and of every ready destination that nothing needs what it holds.
\<close>

section \<open>Moves of whole values\<close>

lemma exec_movs_append [simp]: "exec_movs (xs @ [mv]) m = exec_mov mv (exec_movs xs m)"
  by (simp add: exec_movs_def)

lemma bit_mask_less: "i < k \<Longrightarrow> bit ((2 :: nat) ^ k - Suc 0) i"
  using bit_mask_iff [of k i, where 'a = nat] by (simp add: mask_eq_exp_minus_1)

lemma memory_ok_length:
  "memory_ok sc regs m \<Longrightarrow> (case v of Ssa _ \<Rightarrow> True | Reg r \<Rightarrow> r < length regs)
    \<Longrightarrow> length (m v) = num_components sc regs v"
  by (auto simp: memory_ok_def num_components_def split: nir_src.splits)

definition known :: "nat list \<Rightarrow> nir_src \<Rightarrow> bool" where
  "known regs v \<longleftrightarrow> (case v of Ssa _ \<Rightarrow> True | Reg r \<Rightarrow> r < length regs)"

lemma known_simps [simp]: "known regs (Ssa s)" "known regs (Reg r) \<longleftrightarrow> r < length regs"
  by (simp_all add: known_def)

lemma known_append: "known regs v \<Longrightarrow> known (regs @ xs) v"
  by (auto simp: known_def split: nir_src.splits)

lemma components_append: "known regs v \<Longrightarrow> num_components sc (regs @ xs) v = num_components sc regs v"
  by (auto simp: known_def num_components_def nth_append split: nir_src.splits)

lemma exec_emit_copy:
  assumes "memory_ok sc regs m" "known regs v" "d < length regs" "num_components sc regs v = regs ! d"
  shows "exec_mov (emit_copy regs v d) m = m(Reg d := m v)"
proof -
  have "length (m v) = regs ! d" "length (m (Reg d)) = regs ! d"
    using memory_ok_length [OF assms(1), of v] assms memory_ok_length [OF assms(1), of "Reg d"]
    by (simp_all add: known_def num_components_def)
  then show ?thesis
    by (auto simp: exec_mov_def emit_copy_def bit_mask_less intro!: arg_cong [where f = "fun_upd m (Reg d)"]
        nth_equalityI)
qed

lemma exec_emit_copy_ok:
  assumes "memory_ok sc regs m" "known regs v" "d < length regs" "num_components sc regs v = regs ! d"
  shows "memory_ok sc regs (exec_mov (emit_copy regs v d) m)"
  using assms memory_ok_length [OF assms(1), of v]
  unfolding exec_emit_copy [OF assms] by (auto simp: memory_ok_def known_def)

section \<open>The invariant\<close>

text \<open>\<open>p0\<close> is the array of predecessors after the setup, as a function, \<open>P\<close> and \<open>L\<close> the arrays
  \<open>pred\<close> and \<open>loc\<close> now.\<close>

definition setup_ok :: "(nat \<Rightarrow> nat) \<Rightarrow> nat list \<Rightarrow> (nat \<Rightarrow> nat option) \<Rightarrow> nat \<Rightarrow> nir_src list \<Rightarrow> nat list \<Rightarrow> bool" where
  "setup_ok sc regs0 p0 N vs regs \<longleftrightarrow>
     distinct vs \<and> length vs \<le> N \<and> (\<forall>v \<in> set vs. known regs v) \<and>
     (\<exists>ts. regs = regs0 @ ts) \<and> finite (dom p0) \<and>
     (\<forall>b a. p0 b = Some a \<longrightarrow> a \<noteq> b \<and> a < length vs \<and> b < length vs \<and>
        num_components sc regs (vs ! a) = num_components sc regs (vs ! b) \<and>
        (\<exists>d < length regs0. vs ! b = Reg d))"

definition places_ok :: "(nat \<Rightarrow> nat) \<Rightarrow> nir_src list \<Rightarrow> (nat \<Rightarrow> nat option) \<Rightarrow> (nat \<Rightarrow> nat option) \<Rightarrow> nat list \<Rightarrow> bool" where
  "places_ok sc vs L P regs \<longleftrightarrow>
     (\<forall>b a. P b = Some a \<longrightarrow> (\<exists>l < length vs. L a = Some l \<and> (l = a \<or> P l = None) \<and>
        num_components sc regs (vs ! l) = num_components sc regs (vs ! a))) \<and>
     (\<forall>b a. P b = Some a \<and> L b = Some b \<longrightarrow> (\<exists>c. P c = Some b))"

definition ready_ok :: "(nat \<Rightarrow> nat option) \<Rightarrow> (nat \<Rightarrow> nat option) \<Rightarrow> nat list \<Rightarrow> bool" where
  "ready_ok L P rdy \<longleftrightarrow>
     distinct rdy \<and> (\<forall>b \<in> set rdy. P b \<noteq> None \<and> L b \<noteq> Some b) \<and> (\<forall>b \<in> set (tl rdy). L b = None) \<and>
     (\<forall>b. P b \<noteq> None \<and> L b \<noteq> Some b \<longrightarrow> b \<in> set rdy)"

definition counts_ok :: "nat list \<Rightarrow> (nat \<Rightarrow> nat option) \<Rightarrow> nat \<Rightarrow> nir_src list \<Rightarrow> (nat \<Rightarrow> nat option) \<Rightarrow> (nat \<Rightarrow> nat option) \<Rightarrow> nat list \<Rightarrow> nir_mov list \<Rightarrow> bool" where
  "counts_ok regs0 p0 N vs L P regs movs \<longleftrightarrow>
     length vs + card {b. P b \<noteq> None \<and> L b = Some b} \<le> N \<and>
     length movs + card (dom P) = card (dom p0) + (length regs - length regs0)"

definition memory_inv :: "(nat \<Rightarrow> nat) \<Rightarrow> nat list \<Rightarrow> (nat \<Rightarrow> nat option) \<Rightarrow> nir_src list \<Rightarrow> (nat \<Rightarrow> nat option) \<Rightarrow>
    (nat \<Rightarrow> nat option) \<Rightarrow> nat list \<Rightarrow> nir_mov list \<Rightarrow> (nir_src \<Rightarrow> 'v list) \<Rightarrow> bool" where
  "memory_inv sc regs0 p0 vs L P regs movs m0 \<longleftrightarrow> (memory_ok sc regs m0 \<longrightarrow>
     (let m = exec_movs movs m0 in
        memory_ok sc regs m \<and>
        (\<forall>b a l. P b = Some a \<and> L a = Some l \<longrightarrow> m (vs ! l) = m0 (vs ! a)) \<and>
        (\<forall>b a. p0 b = Some a \<and> P b = None \<longrightarrow> m (vs ! b) = m0 (vs ! a)) \<and>
        (\<forall>v. (\<forall>b a. p0 b = Some a \<longrightarrow> v \<noteq> vs ! b) \<and> (\<forall>r. v = Reg r \<longrightarrow> r < length regs0) \<longrightarrow> m v = m0 v) \<and>
        (\<forall>r \<ge> length regs. m (Reg r) = m0 (Reg r))))"

definition movs_ok :: "(nat \<Rightarrow> nat) \<Rightarrow> nat list \<Rightarrow> nir_mov list \<Rightarrow> bool" where
  "movs_ok sc regs movs \<longleftrightarrow> (\<forall>mv \<in> set movs. known regs (mv_src mv) \<and> mv_dest mv < length regs \<and>
     regs ! mv_dest mv \<le> num_components sc regs (mv_src mv))"

definition copy_inv :: "(nat \<Rightarrow> nat) \<Rightarrow> nat list \<Rightarrow> (nat \<Rightarrow> nat option) \<Rightarrow> nat \<Rightarrow> nir_src list \<Rightarrow> (nat \<Rightarrow> nat option) \<Rightarrow>
    (nat \<Rightarrow> nat option) \<Rightarrow> nat list \<Rightarrow> nat list \<Rightarrow> nir_mov list \<Rightarrow> (nir_src \<Rightarrow> 'v list) \<Rightarrow> bool" where
  "copy_inv sc regs0 p0 N vs L P rdy regs movs m0 \<longleftrightarrow>
     setup_ok sc regs0 p0 N vs regs \<and> P \<subseteq>\<^sub>m p0 \<and> places_ok sc vs L P regs \<and> ready_ok L P rdy \<and>
     counts_ok regs0 p0 N vs L P regs movs \<and> movs_ok sc regs movs \<and>
     memory_inv sc regs0 p0 vs L P regs movs m0"

lemma ready_okD:
  assumes "ready_ok L P rdy"
  shows "distinct rdy" "b \<in> set rdy \<Longrightarrow> P b \<noteq> None" "b \<in> set rdy \<Longrightarrow> L b \<noteq> Some b"
    "b \<in> set (tl rdy) \<Longrightarrow> L b = None" "P b \<noteq> None \<Longrightarrow> L b \<noteq> Some b \<Longrightarrow> b \<in> set rdy"
  using assms unfolding ready_ok_def by blast+

lemma places_ok_loc:
  assumes "places_ok sc vs L P regs" "P c = Some x"
  obtains k where "L x = Some k" "k < length vs" "k = x \<or> P k = None"
    "num_components sc regs (vs ! k) = num_components sc regs (vs ! x)"
  using assms unfolding places_ok_def by blast

section \<open>One copy\<close>

lemma ready_ok_step:
  assumes "ready_ok L P (b # rest)" "L a \<noteq> None" "a \<noteq> b"
  shows "ready_ok (L(a := Some b)) (P(b := None)) (if P a \<noteq> None then a # rest else rest)"
proof -
  note rd = ready_okD [OF assms(1)]
  have d: "b \<notin> set rest" "distinct rest" using rd(1) by simp_all
  have r: "P x \<noteq> None \<and> L x = None" if "x \<in> set rest" for x
    using rd(2) [of x] rd(4) [of x] that by auto
  have c: "x = b \<or> x \<in> set rest" if "P x \<noteq> None" "L x \<noteq> Some x" for x
    using rd(5) [OF that] by simp
  have a: "a \<notin> set rest" using r [of a] assms(2) by auto
  let ?L = "L(a := Some b)" and ?P = "P(b := None)"
  have old: "?P x \<noteq> None \<and> ?L x \<noteq> Some x \<and> L x = None" if "x \<in> set rest" for x
    using that r [OF that] d a by auto
  have tl: "x \<in> set rest" if "x \<in> set (tl rest)" for x using that by (cases rest) auto
  have new: "x = a \<or> x \<in> set rest" if "?P x \<noteq> None" "?L x \<noteq> Some x" for x
    using that c [of x] by (auto split: if_splits)
  show ?thesis
  proof (cases "P a")
    case None
    then have "x \<in> set rest" if "?P x \<noteq> None" "?L x \<noteq> Some x" for x
      using new [OF that] that(1) None by (auto split: if_splits)
    moreover have "?L x = None" if "x \<in> set (tl rest)" for x
      using old [OF tl [OF that]] a tl [OF that] by auto
    ultimately show ?thesis using None d(2) old unfolding ready_ok_def by (simp del: fun_upd_apply)
  next
    case (Some y)
    then have "?P a \<noteq> None \<and> ?L a \<noteq> Some a" using assms(3) by simp
    moreover have "?L x = None" if "x \<in> set rest" for x using old [OF that] a that by auto
    ultimately show ?thesis using Some d(2) a old new unfolding ready_ok_def by auto
  qed
qed

lemma places_ok_step:
  assumes "places_ok sc vs L P regs" "ready_ok L P (b # rest)" "P b = Some a" "a \<noteq> b"
    "b < length vs" "num_components sc regs (vs ! b) = num_components sc regs (vs ! a)"
  shows "places_ok sc vs (L(a := Some b)) (P(b := None)) regs"
proof -
  have "\<exists>l < length vs. (L(a := Some b)) x = Some l \<and> (l = x \<or> (P(b := None)) l = None) \<and>
      num_components sc regs (vs ! l) = num_components sc regs (vs ! x)"
    if "(P(b := None)) c = Some x" for c x
  proof (cases "x = a")
    case True
    then show ?thesis using assms(5,6) by auto
  next
    case False
    have "P c = Some x" using that by (auto split: if_splits)
    then show ?thesis using assms(1) False unfolding places_ok_def by fastforce
  qed
  moreover have "\<exists>c. (P(b := None)) c = Some x" if "(P(b := None)) x = Some y" "(L(a := Some b)) x = Some x" for x y
  proof -
    have x: "x \<noteq> b" "x \<noteq> a" "P x = Some y" "L x = Some x" using that assms(4) by (auto split: if_splits)
    then obtain c where "P c = Some x" using assms(1) unfolding places_ok_def by blast
    moreover have "c \<noteq> b" using \<open>P c = Some x\<close> assms(3) x(2) by auto
    ultimately show ?thesis by (intro exI [of _ c]) simp
  qed
  ultimately show ?thesis unfolding places_ok_def by blast
qed

lemma counts_ok_step:
  assumes "counts_ok regs0 p0 N vs L P regs movs" "P b = Some a" "finite (dom P)" "a \<noteq> b"
  shows "counts_ok regs0 p0 N vs (L(a := Some b)) (P(b := None)) regs (movs @ [mv])"
proof -
  have "{x. (P(b := None)) x \<noteq> None \<and> (L(a := Some b)) x = Some x} \<subseteq> {x. P x \<noteq> None \<and> L x = Some x}"
    using assms(4) by (auto split: if_splits)
  moreover have "finite {x. P x \<noteq> None \<and> L x = Some x}"
    by (rule finite_subset [OF _ assms(3)]) auto
  ultimately have "card {x. (P(b := None)) x \<noteq> None \<and> (L(a := Some b)) x = Some x} \<le> card {x. P x \<noteq> None \<and> L x = Some x}"
    by (intro card_mono)
  moreover have "card (dom P) = Suc (card (dom (P(b := None))))"
    using assms(2,3) card_Suc_Diff1 [of "dom P" b] by (simp add: domI)
  ultimately show ?thesis using assms(1) by (simp add: counts_ok_def)
qed

lemma memory_inv_step:
  assumes "memory_inv sc regs0 p0 vs L P regs movs m0" "places_ok sc vs L P regs"
    "setup_ok sc regs0 p0 N vs regs" "P \<subseteq>\<^sub>m p0" "L b \<noteq> Some b" "P b = Some a" "L a = Some l" "l < length vs"
    "vs ! b = Reg d" "num_components sc regs (vs ! l) = num_components sc regs (vs ! a)"
  shows "memory_inv sc regs0 p0 vs (L(a := Some b)) (P(b := None)) regs
    (movs @ [emit_copy regs (vs ! l) d]) m0"
proof (unfold memory_inv_def, intro impI)
  assume ok: "memory_ok sc regs m0"
  let ?m = "exec_movs movs m0"
  have p0b: "p0 b = Some a" using assms(4,6) by (metis domI map_le_def)
  then have ab: "a \<noteq> b" "b < length vs" "num_components sc regs (vs ! a) = num_components sc regs (vs ! b)"
    "known regs (vs ! b)" and dist: "distinct vs" and kn: "known regs (vs ! l)"
    using assms(3,8) nth_mem unfolding setup_ok_def by blast+
  have m: "memory_ok sc regs ?m" "\<And>c x k. P c = Some x \<Longrightarrow> L x = Some k \<Longrightarrow> ?m (vs ! k) = m0 (vs ! x)"
    "\<And>c x. p0 c = Some x \<Longrightarrow> P c = None \<Longrightarrow> ?m (vs ! c) = m0 (vs ! x)"
    "\<And>v. (\<And>b a. p0 b = Some a \<Longrightarrow> v \<noteq> vs ! b) \<Longrightarrow> (\<And>r. v = Reg r \<Longrightarrow> r < length regs0) \<Longrightarrow> ?m v = m0 v"
    "\<And>r. length regs \<le> r \<Longrightarrow> ?m (Reg r) = m0 (Reg r)"
    using assms(1) ok unfolding memory_inv_def Let_def by blast+
  have d: "d < length regs" "num_components sc regs (vs ! l) = regs ! d"
    using ab assms(9,10) by (simp_all add: num_components_def)
  note copy = exec_emit_copy [OF m(1) kn d] exec_emit_copy_ok [OF m(1) kn d]
  have same: "vs ! k = Reg d \<longleftrightarrow> k = b" if "k < length vs" for k
    using nth_eq_iff_index_eq [OF dist that ab(2)] assms(9) by simp
  have "(?m(Reg d := ?m (vs ! l))) (vs ! k) = m0 (vs ! x)"
    if "(P(b := None)) c = Some x" "(L(a := Some b)) x = Some k" for c x k
  proof (cases "x = a")
    case True
    then show ?thesis using that m(2) [OF assms(6,7)] same [OF ab(2)] by simp
  next
    case False
    have c: "P c = Some x" "L x = Some k" using that False by (auto split: if_splits)
    have "k < length vs \<and> (k = x \<or> P k = None)"
      by (rule places_ok_loc [OF assms(2) c(1)]) (use c(2) in auto)
    moreover from this have "k \<noteq> b" using c(2) assms(5,6) by auto
    ultimately show ?thesis using m(2) [OF c] same by simp
  qed
  moreover have "(?m(Reg d := ?m (vs ! l))) (vs ! c) = m0 (vs ! x)"
    if "p0 c = Some x" "(P(b := None)) c = None" for c x
  proof (cases "c = b")
    case True
    then show ?thesis using that(1) p0b m(2) [OF assms(6,7)] same [OF ab(2)] by simp
  next
    case False
    then have "c < length vs" using that(1) assms(3) unfolding setup_ok_def by blast
    then show ?thesis using False that m(3) same by simp
  qed
  moreover have "v \<noteq> Reg d" if "\<forall>b a. p0 b = Some a \<longrightarrow> v \<noteq> vs ! b" for v
    using that p0b assms(9) by auto
  ultimately show "let m = exec_movs (movs @ [emit_copy regs (vs ! l) d]) m0 in
    memory_ok sc regs m \<and>
    (\<forall>b' a' l'. (P(b := None)) b' = Some a' \<and> (L(a := Some b)) a' = Some l' \<longrightarrow> m (vs ! l') = m0 (vs ! a')) \<and>
    (\<forall>b' a'. p0 b' = Some a' \<and> (P(b := None)) b' = None \<longrightarrow> m (vs ! b') = m0 (vs ! a')) \<and>
    (\<forall>v. (\<forall>b a. p0 b = Some a \<longrightarrow> v \<noteq> vs ! b) \<and> (\<forall>r. v = Reg r \<longrightarrow> r < length regs0) \<longrightarrow> m v = m0 v) \<and>
    (\<forall>r \<ge> length regs. m (Reg r) = m0 (Reg r))"
    using copy m(4,5) d(1) unfolding exec_movs_append Let_def copy(1) by (intro conjI allI impI) (blast | simp)+
qed

lemma copy_inv_step:
  assumes "copy_inv sc regs0 p0 N vs L P (b # rest) regs movs m0"
  obtains a l d where "P b = Some a" "L a = Some l" "vs ! b = Reg d" "a < length vs" "b < length vs" "l < length vs" "a \<noteq> b"
    "copy_inv sc regs0 p0 N vs (L(a := Some b)) (P(b := None)) (if P a \<noteq> None then a # rest else rest)
       regs (movs @ [emit_copy regs (vs ! l) d]) m0"
proof -
  have inv: "setup_ok sc regs0 p0 N vs regs" "P \<subseteq>\<^sub>m p0" "places_ok sc vs L P regs" "ready_ok L P (b # rest)"
    "counts_ok regs0 p0 N vs L P regs movs" "movs_ok sc regs movs"
    "memory_inv sc regs0 p0 vs L P regs movs m0"
    using assms unfolding copy_inv_def by blast+
  obtain a where a: "P b = Some a" using ready_okD(2) [OF inv(4), of b] by auto
  have Lb: "L b \<noteq> Some b" using ready_okD(3) [OF inv(4), of b] by simp
  obtain l where l: "L a = Some l" "l < length vs"
      "num_components sc regs (vs ! l) = num_components sc regs (vs ! a)"
    by (rule places_ok_loc [OF inv(3) a])
  have "p0 b = Some a" using inv(2) a by (metis domI map_le_def)
  then have ab: "a \<noteq> b" "a < length vs" "b < length vs" "num_components sc regs (vs ! a) = num_components sc regs (vs ! b)"
    and "\<exists>d < length regs0. vs ! b = Reg d"
    using inv(1) unfolding setup_ok_def by blast+
  then obtain d where d: "d < length regs0" "vs ! b = Reg d" by blast
  have reg: "d < length regs" "known regs (vs ! l)" "finite (dom p0)"
    using inv(1) d(1) l(2) nth_mem unfolding setup_ok_def by auto
  have "finite (dom P)" using map_le_implies_dom_le [OF inv(2)] reg(3) by (rule finite_subset)
  note step = places_ok_step [OF inv(3,4) a ab(1,3) ab(4) [symmetric]] ready_ok_step [OF inv(4) _ ab(1)]
    counts_ok_step [OF inv(5) a this ab(1)] memory_inv_step [OF inv(7,3,1,2) Lb a l(1,2) d(2) l(3)]
  have "P(b := None) \<subseteq>\<^sub>m p0" using inv(2) by (auto simp: map_le_def dom_def)
  moreover have "movs_ok sc regs (movs @ [emit_copy regs (vs ! l) d])"
    using inv(6) reg l(3) ab(4) d(2) by (simp add: movs_ok_def emit_copy_def num_components_def)
  ultimately show thesis
    using that [OF a l(1) d(2) ab(2,3) l(2) ab(1)] inv(1) step l(1) unfolding copy_inv_def by simp
qed

section \<open>Breaking a cycle\<close>

lemma break_shape:
  assumes "setup_ok sc regs0 p0 N vs regs" "length vs < N"
  shows "setup_ok sc regs0 p0 N (vs @ [Reg (length regs)]) (regs @ [x])"
proof -
  have inv: "distinct vs" "\<And>v. v \<in> set vs \<Longrightarrow> known regs v" "\<exists>ts. regs = regs0 @ ts" "finite (dom p0)"
    "\<And>b a. p0 b = Some a \<Longrightarrow> a \<noteq> b \<and> a < length vs \<and> b < length vs \<and>
        num_components sc regs (vs ! a) = num_components sc regs (vs ! b) \<and> (\<exists>d < length regs0. vs ! b = Reg d)"
    using assms(1) unfolding setup_ok_def by blast+
  have "Reg (length regs) \<notin> set vs" using inv(2) by force
  then have "distinct (vs @ [Reg (length regs)])" using inv(1) by simp
  moreover have "\<forall>v \<in> set (vs @ [Reg (length regs)]). known (regs @ [x]) v"
    using inv(2) known_append by auto
  moreover have "num_components sc (regs @ [x]) (vs ! i) = num_components sc regs (vs ! i)" if "i < length vs" for i
    using that inv(2) by (intro components_append) simp
  then have "a \<noteq> b \<and> a < length (vs @ [Reg (length regs)]) \<and> b < length (vs @ [Reg (length regs)]) \<and>
      num_components sc (regs @ [x]) ((vs @ [Reg (length regs)]) ! a) =
        num_components sc (regs @ [x]) ((vs @ [Reg (length regs)]) ! b) \<and>
      (\<exists>d < length regs0. (vs @ [Reg (length regs)]) ! b = Reg d)" if "p0 b = Some a" for b a
    using inv(5) [OF that] by (simp add: nth_append)
  ultimately show ?thesis using inv(3,4) assms(2) unfolding setup_ok_def by (intro conjI allI impI) auto
qed

lemma break_counts:
  assumes "counts_ok regs0 p0 N vs L P regs movs" "finite (dom P)" "P b \<noteq> None" "L b = Some b"
    "b < length vs" "length regs0 \<le> length regs"
  shows "length vs < N"
    "counts_ok regs0 p0 N (vs @ [v]) (L(b := Some (length vs))) P (regs @ [x]) (movs @ [mv])"
proof -
  define A where "A = {x. P x \<noteq> None \<and> L x = Some x}"
  have B: "{x. P x \<noteq> None \<and> (L(b := Some (length vs))) x = Some x} = A - {b}"
    using assms(5) by (auto simp: A_def)
  have "finite A" unfolding A_def by (rule finite_subset [OF _ assms(2)]) auto
  moreover have "b \<in> A" using assms(3,4) by (simp add: A_def)
  ultimately have "card A = Suc (card (A - {b}))" by (rule card_Suc_Diff1 [symmetric])
  then show "length vs < N"
    "counts_ok regs0 p0 N (vs @ [v]) (L(b := Some (length vs))) P (regs @ [x]) (movs @ [mv])"
    using assms(1,6) unfolding counts_ok_def B A_def [symmetric] by simp_all
qed

lemma copy_inv_break:
  assumes "copy_inv sc regs0 p0 N vs L P [] regs movs m0" "P b = Some a"
  shows "length vs < N \<and> b < length vs \<and> L b = Some b \<and>
    (let regs' = regs @ [num_components sc regs (vs ! b)]
     in copy_inv sc regs0 p0 N (vs @ [Reg (length regs)]) (L(b := Some (length vs))) P [b] regs'
          (movs @ [emit_copy regs' (vs ! b) (length regs)]) m0)"
proof -
  have inv: "setup_ok sc regs0 p0 N vs regs" "P \<subseteq>\<^sub>m p0" "places_ok sc vs L P regs" "ready_ok L P []"
    "counts_ok regs0 p0 N vs L P regs movs" "movs_ok sc regs movs"
    "memory_inv sc regs0 p0 vs L P regs movs m0"
    using assms(1) unfolding copy_inv_def by blast+
  have still: "L x = Some x" if "P x = Some y" for x y
    using ready_okD(5) [OF inv(4), of x] that by auto
  have Lb: "L b = Some b" using still [OF assms(2)] .
  have "p0 b = Some a" using inv(2) assms(2) by (metis domI map_le_def)
  then have b: "b < length vs" and fin: "finite (dom p0)" and pre: "\<exists>ts. regs = regs0 @ ts"
    and kn: "\<And>v. v \<in> set vs \<Longrightarrow> known regs v" and dist: "distinct vs"
    using inv(1) unfolding setup_ok_def by blast+
  have finP: "finite (dom P)" using map_le_implies_dom_le [OF inv(2)] fin by (rule finite_subset)
  obtain c where c: "P c = Some b" using inv(3) assms(2) Lb unfolding places_ok_def by blast
  let ?x = "num_components sc regs (vs ! b)"
  let ?regs = "regs @ [?x]" and ?vs = "vs @ [Reg (length regs)]" and ?L = "L(b := Some (length vs))"
  have n: "length vs < N"
    "counts_ok regs0 p0 N ?vs ?L P ?regs (movs @ [emit_copy ?regs (vs ! b) (length regs)])"
    using break_counts [OF inv(5) finP _ Lb b] assms(2) pre by auto
  have old: "?vs ! i = vs ! i" "num_components sc ?regs (vs ! i) = num_components sc regs (vs ! i)"
    "known regs (vs ! i)" "vs ! i \<noteq> Reg (length regs)" if "i < length vs" for i
  proof -
    show "known regs (vs ! i)" using that kn by simp
    then show "vs ! i \<noteq> Reg (length regs)" "num_components sc ?regs (vs ! i) = num_components sc regs (vs ! i)"
      by (auto simp: components_append)
    show "?vs ! i = vs ! i" using that by (simp add: nth_append)
  qed
  have new: "?vs ! length vs = Reg (length regs)" by simp
  have Pl: "P (length vs) = None"
  proof (rule ccontr)
    assume "P (length vs) \<noteq> None"
    then obtain y where "p0 (length vs) = Some y" using inv(2) by (metis domI map_le_def option.exhaust)
    then show False using inv(1) unfolding setup_ok_def by blast
  qed
  have src: "a' < length vs" if "P c' = Some a'" for c' a'
    using that inv(1,2) unfolding setup_ok_def by (metis domI map_le_def)
  have places: "places_ok sc ?vs ?L P ?regs"
  proof -
    have "\<exists>l < length ?vs. ?L x = Some l \<and> (l = x \<or> P l = None) \<and>
        num_components sc ?regs (?vs ! l) = num_components sc ?regs (?vs ! x)" if P: "P c' = Some x" for c' x
    proof (cases "x = b")
      case True
      then show ?thesis using Pl old(1,2) [OF b] by (auto simp: num_components_def)
    next
      case False
      obtain k where k: "L x = Some k" "k < length vs" "k = x \<or> P k = None"
          "num_components sc regs (vs ! k) = num_components sc regs (vs ! x)"
        by (rule places_ok_loc [OF inv(3) P])
      then show ?thesis using False old(1,2) [OF k(2)] old(1,2) [OF src [OF P]] by auto
    qed
    moreover have "\<exists>c. P c = Some x" if "P x = Some y" "?L x = Some x" for x y
      using that inv(3) b unfolding places_ok_def by (auto split: if_splits)
    ultimately show ?thesis unfolding places_ok_def by blast
  qed
  have ready: "ready_ok ?L P [b]"
  proof -
    have "\<forall>x. P x \<noteq> None \<and> ?L x \<noteq> Some x \<longrightarrow> x \<in> set [b]"
    proof (intro allI impI)
      fix x assume "P x \<noteq> None \<and> ?L x \<noteq> Some x"
      then show "x \<in> set [b]" using still [of x] by (cases "x = b") auto
    qed
    moreover have "P b \<noteq> None \<and> ?L b \<noteq> Some b" using b assms(2) by simp
    ultimately show ?thesis unfolding ready_ok_def by (intro conjI) (simp_all del: fun_upd_apply not_None_eq)
  qed
  have movs: "movs_ok sc ?regs (movs @ [emit_copy ?regs (vs ! b) (length regs)])"
    using inv(6) old(2,3) [OF b]
    by (auto simp: movs_ok_def emit_copy_def known_append components_append nth_append)
  have mem: "memory_inv sc regs0 p0 ?vs ?L P ?regs (movs @ [emit_copy ?regs (vs ! b) (length regs)]) m0"
  proof (unfold memory_inv_def, intro impI)
    assume ok: "memory_ok sc ?regs m0"
    let ?m = "exec_movs movs m0" and ?t = "length regs"
    have "memory_ok sc regs m0" using ok unfolding memory_ok_def by (metis length_append_singleton less_SucI nth_append)
    then have m: "memory_ok sc regs ?m" "\<And>c x k. P c = Some x \<Longrightarrow> L x = Some k \<Longrightarrow> ?m (vs ! k) = m0 (vs ! x)"
      "\<And>c x. p0 c = Some x \<Longrightarrow> P c = None \<Longrightarrow> ?m (vs ! c) = m0 (vs ! x)"
      "\<And>v. (\<And>b a. p0 b = Some a \<Longrightarrow> v \<noteq> vs ! b) \<Longrightarrow> (\<And>r. v = Reg r \<Longrightarrow> r < length regs0) \<Longrightarrow> ?m v = m0 v"
      "\<And>r. length regs \<le> r \<Longrightarrow> ?m (Reg r) = m0 (Reg r)"
      using inv(7) unfolding memory_inv_def Let_def by blast+
    have okm: "memory_ok sc ?regs ?m"
      using m(1) m(5) [of ?t] ok unfolding memory_ok_def by (auto simp: nth_append less_Suc_eq)
    have "known ?regs (vs ! b)" "?t < length ?regs" "num_components sc ?regs (vs ! b) = ?regs ! ?t"
      using old(2,3) [OF b] by (simp_all add: known_append)
    note copy = exec_emit_copy [OF okm this] exec_emit_copy_ok [OF okm this]
    let ?m' = "?m(Reg ?t := ?m (vs ! b))"
    have p0i: "c < length vs \<and> x < length vs" if "p0 c = Some x" for c x
      using that inv(1) unfolding setup_ok_def by blast
    have same: "?m' (?vs ! i) = ?m (vs ! i)" if "i < length vs" for i
      using old(1,4) [OF that] by simp
    have "?m' (?vs ! k) = m0 (?vs ! x)" if P: "P c' = Some x" and k: "?L x = Some k" for c' x k
    proof (cases "x = b")
      case True
      then show ?thesis using k new m(2) [OF c Lb] old(1) [OF b] by simp
    next
      case False
      then have "L x = Some k" using k by simp
      moreover have "k < length vs" by (rule places_ok_loc [OF inv(3) P]) (use calculation in auto)
      ultimately show ?thesis using same m(2) [OF P] old(1) [OF src [OF P]] by simp
    qed
    moreover have "?m' (?vs ! c') = m0 (?vs ! x)" if "p0 c' = Some x" "P c' = None" for c' x
      using same m(3) [OF that] p0i [OF that(1)] old(1) by simp
    moreover have "?m' v = m0 v"
      if "\<forall>b a. p0 b = Some a \<longrightarrow> v \<noteq> ?vs ! b" "\<forall>r. v = Reg r \<longrightarrow> r < length regs0" for v
    proof -
      have "v \<noteq> vs ! c'" if "p0 c' = Some x" for c' x
        using that \<open>\<forall>b a. _ b a\<close> p0i [OF that] old(1) by metis
      moreover have "v \<noteq> Reg ?t" using that(2) pre by auto
      ultimately show ?thesis using m(4) that(2) by simp
    qed
    moreover have "?m' (Reg r) = m0 (Reg r)" if "length ?regs \<le> r" for r
      using that m(5) by simp
    ultimately show "let m = exec_movs (movs @ [emit_copy ?regs (vs ! b) ?t]) m0 in
      memory_ok sc ?regs m \<and>
      (\<forall>b' a' l'. P b' = Some a' \<and> ?L a' = Some l' \<longrightarrow> m (?vs ! l') = m0 (?vs ! a')) \<and>
      (\<forall>b' a'. p0 b' = Some a' \<and> P b' = None \<longrightarrow> m (?vs ! b') = m0 (?vs ! a')) \<and>
      (\<forall>v. (\<forall>b a. p0 b = Some a \<longrightarrow> v \<noteq> ?vs ! b) \<and> (\<forall>r. v = Reg r \<longrightarrow> r < length regs0) \<longrightarrow> m v = m0 v) \<and>
      (\<forall>r \<ge> length ?regs. m (Reg r) = m0 (Reg r))"
      using copy unfolding exec_movs_append Let_def copy(1) by (intro conjI allI impI) blast+
  qed
  show ?thesis using n b Lb break_shape [OF inv(1) n(1)] places ready movs mem inv(2)
    unfolding copy_inv_def Let_def by blast
qed

section \<open>The loops\<close>

definition arr :: "'a option list \<Rightarrow> nat \<Rightarrow> 'a option" where
  "arr xs i = (if i < length xs then xs ! i else None)"

lemma arr_update: "i < length xs \<Longrightarrow> arr (xs[i := v]) = (arr xs)(i := v)"
  by (auto simp: arr_def)

lemma arr_Some: "arr xs i = Some x \<longleftrightarrow> i < length xs \<and> xs ! i = Some x"
  by (simp add: arr_def)

definition state_inv :: "(nat \<Rightarrow> nat) \<Rightarrow> nat list \<Rightarrow> (nat \<Rightarrow> nat option) \<Rightarrow> nat \<Rightarrow> copy_state \<Rightarrow> (nir_src \<Rightarrow> 'v list) \<Rightarrow> bool" where
  "state_inv sc regs0 p0 N st m0 \<longleftrightarrow>
     copy_inv sc regs0 p0 N (c_values st) (arr (c_loc st)) (arr (c_pred st)) (c_ready st) (c_regs st) (c_movs st) m0 \<and>
     length (c_loc st) = N \<and> length (c_pred st) = N \<and> length (c_ready st) \<le> N"

text \<open>The pending destinations whose value is still where it was.\<close>

definition unmoved :: "copy_state \<Rightarrow> nat set" where
  "unmoved st = {b. arr (c_pred st) b \<noteq> None \<and> arr (c_loc st) b = Some b}"

lemma copy_ready_step:
  assumes "state_inv sc regs0 p0 N st m0" "c_ready st = b # rest"
  shows "\<exists>st'. copy_ready b (st\<lparr>c_ready := rest\<rparr>) = Some st' \<and> state_inv sc regs0 p0 N st' m0 \<and>
    unmoved st' \<subseteq> unmoved st"
proof -
  have inv: "copy_inv sc regs0 p0 N (c_values st) (arr (c_loc st)) (arr (c_pred st)) (b # rest) (c_regs st) (c_movs st) m0"
    "length (c_loc st) = N" "length (c_pred st) = N" "length rest < N"
    using assms by (simp_all add: state_inv_def)
  obtain a l d where s: "arr (c_pred st) b = Some a" "arr (c_loc st) a = Some l" "c_values st ! b = Reg d"
    "copy_inv sc regs0 p0 N (c_values st) ((arr (c_loc st))(a := Some b)) ((arr (c_pred st))(b := None))
       (if arr (c_pred st) a \<noteq> None then a # rest else rest) (c_regs st)
       (c_movs st @ [emit_copy (c_regs st) (c_values st ! l) d]) m0"
    and ab: "a \<noteq> b"
    by (rule copy_inv_step [OF inv(1)])
  have b: "b < length (c_pred st)" "c_pred st ! b = Some a" and a: "a < length (c_loc st)" "c_loc st ! a = Some l"
    using s(1,2) by (simp_all add: arr_Some)
  let ?st = "st\<lparr>c_ready := if arr (c_pred st) a \<noteq> None then a # rest else rest,
    c_movs := c_movs st @ [emit_copy (c_regs st) (c_values st ! l) d],
    c_loc := (c_loc st)[a := Some b], c_pred := (c_pred st)[b := None]\<rparr>"
  have "copy_ready b (st\<lparr>c_ready := rest\<rparr>) = Some ?st"
    using a b ab s(3) inv(2-4) by (auto simp: copy_ready_def push_ready_def Let_def arr_def)
  moreover have "state_inv sc regs0 p0 N ?st m0"
    using s(4) inv(2-4) by (auto simp: state_inv_def arr_update [OF a(1)] arr_update [OF b(1)] split: if_splits)
  moreover have "unmoved ?st \<subseteq> unmoved st"
    using ab by (auto simp: unmoved_def arr_update [OF a(1)] arr_update [OF b(1)] split: if_splits)
  ultimately show ?thesis by blast
qed

lemma drain_ready_ok:
  assumes "state_inv sc regs0 p0 N st m0"
  shows "\<exists>st'. drain_ready st = Some st' \<and> state_inv sc regs0 p0 N st' m0 \<and> c_ready st' = [] \<and>
    unmoved st' \<subseteq> unmoved st"
  using assms
proof (induction st rule: drain_ready.induct)
  case (1 st)
  show ?case
  proof (cases "c_ready st")
    case Nil
    then show ?thesis using 1(2) by (intro exI [of _ st]) (simp add: drain_ready.simps [of st])
  next
    case (Cons b rest)
    obtain st1 where c: "copy_ready b (st\<lparr>c_ready := rest\<rparr>) = Some st1" and i: "state_inv sc regs0 p0 N st1 m0"
      and u: "unmoved st1 \<subseteq> unmoved st"
      using copy_ready_step [OF 1(2) Cons] by blast
    from 1(1) [OF Cons c i] show ?thesis using u Cons c
      by (auto simp: drain_ready.simps [of st])
  qed
qed

lemma drained:
  assumes "state_inv sc regs0 p0 N st m0" "c_ready st = []" "arr (c_pred st) b = Some a"
  shows "b \<in> unmoved st" "\<exists>c \<in> unmoved st. arr (c_pred st) c = Some b" "a \<noteq> b"
proof -
  have inv: "setup_ok sc regs0 p0 N (c_values st) (c_regs st)" "arr (c_pred st) \<subseteq>\<^sub>m p0"
    "places_ok sc (c_values st) (arr (c_loc st)) (arr (c_pred st)) (c_regs st)"
    "ready_ok (arr (c_loc st)) (arr (c_pred st)) []"
    using assms(1,2) unfolding state_inv_def copy_inv_def by simp_all
  have u: "x \<in> unmoved st" if "arr (c_pred st) x = Some y" for x y
    using ready_okD(5) [OF inv(4), of x] that by (auto simp: unmoved_def)
  then show "b \<in> unmoved st" using assms(3) .
  then obtain c where "arr (c_pred st) c = Some b"
    using inv(3) assms(3) unfolding places_ok_def unmoved_def by blast
  then show "\<exists>c \<in> unmoved st. arr (c_pred st) c = Some b" using u by blast
  have "p0 b = Some a" using inv(2) assms(3) by (metis domI map_le_def)
  then show "a \<noteq> b" using inv(1) unfolding setup_ok_def by blast
qed

lemma break_cycle_step:
  assumes "state_inv sc regs0 p0 N st m0" "c_ready st = []" "arr (c_pred st) b = Some a"
  shows "\<exists>st'. break_cycle sc b st = Some st' \<and> state_inv sc regs0 p0 N st' m0 \<and> unmoved st' \<subseteq> unmoved st - {b}"
proof -
  have inv: "copy_inv sc regs0 p0 N (c_values st) (arr (c_loc st)) (arr (c_pred st)) [] (c_regs st) (c_movs st) m0"
    "length (c_loc st) = N" "length (c_pred st) = N"
    using assms(1,2) by (simp_all add: state_inv_def)
  let ?n = "length (c_values st)" and ?t = "length (c_regs st)"
  let ?regs = "c_regs st @ [num_components sc (c_regs st) (c_values st ! b)]"
  let ?st = "st\<lparr>c_regs := ?regs, c_values := c_values st @ [Reg ?t],
    c_movs := c_movs st @ [emit_copy ?regs (c_values st ! b) ?t],
    c_loc := (c_loc st)[b := Some ?n], c_ready := [b]\<rparr>"
  have br: "?n < N" "b < ?n" "arr (c_loc st) b = Some b"
    "copy_inv sc regs0 p0 N (c_values st @ [Reg ?t]) ((arr (c_loc st))(b := Some ?n)) (arr (c_pred st)) [b] ?regs
       (c_movs st @ [emit_copy ?regs (c_values st ! b) ?t]) m0"
    using copy_inv_break [OF inv(1) assms(3)] by (simp_all add: Let_def)
  have b: "b < length (c_loc st)" using br(3) by (simp add: arr_Some)
  have "break_cycle sc b st = Some ?st"
    using br(1) assms(2) inv(3) by (simp add: break_cycle_def push_ready_def Let_def)
  moreover have "state_inv sc regs0 p0 N ?st m0"
    using br(4) inv b by (simp add: state_inv_def arr_update)
  moreover have "unmoved ?st \<subseteq> unmoved st - {b}"
    using br(2) by (auto simp: unmoved_def arr_update b split: if_splits)
  ultimately show ?thesis by blast
qed

lemma copy_loop_ok:
  assumes "state_inv sc regs0 p0 N st m0" "unmoved st \<subseteq> set (b # to_do)" "\<forall>x \<in> set (b # to_do). x < N"
  shows "\<exists>st'. copy_loop sc (b # to_do) st = Some st' \<and> state_inv sc regs0 p0 N st' m0 \<and> (\<forall>x. arr (c_pred st') x = None)"
  using assms
proof (induction to_do arbitrary: b st)
  case Nil
  obtain st1 where d: "drain_ready st = Some st1" "state_inv sc regs0 p0 N st1 m0" "c_ready st1 = []"
      "unmoved st1 \<subseteq> {b}"
    using drain_ready_ok [OF Nil.prems(1)] Nil.prems(2) by auto
  have none: "arr (c_pred st1) x = None" for x
  proof (rule ccontr)
    assume "arr (c_pred st1) x \<noteq> None"
    then obtain a where x: "arr (c_pred st1) x = Some a" by auto
    obtain c where "c \<in> unmoved st1" "arr (c_pred st1) c = Some x"
      using drained(2) [OF d(2,3) x] by blast
    then show False using drained(1) [OF d(2,3) x] drained(3) [OF d(2,3), of c x] d(4) by auto
  qed
  have "b < length (c_pred st1)" using d(2) Nil.prems(3) by (simp add: state_inv_def)
  then have "c_pred st1 ! b = None" using none [of b] by (simp add: arr_def)
  then show ?case using d(1,2) none by simp
next
  case (Cons b' to_do)
  obtain st1 where d: "drain_ready st = Some st1" "state_inv sc regs0 p0 N st1 m0" "c_ready st1 = []"
      "unmoved st1 \<subseteq> set (b # b' # to_do)"
    using drain_ready_ok [OF Cons.prems(1)] Cons.prems(2) by auto
  have b: "b < length (c_pred st1)" using d(2) Cons.prems(3) by (simp add: state_inv_def)
  show ?case
  proof (cases "c_pred st1 ! b")
    case None
    then have "b \<notin> unmoved st1" using b by (simp add: unmoved_def arr_def)
    then have "unmoved st1 \<subseteq> set (b' # to_do)" using d(4) by auto
    then show ?thesis using Cons.IH [OF d(2)] Cons.prems(3) d(1) None by (simp del: copy_loop.simps(2) add: copy_loop.simps(2) [of _ b])
  next
    case (Some a)
    obtain st2 where k: "break_cycle sc b st1 = Some st2" "state_inv sc regs0 p0 N st2 m0"
        "unmoved st2 \<subseteq> unmoved st1 - {b}"
      using break_cycle_step [OF d(2,3), of b a] Some b by (auto simp: arr_def)
    then have "unmoved st2 \<subseteq> set (b' # to_do)" using d(4) by auto
    then show ?thesis using Cons.IH [OF k(2)] Cons.prems(3) d(1) Some k(1) by (simp del: copy_loop.simps(2) add: copy_loop.simps(2) [of _ b])
  qed
qed

section \<open>The setup\<close>

lemma value_index_ok:
  assumes "distinct vs" "value_index vs v = (i, vs')"
  shows "i < length vs' \<and> vs' ! i = v \<and> distinct vs' \<and> set vs' = insert v (set vs) \<and>
    (vs' = vs \<or> vs' = vs @ [v] \<and> i = length vs)"
proof (cases "List.find (\<lambda>i. vs ! i = v) (rev [0 ..< length vs])")
  case None
  then have "v \<notin> set vs" by (auto simp: find_None_iff in_set_conv_nth)
  then show ?thesis using None assms by (auto simp: value_index_def)
next
  case (Some j)
  then have "j < length vs" "vs ! j = v" by (auto simp: find_Some_iff rev_nth)
  then show ?thesis using Some assms by (auto simp: value_index_def)
qed

definition real_copies :: "nir_parallel_copy_entry list \<Rightarrow> nir_parallel_copy_entry list" where
  "real_copies es = filter (\<lambda>e. \<not> self_copy e) es"

definition entered :: "copy_state \<Rightarrow> nat \<Rightarrow> nat \<Rightarrow> nir_parallel_copy_entry \<Rightarrow> bool" where
  "entered st b a e \<longleftrightarrow> arr (c_pred st) b = Some a \<and> c_values st ! a = pc_src e \<and> c_values st ! b = Reg (pc_dest e)"

definition both :: "copy_state \<Rightarrow> nat set" where
  "both st = {i. arr (c_pred st) i \<noteq> None \<and> arr (c_loc st) i \<noteq> None}"

definition setup_inv :: "nat \<Rightarrow> nir_parallel_copy_entry list \<Rightarrow> copy_state \<Rightarrow> bool" where
  "setup_inv N es st \<longleftrightarrow>
     distinct (c_values st) \<and> length (c_pred st) = N \<and> length (c_loc st) = N \<and>
     set (c_values st) = pc_src ` set es \<union> Reg ` pc_dest ` set es \<and>
     length (c_values st) + card (both st) \<le> 2 * length es \<and>
     (\<forall>i j. arr (c_loc st) i = Some j \<longrightarrow> j = i \<and> (\<exists>b. arr (c_pred st) b = Some i)) \<and>
     (\<forall>b a. arr (c_pred st) b = Some a \<longrightarrow> b < length (c_values st) \<and> a < length (c_values st) \<and>
        arr (c_loc st) a = Some a \<and> (\<exists>e \<in> set es. entered st b a e)) \<and>
     (\<forall>e \<in> set es. \<exists>b a. entered st b a e) \<and>
     set (c_to_do st) = dom (arr (c_pred st)) \<and> card (dom (arr (c_pred st))) = length es"

lemma finite_arr: "finite {i. arr xs i \<noteq> None \<and> Q i}"
  by (rule finite_subset [of _ "{..< length xs}"]) (auto simp: arr_def split: if_splits)

lemma setup_entry_ok:
  assumes inv: "setup_inv N es st" and e: "\<not> self_copy e" "pc_dest e \<notin> pc_dest ` set es"
    and N: "2 * length es + 2 \<le> N"
  shows "setup_inv N (es @ [e]) (setup_entry e st)"
proof -
  let ?vs = "c_values st"
  obtain s vs1 where s: "value_index ?vs (pc_src e) = (s, vs1)" by force
  obtain d vs2 where d: "value_index vs1 (Reg (pc_dest e)) = (d, vs2)" by force
  have dist: "distinct ?vs" and len: "length (c_pred st) = N" "length (c_loc st) = N"
    and vals: "set ?vs = pc_src ` set es \<union> Reg ` pc_dest ` set es"
    and cnt: "length ?vs + card (both st) \<le> 2 * length es"
    and loc: "\<And>i j. arr (c_loc st) i = Some j \<Longrightarrow> j = i \<and> (\<exists>b. arr (c_pred st) b = Some i)"
    and pred: "\<And>b a. arr (c_pred st) b = Some a \<Longrightarrow> b < length ?vs \<and> a < length ?vs \<and>
        arr (c_loc st) a = Some a \<and> (\<exists>e \<in> set es. entered st b a e)"
    and ent: "\<And>e. e \<in> set es \<Longrightarrow> \<exists>b a. entered st b a e"
    and todo: "set (c_to_do st) = dom (arr (c_pred st))" "card (dom (arr (c_pred st))) = length es"
    using inv unfolding setup_inv_def by blast+
  note vs1 = value_index_ok [OF dist s]
  have vs2: "d < length vs2" "vs2 ! d = Reg (pc_dest e)" "distinct vs2" "set vs2 = insert (Reg (pc_dest e)) (set vs1)"
    "vs2 = vs1 \<or> vs2 = vs1 @ [Reg (pc_dest e)] \<and> d = length vs1"
    using value_index_ok [OF _ d] vs1 by blast+
  have ext: "i < length vs2 \<and> vs2 ! i = ?vs ! i" if "i < length ?vs" for i
    using that vs1 vs2(5) by (auto simp: nth_append)
  have s2: "s < length vs2" "vs2 ! s = pc_src e" using vs1 vs2(5) by (auto simp: nth_append)
  have sd: "s \<noteq> d" using s2 vs2(2) e(1) by (auto simp: self_copy_def)
  have bnd: "s < N" "d < N" using s2(1) vs2(1,5) vs1 cnt N by auto
  have fresh: "arr (c_pred st) d = None"
  proof (rule ccontr)
    assume "arr (c_pred st) d \<noteq> None"
    then obtain a where "arr (c_pred st) d = Some a" by auto
    from pred [OF this] obtain e' where "d < length ?vs" "e' \<in> set es" "?vs ! d = Reg (pc_dest e')"
      by (auto simp: entered_def)
    then show False using e(2) ext [of d] vs2(2) by auto
  qed
  let ?st = "setup_entry e st"
  have st: "c_values ?st = vs2" "arr (c_loc ?st) = (arr (c_loc st))(s := Some s)"
    "arr (c_pred ?st) = (arr (c_pred st))(d := Some s)" "c_to_do ?st = d # c_to_do st"
    "length (c_pred ?st) = N" "length (c_loc ?st) = N"
    using e(1) s d bnd len by (simp_all add: setup_entry_def Let_def arr_update)
  have keep: "entered ?st b a e'" if "entered st b a e'" for b a e'
    using that pred [of b a] fresh ext unfolding entered_def st by (auto split: if_splits)
  have new: "entered ?st d s e" using s2 vs2(2) sd by (simp add: entered_def st)
  have "length vs2 + card (both ?st) \<le> length ?vs + card (both st) + 2"
  proof -
    have lt: "i < length ?vs" if "arr (c_pred st) i \<noteq> None \<or> arr (c_loc st) i \<noteq> None" for i
      using that pred loc by (metis option.exhaust)
    have "both ?st \<subseteq> both st \<union> (if vs1 = ?vs then {s} else {}) \<union> (if vs2 = vs1 then {d} else {})"
    proof
      fix i assume i: "i \<in> both ?st"
      show "i \<in> both st \<union> (if vs1 = ?vs then {s} else {}) \<union> (if vs2 = vs1 then {d} else {})"
      proof (cases "i \<in> both st")
        case False
        with i sd have "i = s \<and> arr (c_pred st) i \<noteq> None \<or> i = d \<and> arr (c_loc st) i \<noteq> None"
          unfolding both_def st by (auto split: if_splits)
        then show ?thesis using lt [of i] vs1 vs2(5) by auto
      qed simp
    qed
    moreover have "finite (both st)" unfolding both_def by (rule finite_arr)
    ultimately have "card (both ?st) \<le> card (both st \<union> (if vs1 = ?vs then {s} else {}) \<union> (if vs2 = vs1 then {d} else {}))"
      by (intro card_mono) auto
    also have "\<dots> \<le> card (both st) + card (if vs1 = ?vs then {s} else {}) + card (if vs2 = vs1 then {d} else {})"
      by (meson add_mono card_Un_le le_refl order_trans)
    finally show ?thesis using vs1 vs2(5) by (auto split: if_splits)
  qed
  then have "length vs2 + card (both ?st) \<le> 2 * length (es @ [e])" using cnt by simp
  moreover have "card (dom (arr (c_pred ?st))) = length (es @ [e])"
  proof -
    have "dom (arr (c_pred ?st)) = insert d (dom (arr (c_pred st)))" unfolding st by simp
    moreover have "finite (dom (arr (c_pred st)))"
      by (rule finite_subset [of _ "{..< length ?vs}"]) (auto dest: pred)
    ultimately show ?thesis using fresh todo(2) by (simp add: domIff)
  qed
  moreover have "j = i \<and> (\<exists>b. arr (c_pred ?st) b = Some i)" if "arr (c_loc ?st) i = Some j" for i j
  proof (cases "i = s")
    case True
    then show ?thesis using that sd unfolding st by auto
  next
    case False
    then have "arr (c_loc st) i = Some j" using that unfolding st by simp
    from loc [OF this] obtain b where "j = i" "arr (c_pred st) b = Some i" by blast
    moreover from this have "b \<noteq> d" using fresh by auto
    ultimately show ?thesis unfolding st by auto
  qed
  moreover have "b < length vs2 \<and> a < length vs2 \<and> arr (c_loc ?st) a = Some a \<and> (\<exists>e' \<in> set (es @ [e]). entered ?st b a e')"
    if P: "arr (c_pred ?st) b = Some a" for b a
  proof (cases "b = d")
    case True
    then have "a = s" using P unfolding st by simp
    then show ?thesis using True new s2(1) vs2(1) unfolding st by auto
  next
    case False
    then have "arr (c_pred st) b = Some a" using P unfolding st by simp
    from pred [OF this] obtain e' where p: "b < length ?vs" "a < length ?vs" "arr (c_loc st) a = Some a"
        "e' \<in> set es" "entered st b a e'" by blast
    moreover have "arr (c_loc ?st) a = Some a" using p(3) unfolding st by simp
    ultimately show ?thesis using ext [of b] ext [of a] keep [OF p(5)] by auto
  qed
  moreover have "\<exists>b a. entered ?st b a e'" if "e' \<in> set (es @ [e])" for e'
  proof (cases "e' \<in> set es")
    case True
    then show ?thesis using ent keep by blast
  next
    case False
    then show ?thesis using that new by auto
  qed
  moreover have "set vs2 = pc_src ` set (es @ [e]) \<union> Reg ` pc_dest ` set (es @ [e])"
    using vs1 vs2(4) vals by auto
  moreover have "set (c_to_do ?st) = dom (arr (c_pred ?st))" unfolding st using todo(1) by simp
  ultimately show ?thesis using vs2(3) st(5,6) unfolding setup_inv_def st(1) by blast
qed

lemma setup_fold_ok:
  assumes "setup_inv N ds st" "distinct (map pc_dest (ds @ real_copies es))" "2 * length (ds @ real_copies es) \<le> N"
  shows "setup_inv N (ds @ real_copies es) (fold setup_entry es st)"
  using assms
proof (induction es arbitrary: ds st)
  case Nil
  then show ?case by (simp add: real_copies_def)
next
  case (Cons e es)
  show ?case
  proof (cases "self_copy e")
    case True
    then show ?thesis using Cons by (simp add: setup_entry_def real_copies_def)
  next
    case False
    then have "setup_inv N (ds @ [e]) (setup_entry e st)"
      using Cons.prems by (intro setup_entry_ok) (auto simp: real_copies_def)
    with Cons.IH [of "ds @ [e]" "setup_entry e st"] Cons.prems(2,3) show ?thesis
      using False by (simp add: real_copies_def)
  qed
qed

lemma setup_entry_rest [simp]:
  "c_regs (setup_entry e st) = c_regs st" "c_movs (setup_entry e st) = c_movs st" "c_ready (setup_entry e st) = c_ready st"
  by (simp_all add: setup_entry_def Let_def split_def)

lemma setup_fold_rest [simp]:
  "c_regs (fold setup_entry es st) = c_regs st" "c_movs (fold setup_entry es st) = c_movs st"
  by (induction es arbitrary: st) simp_all

text \<open>What a parallel copy must satisfy: distinct destinations among the registers of the function,
  known sources, and as many components on both sides.\<close>

definition parallel_copy_ok :: "(nat \<Rightarrow> nat) \<Rightarrow> nat list \<Rightarrow> nir_parallel_copy_entry list \<Rightarrow> bool" where
  "parallel_copy_ok sc regs es \<longleftrightarrow> distinct (map pc_dest es) \<and>
     (\<forall>e \<in> set es. pc_dest e < length regs \<and> known regs (pc_src e) \<and>
        num_components sc regs (pc_src e) = regs ! pc_dest e)"

lemma setup_state_inv:
  assumes ok: "parallel_copy_ok sc regs es" and ne: "real_copies es \<noteq> []"
  defines "st \<equiv> copy_setup regs es"
  shows "state_inv sc regs (arr (c_pred st)) (2 * length (real_copies es)) st m0"
    "unmoved st \<subseteq> set (c_to_do st)" "\<forall>x \<in> set (c_to_do st). x < 2 * length (real_copies es)" "c_to_do st \<noteq> []"
    "\<And>b a. arr (c_pred st) b = Some a \<Longrightarrow> \<exists>e \<in> set (real_copies es). entered st b a e"
    "\<And>e. e \<in> set (real_copies es) \<Longrightarrow> \<exists>b a. entered st b a e"
    "c_regs st = regs" "card (dom (arr (c_pred st))) = length (real_copies es)"
proof -
  let ?N = "2 * length (real_copies es)"
  define st0 where "st0 = fold setup_entry es \<lparr>c_values = [], c_loc = replicate ?N None, c_pred = replicate ?N None,
           c_to_do = [], c_ready = [], c_regs = regs, c_movs = []\<rparr>"
  have real: "e \<in> set es" if "e \<in> set (real_copies es)" for e using that by (simp add: real_copies_def)
  have "arr (replicate ?N None) = (\<lambda>_. None :: nat option)" by (auto simp: arr_def)
  then have "setup_inv ?N [] \<lparr>c_values = [], c_loc = replicate ?N None, c_pred = replicate ?N None,
           c_to_do = [], c_ready = [], c_regs = regs, c_movs = []\<rparr>"
    by (simp add: setup_inv_def both_def)
  moreover have "distinct (map pc_dest (real_copies es))"
    using ok unfolding parallel_copy_ok_def real_copies_def by (simp add: distinct_map_filter)
  ultimately have inv: "setup_inv ?N (real_copies es) st0"
    using setup_fold_ok [of ?N "[]"] by (simp add: st0_def)
  have rest: "c_regs st0 = regs" "c_movs st0 = []" by (simp_all add: st0_def)
  have st: "st = mark_ready st0"
    by (simp add: st_def st0_def copy_setup_def real_copies_def [symmetric] Let_def mult.commute)
  let ?rdy = "rev (filter (\<lambda>i. c_pred st0 ! i \<noteq> None \<and> c_loc st0 ! i = None) [0 ..< length (c_values st0)])"
  have fields: "c_values st = c_values st0" "c_loc st = c_loc st0" "c_pred st = c_pred st0" "c_to_do st = c_to_do st0"
    "c_ready st = ?rdy" "c_regs st = regs" "c_movs st = []"
    using rest by (simp_all add: st mark_ready_def)
  have dist: "distinct (c_values st0)" and len: "length (c_pred st0) = ?N" "length (c_loc st0) = ?N"
    and vals: "set (c_values st0) = pc_src ` set (real_copies es) \<union> Reg ` pc_dest ` set (real_copies es)"
    and cnt: "length (c_values st0) + card (both st0) \<le> ?N"
    and loc: "\<And>i j. arr (c_loc st0) i = Some j \<Longrightarrow> j = i \<and> (\<exists>b. arr (c_pred st0) b = Some i)"
    and pred: "\<And>b a. arr (c_pred st0) b = Some a \<Longrightarrow> b < length (c_values st0) \<and> a < length (c_values st0) \<and>
        arr (c_loc st0) a = Some a \<and> (\<exists>e \<in> set (real_copies es). entered st0 b a e)"
    and ent: "\<And>e. e \<in> set (real_copies es) \<Longrightarrow> \<exists>b a. entered st0 b a e"
    and todo: "set (c_to_do st0) = dom (arr (c_pred st0))" "card (dom (arr (c_pred st0))) = length (real_copies es)"
    using inv unfolding setup_inv_def by blast+
  have entered: "entered st = entered st0" by (simp add: fun_eq_iff entered_def fields)
  let ?vs = "c_values st0" and ?L = "arr (c_loc st0)" and ?P = "arr (c_pred st0)"
  have fin: "finite (dom ?P)" by (rule finite_subset [of _ "{..< length ?vs}"]) (auto dest: pred)
  have ecopy: "a \<noteq> b \<and> num_components sc regs (?vs ! a) = num_components sc regs (?vs ! b) \<and>
      (\<exists>d < length regs. ?vs ! b = Reg d)" if P: "?P b = Some a" for b a
  proof -
    obtain e where e: "e \<in> set (real_copies es)" "?vs ! a = pc_src e" "?vs ! b = Reg (pc_dest e)"
      using pred [OF P] by (auto simp: entered_def)
    have "pc_dest e < length regs" "num_components sc regs (pc_src e) = regs ! pc_dest e"
      using ok real [OF e(1)] unfolding parallel_copy_ok_def by auto
    moreover have "\<not> self_copy e" using e(1) by (simp add: real_copies_def)
    then have "?vs ! a \<noteq> ?vs ! b" by (simp add: e self_copy_def)
    ultimately show ?thesis using e by (auto simp: num_components_def)
  qed
  have su: "setup_ok sc regs ?P ?N ?vs regs"
  proof -
    have "known regs v" if v: "v \<in> set ?vs" for v
    proof -
      obtain e where "e \<in> set (real_copies es)" "v = pc_src e \<or> v = Reg (pc_dest e)" using v vals by auto
      then show ?thesis using ok real unfolding parallel_copy_ok_def by auto
    qed
    then show ?thesis using dist cnt fin ecopy pred unfolding setup_ok_def by auto
  qed
  have places: "places_ok sc ?vs ?L ?P regs"
    using pred loc unfolding places_ok_def by metis
  have rin: "x \<in> set ?rdy \<longleftrightarrow> ?P x \<noteq> None \<and> ?L x = None" for x
  proof -
    have "x < length ?vs" if "?P x \<noteq> None" using that pred by auto
    moreover have "length ?vs \<le> ?N" using cnt by simp
    ultimately show ?thesis using len by (auto simp: arr_def)
  qed
  have ready: "ready_ok ?L ?P ?rdy"
  proof -
    have tl: "x \<in> set ?rdy" if "x \<in> set (tl ?rdy)" for x using that by (metis list.set_sel(2) tl_Nil)
    have "x \<in> set ?rdy" if "?P x \<noteq> None" "?L x \<noteq> Some x" for x
    proof -
      have "?L x = None" using that(2) loc [of x] by (cases "?L x") auto
      then show ?thesis using that(1) rin by blast
    qed
    moreover have "?P x \<noteq> None \<and> ?L x \<noteq> Some x" if "x \<in> set ?rdy" for x using that rin by auto
    moreover have "?L x = None" if "x \<in> set (tl ?rdy)" for x using tl [OF that] rin by blast
    moreover have "distinct ?rdy" by simp
    ultimately show ?thesis unfolding ready_ok_def by blast
  qed
  have "{x. ?P x \<noteq> None \<and> ?L x = Some x} \<subseteq> both st0" by (auto simp: both_def)
  moreover have "finite (both st0)" unfolding both_def by (rule finite_arr)
  ultimately have "card {x. ?P x \<noteq> None \<and> ?L x = Some x} \<le> card (both st0)" by (intro card_mono)
  then have counts: "counts_ok regs ?P ?N ?vs ?L ?P regs []" using cnt by (simp add: counts_ok_def)
  have mem: "memory_inv sc regs ?P ?vs ?L ?P regs [] m0"
  proof -
    have "l = a" if "?L a = Some l" for a l using loc [OF that] by simp
    then show ?thesis by (auto simp: memory_inv_def exec_movs_def Let_def)
  qed
  have "length ?rdy \<le> length ?vs" using length_filter_le [of _ "[0 ..< length ?vs]"] by (simp only: length_rev) simp
  then show "state_inv sc regs (arr (c_pred st)) ?N st m0"
    using su places ready counts mem len cnt
    unfolding state_inv_def copy_inv_def fields by (simp add: movs_ok_def)
  show "unmoved st \<subseteq> set (c_to_do st)" unfolding unmoved_def fields todo(1) by auto
  have "\<forall>x \<in> set (c_to_do st0). x < ?N" using todo(1) pred cnt by fastforce
  then show "\<forall>x \<in> set (c_to_do st). x < ?N" unfolding fields .
  have "dom ?P \<noteq> {}" using todo(2) ne by (metis card.empty length_0_conv)
  then show "c_to_do st \<noteq> []" using todo(1) unfolding fields by (metis set_empty)
  show "\<exists>e \<in> set (real_copies es). entered st b a e" if "arr (c_pred st) b = Some a" for b a
    using that pred unfolding fields entered by blast
  show "\<exists>b a. entered st b a e" if "e \<in> set (real_copies es)" for e
    using that ent unfolding entered by blast
  show "c_regs st = regs" "card (dom (arr (c_pred st))) = length (real_copies es)"
    unfolding fields using todo(2) by simp_all
qed

lemma copy_ready_values: "copy_ready b st = Some st' \<Longrightarrow> c_values st' = c_values st"
  by (cases "c_values st ! b")
    (auto simp: copy_ready_def push_ready_def Let_def Option.bind_eq_Some_conv split: if_splits)

lemma drain_ready_values: "drain_ready st = Some st' \<Longrightarrow> c_values st' = c_values st"
proof (induction st arbitrary: st' rule: drain_ready.induct)
  case (1 st)
  show ?case
  proof (cases "c_ready st")
    case Nil
    then show ?thesis using 1(2) by (simp add: drain_ready.simps [of st])
  next
    case (Cons b rest)
    then obtain st1 where c: "copy_ready b (st\<lparr>c_ready := rest\<rparr>) = Some st1" "drain_ready st1 = Some st'"
      using 1(2) by (auto simp: drain_ready.simps [of st] split: option.splits)
    then show ?thesis using 1(1) [OF Cons c] copy_ready_values [OF c(1)] by simp
  qed
qed

lemma copy_loop_values:
  "copy_loop sc to_do st = Some st' \<Longrightarrow> i < length (c_values st) \<Longrightarrow> c_values st' ! i = c_values st ! i"
proof (induction to_do arbitrary: st)
  case (Cons b to_do)
  obtain st1 where d: "drain_ready st = Some st1" using Cons.prems(1) by (auto simp: Option.bind_eq_Some_conv)
  have v: "c_values st1 = c_values st" using drain_ready_values [OF d] .
  show ?case
  proof (cases "c_pred st1 ! b")
    case None
    then show ?thesis using Cons.IH [of st1] Cons.prems d v by simp
  next
    case (Some a)
    then obtain st2 where b: "break_cycle sc b st1 = Some st2" "copy_loop sc to_do st2 = Some st'"
      using Cons.prems(1) d by (auto simp: Option.bind_eq_Some_conv)
    then have "c_values st2 = c_values st1 @ [Reg (length (c_regs st1))]"
      by (auto simp: break_cycle_def push_ready_def Let_def split: if_splits)
    then show ?thesis using Cons.IH [OF b(2)] Cons.prems(2) v by (simp add: nth_append)
  qed
qed simp

section \<open>Properties of the resolution\<close>

text \<open>C31. On copies to distinct registers with matching numbers of components, the resolution returns;
  the moves, run on any memory, give every destination the old value of its source and change nothing
  else but the temporaries; every move has a source of enough components, and there is one per copy
  that is not to itself and one per temporary.\<close>

theorem parallel_copy_correct:
  assumes "parallel_copy_ok ssa_comps regs es"
  shows "\<exists>temps movs. resolve_parallel_copy ssa_comps regs es = Some (regs @ temps, movs) \<and>
    length movs = length (filter (\<lambda>e. \<not> self_copy e) es) + length temps \<and>
    (\<forall>mv \<in> set movs. (regs @ temps) ! mv_dest mv \<le> num_components ssa_comps (regs @ temps) (mv_src mv)) \<and>
    (\<forall>m. memory_ok ssa_comps (regs @ temps) m \<longrightarrow>
      (\<forall>e \<in> set es. exec_movs movs m (Reg (pc_dest e)) = m (pc_src e)) \<and>
      (\<forall>r < length regs. r \<notin> pc_dest ` set es \<longrightarrow> exec_movs movs m (Reg r) = m (Reg r)) \<and>
      (\<forall>s. exec_movs movs m (Ssa s) = m (Ssa s)))"
proof (cases "real_copies es = []")
  case True
  then have "\<forall>e \<in> set es. self_copy e" by (auto simp: real_copies_def filter_empty_conv)
  then show ?thesis using True
    by (intro exI [of _ "[]"]) (auto simp: resolve_parallel_copy_def real_copies_def exec_movs_def self_copy_def)
next
  case False
  define st where "st = copy_setup regs es"
  note init = setup_state_inv [OF assms False, folded st_def]
  let ?N = "2 * length (real_copies es)" and ?p0 = "arr (c_pred st)"
  obtain b to_do where td: "c_to_do st = b # to_do" using init(4) by (cases "c_to_do st") auto
  have loop: "\<exists>st'. copy_loop ssa_comps (c_to_do st) st = Some st' \<and> state_inv ssa_comps regs ?p0 ?N st' m0 \<and>
      (\<forall>x. arr (c_pred st') x = None)" for m0 :: "nir_src \<Rightarrow> 'a list"
    using copy_loop_ok [OF init(1) _ _] init(2,3) unfolding td by blast
  obtain st' where run: "copy_loop ssa_comps (c_to_do st) st = Some st'"
    and none: "\<And>x. arr (c_pred st') x = None" and "state_inv ssa_comps regs ?p0 ?N st' (undefined :: nir_src \<Rightarrow> 'a list)"
    using loop [of undefined] by blast
  have si: "state_inv ssa_comps regs ?p0 ?N st' m0" for m0 :: "nir_src \<Rightarrow> 'a list"
    using loop [of m0] run by auto
  let ?vs = "c_values st'" and ?regs = "c_regs st'" and ?movs = "c_movs st'"
  have inv: "setup_ok ssa_comps regs ?p0 ?N ?vs ?regs"
    "counts_ok regs ?p0 ?N ?vs (arr (c_loc st')) (arr (c_pred st')) ?regs ?movs" "movs_ok ssa_comps ?regs ?movs"
    using si [of undefined] unfolding state_inv_def copy_inv_def by blast+
  obtain temps where temps: "?regs = regs @ temps" using inv(1) unfolding setup_ok_def by blast
  have "dom (arr (c_pred st')) = {}" using none by auto
  then have cnt: "length ?movs = length (real_copies es) + length temps"
    using inv(2) init(8) temps unfolding counts_ok_def by simp
  have vals: "?vs ! i = c_values st ! i" if "i < length (c_values st)" for i
    using copy_loop_values [OF run that] .
  have mem: "(\<forall>e \<in> set es. exec_movs ?movs m (Reg (pc_dest e)) = m (pc_src e)) \<and>
      (\<forall>r < length regs. r \<notin> pc_dest ` set es \<longrightarrow> exec_movs ?movs m (Reg r) = m (Reg r)) \<and>
      (\<forall>s. exec_movs ?movs m (Ssa s) = m (Ssa s))" if ok: "memory_ok ssa_comps (regs @ temps) m" for m :: "nir_src \<Rightarrow> 'a list"
  proof -
    have "memory_inv ssa_comps regs ?p0 ?vs (arr (c_loc st')) (arr (c_pred st')) ?regs ?movs m"
      using si [of m] unfolding state_inv_def copy_inv_def by blast
    then have copied: "\<And>b a. ?p0 b = Some a \<Longrightarrow> exec_movs ?movs m (?vs ! b) = m (?vs ! a)"
      and rest: "\<And>v. (\<And>b a. ?p0 b = Some a \<Longrightarrow> v \<noteq> ?vs ! b) \<Longrightarrow> (\<And>r. v = Reg r \<Longrightarrow> r < length regs) \<Longrightarrow>
        exec_movs ?movs m v = m v"
      using ok none unfolding memory_inv_def Let_def temps by blast+
    have inside: "b < length (c_values st)" "a < length (c_values st)" if P: "?p0 b = Some a" for b a
    proof -
      have "setup_ok ssa_comps regs ?p0 ?N (c_values st) (c_regs st)"
        using init(1) [of undefined] unfolding state_inv_def copy_inv_def by blast
      then show "b < length (c_values st)" "a < length (c_values st)" using P unfolding setup_ok_def by blast+
    qed
    have dests: "\<exists>e \<in> set es. \<not> self_copy e \<and> ?vs ! b = Reg (pc_dest e)" if P: "?p0 b = Some a" for b a
      using init(5) [OF P] vals [OF inside(1) [OF P]] by (auto simp: entered_def real_copies_def)
    have "exec_movs ?movs m (Reg (pc_dest e)) = m (pc_src e)" if e: "e \<in> set es" for e
    proof (cases "self_copy e")
      case True
      have neq: "?vs ! b \<noteq> Reg (pc_dest e)" if P: "?p0 b = Some a" for b a
      proof
        assume "?vs ! b = Reg (pc_dest e)"
        moreover obtain e' where "e' \<in> set es" "\<not> self_copy e'" "?vs ! b = Reg (pc_dest e')"
          using dests [OF P] by blast
        ultimately have "e' = e"
          using e assms by (auto simp: parallel_copy_ok_def distinct_map dest: inj_onD)
        then show False using True \<open>\<not> self_copy e'\<close> by simp
      qed
      have "pc_dest e < length regs" using assms e unfolding parallel_copy_ok_def by blast
      then have "exec_movs ?movs m (Reg (pc_dest e)) = m (Reg (pc_dest e))"
        using neq [THEN not_sym] by (intro rest) auto
      then show ?thesis using True by (simp add: self_copy_def)
    next
      case False
      then obtain b a where b: "entered st b a e" using init(6) [of e] e by (auto simp: real_copies_def)
      then have P: "?p0 b = Some a" by (simp add: entered_def)
      then show ?thesis using copied [OF P] b vals inside [OF P] by (simp add: entered_def)
    qed
    moreover have "exec_movs ?movs m (Reg r) = m (Reg r)" if "r < length regs" "r \<notin> pc_dest ` set es" for r
      using that dests by (intro rest) fastforce+
    moreover have "exec_movs ?movs m (Ssa s) = m (Ssa s)" for s
      using dests by (intro rest) fastforce+
    ultimately show ?thesis by blast
  qed
  have "resolve_parallel_copy ssa_comps regs es = Some (regs @ temps, ?movs)"
    using False run temps by (simp add: resolve_parallel_copy_def real_copies_def Let_def flip: st_def)
  then show ?thesis using cnt inv(3) mem temps
    by (intro exI [of _ temps] exI [of _ ?movs]) (auto simp: real_copies_def movs_ok_def)
qed

theorem parallel_copy_correct_witness:
  "\<exists>temps movs. resolve_parallel_copy (\<lambda>_. 3) [2, 2, 3]
      [\<lparr>pc_src = Reg 0, pc_dest = 1\<rparr>, \<lparr>pc_src = Reg 1, pc_dest = 0\<rparr>, \<lparr>pc_src = Ssa 7, pc_dest = 2\<rparr>] =
    Some ([2, 2, 3] @ temps, movs) \<and> length movs = 3 + length temps"
proof -
  have "parallel_copy_ok (\<lambda>_. 3) [2, 2, 3]
      [\<lparr>pc_src = Reg 0, pc_dest = 1\<rparr>, \<lparr>pc_src = Reg 1, pc_dest = 0\<rparr>, \<lparr>pc_src = Ssa 7, pc_dest = 2\<rparr>]"
    by (simp add: parallel_copy_ok_def num_components_def)
  from parallel_copy_correct [OF this] show ?thesis by (auto simp: self_copy_def)
qed

end
