(* ===== verification/IdTables.thy ===== *)
theory IdTables
  imports Bitset "HOL-Library.Monad_Syntax"
begin

text \<open>
  Three small allocators of the Gallium auxiliary module: numbers (\<open>util/u_idalloc.c\<close>), bit masks that
  grow (\<open>util/u_bitmask.c\<close>) and handles of objects (\<open>util/u_handle_table.c\<close>), all under
  src/src/gallium/auxiliary.  An access out of an array, through NULL, or a loop that does not end is
  \<open>None\<close>; memory allocations take a flag that says whether they succeed.
\<close>

section \<open>Numbers\<close>

record util_idalloc =
  ia_data :: "bitset option"
  ia_num_elements :: u32

text \<open>\<open>align\<close> takes and returns an \<open>int\<close>; an overflow of the signed sum is undefined.\<close>

definition align :: "u32 \<Rightarrow> u32 \<Rightarrow> u32 option" where
  "align value alignment =
    (if sint value + sint alignment < 2 ^ 31 then Some ((value + alignment - 1) AND NOT (alignment - 1)) else None)"

definition util_idalloc_init :: util_idalloc where
  "util_idalloc_init = \<lparr>ia_data = None, ia_num_elements = 0\<rparr>"

text \<open>The result of \<open>realloc\<close> is not checked, so that the loop writes through NULL when it fails.\<close>

definition util_idalloc_resize :: "bool \<Rightarrow> u32 \<Rightarrow> util_idalloc \<Rightarrow> util_idalloc option" where
  "util_idalloc_resize realloc_ok new_num_elements buf = do {
     n \<leftarrow> align new_num_elements 32;
     if ia_num_elements buf < n
     then if realloc_ok
          then let kept = unat (ia_num_elements buf div 32);
                   old = (case ia_data buf of None \<Rightarrow> [] | Some d \<Rightarrow> d)
               in Some (buf\<lparr>ia_data := Some (take kept old @ replicate (unat (n div 32) - kept) 0),
                            ia_num_elements := n\<rparr>)
          else None
     else Some buf }"

definition util_idalloc_alloc :: "bool \<Rightarrow> util_idalloc \<Rightarrow> (u32 \<times> util_idalloc) option" where
  "util_idalloc_alloc realloc_ok buf =
    (let num_elements = ia_num_elements buf;
         words = (case ia_data buf of None \<Rightarrow> [] | Some d \<Rightarrow> d)
     in if length words < unat (num_elements div 32) then None
        else case find (\<lambda>i. words ! i \<noteq> 0xffffffff) [0 ..< unat (num_elements div 32)] of
          Some i \<Rightarrow> let b = ffs (NOT (words ! i)) - 1
                    in Some (of_nat (i * 32 + b),
                             buf\<lparr>ia_data := Some (words[i := words ! i OR push_bit b 1])\<rparr>)
        | None \<Rightarrow> do {
            buf \<leftarrow> util_idalloc_resize realloc_ok (num_elements * 2) buf;
            words \<leftarrow> ia_data buf;
            let i = unat (num_elements div 32);
            if i < length words
            then Some (num_elements,
                   buf\<lparr>ia_data := Some (words[i := words ! i OR push_bit (unat (num_elements mod 32)) 1])\<rparr>)
            else None })"

definition util_idalloc_free :: "u32 \<Rightarrow> util_idalloc \<Rightarrow> util_idalloc option" where
  "util_idalloc_free idn buf = do {
     words \<leftarrow> ia_data buf;
     let i = unat (idn div 32);
     if i < length words
     then Some (buf\<lparr>ia_data := Some (words[i := words ! i AND NOT (push_bit (unat (idn mod 32)) 1)])\<rparr>)
     else None }"

section \<open>Bit masks\<close>

record util_bitmask =
  bm_words :: bitset
  bm_size :: u32
  bm_filled :: u32

definition UTIL_BITMASK_INVALID_INDEX :: u32 where
  "UTIL_BITMASK_INVALID_INDEX = NOT 0"

definition util_bitmask_create :: "bool \<Rightarrow> bool \<Rightarrow> util_bitmask option" where
  "util_bitmask_create malloc_ok calloc_ok =
    (if malloc_ok \<and> calloc_ok
     then Some \<lparr>bm_words = replicate 16 0, bm_size = 16 * 32, bm_filled = 0\<rparr> else None)"

text \<open>The doubling loop: \<open>Some None\<close> when it finds that the size overflows.\<close>

partial_function (option) bitmask_grow :: "u32 \<Rightarrow> u32 \<Rightarrow> u32 \<Rightarrow> u32 option option" where
  "bitmask_grow bits minimum_size new_size =
    (if new_size < minimum_size
     then if new_size * 2 < bits then Some None else bitmask_grow bits minimum_size (new_size * 2)
     else Some (Some new_size))"

definition util_bitmask_resize :: "bool \<Rightarrow> u32 \<Rightarrow> util_bitmask \<Rightarrow> (bool \<times> util_bitmask) option" where
  "util_bitmask_resize realloc_ok minimum_index bm =
    (let minimum_size = minimum_index + 1
     in if minimum_size = 0 then Some (False, bm)
        else if minimum_size \<le> bm_size bm then Some (True, bm)
        else do {
          r \<leftarrow> bitmask_grow (bm_size bm) minimum_size (bm_size bm);
          case r of
            None \<Rightarrow> Some (False, bm)
          | Some new_size \<Rightarrow>
              if realloc_ok
              then Some (True, bm\<lparr>bm_words := bm_words bm @ replicate (unat ((new_size - bm_size bm) div 32)) 0,
                                  bm_size := new_size\<rparr>)
              else Some (False, bm) })"

definition util_bitmask_filled_set :: "u32 \<Rightarrow> util_bitmask \<Rightarrow> util_bitmask" where
  "util_bitmask_filled_set index bm =
    (if index = bm_filled bm then bm\<lparr>bm_filled := bm_filled bm + 1\<rparr> else bm)"

definition util_bitmask_filled_unset :: "u32 \<Rightarrow> util_bitmask \<Rightarrow> util_bitmask" where
  "util_bitmask_filled_unset index bm = (if index < bm_filled bm then bm\<lparr>bm_filled := index\<rparr> else bm)"

text \<open>The nested loops of \<open>util_bitmask_add\<close> and \<open>util_bitmask_get_next_index\<close> count an index along
  with the word, the bit and the msk; they look for a bit that is clear, or set.\<close>

function scan_bits :: "(bool \<Rightarrow> bool) \<Rightarrow> u32 \<Rightarrow> nat \<Rightarrow> u32 \<Rightarrow> u32 \<Rightarrow> bool \<times> u32 \<times> u32" where
  "scan_bits hit w b msk index =
    (if b < 32
     then if hit (w AND msk \<noteq> 0) then (True, msk, index)
          else scan_bits hit w (b + 1) (push_bit 1 msk) (index + 1)
     else (False, msk, index))"
  by auto
termination by (relation "measure (\<lambda>(hit, w, b, msk, index). 32 - b)") auto

declare scan_bits.simps [simp del]

function scan_words :: "(bool \<Rightarrow> bool) \<Rightarrow> bitset \<Rightarrow> nat \<Rightarrow> nat \<Rightarrow> nat \<Rightarrow> u32 \<Rightarrow> u32 \<Rightarrow> bool \<times> nat \<times> u32 \<times> u32" where
  "scan_words hit words bits word b msk index =
    (if word < bits div 32
     then case scan_bits hit (words ! word) b msk index of
            (True, msk, index) \<Rightarrow> (True, word, msk, index)
          | (False, msk, index) \<Rightarrow> scan_words hit words bits (word + 1) 0 1 index
     else (False, word, msk, index))"
  by auto
termination by (relation "measure (\<lambda>(hit, words, bits, word, b, msk, index). bits div 32 - word)") auto

declare scan_words.simps [simp del]

definition util_bitmask_add :: "bool \<Rightarrow> util_bitmask \<Rightarrow> (u32 \<times> util_bitmask) option" where
  "util_bitmask_add realloc_ok bm =
    (let word = unat (bm_filled bm div 32); b = unat (bm_filled bm mod 32);
         (found, word, msk, filled) =
           scan_words Not (bm_words bm) (unat (bm_size bm)) word b (push_bit b 1) (bm_filled bm);
         bm = bm\<lparr>bm_filled := filled\<rparr>
     in do {
       (ok, bm) \<leftarrow> util_bitmask_resize realloc_ok (bm_filled bm) bm;
       if \<not> ok then Some (UTIL_BITMASK_INVALID_INDEX, bm)
       else if word < length (bm_words bm)
            then Some (bm_filled bm,
                   bm\<lparr>bm_words := (bm_words bm)[word := bm_words bm ! word OR msk],
                      bm_filled := bm_filled bm + 1\<rparr>)
            else None })"

definition util_bitmask_set :: "bool \<Rightarrow> u32 \<Rightarrow> util_bitmask \<Rightarrow> (u32 \<times> util_bitmask) option" where
  "util_bitmask_set realloc_ok index bm = do {
     (ok, bm) \<leftarrow> util_bitmask_resize realloc_ok index bm;
     if \<not> ok then Some (UTIL_BITMASK_INVALID_INDEX, bm)
     else let word = unat (index div 32); msk = push_bit (unat (index mod 32)) 1
          in if word < length (bm_words bm)
             then Some (index, util_bitmask_filled_set index
                    (bm\<lparr>bm_words := (bm_words bm)[word := bm_words bm ! word OR msk]\<rparr>))
             else None }"

definition util_bitmask_clear :: "u32 \<Rightarrow> util_bitmask \<Rightarrow> util_bitmask option" where
  "util_bitmask_clear index bm =
    (if bm_size bm \<le> index then Some bm
     else let word = unat (index div 32); msk = push_bit (unat (index mod 32)) 1
          in if word < length (bm_words bm)
             then Some (util_bitmask_filled_unset index
                    (bm\<lparr>bm_words := (bm_words bm)[word := bm_words bm ! word AND NOT msk]\<rparr>))
             else None)"

definition util_bitmask_get :: "u32 \<Rightarrow> util_bitmask \<Rightarrow> (bool \<times> util_bitmask) option" where
  "util_bitmask_get index bm =
    (let word = unat (index div 32); msk = push_bit (unat (index mod 32)) 1
     in if index < bm_filled bm then Some (True, bm)
        else if bm_size bm \<le> index then Some (False, bm)
        else if word < length (bm_words bm)
             then if bm_words bm ! word AND msk \<noteq> 0 then Some (True, util_bitmask_filled_set index bm)
                  else Some (False, bm)
             else None)"

definition util_bitmask_get_next_index :: "u32 \<Rightarrow> util_bitmask \<Rightarrow> u32 \<times> util_bitmask" where
  "util_bitmask_get_next_index index bm =
    (let word = unat (index div 32); b = unat (index mod 32)
     in if index < bm_filled bm then (index, bm)
        else if bm_size bm \<le> index then (UTIL_BITMASK_INVALID_INDEX, bm)
        else case scan_words (\<lambda>c. c) (bm_words bm) (unat (bm_size bm)) word b (push_bit b 1) index of
               (True, word, msk, index) \<Rightarrow>
                 (index, if index = bm_filled bm then bm\<lparr>bm_filled := bm_filled bm + 1\<rparr> else bm)
             | (False, word, msk, index) \<Rightarrow> (UTIL_BITMASK_INVALID_INDEX, bm))"

definition util_bitmask_get_first_index :: "util_bitmask \<Rightarrow> u32 \<times> util_bitmask" where
  "util_bitmask_get_first_index bm = util_bitmask_get_next_index 0 bm"

section \<open>Handles\<close>

text \<open>The optional destructor acts on the world outside of the table.\<close>

record 'w handle_table =
  hd_objects :: "ptr list"
  hd_size :: u32
  hd_filled :: u32
  hd_destroy :: "(ptr \<Rightarrow> 'w \<Rightarrow> 'w) option"

definition handle_table_create :: "bool \<Rightarrow> bool \<Rightarrow> 'w handle_table option" where
  "handle_table_create malloc_ok calloc_ok =
    (if malloc_ok \<and> calloc_ok
     then Some \<lparr>hd_objects = replicate 16 NULL, hd_size = 16, hd_filled = 0, hd_destroy = None\<rparr> else None)"

definition handle_table_set_destroy :: "(ptr \<Rightarrow> 'w \<Rightarrow> 'w) option \<Rightarrow> 'w handle_table \<Rightarrow> 'w handle_table" where
  "handle_table_set_destroy destroy ht = ht\<lparr>hd_destroy := destroy\<rparr>"

partial_function (option) handle_grow :: "u32 \<Rightarrow> u32 \<Rightarrow> u32 option" where
  "handle_grow minimum_size new_size =
    (if minimum_size < new_size then Some new_size else handle_grow minimum_size (new_size * 2))"

text \<open>\<open>None\<close> when the loop does not end; the flag is false when \<open>REALLOC\<close> fails.\<close>

definition handle_table_resize :: "bool \<Rightarrow> u32 \<Rightarrow> 'w handle_table \<Rightarrow> (bool \<times> 'w handle_table) option" where
  "handle_table_resize realloc_ok minimum_size ht =
    (if minimum_size < hd_size ht then Some (True, ht)
     else do {
       new_size \<leftarrow> handle_grow minimum_size (hd_size ht);
       if realloc_ok
       then Some (True, ht\<lparr>hd_objects := hd_objects ht @ replicate (unat (new_size - hd_size ht)) NULL,
                           hd_size := new_size\<rparr>)
       else Some (False, ht) })"

definition handle_table_clear :: "nat \<Rightarrow> 'w handle_table \<Rightarrow> 'w \<Rightarrow> ('w handle_table \<times> 'w) option" where
  "handle_table_clear index ht w =
    (if index < length (hd_objects ht)
     then let object = hd_objects ht ! index
          in if object \<noteq> NULL
             then Some (ht\<lparr>hd_objects := (hd_objects ht)[index := NULL]\<rparr>,
                        case hd_destroy ht of None \<Rightarrow> w | Some destroy \<Rightarrow> destroy object w)
             else Some (ht, w)
     else None)"

text \<open>The search for an empty handle from \<open>filled\<close> on.\<close>

definition handle_search :: "'w handle_table \<Rightarrow> u32" where
  "handle_search ht =
    (case find (\<lambda>i. hd_objects ht ! i = NULL) [unat (hd_filled ht) ..< unat (hd_size ht)] of
       Some i \<Rightarrow> of_nat i
     | None \<Rightarrow> max (hd_filled ht) (hd_size ht))"

definition handle_table_add :: "bool \<Rightarrow> ptr \<Rightarrow> 'w handle_table \<Rightarrow> (u32 \<times> 'w handle_table) option" where
  "handle_table_add realloc_ok object ht =
    (if object = NULL then Some (0, ht)
     else let index = handle_search ht; handle = index + 1; ht = ht\<lparr>hd_filled := index\<rparr>
          in if handle = 0 then Some (0, ht)
             else do {
               (ok, ht) \<leftarrow> handle_table_resize realloc_ok index ht;
               if \<not> ok then Some (0, ht)
               else if unat index < length (hd_objects ht)
                    then Some (handle, ht\<lparr>hd_objects := (hd_objects ht)[unat index := object],
                                          hd_filled := hd_filled ht + 1\<rparr>)
                    else None })"

definition handle_table_set :: "bool \<Rightarrow> u32 \<Rightarrow> ptr \<Rightarrow> 'w handle_table \<Rightarrow> 'w \<Rightarrow> (u32 \<times> 'w handle_table \<times> 'w) option" where
  "handle_table_set realloc_ok handle object ht w =
    (if handle = 0 \<or> object = NULL then Some (0, ht, w)
     else let index = handle - 1
          in do {
            (ok, ht) \<leftarrow> handle_table_resize realloc_ok index ht;
            if \<not> ok then Some (0, ht, w)
            else do {
              (ht, w) \<leftarrow> handle_table_clear (unat index) ht w;
              Some (handle, ht\<lparr>hd_objects := (hd_objects ht)[unat index := object]\<rparr>, w) } })"

definition handle_table_get :: "u32 \<Rightarrow> 'w handle_table \<Rightarrow> ptr option" where
  "handle_table_get handle ht =
    (if handle = 0 \<or> hd_size ht < handle then Some NULL
     else if unat (handle - 1) < length (hd_objects ht) then Some (hd_objects ht ! unat (handle - 1)) else None)"

definition handle_table_remove :: "u32 \<Rightarrow> 'w handle_table \<Rightarrow> 'w \<Rightarrow> ('w handle_table \<times> 'w) option" where
  "handle_table_remove handle ht w =
    (if handle = 0 \<or> hd_size ht < handle then Some (ht, w)
     else let index = handle - 1
          in if length (hd_objects ht) \<le> unat index then None
             else if hd_objects ht ! unat index = NULL then Some (ht, w)
             else do {
               (ht, w) \<leftarrow> handle_table_clear (unat index) ht w;
               Some (if index < hd_filled ht then ht\<lparr>hd_filled := index\<rparr> else ht, w) })"

definition handle_table_get_next_handle :: "u32 \<Rightarrow> 'w handle_table \<Rightarrow> u32" where
  "handle_table_get_next_handle handle ht =
    (case find (\<lambda>i. hd_objects ht ! i \<noteq> NULL) [unat handle ..< unat (hd_size ht)] of
       Some i \<Rightarrow> of_nat i + 1
     | None \<Rightarrow> 0)"

definition handle_table_get_first_handle :: "'w handle_table \<Rightarrow> u32" where
  "handle_table_get_first_handle ht = handle_table_get_next_handle 0 ht"

text \<open>Destruction hands every object left to the destructor and frees the table.\<close>

fun handle_clear_all :: "nat list \<Rightarrow> 'w handle_table \<Rightarrow> 'w \<Rightarrow> ('w handle_table \<times> 'w) option" where
  "handle_clear_all [] ht w = Some (ht, w)"
| "handle_clear_all (i # is) ht w = do { (ht, w) \<leftarrow> handle_table_clear i ht w; handle_clear_all is ht w }"

definition handle_table_destroy :: "'w handle_table \<Rightarrow> 'w \<Rightarrow> 'w option" where
  "handle_table_destroy ht w =
    (if hd_destroy ht \<noteq> None
     then map_option snd (handle_clear_all [0 ..< unat (hd_size ht)] ht w) else Some w)"

end
