(* ===== verification/IdPools.thy ===== *)
theory IdPools
  imports IdTables
begin

text \<open>
  The allocator of numbers.  The locale \<open>id_pool\<close> states what the clients of the three modules rely on;
  its interpretations are here, in \<open>BitmaskSet\<close> and in \<open>HandleMap\<close>.
\<close>

section \<open>Pools of numbers\<close>

text \<open>What the clients of the three modules rely on: an allocation hands out a number that is not in
  use, or fails without effect, and a release takes exactly its number out of use.\<close>

datatype 'o pool_op = Take 'o | Give nat

fun pool_run ::
  "('o \<Rightarrow> 's \<Rightarrow> (nat option \<times> 's) option) \<Rightarrow> (nat \<Rightarrow> 's \<Rightarrow> 's option) \<Rightarrow> 'o pool_op list \<Rightarrow>
   's \<times> nat list \<Rightarrow> ('s \<times> nat list) option" where
  "pool_run alloc release [] (s, live) = Some (s, live)"
| "pool_run alloc release (Take o' # ops) (s, live) = do {
     (r, s) \<leftarrow> alloc o' s;
     pool_run alloc release ops (s, (case r of None \<Rightarrow> live | Some i \<Rightarrow> i # live)) }"
| "pool_run alloc release (Give i # ops) (s, live) =
     (if i \<in> set live
      then do { s \<leftarrow> release i s; pool_run alloc release ops (s, remove1 i live) }
      else pool_run alloc release ops (s, live))"

locale id_pool =
  fixes inv :: "'s \<Rightarrow> bool" and used :: "'s \<Rightarrow> nat set"
    and alloc :: "'o \<Rightarrow> 's \<Rightarrow> (nat option \<times> 's) option" and release :: "nat \<Rightarrow> 's \<Rightarrow> 's option"
  assumes take_law: "inv s \<Longrightarrow> alloc o' s = Some (Some i, s') \<Longrightarrow> inv s' \<and> i \<notin> used s \<and> used s' = insert i (used s)"
    and fail_law: "inv s \<Longrightarrow> alloc o' s = Some (None, s') \<Longrightarrow> inv s' \<and> used s' = used s"
    and give_law: "inv s \<Longrightarrow> i \<in> used s \<Longrightarrow> \<exists>s'. release i s = Some s' \<and> inv s' \<and> used s' = used s - {i}"
begin

lemma run_live:
  "inv s \<Longrightarrow> distinct live \<Longrightarrow> set live = used s \<Longrightarrow> pool_run alloc release ops (s, live) = Some (s', live') \<Longrightarrow>
   inv s' \<and> distinct live' \<and> set live' = used s'"
proof (induction ops arbitrary: s live)
  case (Cons op ops)
  show ?case
  proof (cases op)
    case (Take o')
    obtain r s1 where a: "alloc o' s = Some (r, s1)"
      using Cons.prems(4) Take by (auto simp: Option.bind_eq_Some_conv)
    show ?thesis
    proof (cases r)
      case None
      then have "inv s1 \<and> used s1 = used s" using fail_law Cons.prems(1) a by simp
      then show ?thesis using Cons.IH [of s1 live] Cons.prems Take a None by simp
    next
      case (Some i)
      then have "inv s1 \<and> i \<notin> used s \<and> used s1 = insert i (used s)" using take_law Cons.prems(1) a by simp
      then show ?thesis using Cons.IH [of s1 "i # live"] Cons.prems Take a Some by simp
    qed
  next
    case (Give i)
    show ?thesis
    proof (cases "i \<in> set live")
      case True
      then obtain s1 where "release i s = Some s1" "inv s1" "used s1 = used s - {i}"
        using give_law [OF Cons.prems(1), of i] Cons.prems(3) by blast
      then show ?thesis using Cons.IH [of s1 "remove1 i live"] Cons.prems Give True by simp
    qed (use Cons Give in simp)
  qed
qed simp

end

section \<open>The members of an array of words\<close>

definition members :: "bitset \<Rightarrow> nat set" where
  "members x = {i. i < 32 * length x \<and> BITSET_TEST x i}"

lemma members_iff: "i \<in> members x \<longleftrightarrow> i < 32 * length x \<and> bit (x ! (i div 32)) (i mod 32)"
  by (simp add: members_def bitset_test_bit)

lemma div32_less: "i < 32 * n \<longleftrightarrow> i div 32 < (n :: nat)"
  by (simp add: div_less_iff_less_mult mult.commute)

lemma members_set:
  assumes "c < 32 * length x"
  shows "members (x[c div 32 := x ! (c div 32) OR push_bit (c mod 32) 1]) = insert c (members x)"
proof -
  have "x[c div 32 := x ! (c div 32) OR push_bit (c mod 32) 1] = BITSET_SET x c"
    by (simp add: BITSET_SET_def BITSET_BIT_def BITSET_BITWORD_def)
  moreover have "length (BITSET_SET x c) = length x" by (simp add: BITSET_SET_def)
  ultimately show ?thesis using assms by (auto simp: members_def bitset_set_test div32_less)
qed

lemma bit_clear_power: "bit (w AND NOT (2 ^ b) :: u32) j \<longleftrightarrow> bit w j \<and> j \<noteq> b"
  using bit_clear [of w b j] by simp

lemma members_clear:
  assumes "c < 32 * length x"
  shows "members (x[c div 32 := x ! (c div 32) AND NOT (push_bit (c mod 32) 1)]) = members x - {c}"
proof (intro set_eqI)
  fix i
  have e: "i = c \<longleftrightarrow> i div 32 = c div 32 \<and> i mod 32 = c mod 32" by (metis div_mult_mod_eq)
  have l: "c div 32 < length x" using assms by (simp add: div32_less)
  show "i \<in> members (x[c div 32 := x ! (c div 32) AND NOT (push_bit (c mod 32) 1)]) \<longleftrightarrow> i \<in> members x - {c}"
  proof (cases "i div 32 = c div 32")
    case True
    then show ?thesis using e l assms by (auto simp: members_iff bit_clear_power)
  next
    case False
    then show ?thesis using e by (auto simp: members_iff)
  qed
qed

lemma members_grow [simp]: "members (x @ replicate n 0) = members x"
proof (intro set_eqI)
  fix i
  show "i \<in> members (x @ replicate n 0) \<longleftrightarrow> i \<in> members x"
  proof (cases "i div 32 < length x")
    case True
    then have "i < 32 * length x" by (simp add: div32_less)
    then show ?thesis using True by (simp add: members_iff nth_append)
  next
    case False
    moreover have "replicate n (0 :: u32) ! (i div 32 - length x) = 0" if "i < 32 * (length x + n)"
      using that False by (subst nth_replicate) (simp_all add: div32_less)
    ultimately show ?thesis by (auto simp: members_iff nth_append div32_less)
  qed
qed

lemma members_bounded: "i \<in> members x \<Longrightarrow> i < 32 * length x"
  by (simp add: members_iff)

lemma not_full_word: "w \<noteq> (0xffffffff :: u32) \<longleftrightarrow> NOT w \<noteq> 0"
proof -
  have "(0xffffffff :: u32) = NOT 0" by simp
  then show ?thesis by (metis bit.double_compl)
qed

section \<open>The allocator of numbers\<close>

definition idalloc_inv :: "util_idalloc \<Rightarrow> bool" where
  "idalloc_inv buf \<longleftrightarrow>
    (case ia_data buf of None \<Rightarrow> ia_num_elements buf = 0 | Some d \<Rightarrow> unat (ia_num_elements buf) = 32 * length d)"

definition idalloc_used :: "util_idalloc \<Rightarrow> nat set" where
  "idalloc_used buf = (case ia_data buf of None \<Rightarrow> {} | Some d \<Rightarrow> members d)"

lemma unat_div32: "unat ((x :: u32) div 32) = unat x div 32"
  by (simp add: unat_div)

lemma unat_mod32: "unat ((x :: u32) mod 32) = unat x mod 32"
  by (simp add: unat_mod)


lemma find_full_words:
  assumes "length d = n" "find (\<lambda>i. d ! i \<noteq> (0xffffffff :: u32)) [0 ..< n] = r"
  shows "case r of None \<Rightarrow> members d = {..< 32 * n}
    | Some i \<Rightarrow> i < n \<and> d ! i \<noteq> 0xffffffff \<and> {..< 32 * i} \<subseteq> members d"
proof -
  have ones: "bit (0xffffffff :: u32) j" if "j < 32" for j
  proof -
    have "(0xffffffff :: u32) = NOT 0" by simp
    then show ?thesis using that by (simp only: bit_not_iff) simp
  qed
  have full: "x \<in> members d" if "x < 32 * k" "k \<le> n" "\<forall>j < k. d ! j = 0xffffffff" for x k
  proof -
    have "x div 32 < k" "x < 32 * length d" using that assms(1) by (simp_all add: div32_less)
    then show ?thesis using that(3) ones [of "x mod 32"] by (simp add: members_iff)
  qed
  show ?thesis
  proof (cases r)
    case None
    then have "\<forall>j < n. d ! j = 0xffffffff" using assms(2) by (simp add: find_None_iff)
    then show ?thesis using None full [of _ n] assms(1) by (auto simp: members_bounded)
  next
    case (Some i)
    then have "i < n" "d ! i \<noteq> 0xffffffff" "\<forall>j < i. d ! j = 0xffffffff"
      using assms(2) by (auto simp: find_Some_iff)
    then show ?thesis using Some full [of _ i] by auto
  qed
qed

lemma idalloc_inv_some:
  "idalloc_inv buf \<Longrightarrow> ia_data buf = Some d \<Longrightarrow> unat (ia_num_elements buf) = 32 * length d"
  by (simp add: idalloc_inv_def)

definition idalloc_words :: "util_idalloc \<Rightarrow> bitset" where
  "idalloc_words buf = (case ia_data buf of None \<Rightarrow> [] | Some d \<Rightarrow> d)"

lemma idalloc_words_facts:
  assumes "idalloc_inv buf"
  shows "unat (ia_num_elements buf) = 32 * length (idalloc_words buf)" "idalloc_used buf = members (idalloc_words buf)"
  using assms by (auto simp: idalloc_inv_def idalloc_words_def idalloc_used_def members_def split: option.splits)

lemma align_double:
  assumes "unat n = 32 * k"
  shows "align (n * 2) 32 = Some (n * 2)"
proof -
  have 1: "sint (32 :: u32) = 32" by simp
  define m where "m = n * 2"
  have dv: "unat m mod 64 = 0"
  proof -
    have "unat m = (32 * k * 2) mod 2 ^ 32" using assms by (simp add: m_def unat_word_ariths)
    moreover have "(64 :: nat) dvd 2 ^ 32" by (rule dvdI [of _ _ "2 ^ 26"]) simp
    ultimately show ?thesis by (simp add: mod_mod_cancel)
  qed
  have low: "\<not> bit m j" if "j < 6" for j
  proof -
    have "unat m mod 2 ^ 6 = 0" using dv by simp
    then have "2 ^ 6 dvd unat m" by auto
    then have "2 ^ Suc j dvd unat m" using that by (metis Suc_leI le_imp_power_dvd dvd_trans)
    then obtain c where "unat m = 2 ^ Suc j * c" by (auto elim: dvdE)
    then have "even (unat m div 2 ^ j)" by simp
    then have "\<not> bit (unat m) j" by (simp add: bit_iff_odd)
    then show ?thesis by (simp add: bit_unsigned_iff)
  qed
  have b31: "bit (31 :: u32) j \<longleftrightarrow> j < 5" for j
  proof -
    have eq: "(31 :: u32) = mask 5" by (simp add: mask_eq_exp_minus_1)
    show ?thesis by (simp only: eq bit_mask_iff) auto
  qed
  have "m + 31 = m OR 31"
    by (rule disjunctive_add) (use low b31 in auto)
  moreover have "(m OR 31) AND NOT 31 = m"
  proof (rule bit_word_eqI)
    fix j assume "j < LENGTH(32)"
    then show "bit ((m OR 31) AND NOT 31) j = bit m j"
      unfolding bit_and_iff bit_or_iff bit_not_iff b31 using low [of j] by auto
  qed
  ultimately have "(m + 31) AND NOT 31 = m" by simp
  moreover have "sint m + 32 < 2 ^ 31"
  proof (cases "unat m < 2 ^ 31")
    case True
    then have "sint m = int (unat m)" using sint_small [of "unat m"] by simp
    moreover have "unat m + 64 \<le> 2 ^ 31"
    proof -
      obtain q where q: "unat m = 64 * q" using dv by auto
      then have "q < 2 ^ 25" using True by simp
      then show ?thesis using q by simp
    qed
    ultimately have "sint m + 64 \<le> int (2 ^ 31)" by linarith
    then show ?thesis by simp
  next
    case False
    have "odd (unat m div 2 ^ 31)"
    proof -
      have "unat m < 2 ^ 32" using unsigned_less [of m, where 'a=nat] by simp
      then have "unat m div 2 ^ 31 = 1" using False by (intro div_nat_eqI) auto
      then show ?thesis by simp
    qed
    then have "bit (unat m) 31" by (simp add: bit_iff_odd)
    then have "bit m 31" by (simp add: bit_unsigned_iff)
    then have "sint m < 0" using bit_last_iff [of m] by simp
    then show ?thesis by simp
  qed
  ultimately show ?thesis by (simp add: align_def add.commute flip: m_def)
qed

lemma idalloc_alloc_full:
  assumes inv: "idalloc_inv buf" and full: "idalloc_used buf = {..< unat (ia_num_elements buf)}"
  shows "if 0 < ia_num_elements buf \<and> unat (ia_num_elements buf) < 2 ^ 31 \<and> realloc_ok
    then \<exists>buf'. util_idalloc_alloc realloc_ok buf = Some (ia_num_elements buf, buf') \<and> idalloc_inv buf' \<and>
      idalloc_used buf' = insert (unat (ia_num_elements buf)) (idalloc_used buf)
    else util_idalloc_alloc realloc_ok buf = None"
proof -
  let ?n = "ia_num_elements buf" and ?d = "idalloc_words buf"
  note f = idalloc_words_facts [OF inv]
  have k: "unat (?n div 32) = length ?d" using f(1) by (simp add: unat_div32)
  have none: "find (\<lambda>i. ?d ! i \<noteq> 0xffffffff) [0 ..< length ?d] = None"
  proof (cases "find (\<lambda>i. ?d ! i \<noteq> 0xffffffff) [0 ..< length ?d]")
    case (Some i)
    then have i: "i < length ?d" "?d ! i \<noteq> 0xffffffff" by (auto simp: find_Some_iff)
    then have "NOT (?d ! i) \<noteq> 0" by (simp add: not_full_word)
    from ffs_pos [OF this] obtain j where "j < 32" "\<not> bit (?d ! i) j"
      by (metis bit_not_iff)
    then have "32 * i + j \<notin> members ?d" by (simp add: members_iff)
    moreover have "32 * i + j < unat ?n" using i(1) \<open>j < 32\<close> f(1) by simp
    ultimately show ?thesis using full f(2) by auto
  qed
  have run: "util_idalloc_alloc realloc_ok buf = do {
      buf \<leftarrow> util_idalloc_resize realloc_ok (?n * 2) buf;
      words \<leftarrow> ia_data buf;
      let i = unat (?n div 32);
      if i < length words
      then Some (?n, buf\<lparr>ia_data := Some (words[i := words ! i OR push_bit (unat (?n mod 32)) 1])\<rparr>)
      else None }"
    using none k by (simp add: util_idalloc_alloc_def Let_def flip: idalloc_words_def)
  have al: "align (?n * 2) 32 = Some (?n * 2)" by (rule align_double [OF f(1)])
  show ?thesis
  proof (cases "0 < ?n \<and> unat ?n < 2 ^ 31")
    case True
    then have d: "unat (?n * 2) = 2 * unat ?n" by (simp add: unat_word_ariths)
    have pos: "0 < unat ?n" using True by (simp add: word_gt_0 unat_gt_0)
    then have gt: "?n < ?n * 2" using d by (simp add: word_less_nat_alt)
    have len: "unat (?n * 2 div 32) = 2 * length ?d" using d f(1) by (simp add: unat_div32)
    have some: "ia_data buf = Some ?d" using pos f(1) by (auto simp: idalloc_words_def split: option.splits)
    let ?w = "?d @ replicate (length ?d) 0"
    let ?buf = "buf\<lparr>ia_data := Some ?w, ia_num_elements := ?n * 2\<rparr>"
    let ?v = "?w[length ?d := ?w ! length ?d OR push_bit (unat (?n mod 32)) 1]"
    have less: "length ?d < length ?w" using pos f(1) by simp
    have m: "members ?v = insert (unat ?n) (members ?d)"
      using members_set [of "unat ?n" ?w] pos f(1) by (simp add: unat_mod32)
    have "util_idalloc_resize True (?n * 2) buf = Some ?buf"
      using gt al k len some by (simp add: util_idalloc_resize_def Let_def)
    then have T: "util_idalloc_alloc True buf = Some (?n, ?buf\<lparr>ia_data := Some ?v\<rparr>)" if realloc_ok
      using run that less k by (simp add: Let_def)
    have "util_idalloc_resize False (?n * 2) buf = None"
      using gt al by (simp add: util_idalloc_resize_def)
    then have F: "util_idalloc_alloc False buf = None" if "\<not> realloc_ok" using run that by simp
    show ?thesis
    proof (cases realloc_ok)
      case R: True
      have "unat (?n * 2) = 32 * length ?v" using d f(1) by simp
      then have "idalloc_inv (?buf\<lparr>ia_data := Some ?v\<rparr>)" by (simp add: idalloc_inv_def)
      moreover have "idalloc_used (?buf\<lparr>ia_data := Some ?v\<rparr>) = insert (unat ?n) (idalloc_used buf)"
        using m f(2) by (simp add: idalloc_used_def)
      ultimately show ?thesis using T [OF R] R True by auto
    next
      case R: False
      then show ?thesis using F [OF R] by simp
    qed
  next
    case False
    have lt: "unat ?n < 2 ^ 32" using unsigned_less [of ?n, where 'a=nat] by simp
    have "\<not> ?n < ?n * 2"
    proof (cases "?n = 0")
      case False
      then have "2 ^ 31 \<le> unat ?n" using \<open>\<not> (0 < ?n \<and> _)\<close> by (simp add: word_gt_0)
      then have "unat (?n * 2) = 2 * unat ?n - 2 ^ 32"
        using lt by (simp add: unat_word_ariths le_mod_geq)
      then show ?thesis using lt by (simp add: word_less_nat_alt)
    qed simp
    then have "util_idalloc_resize realloc_ok (?n * 2) buf = Some buf" using al by (simp add: util_idalloc_resize_def)
    moreover have "\<not> length ?d < length w" if "ia_data buf = Some w" for w
      using that by (simp add: idalloc_words_def)
    ultimately show ?thesis using False k by (cases "ia_data buf") (auto simp: run Let_def)
  qed
qed

lemma idalloc_alloc_free:
  assumes inv: "idalloc_inv buf" and free: "idalloc_used buf \<noteq> {..< unat (ia_num_elements buf)}"
  shows "\<exists>i buf'. util_idalloc_alloc realloc_ok buf = Some (i, buf') \<and> idalloc_inv buf' \<and>
    ia_num_elements buf' = ia_num_elements buf \<and> unat i \<notin> idalloc_used buf \<and> {..< unat i} \<subseteq> idalloc_used buf \<and>
    idalloc_used buf' = insert (unat i) (idalloc_used buf)"
proof -
  let ?n = "ia_num_elements buf" and ?d = "idalloc_words buf"
  note f = idalloc_words_facts [OF inv]
  have k: "unat (?n div 32) = length ?d" using f(1) by (simp add: unat_div32)
  note find = find_full_words [OF refl refl, of ?d]
  obtain i where i: "find (\<lambda>i. ?d ! i \<noteq> 0xffffffff) [0 ..< length ?d] = Some i"
    using find free f by (auto split: option.splits)
  then have fi: "i < length ?d" "?d ! i \<noteq> 0xffffffff" "{..< 32 * i} \<subseteq> members ?d"
    using find by simp_all
  let ?b = "ffs (NOT (?d ! i)) - 1"
  have "NOT (?d ! i) \<noteq> 0" using fi(2) by (simp add: not_full_word)
  note b = ffs_pos [OF this]
  let ?x = "i * 32 + ?b"
  have x: "?x div 32 = i" "?x mod 32 = ?b" "?x < 32 * length ?d" using b(2) fi(1) by simp_all
  have "unat ?n < 2 ^ 32" using unsigned_less [of ?n, where 'a=nat] by simp
  then have ux: "unat (of_nat ?x :: u32) = ?x" using x(3) f(1) by (intro unat_of_nat_less) simp
  have some: "ia_data buf = Some ?d" using fi(1) by (auto simp: idalloc_words_def split: option.splits)
  let ?buf = "buf\<lparr>ia_data := Some (?d[i := ?d ! i OR push_bit ?b 1])\<rparr>"
  have "util_idalloc_alloc realloc_ok buf = Some (of_nat ?x, ?buf)"
    using i k by (simp add: util_idalloc_alloc_def Let_def flip: idalloc_words_def)
  moreover have "idalloc_used ?buf = insert ?x (idalloc_used buf)"
    using members_set [OF x(3)] f(2) unfolding x(1,2) by (simp add: idalloc_used_def)
  moreover have "?x \<notin> members ?d" using b(3) unfolding members_iff x(1,2) bit_not_iff by blast
  moreover have "y \<in> members ?d" if "y < ?x" for y
  proof (cases "y < 32 * i")
    case False
    then have d: "y div 32 = i" using that b(2) by (intro div_nat_eqI) simp_all
    have "i * 32 + y mod 32 = y" using div_mult_mod_eq [of y 32] d by simp
    then have y: "y mod 32 < ?b" using that by linarith
    have "\<not> bit (NOT (?d ! i)) (y mod 32)" using y by (rule b(4))
    then have "bit (?d ! i) (y mod 32)" by (simp add: bit_not_iff)
    moreover have "y < 32 * length ?d" using that x(3) by linarith
    ultimately show ?thesis unfolding members_iff d by blast
  qed (use fi(3) in auto)
  moreover have "idalloc_inv ?buf" using inv some by (simp add: idalloc_inv_def)
  moreover have "ia_num_elements ?buf = ?n" by simp
  ultimately have "util_idalloc_alloc realloc_ok buf = Some (of_nat ?x, ?buf) \<and> idalloc_inv ?buf \<and>
    ia_num_elements ?buf = ?n \<and> unat (of_nat ?x :: u32) \<notin> idalloc_used buf \<and>
    {..< unat (of_nat ?x :: u32)} \<subseteq> idalloc_used buf \<and>
    idalloc_used ?buf = insert (unat (of_nat ?x :: u32)) (idalloc_used buf)"
    unfolding f(2) ux by blast
  then show ?thesis by blast
qed

lemma idalloc_free_used:
  assumes inv: "idalloc_inv buf" and i: "unat i < unat (ia_num_elements buf)"
  shows "\<exists>buf'. util_idalloc_free i buf = Some buf' \<and> idalloc_inv buf' \<and>
    idalloc_used buf' = idalloc_used buf - {unat i}"
proof -
  note f = idalloc_words_facts [OF inv]
  let ?d = "idalloc_words buf"
  have some: "ia_data buf = Some ?d" using i f(1) by (auto simp: idalloc_words_def split: option.splits)
  have l: "unat i < 32 * length ?d" using i f(1) by simp
  then have "unat i div 32 < length ?d" by (simp add: div32_less)
  then show ?thesis using some members_clear [OF l] inv f(2)
    by (auto simp: util_idalloc_free_def unat_div32 unat_mod32 idalloc_used_def idalloc_inv_def Let_def)
qed

text \<open>A failed allocation crashes, so it does not return here.\<close>

definition idalloc_take :: "bool \<Rightarrow> util_idalloc \<Rightarrow> (nat option \<times> util_idalloc) option" where
  "idalloc_take ok buf = map_option (\<lambda>(i, buf). (Some (unat i), buf)) (util_idalloc_alloc ok buf)"

interpretation ia: id_pool idalloc_inv idalloc_used idalloc_take "\<lambda>i. util_idalloc_free (of_nat i)"
proof
  fix buf buf' :: util_idalloc and ok i
  assume inv: "idalloc_inv buf"
  show "idalloc_inv buf' \<and> i \<notin> idalloc_used buf \<and> idalloc_used buf' = insert i (idalloc_used buf)"
    if "idalloc_take ok buf = Some (Some i, buf')"
  proof (cases "idalloc_used buf = {..< unat (ia_num_elements buf)}")
    case True
    then show ?thesis using that idalloc_alloc_full [OF inv True, of ok]
      by (auto simp: idalloc_take_def split: if_splits)
  next
    case False
    then show ?thesis using that idalloc_alloc_free [OF inv False, of ok]
      by (auto simp: idalloc_take_def)
  qed
  show "idalloc_inv buf' \<and> idalloc_used buf' = idalloc_used buf" if "idalloc_take ok buf = Some (None, buf')"
    using that by (auto simp: idalloc_take_def)
  show "\<exists>s'. util_idalloc_free (of_nat i) buf = Some s' \<and> idalloc_inv s' \<and> idalloc_used s' = idalloc_used buf - {i}"
    if "i \<in> idalloc_used buf"
  proof -
    have "i < unat (ia_num_elements buf)"
      using that idalloc_words_facts [OF inv] by (simp add: members_bounded)
    moreover from this have "unat (of_nat i :: u32) = i"
      using unsigned_less [of "ia_num_elements buf", where 'a=nat] by (intro unat_of_nat_less) simp
    ultimately show ?thesis using idalloc_free_used [OF inv, of "of_nat i"] by simp
  qed
qed

lemma align_multiple:
  assumes "align n 32 = Some m"
  shows "32 dvd unat m"
proof -
  have m: "m = (n + 31) AND NOT 31" using assms by (auto simp: align_def add.commute add_diff_eq split: if_splits)
  have eq: "(31 :: u32) = mask 5" by (simp add: mask_eq_exp_minus_1)
  have "take_bit 5 m = 0"
    unfolding m eq by (rule bit_word_eqI) (auto simp: bit_take_bit_iff bit_and_iff bit_not_iff bit_mask_iff)
  then have "unat (take_bit 5 m) = 0" by simp
  then have "take_bit 5 (unat m) = 0" by (simp only: unsigned_take_bit_eq)
  then have "unat m mod 2 ^ 5 = 0" by (simp only: take_bit_eq_mod)
  then show ?thesis by (simp add: mod_eq_0_iff_dvd)
qed

lemma idalloc_resize_result:
  assumes "idalloc_inv buf" "util_idalloc_resize r n buf = Some buf'"
  shows "idalloc_inv buf' \<and> idalloc_used buf' = idalloc_used buf \<and> ia_num_elements buf \<le> ia_num_elements buf'"
proof -
  obtain m where m: "align n 32 = Some m" using assms(2) by (auto simp: util_idalloc_resize_def Option.bind_eq_Some_conv)
  show ?thesis
  proof (cases "ia_num_elements buf < m")
    case False
    then show ?thesis using assms m by (simp add: util_idalloc_resize_def)
  next
    case True
    note f = idalloc_words_facts [OF assms(1)]
    let ?d = "idalloc_words buf"
    have k: "unat (ia_num_elements buf div 32) = length ?d" using f(1) by (simp add: unat_div32)
    have r: r using assms(2) m True by (auto simp: util_idalloc_resize_def split: if_splits)
    have buf': "buf' = buf\<lparr>ia_data := Some (?d @ replicate (unat (m div 32) - length ?d) 0), ia_num_elements := m\<rparr>"
      using assms(2) m True k r by (simp add: util_idalloc_resize_def Let_def flip: idalloc_words_def)
    obtain q where q: "unat m = 32 * q" using align_multiple [OF m] by (auto elim: dvdE)
    then have "length ?d \<le> q" using True f(1) by (simp add: word_less_nat_alt)
    then have "idalloc_inv buf'" using q by (simp add: buf' idalloc_inv_def unat_div32)
    moreover have "idalloc_used buf' = members ?d" by (simp add: buf' idalloc_used_def)
    ultimately show ?thesis using True f(2) by (simp add: buf')
  qed
qed

text \<open>C32. On a well-formed allocator, \<open>util_idalloc_alloc\<close> puts the smallest free number into use, after
  doubling the array when it is full; without numbers to double, past \<open>2 ^ 31\<close> of them or when
  \<open>realloc\<close> fails it writes out of bounds. \<open>util_idalloc_free\<close> takes exactly its number out of use,
  and \<open>util_idalloc_resize\<close> keeps the numbers in use.\<close>

theorem idalloc_correct:
  assumes "idalloc_inv buf"
  shows "(if idalloc_used buf \<noteq> {..< unat (ia_num_elements buf)} \<or>
       realloc_ok \<and> 0 < ia_num_elements buf \<and> unat (ia_num_elements buf) < 2 ^ 31
     then \<exists>i buf'. util_idalloc_alloc realloc_ok buf = Some (i, buf') \<and> idalloc_inv buf' \<and>
       unat i \<notin> idalloc_used buf \<and> {..< unat i} \<subseteq> idalloc_used buf \<and>
       idalloc_used buf' = insert (unat i) (idalloc_used buf)
     else util_idalloc_alloc realloc_ok buf = None) \<and>
   (\<forall>i. unat i \<in> idalloc_used buf \<longrightarrow> (\<exists>buf'. util_idalloc_free i buf = Some buf' \<and> idalloc_inv buf' \<and>
      idalloc_used buf' = idalloc_used buf - {unat i})) \<and>
   (\<forall>buf'. util_idalloc_resize realloc_ok n buf = Some buf' \<longrightarrow>
      idalloc_inv buf' \<and> idalloc_used buf' = idalloc_used buf)"
proof (intro conjI allI impI)
  show "if idalloc_used buf \<noteq> {..< unat (ia_num_elements buf)} \<or>
       realloc_ok \<and> 0 < ia_num_elements buf \<and> unat (ia_num_elements buf) < 2 ^ 31
     then \<exists>i buf'. util_idalloc_alloc realloc_ok buf = Some (i, buf') \<and> idalloc_inv buf' \<and>
       unat i \<notin> idalloc_used buf \<and> {..< unat i} \<subseteq> idalloc_used buf \<and>
       idalloc_used buf' = insert (unat i) (idalloc_used buf)
     else util_idalloc_alloc realloc_ok buf = None"
  proof (cases "idalloc_used buf = {..< unat (ia_num_elements buf)}")
    case True
    from idalloc_alloc_full [OF assms True, of realloc_ok] True show ?thesis by (auto split: if_splits)
  next
    case False
    from idalloc_alloc_free [OF assms False, of realloc_ok] False show ?thesis by auto
  qed
  show "\<exists>buf'. util_idalloc_free i buf = Some buf' \<and> idalloc_inv buf' \<and> idalloc_used buf' = idalloc_used buf - {unat i}"
    if "unat i \<in> idalloc_used buf" for i
    using idalloc_free_used [OF assms, of i] that idalloc_words_facts [OF assms] by (simp add: members_bounded)
qed (use idalloc_resize_result [OF assms] in blast)+

lemma idalloc_init_inv: "idalloc_inv util_idalloc_init" "idalloc_used util_idalloc_init = {}"
  by (simp_all add: util_idalloc_init_def idalloc_inv_def idalloc_used_def)

theorem idalloc_correct_witness:
  "util_idalloc_alloc True util_idalloc_init = None \<and>
   idalloc_inv (the (util_idalloc_resize True 40 util_idalloc_init))"
proof -
  have "util_idalloc_resize True 40 util_idalloc_init \<noteq> None" by code_simp
  then obtain buf where "util_idalloc_resize True 40 util_idalloc_init = Some buf" by blast
  moreover have "ia_num_elements util_idalloc_init = 0" by (simp add: util_idalloc_init_def)
  ultimately show ?thesis
    using idalloc_correct [OF idalloc_init_inv(1), of True 40] idalloc_init_inv(2) by simp
qed


end
