(* ===== verification/BitmaskSet.thy ===== *)
theory BitmaskSet
  imports IdPools
begin

text \<open>
  The operations on bit masks are those on a finite set of numbers.
\<close>

section \<open>Sizes that double\<close>

definition pow2_size :: "u32 \<Rightarrow> bool" where
  "pow2_size n \<longleftrightarrow> (\<exists>k \<le> 31. unat n = 2 ^ k)"

lemma pow2_size_facts:
  assumes "pow2_size n"
  shows "0 < unat n" "unat n \<le> 2 ^ 31" "unat n < 2 ^ 31 \<Longrightarrow> pow2_size (n * 2) \<and> unat (n * 2) = 2 * unat n"
    "unat n = 2 ^ 31 \<Longrightarrow> n * 2 = 0"
proof -
  obtain k where k: "k \<le> 31" "unat n = 2 ^ k" using assms unfolding pow2_size_def by blast
  show "0 < unat n" by (simp add: k)
  show "unat n \<le> 2 ^ 31" unfolding k(2) by (rule power_increasing) (use k in simp_all)
  show "pow2_size (n * 2) \<and> unat (n * 2) = 2 * unat n" if lt: "unat n < 2 ^ 31"
  proof -
    have d: "unat (n * 2) = 2 * unat n" using lt by (simp add: unat_word_ariths)
    have "k < 31" using lt unfolding k(2) by (rule power_less_imp_less_exp [rotated]) simp
    then show ?thesis unfolding pow2_size_def d k(2) by (intro conjI exI [of _ "Suc k"]) simp_all
  qed
  show "n * 2 = 0" if "unat n = 2 ^ 31"
  proof -
    have "unat (n * 2) = 0" by (simp add: unat_word_ariths that)
    then show ?thesis by (simp only: unat_eq_zero)
  qed
qed

lemma bitmask_grow_result:
  assumes "pow2_size n" "bits \<le> n" "0 < bits"
  shows "\<exists>r. bitmask_grow bits m n = Some r \<and>
    (case r of None \<Rightarrow> 2 ^ 31 < unat m | Some s \<Rightarrow> pow2_size s \<and> n \<le> s \<and> m \<le> s)"
  using assms
proof (induction "2 ^ 31 - unat n" arbitrary: n rule: less_induct)
  case less
  note p = pow2_size_facts [OF less.prems(1)]
  show ?case
  proof (cases "n < m")
    case False
    then show ?thesis using less.prems by (subst bitmask_grow.simps) simp
  next
    case nm: True
    show ?thesis
    proof (cases "unat n < 2 ^ 31")
      case True
      note d = p(3) [OF True]
      then have le: "n \<le> n * 2" by (simp add: word_le_nat_alt)
      then have b: "bits \<le> n * 2" using less.prems(2) by order
      have "2 ^ 31 - unat (n * 2) < 2 ^ 31 - unat n" using d p(1) True by simp
      from less.hyps [OF this] d b less.prems(3) obtain r where
        "bitmask_grow bits m (n * 2) = Some r"
        "case r of None \<Rightarrow> 2 ^ 31 < unat m | Some s \<Rightarrow> pow2_size s \<and> n * 2 \<le> s \<and> m \<le> s" by blast
      moreover have "bitmask_grow bits m n = bitmask_grow bits m (n * 2)"
        using nm b by (subst bitmask_grow.simps) (use b in \<open>simp add: linorder_not_less [THEN iffD2]\<close>)
      ultimately show ?thesis using le by (auto split: option.splits)
    next
      case False
      then have n: "unat n = 2 ^ 31" using p(2) by simp
      then have "bitmask_grow bits m n = Some None"
        using nm p(4) less.prems(3) by (subst bitmask_grow.simps) simp
      then show ?thesis using nm n by (simp add: word_less_nat_alt)
    qed
  qed
qed

lemma handle_grow_result:
  assumes "pow2_size n" "unat m < 2 ^ 31"
  shows "\<exists>s. handle_grow m n = Some s \<and> pow2_size s \<and> n \<le> s \<and> m < s"
  using assms(1)
proof (induction "2 ^ 31 - unat n" arbitrary: n rule: less_induct)
  case less
  note p = pow2_size_facts [OF less.prems]
  show ?case
  proof (cases "m < n")
    case True
    then show ?thesis using less.prems by (subst handle_grow.simps) simp
  next
    case nm: False
    then have lt: "unat n < 2 ^ 31" using assms(2) by (simp add: word_less_nat_alt)
    note d = p(3) [OF this]
    have le: "n \<le> n * 2" using d by (simp add: word_le_nat_alt)
    have "2 ^ 31 - unat (n * 2) < 2 ^ 31 - unat n" using d p(1) lt by simp
    from less.hyps [OF this] d obtain s where "handle_grow m (n * 2) = Some s" "pow2_size s" "n * 2 \<le> s" "m < s" by blast
    moreover have "handle_grow m n = handle_grow m (n * 2)" using nm by (subst handle_grow.simps) simp
    ultimately show ?thesis using le by auto
  qed
qed

text \<open>Past \<open>2 ^ 31\<close> the doubling wraps to zero and never ends.\<close>

lemma handle_grow_hangs:
  assumes "pow2_size n \<or> n = 0" "2 ^ 31 \<le> unat m"
  shows "handle_grow m n = None"
proof (rule ccontr)
  assume "handle_grow m n \<noteq> None"
  then obtain y where y: "handle_grow m n = Some y" by blast
  have "\<not> ((pow2_size n \<or> n = 0) \<and> 2 ^ 31 \<le> unat m)"
  proof (rule handle_grow.raw_induct [where P = "\<lambda>m n y. \<not> ((pow2_size n \<or> n = 0) \<and> 2 ^ 31 \<le> unat m)", OF _ y])
    fix f and m n y :: u32
    assume IH: "\<And>m n y. f m n = Some y \<Longrightarrow> \<not> ((pow2_size n \<or> n = 0) \<and> 2 ^ 31 \<le> unat m)"
      and run: "(if m < n then Some n else f m (n * 2)) = Some y"
    show "\<not> ((pow2_size n \<or> n = 0) \<and> 2 ^ 31 \<le> unat m)"
    proof
      assume a: "(pow2_size n \<or> n = 0) \<and> 2 ^ 31 \<le> unat m"
      then have "\<not> m < n" using pow2_size_facts(2) [of n] by (auto simp: word_less_nat_alt)
      then have "f m (n * 2) = Some y" using run by simp
      moreover have "pow2_size (n * 2) \<or> n * 2 = 0"
      proof (cases "n = 0")
        case False
        then have "pow2_size n" using a by simp
        then show ?thesis using pow2_size_facts(2-4) [of n] by (auto simp: le_less)
      qed simp
      ultimately show False using IH a by blast
    qed
  qed
  then show False using assms by blast
qed

section \<open>Scanning words\<close>

lemma and_bit_iff: "w AND push_bit b 1 \<noteq> 0 \<longleftrightarrow> bit (w :: u32) b"
  by (simp add: bit_iff_and_push_bit_not_eq_0)

lemma and_power_iff: "w AND 2 ^ b \<noteq> 0 \<longleftrightarrow> bit (w :: u32) b"
  using and_bit_iff [of w b] by simp

lemma scan_bits_result:
  assumes "b \<le> 32" "scan_bits hit w b (push_bit b 1) idx = (f, msk, i)"
  shows "if f then \<exists>j. b \<le> j \<and> j < 32 \<and> hit (bit w j) \<and> (\<forall>k. b \<le> k \<and> k < j \<longrightarrow> \<not> hit (bit w k)) \<and>
      msk = push_bit j 1 \<and> i = idx + of_nat j - of_nat b
    else (\<forall>k. b \<le> k \<and> k < 32 \<longrightarrow> \<not> hit (bit w k)) \<and> i = idx + 32 - of_nat b"
  using assms
proof (induction "32 - b" arbitrary: b idx)
  case 0
  then have "b = 32" by simp
  then show ?case using 0 by (subst (asm) scan_bits.simps) auto
next
  case (Suc d)
  then have lt: "b < 32" by simp
  show ?case
  proof (cases "hit (bit w b)")
    case True
    then have "f \<and> msk = push_bit b 1 \<and> i = idx"
      using Suc.prems(2) lt by (subst (asm) scan_bits.simps) (auto simp: and_power_iff)
    then show ?thesis using True lt by (auto intro!: exI [of _ b])
  next
    case False
    have "scan_bits hit w (b + 1) (push_bit (b + 1) 1) (idx + 1) = (f, msk, i)"
      using Suc.prems(2) lt False
      by (subst (asm) scan_bits.simps) (auto simp: and_power_iff mult.commute)
    moreover have "d = 32 - (b + 1)" "b + 1 \<le> 32" using Suc.hyps(2) lt by simp_all
    ultimately have IH: "if f then \<exists>j. b + 1 \<le> j \<and> j < 32 \<and> hit (bit w j) \<and> (\<forall>k. b + 1 \<le> k \<and> k < j \<longrightarrow> \<not> hit (bit w k)) \<and>
      msk = push_bit j 1 \<and> i = idx + 1 + of_nat j - of_nat (b + 1)
    else (\<forall>k. b + 1 \<le> k \<and> k < 32 \<longrightarrow> \<not> hit (bit w k)) \<and> i = idx + 1 + 32 - of_nat (b + 1)"
      using Suc.hyps(1) by blast
    have skip: "b < k" if "b \<le> k" "hit (bit w k)" for k using that False by (cases "k = b") auto
    show ?thesis
    proof (cases f)
      case True
      then obtain j where j: "b + 1 \<le> j" "j < 32" "hit (bit w j)" "\<forall>k. b + 1 \<le> k \<and> k < j \<longrightarrow> \<not> hit (bit w k)"
        "msk = push_bit j 1" "i = idx + of_nat j - of_nat b"
        using IH by auto
      have "\<not> hit (bit w k)" if "b \<le> k \<and> k < j" for k using j(4) skip [of k] that by auto
      then have "b \<le> j \<and> j < 32 \<and> hit (bit w j) \<and> (\<forall>k. b \<le> k \<and> k < j \<longrightarrow> \<not> hit (bit w k)) \<and>
        msk = push_bit j 1 \<and> i = idx + of_nat j - of_nat b" using j by (simp del: push_bit_of_1)
      then show ?thesis using True by auto
    next
      case f: False
      then have "\<forall>k. b + 1 \<le> k \<and> k < 32 \<longrightarrow> \<not> hit (bit w k)" "i = idx + 32 - of_nat b"
        using IH by auto
      moreover from this have "\<not> hit (bit w k)" if "b \<le> k \<and> k < 32" for k using skip [of k] that by auto
      ultimately show ?thesis using f by simp
    qed
  qed
qed

lemma scan_words_result:
  assumes "p \<le> 32 * n" "scan_words hit x (32 * n) (p div 32) (p mod 32) (push_bit (p mod 32) 1) (of_nat p) = (f, word, msk, i)"
  shows "if f then \<exists>q. p \<le> q \<and> q < 32 * n \<and> hit (bit (x ! (q div 32)) (q mod 32)) \<and>
      (\<forall>k. p \<le> k \<and> k < q \<longrightarrow> \<not> hit (bit (x ! (k div 32)) (k mod 32))) \<and>
      word = q div 32 \<and> msk = push_bit (q mod 32) 1 \<and> i = of_nat q
    else (\<forall>k. p \<le> k \<and> k < 32 * n \<longrightarrow> \<not> hit (bit (x ! (k div 32)) (k mod 32))) \<and> word = n \<and> msk = 1 \<and> i = of_nat (32 * n)"
  using assms
proof (induction "n - p div 32" arbitrary: p)
  case 0
  then have "p = 32 * n" by (metis diff_is_0_eq div_mult_self1_is_m dual_order.antisym mult_le_cancel1 nonzero_mult_div_cancel_left times_div_less_eq_dividend order_trans zero_neq_numeral)
  then show ?case using 0 by (subst (asm) scan_words.simps) auto
next
  case (Suc d)
  let ?w = "p div 32"
  have lt: "?w < n" using Suc.hyps(2) by simp
  obtain f0 m0 i0 where s: "scan_bits hit (x ! ?w) (p mod 32) (push_bit (p mod 32) 1) (of_nat p) = (f0, m0, i0)"
    by (cases "scan_bits hit (x ! ?w) (p mod 32) (push_bit (p mod 32) 1) (of_nat p)") auto
  have pm: "?w * 32 + p mod 32 = p" by simp
  note b = scan_bits_result [OF _ s]
  show ?case
  proof (cases f0)
    case True
    then obtain j where j: "p mod 32 \<le> j" "j < 32" "hit (bit (x ! ?w) j)"
      "\<forall>k. p mod 32 \<le> k \<and> k < j \<longrightarrow> \<not> hit (bit (x ! ?w) k)" "m0 = push_bit j 1" "i0 = of_nat p + of_nat j - of_nat (p mod 32)"
      using b by auto
    let ?q = "?w * 32 + j"
    have res: "f" "word = ?w" "msk = m0" "i = i0"
      using Suc.prems(2) lt s True by (subst (asm) scan_words.simps; auto)+
    have q: "?q div 32 = ?w" "?q mod 32 = j" using j(2) by simp_all
    have le: "p \<le> ?q" using j(1) pm by linarith
    have "?q < 32 * n" using lt j(2) by linarith
    moreover have "\<not> hit (bit (x ! (k div 32)) (k mod 32))" if "p \<le> k" "k < ?q" for k
    proof -
      have "k div 32 = ?w"
        using that j(2) pm by (intro div_nat_eqI) simp_all
      then show ?thesis using j(4) that pm by (metis add_less_cancel_left div_mult_mod_eq nat_add_left_cancel_le)
    qed
    moreover have "i0 = of_nat ?q"
    proof -
      have "?q + p mod 32 = p + j" using pm by linarith
      then have "of_nat ?q + of_nat (p mod 32) = (of_nat p + of_nat j :: u32)" by (metis of_nat_add)
      then show ?thesis unfolding j(6) by (simp only: eq_diff_eq diff_eq_eq)
    qed
    ultimately show ?thesis using res q le j(3,5) by (auto intro!: exI [of _ ?q])
  next
    case False
    then have none: "\<forall>k. p mod 32 \<le> k \<and> k < 32 \<longrightarrow> \<not> hit (bit (x ! ?w) k)" "i0 = of_nat p + 32 - of_nat (p mod 32)"
      using b by auto
    let ?p = "32 * (?w + 1)"
    have "?p + p mod 32 = p + 32" by presburger
    then have "of_nat ?p + of_nat (p mod 32) = (of_nat p + of_nat 32 :: u32)" by (metis of_nat_add)
    then have i0: "i0 = of_nat ?p" unfolding none(2) by (simp only: diff_eq_eq of_nat_numeral)
    have "scan_words hit x (32 * n) (?p div 32) (?p mod 32) (push_bit (?p mod 32) 1) (of_nat ?p) = (f, word, msk, i)"
      using Suc.prems(2) lt s False by (subst (asm) scan_words.simps) (simp add: i0)
    note IH = Suc.hyps(1) [OF _ _ this]
    have skip: "?p \<le> k" if "p \<le> k" "hit (bit (x ! (k div 32)) (k mod 32))" for k
    proof (rule ccontr)
      assume "\<not> ?p \<le> k"
      then have "k div 32 < ?w + 1" by (intro less_mult_imp_div_less) simp
      then have "k div 32 = ?w" using div_le_mono [OF that(1), of 32] by simp
      moreover from this have "p mod 32 \<le> k mod 32" using that(1) by (metis div_mult_mod_eq nat_add_left_cancel_le)
      ultimately show False using none(1) that(2) by auto
    qed
    have "p \<le> ?p" by presburger
    have le: "?p \<le> 32 * n" using lt by simp
    have d: "d = n - ?p div 32" using Suc.hyps(2) by simp
    note IH = IH [OF d le]
    show ?thesis
    proof (cases f)
      case True
      then obtain q where "?p \<le> q \<and> q < 32 * n \<and> hit (bit (x ! (q div 32)) (q mod 32)) \<and>
          (\<forall>k. ?p \<le> k \<and> k < q \<longrightarrow> \<not> hit (bit (x ! (k div 32)) (k mod 32))) \<and>
          word = q div 32 \<and> msk = push_bit (q mod 32) 1 \<and> i = of_nat q"
        using IH by auto
      then show ?thesis using True skip \<open>p \<le> ?p\<close> by (intro iffD2 [OF if_P] exI [of _ q]) (auto dest: order_trans)
    next
      case False
      then show ?thesis using IH skip by auto
    qed
  qed
qed

section \<open>Bit masks as sets\<close>

lemma unat_next: "x < (y :: u32) \<Longrightarrow> unat (x + 1) = unat x + 1"
  using unsigned_less [of y, where 'a = nat] by (subst unat_Suc_less) (simp_all add: word_less_nat_alt)

lemma unat_nonzero_Suc:
  assumes "x + 1 \<noteq> (0 :: u32)"
  shows "unat (x + 1) = Suc (unat x)"
proof (cases "Suc (unat x) < 2 ^ 32")
  case False
  then have "unat x = 2 ^ 32 - 1" using unsigned_less [of x, where 'a = nat] by simp
  then have "unat (x + 1) = 0" by (simp add: unat_word_ariths)
  then show ?thesis using assms by (simp only: unat_eq_zero)
qed (simp add: unat_Suc_less)

definition bitmask_set :: "util_bitmask \<Rightarrow> nat set" where
  "bitmask_set bm = members (bm_words bm)"

definition bitmask_inv :: "util_bitmask \<Rightarrow> bool" where
  "bitmask_inv bm \<longleftrightarrow> unat (bm_size bm) = 32 * length (bm_words bm) \<and> pow2_size (bm_size bm) \<and>
     bm_filled bm \<le> bm_size bm \<and> {..< unat (bm_filled bm)} \<subseteq> bitmask_set bm"

lemma bitmask_invD:
  assumes "bitmask_inv bm"
  shows "unat (bm_size bm) = 32 * length (bm_words bm)" "pow2_size (bm_size bm)" "unat (bm_filled bm) \<le> unat (bm_size bm)"
    "{..< unat (bm_filled bm)} \<subseteq> bitmask_set bm" "\<And>i. i \<in> bitmask_set bm \<Longrightarrow> i < unat (bm_size bm)"
  using assms by (auto simp: bitmask_inv_def word_le_nat_alt bitmask_set_def members_bounded)

lemma bitmask_filled_member: "bitmask_inv bm \<Longrightarrow> i < bm_filled bm \<Longrightarrow> unat i \<in> bitmask_set bm"
  using bitmask_invD(4) by (auto simp: word_less_nat_alt)

lemma bitmask_create_inv:
  "util_bitmask_create malloc_ok calloc_ok = Some bm \<Longrightarrow> bitmask_inv bm \<and> bitmask_set bm = {}"
proof -
  assume "util_bitmask_create malloc_ok calloc_ok = Some bm"
  then have bm: "bm = \<lparr>bm_words = [] @ replicate 16 0, bm_size = 512, bm_filled = 0\<rparr>"
    by (auto simp: util_bitmask_create_def split: if_splits)
  have "members [] = {}" by (simp add: members_def)
  then have "members ([] @ replicate 16 0) = {}" by (simp only: members_grow)
  then have "bitmask_set bm = {}" by (simp add: bm bitmask_set_def)
  moreover have "pow2_size 512" unfolding pow2_size_def by (rule exI [of _ 9]) simp
  ultimately show ?thesis by (simp add: bitmask_inv_def bm)
qed

lemma bitmask_resize_result:
  assumes "bitmask_inv bm"
  shows "\<exists>ok bm'. util_bitmask_resize r i bm = Some (ok, bm') \<and> bitmask_inv bm' \<and> bitmask_set bm' = bitmask_set bm \<and>
    bm_filled bm' = bm_filled bm \<and> bm_size bm \<le> bm_size bm' \<and>
    (if ok then i < bm_size bm' else bm' = bm \<and> (\<not> r \<or> 2 ^ 31 \<le> unat i))"
proof -
  note inv = bitmask_invD [OF assms]
  consider "i + 1 = 0" | "i + 1 \<noteq> 0" "i + 1 \<le> bm_size bm" | "i + 1 \<noteq> 0" "bm_size bm < i + 1" by (meson not_le)
  then show ?thesis
  proof cases
    case 1
    then have "i + 1 = 0xffffffff + 1" by simp
    then have i: "i = 0xffffffff" by (simp only: add_right_cancel)
    have "util_bitmask_resize r i bm = Some (False, bm)" "2 ^ 31 \<le> unat i"
      using 1 by (simp add: util_bitmask_resize_def) (simp add: i)
    then show ?thesis using assms by (intro exI [of _ False] exI [of _ bm]) simp
  next
    case 2
    have "unat (i + 1) = Suc (unat i)" using 2(1) by (rule unat_nonzero_Suc)
    then have "i < bm_size bm" using 2(2) by (simp add: word_le_nat_alt word_less_nat_alt)
    then show ?thesis using 2 assms
      by (intro exI [of _ True] exI [of _ bm]) (simp add: util_bitmask_resize_def)
  next
    case 3
    have pos: "0 < bm_size bm" using pow2_size_facts(1) [OF inv(2)] by (simp add: word_gt_0 unat_gt_0)
    have u: "unat (i + 1) = unat i + 1" using unat_nonzero_Suc [OF 3(1)] by simp
    obtain g where g: "bitmask_grow (bm_size bm) (i + 1) (bm_size bm) = Some g"
      "case g of None \<Rightarrow> 2 ^ 31 < unat (i + 1) | Some s \<Rightarrow> pow2_size s \<and> bm_size bm \<le> s \<and> i + 1 \<le> s"
      using bitmask_grow_result [OF inv(2) order_refl pos] by blast
    show ?thesis
    proof (cases "g = None \<or> \<not> r")
      case True
      then have "util_bitmask_resize r i bm = Some (False, bm)"
        using 3 g(1) by (auto simp: util_bitmask_resize_def Let_def not_le split: option.splits)
      moreover have "\<not> r \<or> 2 ^ 31 \<le> unat i" using True g(2) u by auto
      ultimately show ?thesis using assms by (intro exI [of _ False] exI [of _ bm]) simp
    next
      case False
      then obtain s where s: "g = Some s" "pow2_size s" "bm_size bm \<le> s" "i + 1 \<le> s" using g(2) by auto
      let ?w = "bm_words bm @ replicate (unat ((s - bm_size bm) div 32)) 0"
      let ?bm = "bm\<lparr>bm_words := ?w, bm_size := s\<rparr>"
      have run: "util_bitmask_resize r i bm = Some (True, ?bm)"
        using 3 g(1) s(1) False by (auto simp: util_bitmask_resize_def Let_def not_le)
      have "unat s = 32 * length ?w"
      proof -
        have "32 dvd unat s"
        proof -
          obtain k where k: "unat s = 2 ^ k" using s(2) unfolding pow2_size_def by blast
          have "0 < length (bm_words bm)" using pos inv(1) by (auto simp: word_less_nat_alt)
          then have "32 * 1 \<le> 32 * length (bm_words bm)" by (intro mult_le_mono2) (simp add: Suc_le_eq)
          also have "\<dots> \<le> 2 ^ k" using inv(1) s(3) k by (simp add: word_le_nat_alt)
          finally have "2 ^ 5 \<le> (2 :: nat) ^ k" by simp
          then have "5 \<le> k" by (rule power_le_imp_le_exp [rotated]) simp
          then have "(2 :: nat) ^ 5 dvd 2 ^ k" by (rule le_imp_power_dvd)
          then show ?thesis using k by simp
        qed
        moreover have "unat (s - bm_size bm) = unat s - unat (bm_size bm)"
          using s(3) by (simp add: unat_sub)
        moreover have "unat (bm_size bm) \<le> unat s" using s(3) by (simp add: word_le_nat_alt)
        ultimately show ?thesis using inv(1) by (auto simp: unat_div32 elim!: dvdE)
      qed
      moreover have "bitmask_set ?bm = bitmask_set bm" by (simp add: bitmask_set_def)
      ultimately have "bitmask_inv ?bm" using assms s(2,3) by (auto simp: bitmask_inv_def)
      moreover have "i < s" using s(4) u by (simp add: word_le_nat_alt word_less_nat_alt)
      ultimately show ?thesis using run s(3) \<open>bitmask_set ?bm = _\<close> by auto
    qed
  qed
qed

lemma word_bit_index:
  assumes "unat (bm_size bm) = 32 * length (bm_words bm)" "i < bm_size bm"
  shows "unat (i div 32) < length (bm_words bm)" "unat i < 32 * length (bm_words bm)"
    "unat (i div 32) = unat i div 32" "unat (i mod 32) = unat i mod 32"
  using assms by (simp_all add: word_less_nat_alt unat_div32 unat_mod32 div32_less)

lemma bitmask_set_result:
  assumes "bitmask_inv bm"
  shows "\<exists>res bm'. util_bitmask_set r i bm = Some (res, bm') \<and> bitmask_inv bm' \<and>
    (if res = UTIL_BITMASK_INVALID_INDEX then bitmask_set bm' = bitmask_set bm \<and> (\<not> r \<or> 2 ^ 31 \<le> unat i)
     else res = i \<and> bitmask_set bm' = insert (unat i) (bitmask_set bm))"
proof -
  obtain ok b where b: "util_bitmask_resize r i bm = Some (ok, b)" "bitmask_inv b" "bitmask_set b = bitmask_set bm"
    "if ok then i < bm_size b else b = bm \<and> (\<not> r \<or> 2 ^ 31 \<le> unat i)"
    using bitmask_resize_result [OF assms, of r i] by blast
  note inv = bitmask_invD [OF b(2)]
  show ?thesis
  proof (cases ok)
    case False
    then show ?thesis using b by (simp add: util_bitmask_set_def)
  next
    case True
    then have lt: "i < bm_size b" using b(4) by simp
    note ix = word_bit_index [OF inv(1) lt]
    let ?w = "(bm_words b)[unat i div 32 := bm_words b ! (unat i div 32) OR push_bit (unat i mod 32) 1]"
    let ?b = "util_bitmask_filled_set i (b\<lparr>bm_words := ?w\<rparr>)"
    have m: "members ?w = insert (unat i) (bitmask_set b)"
      unfolding bitmask_set_def by (rule members_set) (rule ix(2))
    have f: "bm_words ?b = ?w" "bm_size ?b = bm_size b"
      "bm_filled ?b = (if i = bm_filled b then bm_filled b + 1 else bm_filled b)"
      by (auto simp: util_bitmask_filled_set_def)
    have s: "bitmask_set ?b = insert (unat i) (bitmask_set b)" unfolding bitmask_set_def f(1) using m by (simp add: bitmask_set_def)
    have "unat (bm_filled b + 1) = unat (bm_filled b) + 1" if "i = bm_filled b"
      using unat_next [OF lt] that by simp
    then have "bitmask_inv ?b"
      using inv lt s unfolding bitmask_inv_def f
      by (auto simp: word_le_nat_alt word_less_nat_alt less_Suc_eq)
    moreover have "util_bitmask_set r i bm = Some (i, ?b)"
      using b(1) True ix by (simp add: util_bitmask_set_def Let_def)
    moreover have "i \<noteq> UTIL_BITMASK_INVALID_INDEX"
      using lt by (auto simp: UTIL_BITMASK_INVALID_INDEX_def)
    ultimately show ?thesis using s b(3) by simp
  qed
qed

lemma bitmask_clear_result:
  assumes "bitmask_inv bm"
  shows "\<exists>bm'. util_bitmask_clear i bm = Some bm' \<and> bitmask_inv bm' \<and> bitmask_set bm' = bitmask_set bm - {unat i}"
proof -
  note inv = bitmask_invD [OF assms]
  show ?thesis
  proof (cases "bm_size bm \<le> i")
    case True
    then have "unat i \<notin> bitmask_set bm" using inv(5) [of "unat i"] by (auto simp: word_le_nat_alt)
    then show ?thesis using True assms by (simp add: util_bitmask_clear_def)
  next
    case False
    then have lt: "i < bm_size bm" by simp
    note ix = word_bit_index [OF inv(1) lt]
    let ?w = "(bm_words bm)[unat i div 32 := bm_words bm ! (unat i div 32) AND NOT (push_bit (unat i mod 32) 1)]"
    let ?b = "util_bitmask_filled_unset i (bm\<lparr>bm_words := ?w\<rparr>)"
    have m: "members ?w = bitmask_set bm - {unat i}"
      unfolding bitmask_set_def by (rule members_clear) (rule ix(2))
    have f: "bm_words ?b = ?w" "bm_size ?b = bm_size bm" "bm_filled ?b = (if i < bm_filled bm then i else bm_filled bm)"
      by (auto simp: util_bitmask_filled_unset_def)
    have s: "bitmask_set ?b = bitmask_set bm - {unat i}" unfolding bitmask_set_def f(1) using m by (simp add: bitmask_set_def)
    then have "bitmask_inv ?b"
      using inv lt unfolding bitmask_inv_def f by (auto simp: word_le_nat_alt word_less_nat_alt subset_iff split: if_splits)
    moreover have "util_bitmask_clear i bm = Some ?b"
      using lt ix by (simp add: util_bitmask_clear_def Let_def)
    ultimately show ?thesis using s by blast
  qed
qed

lemma bitmask_fill_next:
  assumes "bitmask_inv bm" "unat (bm_filled bm) \<in> bitmask_set bm"
  shows "bitmask_inv (bm\<lparr>bm_filled := bm_filled bm + 1\<rparr>)"
proof -
  note inv = bitmask_invD [OF assms(1)]
  have lt: "unat (bm_filled bm) < unat (bm_size bm)" using inv(5) [OF assms(2)] .
  then have "unat (bm_filled bm + 1) = unat (bm_filled bm) + 1"
    by (intro unat_next [of _ "bm_size bm"]) (simp add: word_less_nat_alt)
  then show ?thesis using inv assms(2) lt less_Suc_eq
    unfolding bitmask_inv_def by (auto simp: bitmask_set_def word_le_nat_alt Suc_le_eq less_Suc_eq)
qed

lemma bitmask_get_result:
  assumes "bitmask_inv bm"
  shows "\<exists>bm'. util_bitmask_get i bm = Some (unat i \<in> bitmask_set bm, bm') \<and> bitmask_inv bm' \<and>
    bitmask_set bm' = bitmask_set bm"
proof -
  note inv = bitmask_invD [OF assms]
  consider "i < bm_filled bm" | "bm_filled bm \<le> i" "bm_size bm \<le> i" | "bm_filled bm \<le> i" "i < bm_size bm" by fastforce
  then show ?thesis
  proof cases
    case 1
    then have "unat i \<in> bitmask_set bm" by (rule bitmask_filled_member [OF assms])
    then show ?thesis using 1 assms by (simp add: util_bitmask_get_def Let_def)
  next
    case 2
    then have "unat i \<notin> bitmask_set bm" using inv(5) [of "unat i"] by (auto simp: word_le_nat_alt)
    then show ?thesis using 2 assms by (simp add: util_bitmask_get_def Let_def not_less)
  next
    case 3
    note ix = word_bit_index [OF inv(1) 3(2)]
    have "unat i \<in> bitmask_set bm \<longleftrightarrow> bm_words bm ! unat (i div 32) AND push_bit (unat (i mod 32)) 1 \<noteq> 0"
      unfolding bitmask_set_def members_iff and_bit_iff ix(3,4) using ix(2) by simp
    then have "util_bitmask_get i bm = Some (unat i \<in> bitmask_set bm,
        if unat i \<in> bitmask_set bm then util_bitmask_filled_set i bm else bm)"
      using 3 ix(1) by (auto simp: util_bitmask_get_def Let_def)
    moreover have "bitmask_inv (util_bitmask_filled_set i bm)" if "unat i \<in> bitmask_set bm"
      using that bitmask_fill_next [OF assms] assms by (auto simp: util_bitmask_filled_set_def)
    moreover have "bitmask_set (util_bitmask_filled_set i bm) = bitmask_set bm"
      by (simp add: util_bitmask_filled_set_def bitmask_set_def)
    ultimately show ?thesis using assms by auto
  qed
qed

lemma scan_from:
  assumes "unat (bm_size bm) = 32 * length (bm_words bm)" "i \<le> bm_size bm"
    "scan_words hit (bm_words bm) (unat (bm_size bm)) (unat (i div 32)) (unat (i mod 32)) (push_bit (unat (i mod 32)) 1) i
      = (f, word, msk, j)"
  shows "if f then unat i \<le> unat j \<and> j < bm_size bm \<and> hit (unat j \<in> bitmask_set bm) \<and>
      (\<forall>k. unat i \<le> k \<and> k < unat j \<longrightarrow> \<not> hit (k \<in> bitmask_set bm)) \<and>
      word = unat j div 32 \<and> msk = push_bit (unat j mod 32) 1
    else (\<forall>k. unat i \<le> k \<and> k < unat (bm_size bm) \<longrightarrow> \<not> hit (k \<in> bitmask_set bm)) \<and> j = bm_size bm \<and>
      word = unat j div 32 \<and> msk = push_bit (unat j mod 32) 1"
proof -
  let ?x = "bm_words bm"
  have le: "unat i \<le> 32 * length ?x" using assms(1,2) by (simp add: word_le_nat_alt)
  have m: "bit (?x ! (k div 32)) (k mod 32) \<longleftrightarrow> k \<in> bitmask_set bm" if "k < 32 * length ?x" for k
    using that by (simp add: bitmask_set_def members_iff)
  have small: "32 * length ?x < 2 ^ 32" using assms(1) unsigned_less [of "bm_size bm", where 'a = nat] by simp
  note scan = assms(3) [unfolded unat_div32 unat_mod32 assms(1)]
  have "scan_words hit ?x (32 * length ?x) (unat i div 32) (unat i mod 32) (push_bit (unat i mod 32) 1) (of_nat (unat i)) =
    (f, word, msk, j)" using scan by simp
  note res = scan_words_result [OF le this]
  show ?thesis
  proof (cases f)
    case True
    then obtain q where q: "unat i \<le> q" "q < 32 * length ?x" "hit (bit (?x ! (q div 32)) (q mod 32))"
      "\<forall>k. unat i \<le> k \<and> k < q \<longrightarrow> \<not> hit (bit (?x ! (k div 32)) (k mod 32))"
      "word = q div 32" "msk = push_bit (q mod 32) 1" "j = of_nat q" using res by auto
    have j: "unat j = q" unfolding q(7) using q(2) small by (intro unat_of_nat_less) simp
    then have "j < bm_size bm" using q(2) assms(1) by (simp add: word_less_nat_alt)
    moreover have "\<not> hit (k \<in> bitmask_set bm)" if k: "unat i \<le> k" "k < q" for k
    proof -
      have "\<not> hit (bit (?x ! (k div 32)) (k mod 32))" using q(4) k by blast
      then show ?thesis using m [of k] k(2) q(2) by simp
    qed
    ultimately show ?thesis using True q m [OF q(2)] j by simp
  next
    case False
    then have r: "\<forall>k. unat i \<le> k \<and> k < 32 * length ?x \<longrightarrow> \<not> hit (bit (?x ! (k div 32)) (k mod 32))" "word = length ?x"
      "msk = 1" "j = of_nat (32 * length ?x)" using res by auto
    have j: "unat j = 32 * length ?x" unfolding r(4) using small by (intro unat_of_nat_less) simp
    then have "j = bm_size bm" using assms(1) by (simp add: word_unat_eq_iff)
    moreover have "\<not> hit (k \<in> bitmask_set bm)" if k: "unat i \<le> k" "k < 32 * length ?x" for k
    proof -
      have "\<not> hit (bit (?x ! (k div 32)) (k mod 32))" using r(1) k by blast
      then show ?thesis using m [OF k(2)] by simp
    qed
    ultimately show ?thesis using False r(2,3) j assms(1) by simp
  qed
qed

lemma bitmask_add_result:
  assumes "bitmask_inv bm"
  shows "\<exists>i bm'. util_bitmask_add r bm = Some (i, bm') \<and> bitmask_inv bm' \<and>
    (if i = UTIL_BITMASK_INVALID_INDEX
     then bitmask_set bm' = bitmask_set bm \<and> bitmask_set bm = {..< unat (bm_size bm)} \<and> (\<not> r \<or> unat (bm_size bm) = 2 ^ 31)
     else unat i \<notin> bitmask_set bm \<and> {..< unat i} \<subseteq> bitmask_set bm \<and> bitmask_set bm' = insert (unat i) (bitmask_set bm))"
proof -
  note inv = bitmask_invD [OF assms]
  have le: "bm_filled bm \<le> bm_size bm" using inv(3) by (simp add: word_le_nat_alt)
  obtain f word msk j where s: "scan_words Not (bm_words bm) (unat (bm_size bm)) (unat (bm_filled bm div 32))
      (unat (bm_filled bm mod 32)) (push_bit (unat (bm_filled bm mod 32)) 1) (bm_filled bm) = (f, word, msk, j)"
    by (cases "scan_words Not (bm_words bm) (unat (bm_size bm)) (unat (bm_filled bm div 32))
      (unat (bm_filled bm mod 32)) (push_bit (unat (bm_filled bm mod 32)) 1) (bm_filled bm)") auto
  note res = scan_from [OF inv(1) le s]
  have at: "word = unat j div 32" "msk = push_bit (unat j mod 32) 1" "j \<le> bm_size bm"
    using res by (auto split: if_splits)
  have below: "k \<in> bitmask_set bm" if "k < unat j" for k
    using res inv(4) that by (cases "k < unat (bm_filled bm)") (auto split: if_splits simp: not_less)
  have new: "unat j \<notin> bitmask_set bm"
    using res inv(5) [of "unat j"] by (auto split: if_splits)
  let ?b = "bm\<lparr>bm_filled := j\<rparr>"
  have set: "bitmask_set ?b = bitmask_set bm" by (simp add: bitmask_set_def)
  then have "bitmask_inv ?b" using assms at(3) below by (auto simp: bitmask_inv_def)
  from bitmask_resize_result [OF this, of r j] obtain ok b where b:
    "util_bitmask_resize r j ?b = Some (ok, b)" "bitmask_inv b" "bitmask_set b = bitmask_set ?b" "bm_filled b = j"
    "if ok then j < bm_size b else b = ?b \<and> (\<not> r \<or> 2 ^ 31 \<le> unat j)"
    by auto
  note invb = bitmask_invD [OF b(2)]
  show ?thesis
  proof (cases ok)
    case False
    have run: "util_bitmask_add r bm = Some (UTIL_BITMASK_INVALID_INDEX, b)"
      using s b(1) False by (simp add: util_bitmask_add_def Let_def)
    have big: "\<not> r \<or> 2 ^ 31 \<le> unat j" using b(5) False by simp
    show ?thesis
    proof (cases f)
      case f: True
      then have "j < bm_size bm" using res by simp
      moreover have "util_bitmask_resize r j ?b = Some (True, ?b)" if "j < bm_size bm"
      proof -
        have u: "unat (j + 1) = unat j + 1" using unat_next [OF that] .
        then have "j + 1 \<noteq> 0" by auto
        moreover have "j + 1 \<le> bm_size bm" using that u by (simp add: word_le_nat_alt word_less_nat_alt)
        ultimately show ?thesis by (simp add: util_bitmask_resize_def)
      qed
      ultimately show ?thesis using b(1) False by simp
    next
      case f: False
      then have j: "j = bm_size bm" using res by simp
      then have "bitmask_set bm = {..< unat (bm_size bm)}" using below inv(5) by auto
      moreover have "\<not> r \<or> unat (bm_size bm) = 2 ^ 31"
        using big pow2_size_facts(2) [OF inv(2)] j by auto
      ultimately show ?thesis using run b(2,3) set by simp
    qed
  next
    case True
    then have lt: "j < bm_size b" using b(5) by simp
    note ix = word_bit_index [OF invb(1) lt]
    let ?w = "(bm_words b)[unat j div 32 := bm_words b ! (unat j div 32) OR push_bit (unat j mod 32) 1]"
    let ?b' = "b\<lparr>bm_words := ?w\<rparr>"
    have m: "bitmask_set ?b' = insert (unat j) (bitmask_set bm)"
      using members_set [OF ix(2)] b(3) set by (simp add: bitmask_set_def)
    have "bitmask_inv ?b'" using invb m b(3) set lt unfolding bitmask_inv_def by (auto simp: word_le_nat_alt)
    moreover have "unat (bm_filled ?b') \<in> bitmask_set ?b'" unfolding m using b(4) by simp
    ultimately have i: "bitmask_inv (?b'\<lparr>bm_filled := bm_filled ?b' + 1\<rparr>)" by (rule bitmask_fill_next)
    moreover have "bitmask_set (?b'\<lparr>bm_filled := bm_filled ?b' + 1\<rparr>) = insert (unat j) (bitmask_set bm)"
      using m by (simp add: bitmask_set_def)
    moreover have "util_bitmask_add r bm = Some (j, ?b'\<lparr>bm_filled := bm_filled ?b' + 1\<rparr>)"
      using s b(1,4) True ix at by (simp add: util_bitmask_add_def Let_def)
    moreover have "j \<noteq> UTIL_BITMASK_INVALID_INDEX" using lt by (auto simp: UTIL_BITMASK_INVALID_INDEX_def)
    ultimately show ?thesis using new below by auto
  qed
qed

lemma bitmask_next_result:
  assumes "bitmask_inv bm"
  shows "\<exists>j bm'. util_bitmask_get_next_index i bm = (j, bm') \<and> bitmask_inv bm' \<and> bitmask_set bm' = bitmask_set bm \<and>
    (if j = UTIL_BITMASK_INVALID_INDEX then \<forall>k \<in> bitmask_set bm. k < unat i
     else unat i \<le> unat j \<and> unat j \<in> bitmask_set bm \<and> (\<forall>k \<in> bitmask_set bm. unat i \<le> k \<longrightarrow> unat j \<le> k))"
proof -
  note inv = bitmask_invD [OF assms]
  have proper: "j \<noteq> UTIL_BITMASK_INVALID_INDEX" if "j < bm_size bm" for j
    using that by (auto simp: UTIL_BITMASK_INVALID_INDEX_def)
  consider "i < bm_filled bm" | "bm_filled bm \<le> i" "bm_size bm \<le> i" | "bm_filled bm \<le> i" "i < bm_size bm" by fastforce
  then show ?thesis
  proof cases
    case 1
    then have mem: "unat i \<in> bitmask_set bm" by (rule bitmask_filled_member [OF assms])
    have "i < bm_size bm" using inv(5) [OF mem] by (simp add: word_less_nat_alt)
    then show ?thesis using 1 mem assms proper [of i] by (simp add: util_bitmask_get_next_index_def Let_def)
  next
    case 2
    then have "\<forall>k \<in> bitmask_set bm. k < unat i" using inv(5) by (fastforce simp: word_le_nat_alt)
    moreover have "util_bitmask_get_next_index i bm = (UTIL_BITMASK_INVALID_INDEX, bm)"
      using 2 by (simp add: util_bitmask_get_next_index_def Let_def not_less [THEN iffD2])
    ultimately show ?thesis using assms by simp
  next
    case 3
    have n: "\<not> i < bm_filled bm" "\<not> bm_size bm \<le> i" using 3 by simp_all
    obtain f word msk j where s: "scan_words (\<lambda>c. c) (bm_words bm) (unat (bm_size bm)) (unat (i div 32))
        (unat (i mod 32)) (push_bit (unat (i mod 32)) 1) i = (f, word, msk, j)"
      by (cases "scan_words (\<lambda>c. c) (bm_words bm) (unat (bm_size bm)) (unat (i div 32))
        (unat (i mod 32)) (push_bit (unat (i mod 32)) 1) i") auto
    note res = scan_from [OF inv(1) order_less_imp_le [OF 3(2)] s]
    show ?thesis
    proof (cases f)
      case True
      let ?b = "if j = bm_filled bm then bm\<lparr>bm_filled := bm_filled bm + 1\<rparr> else bm"
      have j: "unat i \<le> unat j" "j < bm_size bm" "unat j \<in> bitmask_set bm"
        "\<forall>k. unat i \<le> k \<and> k < unat j \<longrightarrow> k \<notin> bitmask_set bm" using res True by auto
      have "bitmask_inv ?b" using bitmask_fill_next [OF assms] j(3) assms by auto
      moreover have "bitmask_set ?b = bitmask_set bm" by (simp add: bitmask_set_def)
      moreover have "util_bitmask_get_next_index i bm = (j, ?b)"
        using n s True by (simp add: util_bitmask_get_next_index_def Let_def)
      ultimately show ?thesis using j proper [OF j(2)] by (auto simp: not_less [symmetric])
    next
      case False
      then have "\<forall>k \<in> bitmask_set bm. k < unat i" using res inv(5) by (auto simp: not_le [symmetric])
      moreover have "util_bitmask_get_next_index i bm = (UTIL_BITMASK_INVALID_INDEX, bm)"
        using n s False by (simp add: util_bitmask_get_next_index_def Let_def)
      ultimately show ?thesis using assms by simp
    qed
  qed
qed

definition bitmask_take :: "bool \<Rightarrow> util_bitmask \<Rightarrow> (nat option \<times> util_bitmask) option" where
  "bitmask_take r bm = map_option (\<lambda>(i, bm). (if i = UTIL_BITMASK_INVALID_INDEX then None else Some (unat i), bm))
    (util_bitmask_add r bm)"

interpretation bm: id_pool bitmask_inv bitmask_set bitmask_take "\<lambda>i. util_bitmask_clear (of_nat i)"
proof
  fix bm bm' :: util_bitmask and r i
  assume inv: "bitmask_inv bm"
  show "bitmask_inv bm' \<and> i \<notin> bitmask_set bm \<and> bitmask_set bm' = insert i (bitmask_set bm)"
    if "bitmask_take r bm = Some (Some i, bm')"
    using that bitmask_add_result [OF inv, of r] by (auto simp: bitmask_take_def split: if_splits)
  show "bitmask_inv bm' \<and> bitmask_set bm' = bitmask_set bm" if "bitmask_take r bm = Some (None, bm')"
    using that bitmask_add_result [OF inv, of r] by (auto simp: bitmask_take_def split: if_splits)
  show "\<exists>s'. util_bitmask_clear (of_nat i) bm = Some s' \<and> bitmask_inv s' \<and> bitmask_set s' = bitmask_set bm - {i}"
    if "i \<in> bitmask_set bm"
  proof -
    have "i < unat (bm_size bm)" using bitmask_invD(5) [OF inv that] .
    then have "unat (of_nat i :: u32) = i"
      using unsigned_less [of "bm_size bm", where 'a = nat] by (intro unat_of_nat_less) simp
    then show ?thesis using bitmask_clear_result [OF inv, of "of_nat i"] by simp
  qed
qed

text \<open>C33. A bit mask implements a set of numbers: \<open>util_bitmask_add\<close> puts the smallest number that is
  not a member into it, \<open>util_bitmask_set\<close> and \<open>util_bitmask_clear\<close> change the one they are asked for,
  \<open>util_bitmask_get\<close> tells members, and \<open>util_bitmask_get_next_index\<close> gives the first member from an
  index on. Only a failed allocation or a number past \<open>2 ^ 31\<close> makes them return the invalid index, and
  then the set is unchanged.\<close>

theorem bitmask_refines_set:
  assumes "bitmask_inv bm"
  shows "(\<exists>j bm'. util_bitmask_add r bm = Some (j, bm') \<and> bitmask_inv bm' \<and>
      (if j = UTIL_BITMASK_INVALID_INDEX
       then bitmask_set bm' = bitmask_set bm \<and> bitmask_set bm = {..< unat (bm_size bm)} \<and> (\<not> r \<or> unat (bm_size bm) = 2 ^ 31)
       else unat j \<notin> bitmask_set bm \<and> {..< unat j} \<subseteq> bitmask_set bm \<and>
         bitmask_set bm' = insert (unat j) (bitmask_set bm))) \<and>
    (\<exists>res bm'. util_bitmask_set r i bm = Some (res, bm') \<and> bitmask_inv bm' \<and>
      (if res = UTIL_BITMASK_INVALID_INDEX then bitmask_set bm' = bitmask_set bm \<and> (\<not> r \<or> 2 ^ 31 \<le> unat i)
       else res = i \<and> bitmask_set bm' = insert (unat i) (bitmask_set bm))) \<and>
    (\<exists>bm'. util_bitmask_clear i bm = Some bm' \<and> bitmask_inv bm' \<and> bitmask_set bm' = bitmask_set bm - {unat i}) \<and>
    (\<exists>bm'. util_bitmask_get i bm = Some (unat i \<in> bitmask_set bm, bm') \<and> bitmask_inv bm' \<and>
      bitmask_set bm' = bitmask_set bm) \<and>
    (\<exists>j bm'. util_bitmask_get_next_index i bm = (j, bm') \<and> bitmask_inv bm' \<and> bitmask_set bm' = bitmask_set bm \<and>
      (if j = UTIL_BITMASK_INVALID_INDEX then \<forall>k \<in> bitmask_set bm. k < unat i
       else unat i \<le> unat j \<and> unat j \<in> bitmask_set bm \<and> (\<forall>k \<in> bitmask_set bm. unat i \<le> k \<longrightarrow> unat j \<le> k)))"
  by (intro conjI bitmask_add_result bitmask_set_result bitmask_clear_result bitmask_get_result
      bitmask_next_result assms)

theorem bitmask_refines_set_witness:
  "\<exists>bm bm'. util_bitmask_create True True = Some bm \<and> util_bitmask_add True bm = Some (0, bm') \<and>
    bitmask_set bm' = {0}"
proof -
  obtain bm where c: "util_bitmask_create True True = Some bm" by (simp add: util_bitmask_create_def)
  then have e: "bitmask_set bm = {}" "bitmask_inv bm" "bm_size bm \<noteq> 0"
    using bitmask_create_inv [OF c] by (auto simp: util_bitmask_create_def)
  then have "0 < unat (bm_size bm)" by (simp add: unat_gt_0)
  then have "{..< unat (bm_size bm)} \<noteq> {}" by blast
  then obtain j bm' where j: "util_bitmask_add True bm = Some (j, bm')" "{..< unat j} \<subseteq> {}" "bitmask_set bm' = {unat j}"
    using bitmask_refines_set [OF e(2), of True 0] e(1) by (auto split: if_splits)
  then have "unat j = 0" by (metis lessThan_empty_iff subset_empty bot_nat_def)
  then have "j = 0" by (simp only: unat_eq_zero)
  then show ?thesis using c j by simp
qed


end
