(* ===== verification/HandleMap.thy ===== *)
theory HandleMap
  imports BitmaskSet
begin

text \<open>
  The operations on handle tables are those on a map from handles to objects, and the runs of all three
  allocators hand out numbers that are not in use.
\<close>

section \<open>Handles as a map\<close>

definition handle_inv :: "'w handle_table \<Rightarrow> bool" where
  "handle_inv ht \<longleftrightarrow> length (hd_objects ht) = unat (hd_size ht) \<and> pow2_size (hd_size ht) \<and> hd_filled ht \<le> hd_size ht \<and>
     (\<forall>i < unat (hd_filled ht). hd_objects ht ! i \<noteq> NULL)"

text \<open>The map from handles, which count from one, to objects.\<close>

definition handle_map :: "'w handle_table \<Rightarrow> nat \<Rightarrow> ptr option" where
  "handle_map ht h = (if 0 < h \<and> h \<le> length (hd_objects ht) \<and> hd_objects ht ! (h - 1) \<noteq> NULL
     then Some (hd_objects ht ! (h - 1)) else None)"

text \<open>What the destructor of the table does to the world when it gets the object of a handle.\<close>

definition run_destroy :: "'w handle_table \<Rightarrow> ptr option \<Rightarrow> 'w \<Rightarrow> 'w" where
  "run_destroy ht obj w = (case obj of None \<Rightarrow> w | Some p \<Rightarrow> (case hd_destroy ht of None \<Rightarrow> w | Some d \<Rightarrow> d p w))"

lemma handle_invD:
  assumes "handle_inv ht"
  shows "length (hd_objects ht) = unat (hd_size ht)" "pow2_size (hd_size ht)" "unat (hd_filled ht) \<le> unat (hd_size ht)"
    "\<And>i. i < unat (hd_filled ht) \<Longrightarrow> hd_objects ht ! i \<noteq> NULL"
  using assms by (auto simp: handle_inv_def word_le_nat_alt)

lemma handle_map_Suc: "handle_map ht (Suc i) =
    (if i < length (hd_objects ht) \<and> hd_objects ht ! i \<noteq> NULL then Some (hd_objects ht ! i) else None)"
  by (auto simp: handle_map_def)

lemma handle_map_0 [simp]: "handle_map ht 0 = None"
  by (simp add: handle_map_def)

lemma handle_map_eqI:
  assumes "m 0 = None" "\<And>i. handle_map ht (Suc i) = m (Suc i)"
  shows "handle_map ht = m"
proof
  show "handle_map ht h = m h" for h using assms by (cases h) simp_all
qed

lemma handle_map_update:
  assumes "i < length (hd_objects ht)"
  shows "handle_map (ht\<lparr>hd_objects := (hd_objects ht)[i := p]\<rparr>) =
    (handle_map ht)(Suc i := if p = NULL then None else Some p)"
  using assms by (intro handle_map_eqI) (auto simp: handle_map_Suc nth_list_update)

lemma handle_inv_update:
  assumes "handle_inv ht" "p \<noteq> NULL \<or> unat (hd_filled ht) \<le> i"
  shows "handle_inv (ht\<lparr>hd_objects := (hd_objects ht)[i := p]\<rparr>)"
proof -
  note inv = handle_invD [OF assms(1)]
  have "(hd_objects ht)[i := p] ! j \<noteq> NULL" if "j < unat (hd_filled ht)" for j
    using that inv assms(2) by (cases "j = i") auto
  then show ?thesis using assms(1) by (simp add: handle_inv_def)
qed

lemma handle_create_inv:
  "handle_table_create malloc_ok calloc_ok = Some ht \<Longrightarrow> handle_inv ht \<and> handle_map ht = (\<lambda>_. None) \<and> hd_destroy ht = None"
proof -
  assume "handle_table_create malloc_ok calloc_ok = Some ht"
  then have ht: "ht = \<lparr>hd_objects = replicate 16 NULL, hd_size = 16, hd_filled = 0, hd_destroy = None\<rparr>"
    by (auto simp: handle_table_create_def split: if_splits)
  have "pow2_size 16" unfolding pow2_size_def by (rule exI [of _ 4]) simp
  moreover have "handle_map ht = (\<lambda>_. None)"
    by (intro handle_map_eqI) (auto simp: handle_map_Suc ht )
  ultimately show ?thesis by (simp add: handle_inv_def ht)
qed

lemma handle_resize_result:
  assumes "handle_inv ht"
  shows "if unat i < unat (hd_size ht) then handle_table_resize r i ht = Some (True, ht)
    else if 2 ^ 31 \<le> unat i then handle_table_resize r i ht = None
    else if r then \<exists>ht'. handle_table_resize r i ht = Some (True, ht') \<and> handle_inv ht' \<and> handle_map ht' = handle_map ht \<and>
      hd_filled ht' = hd_filled ht \<and> hd_destroy ht' = hd_destroy ht \<and> unat i < unat (hd_size ht') \<and>
      (\<forall>j < length (hd_objects ht). hd_objects ht' ! j = hd_objects ht ! j)
    else handle_table_resize r i ht = Some (False, ht)"
proof -
  note inv = handle_invD [OF assms]
  consider (small) "unat i < unat (hd_size ht)" | (big) "unat (hd_size ht) \<le> unat i" "2 ^ 31 \<le> unat i"
    | (grow) "unat (hd_size ht) \<le> unat i" "unat i < 2 ^ 31" by linarith
  then show ?thesis
  proof cases
    case small
    then show ?thesis by (simp add: handle_table_resize_def word_less_nat_alt)
  next
    case big
    have "handle_grow i (hd_size ht) = None"
      by (rule handle_grow_hangs) (use inv(2) big in auto)
    then show ?thesis using big by (simp add: handle_table_resize_def word_less_nat_alt)
  next
    case grow
    obtain s where s: "handle_grow i (hd_size ht) = Some s" "pow2_size s" "hd_size ht \<le> s" "i < s"
      using handle_grow_result [OF inv(2) grow(2)] by blast
    let ?ht = "ht\<lparr>hd_objects := hd_objects ht @ replicate (unat (s - hd_size ht)) NULL, hd_size := s\<rparr>"
    have run: "handle_table_resize r i ht = Some (if r then (True, ?ht) else (False, ht))"
      using grow(1) s(1) by (simp add: handle_table_resize_def word_less_nat_alt)
    have "unat (s - hd_size ht) = unat s - unat (hd_size ht)" "unat (hd_size ht) \<le> unat s"
      using s(3) by (simp_all add: unat_sub word_le_nat_alt)
    then have "handle_inv ?ht"
      using assms s(2,3) inv(3) by (auto simp: handle_inv_def word_le_nat_alt nth_append)
    moreover have "handle_map ?ht = handle_map ht"
      by (intro handle_map_eqI) (auto simp: handle_map_Suc nth_append)
    moreover have "unat i < unat s" using s(4) by (simp add: word_less_nat_alt)
    ultimately show ?thesis using grow run by (auto simp: nth_append)
  qed
qed

lemma handle_clear_result:
  assumes "i < length (hd_objects ht)"
  shows "handle_table_clear i ht w = Some (ht\<lparr>hd_objects := (hd_objects ht)[i := NULL]\<rparr>,
    run_destroy ht (handle_map ht (Suc i)) w)"
proof (cases "hd_objects ht ! i = NULL")
  case True
  then have "(hd_objects ht)[i := NULL] = hd_objects ht" by (metis list_update_id)
  then show ?thesis using assms True by (simp add: handle_table_clear_def handle_map_Suc run_destroy_def)
qed (use assms in \<open>simp add: handle_table_clear_def handle_map_Suc run_destroy_def Let_def\<close>)

lemma handle_number:
  assumes "h \<noteq> (0 :: u32)"
  shows "Suc (unat (h - 1)) = unat h" "unat (h - 1) = unat h - 1"
  using unat_minus_one_pos [of h] assms by (simp_all add: word_gt_0 unat_gt_0)

lemma handle_get_result:
  assumes "handle_inv ht"
  shows "handle_table_get h ht = Some (case handle_map ht (unat h) of None \<Rightarrow> NULL | Some p \<Rightarrow> p)"
proof (cases "h = 0")
  case False
  note n = handle_number(1) [OF False]
  have "hd_size ht < h \<longleftrightarrow> \<not> unat (h - 1) < length (hd_objects ht)"
    unfolding handle_invD(1) [OF assms] word_less_nat_alt using n by linarith
  then show ?thesis
    using False unfolding n [symmetric] by (simp add: handle_table_get_def handle_map_Suc)
qed (simp add: handle_table_get_def)

lemma handle_set_result:
  assumes "handle_inv ht" "h \<noteq> 0" "p \<noteq> NULL"
  shows "if unat h \<le> unat (hd_size ht) \<or> r \<and> unat h \<le> 2 ^ 31
    then \<exists>ht'. handle_table_set r h p ht w = Some (h, ht', run_destroy ht (handle_map ht (unat h)) w) \<and> handle_inv ht' \<and>
      handle_map ht' = (handle_map ht)(unat h \<mapsto> p)
    else if unat h \<le> 2 ^ 31 then handle_table_set r h p ht w = Some (0, ht, w)
    else handle_table_set r h p ht w = None"
proof -
  note n = handle_number [OF assms(2)]
  note res = handle_resize_result [OF assms(1), of "h - 1" r]
  have setok: "\<exists>ht'. handle_table_set r h p ht w = Some (h, ht', run_destroy ht (handle_map ht (unat h)) w) \<and>
      handle_inv ht' \<and> handle_map ht' = (handle_map ht)(unat h \<mapsto> p)"
    if b: "handle_table_resize r (h - 1) ht = Some (True, b)" "handle_inv b" "handle_map b = handle_map ht"
      "hd_destroy b = hd_destroy ht" "unat (h - 1) < unat (hd_size b)" for b
  proof -
    have l: "unat (h - 1) < length (hd_objects b)" using b(5) handle_invD(1) [OF b(2)] by simp
    let ?c = "b\<lparr>hd_objects := (hd_objects b)[unat (h - 1) := p]\<rparr>"
    have "run_destroy b = run_destroy ht" unfolding run_destroy_def b(4) ..
    then have "handle_table_set r h p ht w = Some (h, ?c, run_destroy ht (handle_map ht (unat h)) w)"
      using assms(2,3) b(1,3) handle_clear_result [OF l, of w] n(1)
      by (simp add: handle_table_set_def Let_def)
    moreover have "handle_inv ?c" by (rule handle_inv_update) (use b(2) assms(3) in auto)
    moreover have "handle_map ?c = (handle_map ht)(unat h \<mapsto> p)"
      using handle_map_update [OF l, of p] assms(3) b(3) n(1) by simp
    ultimately show ?thesis by blast
  qed
  consider (small) "unat h \<le> unat (hd_size ht)" | (grow) "unat (hd_size ht) < unat h" "unat h \<le> 2 ^ 31"
    | (hang) "unat (hd_size ht) < unat h" "2 ^ 31 < unat h" by linarith
  then show ?thesis
  proof cases
    case small
    then have "unat (h - 1) < unat (hd_size ht)" using n(1) by linarith
    then show ?thesis using setok [OF _ assms(1)] res small by simp
  next
    case grow
    then have "\<not> unat (h - 1) < unat (hd_size ht)" "\<not> 2 ^ 31 \<le> unat (h - 1)" using n(1) by linarith+
    then show ?thesis using res grow setok assms(2,3)
      by (cases r) (auto simp: handle_table_set_def)
  next
    case hang
    then have "\<not> unat (h - 1) < unat (hd_size ht)" "2 ^ 31 \<le> unat (h - 1)" using n(1) by linarith+
    then show ?thesis using res hang assms(2,3) by (simp add: handle_table_set_def)
  qed
qed

lemma handle_search_result:
  assumes "handle_inv ht"
  shows "unat (hd_filled ht) \<le> unat (handle_search ht) \<and> handle_search ht \<le> hd_size ht \<and>
    (\<forall>j < unat (handle_search ht). hd_objects ht ! j \<noteq> NULL) \<and>
    (handle_search ht < hd_size ht \<longrightarrow> hd_objects ht ! unat (handle_search ht) = NULL)"
proof -
  note inv = handle_invD [OF assms]
  have b: "unat (hd_size ht) < 2 ^ 32" using unsigned_less [of "hd_size ht", where 'a = nat] by simp
  show ?thesis
  proof (cases "find (\<lambda>i. hd_objects ht ! i = NULL) [unat (hd_filled ht) ..< unat (hd_size ht)]")
    case None
    have m: "handle_search ht = hd_size ht" using None inv(3) by (simp add: handle_search_def max_def word_le_nat_alt)
    have "hd_objects ht ! j \<noteq> NULL" if "j < unat (hd_size ht)" for j
      using None inv(4) [of j] that by (cases "j < unat (hd_filled ht)") (auto simp: find_None_iff)
    then show ?thesis using inv(3) unfolding m by simp
  next
    case (Some i)
    then obtain k where k: "k < unat (hd_size ht) - unat (hd_filled ht)" "hd_objects ht ! (unat (hd_filled ht) + k) = NULL"
      "i = unat (hd_filled ht) + k" "\<forall>j < k. hd_objects ht ! (unat (hd_filled ht) + j) \<noteq> NULL"
      by (auto simp: find_Some_iff)
    have i: "unat (handle_search ht) = i"
      unfolding handle_search_def Some option.case using k(1,3) b by (intro unat_of_nat_less) simp
    have "hd_objects ht ! j \<noteq> NULL" if "j < i" for j
      using inv(4) [of j] that k(3,4) by (cases "j < unat (hd_filled ht)") (auto dest!: spec [of _ "j - unat (hd_filled ht)"])
    then show ?thesis using k i by (auto simp: word_le_nat_alt word_less_nat_alt)
  qed
qed

lemma handle_add_result:
  assumes "handle_inv ht" "p \<noteq> NULL" "\<not> (\<forall>h. 0 < h \<and> h \<le> 2 ^ 31 \<longrightarrow> handle_map ht h \<noteq> None)"
  shows "\<exists>h ht'. handle_table_add r p ht = Some (h, ht') \<and> handle_inv ht' \<and> hd_destroy ht' = hd_destroy ht \<and>
    (if h = 0 then handle_map ht' = handle_map ht \<and> \<not> r
     else handle_map ht (unat h) = None \<and> (\<forall>j. 0 < j \<and> j < unat h \<longrightarrow> handle_map ht j \<noteq> None) \<and>
       handle_map ht' = (handle_map ht)(unat h \<mapsto> p))"
proof -
  note inv = handle_invD [OF assms(1)]
  let ?i = "handle_search ht"
  note s = handle_search_result [OF assms(1)]
  have below: "handle_map ht j \<noteq> None" if "0 < j" "j < Suc (unat ?i)" for j
    using that s inv(1) by (cases j) (auto simp: handle_map_Suc word_le_nat_alt)
  have free: "handle_map ht (Suc (unat ?i)) = None"
    using s inv(1) by (auto simp: handle_map_Suc word_less_nat_alt)
  have i31: "unat ?i < 2 ^ 31"
  proof (rule ccontr)
    assume "\<not> unat ?i < 2 ^ 31"
    then have "handle_map ht h \<noteq> None" if "0 < h" "h \<le> 2 ^ 31" for h using below [of h] that by simp
    then show False using assms(3) by blast
  qed
  have h: "unat (?i + 1) = Suc (unat ?i)" using i31 by (intro unat_Suc_less) simp
  then have h0: "?i + 1 \<noteq> 0" by auto
  let ?ht = "ht\<lparr>hd_filled := ?i\<rparr>"
  have obj: "handle_map ?ht = handle_map ht" by (simp add: fun_eq_iff handle_map_def)
  have inv1: "handle_inv ?ht" using assms(1) s by (auto simp: handle_inv_def)
  have add: "\<exists>ht'. handle_table_add r p ht = Some (?i + 1, ht') \<and> handle_inv ht' \<and> hd_destroy ht' = hd_destroy ht \<and>
      handle_map ht' = (handle_map ht)(unat (?i + 1) \<mapsto> p)"
    if b: "handle_table_resize r ?i ?ht = Some (True, b)" "handle_inv b" "handle_map b = handle_map ht"
      "hd_destroy b = hd_destroy ht" "hd_filled b = ?i" "unat ?i < unat (hd_size b)" for b
  proof -
    have l: "unat ?i < length (hd_objects b)" using b(6) handle_invD(1) [OF b(2)] by simp
    let ?c = "b\<lparr>hd_objects := (hd_objects b)[unat ?i := p]\<rparr>"
    have c: "handle_inv ?c" by (rule handle_inv_update) (use b(2) assms(2) in auto)
    have "handle_inv (?c\<lparr>hd_filled := hd_filled b + 1\<rparr>)"
      using c b(5,6) h l assms(2) by (auto simp: handle_inv_def word_le_nat_alt less_Suc_eq nth_list_update)
    moreover have "handle_map (?c\<lparr>hd_filled := hd_filled b + 1\<rparr>) = handle_map ?c" by (simp add: fun_eq_iff handle_map_def)
    moreover have "handle_map ?c = (handle_map ht)(unat (?i + 1) \<mapsto> p)"
      using handle_map_update [OF l, of p] assms(2) b(3) h by simp
    moreover have "handle_table_add r p ht = Some (?i + 1, ?c\<lparr>hd_filled := hd_filled b + 1\<rparr>)"
      using assms(2) h0 b(1) l by (simp add: handle_table_add_def Let_def)
    ultimately show ?thesis using b(4) by auto
  qed
  note res = handle_resize_result [OF inv1, of ?i r]
  show ?thesis
  proof (cases "unat ?i < unat (hd_size ht) \<or> r")
    case True
    have "\<exists>b. handle_table_resize r ?i ?ht = Some (True, b) \<and> handle_inv b \<and> handle_map b = handle_map ht \<and>
      hd_destroy b = hd_destroy ht \<and> hd_filled b = ?i \<and> unat ?i < unat (hd_size b)"
      using res True i31 inv1 obj by (auto split: if_splits)
    then show ?thesis using add h0 free below h by (metis (no_types, lifting))
  next
    case False
    then have "handle_table_resize r ?i ?ht = Some (False, ?ht)" using res i31 by (simp split: if_splits)
    then have "handle_table_add r p ht = Some (0, ?ht)" using assms(2) h0 by (simp add: handle_table_add_def Let_def)
    then show ?thesis using inv1 obj False by auto
  qed
qed

lemma handle_remove_result:
  assumes "handle_inv ht"
  shows "\<exists>ht'. handle_table_remove h ht w = Some (ht', run_destroy ht (handle_map ht (unat h)) w) \<and> handle_inv ht' \<and>
    hd_destroy ht' = hd_destroy ht \<and> handle_map ht' = (handle_map ht)(unat h := None)"
proof -
  note inv = handle_invD [OF assms]
  show ?thesis
  proof (cases "h = 0 \<or> hd_size ht < h")
    case True
    then have "handle_map ht (unat h) = None" using inv(1) by (auto simp: handle_map_def word_less_nat_alt)
    then show ?thesis using True assms by (auto simp: handle_table_remove_def run_destroy_def)
  next
    case False
    then have n: "Suc (unat (h - 1)) = unat h" using handle_number(1) by blast
    have l: "unat (h - 1) < length (hd_objects ht)" using False n inv(1) by (simp add: word_less_nat_alt)
    show ?thesis
    proof (cases "hd_objects ht ! unat (h - 1) = NULL")
      case True
      then have "handle_map ht (unat h) = None" unfolding n [symmetric] by (simp add: handle_map_Suc)
      then show ?thesis using True False assms l by (auto simp: handle_table_remove_def run_destroy_def Let_def)
    next
      case obj: False
      let ?c = "ht\<lparr>hd_objects := (hd_objects ht)[unat (h - 1) := NULL]\<rparr>"
      let ?d = "if h - 1 < hd_filled ht then ?c\<lparr>hd_filled := h - 1\<rparr> else ?c"
      have run: "handle_table_remove h ht w = Some (?d, run_destroy ht (handle_map ht (unat h)) w)"
        using False obj l handle_clear_result [OF l, of w] n by (simp add: handle_table_remove_def Let_def)
      have "handle_inv ?d"
        using assms l by (auto simp: handle_inv_def nth_list_update word_le_nat_alt word_less_nat_alt)
      moreover have "handle_map ?d = handle_map ?c" by (simp add: fun_eq_iff handle_map_def)
      moreover have "handle_map ?c = (handle_map ht)(unat h := None)" using handle_map_update [OF l, of NULL] n by simp
      moreover have "hd_destroy ?d = hd_destroy ht" by simp
      ultimately show ?thesis using run by (intro exI [of _ ?d]) simp
    qed
  qed
qed

lemma handle_next_result:
  assumes "handle_inv ht"
  shows "if handle_table_get_next_handle h ht = 0 then \<forall>j. unat h < j \<longrightarrow> handle_map ht j = None
    else unat h < unat (handle_table_get_next_handle h ht) \<and>
      handle_map ht (unat (handle_table_get_next_handle h ht)) \<noteq> None \<and>
      (\<forall>j. unat h < j \<and> handle_map ht j \<noteq> None \<longrightarrow> unat (handle_table_get_next_handle h ht) \<le> j)"
proof -
  note inv = handle_invD [OF assms]
  let ?P = "\<lambda>i. hd_objects ht ! i \<noteq> NULL"
  have size: "unat (hd_size ht) \<le> 2 ^ 31" using pow2_size_facts(2) [OF inv(2)] .
  have mapped: "\<exists>i. j = Suc i \<and> unat h \<le> i \<and> i < unat (hd_size ht) \<and> ?P i"
    if "unat h < j" "handle_map ht j \<noteq> None" for j
    using that inv(1) by (cases j) (auto simp: handle_map_Suc split: if_splits)
  show ?thesis
  proof (cases "find ?P [unat h ..< unat (hd_size ht)]")
    case None
    then have "handle_table_get_next_handle h ht = 0" by (simp add: handle_table_get_next_handle_def)
    moreover have "handle_map ht j = None" if "unat h < j" for j
      using None mapped [OF that] by (fastforce simp: find_None_iff)
    ultimately show ?thesis by simp
  next
    case (Some i)
    then obtain k where k: "k < unat (hd_size ht) - unat h" "?P (unat h + k)" "i = unat h + k" "\<forall>j < k. \<not> ?P (unat h + j)"
      by (auto simp: find_Some_iff)
    let ?n = "handle_table_get_next_handle h ht"
    have "unat (of_nat (Suc i) :: u32) = Suc i" using k(1,3) size by (intro unat_of_nat_less) simp
    then have n: "unat ?n = Suc i" using Some by (simp add: handle_table_get_next_handle_def add.commute)
    then have nz: "?n \<noteq> 0" by auto
    have "handle_map ht (unat ?n) \<noteq> None" using k(1-3) inv(1) unfolding n by (simp add: handle_map_Suc)
    moreover have "unat ?n \<le> j" if j: "unat h < j" "handle_map ht j \<noteq> None" for j
    proof -
      obtain l where l: "j = Suc l" "unat h \<le> l" "?P l" using mapped [OF j] by blast
      have "\<not> l - unat h < k"
      proof
        assume "l - unat h < k"
        then have "\<not> ?P (unat h + (l - unat h))" using k(4) by blast
        then show False using l(2,3) by simp
      qed
      then show ?thesis using l(1,2) k(3) n by linarith
    qed
    ultimately show ?thesis using nz n k(3) by simp
  qed
qed

lemma handle_clear_all_result:
  assumes "\<forall>i \<in> set is. i < length (hd_objects ht)" "distinct is" "hd_destroy ht = Some d"
  shows "\<exists>ht'. handle_clear_all is ht w =
    Some (ht', fold d (filter (\<lambda>p. p \<noteq> NULL) (map ((!) (hd_objects ht)) is)) w)"
  using assms
proof (induction "is" arbitrary: ht w)
  case (Cons i "is")
  let ?ht = "ht\<lparr>hd_objects := (hd_objects ht)[i := NULL]\<rparr>"
  have l: "i < length (hd_objects ht)" using Cons.prems(1) by simp
  have "\<forall>j \<in> set is. j < length (hd_objects ?ht)" "distinct is" "hd_destroy ?ht = Some d" using Cons.prems by simp_all
  note IH = Cons.IH [OF this, of "run_destroy ht (handle_map ht (Suc i)) w"]
  have "i \<noteq> j" if "j \<in> set is" for j using that Cons.prems(2) by auto
  then have eq: "map ((!) (hd_objects ?ht)) is = map ((!) (hd_objects ht)) is" by simp
  show ?case using IH [unfolded eq] handle_clear_result [OF l, of w] l Cons.prems(3)
    by (simp add: run_destroy_def handle_map_Suc split: if_splits)
qed simp

lemma handle_destroy_result:
  assumes "handle_inv ht"
  shows "handle_table_destroy ht w = Some (case hd_destroy ht of None \<Rightarrow> w
    | Some d \<Rightarrow> fold d (filter (\<lambda>p. p \<noteq> NULL) (hd_objects ht)) w)"
proof (cases "hd_destroy ht")
  case (Some d)
  have "map ((!) (hd_objects ht)) [0 ..< unat (hd_size ht)] = hd_objects ht"
    using handle_invD(1) [OF assms] by (metis map_nth)
  then show ?thesis
    using handle_clear_all_result [OF _ distinct_upt Some, of 0 "unat (hd_size ht)" w] handle_invD(1) [OF assms] Some
    by (auto simp: handle_table_destroy_def)
qed (simp add: handle_table_destroy_def)

lemma handle_add_hangs:
  assumes "handle_inv ht" "p \<noteq> NULL" "\<forall>h. 0 < h \<and> h \<le> 2 ^ 31 \<longrightarrow> handle_map ht h \<noteq> None"
  shows "handle_table_add r p ht = None"
proof -
  note inv = handle_invD [OF assms(1)]
  let ?i = "handle_search ht"
  note s = handle_search_result [OF assms(1)]
  have full: "2 ^ 31 \<le> unat (hd_size ht)"
    using assms(3) [rule_format, of "2 ^ 31"] inv(1) by (auto simp: handle_map_def split: if_splits)
  then have size: "unat (hd_size ht) = 2 ^ 31" using pow2_size_facts(2) [OF inv(2)] by simp
  have i: "?i = hd_size ht"
  proof (rule ccontr)
    assume "?i \<noteq> hd_size ht"
    then have lt: "?i < hd_size ht" using s unfolding order_less_le by blast
    then have "handle_map ht (Suc (unat ?i)) = None" using s by (simp add: handle_map_Suc)
    moreover have "Suc (unat ?i) \<le> 2 ^ 31" using lt size by (simp add: word_less_nat_alt)
    ultimately show False using assms(3) by blast
  qed
  let ?ht = "ht\<lparr>hd_filled := ?i\<rparr>"
  have "handle_inv ?ht" using assms(1) s by (auto simp: handle_inv_def)
  from handle_resize_result [OF this, of ?i r] have "handle_table_resize r ?i ?ht = None" using size i by simp
  moreover have "?i + 1 \<noteq> 0"
  proof
    assume "?i + 1 = 0"
    then have "unat (?i + 1) = 0" by simp
    moreover have "unat (?i + 1) = Suc (unat ?i)" using size i by (intro unat_Suc_less) simp
    ultimately show False by simp
  qed
  ultimately show ?thesis using assms(2) by (simp add: handle_table_add_def Let_def)
qed

text \<open>A table with the world its destructor acts on is a pool of handles.\<close>

definition handle_used :: "'w handle_table \<times> 'w \<Rightarrow> nat set" where
  "handle_used s = dom (handle_map (fst s))"

definition handle_take :: "bool \<times> ptr \<Rightarrow> 'w handle_table \<times> 'w \<Rightarrow> (nat option \<times> 'w handle_table \<times> 'w) option" where
  "handle_take rp s = (case rp of (r, p) \<Rightarrow>
    map_option (\<lambda>(h, ht). (if h = 0 then None else Some (unat h), ht, snd s)) (handle_table_add r p (fst s)))"

definition handle_give :: "nat \<Rightarrow> 'w handle_table \<times> 'w \<Rightarrow> ('w handle_table \<times> 'w) option" where
  "handle_give h s = handle_table_remove (of_nat h) (fst s) (snd s)"

lemma handle_take_result:
  assumes "handle_inv (fst s)" "handle_take rp s = Some (h, s')"
  shows "handle_inv (fst s') \<and> (case h of None \<Rightarrow> handle_used s' = handle_used s
    | Some i \<Rightarrow> i \<notin> handle_used s \<and> handle_used s' = insert i (handle_used s))"
proof -
  obtain r p where rp: "rp = (r, p)" by force
  obtain h0 ht' where a: "handle_table_add r p (fst s) = Some (h0, ht')" "s' = (ht', snd s)"
    "h = (if h0 = 0 then None else Some (unat h0))"
    using assms(2) unfolding rp handle_take_def by (auto split: if_splits)
  show ?thesis
  proof (cases "p = NULL")
    case True
    then show ?thesis using a assms(1) by (auto simp: handle_table_add_def handle_used_def)
  next
    case False
    have "\<not> (\<forall>h. 0 < h \<and> h \<le> 2 ^ 31 \<longrightarrow> handle_map (fst s) h \<noteq> None)"
    proof
      assume "\<forall>h. 0 < h \<and> h \<le> 2 ^ 31 \<longrightarrow> handle_map (fst s) h \<noteq> None"
      from handle_add_hangs [OF assms(1) False this, of r] a(1) show False by simp
    qed
    from handle_add_result [OF assms(1) False this, of r] a(1) have
      "handle_inv ht'" "if h0 = 0 then handle_map ht' = handle_map (fst s)
       else handle_map (fst s) (unat h0) = None \<and> handle_map ht' = (handle_map (fst s))(unat h0 \<mapsto> p)"
      by (auto split: if_splits)
    then show ?thesis using a(2,3) by (auto simp: handle_used_def split: if_splits)
  qed
qed

interpretation hd: id_pool "\<lambda>s. handle_inv (fst s)" handle_used handle_take handle_give
proof
  fix s s' :: "'w handle_table \<times> 'w" and rp i
  assume inv: "handle_inv (fst s)"
  show "handle_inv (fst s') \<and> i \<notin> handle_used s \<and> handle_used s' = insert i (handle_used s)"
    if "handle_take rp s = Some (Some i, s')"
    using handle_take_result [OF inv that] by simp
  show "handle_inv (fst s') \<and> handle_used s' = handle_used s" if "handle_take rp s = Some (None, s')"
    using handle_take_result [OF inv that] by simp
  show "\<exists>s'. handle_give i s = Some s' \<and> handle_inv (fst s') \<and> handle_used s' = handle_used s - {i}" if "i \<in> handle_used s"
  proof -
    have "i \<le> unat (hd_size (fst s))"
      using that handle_invD(1) [OF inv] by (auto simp: handle_used_def handle_map_def split: if_splits)
    then have "unat (of_nat i :: u32) = i"
      using unsigned_less [of "hd_size (fst s)", where 'a = nat] by (intro unat_of_nat_less) simp
    then show ?thesis using handle_remove_result [OF inv, of "of_nat i" "snd s"]
      by (auto simp: handle_give_def handle_used_def)
  qed
qed


text \<open>C34. A handle table implements a map from handles to objects. \<open>handle_table_get\<close> looks a handle
  up; \<open>handle_table_set\<close> binds it and hands the object it replaces to the destructor, but for a handle
  past \<open>2 ^ 31\<close> the loop that doubles the size never ends; \<open>handle_table_add\<close> binds the smallest free
  handle, and never returns when all \<open>2 ^ 31\<close> are in use; \<open>handle_table_remove\<close> unbinds a handle and
  destroys its object; \<open>handle_table_get_next_handle\<close> gives the next handle in use, and
  \<open>handle_table_destroy\<close> hands every object to the destructor.\<close>

theorem handle_table_refines_map:
  assumes "handle_inv ht" "p \<noteq> NULL"
  shows "handle_table_get h ht = Some (case handle_map ht (unat h) of None \<Rightarrow> NULL | Some q \<Rightarrow> q) \<and>
    (h \<noteq> 0 \<longrightarrow> (if unat h \<le> unat (hd_size ht) \<or> r \<and> unat h \<le> 2 ^ 31
      then \<exists>ht'. handle_table_set r h p ht w = Some (h, ht', run_destroy ht (handle_map ht (unat h)) w) \<and>
        handle_inv ht' \<and> handle_map ht' = (handle_map ht)(unat h \<mapsto> p)
      else if unat h \<le> 2 ^ 31 then handle_table_set r h p ht w = Some (0, ht, w)
      else handle_table_set r h p ht w = None)) \<and>
    (if \<forall>j. 0 < j \<and> j \<le> 2 ^ 31 \<longrightarrow> handle_map ht j \<noteq> None then handle_table_add r p ht = None
     else \<exists>g ht'. handle_table_add r p ht = Some (g, ht') \<and> handle_inv ht' \<and> hd_destroy ht' = hd_destroy ht \<and>
       (if g = 0 then handle_map ht' = handle_map ht \<and> \<not> r
        else handle_map ht (unat g) = None \<and> (\<forall>j. 0 < j \<and> j < unat g \<longrightarrow> handle_map ht j \<noteq> None) \<and>
          handle_map ht' = (handle_map ht)(unat g \<mapsto> p))) \<and>
    (\<exists>ht'. handle_table_remove h ht w = Some (ht', run_destroy ht (handle_map ht (unat h)) w) \<and> handle_inv ht' \<and>
      hd_destroy ht' = hd_destroy ht \<and> handle_map ht' = (handle_map ht)(unat h := None)) \<and>
    (if handle_table_get_next_handle h ht = 0 then \<forall>j. unat h < j \<longrightarrow> handle_map ht j = None
     else unat h < unat (handle_table_get_next_handle h ht) \<and>
       handle_map ht (unat (handle_table_get_next_handle h ht)) \<noteq> None \<and>
       (\<forall>j. unat h < j \<and> handle_map ht j \<noteq> None \<longrightarrow> unat (handle_table_get_next_handle h ht) \<le> j)) \<and>
    handle_table_destroy ht w = Some (case hd_destroy ht of None \<Rightarrow> w
      | Some d \<Rightarrow> fold d (filter (\<lambda>q. q \<noteq> NULL) (hd_objects ht)) w)"
proof -
  note set = handle_set_result [OF assms(1) _ assms(2), of h r w]
  note add = handle_add_result [OF assms, of r] handle_add_hangs [OF assms, of r]
  have "if \<forall>j. 0 < j \<and> j \<le> 2 ^ 31 \<longrightarrow> handle_map ht j \<noteq> None then handle_table_add r p ht = None
     else \<exists>g ht'. handle_table_add r p ht = Some (g, ht') \<and> handle_inv ht' \<and> hd_destroy ht' = hd_destroy ht \<and>
       (if g = 0 then handle_map ht' = handle_map ht \<and> \<not> r
        else handle_map ht (unat g) = None \<and> (\<forall>j. 0 < j \<and> j < unat g \<longrightarrow> handle_map ht j \<noteq> None) \<and>
          handle_map ht' = (handle_map ht)(unat g \<mapsto> p))"
    using add by presburger
  with set handle_get_result [OF assms(1), of h] handle_remove_result [OF assms(1), of h w]
    handle_next_result [OF assms(1), of h] handle_destroy_result [OF assms(1), of w]
  show ?thesis by blast
qed

lemma handle_set_destroy_inv [simp]:
  "handle_map (handle_table_set_destroy d ht) = handle_map ht"
  "handle_inv (handle_table_set_destroy d ht) = handle_inv ht"
  by (simp_all add: handle_table_set_destroy_def fun_eq_iff handle_map_def handle_inv_def)

lemma example_handles:
  "\<exists>ht :: ptr list handle_table. handle_inv ht \<and> handle_map ht = (\<lambda>_. None) \<and> hd_destroy ht = Some (#) \<and>
    hd_size ht = 16"
proof -
  obtain ht :: "ptr list handle_table" where c: "handle_table_create True True = Some ht"
    by (simp add: handle_table_create_def)
  note i = handle_create_inv [OF c]
  let ?ht = "handle_table_set_destroy (Some (#)) ht"
  have "handle_inv ?ht \<and> handle_map ?ht = (\<lambda>_. None)" using i by simp
  moreover have "hd_size ?ht = 16" using c by (auto simp: handle_table_create_def handle_table_set_destroy_def)
  ultimately show ?thesis using i by (intro exI [of _ ?ht]) (simp add: handle_table_set_destroy_def)
qed

theorem handle_table_refines_map_witness:
  "\<exists>ht ht' :: ptr list handle_table. handle_table_set True 20 7 ht [] = Some (20, ht', []) \<and> handle_map ht' = [20 \<mapsto> 7] \<and>
    handle_table_set True 0x80000001 7 ht [] = None"
proof -
  obtain ht :: "ptr list handle_table" where ht: "handle_inv ht" "handle_map ht = (\<lambda>_. None)" "hd_size ht = 16"
    using example_handles by blast
  have n: "(7 :: ptr) \<noteq> NULL" by simp
  show ?thesis
    using handle_table_refines_map [OF ht(1) n, where h = 20 and r = True and w = "[]"] handle_table_refines_map [OF ht(1) n, where h = "0x80000001" and r = True and w = "[]"] ht(2,3)
    by (auto simp: run_destroy_def)
qed

text \<open>C35. On every run of allocations and releases, with any failures of the memory allocator, the
  numbers handed out and not yet released are distinct and are those the structure holds in use: for
  the allocator of numbers, for bit masks and for handles.\<close>

theorem id_pools_run:
  assumes "util_idalloc_resize r n util_idalloc_init = Some buf" "util_bitmask_create m1 c1 = Some bm"
    "handle_table_create m2 c2 = Some ht"
  shows "(pool_run idalloc_take (\<lambda>i. util_idalloc_free (of_nat i)) ops (buf, []) = Some (buf', ids) \<longrightarrow>
      distinct ids \<and> set ids = idalloc_used buf') \<and>
    (pool_run bitmask_take (\<lambda>i. util_bitmask_clear (of_nat i)) ops (bm, []) = Some (bm', bits) \<longrightarrow>
      distinct bits \<and> set bits = bitmask_set bm') \<and>
    (pool_run handle_take handle_give adds ((handle_table_set_destroy destroy ht, w), []) = Some ((ht', w'), handles) \<longrightarrow>
      distinct handles \<and> set handles = dom (handle_map ht'))"
proof (intro conjI impI)
  have "idalloc_inv buf" "idalloc_used buf = {}"
    using idalloc_resize_result [OF idalloc_init_inv(1) assms(1)] idalloc_init_inv(2) by simp_all
  then show "distinct ids" "set ids = idalloc_used buf'"
    if "pool_run idalloc_take (\<lambda>i. util_idalloc_free (of_nat i)) ops (buf, []) = Some (buf', ids)"
    using ia.run_live [of buf "[]", OF _ _ _ that] by simp_all
  show "distinct bits" "set bits = bitmask_set bm'"
    if "pool_run bitmask_take (\<lambda>i. util_bitmask_clear (of_nat i)) ops (bm, []) = Some (bm', bits)"
    using bm.run_live [of bm "[]", OF _ _ _ that] bitmask_create_inv [OF assms(2)] by simp_all
  let ?ht = "handle_table_set_destroy destroy ht"
  have "handle_map ?ht = (\<lambda>_. None)" "handle_inv ?ht"
    using handle_create_inv [OF assms(3)] by simp_all
  then show "distinct handles" "set handles = dom (handle_map ht')"
    if "pool_run handle_take handle_give adds ((?ht, w), []) = Some ((ht', w'), handles)"
    using hd.run_live [of "(?ht, w)" "[]", OF _ _ _ that] by (simp_all add: handle_used_def)
qed

theorem id_pools_run_witness:
  "\<exists>bm' bits. pool_run bitmask_take (\<lambda>i. util_bitmask_clear (of_nat i)) [Take True, Take True, Give 0, Take False]
      (the (util_bitmask_create True True), []) = Some (bm', bits) \<and> distinct bits \<and> set bits = bitmask_set bm'"
proof -
  let ?run = "pool_run bitmask_take (\<lambda>i. util_bitmask_clear (of_nat i)) [Take True, Take True, Give 0, Take False]
      (the (util_bitmask_create True True), [])"
  have r: "?run \<noteq> None"
    by (simp add: util_bitmask_create_def bitmask_take_def util_bitmask_add_def util_bitmask_clear_def scan_words.simps
      scan_bits.simps util_bitmask_resize_def UTIL_BITMASK_INVALID_INDEX_def util_bitmask_filled_unset_def Let_def)
  then obtain bm' bits where run: "?run = Some (bm', bits)" by auto
  have i: "util_idalloc_resize True 32 util_idalloc_init \<noteq> None" by code_simp
  obtain buf where b: "util_idalloc_resize True 32 util_idalloc_init = Some buf" using i by blast
  have m: "util_bitmask_create True True = Some (the (util_bitmask_create True True))"
    by (simp add: util_bitmask_create_def)
  have h: "handle_table_create True True = Some (the (handle_table_create True True) :: unit handle_table)"
    by (simp add: handle_table_create_def)
  from id_pools_run [OF b m h] run show ?thesis by blast
qed

end
