(* ===== verification/NameTable.thy ===== *)
theory NameTable
  imports HashTableMap "HOL-Library.Monad_Syntax"
begin

text \<open>
  The tables that map OpenGL object names to their objects, \<open>mesa/main/hash.c\<close> and \<open>hash.h\<close>: a hash
  table of util keyed by the name itself, a separate place for the name that the hash table reserves
  as its tombstone, and the greatest name ever inserted, from which blocks of unused names are handed
  out. The locking entry points take the mutex and make the calls modelled here.
\<close>

section \<open>State and keys\<close>

text \<open>The recursive mutex that serialises the calls is not part of the state.\<close>

record mesa_HashTable =
  nt_ht :: hash_table
  nt_MaxKey :: u32
  nt_InDeleteAll :: bool
  nt_deleted_key_data :: ptr

definition uint_key_compare :: "ptr \<Rightarrow> ptr \<Rightarrow> bool" where
  "uint_key_compare a b \<longleftrightarrow> a = b"

definition uint_hash :: "u32 \<Rightarrow> u32" where
  "uint_hash key = key"

definition uint_key_hash :: "ptr \<Rightarrow> u32" where
  "uint_key_hash key = uint_hash (ucast key)"

definition uint_key :: "u32 \<Rightarrow> ptr" where
  "uint_key key = ucast key"

text \<open>\<open>DELETED_KEY_VALUE\<close> as a name; \<open>HashTable.DELETED_KEY_VALUE\<close> is the pointer.\<close>

definition DELETED_KEY_NAME :: u32 where
  "DELETED_KEY_NAME = 1"

section \<open>Operations\<close>

definition mesa_NewHashTable :: "bool \<Rightarrow> (u32 \<Rightarrow> bool) \<Rightarrow> ptr \<Rightarrow> mesa_HashTable option" where
  "mesa_NewHashTable calloc_ok alloc deleted_addr =
    (if calloc_ok
     then case mesa_hash_table_create alloc deleted_addr (Some uint_key_hash) uint_key_compare of
            None \<Rightarrow> None
          | Some ht \<Rightarrow> Some \<lparr>nt_ht = mesa_hash_table_set_deleted_key ht (uint_key DELETED_KEY_NAME),
                            nt_MaxKey = 0, nt_InDeleteAll = False, nt_deleted_key_data = NULL\<rparr>
     else None)"

text \<open>Whether \<open>_mesa_DeleteHashTable\<close> complains about data that was not freed.\<close>

definition mesa_DeleteHashTable :: "mesa_HashTable \<Rightarrow> bool" where
  "mesa_DeleteHashTable table \<longleftrightarrow> mesa_hash_table_next_entry (nt_ht table) None \<noteq> None"

definition mesa_HashLookup :: "mesa_HashTable \<Rightarrow> u32 \<Rightarrow> ptr option" where
  "mesa_HashLookup table key =
    (if key = DELETED_KEY_NAME then Some (nt_deleted_key_data table)
     else do {
       entry \<leftarrow> mesa_hash_table_search_pre_hashed (nt_ht table) (uint_hash key) (uint_key key);
       Some (case entry of None \<Rightarrow> NULL | Some i \<Rightarrow> he_data (ht_table (nt_ht table) ! i)) })"

definition set_entry_data :: "hash_table \<Rightarrow> nat \<Rightarrow> ptr \<Rightarrow> hash_table" where
  "set_entry_data ht i data = ht\<lparr>ht_table := (ht_table ht)[i := (ht_table ht ! i)\<lparr>he_data := data\<rparr>]\<rparr>"

definition mesa_HashInsert :: "(u32 \<Rightarrow> bool) \<Rightarrow> mesa_HashTable \<Rightarrow> u32 \<Rightarrow> ptr \<Rightarrow> mesa_HashTable option" where
  "mesa_HashInsert alloc table key data =
    (let hash = uint_hash key;
         table = (if nt_MaxKey table < key then table\<lparr>nt_MaxKey := key\<rparr> else table)
     in if key = DELETED_KEY_NAME then Some (table\<lparr>nt_deleted_key_data := data\<rparr>)
        else do {
          entry \<leftarrow> mesa_hash_table_search_pre_hashed (nt_ht table) hash (uint_key key);
          case entry of
            Some i \<Rightarrow> Some (table\<lparr>nt_ht := set_entry_data (nt_ht table) i data\<rparr>)
          | None \<Rightarrow> do {
              (ht, _) \<leftarrow> mesa_hash_table_insert_pre_hashed alloc (nt_ht table) hash (uint_key key) data;
              Some (table\<lparr>nt_ht := ht\<rparr>) } })"

definition mesa_HashRemove :: "mesa_HashTable \<Rightarrow> u32 \<Rightarrow> mesa_HashTable option" where
  "mesa_HashRemove table key =
    (if key = DELETED_KEY_NAME then Some (table\<lparr>nt_deleted_key_data := NULL\<rparr>)
     else do {
       entry \<leftarrow> mesa_hash_table_search_pre_hashed (nt_ht table) (uint_hash key) (uint_key key);
       Some (table\<lparr>nt_ht := mesa_hash_table_remove (nt_ht table) entry\<rparr>) })"

text \<open>The callbacks are the list of the keys and data they are called with.  The loop of
  \<open>_mesa_HashDeleteAll\<close> removes the entry it has just handed to the callback.\<close>

function delete_loop :: "hash_table \<Rightarrow> nat option \<Rightarrow> (u32 \<times> ptr) list \<times> hash_table" where
  "delete_loop ht entry =
    (case mesa_hash_table_next_entry ht entry of
       None \<Rightarrow> ([], ht)
     | Some i \<Rightarrow> let e = ht_table ht ! i;
                    (calls, ht') = delete_loop (mesa_hash_table_remove ht (Some i)) (Some i)
                in ((ucast (he_key e), he_data e) # calls, ht'))"
  by pat_completeness auto
termination
  by (relation "measure (\<lambda>(ht, e). case e of None \<Rightarrow> Suc (unat (ht_size ht)) | Some i \<Rightarrow> unat (ht_size ht) - i)")
     (auto simp: mesa_hash_table_next_entry_def mesa_hash_table_remove_def split: option.splits dest!: next_present_ge)

declare delete_loop.simps [simp del]

definition mesa_HashDeleteAll :: "mesa_HashTable \<Rightarrow> (u32 \<times> ptr) list \<times> mesa_HashTable" where
  "mesa_HashDeleteAll table =
    (let table = table\<lparr>nt_InDeleteAll := True\<rparr>;
         (calls, ht) = delete_loop (nt_ht table) None;
         table = table\<lparr>nt_ht := ht\<rparr>;
         (calls, table) =
           (if nt_deleted_key_data table \<noteq> NULL
            then (calls @ [(DELETED_KEY_NAME, nt_deleted_key_data table)], table\<lparr>nt_deleted_key_data := NULL\<rparr>)
            else (calls, table))
     in (calls, table\<lparr>nt_InDeleteAll := False\<rparr>))"

definition hash_walk :: "mesa_HashTable \<Rightarrow> (u32 \<times> ptr) list" where
  "hash_walk table =
    map (\<lambda>i. (ucast (he_key (ht_table (nt_ht table) ! i)), he_data (ht_table (nt_ht table) ! i)))
      (hash_table_foreach (nt_ht table) None) @
    (if nt_deleted_key_data table \<noteq> NULL then [(DELETED_KEY_NAME, nt_deleted_key_data table)] else [])"

text \<open>The slow search of \<open>_mesa_HashFindFreeKeyBlock\<close>, up to the largest key but one.\<close>

definition maxKey :: u32 where
  "maxKey = NOT 0 - 1"

lemma maxKey_step: "key \<noteq> maxKey \<Longrightarrow> unat (maxKey - (key + 1)) < unat (maxKey - key)"
proof -
  assume "key \<noteq> maxKey"
  then have nz: "maxKey - key \<noteq> 0" by simp
  then have "0 < unat (maxKey - key)" using unat_gt_0 by blast
  moreover have "unat (maxKey - key - 1) = unat (maxKey - key) - 1" using nz by (rule unat_minus_one_pos)
  moreover have e: "maxKey - (key + 1) = maxKey - key - 1" by (rule diff_diff_eq [symmetric])
  ultimately show ?thesis unfolding e by linarith
qed

function find_block :: "mesa_HashTable \<Rightarrow> u32 \<Rightarrow> u32 \<Rightarrow> u32 \<Rightarrow> u32 \<Rightarrow> u32 option" where
  "find_block table numKeys key freeCount freeStart =
    (if key \<noteq> maxKey
     then case mesa_HashLookup table key of
            None \<Rightarrow> None
          | Some data \<Rightarrow>
              if data \<noteq> NULL then find_block table numKeys (key + 1) 0 (key + 1)
              else if freeCount + 1 = numKeys then Some freeStart
              else find_block table numKeys (key + 1) (freeCount + 1) freeStart
     else Some 0)"
  by pat_completeness auto
termination
  by (relation "measure (\<lambda>(table, numKeys, key, freeCount, freeStart). unat (maxKey - key))")
     (use maxKey_step in auto)

declare find_block.simps [simp del]

definition mesa_HashFindFreeKeyBlock :: "mesa_HashTable \<Rightarrow> u32 \<Rightarrow> u32 option" where
  "mesa_HashFindFreeKeyBlock table numKeys =
    (if nt_MaxKey table < maxKey - numKeys then Some (nt_MaxKey table + 1)
     else find_block table numKeys 1 0 1)"

definition mesa_HashNumEntries :: "mesa_HashTable \<Rightarrow> u32" where
  "mesa_HashNumEntries table =
    (if nt_deleted_key_data table \<noteq> NULL then 1 else 0) + ht_entries (nt_ht table)"

end
