(* ===== verification/NameTableCorrect.thy ===== *)
theory NameTableCorrect
  imports NameTable
begin

text \<open>
  Correctness of the name tables: they are a client of the hash table, through the interfaces
  \<open>hash_key_table\<close> (equality of names is an equality the hash respects) and \<open>keyed_store\<close> (they
  offer the same contract again, one layer up). The properties are that a table is a function from
  the non-zero names to pointers, and that a block of names found free is unused.
\<close>

section \<open>Data replaced in place\<close>

lemma set_entry_data_nth:
  assumes "i < length (ht_table ht)"
  shows "he_key (ht_table (set_entry_data ht i d) ! j) = he_key (ht_table ht ! j)"
    "he_hash (ht_table (set_entry_data ht i d) ! j) = he_hash (ht_table ht ! j)"
    "length (ht_table (set_entry_data ht i d)) = length (ht_table ht)"
  using assms by (cases "j = i"; simp add: set_entry_data_def)+

lemma set_entry_data_frame [simp]:
  "ht_size (set_entry_data ht i d) = ht_size ht" "ht_rehash (set_entry_data ht i d) = ht_rehash ht"
  "ht_max_entries (set_entry_data ht i d) = ht_max_entries ht" "ht_size_index (set_entry_data ht i d) = ht_size_index ht"
  "ht_entries (set_entry_data ht i d) = ht_entries ht" "ht_deleted_entries (set_entry_data ht i d) = ht_deleted_entries ht"
  "ht_deleted_key (set_entry_data ht i d) = ht_deleted_key ht"
  "ht_key_equals_function (set_entry_data ht i d) = ht_key_equals_function ht"
  "ht_key_hash_function (set_entry_data ht i d) = ht_key_hash_function ht"
  by (simp_all add: set_entry_data_def)

lemma set_entry_data_keys:
  assumes "i < length (ht_table ht)"
  shows "map he_key (ht_table (set_entry_data ht i d)) = map he_key (ht_table ht)"
  using set_entry_data_nth [OF assms] by (intro nth_equalityI) simp_all

lemma count_by_key:
  "length (filter (entry_is_present ht) es) = length (filter (\<lambda>k. k \<noteq> NULL \<and> k \<noteq> ht_deleted_key ht) (map he_key es))"
  "length (filter (entry_is_deleted ht) es) = length (filter (\<lambda>k. k = ht_deleted_key ht) (map he_key es))"
  by (induction es) (simp_all add: entry_is_present_def entry_is_deleted_def)

lemma entry_is_free_key: "he_key e = he_key e' \<Longrightarrow> entry_is_free e = entry_is_free e'"
  by (simp add: entry_is_free_def)

lemma set_entry_data_wf:
  assumes "ht_wf hf ht" "i < unat (ht_size ht)"
  shows "ht_wf hf (set_entry_data ht i d)"
proof -
  let ?h = "set_entry_data ht i d"
  note w = ht_wf_simps [OF assms(1)]
  have i: "i < length (ht_table ht)" using assms(2) w(2) by simp
  note s = set_entry_data_nth [OF i, of d] set_entry_data_keys [OF i, of d]
  have p: "entry_is_present ?h (ht_table ?h ! a) \<longleftrightarrow> entry_is_present ht (ht_table ht ! a)" for a
    by (simp add: entry_is_present_def s(1))
  have f: "entry_is_free (ht_table ?h ! a) \<longleftrightarrow> entry_is_free (ht_table ht ! a)" for a
    by (rule entry_is_free_key) (rule s(1))
  have addr: "ht_addr ?h = ht_addr ht" by (rule ht_addr_cong) simp_all
  have r: "ht_reachable ?h a \<longleftrightarrow> ht_reachable ht a" for a
    by (simp add: ht_reachable_def Let_def s(2) f addr)
  have counts: "length (filter (entry_is_present ?h) (ht_table ?h)) = length (filter (entry_is_present ht) (ht_table ht))"
    "length (filter (entry_is_deleted ?h) (ht_table ?h)) = length (filter (entry_is_deleted ht) (ht_table ht))"
    by (simp_all only: count_by_key s(4) set_entry_data_frame)
  have size: "ht_size_ok ?h" using w(1) by (simp add: ht_size_ok_def)
  show ?thesis
    using assms(1) size unfolding ht_wf_def p r counts s(1-3) set_entry_data_frame by blast
qed

section \<open>A table of names is a store\<close>

interpretation nk: hash_key_table uint_key_hash uint_key_compare "uint_key DELETED_KEY_NAME"
  by unfold_locales (auto simp: uint_key_compare_def uint_key_def DELETED_KEY_NAME_def)

lemma ucast_key: "(ucast (ucast k :: u64) :: u32) = k"
  by (rule bit_word_eqI) (auto simp: bit_simps dest: bit_imp_le_length)

lemma uint_key_inject [simp]: "uint_key a = uint_key b \<longleftrightarrow> a = b"
proof
  assume "uint_key a = uint_key b"
  then have "ucast (uint_key a) = (ucast (uint_key b) :: u32)" by simp
  then show "a = b" by (simp add: uint_key_def ucast_key)
qed simp

lemma uint_key_null [simp]: "uint_key k = NULL \<longleftrightarrow> k = 0"
  using uint_key_inject [of k 0] by (simp add: uint_key_def)

lemma uint_key_hash_key [simp]: "uint_key_hash (uint_key k) = uint_hash k" "(ucast (uint_key k) :: u32) = k"
  by (simp_all add: uint_key_hash_def uint_key_def ucast_key)

definition name_val :: "mesa_HashTable \<Rightarrow> u32 \<Rightarrow> ptr" where
  "name_val t k = (if k = DELETED_KEY_NAME then nt_deleted_key_data t
     else case ht_lookup (nt_ht t) (uint_key k) of None \<Rightarrow> NULL | Some d \<Rightarrow> d)"

definition name_inv :: "nat \<Rightarrow> mesa_HashTable \<Rightarrow> bool" where
  "name_inv n t \<longleftrightarrow> nk.store_inv n (nt_ht t) \<and> (\<forall>p. ht_lookup (nt_ht t) p \<noteq> None \<longrightarrow> p \<in> range uint_key) \<and>
     (\<forall>k. name_val t k \<noteq> NULL \<longrightarrow> k \<le> nt_MaxKey t)"

lemma name_invD:
  assumes "name_inv n t"
  shows "nk.store_inv n (nt_ht t)" "nk.kt (nt_ht t)" "ht_key_hash_function (nt_ht t) = Some uint_key_hash"
    "ht_deleted_key (nt_ht t) = uint_key DELETED_KEY_NAME" "ht_steps (nt_ht t) n"
    "\<And>p. ht_lookup (nt_ht t) p \<noteq> None \<Longrightarrow> p \<in> range uint_key" "\<And>k. name_val t k \<noteq> NULL \<Longrightarrow> k \<le> nt_MaxKey t"
  using assms by (auto simp: name_inv_def nk.store_inv_def)

lemma name_search:
  assumes "name_inv n t"
  shows "\<exists>r. mesa_hash_table_search_pre_hashed (nt_ht t) (uint_hash k) (uint_key k) = Some r \<and>
    mesa_hash_table_search (nt_ht t) (uint_key k) = Some r \<and> (case r of
       None \<Rightarrow> ht_lookup (nt_ht t) (uint_key k) = None
     | Some a \<Rightarrow> a < unat (ht_size (nt_ht t)) \<and> entry_is_present (nt_ht t) (ht_table (nt_ht t) ! a) \<and>
         he_key (ht_table (nt_ht t) ! a) = uint_key k \<and>
         ht_lookup (nt_ht t) (uint_key k) = Some (he_data (ht_table (nt_ht t) ! a)))"
proof -
  note inv = name_invD [OF assms]
  from nk.search_correct [OF inv(2), of "uint_key k"] show ?thesis
    by (auto simp: mesa_hash_table_search_pre_hashed_def mesa_hash_table_search_def inv(3)
        uint_key_compare_def split: option.splits)
qed

lemma name_lookup:
  assumes "name_inv n t"
  shows "mesa_HashLookup t k = Some (name_val t k)"
proof -
  obtain r where "mesa_hash_table_search_pre_hashed (nt_ht t) (uint_hash k) (uint_key k) = Some r" "case r of
       None \<Rightarrow> ht_lookup (nt_ht t) (uint_key k) = None
     | Some a \<Rightarrow> ht_lookup (nt_ht t) (uint_key k) = Some (he_data (ht_table (nt_ht t) ! a))"
    using name_search [OF assms, of k] by (auto split: option.splits)
  then show ?thesis by (auto simp: mesa_HashLookup_def name_val_def split: option.splits)
qed

lemma set_entry_data_lookup:
  fixes d :: ptr
  assumes "name_inv n t" "a < unat (ht_size (nt_ht t))" "entry_is_present (nt_ht t) (ht_table (nt_ht t) ! a)"
  defines "h \<equiv> set_entry_data (nt_ht t) a d"
  shows "nk.kt h" "ht_lookup h p = (if p = he_key (ht_table (nt_ht t) ! a) then Some d else ht_lookup (nt_ht t) p)"
proof -
  note inv = name_invD [OF assms(1)]
  have wf: "ht_wf uint_key_hash (nt_ht t)" using inv(2) by (simp add: nk.kt_def)
  note w = ht_wf_simps [OF wf]
  have a: "a < length (ht_table (nt_ht t))" using assms(2) w(2) by simp
  show kt: "nk.kt h"
    using set_entry_data_wf [OF wf assms(2), of d] inv(2) by (simp add: nk.kt_def h_def)
  note s = set_entry_data_nth [OF a, of d, folded h_def]
  have pres: "entry_is_present h (ht_table h ! b) \<longleftrightarrow> entry_is_present (nt_ht t) (ht_table (nt_ht t) ! b)" for b
    by (simp add: entry_is_present_def s(1)) (simp add: h_def)
  have size: "ht_size h = ht_size (nt_ht t)" by (simp add: h_def)
  show "ht_lookup h p = (if p = he_key (ht_table (nt_ht t) ! a) then Some d else ht_lookup (nt_ht t) p)"
  proof (cases "p = he_key (ht_table (nt_ht t) ! a)")
    case True
    have "ht_lookup h p = Some (he_data (ht_table h ! a))"
      by (rule nk.lookup_present [OF kt]) (use assms(2,3) pres size True in \<open>simp_all add: uint_key_compare_def s(1)\<close>)
    then show ?thesis using True a by (simp add: h_def set_entry_data_def)
  next
    case False
    show ?thesis
    proof (cases "\<exists>b < unat (ht_size h). entry_is_present h (ht_table h ! b) \<and> he_key (ht_table h ! b) = p")
      case True
      then obtain b where b: "b < unat (ht_size h)" "entry_is_present h (ht_table h ! b)" "he_key (ht_table h ! b) = p" by blast
      then have ne: "b \<noteq> a" using False s(1) by auto
      have "ht_lookup h p = Some (he_data (ht_table h ! b))"
        by (rule nk.lookup_present [OF kt]) (use b in \<open>simp_all add: uint_key_compare_def\<close>)
      moreover have "ht_lookup (nt_ht t) p = Some (he_data (ht_table (nt_ht t) ! b))"
        by (rule nk.lookup_present [OF inv(2)]) (use b pres size s(1) in \<open>simp_all add: uint_key_compare_def\<close>)
      moreover have "ht_table h ! b = ht_table (nt_ht t) ! b" using ne by (simp add: h_def set_entry_data_def)
      ultimately show ?thesis using False by simp
    next
      case none: False
      have "ht_lookup h p = None"
        by (rule nk.lookup_absent [OF kt]) (use none in \<open>auto simp: uint_key_compare_def\<close>)
      moreover have "ht_lookup (nt_ht t) p = None"
        by (rule nk.lookup_absent [OF inv(2)]) (use none pres size s(1) in \<open>auto simp: uint_key_compare_def\<close>)
      ultimately show ?thesis using False by simp
    qed
  qed
qed

lemma name_put:
  assumes inv: "name_inv n t" and n: "n < 131072" and k: "k \<noteq> 0"
  shows "\<exists>t'. mesa_HashInsert (\<lambda>_. True) t k d = Some t' \<and> name_inv (Suc n) t' \<and>
    name_val t' = (\<lambda>k'. if k' = k then d else name_val t k')"
proof -
  let ?m = "if nt_MaxKey t < k then t\<lparr>nt_MaxKey := k\<rparr> else t"
  have m: "nt_ht ?m = nt_ht t" "nt_deleted_key_data ?m = nt_deleted_key_data t" "nt_MaxKey t \<le> nt_MaxKey ?m" "k \<le> nt_MaxKey ?m"
    by auto
  note D = name_invD [OF inv]
  have result: "name_inv (Suc n) t' \<and> name_val t' = (\<lambda>k'. if k' = k then d else name_val t k')"
    if "nk.store_inv (Suc n) (nt_ht t')" "\<And>p. ht_lookup (nt_ht t') p \<noteq> None \<Longrightarrow> p \<in> range uint_key"
      "name_val t' = (\<lambda>k'. if k' = k then d else name_val t k')" "nt_MaxKey t' = nt_MaxKey ?m" for t'
  proof -
    have "k' \<le> nt_MaxKey t'" if v: "name_val t' k' \<noteq> NULL" for k'
    proof (cases "k' = k")
      case False
      then have "name_val t k' \<noteq> NULL" using v \<open>name_val t' = _\<close> by simp
      then show ?thesis using D(7) [of k'] m(3) \<open>nt_MaxKey t' = _\<close> by (metis order_trans)
    qed (use m(4) \<open>nt_MaxKey t' = _\<close> in simp)
    then show ?thesis using that by (simp add: name_inv_def)
  qed
  show ?thesis
  proof (cases "k = DELETED_KEY_NAME")
    case True
    let ?t = "?m\<lparr>nt_deleted_key_data := d\<rparr>"
    have "mesa_HashInsert (\<lambda>_. True) t k d = Some ?t" using True by (simp add: mesa_HashInsert_def Let_def)
    moreover have "nk.store_inv (Suc n) (nt_ht ?t)"
      using D(1) ht_steps_Suc m(1) by (simp add: nk.store_inv_def)
    moreover have "name_val ?t = (\<lambda>k'. if k' = k then d else name_val t k')"
      using True m(1) by (auto simp: name_val_def fun_eq_iff)
    ultimately show ?thesis using result [of ?t] D(6) m(1) by auto
  next
    case False
    obtain r where r: "mesa_hash_table_search_pre_hashed (nt_ht t) (uint_hash k) (uint_key k) = Some r" "case r of
         None \<Rightarrow> ht_lookup (nt_ht t) (uint_key k) = None
       | Some a \<Rightarrow> a < unat (ht_size (nt_ht t)) \<and> entry_is_present (nt_ht t) (ht_table (nt_ht t) ! a) \<and>
           he_key (ht_table (nt_ht t) ! a) = uint_key k" using name_search [OF inv, of k] by (auto split: option.splits)
    have val: "name_val t' = (\<lambda>k'. if k' = k then d else name_val t k')"
      if "ht_lookup (nt_ht t') = (\<lambda>p. if p = uint_key k then Some d else ht_lookup (nt_ht t) p)"
        "nt_deleted_key_data t' = nt_deleted_key_data t" for t'
      using that False by (auto simp: name_val_def fun_eq_iff)
    show ?thesis
    proof (cases r)
      case (Some a)
      let ?t = "?m\<lparr>nt_ht := set_entry_data (nt_ht t) a d\<rparr>"
      have run: "mesa_HashInsert (\<lambda>_. True) t k d = Some ?t"
        using False r(1) Some m(1) by (simp add: mesa_HashInsert_def Let_def)
      from r(2) Some have a: "a < unat (ht_size (nt_ht t))" "entry_is_present (nt_ht t) (ht_table (nt_ht t) ! a)"
        "he_key (ht_table (nt_ht t) ! a) = uint_key k" by auto
      note s = set_entry_data_lookup [OF inv a(1,2), of d]
      have l: "ht_lookup (nt_ht ?t) = (\<lambda>p. if p = uint_key k then Some d else ht_lookup (nt_ht t) p)"
        using s(2) a(3) by (simp add: fun_eq_iff)
      have rng: "p \<in> range uint_key" if "ht_lookup (nt_ht ?t) p \<noteq> None" for p
        using that D(6) [of p] unfolding l by (auto split: if_splits)
      have v: "name_val ?t = (\<lambda>k'. if k' = k then d else name_val t k')" by (rule val [OF l]) (use m(2) in simp)
      have i: "nk.store_inv (Suc n) (nt_ht ?t)"
        using D(1) s(1) ht_steps_Suc by (simp add: nk.store_inv_def ht_steps_def)
      have "nt_MaxKey ?t = nt_MaxKey ?m" by simp
      from result [OF i rng v this] run show ?thesis by blast
    next
      case None
      from nk.put_law [of n "nt_ht t" "uint_key k" d] D(1) n k False obtain h where
        h: "map_option fst (mesa_hash_table_insert (\<lambda>_. True) (nt_ht t) (uint_key k) d) = Some h"
        "nk.store_inv (Suc n) h"
        "ht_lookup h = (\<lambda>p. if uint_key_compare p (uint_key k) then Some d else ht_lookup (nt_ht t) p)"
        by auto
      let ?t = "?m\<lparr>nt_ht := h\<rparr>"
      obtain a where a: "mesa_hash_table_insert_pre_hashed (\<lambda>_. True) (nt_ht t) (uint_hash k) (uint_key k) d = Some (h, a)"
        using h(1) by (auto simp: mesa_hash_table_insert_def mesa_hash_table_insert_pre_hashed_def D(3))
      have run: "mesa_HashInsert (\<lambda>_. True) t k d = Some ?t"
        using False r(1) None m(1) a by (simp add: mesa_HashInsert_def Let_def)
      have l: "ht_lookup (nt_ht ?t) = (\<lambda>p. if p = uint_key k then Some d else ht_lookup (nt_ht t) p)"
        using h(3) by (simp add: fun_eq_iff uint_key_compare_def)
      have rng: "p \<in> range uint_key" if "ht_lookup (nt_ht ?t) p \<noteq> None" for p
        using that D(6) [of p] unfolding l by (auto split: if_splits)
      have v: "name_val ?t = (\<lambda>k'. if k' = k then d else name_val t k')" by (rule val [OF l]) (use m(2) in simp)
      have i: "nk.store_inv (Suc n) (nt_ht ?t)" using h(2) by simp
      have "nt_MaxKey ?t = nt_MaxKey ?m" by simp
      from result [OF i rng v this] run show ?thesis by blast
    qed
  qed
qed

lemma name_del:
  assumes inv: "name_inv n t"
  shows "\<exists>t'. mesa_HashRemove t k = Some t' \<and> name_inv n t' \<and> name_val t' = (\<lambda>k'. if k' = k then NULL else name_val t k')"
proof -
  note D = name_invD [OF inv]
  have result: "name_inv n t' \<and> name_val t' = (\<lambda>k'. if k' = k then NULL else name_val t k')"
    if "nk.store_inv n (nt_ht t')" "\<And>p. ht_lookup (nt_ht t') p \<noteq> None \<Longrightarrow> p \<in> range uint_key"
      "name_val t' = (\<lambda>k'. if k' = k then NULL else name_val t k')" "nt_MaxKey t' = nt_MaxKey t" for t'
    using that D(7) by (auto simp: name_inv_def)
  show ?thesis
  proof (cases "k = DELETED_KEY_NAME")
    case True
    let ?t = "t\<lparr>nt_deleted_key_data := NULL\<rparr>"
    have "name_val ?t = (\<lambda>k'. if k' = k then NULL else name_val t k')"
      using True by (auto simp: name_val_def fun_eq_iff)
    then show ?thesis using True result [of ?t] D(1,6) by (simp add: mesa_HashRemove_def)
  next
    case False
    from nk.del_law [OF D(1), of "uint_key k"] obtain h where
      h: "hash_table_delete (nt_ht t) (uint_key k) = Some h" "nk.store_inv n h"
      "ht_lookup h = (\<lambda>p. if uint_key_compare p (uint_key k) then None else ht_lookup (nt_ht t) p)" by blast
    obtain r where r: "mesa_hash_table_search_pre_hashed (nt_ht t) (uint_hash k) (uint_key k) = Some r"
      "mesa_hash_table_search (nt_ht t) (uint_key k) = Some r" using name_search [OF inv, of k] by blast
    let ?t = "t\<lparr>nt_ht := h\<rparr>"
    have "mesa_HashRemove t k = Some ?t"
      using False r h(1) by (simp add: mesa_HashRemove_def hash_table_delete_def)
    moreover have "name_val ?t = (\<lambda>k'. if k' = k then NULL else name_val t k')"
      using False h(3) by (auto simp: name_val_def fun_eq_iff uint_key_compare_def)
    ultimately show ?thesis using result [of ?t] h(2,3) D(6) by (auto simp: uint_key_compare_def split: if_splits)
  qed
qed

interpretation nt: keyed_store name_inv 131072 "\<lambda>k. k \<noteq> 0" "(=)" name_val
  "mesa_HashInsert (\<lambda>_. True)" mesa_HashRemove "\<lambda>d. d" NULL
  by unfold_locales (use name_put name_del in blast)+

lemma name_create:
  "\<exists>t. mesa_NewHashTable True (\<lambda>_. True) deleted_addr = Some t \<and> name_inv 0 t \<and> name_val t = (\<lambda>_. NULL) \<and>
    \<not> nt_InDeleteAll t"
proof -
  obtain ht0 where c: "mesa_hash_table_create (\<lambda>_. True) deleted_addr (Some uint_key_hash) uint_key_compare = Some (ht_fresh ht0 0)"
    "ht_key_hash_function (ht_fresh ht0 0) = Some uint_key_hash"
    "ht_key_equals_function (ht_fresh ht0 0) = uint_key_compare"
    using create_fresh by blast
  let ?h = "ht0\<lparr>ht_deleted_key := uint_key DELETED_KEY_NAME\<rparr>"
  have n: "ht_deleted_key ?h \<noteq> NULL" by (simp add: DELETED_KEY_NAME_def)
  note f = ht_fresh_new [OF n]
  have e: "ht_key_hash_function (ht_fresh ?h 0) = Some uint_key_hash"
    "ht_key_equals_function (ht_fresh ?h 0) = uint_key_compare" "ht_deleted_key (ht_fresh ?h 0) = uint_key DELETED_KEY_NAME"
    using c(2,3) by (auto simp: ht_fresh_def split: prod.splits)
  let ?t = "\<lparr>nt_ht = ht_fresh ?h 0, nt_MaxKey = 0, nt_InDeleteAll = False, nt_deleted_key_data = NULL\<rparr>"
  have "mesa_NewHashTable True (\<lambda>_. True) deleted_addr = Some ?t"
    by (simp add: mesa_NewHashTable_def c(1) ht_fresh_set_deleted_key)
  moreover have v: "name_val ?t = (\<lambda>_. NULL)" using f(3) by (auto simp: name_val_def fun_eq_iff)
  moreover have "name_inv 0 ?t"
    unfolding name_inv_def v using f e by (simp add: nk.store_inv_def nk.kt_def)
  ultimately show ?thesis by (intro exI [of _ ?t]) simp
qed

section \<open>Walking and deleting all\<close>

lemma present_lookup:
  assumes "name_inv n t"
  shows "(\<exists>e. e \<in> set (ht_table (nt_ht t)) \<and> entry_is_present (nt_ht t) e \<and> he_key e = p \<and> he_data e = d) \<longleftrightarrow>
    ht_lookup (nt_ht t) p = Some d"
proof -
  note D = name_invD [OF assms]
  have len: "length (ht_table (nt_ht t)) = unat (ht_size (nt_ht t))" using D(2) by (simp add: nk.kt_def ht_wf_def)
  have eq: "ht_key_equals_function (nt_ht t) = uint_key_compare" using D(2) by (simp add: nk.kt_def)
  show ?thesis
  proof
    assume "\<exists>e. e \<in> set (ht_table (nt_ht t)) \<and> entry_is_present (nt_ht t) e \<and> he_key e = p \<and> he_data e = d"
    then obtain a where a: "a < unat (ht_size (nt_ht t))" "entry_is_present (nt_ht t) (ht_table (nt_ht t) ! a)"
      "he_key (ht_table (nt_ht t) ! a) = p" "he_data (ht_table (nt_ht t) ! a) = d"
      by (auto simp: in_set_conv_nth len)
    then show "ht_lookup (nt_ht t) p = Some d"
      using nk.lookup_present [OF D(2) a(1,2), of p] by (simp add: uint_key_compare_def)
  next
    assume "ht_lookup (nt_ht t) p = Some d"
    then show "\<exists>e. e \<in> set (ht_table (nt_ht t)) \<and> entry_is_present (nt_ht t) e \<and> he_key e = p \<and> he_data e = d"
      by (auto simp: ht_lookup_def eq uint_key_compare_def find_Some_iff in_set_conv_nth)
  qed
qed

lemma delete_loop_result:
  "length (ht_table ht) = unat (ht_size ht) \<Longrightarrow> delete_loop ht entry =
    (map (\<lambda>i. (ucast (he_key (ht_table ht ! i)), he_data (ht_table ht ! i))) (hash_table_foreach ht entry),
     fold (\<lambda>i h. mesa_hash_table_remove h (Some i)) (hash_table_foreach ht entry) ht)"
proof (induction ht entry rule: delete_loop.induct)
  case (1 ht entry)
  show ?case
  proof (cases "mesa_hash_table_next_entry ht entry")
    case None
    then show ?thesis by (simp add: delete_loop.simps [of ht entry] hash_table_foreach.simps [of ht entry])
  next
    case (Some i)
    let ?h = "mesa_hash_table_remove ht (Some i)"
    have "i < unat (ht_size ht)" using Some next_present_ge by (auto simp: mesa_hash_table_next_entry_def)
    have size: "ht_size ?h = ht_size ht" "length (ht_table ?h) = length (ht_table ht)" "ht_deleted_key ?h = ht_deleted_key ht"
      by (simp_all add: mesa_hash_table_remove_def)
    have same: "ht_table ?h ! j = ht_table ht ! j" if "i < j" for j
      using that by (simp add: mesa_hash_table_remove_def)
    have rest: "hash_table_foreach ?h (Some i) = hash_table_foreach ht (Some i)"
      unfolding foreach_filter using same size by (auto simp: entry_is_present_def intro!: filter_cong)
    have above: "i < j" if "j \<in> set (hash_table_foreach ht (Some i))" for j
      using that by (auto simp: foreach_filter)
    have "delete_loop ?h (Some i) =
      (map (\<lambda>j. (ucast (he_key (ht_table ?h ! j)), he_data (ht_table ?h ! j))) (hash_table_foreach ht (Some i)),
       fold (\<lambda>j h. mesa_hash_table_remove h (Some j)) (hash_table_foreach ht (Some i)) ?h)"
      using 1 Some size rest by simp
    moreover have "map (\<lambda>j. (ucast (he_key (ht_table ?h ! j)) :: u32, he_data (ht_table ?h ! j))) (hash_table_foreach ht (Some i)) =
      map (\<lambda>j. (ucast (he_key (ht_table ht ! j)), he_data (ht_table ht ! j))) (hash_table_foreach ht (Some i))"
      using same above by simp
    ultimately show ?thesis using Some
      by (simp add: delete_loop.simps [of ht entry] hash_table_foreach.simps [of ht entry] Let_def)
  qed
qed

lemma fold_remove_result:
  assumes "nk.store_inv n h" "distinct js" "\<forall>j \<in> set js. j < unat (ht_size h) \<and> entry_is_present h (ht_table h ! j)"
  shows "nk.store_inv n (fold (\<lambda>i h. mesa_hash_table_remove h (Some i)) js h) \<and>
    (\<forall>p. ht_lookup (fold (\<lambda>i h. mesa_hash_table_remove h (Some i)) js h) p =
      (if p \<in> (\<lambda>j. he_key (ht_table h ! j)) ` set js then None else ht_lookup h p))"
  using assms
proof (induction js arbitrary: h)
  case (Cons j js)
  let ?h = "mesa_hash_table_remove h (Some j)"
  have j: "j < unat (ht_size h)" "entry_is_present h (ht_table h ! j)" and kt: "nk.kt h" "ht_steps h n"
    using Cons.prems(1,3) by (simp_all add: nk.store_inv_def)
  have frame: "ht_size ?h = ht_size h" "ht_deleted_key ?h = ht_deleted_key h" "ht_key_hash_function ?h = ht_key_hash_function h"
    "\<And>i. i \<noteq> j \<Longrightarrow> ht_table ?h ! i = ht_table h ! i"
    by (simp_all add: mesa_hash_table_remove_def)
  have inv: "nk.store_inv n ?h"
    using nk.remove_correct(1) [OF kt(1) j] nk.remove_steps [OF kt j] Cons.prems(1) frame
    by (simp add: nk.store_inv_def)
  have ne: "i \<noteq> j" if "i \<in> set js" for i using that Cons.prems(2) by auto
  have rest: "\<forall>i \<in> set js. i < unat (ht_size ?h) \<and> entry_is_present ?h (ht_table ?h ! i)"
    using Cons.prems(3) ne frame by (simp add: entry_is_present_def)
  have keys: "(\<lambda>i. he_key (ht_table ?h ! i)) ` set js = (\<lambda>i. he_key (ht_table h ! i)) ` set js"
    using ne frame(4) by (intro image_cong) auto
  have "distinct js" using Cons.prems(2) by simp
  from Cons.IH [OF inv this rest] show ?case
    unfolding keys by (simp add: nk.remove_correct(2) [OF kt(1) j] uint_key_compare_def)
qed simp

lemma foreach_members:
  "set (hash_table_foreach ht None) = {j. j < unat (ht_size ht) \<and> entry_is_present ht (ht_table ht ! j)}"
  "distinct (hash_table_foreach ht None)"
  by (auto simp: foreach_filter)

lemma name_delete_all:
  assumes "name_inv n t"
  shows "fst (mesa_HashDeleteAll t) = hash_walk t \<and> name_inv n (snd (mesa_HashDeleteAll t)) \<and>
    name_val (snd (mesa_HashDeleteAll t)) = (\<lambda>_. NULL) \<and> \<not> mesa_DeleteHashTable (snd (mesa_HashDeleteAll t))"
proof -
  note D = name_invD [OF assms]
  let ?h = "nt_ht t"
  let ?e = "fold (\<lambda>i h. mesa_hash_table_remove h (Some i)) (hash_table_foreach ?h None) ?h"
  have len: "length (ht_table ?h) = unat (ht_size ?h)" using D(2) by (simp add: nk.kt_def ht_wf_def)
  have "\<forall>j \<in> set (hash_table_foreach ?h None). j < unat (ht_size ?h) \<and> entry_is_present ?h (ht_table ?h ! j)"
    by (simp add: foreach_members(1))
  note r = fold_remove_result [OF D(1) foreach_members(2) this]
  have none: "ht_lookup ?e p = None" for p
  proof (cases "ht_lookup ?h p")
    case (Some d)
    then obtain e where "e \<in> set (ht_table ?h)" "entry_is_present ?h e" "he_key e = p"
      using present_lookup [OF assms, of p d] by blast
    then have "p \<in> (\<lambda>j. he_key (ht_table ?h ! j)) ` set (hash_table_foreach ?h None)"
      using len by (auto simp: foreach_members(1) in_set_conv_nth image_iff)
    then show ?thesis using r by simp
  qed (use r in simp)
  have all: "mesa_HashDeleteAll t = (hash_walk t, snd (mesa_HashDeleteAll t)) \<and>
      nt_ht (snd (mesa_HashDeleteAll t)) = ?e \<and> nt_deleted_key_data (snd (mesa_HashDeleteAll t)) = NULL"
    by (simp add: mesa_HashDeleteAll_def hash_walk_def delete_loop_result [OF len] Let_def)
  have val: "name_val (snd (mesa_HashDeleteAll t)) = (\<lambda>_. NULL)"
    using all none by (simp add: name_val_def fun_eq_iff)
  have "name_inv n (snd (mesa_HashDeleteAll t))"
    unfolding name_inv_def val using all none r by simp
  moreover have "\<not> mesa_DeleteHashTable (snd (mesa_HashDeleteAll t))"
  proof
    assume "mesa_DeleteHashTable (snd (mesa_HashDeleteAll t))"
    then obtain i where "mesa_hash_table_next_entry ?e None = Some i" using all by (auto simp: mesa_DeleteHashTable_def)
    then have "i \<in> set (hash_table_foreach ?e None)" by (simp add: hash_table_foreach.simps [of _ None])
    then have i: "i < unat (ht_size ?e)" "entry_is_present ?e (ht_table ?e ! i)" by (simp_all add: foreach_members)
    have "nk.kt ?e" using r by (simp add: nk.store_inv_def)
    from nk.lookup_present [OF this i, of "he_key (ht_table ?e ! i)"] none show False by (simp add: uint_key_compare_def)
  qed
  ultimately show ?thesis using all val by (metis fst_conv)
qed

lemma name_walk:
  assumes "name_inv n t"
  shows "distinct (map fst (hash_walk t)) \<and> (\<forall>k d. d \<noteq> NULL \<longrightarrow> ((k, d) \<in> set (hash_walk t) \<longleftrightarrow> name_val t k = d)) \<and>
    mesa_HashNumEntries t = of_nat (length (hash_walk t))"
proof -
  note D = name_invD [OF assms]
  let ?h = "nt_ht t"
  have wf: "ht_wf uint_key_hash ?h" and eq: "ht_key_equals_function ?h = uint_key_compare"
    using D(2) by (simp_all add: nk.kt_def)
  note w = ht_wf_simps [OF wf]
  let ?k = "\<lambda>i. he_key (ht_table ?h ! i)"
  let ?F = "hash_table_foreach ?h None"
  have key: "\<exists>k. ?k i = uint_key k \<and> k \<noteq> DELETED_KEY_NAME" if "i \<in> set ?F" for i
  proof -
    have i: "i < unat (ht_size ?h)" "entry_is_present ?h (ht_table ?h ! i)" using that by (simp_all add: foreach_members)
    have "ht_lookup ?h (?k i) \<noteq> None"
      using nk.lookup_present [OF D(2) i, of "?k i"] by (simp add: uint_key_compare_def)
    then obtain k where "?k i = uint_key k" using D(6) by blast
    moreover have "?k i \<noteq> uint_key DELETED_KEY_NAME" using i(2) D(4) by (simp add: entry_is_present_def)
    ultimately show ?thesis by auto
  qed
  have inj: "inj_on ?k (set ?F)"
    using ht_wf_unique [OF wf] by (auto simp: inj_on_def foreach_members eq uint_key_compare_def)
  have "inj_on (\<lambda>i. ucast (?k i) :: u32) (set ?F)"
  proof (rule inj_onI)
    fix i j assume ij: "i \<in> set ?F" "j \<in> set ?F" and e: "(ucast (?k i) :: u32) = ucast (?k j)"
    obtain a b where "?k i = uint_key a" "?k j = uint_key b" using key [OF ij(1)] key [OF ij(2)] by blast
    then have "?k i = ?k j" using e by simp
    then show "i = j" using inj ij by (auto dest: inj_onD)
  qed
  then have d: "distinct (map (\<lambda>i. ucast (?k i) :: u32) ?F)" using foreach_members(2) by (simp add: distinct_map)
  have not1: "(ucast (?k i) :: u32) \<noteq> DELETED_KEY_NAME" if "i \<in> set ?F" for i using key [OF that] by auto
  have dist: "distinct (map fst (hash_walk t))"
    using d not1 [THEN not_sym] by (auto simp: hash_walk_def comp_def)
  have mem: "(k, d) \<in> set (hash_walk t) \<longleftrightarrow> name_val t k = d" if "d \<noteq> NULL" for k d
  proof (cases "k = DELETED_KEY_NAME")
    case True
    have "(k, d) \<notin> (\<lambda>i. (ucast (?k i), he_data (ht_table ?h ! i))) ` set ?F" using not1 [THEN not_sym] True by auto
    then show ?thesis using True that by (auto simp: hash_walk_def name_val_def)
  next
    case False
    have "(k, d) \<in> set (hash_walk t) \<longleftrightarrow> (\<exists>i \<in> set ?F. (ucast (?k i) :: u32) = k \<and> he_data (ht_table ?h ! i) = d)"
      using False by (auto simp: hash_walk_def)
    also have "\<dots> \<longleftrightarrow> (\<exists>i \<in> set ?F. ?k i = uint_key k \<and> he_data (ht_table ?h ! i) = d)"
      using key by (metis uint_key_hash_key(2))
    also have "\<dots> \<longleftrightarrow> (\<exists>e. e \<in> set (ht_table ?h) \<and> entry_is_present ?h e \<and> he_key e = uint_key k \<and> he_data e = d)"
      using w(2) by (auto simp: foreach_members in_set_conv_nth)
    also have "\<dots> \<longleftrightarrow> ht_lookup ?h (uint_key k) = Some d" by (rule present_lookup [OF assms])
    also have "\<dots> \<longleftrightarrow> name_val t k = d" using False that by (auto simp: name_val_def split: option.splits)
    finally show ?thesis .
  qed
  have "length ?F = unat (ht_entries ?h)"
    using arg_cong [OF foreach_entries [OF w(2)], of length] w(4) by simp
  then have "mesa_HashNumEntries t = of_nat (length (hash_walk t))"
    by (simp add: mesa_HashNumEntries_def hash_walk_def)
  then show ?thesis using dist mem by blast
qed

section \<open>Free blocks\<close>

definition name_used :: "mesa_HashTable \<Rightarrow> nat \<Rightarrow> bool" where
  "name_used t k \<longleftrightarrow> name_val t (of_nat k) \<noteq> NULL"

definition free_block :: "mesa_HashTable \<Rightarrow> nat \<Rightarrow> nat \<Rightarrow> bool" where
  "free_block t n s \<longleftrightarrow> (\<forall>j < n. \<not> name_used t (s + j))"

lemma unat_maxKey: "unat maxKey = 2 ^ 32 - 2"
  by (simp add: maxKey_def)

lemma find_block_result:
  assumes inv: "name_inv m t"
    and "unat key \<le> 2 ^ 32 - 2" "0 < unat fs" "unat fs + unat fc = unat key" "unat fc < unat n"
    "\<forall>k. unat fs \<le> k \<and> k < unat key \<longrightarrow> \<not> name_used t k" "\<forall>s. 0 < s \<and> s < unat fs \<longrightarrow> \<not> free_block t (unat n) s"
  shows "\<exists>r. find_block t n key fc fs = Some r \<and>
    (if r = 0 then \<forall>s. 0 < s \<and> s + unat n \<le> 2 ^ 32 - 2 \<longrightarrow> \<not> free_block t (unat n) s
     else unat r + unat n \<le> 2 ^ 32 - 2 \<and> free_block t (unat n) (unat r) \<and>
       (\<forall>s. 0 < s \<and> s < unat r \<longrightarrow> \<not> free_block t (unat n) s))"
  using assms(2-)
proof (induction "unat (maxKey - key)" arbitrary: key fc fs rule: less_induct)
  case less
  note P = less.prems
  show ?case
  proof (cases "key = maxKey")
    case True
    have "\<not> free_block t (unat n) s" if "0 < s" "s + unat n \<le> 2 ^ 32 - 2" for s
    proof -
      have "unat key = 2 ^ 32 - 2" using True unat_maxKey by simp
      then have "s < unat fs" using that(2) P(3,4) by linarith
      then show ?thesis using P(6) that(1) by blast
    qed
    then show ?thesis using True by (subst find_block.simps) simp
  next
    case False
    have lt: "unat key < 2 ^ 32 - 2"
      using P(1) False unat_maxKey by (metis le_neq_implies_less word_unat_eq_iff)
    then have k1: "unat (key + 1) = unat key + 1" by (subst unat_Suc_less) simp_all
    note dec = maxKey_step [OF False]
    have at: "name_val t key \<noteq> NULL \<longleftrightarrow> name_used t (unat key)" by (simp add: name_used_def)
    note look = name_lookup [OF inv, of key]
    consider (used) "name_used t (unat key)" | (found) "\<not> name_used t (unat key)" "fc + 1 = n"
      | (free) "\<not> name_used t (unat key)" "fc + 1 \<noteq> n" by blast
    then show ?thesis
    proof cases
      case used
      then have run: "find_block t n key fc fs = find_block t n (key + 1) 0 (key + 1)"
        using False look at by (subst find_block.simps) simp
      have blocked: "\<not> free_block t (unat n) s" if "0 < s" "s < unat (key + 1)" for s
      proof (cases "s < unat fs")
        case True
        then show ?thesis using P(6) that(1) by blast
      next
        case ge: False
        then have "unat key - s < unat n" "s + (unat key - s) = unat key" using P(3,4) that(2) k1 by linarith+
        then show ?thesis using used unfolding free_block_def by metis
      qed
      show ?thesis unfolding run
        by (rule less.hyps [OF dec]) (use lt k1 P(4) blocked in auto)
    next
      case found
      have f1: "unat (fc + 1) = unat fc + 1" using P(3) lt P(2) by (subst unat_Suc_less) simp_all
      then have n: "unat n = unat fc + 1" using found(2) by simp
      have "find_block t n key fc fs = Some fs"
        using False look at found by (subst find_block.simps) simp
      moreover have "fs \<noteq> 0" using P(2) by auto
      moreover have "unat fs + unat n \<le> 2 ^ 32 - 2" using n P(3) lt by linarith
      moreover have "free_block t (unat n) (unat fs)"
        unfolding free_block_def
      proof (intro allI impI)
        fix j assume "j < unat n"
        then have "unat fs + j \<le> unat key" using n P(3) by linarith
        then show "\<not> name_used t (unat fs + j)" using P(5) found(1) by (cases "unat fs + j = unat key") auto
      qed
      ultimately show ?thesis using P(6) by auto
    next
      case free
      have f1: "unat (fc + 1) = unat fc + 1" using P(3) lt P(2) by (subst unat_Suc_less) simp_all
      then have "unat fc + 1 \<noteq> unat n" using free(2) by (metis word_unat_eq_iff)
      then have n: "unat (fc + 1) < unat n" using P(4) f1 by linarith
      have run: "find_block t n key fc fs = find_block t n (key + 1) (fc + 1) fs"
        using False look at free by (subst find_block.simps) simp
      have s: "unat fs + unat (fc + 1) = unat (key + 1)" using P(3) f1 k1 by linarith
      have fr: "\<forall>k. unat fs \<le> k \<and> k < unat (key + 1) \<longrightarrow> \<not> name_used t k"
        using P(5) free(1) k1 by (auto simp: less_Suc_eq)
      have k: "unat (key + 1) \<le> 2 ^ 32 - 2" using k1 lt by linarith
      show ?thesis unfolding run by (rule less.hyps [OF dec k P(2) s n fr P(6)])
    qed
  qed
qed

text \<open>C36. A table of names behaves as a function from the non-zero names to pointers, name 1, which
  the hash table uses as its tombstone, included: after up to 131072 insertions and removals on a new
  table a lookup gives the data last inserted, or \<open>NULL\<close>; a walk calls back once for each name that
  has data; the count is that of the calls; and \<open>_mesa_HashDeleteAll\<close> makes the same calls and leaves
  a table without names, which \<open>_mesa_DeleteHashTable\<close> does not complain about.\<close>

theorem name_table_runs:
  assumes "length ops \<le> 131072" "\<forall>op \<in> set ops. usable_op (\<lambda>k. k \<noteq> 0) op"
  shows "\<exists>t0 t. mesa_NewHashTable True (\<lambda>_. True) deleted_addr = Some t0 \<and>
    run_store (mesa_HashInsert (\<lambda>_. True)) mesa_HashRemove t0 ops = Some t \<and>
    (\<forall>k. mesa_HashLookup t k = Some (apply_ops (=) (\<lambda>d. d) NULL (\<lambda>_. NULL) ops k)) \<and>
    distinct (map fst (hash_walk t)) \<and>
    (\<forall>k d. d \<noteq> NULL \<longrightarrow> ((k, d) \<in> set (hash_walk t) \<longleftrightarrow> apply_ops (=) (\<lambda>d. d) NULL (\<lambda>_. NULL) ops k = d)) \<and>
    mesa_HashNumEntries t = of_nat (length (hash_walk t)) \<and>
    fst (mesa_HashDeleteAll t) = hash_walk t \<and>
    (\<forall>k. mesa_HashLookup (snd (mesa_HashDeleteAll t)) k = Some NULL) \<and>
    \<not> mesa_DeleteHashTable (snd (mesa_HashDeleteAll t))"
proof -
  obtain t0 where t0: "mesa_NewHashTable True (\<lambda>_. True) deleted_addr = Some t0" "name_inv 0 t0"
    "name_val t0 = (\<lambda>_. NULL)" using name_create by blast
  from nt.run_correct [OF t0(2) _ assms(2)] assms(1) obtain n t where
    t: "run_store (mesa_HashInsert (\<lambda>_. True)) mesa_HashRemove t0 ops = Some t" "name_inv n t"
    "name_val t = apply_ops (=) (\<lambda>d. d) NULL (\<lambda>_. NULL) ops"
    using t0(3) by auto
  note d = name_delete_all [OF t(2)]
  have "\<forall>k. mesa_HashLookup (snd (mesa_HashDeleteAll t)) k = Some NULL"
    using name_lookup [of n "snd (mesa_HashDeleteAll t)"] d by simp
  then show ?thesis
    using t0(1) t(1) name_lookup [OF t(2)] name_walk [OF t(2)] d unfolding t(3) by blast
qed

theorem name_table_runs_witness:
  "\<exists>t. mesa_HashLookup t 1 = Some 5 \<and> mesa_HashLookup t 9 = Some NULL \<and> mesa_HashLookup t 10 = Some 7"
proof -
  have "length [Store (1 :: u32) (5 :: ptr), Store 9 3, Store 10 6, Drop 9, Store 10 7] \<le> 131072"
    "\<forall>op \<in> set [Store (1 :: u32) (5 :: ptr), Store 9 3, Store 10 6, Drop 9, Store 10 7]. usable_op (\<lambda>k. k \<noteq> 0) op"
    by simp_all
  from name_table_runs [OF this] obtain t where "\<forall>k. mesa_HashLookup t k =
      Some (apply_ops (=) (\<lambda>d. d) NULL (\<lambda>_. NULL)
        [Store (1 :: u32) (5 :: ptr), Store 9 3, Store 10 6, Drop 9, Store 10 7] k)" by blast
  then show ?thesis by (intro exI [of _ t]) simp
qed

text \<open>C37. The keys \<open>_mesa_HashFindFreeKeyBlock\<close> returns are free and below the largest key; it returns 0
  only when there is no such block of free keys, and a slow search finds the first one.  For the
  largest number of keys the subtraction wraps, and it promises the keys from \<open>MaxKey + 1\<close> on,
  whatever they are.\<close>

theorem find_free_key_block_correct:
  assumes "name_inv m t" "0 < unat n"
  shows "\<exists>r. mesa_HashFindFreeKeyBlock t n = Some r \<and>
    (if n = 0xffffffff \<and> nt_MaxKey t \<noteq> 0xffffffff then r = nt_MaxKey t + 1
     else if r = 0 then \<forall>s. 0 < s \<and> s + unat n \<le> 2 ^ 32 - 2 \<longrightarrow> \<not> free_block t (unat n) s
     else unat r + unat n \<le> 2 ^ 32 - 2 \<and> free_block t (unat n) (unat r) \<and>
       (maxKey - n \<le> nt_MaxKey t \<longrightarrow> (\<forall>s. 0 < s \<and> s < unat r \<longrightarrow> \<not> free_block t (unat n) s)))"
proof (cases "nt_MaxKey t < maxKey - n")
  case False
  have "\<exists>r. find_block t n 1 0 1 = Some r \<and>
    (if r = 0 then \<forall>s. 0 < s \<and> s + unat n \<le> 2 ^ 32 - 2 \<longrightarrow> \<not> free_block t (unat n) s
     else unat r + unat n \<le> 2 ^ 32 - 2 \<and> free_block t (unat n) (unat r) \<and>
       (\<forall>s. 0 < s \<and> s < unat r \<longrightarrow> \<not> free_block t (unat n) s))"
    by (rule find_block_result [OF assms(1)]) (use assms(2) in auto)
  moreover have "nt_MaxKey t = 0xffffffff" if "n = 0xffffffff"
  proof -
    have e: "maxKey - 0xffffffff = 0xffffffff" by (simp add: maxKey_def)
    have "0xffffffff \<le> nt_MaxKey t" using False unfolding that e by (rule leI)
    then show ?thesis using unsigned_less [of "nt_MaxKey t", where 'a = nat]
      by (simp add: word_le_nat_alt word_unat_eq_iff)
  qed
  ultimately show ?thesis using False by (auto simp: mesa_HashFindFreeKeyBlock_def)
next
  case True
  then have run: "mesa_HashFindFreeKeyBlock t n = Some (nt_MaxKey t + 1)" by (simp add: mesa_HashFindFreeKeyBlock_def)
  show ?thesis
  proof (cases "n = 0xffffffff")
    case big: True
    have "nt_MaxKey t \<noteq> 0xffffffff" using True big by (auto simp: maxKey_def)
    then show ?thesis using run big by simp
  next
    case False
    have n: "unat n \<le> 2 ^ 32 - 2"
    proof -
      have "unat n \<noteq> 2 ^ 32 - 1" using False by (auto simp: word_unat_eq_iff)
      then show ?thesis using unsigned_less [of n, where 'a = nat] by simp
    qed
    then have "n \<le> maxKey" using unat_maxKey by (simp add: word_le_nat_alt)
    then have "unat (maxKey - n) = 2 ^ 32 - 2 - unat n" using unat_maxKey by (simp add: unat_sub)
    then have lt: "unat (nt_MaxKey t) < 2 ^ 32 - 2 - unat n" using True by (simp add: word_less_nat_alt)
    then have r: "unat (nt_MaxKey t + 1) = unat (nt_MaxKey t) + 1" by (subst unat_Suc_less) simp_all
    then have r0: "nt_MaxKey t + 1 \<noteq> 0" by auto
    have "\<not> name_used t (unat (nt_MaxKey t) + 1 + j)" if "j < unat n" for j
    proof -
      have "unat (of_nat (unat (nt_MaxKey t) + 1 + j) :: u32) = unat (nt_MaxKey t) + 1 + j"
        using that lt by (intro unat_of_nat_less) simp
      then have "\<not> (of_nat (unat (nt_MaxKey t) + 1 + j) :: u32) \<le> nt_MaxKey t" by (simp add: word_le_nat_alt)
      then show ?thesis using name_invD(7) [OF assms(1)] unfolding name_used_def by blast
    qed
    then have "free_block t (unat n) (unat (nt_MaxKey t + 1))" by (simp add: free_block_def r)
    moreover have "unat (nt_MaxKey t + 1) + unat n \<le> 2 ^ 32 - 2" using lt r by linarith
    ultimately show ?thesis using run r0 False True by auto
  qed
qed

theorem find_free_key_block_correct_witness:
  "\<exists>t r. mesa_NewHashTable True (\<lambda>_. True) 0x1000 = Some t \<and> mesa_HashFindFreeKeyBlock t 3 = Some r \<and>
    r \<noteq> 0 \<and> free_block t 3 (unat r)"
proof -
  obtain t where t: "mesa_NewHashTable True (\<lambda>_. True) 0x1000 = Some t" "name_inv 0 t" "name_val t = (\<lambda>_. NULL)"
    using name_create by blast
  have three: "unat (3 :: u32) = 3" by simp
  have free: "free_block t 3 1" using t(3) by (simp add: free_block_def name_used_def)
  from find_free_key_block_correct [OF t(2), of 3] obtain r where r: "mesa_HashFindFreeKeyBlock t 3 = Some r"
    "if r = 0 then \<forall>s. 0 < s \<and> s + 3 \<le> 2 ^ 32 - 2 \<longrightarrow> \<not> free_block t 3 s else free_block t 3 (unat r)"
    unfolding three by auto
  have "r \<noteq> 0"
  proof
    assume "r = 0"
    then have "\<forall>s. 0 < s \<and> s + 3 \<le> 2 ^ 32 - 2 \<longrightarrow> \<not> free_block t 3 s" using r(2) by simp
    from this [rule_format, of 1] free show False by simp
  qed
  then show ?thesis using t(1) r by auto
qed

end
