(* ===== verification/SetTable.thy ===== *)
theory SetTable
  imports HashTableMap
begin

text \<open>
  The open-addressing set of util/set.c and set.h, written in the source as a copy of the hash table
  without the data.  As there, a pointer into the table is the index of the entry, and a probe loop is a
  \<^theory_text>\<open>partial_function (option)\<close>.
\<close>

section \<open>State\<close>

record set_entry =
  se_hash :: u32
  se_key :: ptr

record mesa_set =
  st_table :: "set_entry list"
  st_key_hash_function :: "(ptr \<Rightarrow> u32) option"
  st_key_equals_function :: "ptr \<Rightarrow> ptr \<Rightarrow> bool"
  st_size :: u32
  st_rehash :: u32
  st_max_entries :: u32
  st_size_index :: u32
  st_entries :: u32
  st_deleted_entries :: u32

definition set_sizes :: "(u32 \<times> u32 \<times> u32) list" where
  "set_sizes =
    [(2, 5, 3), (4, 7, 5), (8, 13, 11), (16, 19, 17), (32, 43, 41), (64, 73, 71), (128, 151, 149),
     (256, 283, 281), (512, 571, 569), (1024, 1153, 1151), (2048, 2269, 2267), (4096, 4519, 4517),
     (8192, 9013, 9011), (16384, 18043, 18041), (32768, 36109, 36107), (65536, 72091, 72089),
     (131072, 144409, 144407), (262144, 288361, 288359), (524288, 576883, 576881),
     (1048576, 1153459, 1153457), (2097152, 2307163, 2307161), (4194304, 4613893, 4613891),
     (8388608, 9227641, 9227639), (16777216, 18455029, 18455027), (33554432, 36911011, 36911009),
     (67108864, 73819861, 73819859), (134217728, 147639589, 147639587),
     (268435456, 295279081, 295279079), (536870912, 590559793, 590559791),
     (1073741824, 1181116273, 1181116271), (2147483648, 2362232233, 2362232231)]"

definition zero_set_entry :: set_entry where
  "zero_set_entry = \<lparr>se_hash = 0, se_key = NULL\<rparr>"

definition rzalloc_set_entries :: "(u32 \<Rightarrow> bool) \<Rightarrow> u32 \<Rightarrow> set_entry list option" where
  "rzalloc_set_entries alloc n = (if alloc n then Some (replicate (unat n) zero_set_entry) else None)"

text \<open>\<open>dk\<close> is the address of the static \<open>deleted_key_value\<close>, the tombstone key of every set.\<close>

definition set_entry_is_free :: "set_entry \<Rightarrow> bool" where
  "set_entry_is_free e \<longleftrightarrow> se_key e = NULL"

definition set_entry_is_deleted :: "ptr \<Rightarrow> set_entry \<Rightarrow> bool" where
  "set_entry_is_deleted dk e \<longleftrightarrow> se_key e = dk"

definition set_entry_is_present :: "ptr \<Rightarrow> set_entry \<Rightarrow> bool" where
  "set_entry_is_present dk e \<longleftrightarrow> se_key e \<noteq> NULL \<and> se_key e \<noteq> dk"

definition mesa_set_create ::
  "bool \<Rightarrow> (u32 \<Rightarrow> bool) \<Rightarrow> (ptr \<Rightarrow> u32) option \<Rightarrow> (ptr \<Rightarrow> ptr \<Rightarrow> bool) \<Rightarrow> mesa_set option" where
  "mesa_set_create ralloc_ok alloc hashf eqf =
    (if \<not> ralloc_ok then None
     else let (m, s, r) = set_sizes ! 0
          in case rzalloc_set_entries alloc s of
               None \<Rightarrow> None
             | Some t \<Rightarrow> Some
                 \<lparr>st_table = t, st_key_hash_function = hashf, st_key_equals_function = eqf,
                  st_size = s, st_rehash = r, st_max_entries = m, st_size_index = 0,
                  st_entries = 0, st_deleted_entries = 0\<rparr>)"

section \<open>Iteration\<close>

function set_next_present :: "ptr \<Rightarrow> mesa_set \<Rightarrow> nat \<Rightarrow> nat option" where
  "set_next_present dk s i =
    (if i < unat (st_size s)
     then if set_entry_is_present dk (st_table s ! i) then Some i else set_next_present dk s (Suc i)
     else None)"
  by pat_completeness auto
termination
  by (relation "measure (\<lambda>(dk, s, i). unat (st_size s) - i)") auto

declare set_next_present.simps [simp del]

definition mesa_set_next_entry :: "ptr \<Rightarrow> mesa_set \<Rightarrow> nat option \<Rightarrow> nat option" where
  "mesa_set_next_entry dk s entry =
    set_next_present dk s (case entry of None \<Rightarrow> 0 | Some i \<Rightarrow> Suc i)"

lemma set_next_present_ge: "set_next_present dk s i = Some j \<Longrightarrow> i \<le> j \<and> j < unat (st_size s)"
proof (induction dk s i rule: set_next_present.induct)
  case (1 dk s i)
  then show ?case
    by (cases "i < unat (st_size s)")
       (auto simp: set_next_present.simps [of dk s i] split: if_splits)
qed

text \<open>\<open>set_foreach\<close> with a body that leaves the set alone, and the calls of \<open>_mesa_set_destroy\<close>.\<close>

function set_foreach :: "ptr \<Rightarrow> mesa_set \<Rightarrow> nat option \<Rightarrow> nat list" where
  "set_foreach dk s entry =
    (case mesa_set_next_entry dk s entry of
       None \<Rightarrow> []
     | Some i \<Rightarrow> i # set_foreach dk s (Some i))"
  by pat_completeness auto
termination
  by (relation "measure (\<lambda>(dk, s, e). case e of None \<Rightarrow> Suc (unat (st_size s))
                                       | Some i \<Rightarrow> unat (st_size s) - i)")
     (auto simp: mesa_set_next_entry_def split: option.splits dest!: set_next_present_ge)

declare set_foreach.simps [simp del]

definition mesa_set_destroy :: "ptr \<Rightarrow> mesa_set \<Rightarrow> set_entry list" where
  "mesa_set_destroy dk s = map (nth (st_table s)) (set_foreach dk s None)"

text \<open>The loop of \<open>_mesa_set_clear\<close> overwrites the key of the entry it has handed to the callback.\<close>

function set_clear_loop :: "ptr \<Rightarrow> mesa_set \<Rightarrow> nat option \<Rightarrow> set_entry list \<times> mesa_set" where
  "set_clear_loop dk s entry =
    (case mesa_set_next_entry dk s entry of
       None \<Rightarrow> ([], s)
     | Some i \<Rightarrow>
         let e = st_table s ! i;
             (calls, s') = set_clear_loop dk (s\<lparr>st_table := (st_table s)[i := e\<lparr>se_key := dk\<rparr>]\<rparr>) (Some i)
         in (e # calls, s'))"
  by pat_completeness auto
termination
  by (relation "measure (\<lambda>(dk, s, e). case e of None \<Rightarrow> Suc (unat (st_size s))
                                       | Some i \<Rightarrow> unat (st_size s) - i)")
     (auto simp: mesa_set_next_entry_def split: option.splits dest!: set_next_present_ge)

declare set_clear_loop.simps [simp del]

definition mesa_set_clear :: "ptr \<Rightarrow> mesa_set \<Rightarrow> set_entry list \<times> mesa_set" where
  "mesa_set_clear dk s =
    (let (calls, s') = set_clear_loop dk s None
     in (calls, s'\<lparr>st_entries := 0, st_deleted_entries := 0\<rparr>))"

definition mesa_set_random_entry ::
  "nat \<Rightarrow> ptr \<Rightarrow> mesa_set \<Rightarrow> (set_entry \<Rightarrow> bool) option \<Rightarrow> nat option" where
  "mesa_set_random_entry r dk s predicate =
    (let i = r mod unat (st_size s);
         ok = (\<lambda>j. set_entry_is_present dk (st_table s ! j)
                  \<and> (case predicate of None \<Rightarrow> True | Some p \<Rightarrow> p (st_table s ! j)))
     in if st_entries s = 0 then None
        else case find ok [i ..< unat (st_size s)] of
               Some j \<Rightarrow> Some j
             | None \<Rightarrow> find ok [0 ..< i])"

section \<open>Search\<close>

partial_function (option) set_search_loop ::
  "ptr \<Rightarrow> mesa_set \<Rightarrow> u32 \<Rightarrow> ptr \<Rightarrow> u32 \<Rightarrow> u32 \<Rightarrow> nat option option" where
  "set_search_loop dk s hash key start addr =
    (let e = st_table s ! unat addr
     in if set_entry_is_free e then Some None
        else if set_entry_is_present dk e \<and> se_hash e = hash \<and> st_key_equals_function s key (se_key e)
        then Some (Some (unat addr))
        else let double_hash = 1 + hash mod st_rehash s;
                 addr' = (addr + double_hash) mod st_size s
             in if addr' \<noteq> start then set_search_loop dk s hash key start addr' else Some None)"

definition set_search :: "ptr \<Rightarrow> mesa_set \<Rightarrow> u32 \<Rightarrow> ptr \<Rightarrow> nat option option" where
  "set_search dk s hash key =
    (let start = hash mod st_size s in set_search_loop dk s hash key start start)"

text \<open>The public entry points assert that the set has a hash function.\<close>

definition mesa_set_search :: "ptr \<Rightarrow> mesa_set \<Rightarrow> ptr \<Rightarrow> nat option option" where
  "mesa_set_search dk s key =
    (case st_key_hash_function s of
       None \<Rightarrow> None
     | Some f \<Rightarrow> set_search dk s (f key) key)"

definition mesa_set_search_pre_hashed :: "ptr \<Rightarrow> mesa_set \<Rightarrow> u32 \<Rightarrow> ptr \<Rightarrow> nat option option" where
  "mesa_set_search_pre_hashed dk s hash key = set_search dk s hash key"

section \<open>Insertion, rehashing and removal\<close>

text \<open>As for the hash table: \<^term>\<open>Inl a\<close> is a matching entry, \<^term>\<open>Inr v\<close> the first available one.\<close>

partial_function (option) set_add_loop ::
  "ptr \<Rightarrow> mesa_set \<Rightarrow> u32 \<Rightarrow> ptr \<Rightarrow> u32 \<Rightarrow> u32 \<Rightarrow> nat option \<Rightarrow> (nat + nat option) option" where
  "set_add_loop dk s hash key start addr available =
    (let e = st_table s ! unat addr;
         available' = (if \<not> set_entry_is_present dk e \<and> available = None
                       then Some (unat addr) else available)
     in if \<not> set_entry_is_present dk e \<and> set_entry_is_free e then Some (Inr available')
        else if \<not> set_entry_is_deleted dk e \<and> se_hash e = hash
                \<and> st_key_equals_function s key (se_key e)
        then Some (Inl (unat addr))
        else let double_hash = 1 + hash mod st_rehash s;
                 addr' = (addr + double_hash) mod st_size s
             in if addr' \<noteq> start then set_add_loop dk s hash key start addr' available'
                else Some (Inr available'))"

definition set_add_slot :: "ptr \<Rightarrow> mesa_set \<Rightarrow> u32 \<Rightarrow> ptr \<Rightarrow> (mesa_set \<times> nat option) option" where
  "set_add_slot dk s hash key =
    (let start = hash mod st_size s
     in case set_add_loop dk s hash key start start None of
          None \<Rightarrow> None
        | Some (Inl i) \<Rightarrow>
            Some (s\<lparr>st_table := (st_table s)[i := (st_table s ! i)\<lparr>se_key := key\<rparr>]\<rparr>, Some i)
        | Some (Inr (Some i)) \<Rightarrow>
            Some (s\<lparr>st_table := (st_table s)[i := \<lparr>se_hash = hash, se_key = key\<rparr>],
                    st_deleted_entries :=
                      (if set_entry_is_deleted dk (st_table s ! i)
                       then st_deleted_entries s - 1 else st_deleted_entries s),
                    st_entries := st_entries s + 1\<rparr>, Some i)
        | Some (Inr None) \<Rightarrow> Some (s, None))"

fun set_readd ::
  "(mesa_set \<Rightarrow> u32 \<Rightarrow> ptr \<Rightarrow> (mesa_set \<times> nat option) option) \<Rightarrow> mesa_set \<Rightarrow> set_entry list
    \<Rightarrow> mesa_set option" where
  "set_readd add s [] = Some s"
| "set_readd add s (e # es) =
    (case add s (se_hash e) (se_key e) of
       None \<Rightarrow> None
     | Some (s', _) \<Rightarrow> set_readd add s' es)"

definition set_rehash ::
  "(mesa_set \<Rightarrow> u32 \<Rightarrow> ptr \<Rightarrow> (mesa_set \<times> nat option) option) \<Rightarrow> (u32 \<Rightarrow> bool) \<Rightarrow> ptr \<Rightarrow> mesa_set
    \<Rightarrow> u32 \<Rightarrow> mesa_set option" where
  "set_rehash add alloc dk s new_size_index =
    (if length set_sizes \<le> unat new_size_index then Some s
     else let (m, sz, r) = set_sizes ! unat new_size_index
          in case rzalloc_set_entries alloc sz of
               None \<Rightarrow> Some s
             | Some t \<Rightarrow>
                 set_readd add
                   (s\<lparr>st_table := t, st_size_index := new_size_index, st_size := sz, st_rehash := r,
                      st_max_entries := m, st_entries := 0, st_deleted_entries := 0\<rparr>)
                   (map (nth (st_table s)) (set_foreach dk s None)))"

text \<open>The first argument bounds the nesting of rehashes; running out of it is \<^term>\<open>None\<close>.\<close>

fun set_add ::
  "nat \<Rightarrow> (u32 \<Rightarrow> bool) \<Rightarrow> ptr \<Rightarrow> mesa_set \<Rightarrow> u32 \<Rightarrow> ptr \<Rightarrow> (mesa_set \<times> nat option) option" where
  "set_add 0 alloc dk s hash key = None"
| "set_add (Suc n) alloc dk s hash key =
    (case (if st_max_entries s \<le> st_entries s
           then set_rehash (set_add n alloc dk) alloc dk s (st_size_index s + 1)
           else if st_max_entries s \<le> st_deleted_entries s + st_entries s
           then set_rehash (set_add n alloc dk) alloc dk s (st_size_index s)
           else Some s) of
       None \<Rightarrow> None
     | Some s' \<Rightarrow> set_add_slot dk s' hash key)"

text \<open>A nesting of three is enough, as for the hash table.\<close>

definition mesa_set_add ::
  "(u32 \<Rightarrow> bool) \<Rightarrow> ptr \<Rightarrow> mesa_set \<Rightarrow> ptr \<Rightarrow> (mesa_set \<times> nat option) option" where
  "mesa_set_add alloc dk s key =
    (case st_key_hash_function s of
       None \<Rightarrow> None
     | Some f \<Rightarrow> set_add 3 alloc dk s (f key) key)"

definition mesa_set_add_pre_hashed ::
  "(u32 \<Rightarrow> bool) \<Rightarrow> ptr \<Rightarrow> mesa_set \<Rightarrow> u32 \<Rightarrow> ptr \<Rightarrow> (mesa_set \<times> nat option) option" where
  "mesa_set_add_pre_hashed alloc dk s hash key = set_add 3 alloc dk s hash key"

definition mesa_set_remove :: "ptr \<Rightarrow> mesa_set \<Rightarrow> nat option \<Rightarrow> mesa_set" where
  "mesa_set_remove dk s entry =
    (case entry of
       None \<Rightarrow> s
     | Some i \<Rightarrow> s\<lparr>st_table := (st_table s)[i := (st_table s ! i)\<lparr>se_key := dk\<rparr>],
                   st_entries := st_entries s - 1,
                   st_deleted_entries := st_deleted_entries s + 1\<rparr>)"

end
