(* ===== verification/SetTableRefine.thy ===== *)
theory SetTableRefine
  imports SetTable
begin

text \<open>
  A set is a hash table whose data are all \<open>NULL\<close>: each operation of the set is, through \<open>table_of\<close>,
  the one of the hash table.  Only clearing differs, after which the count of tombstones is wrong, so
  the invariant of a set is that of its hash table with the count corrected (\<open>recount\<close>).
\<close>

section \<open>The hash table of a set\<close>

definition plain_entry :: "set_entry \<Rightarrow> hash_entry" where
  "plain_entry e = \<lparr>he_hash = se_hash e, he_key = se_key e, he_data = NULL\<rparr>"

definition table_of :: "ptr \<Rightarrow> mesa_set \<Rightarrow> hash_table" where
  "table_of dk s =
    \<lparr>ht_table = map plain_entry (st_table s), ht_key_hash_function = st_key_hash_function s,
     ht_key_equals_function = st_key_equals_function s, ht_deleted_key = dk, ht_size = st_size s,
     ht_rehash = st_rehash s, ht_max_entries = st_max_entries s, ht_size_index = st_size_index s,
     ht_entries = st_entries s, ht_deleted_entries = st_deleted_entries s\<rparr>"

definition set_shape :: "mesa_set \<Rightarrow> bool" where
  "set_shape s \<longleftrightarrow> length (st_table s) = unat (st_size s) \<and> st_size s \<noteq> 0"

lemma set_sizes_eq: "set_sizes = hash_sizes"
  by (simp add: set_sizes_def hash_sizes_def)

lemma plain_entry_simps [simp]:
  "he_hash (plain_entry e) = se_hash e" "he_key (plain_entry e) = se_key e" "he_data (plain_entry e) = NULL"
  "plain_entry zero_set_entry = zero_entry"
  by (simp_all add: plain_entry_def zero_set_entry_def zero_entry_def)

lemma table_of_simps [simp]:
  "ht_table (table_of dk s) = map plain_entry (st_table s)" "ht_size (table_of dk s) = st_size s"
  "ht_key_hash_function (table_of dk s) = st_key_hash_function s"
  "ht_key_equals_function (table_of dk s) = st_key_equals_function s"
  "ht_deleted_key (table_of dk s) = dk" "ht_rehash (table_of dk s) = st_rehash s"
  "ht_max_entries (table_of dk s) = st_max_entries s" "ht_size_index (table_of dk s) = st_size_index s"
  "ht_entries (table_of dk s) = st_entries s" "ht_deleted_entries (table_of dk s) = st_deleted_entries s"
  by (simp_all add: table_of_def)

lemma plain_entry_kind [simp]:
  "entry_is_free (plain_entry e) = set_entry_is_free e"
  "entry_is_present (table_of dk s) (plain_entry e) = set_entry_is_present dk e"
  "entry_is_deleted (table_of dk s) (plain_entry e) = set_entry_is_deleted dk e"
  by (simp_all add: entry_is_free_def set_entry_is_free_def entry_is_present_def set_entry_is_present_def
      entry_is_deleted_def set_entry_is_deleted_def)

lemma set_shape_mod:
  assumes "set_shape s"
  shows "unat (x mod st_size s) < length (st_table s)"
proof -
  have "0 < unat (st_size s)" using assms unat_gt_0 by (auto simp: set_shape_def)
  then show ?thesis using assms by (simp add: set_shape_def unat_mod)
qed

text \<open>The two probe loops unfold alike, so each result of one is a result of the other.\<close>

lemma set_search_loop_table:
  "search_loop ht hash key start addr = Some r \<Longrightarrow> ht = table_of dk s \<Longrightarrow> set_shape s \<Longrightarrow>
   unat addr < length (st_table s) \<Longrightarrow> set_search_loop dk s hash key start addr = Some r"
proof (induction ht hash key start addr r rule: search_loop.raw_induct [rotated, consumes 1])
  case (1 loop ht hash key start addr r)
  show ?case
    by (subst set_search_loop.simps)
       (use 1(2-5) 1(1) set_shape_mod in \<open>auto simp: Let_def split: if_splits\<close>)
qed

lemma table_search_loop_set:
  "set_search_loop dk s hash key start addr = Some r \<Longrightarrow> set_shape s \<Longrightarrow>
   unat addr < length (st_table s) \<Longrightarrow> search_loop (table_of dk s) hash key start addr = Some r"
proof (induction dk s hash key start addr r rule: set_search_loop.raw_induct [rotated, consumes 1])
  case (1 loop dk s hash key start addr r)
  show ?case
    by (subst search_loop.simps)
       (use 1(2-4) 1(1) set_shape_mod in \<open>auto simp: Let_def split: if_splits\<close>)
qed

lemma set_search_table:
  assumes "set_shape s"
  shows "set_search dk s hash key = hash_table_search (table_of dk s) hash key"
proof -
  note a = set_shape_mod [OF assms, of hash]
  show ?thesis
    using set_search_loop_table [OF _ refl assms a, of dk hash key "hash mod st_size s"]
      table_search_loop_set [OF _ assms a, of dk hash key "hash mod st_size s"]
    unfolding set_search_def hash_table_search_def Let_def table_of_simps
    by (metis option.exhaust)
qed

lemma set_add_loop_table:
  "insert_loop ht hash key start addr v = Some r \<Longrightarrow> ht = table_of dk s \<Longrightarrow> set_shape s \<Longrightarrow>
   unat addr < length (st_table s) \<Longrightarrow> set_add_loop dk s hash key start addr v = Some r"
proof (induction ht hash key start addr v r rule: insert_loop.raw_induct [rotated, consumes 1])
  case (1 loop ht hash key start addr v r)
  show ?case
    by (subst set_add_loop.simps)
       (use 1(2-5) 1(1) set_shape_mod in \<open>auto simp: Let_def split: if_splits\<close>)
qed

lemma table_add_loop_set:
  "set_add_loop dk s hash key start addr v = Some r \<Longrightarrow> set_shape s \<Longrightarrow>
   unat addr < length (st_table s) \<Longrightarrow> insert_loop (table_of dk s) hash key start addr v = Some r"
proof (induction dk s hash key start addr v r rule: set_add_loop.raw_induct [rotated, consumes 1])
  case (1 loop dk s hash key start addr v r)
  show ?case
    by (subst insert_loop.simps)
       (use 1(2-4) 1(1) set_shape_mod in \<open>auto simp: Let_def split: if_splits\<close>)
qed

text \<open>Slots are inside the table.\<close>

lemma set_add_loop_bound:
  "set_add_loop dk s hash key start addr v = Some r \<Longrightarrow> set_shape s \<Longrightarrow>
   unat addr < length (st_table s) \<Longrightarrow> (\<forall>i. v = Some i \<longrightarrow> i < length (st_table s)) \<Longrightarrow>
   (case r of Inl i \<Rightarrow> i < length (st_table s) | Inr w \<Rightarrow> \<forall>i. w = Some i \<longrightarrow> i < length (st_table s))"
proof (induction dk s hash key start addr v r rule: set_add_loop.raw_induct [rotated, consumes 1])
  case (1 loop dk s hash key start addr v r)
  show ?case
    using 1(2-5) 1(1) set_shape_mod by (auto simp: Let_def split: if_splits sum.splits)
qed

section \<open>The operations of a set are those of its hash table\<close>

text \<open>A result on sets and the one on hash tables that corresponds to it.\<close>

definition same_result ::
  "ptr \<Rightarrow> (mesa_set \<times> nat option) option \<Rightarrow> (hash_table \<times> nat option) option \<Rightarrow> bool" where
  "same_result dk x y \<longleftrightarrow>
    (case x of None \<Rightarrow> y = None | Some (s, r) \<Rightarrow> set_shape s \<and> y = Some (table_of dk s, r))"

definition simulates ::
  "ptr \<Rightarrow> (mesa_set \<Rightarrow> u32 \<Rightarrow> ptr \<Rightarrow> (mesa_set \<times> nat option) option) \<Rightarrow>
    (hash_table \<Rightarrow> u32 \<Rightarrow> ptr \<Rightarrow> ptr \<Rightarrow> (hash_table \<times> nat option) option) \<Rightarrow> bool" where
  "simulates dk add ins \<longleftrightarrow>
    (\<forall>s h k. set_shape s \<longrightarrow> same_result dk (add s h k) (ins (table_of dk s) h k NULL))"

lemma table_nth:
  "i < length (st_table s) \<Longrightarrow> ht_table (table_of dk s) ! i = plain_entry (st_table s ! i)"
  by simp

lemma set_next_present_table:
  "set_shape s \<Longrightarrow> next_present (table_of dk s) i = set_next_present dk s i"
proof (induction dk s i rule: set_next_present.induct)
  case (1 dk s i)
  then show ?case
    by (subst next_present.simps, subst set_next_present.simps) (auto simp: set_shape_def)
qed

lemma set_next_entry_table:
  "set_shape s \<Longrightarrow> mesa_hash_table_next_entry (table_of dk s) e = mesa_set_next_entry dk s e"
  by (simp add: mesa_hash_table_next_entry_def mesa_set_next_entry_def set_next_present_table)

lemma set_foreach_table:
  "set_shape s \<Longrightarrow> hash_table_foreach (table_of dk s) e = set_foreach dk s e"
proof (induction dk s e rule: set_foreach.induct)
  case (1 dk s e)
  then show ?case
    by (subst hash_table_foreach.simps, subst set_foreach.simps)
       (auto simp: set_next_entry_table split: option.splits)
qed

lemma set_foreach_bound:
  assumes "i \<in> set (set_foreach dk s e)" "set_shape s"
  shows "i < length (st_table s)"
  using assms set_foreach_table [OF assms(2), of dk e, symmetric]
  by (auto simp: foreach_filter set_shape_def)

lemma foreach_plain:
  assumes "set_shape s"
  shows "map (nth (ht_table (table_of dk s))) (hash_table_foreach (table_of dk s) e) =
    map plain_entry (map (nth (st_table s)) (set_foreach dk s e))"
  using set_foreach_bound [OF _ assms] by (simp add: set_foreach_table [OF assms])

lemma set_add_slot_table: "simulates dk (set_add_slot dk) insert_at_slot"
  unfolding simulates_def
proof (intro allI impI)
  fix s h k assume s: "set_shape s"
  let ?loop = "set_add_loop dk s h k (h mod st_size s) (h mod st_size s) None"
  note a = set_shape_mod [OF s, of h]
  have eq: "insert_loop (table_of dk s) h k (h mod st_size s) (h mod st_size s) None = ?loop"
    using set_add_loop_table [OF _ refl s a] table_add_loop_set [OF _ s a] by (metis option.exhaust)
  have bound: "case r of Inl i \<Rightarrow> i < length (st_table s) | Inr w \<Rightarrow> \<forall>i. w = Some i \<longrightarrow> i < length (st_table s)"
    if "?loop = Some r" for r
    using set_add_loop_bound [OF that s a] by simp
  have hit: "(plain_entry e)\<lparr>he_key := k, he_data := NULL\<rparr> = plain_entry (e\<lparr>se_key := k\<rparr>)"
    and new: "\<lparr>he_hash = h, he_key = k, he_data = NULL\<rparr> = plain_entry \<lparr>se_hash = h, se_key = k\<rparr>" for e
    by (simp_all add: plain_entry_def)
  consider "?loop = None" | i where "?loop = Some (Inl i)" | i where "?loop = Some (Inr (Some i))"
    | "?loop = Some (Inr None)"
    by (metis option.exhaust sum.exhaust)
  then show "same_result dk (set_add_slot dk s h k) (insert_at_slot (table_of dk s) h k NULL)"
  proof cases
    case 2
    then have "i < length (st_table s)" using bound by fastforce
    then show ?thesis using 2 eq s
      by (auto simp: same_result_def set_add_slot_def insert_at_slot_def map_update set_shape_def
          hit table_of_def [of dk s] table_of_def [of dk "s\<lparr>st_table := xs\<rparr>" for xs])
  next
    case 3
    then have "i < length (st_table s)" using bound by fastforce
    then show ?thesis using 3 eq s
      by (auto simp: same_result_def set_add_slot_def insert_at_slot_def map_update set_shape_def new
          table_of_def set_entry_is_deleted_def entry_is_deleted_def)
  qed (use eq s in \<open>simp_all add: same_result_def set_add_slot_def insert_at_slot_def\<close>)
qed

lemma set_readd_table:
  assumes "simulates dk add ins"
  shows "set_shape s \<Longrightarrow> (case set_readd add s es of
      None \<Rightarrow> reinsert_entries ins (table_of dk s) (map plain_entry es) = None
    | Some s' \<Rightarrow> set_shape s' \<and>
        reinsert_entries ins (table_of dk s) (map plain_entry es) = Some (table_of dk s'))"
proof (induction es arbitrary: s)
  case (Cons e es)
  have "same_result dk (add s (se_hash e) (se_key e)) (ins (table_of dk s) (se_hash e) (se_key e) NULL)"
    using assms Cons.prems by (simp add: simulates_def)
  moreover have "case set_readd add s' es of
      None \<Rightarrow> reinsert_entries ins (table_of dk s') (map plain_entry es) = None
    | Some s'' \<Rightarrow> set_shape s'' \<and>
        reinsert_entries ins (table_of dk s') (map plain_entry es) = Some (table_of dk s'')"
    if "set_shape s'" for s'
    using Cons.IH [OF that] .
  ultimately show ?case
    by (cases "add s (se_hash e) (se_key e)") (fastforce simp: same_result_def split: option.splits)+
qed simp

lemma size_index_pos:
  assumes "i < length set_sizes"
  shows "fst (snd (set_sizes ! i)) \<noteq> 0"
proof -
  have "\<forall>x \<in> set set_sizes. fst (snd x) \<noteq> 0" by (simp add: set_sizes_def)
  then show ?thesis using assms nth_mem by blast
qed

lemma set_rehash_table:
  assumes "simulates dk add ins" "set_shape s"
  shows "case set_rehash add alloc dk s i of
      None \<Rightarrow> rehash_table ins alloc (table_of dk s) i = None
    | Some s' \<Rightarrow> set_shape s' \<and> rehash_table ins alloc (table_of dk s) i = Some (table_of dk s')"
proof (cases "length set_sizes \<le> unat i \<or> \<not> alloc (fst (snd (set_sizes ! unat i)))")
  case True
  then show ?thesis using assms(2)
    by (auto simp: set_rehash_def rehash_table_def set_sizes_eq [symmetric] size_entry_def
        rzalloc_set_entries_def rzalloc_entries_def split: prod.splits)
next
  case False
  obtain m sz r where e: "set_sizes ! unat i = (m, sz, r)" using prod_cases3 by blast
  define s0 where "s0 = s\<lparr>st_table := replicate (unat sz) zero_set_entry, st_size_index := i, st_size := sz,
    st_rehash := r, st_max_entries := m, st_entries := 0, st_deleted_entries := 0\<rparr>"
  have "sz \<noteq> 0" using size_index_pos [of "unat i"] False e by simp
  then have sh: "set_shape s0" by (simp add: set_shape_def s0_def)
  let ?es = "map (nth (st_table s)) (set_foreach dk s None)"
  have t: "table_of dk s0 = table_of dk s\<lparr>ht_table := replicate (unat sz) zero_entry, ht_size_index := i,
      ht_size := sz, ht_rehash := r, ht_max_entries := m, ht_entries := 0, ht_deleted_entries := 0\<rparr>"
    by (simp add: table_of_def s0_def)
  have 1: "set_rehash add alloc dk s i = set_readd add s0 ?es"
    using False e by (simp add: set_rehash_def rzalloc_set_entries_def s0_def)
  have 2: "rehash_table ins alloc (table_of dk s) i =
      reinsert_entries ins (table_of dk s0) (map plain_entry ?es)"
    using False e
    by (simp add: rehash_table_def rzalloc_entries_def size_entry_def set_sizes_eq [symmetric] t
        foreach_plain [OF assms(2), symmetric] del: map_map)
  show ?thesis unfolding 1 2 by (rule set_readd_table [OF assms(1) sh])
qed

text \<open>Adding to a set is inserting into its hash table, whatever the allocator does.\<close>

lemma set_add_table: "simulates dk (set_add n alloc dk) (hash_table_insert n alloc)"
proof (induction n)
  case 0
  then show ?case by (simp add: simulates_def same_result_def)
next
  case (Suc n)
  show ?case unfolding simulates_def
  proof (intro allI impI)
    fix s h k assume s: "set_shape s"
    let ?add = "set_add n alloc dk" and ?ins = "hash_table_insert n alloc" and ?t = "table_of dk s"
    define x where "x = (if st_max_entries s \<le> st_entries s
       then set_rehash ?add alloc dk s (st_size_index s + 1)
       else if st_max_entries s \<le> st_deleted_entries s + st_entries s
       then set_rehash ?add alloc dk s (st_size_index s) else Some s)"
    define y where "y = (if ht_max_entries ?t \<le> ht_entries ?t
       then rehash_table ?ins alloc ?t (ht_size_index ?t + 1)
       else if ht_max_entries ?t \<le> ht_deleted_entries ?t + ht_entries ?t
       then rehash_table ?ins alloc ?t (ht_size_index ?t) else Some ?t)"
    have xy: "case x of None \<Rightarrow> y = None | Some s' \<Rightarrow> set_shape s' \<and> y = Some (table_of dk s')"
      unfolding x_def y_def table_of_simps
      using set_rehash_table [OF Suc s, of alloc "st_size_index s + 1"]
        set_rehash_table [OF Suc s, of alloc "st_size_index s"] s by simp
    have "set_add (Suc n) alloc dk s h k = (case x of None \<Rightarrow> None | Some s' \<Rightarrow> set_add_slot dk s' h k)"
      "hash_table_insert (Suc n) alloc ?t h k NULL =
        (case y of None \<Rightarrow> None | Some t \<Rightarrow> insert_at_slot t h k NULL)"
      by (simp_all only: set_add.simps hash_table_insert.simps x_def y_def)
    then show "same_result dk (set_add (Suc n) alloc dk s h k) (hash_table_insert (Suc n) alloc ?t h k NULL)"
      using xy set_add_slot_table [of dk]
      by (cases x) (simp_all add: same_result_def simulates_def)
  qed
qed

lemma set_remove_table:
  assumes "set_shape s" "\<forall>i. e = Some i \<longrightarrow> i < length (st_table s)"
  shows "mesa_hash_table_remove (table_of dk s) e = table_of dk (mesa_set_remove dk s e)"
    "set_shape (mesa_set_remove dk s e)"
  using assms
  by (auto simp: mesa_hash_table_remove_def mesa_set_remove_def table_of_def map_update plain_entry_def
      set_shape_def split: option.splits)

lemma set_random_table:
  assumes "set_shape s"
  shows "mesa_set_random_entry r dk s predicate =
    mesa_hash_table_random_entry r (table_of dk s)
      (map_option (\<lambda>p e. p \<lparr>se_hash = he_hash e, se_key = he_key e\<rparr>) predicate)"
proof -
  let ?q = "map_option (\<lambda>p e. p \<lparr>se_hash = he_hash e, se_key = he_key e\<rparr>) predicate"
  define P where "P = (\<lambda>j. set_entry_is_present dk (st_table s ! j)
    \<and> (case predicate of None \<Rightarrow> True | Some p \<Rightarrow> p (st_table s ! j)))"
  define Q where "Q = (\<lambda>j. entry_is_present (table_of dk s) (ht_table (table_of dk s) ! j)
    \<and> (case ?q of None \<Rightarrow> True | Some p \<Rightarrow> p (ht_table (table_of dk s) ! j)))"
  have e: "\<lparr>se_hash = se_hash e, se_key = se_key e\<rparr> = e" for e :: set_entry by simp
  have PQ: "P j = Q j" if "j < unat (st_size s)" for j
    using that assms unfolding P_def Q_def by (cases predicate) (simp_all add: set_shape_def e)
  have m: "r mod unat (st_size s) < unat (st_size s)"
    using assms by (intro mod_less_divisor) (simp add: set_shape_def unat_gt_0)
  have f: "find P [i ..< n] = find Q [i ..< n]" if "n \<le> unat (st_size s)" for i n
    using that PQ by (intro find_cong refl) simp_all
  show ?thesis
    unfolding mesa_set_random_entry_def mesa_hash_table_random_entry_def Let_def table_of_simps(2,9)
      P_def [symmetric] Q_def [symmetric] f [OF order_refl] f [OF less_imp_le [OF m]] by (rule refl)
qed

section \<open>Tables whose count of tombstones is off\<close>

text \<open>\<open>recount\<close> corrects the count.  No operation but the decision to rehash reads it.\<close>

definition recount :: "hash_table \<Rightarrow> hash_table" where
  "recount t = t\<lparr>ht_deleted_entries := of_nat (length (filter (entry_is_deleted t) (ht_table t)))\<rparr>"

lemma recount_simps [simp]:
  "ht_table (recount t) = ht_table t" "ht_size (recount t) = ht_size t"
  "ht_key_hash_function (recount t) = ht_key_hash_function t"
  "ht_key_equals_function (recount t) = ht_key_equals_function t"
  "ht_deleted_key (recount t) = ht_deleted_key t" "ht_rehash (recount t) = ht_rehash t"
  "ht_max_entries (recount t) = ht_max_entries t" "ht_size_index (recount t) = ht_size_index t"
  "ht_entries (recount t) = ht_entries t"
  "entry_is_present (recount t) = entry_is_present t" "entry_is_deleted (recount t) = entry_is_deleted t"
  "ht_lookup (recount t) = ht_lookup t" "ht_steps (recount t) n = ht_steps t n"
  by (auto simp: recount_def entry_is_present_def entry_is_deleted_def ht_lookup_def ht_steps_def fun_eq_iff)

lemma deleted_simps [simp]:
  "entry_is_deleted (t\<lparr>ht_deleted_entries := c\<rparr>) = entry_is_deleted t"
  "entry_is_present (t\<lparr>ht_deleted_entries := c\<rparr>) = entry_is_present t"
  "ht_lookup (t\<lparr>ht_deleted_entries := c\<rparr>) = ht_lookup t"
  "ht_steps (t\<lparr>ht_deleted_entries := c\<rparr>) n = ht_steps t n"
  by (auto simp: entry_is_present_def entry_is_deleted_def ht_lookup_def ht_steps_def fun_eq_iff)

lemma recount_deleted [simp]: "recount (t\<lparr>ht_deleted_entries := c\<rparr>) = recount t"
  by (simp add: recount_def)

lemma recount_wf:
  assumes "ht_wf hf t"
  shows "recount t = t"
proof -
  have "(of_nat (length (filter (entry_is_deleted t) (ht_table t))) :: u32) = ht_deleted_entries t"
    unfolding ht_wf_simps(5) [OF assms, symmetric] by simp
  then show ?thesis by (simp add: recount_def)
qed

lemma same_but_deleted:
  "(\<exists>e. x = y\<lparr>ht_deleted_entries := e\<rparr>) \<longleftrightarrow> x\<lparr>ht_deleted_entries := 0\<rparr> = y\<lparr>ht_deleted_entries := (0 :: u32)\<rparr>"
proof
  assume "x\<lparr>ht_deleted_entries := 0\<rparr> = y\<lparr>ht_deleted_entries := (0 :: u32)\<rparr>"
  then have "x = y\<lparr>ht_deleted_entries := ht_deleted_entries x\<rparr>" by (cases x; cases y) simp
  then show "\<exists>e. x = y\<lparr>ht_deleted_entries := e\<rparr>" by blast
qed auto

lemma insert_loop_deleted:
  "insert_loop t' hash key start addr v = Some r \<Longrightarrow> t' = t\<lparr>ht_deleted_entries := c\<rparr> \<Longrightarrow>
   insert_loop t hash key start addr v = Some r"
proof (induction t' hash key start addr v r rule: insert_loop.raw_induct [rotated, consumes 1])
  case (1 loop t' hash key start addr v r)
  note sub = 1(3)
  show ?case
    by (subst insert_loop.simps)
       (use 1(2) 1(1) [OF _ sub] in \<open>auto simp: sub Let_def split: if_splits\<close>)
qed

lemma search_loop_deleted:
  "search_loop t' hash key start addr = Some r \<Longrightarrow> t' = t\<lparr>ht_deleted_entries := c\<rparr> \<Longrightarrow>
   search_loop t hash key start addr = Some r"
proof (induction t' hash key start addr r rule: search_loop.raw_induct [rotated, consumes 1])
  case (1 loop t' hash key start addr r)
  note sub = 1(3)
  show ?case
    by (subst search_loop.simps)
       (use 1(2) 1(1) [OF _ sub] in \<open>auto simp: sub Let_def split: if_splits\<close>)
qed

lemma insert_at_slot_deleted:
  assumes "insert_at_slot (t\<lparr>ht_deleted_entries := c\<rparr>) hash key d = Some (t', r)"
  shows "\<exists>e. insert_at_slot t hash key d = Some (t'\<lparr>ht_deleted_entries := e\<rparr>, r)"
proof -
  let ?s = "hash mod ht_size t"
  obtain x where x: "insert_loop (t\<lparr>ht_deleted_entries := c\<rparr>) hash key ?s ?s None = Some x"
    using assms
    by (cases "insert_loop (t\<lparr>ht_deleted_entries := c\<rparr>) hash key ?s ?s None") (auto simp: insert_at_slot_def)
  note y = insert_loop_deleted [OF x refl]
  show ?thesis
    using assms
    by (cases x; cases "projr x") (auto simp: insert_at_slot_def x y same_but_deleted)
qed

lemma foreach_deleted:
  "hash_table_foreach (t\<lparr>ht_deleted_entries := c\<rparr>) e = hash_table_foreach t e"
  by (simp add: foreach_filter)

lemma rehash_table_deleted:
  assumes "rehash_table ins alloc (t\<lparr>ht_deleted_entries := c\<rparr>) i = Some t'"
  shows "\<exists>e. rehash_table ins alloc t i = Some (t'\<lparr>ht_deleted_entries := e\<rparr>)"
proof (cases "length hash_sizes \<le> unat i \<or> \<not> alloc (fst (snd (size_entry i)))")
  case True
  have none: "rehash_table ins alloc x i = Some x" for x
  proof (cases "length hash_sizes \<le> unat i")
    case False
    then have "unat i < length hash_sizes" by simp
    from rehash_table_eq [OF this, of ins alloc x] True False show ?thesis by simp
  qed (simp add: rehash_table_def)
  then show ?thesis using assms by (intro exI [of _ "ht_deleted_entries t"]) auto
next
  case False
  then have "rehash_table ins alloc t i = rehash_table ins alloc (t\<lparr>ht_deleted_entries := c\<rparr>) i"
    by (simp add: rehash_table_eq foreach_deleted)
       (simp add: ht_fresh_def split: prod.splits)
  then show ?thesis using assms by (intro exI [of _ "ht_deleted_entries t'"]) simp
qed

lemma prepare_deleted:
  fixes t :: hash_table and c :: u32
  defines "u \<equiv> t\<lparr>ht_deleted_entries := c\<rparr>"
  assumes "(if ht_max_entries u \<le> ht_entries u then rehash_table ins alloc u (ht_size_index u + 1)
      else if b then rehash_table ins alloc u (ht_size_index u) else Some u) = Some h"
  shows "\<exists>e. (if ht_max_entries t \<le> ht_entries t then rehash_table ins alloc t (ht_size_index t + 1)
      else if b then rehash_table ins alloc t (ht_size_index t) else Some t) = Some (h\<lparr>ht_deleted_entries := e\<rparr>)"
  using assms(2) rehash_table_deleted [of ins alloc c t "ht_size_index t + 1" h]
    rehash_table_deleted [of ins alloc c t "ht_size_index t" h]
  by (auto simp: u_def split: if_splits intro: exI [of _ "ht_deleted_entries t"])

lemma recount_eq: "recount t = t\<lparr>ht_deleted_entries := ht_deleted_entries (recount t)\<rparr>"
  by (simp add: recount_def)

lemma search_recount:
  "hash_table_search (recount t) hash key = Some r \<Longrightarrow> hash_table_search t hash key = Some r"
  unfolding hash_table_search_def Let_def recount_simps by (rule search_loop_deleted [OF _ recount_eq])

context hash_key
begin

lemma recounted_insert_prepared:
  fixes t :: hash_table
  assumes prep: "(if ht_max_entries t \<le> ht_entries t
      then rehash_table (hash_table_insert n alloc) alloc (recount t) (ht_size_index t + 1)
      else if ht_max_entries t \<le> ht_deleted_entries t + ht_entries t
      then rehash_table (hash_table_insert n alloc) alloc (recount t) (ht_size_index t)
      else Some (recount t)) = Some h"
    and h: "kt h" "ht_same_frame t h" "\<forall>k. ht_lookup h k = ht_lookup t k"
    and key: "key \<noteq> NULL" "key \<noteq> ht_deleted_key t"
  shows "\<exists>t' r. hash_table_insert (Suc n) alloc t (hf key) key d = Some (t', r) \<and> kt (recount t') \<and>
    ht_same_frame t t' \<and> ht_same_size h t' \<and> unat (ht_entries t') \<le> Suc (unat (ht_entries h)) \<and>
    ht_put eqf t \<lparr>he_hash = hf key, he_key = key, he_data = d\<rparr> t' r"
proof -
  let ?e = "\<lparr>he_hash = hf key, he_key = key, he_data = d\<rparr>"
  obtain e where p: "(if ht_max_entries t \<le> ht_entries t
      then rehash_table (hash_table_insert n alloc) alloc t (ht_size_index t + 1)
      else if ht_max_entries t \<le> ht_deleted_entries t + ht_entries t
      then rehash_table (hash_table_insert n alloc) alloc t (ht_size_index t)
      else Some t) = Some (h\<lparr>ht_deleted_entries := e\<rparr>)"
    using prepare_deleted [where t = t and c = "ht_deleted_entries (recount t)" and ins = "hash_table_insert n alloc"
        and alloc = alloc and h = h and b = "ht_max_entries t \<le> ht_deleted_entries t + ht_entries t"] prep
    unfolding recount_eq [of t, symmetric] recount_simps by blast
  have "key \<noteq> ht_deleted_key h" using key h by (simp add: ht_same_frame_def)
  from insert_slot_correct [OF h(1) key(1) this, of d] obtain h' r where
    s: "insert_at_slot h (hf key) key d = Some (h', r)" "kt h'" "ht_same_frame h h'"
    "ht_same_size h h'" "ht_counted h h'" "ht_put eqf h ?e h' r" by blast
  have "insert_at_slot (h\<lparr>ht_deleted_entries := e\<rparr>\<lparr>ht_deleted_entries := ht_deleted_entries h\<rparr>) (hf key) key d =
      Some (h', r)" using s(1) by simp
  from insert_at_slot_deleted [OF this] obtain x where
    x: "insert_at_slot (h\<lparr>ht_deleted_entries := e\<rparr>) (hf key) key d = Some (h'\<lparr>ht_deleted_entries := x\<rparr>, r)"
    by blast
  let ?t' = "h'\<lparr>ht_deleted_entries := x\<rparr>"
  have 1: "hash_table_insert (Suc n) alloc t (hf key) key d = Some (?t', r)" by (simp add: p x)
  have "recount h' = h'" using s(2) recount_wf [of hf h'] by (simp add: kt_def)
  then have 2: "kt (recount ?t')" using s(2) by simp
  have 3: "ht_same_frame t ?t'" "ht_same_size h ?t'" "unat (ht_entries ?t') \<le> Suc (unat (ht_entries h))"
    using h(2) s(3-5) by (simp_all add: ht_same_frame_def ht_same_size_def ht_counted_def)
  have 4: "ht_put eqf t ?e ?t' r"
    using s(6) h(3) by (auto simp: ht_put_def fun_eq_iff split: option.splits)
  show ?thesis using 1 2 3 4 by blast
qed

text \<open>An insertion, whatever the allocator does.\<close>

lemma recounted_insert:
  assumes kt: "kt (recount t)" and i: "unat (ht_size_index t) < 18"
    and key: "key \<noteq> NULL" "key \<noteq> ht_deleted_key t"
  shows "\<exists>t' r. hash_table_insert 3 alloc t (hf key) key d = Some (t', r) \<and> kt (recount t') \<and>
    ht_same_frame t t' \<and> ht_put eqf t \<lparr>he_hash = hf key, he_key = key, he_data = d\<rparr> t' r"
proof -
  from insert_prepare [OF kt, where n = 0 and alloc = alloc and c = "ht_max_entries t \<le> ht_deleted_entries t + ht_entries t"] i
  obtain h where "(if ht_max_entries t \<le> ht_entries t
      then rehash_table (hash_table_insert (Suc (Suc 0)) alloc) alloc (recount t) (ht_size_index t + 1)
      else if ht_max_entries t \<le> ht_deleted_entries t + ht_entries t
      then rehash_table (hash_table_insert (Suc (Suc 0)) alloc) alloc (recount t) (ht_size_index t)
      else Some (recount t)) = Some h"
    "kt h" "ht_same_frame (recount t) h" "\<forall>k. ht_lookup h k = ht_lookup t k"
    unfolding recount_simps by blast
  then show ?thesis
    using recounted_insert_prepared [of t "Suc (Suc 0)" alloc h key d] key
    by (auto simp: ht_same_frame_def numeral_3_eq_3)
qed

text \<open>Insertions that cannot fail.\<close>

lemma recounted_insert_steps:
  assumes kt: "kt (recount t)" and n: "ht_steps t n" "n < 131072" and alloc: "\<And>s. alloc s"
    and key: "key \<noteq> NULL" "key \<noteq> ht_deleted_key t"
  shows "\<exists>t' a. hash_table_insert 3 alloc t (hf key) key d = Some (t', Some a) \<and> kt (recount t') \<and>
    ht_same_frame t t' \<and> ht_steps t' (Suc n) \<and>
    ht_put eqf t \<lparr>he_hash = hf key, he_key = key, he_data = d\<rparr> t' (Some a)"
proof -
  from insert_prepare_steps [OF kt _ n(2), where alloc = alloc and m = "Suc 0" and c = "ht_max_entries t \<le> ht_deleted_entries t + ht_entries t"] n(1)
  obtain h where p: "(if ht_max_entries t \<le> ht_entries t
      then rehash_table (hash_table_insert (Suc (Suc 0)) alloc) alloc (recount t) (ht_size_index t + 1)
      else if ht_max_entries t \<le> ht_deleted_entries t + ht_entries t
      then rehash_table (hash_table_insert (Suc (Suc 0)) alloc) alloc (recount t) (ht_size_index t)
      else Some (recount t)) = Some h"
    and h: "kt h" "ht_same_frame (recount t) h" "\<forall>k. ht_lookup h k = ht_lookup t k"
      "unat (ht_entries h) < unat (ht_max_entries h)" "ht_steps h n"
    using alloc unfolding recount_simps by blast
  have fr: "ht_same_frame t h" using h(2) by (simp add: ht_same_frame_def)
  from recounted_insert_prepared [OF p h(1) fr h(3) key, of d] obtain t' r where
    r: "hash_table_insert 3 alloc t (hf key) key d = Some (t', r)" "kt (recount t')" "ht_same_frame t t'"
    "ht_same_size h t'" "unat (ht_entries t') \<le> Suc (unat (ht_entries h))"
    "ht_put eqf t \<lparr>he_hash = hf key, he_key = key, he_data = d\<rparr> t' r" unfolding numeral_3_eq_3 by blast
  have "ht_size_ok h" using h(1) by (simp add: kt_def ht_wf_def)
  then have e: "unat (ht_entries t') \<le> unat (ht_max_entries t')" "unat (ht_entries t') < unat (ht_size t')"
    using r(4,5) h(4) ht_size_okD(5) [of h] by (auto simp: ht_same_size_def)
  then have "r \<noteq> None" using r(6) by (auto simp: ht_put_def split: option.splits)
  moreover have "ht_steps t' (Suc n)"
    using h(5) r(4,5) e(1) by (auto simp: ht_steps_def ht_same_size_def word_le_nat_alt)
  ultimately show ?thesis using r by auto
qed

end

end
