(* ===== verification/SetTableCorrect.thy ===== *)
theory SetTableCorrect
  imports SetTableRefine
begin

text \<open>
  The operations of a set on the keys it holds, one by one and in runs: sets and hash tables provide the
  interface \<open>clearable_store\<close>, that of a store with an operation that empties it.
\<close>

section \<open>Clearing\<close>

lemma set_foreach_filter:
  assumes "set_shape s"
  shows "set_foreach dk s e = filter (\<lambda>j. set_entry_is_present dk (st_table s ! j))
    [(case e of None \<Rightarrow> 0 | Some i \<Rightarrow> Suc i) ..< length (st_table s)]"
  unfolding set_foreach_table [OF assms, symmetric] foreach_filter
  using assms by (intro filter_cong) (auto simp: set_shape_def)

definition cleared :: "ptr \<Rightarrow> set_entry \<Rightarrow> set_entry" where
  "cleared dk e = (if set_entry_is_present dk e then e\<lparr>se_key := dk\<rparr> else e)"

lemma set_clear_loop_result:
  "set_shape s \<Longrightarrow> set_clear_loop dk s e =
    (map (nth (st_table s)) (set_foreach dk s e),
     s\<lparr>st_table := map (\<lambda>j. if (case e of None \<Rightarrow> 0 | Some i \<Rightarrow> Suc i) \<le> j then cleared dk (st_table s ! j)
                                   else st_table s ! j) [0 ..< length (st_table s)]\<rparr>)"
proof (induction dk s e rule: set_clear_loop.induct)
  case (1 dk s e)
  let ?from = "\<lambda>e. case e of None \<Rightarrow> 0 | Some i \<Rightarrow> Suc i"
  let ?P = "\<lambda>j. set_entry_is_present dk (st_table s ! j)"
  have f: "set_foreach dk s e = filter ?P [?from e ..< length (st_table s)]"
    by (rule set_foreach_filter [OF 1(2)])
  show ?case
  proof (cases "mesa_set_next_entry dk s e")
    case None
    then have n: "set_foreach dk s e = []" by (subst set_foreach.simps) simp
    then have "\<not> ?P j" if "?from e \<le> j" "j < length (st_table s)" for j
      using that unfolding f by (simp add: filter_empty_conv)
    then have "map (\<lambda>j. if ?from e \<le> j then cleared dk (st_table s ! j) else st_table s ! j)
        [0 ..< length (st_table s)] = st_table s"
      by (intro nth_equalityI) (auto simp: cleared_def)
    then show ?thesis by (subst set_clear_loop.simps) (simp add: None n)
  next
    case (Some i)
    have fi: "set_foreach dk s e = i # set_foreach dk s (Some i)"
      by (subst set_foreach.simps) (simp add: Some)
    then have split: "filter ?P [?from e ..< length (st_table s)] = i # filter ?P [Suc i ..< length (st_table s)]"
      using f set_foreach_filter [OF 1(2), of dk "Some i"] by simp
    then have "i \<in> set (filter ?P [?from e ..< length (st_table s)])" by simp
    then have i: "?P i" "?from e \<le> i" "i < length (st_table s)" by auto
    have gap: "\<not> ?P j" if "?from e \<le> j" "j < i" for j
    proof
      assume "?P j"
      then have "j \<in> set (filter ?P [?from e ..< length (st_table s)])" using that i by simp
      then have "j = i \<or> Suc i \<le> j" unfolding split by auto
      then show False using that by simp
    qed
    let ?s = "s\<lparr>st_table := (st_table s)[i := (st_table s ! i)\<lparr>se_key := dk\<rparr>]\<rparr>"
    have sh: "set_shape ?s" using 1(2) by (simp add: set_shape_def)
    have fs: "set_foreach dk ?s (Some i) = set_foreach dk s (Some i)"
      unfolding set_foreach_filter [OF sh] set_foreach_filter [OF 1(2)]
      by (intro filter_cong) auto
    have m: "map (nth (st_table ?s)) (set_foreach dk s (Some i)) = map (nth (st_table s)) (set_foreach dk s (Some i))"
      using 1(2) by (intro map_cong) (auto simp: set_foreach_filter)
    have "set_clear_loop dk ?s (Some i) = (map (nth (st_table s)) (set_foreach dk s (Some i)),
       s\<lparr>st_table := map (\<lambda>j. if Suc i \<le> j then cleared dk (st_table ?s ! j) else st_table ?s ! j)
           [0 ..< length (st_table s)]\<rparr>)"
      using 1(1) [OF Some refl sh] by (simp add: fs m [simplified])
    moreover have "map (\<lambda>j. if Suc i \<le> j then cleared dk (st_table ?s ! j) else st_table ?s ! j)
        [0 ..< length (st_table s)] =
      map (\<lambda>j. if ?from e \<le> j then cleared dk (st_table s ! j) else st_table s ! j) [0 ..< length (st_table s)]"
      using i gap by (intro map_cong refl) (auto simp: cleared_def nth_list_update not_le)
    ultimately show ?thesis
      by (subst set_clear_loop.simps) (simp add: Some fi)
  qed
qed

lemma set_clear_result:
  assumes "set_shape s"
  shows "mesa_set_clear dk s = (map (nth (st_table s)) (set_foreach dk s None),
    s\<lparr>st_table := map (cleared dk) (st_table s), st_entries := 0, st_deleted_entries := 0\<rparr>)"
proof -
  have "map (\<lambda>j. cleared dk (st_table s ! j)) [0 ..< length (st_table s)] = map (cleared dk) (st_table s)"
    by (intro nth_equalityI) simp_all
  then show ?thesis by (simp add: mesa_set_clear_def set_clear_loop_result [OF assms])
qed

section \<open>A set is a store\<close>

definition set_has :: "ptr \<Rightarrow> mesa_set \<Rightarrow> ptr \<Rightarrow> bool" where
  "set_has dk s k \<longleftrightarrow>
    (\<exists>e \<in> set (st_table s). set_entry_is_present dk e \<and> st_key_equals_function s k (se_key e))"

lemma set_has_lookup: "set_has dk s k \<longleftrightarrow> ht_lookup (table_of dk s) k \<noteq> None"
  by (auto simp: set_has_def ht_lookup_def find_None_iff)

text \<open>The invariant of a set, whose count of tombstones may be wrong.\<close>

definition set_wf :: "ptr \<Rightarrow> (ptr \<Rightarrow> u32) \<Rightarrow> mesa_set \<Rightarrow> bool" where
  "set_wf dk hf s \<longleftrightarrow> set_shape s \<and> ht_wf hf (recount (table_of dk s)) \<and> st_key_hash_function s = Some hf"

definition set_delete :: "ptr \<Rightarrow> mesa_set \<Rightarrow> ptr \<Rightarrow> mesa_set option" where
  "set_delete dk s key =
    (case mesa_set_search dk s key of
       None \<Rightarrow> None
     | Some entry \<Rightarrow> Some (mesa_set_remove dk s entry))"

lemma recount_remove:
  "recount (mesa_hash_table_remove (recount t) e) = recount (mesa_hash_table_remove t e)"
  by (auto simp: mesa_hash_table_remove_def recount_def entry_is_deleted_def split: option.splits)

context hash_key
begin

lemma set_search_result:
  assumes s: "set_wf dk hf s" "st_key_equals_function s = eqf"
  shows "\<exists>r. mesa_set_search dk s k = Some r \<and>
    (case r of None \<Rightarrow> \<not> set_has dk s k
     | Some i \<Rightarrow> i < length (st_table s) \<and> set_entry_is_present dk (st_table s ! i) \<and>
         eqf k (se_key (st_table s ! i)) \<and> set_has dk s k)"
proof -
  have sh: "set_shape s" and kt: "kt (recount (table_of dk s))" and f: "st_key_hash_function s = Some hf"
    using s by (auto simp: set_wf_def kt_def)
  from search_correct [OF kt, of k] obtain r where
    r: "hash_table_search (recount (table_of dk s)) (hf k) k = Some r" and
    c: "case r of None \<Rightarrow> ht_lookup (table_of dk s) k = None
     | Some i \<Rightarrow> i < unat (st_size s) \<and> entry_is_present (table_of dk s) (map plain_entry (st_table s) ! i) \<and>
         eqf k (he_key (map plain_entry (st_table s) ! i)) \<and>
         ht_lookup (table_of dk s) k = Some (he_data (map plain_entry (st_table s) ! i))"
    unfolding recount_simps table_of_simps by blast
  have "mesa_set_search dk s k = Some r"
    using search_recount [OF r] by (simp add: mesa_set_search_def f set_search_table [OF sh])
  then show ?thesis using c sh
    by (auto simp: set_has_lookup set_shape_def split: option.splits)
qed

lemma set_add_result:
  assumes s: "set_wf dk hf s" "st_key_equals_function s = eqf" "unat (st_size_index s) < 18"
    and k: "k \<noteq> NULL" "k \<noteq> dk"
  shows "\<exists>s' r. mesa_set_add alloc dk s k = Some (s', r) \<and> set_wf dk hf s' \<and> st_key_equals_function s' = eqf \<and>
    (case r of
       Some i \<Rightarrow> i < length (st_table s') \<and> st_table s' ! i = \<lparr>se_hash = hf k, se_key = k\<rparr> \<and>
         set_has dk s' = (\<lambda>k'. eqf k' k \<or> set_has dk s k')
     | None \<Rightarrow> set_has dk s' = set_has dk s \<and> \<not> set_has dk s k \<and> unat (st_entries s') = unat (st_size s'))"
proof -
  let ?t = "table_of dk s"
  have sh: "set_shape s" and kt: "kt (recount ?t)" and f: "st_key_hash_function s = Some hf"
    using s by (auto simp: set_wf_def kt_def)
  have "unat (ht_size_index ?t) < 18" "k \<noteq> ht_deleted_key ?t" using s(3) k by simp_all
  from recounted_insert [OF kt this(1) k(1) this(2), of alloc NULL] obtain t' r where
    t: "hash_table_insert 3 alloc ?t (hf k) k NULL = Some (t', r)" "kt (recount t')" "ht_same_frame ?t t'"
    "ht_put eqf ?t \<lparr>he_hash = hf k, he_key = k, he_data = NULL\<rparr> t' r" by blast
  have "same_result dk (set_add 3 alloc dk s (hf k) k) (Some (t', r))"
    using set_add_table [of dk 3 alloc] sh t(1) by (metis simulates_def)
  then obtain s' where s': "set_add 3 alloc dk s (hf k) k = Some (s', r)" "set_shape s'" "t' = table_of dk s'"
    by (auto simp: same_result_def split: option.splits)
  have fr: "st_key_hash_function s' = Some hf" "st_key_equals_function s' = eqf"
    using t(3) f s(2) by (simp_all add: s'(3) ht_same_frame_def)
  have "set_wf dk hf s'" using t(2) s'(2) fr by (simp add: set_wf_def kt_def s'(3))
  moreover have "mesa_set_add alloc dk s k = Some (s', r)" by (simp add: mesa_set_add_def f s'(1))
  moreover have "st_table s' ! i = \<lparr>se_hash = hf k, se_key = k\<rparr>"
    if "plain_entry (st_table s' ! i) = \<lparr>he_hash = hf k, he_key = k, he_data = NULL\<rparr>" for i
    using that by (cases "st_table s' ! i") (simp add: plain_entry_def)
  ultimately show ?thesis
    using t(4) fr(2) s'(2)
    by (auto simp: ht_put_def s'(3) set_has_lookup set_shape_def fun_eq_iff split: option.splits)
qed

lemma set_remove_result:
  assumes s: "set_wf dk hf s" "st_key_equals_function s = eqf"
    and i: "i < length (st_table s)" "set_entry_is_present dk (st_table s ! i)"
  shows "set_wf dk hf (mesa_set_remove dk s (Some i))"
    "set_has dk (mesa_set_remove dk s (Some i)) = (\<lambda>k. \<not> eqf k (se_key (st_table s ! i)) \<and> set_has dk s k)"
proof -
  let ?t = "table_of dk s" and ?s = "mesa_set_remove dk s (Some i)"
  have sh: "set_shape s" and kt: "kt (recount ?t)" and f: "st_key_hash_function s = Some hf"
    using s by (auto simp: set_wf_def kt_def)
  have "\<forall>j. Some i = Some j \<longrightarrow> j < length (st_table s)" using i by simp
  note rem = set_remove_table [OF sh this, of dk]
  have i': "i < unat (ht_size (recount ?t))" "entry_is_present (recount ?t) (ht_table (recount ?t) ! i)"
    using i sh by (simp_all add: set_shape_def)
  note c = remove_correct [OF kt i']
  have "recount (mesa_hash_table_remove (recount ?t) (Some i)) = mesa_hash_table_remove (recount ?t) (Some i)"
    using c(1) recount_wf [of hf] by (simp add: kt_def)
  then have r: "recount (table_of dk ?s) = mesa_hash_table_remove (recount ?t) (Some i)"
    unfolding rem(1) [symmetric] recount_remove by simp
  show "set_wf dk hf ?s" using c(1) rem(2) f
    by (simp add: set_wf_def kt_def r) (simp add: mesa_set_remove_def)
  have "ht_lookup (recount (table_of dk ?s)) k = (if eqf k (se_key (st_table s ! i)) then None else ht_lookup ?t k)" for k
    unfolding r c(2) using i(1) by simp
  then show "set_has dk ?s = (\<lambda>k. \<not> eqf k (se_key (st_table s ! i)) \<and> set_has dk s k)"
    by (auto simp: set_has_lookup fun_eq_iff)
qed

lemma set_clear_wf:
  assumes s: "set_wf dk hf s" "st_key_equals_function s = eqf"
  shows "set_wf dk hf (snd (mesa_set_clear dk s))" "\<not> set_has dk (snd (mesa_set_clear dk s)) k"
    "fst (mesa_set_clear dk s) = filter (set_entry_is_present dk) (st_table s)"
    "length (filter (set_entry_is_deleted dk) (st_table (snd (mesa_set_clear dk s)))) =
      length (filter (\<lambda>e. \<not> set_entry_is_free e) (st_table s))"
proof -
  let ?c = "s\<lparr>st_table := map (cleared dk) (st_table s), st_entries := 0, st_deleted_entries := 0\<rparr>"
  have sh: "set_shape s" and wf: "ht_wf hf (recount (table_of dk s))" and f: "st_key_hash_function s = Some hf"
    using s by (auto simp: set_wf_def)
  note w = ht_wf_simps [OF wf, simplified]
  have c: "mesa_set_clear dk s = (map (nth (st_table s)) (set_foreach dk s None), ?c)"
    by (rule set_clear_result [OF sh])
  have np: "\<not> set_entry_is_present dk (cleared dk e)" for e
    using w(3) by (simp add: cleared_def set_entry_is_present_def)
  have e: "entry_is_present (table_of dk ?c) = entry_is_present (table_of dk s)"
    by (auto simp: entry_is_present_def fun_eq_iff)
  have none: "filter (entry_is_present (table_of dk ?c)) (ht_table (table_of dk ?c)) = []"
    using np by (auto simp: filter_empty_conv)
  have "length (filter (entry_is_deleted (table_of dk ?c)) (ht_table (table_of dk ?c))) \<le> unat (st_size s)"
    using length_filter_le [of "entry_is_deleted (table_of dk ?c)" "ht_table (table_of dk ?c)"] w(2) by simp
  also have "\<dots> < 2 ^ 32" using unsigned_less [of "st_size s", where 'a = nat] by simp
  finally have cnt: "unat (of_nat (length (filter (entry_is_deleted (table_of dk ?c)) (ht_table (table_of dk ?c)))) :: u32) =
      length (filter (entry_is_deleted (table_of dk ?c)) (ht_table (table_of dk ?c)))"
    by (intro unat_of_nat_less) simp
  have sz: "ht_size_ok (recount (table_of dk ?c))" using w(1) by (simp add: ht_size_ok_def)
  have absent: "\<not> entry_is_present (table_of dk ?c) (ht_table (table_of dk ?c) ! a)" if "a < unat (st_size s)" for a
    using that np w(2) by simp
  have "ht_wf hf (recount (table_of dk ?c))"
    unfolding ht_wf_def using sz w(2,3) none cnt absent by (simp add: recount_def)
  then show "set_wf dk hf (snd (mesa_set_clear dk s))"
    using sh f by (simp add: c set_wf_def set_shape_def)
  show "\<not> set_has dk (snd (mesa_set_clear dk s)) k" using np by (auto simp: c set_has_def)
  show "fst (mesa_set_clear dk s) = filter (set_entry_is_present dk) (st_table s)"
    unfolding c fst_conv set_foreach_filter [OF sh]
    by (simp add: filter_map [symmetric, unfolded comp_def] map_nth)
  show "length (filter (set_entry_is_deleted dk) (st_table (snd (mesa_set_clear dk s)))) =
      length (filter (\<lambda>e. \<not> set_entry_is_free e) (st_table s))"
  proof -
    have "set_entry_is_deleted dk (cleared dk e) \<longleftrightarrow> \<not> set_entry_is_free e" for e
      using w(3) by (auto simp: cleared_def set_entry_is_deleted_def set_entry_is_present_def set_entry_is_free_def)
    then show ?thesis by (simp add: c filter_map comp_def)
  qed
qed

end

section \<open>The interface of a store that can be cleared\<close>

text \<open>A run in phases, each of them after the store has been cleared.\<close>

fun run_phases ::
  "('s \<Rightarrow> 'k \<Rightarrow> 'd \<Rightarrow> 's option) \<Rightarrow> ('s \<Rightarrow> 'k \<Rightarrow> 's option) \<Rightarrow> ('s \<Rightarrow> 's) \<Rightarrow> 's \<Rightarrow> ('k, 'd) store_op list list
    \<Rightarrow> 's option" where
  "run_phases put del clear s [] = Some s"
| "run_phases put del clear s (ops # phases) =
    (case run_store put del (clear s) ops of None \<Rightarrow> None | Some s' \<Rightarrow> run_phases put del clear s' phases)"

locale clearable_store = keyed_store +
  fixes clear :: "'a \<Rightarrow> 'a"
  assumes clear_law: "inv n s \<Longrightarrow> inv n (clear s) \<and> look (clear s) = (\<lambda>_. none)"
begin

lemma phases_correct:
  assumes "inv n s" "n + sum_list (map length phases) \<le> limit"
    "\<forall>ops \<in> set phases. \<forall>op \<in> set ops. usable_op usable op"
  shows "\<exists>n' s'. run_phases put del clear s phases = Some s' \<and> inv n' s' \<and>
    look s' = (if phases = [] then look s else apply_ops same val none (\<lambda>_. none) (last phases))"
  using assms
proof (induction phases arbitrary: n s)
  case (Cons ops phases)
  from clear_law [OF Cons.prems(1)] have c: "inv n (clear s)" "look (clear s) = (\<lambda>_. none)" by auto
  from run_correct [OF c(1), of ops] Cons.prems obtain n1 s1 where
    s1: "run_store put del (clear s) ops = Some s1" "inv n1 s1" "n1 \<le> n + length ops"
    "look s1 = apply_ops same val none (\<lambda>_. none) ops" by (auto simp: c(2))
  with Cons.IH [of n1 s1] Cons.prems show ?case by (auto split: if_splits)
qed auto

end

section \<open>Hash tables and sets are clearable stores\<close>

context hash_key_table
begin

definition set_inv :: "nat \<Rightarrow> mesa_set \<Rightarrow> bool" where
  "set_inv n s \<longleftrightarrow> set_wf dk hf s \<and> st_key_equals_function s = eqf \<and> ht_steps (table_of dk s) n"

end

sublocale hash_key_table \<subseteq> clear: clearable_store store_inv 131072 "\<lambda>k. k \<noteq> NULL \<and> k \<noteq> dk" eqf ht_lookup
  "\<lambda>ht k d. map_option fst (mesa_hash_table_insert (\<lambda>_. True) ht k d)" hash_table_delete Some None
  "\<lambda>ht. fst (mesa_hash_table_clear ht)"
proof
  fix n s assume s: "store_inv n s"
  then have wf: "ht_wf hf s" by (simp add: store_inv_def kt_def)
  let ?c = "fst (mesa_hash_table_clear s)"
  have "ht_key_hash_function ?c = ht_key_hash_function s" "ht_key_equals_function ?c = ht_key_equals_function s"
    "ht_deleted_key ?c = ht_deleted_key s" "ht_entries ?c = 0" "ht_size_index ?c = ht_size_index s"
    by (simp_all add: mesa_hash_table_clear_def split: prod.splits)
  then show "store_inv n ?c \<and> ht_lookup ?c = (\<lambda>_. None)"
    using s clear_correct(1,2) [OF wf] by (auto simp: store_inv_def kt_def ht_steps_def fun_eq_iff)
qed

sublocale hash_key_table \<subseteq> sets: clearable_store set_inv 131072 "\<lambda>k. k \<noteq> NULL \<and> k \<noteq> dk" eqf "set_has dk"
  "\<lambda>s k (_ :: unit). map_option fst (mesa_set_add (\<lambda>_. True) dk s k)" "set_delete dk" "\<lambda>_. True" False
  "\<lambda>s. snd (mesa_set_clear dk s)"
proof
  fix n s k and d :: unit assume s: "set_inv n s" and n: "n < 131072" and k: "k \<noteq> NULL \<and> k \<noteq> dk"
  let ?t = "table_of dk s"
  have wf: "set_wf dk hf s" "st_key_equals_function s = eqf" and st: "ht_steps ?t n"
    using s by (auto simp: set_inv_def)
  have sh: "set_shape s" and kt: "kt (recount ?t)" and f: "st_key_hash_function s = Some hf"
    using wf by (auto simp: set_wf_def kt_def)
  have k': "k \<noteq> NULL" "k \<noteq> ht_deleted_key ?t" using k by simp_all
  from recounted_insert_steps [OF kt st n TrueI k', of NULL] obtain t' a where
    t: "hash_table_insert 3 (\<lambda>_. True) ?t (hf k) k NULL = Some (t', Some a)" "kt (recount t')"
    "ht_same_frame ?t t'" "ht_steps t' (Suc n)"
    "ht_put eqf ?t \<lparr>he_hash = hf k, he_key = k, he_data = NULL\<rparr> t' (Some a)" by blast
  have "same_result dk (set_add 3 (\<lambda>_. True) dk s (hf k) k) (Some (t', Some a))"
    using set_add_table [of dk 3 "\<lambda>_. True"] sh t(1) by (metis simulates_def)
  then obtain s' where s': "set_add 3 (\<lambda>_. True) dk s (hf k) k = Some (s', Some a)" "set_shape s'"
    "t' = table_of dk s'" by (auto simp: same_result_def split: option.splits)
  have fr: "st_key_hash_function s' = Some hf" "st_key_equals_function s' = eqf"
    using t(3) f wf(2) by (simp_all add: s'(3) ht_same_frame_def)
  have "set_inv (Suc n) s'"
    using t(2,4) s'(2) fr by (simp add: set_inv_def set_wf_def kt_def s'(3))
  moreover have "map_option fst (mesa_set_add (\<lambda>_. True) dk s k) = Some s'"
    by (simp add: mesa_set_add_def f s'(1))
  moreover have "set_has dk s' = (\<lambda>k'. if eqf k' k then True else set_has dk s k')"
    using t(5) by (auto simp: ht_put_def s'(3) set_has_lookup fun_eq_iff)
  ultimately show "\<exists>s'. map_option fst (mesa_set_add (\<lambda>_. True) dk s k) = Some s' \<and> set_inv (Suc n) s' \<and>
      set_has dk s' = (\<lambda>k'. if eqf k' k then True else set_has dk s k')" by blast
next
  fix n s k assume s: "set_inv n s"
  then have wf: "set_wf dk hf s" "st_key_equals_function s = eqf" and st: "ht_steps (table_of dk s) n"
    by (auto simp: set_inv_def)
  from set_search_result [OF wf, of k] obtain r where
    r: "mesa_set_search dk s k = Some r" and c: "case r of None \<Rightarrow> \<not> set_has dk s k
     | Some i \<Rightarrow> i < length (st_table s) \<and> set_entry_is_present dk (st_table s ! i) \<and>
         eqf k (se_key (st_table s ! i)) \<and> set_has dk s k" by blast
  show "\<exists>s'. set_delete dk s k = Some s' \<and> set_inv n s' \<and>
      set_has dk s' = (\<lambda>k'. if eqf k' k then False else set_has dk s k')"
  proof (cases r)
    case None
    have "\<not> set_has dk s k'" if "eqf k' k" for k'
      using c None wf(2) eq_trans [OF eq_sym [OF that]] by (auto simp: set_has_def)
    moreover have "set_delete dk s k = Some s"
      using r None by (simp add: set_delete_def mesa_set_remove_def)
    ultimately show ?thesis using s by (auto simp: fun_eq_iff)
  next
    case (Some i)
    with c have i: "i < length (st_table s)" "set_entry_is_present dk (st_table s ! i)"
      "eqf k (se_key (st_table s ! i))" by auto
    let ?s' = "mesa_set_remove dk s (Some i)"
    have eq: "eqf k' (se_key (st_table s ! i)) \<longleftrightarrow> eqf k' k" for k'
      using i(3) eq_trans eq_sym by blast
    have sh: "set_shape s" and kt: "kt (recount (table_of dk s))"
      using wf by (auto simp: set_wf_def kt_def)
    have "\<forall>j. Some i = Some j \<longrightarrow> j < length (st_table s)" using i(1) by simp
    note tab = set_remove_table [OF sh this, of dk]
    have "ht_steps (mesa_hash_table_remove (recount (table_of dk s)) (Some i)) n"
      by (rule remove_steps [OF kt]) (use st i sh in \<open>simp_all add: set_shape_def\<close>)
    then have "ht_steps (recount (mesa_hash_table_remove (recount (table_of dk s)) (Some i))) n" by simp
    then have "ht_steps (table_of dk ?s') n" by (simp add: recount_remove tab(1))
    moreover have "st_key_equals_function ?s' = eqf" using wf(2) by (simp add: mesa_set_remove_def)
    ultimately have "set_inv n ?s'" using set_remove_result(1) [OF wf i(1,2)] by (simp add: set_inv_def)
    moreover have "set_delete dk s k = Some ?s'" using r Some by (simp add: set_delete_def)
    moreover have "set_has dk ?s' = (\<lambda>k'. if eqf k' k then False else set_has dk s k')"
      by (simp add: set_remove_result(2) [OF wf i(1,2)] eq fun_eq_iff)
    ultimately show ?thesis by blast
  qed
next
  fix n s assume s: "set_inv n s"
  then have wf: "set_wf dk hf s" "st_key_equals_function s = eqf" and st: "ht_steps (table_of dk s) n"
    by (auto simp: set_inv_def)
  have "set_shape s" using wf by (simp add: set_wf_def)
  note c = set_clear_result [OF this, of dk]
  show "set_inv n (snd (mesa_set_clear dk s)) \<and> set_has dk (snd (mesa_set_clear dk s)) = (\<lambda>_. False)"
    using set_clear_wf(1,2) [OF wf] st wf(2)
    by (auto simp: set_inv_def fun_eq_iff) (simp_all add: c ht_steps_def)
qed

text \<open>Sets of pointers.\<close>

interpretation ps: clearable_store pk.set_inv 131072 "\<lambda>k. k \<noteq> NULL \<and> k \<noteq> DELETED_KEY_VALUE"
  mesa_key_pointer_equal "set_has DELETED_KEY_VALUE"
  "\<lambda>s k (_ :: unit). map_option fst (mesa_set_add (\<lambda>_. True) DELETED_KEY_VALUE s k)"
  "set_delete DELETED_KEY_VALUE" "\<lambda>_. True" False "\<lambda>s. snd (mesa_set_clear DELETED_KEY_VALUE s)"
  by (rule pk.sets.clearable_store_axioms)

section \<open>New sets and iteration\<close>

lemma set_create_table:
  assumes "mesa_set_create ok alloc f eqf = Some s"
  shows "mesa_hash_table_create alloc dk f eqf = Some (table_of dk s)" "set_shape s"
    "st_key_hash_function s = f" "st_key_equals_function s = eqf"
  using assms
  by (auto simp: mesa_set_create_def mesa_hash_table_create_def rzalloc_set_entries_def rzalloc_entries_def
      set_sizes_eq size_entry_def hash_sizes_def table_of_def set_shape_def Let_def split: if_splits)

lemma set_create_ok: "\<exists>s. mesa_set_create True (\<lambda>_. True) f eqf = Some s"
  by (simp add: mesa_set_create_def rzalloc_set_entries_def split: prod.splits)

lemma set_destroy_entries:
  assumes "set_shape s"
  shows "mesa_set_destroy dk s = filter (set_entry_is_present dk) (st_table s)"
  unfolding mesa_set_destroy_def set_foreach_filter [OF assms]
  by (simp add: filter_map [symmetric, unfolded comp_def] map_nth)

lemma present_plain:
  "filter (entry_is_present (table_of dk s)) (map plain_entry es) =
   map plain_entry (filter (set_entry_is_present dk) es)"
  by (simp add: filter_map comp_def)

lemma random_recount:
  "mesa_hash_table_random_entry r (recount t) p = mesa_hash_table_random_entry r t p"
  unfolding mesa_hash_table_random_entry_def recount_simps by (rule refl)

context hash_key
begin

lemma set_entries_result:
  assumes s: "set_wf dk hf s" "st_key_equals_function s = eqf"
  shows "mesa_set_destroy dk s = filter (set_entry_is_present dk) (st_table s)"
    "sorted_wrt (\<lambda>e e'. \<not> eqf (se_key e) (se_key e')) (mesa_set_destroy dk s)"
    "unat (st_entries s) = length (mesa_set_destroy dk s)"
    "case mesa_set_random_entry r dk s p of
       Some j \<Rightarrow> j < length (st_table s) \<and> set_entry_is_present dk (st_table s ! j)
         \<and> (case p of None \<Rightarrow> True | Some q \<Rightarrow> q (st_table s ! j))
     | None \<Rightarrow> \<forall>e \<in> set (mesa_set_destroy dk s). case p of None \<Rightarrow> False | Some q \<Rightarrow> \<not> q e"
proof -
  let ?t = "recount (table_of dk s)"
  have sh: "set_shape s" and wf: "ht_wf hf ?t" and kt: "kt ?t"
    using s by (auto simp: set_wf_def kt_def)
  show d: "mesa_set_destroy dk s = filter (set_entry_is_present dk) (st_table s)"
    by (rule set_destroy_entries [OF sh])
  have "ht_distinct eqf (map plain_entry (filter (set_entry_is_present dk) (st_table s)))"
    using present_distinct [OF kt] by (simp add: present_plain)
  then show "sorted_wrt (\<lambda>e e'. \<not> eqf (se_key e) (se_key e')) (mesa_set_destroy dk s)"
    by (simp add: ht_distinct_def sorted_wrt_map d)
  show "unat (st_entries s) = length (mesa_set_destroy dk s)"
    using ht_wf_simps(4) [OF wf] by (simp add: present_plain d)
  have len: "length (st_table s) = unat (st_size s)" using sh by (simp add: set_shape_def)
  have eta: "\<lparr>se_hash = se_hash e, se_key = se_key e\<rparr> = e" for e :: set_entry by simp
  let ?p = "map_option (\<lambda>p e. p \<lparr>se_hash = he_hash e, se_key = he_key e\<rparr>) p"
  have rd: "mesa_set_random_entry r dk s p = mesa_hash_table_random_entry r ?t ?p"
    by (simp add: set_random_table [OF sh] random_recount)
  show "case mesa_set_random_entry r dk s p of
       Some j \<Rightarrow> j < length (st_table s) \<and> set_entry_is_present dk (st_table s ! j)
         \<and> (case p of None \<Rightarrow> True | Some q \<Rightarrow> q (st_table s ! j))
     | None \<Rightarrow> \<forall>e \<in> set (mesa_set_destroy dk s). case p of None \<Rightarrow> False | Some q \<Rightarrow> \<not> q e"
    using random_entry_result [OF wf, where r = r and p = ?p] unfolding rd d
    by (cases "mesa_hash_table_random_entry r ?t ?p"; cases p) (auto simp: len eta in_set_conv_nth)
qed

end

context hash_key_table
begin

lemmas set_phases = sets.phases_correct

end

section \<open>Properties\<close>

text \<open>C38. On a well-formed set, whatever the allocator does, adding a key stores it at the returned slot
  and adds exactly it, or leaves a full set alone; removing a present entry removes exactly its key;
  clearing hands every entry to the callback and leaves an empty set.  The count of tombstones need not
  be right for this, and after clearing it is not: every slot that was in use is a tombstone, of which
  none is counted.\<close>

theorem set_operations_correct:
  assumes "hash_key hf (st_key_equals_function s)" "set_wf dk hf s"
  shows "(unat (st_size_index s) < 18 \<and> k \<noteq> NULL \<and> k \<noteq> dk \<longrightarrow>
      (\<exists>s' r. mesa_set_add alloc dk s k = Some (s', r) \<and> set_wf dk hf s' \<and>
        (case r of
           Some i \<Rightarrow> i < length (st_table s') \<and> st_table s' ! i = \<lparr>se_hash = hf k, se_key = k\<rparr> \<and>
             set_has dk s' = (\<lambda>k'. st_key_equals_function s k' k \<or> set_has dk s k')
         | None \<Rightarrow> set_has dk s' = set_has dk s \<and> \<not> set_has dk s k \<and> unat (st_entries s') = unat (st_size s'))))
    \<and> (i < length (st_table s) \<and> set_entry_is_present dk (st_table s ! i) \<longrightarrow>
        set_wf dk hf (mesa_set_remove dk s (Some i)) \<and> set_has dk (mesa_set_remove dk s (Some i)) =
          (\<lambda>k'. \<not> st_key_equals_function s k' (se_key (st_table s ! i)) \<and> set_has dk s k'))
    \<and> (let (calls, s') = mesa_set_clear dk s
       in calls = filter (set_entry_is_present dk) (st_table s) \<and> set_wf dk hf s' \<and> set_has dk s' = (\<lambda>_. False) \<and>
          length (filter (set_entry_is_deleted dk) (st_table s')) =
            length (filter (\<lambda>e. \<not> set_entry_is_free e) (st_table s)) \<and> st_deleted_entries s' = 0)"
proof -
  have "st_deleted_entries (snd (mesa_set_clear dk s)) = 0"
    using assms(2) by (simp add: set_clear_result set_wf_def)
  moreover have "set_has dk (snd (mesa_set_clear dk s)) = (\<lambda>_. False)"
    using hash_key.set_clear_wf(2) [OF assms refl] by blast
  ultimately show ?thesis
    using hash_key.set_add_result [OF assms refl, of k alloc] hash_key.set_remove_result [OF assms refl, of i]
      hash_key.set_clear_wf(1,3,4) [OF assms refl] unfolding case_prod_beta Let_def by blast
qed

text \<open>C39. Up to 131072 additions and removals, with any number of clearings in between, leave exactly the
  keys added and not removed since the last clearing, whatever the number of rehashes on the way: a
  search finds a key exactly when it is among them, and iteration visits one entry for each of them, as
  many as the set counts.\<close>

theorem set_runs:
  assumes "hash_key hf eqf" "dk \<noteq> NULL" "phases \<noteq> []" "sum_list (map length phases) \<le> 131072"
    "\<forall>ops \<in> set phases. \<forall>op \<in> set ops. usable_op (\<lambda>k. k \<noteq> NULL \<and> k \<noteq> dk) op"
  defines "has \<equiv> apply_ops eqf (\<lambda>_. True) False (\<lambda>_. False) (last phases)"
  shows "\<exists>s0 s. mesa_set_create True (\<lambda>_. True) (Some hf) eqf = Some s0 \<and>
    run_phases (\<lambda>s k (_ :: unit). map_option fst (mesa_set_add (\<lambda>_. True) dk s k)) (set_delete dk)
      (\<lambda>s. snd (mesa_set_clear dk s)) s0 phases = Some s \<and>
    (\<forall>k. \<exists>r. mesa_set_search dk s k = Some r \<and>
      (case r of None \<Rightarrow> \<not> has k
       | Some i \<Rightarrow> i < length (st_table s) \<and> set_entry_is_present dk (st_table s ! i) \<and>
           eqf k (se_key (st_table s ! i)) \<and> has k)) \<and>
    (\<forall>k. has k \<longleftrightarrow> (\<exists>e \<in> set (mesa_set_destroy dk s). eqf k (se_key e))) \<and>
    sorted_wrt (\<lambda>e e'. \<not> eqf (se_key e) (se_key e')) (mesa_set_destroy dk s) \<and>
    unat (st_entries s) = length (mesa_set_destroy dk s) \<and>
    (\<forall>r. mesa_set_random_entry r dk s None = None \<longleftrightarrow> mesa_set_destroy dk s = [])"
proof -
  have loc: "hash_key_table hf eqf dk"
    using assms(1,2) by (simp add: hash_key_table_def hash_key_table_axioms_def)
  note inv_def = hash_key_table.set_inv_def [OF loc]
  obtain s0 where s0: "mesa_set_create True (\<lambda>_. True) (Some hf) eqf = Some s0" using set_create_ok by blast
  note c = set_create_table [OF s0]
  obtain ht0 where h: "table_of dk s0 = ht_fresh ht0 0" "ht_deleted_key ht0 = dk"
    using create_fresh [of dk "Some hf" eqf] c(1) [of dk] by auto
  have n: "ht_deleted_key ht0 \<noteq> NULL" using h(2) assms(2) by simp
  have "ht_wf hf (recount (table_of dk s0))" "ht_steps (table_of dk s0) 0"
    using ht_fresh_new [OF n] recount_wf [of hf] by (simp_all add: h(1))
  then have inv: "hash_key_table.set_inv hf eqf dk 0 s0"
    using c by (simp add: inv_def set_wf_def)
  from hash_key_table.set_phases [OF loc inv, of phases]
    assms(3-5) obtain m s where
    s: "run_phases (\<lambda>s k (_ :: unit). map_option fst (mesa_set_add (\<lambda>_. True) dk s k)) (set_delete dk)
      (\<lambda>s. snd (mesa_set_clear dk s)) s0 phases = Some s" "hash_key_table.set_inv hf eqf dk m s"
    "set_has dk s = has" unfolding has_def by auto
  have wf: "set_wf dk hf s" "st_key_equals_function s = eqf" using s(2) by (auto simp: inv_def)
  note e = hash_key.set_entries_result [OF assms(1) wf]
  have "has k \<longleftrightarrow> (\<exists>e \<in> set (mesa_set_destroy dk s). eqf k (se_key e))" for k
    using wf(2) by (auto simp: s(3) [symmetric] set_has_def e(1))
  moreover have "mesa_set_random_entry r dk s None = None \<longleftrightarrow> mesa_set_destroy dk s = []" for r
    using e(4) [where r = r and p = None] e(1) by (auto simp: filter_empty_conv split: option.splits)
  ultimately show ?thesis
    using s0 s(1) e(2,3) hash_key.set_search_result [OF assms(1) wf] unfolding s(3) by blast
qed

lemma example_set:
  "\<exists>s. set_wf DELETED_KEY_VALUE mesa_hash_pointer s \<and> st_key_equals_function s = mesa_key_pointer_equal \<and>
     st_size_index s = 0"
proof -
  obtain s where s: "mesa_set_create True (\<lambda>_. True) (Some mesa_hash_pointer) mesa_key_pointer_equal = Some s"
    using set_create_ok by blast
  note c = set_create_table [OF s]
  obtain t where "mesa_hash_table_create (\<lambda>_. True) DELETED_KEY_VALUE (Some mesa_hash_pointer)
      mesa_key_pointer_equal = Some t" "ht_wf mesa_hash_pointer t" "ht_size_index t = 0" using create_pk by blast
  then have "ht_wf mesa_hash_pointer (table_of DELETED_KEY_VALUE s)" "st_size_index s = 0"
    using c(1) [of DELETED_KEY_VALUE] by auto
  then show ?thesis using c recount_wf [of mesa_hash_pointer] by (auto simp: set_wf_def)
qed

theorem set_operations_correct_witness:
  "\<exists>s s' r. set_wf DELETED_KEY_VALUE mesa_hash_pointer s \<and>
     mesa_set_add (\<lambda>_. False) DELETED_KEY_VALUE s 8 = Some (s', r)"
proof -
  obtain s where s: "set_wf DELETED_KEY_VALUE mesa_hash_pointer s"
    "st_key_equals_function s = mesa_key_pointer_equal" "st_size_index s = 0" using example_set by blast
  have "hash_key mesa_hash_pointer (st_key_equals_function s)" using pk.hash_key_axioms by (simp add: s(2))
  from set_operations_correct [OF this s(1), of 8 "\<lambda>_. False"] s show ?thesis
    by (fastforce simp: DELETED_KEY_VALUE_def)
qed

theorem set_runs_witness:
  "\<exists>s. (\<exists>i. mesa_set_search DELETED_KEY_VALUE s 24 = Some (Some i)) \<and>
     mesa_set_search DELETED_KEY_VALUE s 8 = Some None \<and> mesa_set_search DELETED_KEY_VALUE s 16 = Some None"
proof -
  let ?ph = "[[Store (8 :: ptr) (), Store 16 ()], [Store 24 (), Store 16 (), Drop 16]]"
  have "?ph \<noteq> []" "sum_list (map length ?ph) \<le> 131072"
    "\<forall>ops \<in> set ?ph. \<forall>op \<in> set ops. usable_op (\<lambda>k. k \<noteq> NULL \<and> k \<noteq> DELETED_KEY_VALUE) op"
    by (simp_all add: DELETED_KEY_VALUE_def)
  from set_runs [OF pk.hash_key_axioms pk.dk this] obtain s where
    "\<forall>k. \<exists>r. mesa_set_search DELETED_KEY_VALUE s k = Some r \<and>
      (case r of None \<Rightarrow> \<not> apply_ops mesa_key_pointer_equal (\<lambda>_. True) False (\<lambda>_. False) (last ?ph) k
       | Some i \<Rightarrow> i < length (st_table s) \<and> set_entry_is_present DELETED_KEY_VALUE (st_table s ! i) \<and>
           mesa_key_pointer_equal k (se_key (st_table s ! i)) \<and>
           apply_ops mesa_key_pointer_equal (\<lambda>_. True) False (\<lambda>_. False) (last ?ph) k)" by blast
  from this [rule_format, of 24] this [rule_format, of 8] this [rule_format, of 16] show ?thesis
    by (intro exI [of _ s]) (auto simp: mesa_key_pointer_equal_def split: option.splits)
qed

end
