(* ===== verification/UVector.thy ===== *)
theory UVector
  imports Prelude "HOL-Library.Monad_Syntax"
begin

text \<open>
  The growable circular queue \<open>src/src/util/u_vector.c\<close> and \<open>u_vector.h\<close>: a block of bytes and two
  free-running 32-bit counters that are reduced modulo the size of the block only to access it.  An access
  out of bounds is \<^term>\<open>None\<close>, \<open>malloc\<close> a parameter that may fail.  \<open>u_vector_init\<close> asserts that both sizes
  are powers of two and that an element is smaller than the block, which is part of \<open>uv_wf\<close>.  The asserts
  of \<open>u_vector_add\<close> and \<open>u_vector_head\<close> that compare the counters, which do not hold once the head has wrapped,
  are those of a debug build and have no model.
\<close>

section \<open>State and operations\<close>

record u_vector =
  uv_head :: u32
  uv_tail :: u32
  uv_element_size :: u32
  uv_size :: u32
  uv_data :: "u8 list"

text \<open>\<open>malloc\<close> gives the uninitialised bytes of the new block.\<close>

type_synonym malloc = "u32 \<Rightarrow> u8 list option"

definition u_align_u32 :: "u32 \<Rightarrow> u32 \<Rightarrow> u32" where
  "u_align_u32 v a = (v + a - 1) AND NOT (a - 1)"

text \<open>\<open>memcpy\<close> between blocks, \<^term>\<open>None\<close> for an access out of bounds.\<close>

definition copy_bytes :: "u8 list \<Rightarrow> u32 \<Rightarrow> u8 list \<Rightarrow> u32 \<Rightarrow> u32 \<Rightarrow> u8 list option" where
  "copy_bytes dst off src soff n =
    (if unat off + unat n \<le> length dst \<and> unat soff + unat n \<le> length src
     then Some (take (unat off) dst @ take (unat n) (drop (unat soff) src) @ drop (unat off + unat n) dst)
     else None)"

definition u_vector_init :: "malloc \<Rightarrow> u32 \<Rightarrow> u32 \<Rightarrow> u_vector option" where
  "u_vector_init malloc element_size size' =
    (case malloc size' of
       None \<Rightarrow> None
     | Some d \<Rightarrow> Some \<lparr>uv_head = 0, uv_tail = 0, uv_element_size = element_size, uv_size = size', uv_data = d\<rparr>)"

text \<open>The branch of \<open>u_vector_add\<close> for a full buffer: \<^term>\<open>None\<close> is an access out of bounds,
  \<^term>\<open>Some None\<close> a failed allocation.\<close>

definition u_vector_grow :: "malloc \<Rightarrow> u_vector \<Rightarrow> u_vector option option" where
  "u_vector_grow malloc v =
    (let size' = uv_size v * 2
     in case malloc size' of
          None \<Rightarrow> Some None
        | Some d \<Rightarrow>
            let src_tail = uv_tail v AND (uv_size v - 1);
                dst_tail = uv_tail v AND (size' - 1)
            in map_option (\<lambda>d. Some (v\<lparr>uv_data := d, uv_size := size'\<rparr>))
                (if src_tail = 0 then copy_bytes d dst_tail (uv_data v) 0 (uv_size v)
                 else let split = u_align_u32 (uv_tail v) (uv_size v)
                      in do {
                           d \<leftarrow> copy_bytes d dst_tail (uv_data v) src_tail (split - uv_tail v);
                           copy_bytes d (split AND (size' - 1)) (uv_data v) 0 (uv_head v - split) }))"

text \<open>The pointer into the block that \<open>u_vector_add\<close> and \<open>u_vector_remove\<close> return is its offset.\<close>

definition u_vector_add :: "malloc \<Rightarrow> u_vector \<Rightarrow> (u_vector \<times> nat option) option" where
  "u_vector_add malloc v =
    (case (if uv_head v - uv_tail v = uv_size v then u_vector_grow malloc v else Some (Some v)) of
       None \<Rightarrow> None
     | Some None \<Rightarrow> Some (v, None)
     | Some (Some v') \<Rightarrow>
         let offset = uv_head v' AND (uv_size v' - 1)
         in Some (v'\<lparr>uv_head := uv_head v' + uv_element_size v'\<rparr>, Some (unat offset)))"

definition u_vector_remove :: "u_vector \<Rightarrow> u_vector \<times> nat option" where
  "u_vector_remove v =
    (if uv_head v = uv_tail v then (v, None)
     else let offset = uv_tail v AND (uv_size v - 1)
          in (v\<lparr>uv_tail := uv_tail v + uv_element_size v\<rparr>, Some (unat offset)))"

definition u_vector_length :: "u_vector \<Rightarrow> u32" where
  "u_vector_length v = (uv_head v - uv_tail v) div uv_element_size v"

definition u_vector_head :: "u_vector \<Rightarrow> nat" where
  "u_vector_head v = unat ((uv_head v - uv_element_size v) AND (uv_size v - 1))"

definition u_vector_tail :: "u_vector \<Rightarrow> nat" where
  "u_vector_tail v = unat (uv_tail v AND (uv_size v - 1))"

text \<open>\<open>u_vector_foreach\<close>: the offsets visited from \<open>offset\<close> on.\<close>

partial_function (option) foreach_loop :: "u_vector \<Rightarrow> u32 \<Rightarrow> nat list option" where
  "foreach_loop v offset =
    (if offset < uv_head v
     then do {
       rest \<leftarrow> foreach_loop v (offset + uv_element_size v);
       Some (unat (offset AND (uv_size v - 1)) # rest) }
     else Some [])"

definition u_vector_foreach :: "u_vector \<Rightarrow> nat list option" where
  "u_vector_foreach v = foreach_loop v (uv_tail v)"

section \<open>The queue in the buffer\<close>

text \<open>What a client reads and writes through the pointers it gets.\<close>

definition elem_at :: "u_vector \<Rightarrow> nat \<Rightarrow> u8 list" where
  "elem_at v off = take (unat (uv_element_size v)) (drop off (uv_data v))"

definition put_elem :: "u_vector \<Rightarrow> nat \<Rightarrow> u8 list \<Rightarrow> u_vector" where
  "put_elem v off e = v\<lparr>uv_data := take off (uv_data v) @ e @ drop (off + length e) (uv_data v)\<rparr>"

definition uv_queue :: "u_vector \<Rightarrow> u8 list list" where
  "uv_queue v =
    map (\<lambda>j. elem_at v ((unat (uv_tail v) + j * unat (uv_element_size v)) mod unat (uv_size v)))
      [0 ..< unat (uv_head v - uv_tail v) div unat (uv_element_size v)]"

definition uv_wf :: "u_vector \<Rightarrow> bool" where
  "uv_wf v \<longleftrightarrow> (\<exists>k e. e < k \<and> k \<le> 31 \<and> unat (uv_size v) = 2 ^ k \<and> unat (uv_element_size v) = 2 ^ e \<and>
     length (uv_data v) = 2 ^ k \<and> 2 ^ e dvd unat (uv_tail v) \<and> 2 ^ e dvd unat (uv_head v - uv_tail v) \<and>
     unat (uv_head v - uv_tail v) \<le> 2 ^ k)"

definition malloc_ok :: "malloc \<Rightarrow> bool" where
  "malloc_ok malloc \<longleftrightarrow> (\<forall>n d. malloc n = Some d \<longrightarrow> length d = unat n)"

end
