(* ===== verification/UVectorCorrect.thy ===== *)
theory UVectorCorrect
  imports UVector
begin

text \<open>
  The queue of elements that the block holds, \<open>uv_queue\<close>, under each operation: growing copies it in one piece
  or two, whether or not it wraps in either block; adding appends the element the client writes, removing
  hands out the first one, and the loop visits them in order.
\<close>

section \<open>Arithmetic of the offsets\<close>

lemma size_power:
  assumes "unat s = 2 ^ k"
  shows "s = (2 :: u32) ^ k"
proof -
  have "s = of_nat (unat s)" by simp
  then show ?thesis by (simp add: assms)
qed

lemma unat_and_size:
  assumes "unat s = 2 ^ k" "k \<le> 31"
  shows "unat (x AND (s - 1)) = unat (x :: u32) mod unat s"
proof -
  have "x AND (s - 1) = take_bit k x" by (simp add: take_bit_eq_mask mask_eq_decr_exp size_power [OF assms(1)])
  then have "unat (x AND (s - 1)) = take_bit k (unat x)" by (simp add: unsigned_take_bit_eq)
  then show ?thesis by (simp add: take_bit_eq_mod assms(1))
qed

lemma unat_add_mod:
  assumes "k \<le> 32"
  shows "unat (a + b :: u32) mod 2 ^ k = (unat a + unat b) mod 2 ^ k"
proof -
  have "(2 :: nat) ^ k dvd 2 ^ 32" using assms by (rule le_imp_power_dvd)
  then show ?thesis by (simp add: unat_word_ariths mod_mod_cancel)
qed

text \<open>An element does not cross the end of the block.\<close>

lemma elem_inside:
  fixes x :: nat
  assumes "2 ^ e dvd x" "e \<le> k"
  shows "x mod 2 ^ k + 2 ^ e \<le> 2 ^ k" "2 ^ e dvd x mod 2 ^ k"
proof -
  have d: "(2 :: nat) ^ e dvd 2 ^ k" using assms(2) by (rule le_imp_power_dvd)
  then show m: "2 ^ e dvd x mod 2 ^ k" using assms(1) by (simp add: dvd_mod)
  then obtain a b where ab: "x mod 2 ^ k = 2 ^ e * a" "(2 :: nat) ^ k = 2 ^ e * b" using d by (auto elim!: dvdE)
  have "2 ^ e * a < 2 ^ e * b" unfolding ab(1) [symmetric] ab(2) [symmetric] by simp
  then have "a < b" by simp
  then have "2 ^ e * (a + 1) \<le> 2 ^ e * b" by (intro mult_le_mono) simp_all
  then show "x mod 2 ^ k + 2 ^ e \<le> 2 ^ k" using ab by simp
qed

lemma elem_byte:
  fixes x i :: nat
  assumes "2 ^ e dvd x" "e \<le> k" "i < 2 ^ e"
  shows "x mod 2 ^ k + i = (x + i) mod 2 ^ k"
proof -
  have "x mod 2 ^ k + i < 2 ^ k" using elem_inside(1) [OF assms(1,2)] assms(3) by linarith
  then show ?thesis by (metis mod_add_left_eq mod_less)
qed

lemma align_tail:
  assumes "unat s = 2 ^ k" "k \<le> 31" "unat t mod 2 ^ k \<noteq> 0"
  shows "u_align_u32 t s = t + s - of_nat (unat t mod 2 ^ k)"
proof -
  let ?x = "t + s - 1" and ?r = "unat t mod 2 ^ k"
  have s: "s - 1 = mask k"
    by (simp add: mask_eq_decr_exp size_power [OF assms(1)])
  have "?x AND (s - 1) = of_nat (?r - 1)"
  proof -
    have e: "?x = t + (s - 1)" by simp
    have "unat (s - 1) = 2 ^ k - 1"
      using assms(1) by (subst unat_minus_one_pos) auto
    then have "unat ?x mod 2 ^ k = (unat t + (2 ^ k - 1)) mod 2 ^ k"
      unfolding e using unat_add_mod [of k t "s - 1"] assms(2) by simp
    also have "\<dots> = (?r + (2 ^ k - 1)) mod 2 ^ k" by (rule mod_add_left_eq [symmetric])
    also have "?r + (2 ^ k - 1) = (?r - 1) + 2 ^ k" using assms(3) by simp
    also have "\<dots> mod 2 ^ k = ?r - 1" by (simp add: less_imp_diff_less)
    finally have "unat (?x AND (s - 1)) = ?r - 1" using unat_and_size [OF assms(1,2), of ?x] assms(1) by simp
    moreover have "?x AND (s - 1) = of_nat (unat (?x AND (s - 1)))" by simp
    ultimately show ?thesis by (simp only:)
  qed
  moreover have "(of_nat (?r - 1) :: u32) = of_nat ?r - 1" using assms(3) by (simp add: of_nat_diff)
  moreover have "?x AND NOT (s - 1) = ?x - (?x AND (s - 1))"
  proof -
    have "(?x AND (s - 1)) AND (?x AND NOT (s - 1)) = 0" by (rule bit_word_eqI) (auto simp: bit_simps)
    then have "(?x AND (s - 1)) + (?x AND NOT (s - 1)) = (?x AND (s - 1)) OR (?x AND NOT (s - 1))"
      by (rule disjunctive_add_eq_or)
    also have "\<dots> = ?x" by (rule bit_word_eqI) (auto simp: bit_simps)
    finally show ?thesis by (simp add: eq_diff_eq add.commute)
  qed
  ultimately show ?thesis by (simp add: u_align_u32_def)
qed

section \<open>Growing\<close>

lemma copy_bytes_nth:
  assumes "unat off + unat n \<le> length dst" "unat soff + unat n \<le> length src"
  shows "\<exists>d. copy_bytes dst off src soff n = Some d \<and> length d = length dst \<and>
    (\<forall>i < length dst. d ! i = (if unat off \<le> i \<and> i < unat off + unat n then src ! (unat soff + (i - unat off))
                               else dst ! i))"
  using assms by (auto simp: copy_bytes_def nth_append)

text \<open>The place in a block of twice the size.\<close>

lemma mod_double:
  fixes x n :: nat
  assumes "0 < n"
  shows "x mod (2 * n) = x mod n \<or> x mod (2 * n) = x mod n + n"
proof -
  have "x mod (2 * n) = n * (x div n mod 2) + x mod n" using mod_mult2_eq [of x n 2] by (simp add: mult.commute)
  then show ?thesis by (cases "x div n mod 2 = 0") auto
qed

lemma grow_bytes:
  assumes size: "unat (uv_size v) = 2 ^ k" "k < 31" and len: "length (uv_data v) = 2 ^ k"
    and full: "uv_head v - uv_tail v = uv_size v" and m: "malloc_ok malloc"
    and alloc: "malloc (uv_size v * 2) = Some d"
  shows "\<exists>d'. u_vector_grow malloc v = Some (Some (v\<lparr>uv_data := d', uv_size := uv_size v * 2\<rparr>)) \<and>
    length d' = 2 ^ Suc k \<and>
    (\<forall>i < 2 ^ k. d' ! ((unat (uv_tail v) + i) mod 2 ^ Suc k) = uv_data v ! ((unat (uv_tail v) + i) mod 2 ^ k))"
proof -
  let ?n = "2 ^ k :: nat" and ?t = "unat (uv_tail v)"
  have n2: "unat (uv_size v * 2) = 2 ^ Suc k"
  proof -
    have "(2 :: nat) ^ Suc k < 2 ^ 32" using size(2) by (intro power_strict_increasing) simp_all
    then show ?thesis using size(1) by (simp add: unat_word_ariths)
  qed
  have k31: "k \<le> 31" "Suc k \<le> 31" using size(2) by simp_all
  have ld: "length d = 2 * ?n" using m alloc n2 by (auto simp: malloc_ok_def)
  note st = unat_and_size [OF size(1) k31(1), of "uv_tail v"]
  note dt = unat_and_size [OF n2 k31(2), of "uv_tail v"]
  have pos: "0 < ?n" by simp
  have d2: "?t mod (2 * ?n) = ?t mod ?n \<or> ?t mod (2 * ?n) = ?t mod ?n + ?n" by (rule mod_double [OF pos])
  show ?thesis
  proof (cases "?t mod ?n = 0")
    case True
    let ?dst = "?t mod (2 * ?n)"
    have z: "uv_tail v AND (uv_size v - 1) = 0" using st True size(1) by (simp add: unat_eq_zero [symmetric])
    have "unat (uv_tail v AND (uv_size v * 2 - 1)) + unat (uv_size v) \<le> length d"
      "unat (0 :: u32) + unat (uv_size v) \<le> length (uv_data v)"
      using dt n2 d2 True size(1) ld len by auto
    from copy_bytes_nth [OF this] obtain d' where
      c: "copy_bytes d (uv_tail v AND (uv_size v * 2 - 1)) (uv_data v) 0 (uv_size v) = Some d'" "length d' = length d"
      "\<forall>i < length d. d' ! i = (if ?dst \<le> i \<and> i < ?dst + ?n then uv_data v ! (i - ?dst) else d ! i)"
      using dt n2 size(1) by auto
    have "d' ! ((?t + i) mod (2 * ?n)) = uv_data v ! ((?t + i) mod ?n)" if "i < ?n" for i
    proof -
      have "(?t + i) mod (2 * ?n) = (?dst + i) mod (2 * ?n)" by (simp add: mod_add_left_eq)
      also have "\<dots> = ?dst + i" using d2 True that by auto
      finally have 1: "(?t + i) mod (2 * ?n) = ?dst + i" .
      have "(?t + i) mod ?n = (?t mod ?n + i) mod ?n" by (rule mod_add_left_eq [symmetric])
      then have 2: "(?t + i) mod ?n = i" using True that by simp
      have "?dst + i < length d" using d2 True that ld by auto
      then show ?thesis unfolding 1 2 using c(3) that by simp
    qed
    then show ?thesis using c(1,2) ld z alloc by (intro exI [of _ d']) (simp add: u_vector_grow_def)
  next
    case False
    define s where "s = ?t mod ?n"
    have s: "0 < s" "s < ?n" using False by (simp_all add: s_def)
    define dst where "dst = ?t mod (2 * ?n)"
    define base where "base = (if dst = s then ?n else 0)"
    have dst: "dst = s \<or> dst = s + ?n" using d2 by (simp add: s_def dst_def)
    let ?split = "u_align_u32 (uv_tail v) (uv_size v)"
    have sp: "?split = uv_tail v + uv_size v - of_nat s"
      using align_tail [OF size(1) k31(1)] False by (simp add: s_def)
    have us: "unat (of_nat s :: u32) = s"
    proof (rule unat_of_nat_less)
      have "?n \<le> 2 ^ 31" using k31(1) by (rule power_increasing) simp
      then show "s < 2 ^ LENGTH(32)" using s by simp
    qed
    have l1: "unat (?split - uv_tail v) = ?n - s"
    proof -
      have "?split - uv_tail v = uv_size v - of_nat s" by (simp add: sp)
      moreover have "of_nat s \<le> uv_size v" using us s size(1) by (simp add: word_le_nat_alt)
      ultimately show ?thesis using us size(1) by (simp add: unat_sub)
    qed
    have l2: "unat (uv_head v - ?split) = s"
    proof -
      have "uv_head v - ?split = (uv_head v - uv_tail v) - (uv_size v - of_nat s)" by (simp add: sp)
      also have "\<dots> = of_nat s" by (simp add: full)
      finally show ?thesis using us by simp
    qed
    have b: "unat (?split AND (uv_size v * 2 - 1)) = base"
    proof -
      have "unat ?split mod (2 * ?n) = (?t + (?n - s)) mod (2 * ?n)"
      proof -
        have "?split = uv_tail v + (?split - uv_tail v)" by simp
        then have "unat ?split mod 2 ^ Suc k = (?t + unat (?split - uv_tail v)) mod 2 ^ Suc k"
          using unat_add_mod [of "Suc k" "uv_tail v" "?split - uv_tail v"] k31 by simp
        then show ?thesis by (simp add: l1)
      qed
      also have "\<dots> = (dst + (?n - s)) mod (2 * ?n)" unfolding dst_def by (rule mod_add_left_eq [symmetric])
      also have "\<dots> = base" using dst s by (auto simp: base_def mult_2 [symmetric])
      finally show ?thesis using unat_and_size [OF n2 k31(2), of ?split] n2 by simp
    qed
    have u: "unat (uv_tail v AND (uv_size v * 2 - 1)) = dst" "unat (uv_tail v AND (uv_size v - 1)) = s"
      using dt st n2 size(1) by (simp_all add: dst_def s_def)
    have "unat (uv_tail v AND (uv_size v * 2 - 1)) + unat (?split - uv_tail v) \<le> length d"
      "unat (uv_tail v AND (uv_size v - 1)) + unat (?split - uv_tail v) \<le> length (uv_data v)"
      unfolding u l1 using dst s ld len by auto
    from copy_bytes_nth [OF this] obtain d1 where
      c1: "copy_bytes d (uv_tail v AND (uv_size v * 2 - 1)) (uv_data v) (uv_tail v AND (uv_size v - 1))
        (?split - uv_tail v) = Some d1" "length d1 = length d"
      "\<forall>i < length d. d1 ! i = (if dst \<le> i \<and> i < dst + (?n - s) then uv_data v ! (s + (i - dst)) else d ! i)"
      unfolding u l1 by auto
    have "unat (?split AND (uv_size v * 2 - 1)) + unat (uv_head v - ?split) \<le> length d1"
      "unat (0 :: u32) + unat (uv_head v - ?split) \<le> length (uv_data v)"
      unfolding b l2 using s ld len c1(2) by (auto simp: base_def)
    from copy_bytes_nth [OF this] obtain d2 where
      c2: "copy_bytes d1 (?split AND (uv_size v * 2 - 1)) (uv_data v) 0 (uv_head v - ?split) = Some d2"
      "length d2 = length d"
      "\<forall>i < length d. d2 ! i = (if base \<le> i \<and> i < base + s then uv_data v ! (i - base) else d1 ! i)"
      unfolding b l2 c1(2) by auto
    have "d2 ! ((?t + i) mod (2 * ?n)) = uv_data v ! ((?t + i) mod ?n)" if i: "i < ?n" for i
    proof -
      have 1: "(?t + i) mod (2 * ?n) = (dst + i) mod (2 * ?n)" unfolding dst_def by (rule mod_add_left_eq [symmetric])
      have 2: "(?t + i) mod ?n = (s + i) mod ?n" unfolding s_def by (rule mod_add_left_eq [symmetric])
      show ?thesis
      proof (cases "i < ?n - s")
        case True
        then have "(dst + i) mod (2 * ?n) = dst + i" "(s + i) mod ?n = s + i" using dst by auto
        moreover have "dst + i < length d" "dst \<le> dst + i \<and> dst + i < dst + (?n - s)" "\<not> (base \<le> dst + i \<and> dst + i < base + s)"
          using dst True ld by (auto simp: base_def)
        ultimately show ?thesis unfolding 1 2
          using c1(3) [rule_format, of "dst + i"] c2(3) [rule_format, of "dst + i"]
          by (simp only: if_True if_False add_diff_cancel_left' simp_thms)
      next
        case False
        define j where "j = i - (?n - s)"
        have j: "j < s" "i = ?n - s + j" using False i s by (simp_all add: j_def)
        have "(s + i) mod ?n = j" using j s by simp
        moreover have "(dst + i) mod (2 * ?n) = base + j"
        proof (cases "dst = s")
          case True
          then show ?thesis using j s by (simp add: base_def)
        next
          case False
          then have "dst + i = 2 * ?n + j" using dst j s by simp
          then show ?thesis using False j s by (simp add: base_def)
        qed
        moreover have "base + j < length d" using j s ld by (auto simp: base_def)
        ultimately show ?thesis unfolding 1 2 using c2(3) j by simp
      qed
    qed
    moreover have "uv_tail v AND (uv_size v - 1) \<noteq> 0" using u(2) s by auto
    ultimately show ?thesis using c1(1) c2(1,2) ld alloc
      by (intro exI [of _ d2]) (simp add: u_vector_grow_def Let_def)
  qed
qed

section \<open>The operations on the queue\<close>

lemma uv_wfE:
  assumes "uv_wf v"
  obtains k e where "e < k" "k \<le> 31" "unat (uv_size v) = 2 ^ k" "unat (uv_element_size v) = 2 ^ e"
    "length (uv_data v) = 2 ^ k" "2 ^ e dvd unat (uv_tail v)" "2 ^ e dvd unat (uv_head v - uv_tail v)"
    "unat (uv_head v - uv_tail v) \<le> 2 ^ k"
  using assms by (auto simp: uv_wf_def)

lemma length_queue: "length (uv_queue v) = unat (uv_head v - uv_tail v) div unat (uv_element_size v)"
  by (simp add: uv_queue_def)

text \<open>The bytes of an element, whose offsets wrap with the block.\<close>

lemma elem_nth:
  assumes "unat (uv_element_size v) = 2 ^ e" "e \<le> k" "length (uv_data v) = 2 ^ k" "2 ^ e dvd x" "i < 2 ^ e"
  shows "elem_at v (x mod 2 ^ k) ! i = uv_data v ! ((x + i) mod 2 ^ k)"
    "length (elem_at v (x mod 2 ^ k)) = 2 ^ e"
proof -
  note in1 = elem_inside(1) [OF assms(4,2)]
  show "elem_at v (x mod 2 ^ k) ! i = uv_data v ! ((x + i) mod 2 ^ k)"
    using assms in1 elem_byte [OF assms(4,2,5)] by (simp add: elem_at_def)
  show "length (elem_at v (x mod 2 ^ k)) = 2 ^ e" using assms in1 by (simp add: elem_at_def)
qed

lemma grow_queue:
  assumes wf: "uv_wf v" and full: "uv_head v - uv_tail v = uv_size v" and lt: "unat (uv_size v) < 2 ^ 31"
    and m: "malloc_ok malloc" and alloc: "malloc (uv_size v * 2) = Some d"
  shows "\<exists>v'. u_vector_grow malloc v = Some (Some v') \<and> uv_wf v' \<and> uv_queue v' = uv_queue v \<and>
    uv_head v' = uv_head v \<and> uv_tail v' = uv_tail v \<and> uv_element_size v' = uv_element_size v \<and>
    unat (uv_size v') = 2 * unat (uv_size v)"
  using wf
proof (rule uv_wfE)
  fix k e assume w: "e < k" "k \<le> 31" "unat (uv_size v) = 2 ^ k" "unat (uv_element_size v) = 2 ^ e"
    "length (uv_data v) = 2 ^ k" "2 ^ e dvd unat (uv_tail v)" "2 ^ e dvd unat (uv_head v - uv_tail v)"
    "unat (uv_head v - uv_tail v) \<le> 2 ^ k"
  have "(2 :: nat) ^ k < 2 ^ 31" using lt w(3) by simp
  then have k: "k < 31" by (rule power_less_imp_less_exp [rotated]) simp
  from grow_bytes [OF w(3) k w(5) full m alloc] obtain d' where
    g: "u_vector_grow malloc v = Some (Some (v\<lparr>uv_data := d', uv_size := uv_size v * 2\<rparr>))"
    "length d' = 2 ^ Suc k"
    "\<forall>i < 2 ^ k. d' ! ((unat (uv_tail v) + i) mod 2 ^ Suc k) = uv_data v ! ((unat (uv_tail v) + i) mod 2 ^ k)"
    by blast
  let ?v = "v\<lparr>uv_data := d', uv_size := uv_size v * 2\<rparr>"
  have "(2 :: nat) ^ Suc k < 2 ^ 32" using k by (intro power_strict_increasing) simp_all
  then have n2: "unat (uv_size ?v) = 2 ^ Suc k" using w(3) by (simp add: unat_word_ariths)
  have wf': "uv_wf ?v"
    unfolding uv_wf_def
    by (rule exI [of _ "Suc k"], rule exI [of _ e]) (use w k n2 g(2) in \<open>simp add: le_SucI\<close>)
  have "uv_queue ?v = uv_queue v"
  proof (rule nth_equalityI)
    show l: "length (uv_queue ?v) = length (uv_queue v)" by (simp add: length_queue)
    fix j assume "j < length (uv_queue ?v)"
    then have j: "j < unat (uv_head v - uv_tail v) div 2 ^ e" using w(4) by (simp add: length_queue)
    then have "Suc j * 2 ^ e \<le> unat (uv_head v - uv_tail v)"
      using w(7) by (metis Suc_leI dvd_div_mult_self mult_le_mono1)
    then have je: "j * 2 ^ e + 2 ^ e \<le> 2 ^ k" using w(8) by (simp add: add.commute)
    let ?x = "unat (uv_tail v) + j * 2 ^ e"
    have dx: "2 ^ e dvd ?x" using w(6) by simp
    have "elem_at ?v (?x mod 2 ^ Suc k) = elem_at v (?x mod 2 ^ k)"
    proof (rule nth_equalityI)
      have le: "length (elem_at ?v (?x mod 2 ^ Suc k)) = 2 ^ e" "length (elem_at v (?x mod 2 ^ k)) = 2 ^ e"
        using elem_nth(2) [of ?v e "Suc k" ?x 0] elem_nth(2) [of v e k ?x 0] w g(2) dx by simp_all
      then show "length (elem_at ?v (?x mod 2 ^ Suc k)) = length (elem_at v (?x mod 2 ^ k))" by simp
      fix i assume "i < length (elem_at ?v (?x mod 2 ^ Suc k))"
      then have i: "i < 2 ^ e" using le by simp
      have "d' ! ((?x + i) mod 2 ^ Suc k) = uv_data v ! ((?x + i) mod 2 ^ k)"
        using g(3) [rule_format, of "j * 2 ^ e + i"] je i by (simp add: add.assoc)
      then show "elem_at ?v (?x mod 2 ^ Suc k) ! i = elem_at v (?x mod 2 ^ k) ! i"
        using elem_nth(1) [of ?v e "Suc k" ?x i] elem_nth(1) [of v e k ?x i] w g(2) dx i by simp
    qed
    then show "uv_queue ?v ! j = uv_queue v ! j"
      using j w(4) n2 w(3) by (simp add: uv_queue_def)
  qed
  then show ?thesis using g(1) wf' n2 w(3) by simp
qed

lemma add_mod_cancel:
  fixes t a b n :: nat
  assumes "(t + a) mod n = (t + b) mod n"
  shows "a mod n = b mod n"
  using assms unfolding nat_mod_eq_iff by simp

text \<open>Room for one more element, which the client writes.\<close>

lemma push_result:
  assumes wf: "uv_wf v" and room: "uv_head v - uv_tail v \<noteq> uv_size v"
    and el: "length x = unat (uv_element_size v)"
  defines "off \<equiv> unat (uv_head v AND (uv_size v - 1))"
  defines "v' \<equiv> put_elem (v\<lparr>uv_head := uv_head v + uv_element_size v\<rparr>) off x"
  shows "off + length x \<le> length (uv_data v)" "uv_wf v'" "uv_queue v' = uv_queue v @ [x]"
  using wf
proof (rule_tac [!] uv_wfE [OF wf])
  fix k e assume w: "e < k" "k \<le> 31" "unat (uv_size v) = 2 ^ k" "unat (uv_element_size v) = 2 ^ e"
    "length (uv_data v) = 2 ^ k" "2 ^ e dvd unat (uv_tail v)" "2 ^ e dvd unat (uv_head v - uv_tail v)"
    "unat (uv_head v - uv_tail v) \<le> 2 ^ k"
  let ?u = "unat (uv_head v - uv_tail v)" and ?t = "unat (uv_tail v)"
  have ek: "(2 :: nat) ^ e dvd 2 ^ k" using w(1) by (intro le_imp_power_dvd) simp
  have "?u \<noteq> 2 ^ k" using room w(3) by (metis word_unat_eq_iff)
  then have "?u < 2 ^ k" using w(8) by simp
  then have u: "?u + 2 ^ e \<le> 2 ^ k"
    using elem_inside(1) [OF w(7), of k] w(1) by simp
  have h: "off = (?t + ?u) mod 2 ^ k"
  proof -
    have "unat (uv_head v) mod 2 ^ k = (?t + ?u) mod 2 ^ k"
      using unat_add_mod [of k "uv_tail v" "uv_head v - uv_tail v"] w(2) by simp
    then show ?thesis using unat_and_size [OF w(3,2), of "uv_head v"] w(3) by (simp add: off_def)
  qed
  have dt: "2 ^ e dvd ?t + ?u" using w(6,7) by simp
  note in1 = elem_inside(1) [OF dt, of k]
  show bound: "off + length x \<le> length (uv_data v)" using in1 w el by (simp add: h)
  have u32: "(2 :: nat) ^ k < 2 ^ 32" using w(2) by (intro power_strict_increasing) simp_all
  have hd': "uv_head v' - uv_tail v' = (uv_head v - uv_tail v) + uv_element_size v"
    by (simp add: v'_def put_elem_def)
  have u': "unat (uv_head v' - uv_tail v') = ?u + 2 ^ e"
    unfolding hd' using u u32 w(4) by (subst unat_add_less) simp_all
  have len': "length (uv_data v') = 2 ^ k" using bound w(5) by (simp add: v'_def put_elem_def)
  have s': "uv_size v' = uv_size v" "uv_element_size v' = uv_element_size v" "uv_tail v' = uv_tail v"
    by (simp_all add: v'_def put_elem_def)
  show "uv_wf v'" unfolding uv_wf_def
    by (rule exI [of _ k], rule exI [of _ e]) (use w u u' len' s' in simp)
  have new: "elem_at v' off = x"
    using bound el by (simp add: elem_at_def v'_def put_elem_def)
  have old: "elem_at v' ((?t + j * 2 ^ e) mod 2 ^ k) = elem_at v ((?t + j * 2 ^ e) mod 2 ^ k)"
    if j: "j < ?u div 2 ^ e" for j
  proof -
    let ?o = "(?t + j * 2 ^ e) mod 2 ^ k"
    have je: "j * 2 ^ e + 2 ^ e \<le> ?u"
    proof -
      have "Suc j * 2 ^ e \<le> ?u" using j w(7) by (metis Suc_leI dvd_div_mult_self mult_le_mono1)
      then show ?thesis by simp
    qed
    have dx: "2 ^ e dvd ?t + j * 2 ^ e" using w(6) by simp
    show ?thesis
    proof (rule nth_equalityI)
      have le: "length (elem_at v' ?o) = 2 ^ e" "length (elem_at v ?o) = 2 ^ e"
        using elem_nth(2) [of v' e k _ 0] elem_nth(2) [of v e k _ 0] w len' s' dx by simp_all
      then show "length (elem_at v' ?o) = length (elem_at v ?o)" by simp
      fix i assume "i < length (elem_at v' ?o)"
      then have i: "i < 2 ^ e" using le by simp
      have "(?t + j * 2 ^ e + i) mod 2 ^ k < off \<or> off + 2 ^ e \<le> (?t + j * 2 ^ e + i) mod 2 ^ k"
      proof (rule ccontr)
        assume "\<not> ?thesis"
        then have between: "off \<le> (?t + j * 2 ^ e + i) mod 2 ^ k" "(?t + j * 2 ^ e + i) mod 2 ^ k < off + 2 ^ e"
          by simp_all
        define i' where "i' = (?t + j * 2 ^ e + i) mod 2 ^ k - off"
        have i': "i' < 2 ^ e" "(?t + j * 2 ^ e + i) mod 2 ^ k = off + i'"
          unfolding i'_def using between by linarith+
        have "off + i' = (?t + ?u + i') mod 2 ^ k"
          unfolding h by (rule elem_byte [OF dt _ i'(1)]) (use w(1) in simp)
        then have "(?t + (j * 2 ^ e + i)) mod 2 ^ k = (?t + (?u + i')) mod 2 ^ k"
          using i'(2) by (simp add: add.assoc)
        then have "(j * 2 ^ e + i) mod 2 ^ k = (?u + i') mod 2 ^ k"
          by (rule add_mod_cancel)
        moreover have "j * 2 ^ e + i < ?u" "?u + i' < 2 ^ k" using je i i'(1) u by linarith+
        ultimately show False by simp
      qed
      then have "uv_data v' ! ((?t + j * 2 ^ e + i) mod 2 ^ k) = uv_data v ! ((?t + j * 2 ^ e + i) mod 2 ^ k)"
        using bound el w(4,5) by (auto simp: v'_def put_elem_def nth_append)
      then show "elem_at v' ?o ! i = elem_at v ?o ! i"
        using elem_nth(1) [of v' e k _ i] elem_nth(1) [of v e k _ i] w len' s' dx i by simp
    qed
  qed
  have cnt: "unat (uv_head v' - uv_tail v') div 2 ^ e = Suc (?u div 2 ^ e)"
    using div_add_self2 [of "2 ^ e" ?u] by (simp add: u')
  have lst: "(?t + ?u div 2 ^ e * 2 ^ e) mod 2 ^ k = off" using h w(7) by simp
  show "uv_queue v' = uv_queue v @ [x]"
    using old new cnt lst w(3,4) by (simp add: uv_queue_def s')
qed


text \<open>Removing hands out the oldest element.\<close>

lemma remove_result:
  assumes wf: "uv_wf v"
  shows "case uv_queue v of
      [] \<Rightarrow> u_vector_remove v = (v, None)
    | x # xs \<Rightarrow> \<exists>v' off. u_vector_remove v = (v', Some off) \<and> uv_wf v' \<and> uv_queue v' = xs \<and>
        elem_at v' off = x \<and> off + length x \<le> length (uv_data v')"
  using wf
proof (rule uv_wfE)
  fix k e assume w: "e < k" "k \<le> 31" "unat (uv_size v) = 2 ^ k" "unat (uv_element_size v) = 2 ^ e"
    "length (uv_data v) = 2 ^ k" "2 ^ e dvd unat (uv_tail v)" "2 ^ e dvd unat (uv_head v - uv_tail v)"
    "unat (uv_head v - uv_tail v) \<le> 2 ^ k"
  let ?u = "unat (uv_head v - uv_tail v)" and ?t = "unat (uv_tail v)"
  show ?thesis
  proof (cases "uv_head v = uv_tail v")
    case True
    then show ?thesis by (simp add: u_vector_remove_def uv_queue_def)
  next
    case False
    then have "0 < ?u" by (metis eq_iff_diff_eq_0 gr0I unat_eq_zero)
    then have u: "2 ^ e \<le> ?u" using w(7) by (intro dvd_imp_le) auto
    let ?v = "v\<lparr>uv_tail := uv_tail v + uv_element_size v\<rparr>" and ?off = "?t mod 2 ^ k"
    have off: "unat (uv_tail v AND (uv_size v - 1)) = ?off"
      using unat_and_size [OF w(3,2), of "uv_tail v"] w(3) by simp
    have run: "u_vector_remove v = (?v, Some ?off)" using False by (simp add: u_vector_remove_def off)
    have d: "uv_head ?v - uv_tail ?v = (uv_head v - uv_tail v) - uv_element_size v" by simp
    have "uv_element_size v \<le> uv_head v - uv_tail v" using u w(4) by (simp add: word_le_nat_alt)
    from unat_sub [OF this] have u': "unat (uv_head ?v - uv_tail ?v) = ?u - 2 ^ e" unfolding d w(4) .
    have t32: "unat (uv_tail ?v) mod 2 ^ 32 = (?t + 2 ^ e) mod 2 ^ 32"
      using unat_add_mod [of 32 "uv_tail v" "uv_element_size v"] w(4) by simp
    have tk: "(unat (uv_tail ?v) + c) mod 2 ^ k = (?t + 2 ^ e + c) mod 2 ^ k" for c
    proof -
      have "unat (uv_tail ?v) mod 2 ^ k = (?t + 2 ^ e) mod 2 ^ k"
        using unat_add_mod [of k "uv_tail v" "uv_element_size v"] w(2,4) by simp
      then show ?thesis by (metis mod_add_left_eq)
    qed
    have "(2 :: nat) ^ e dvd 2 ^ 32" using w(1,2) by (intro le_imp_power_dvd) simp
    then have "2 ^ e dvd unat (uv_tail ?v)"
      using t32 w(6) by (metis dvd_add dvd_mod_iff dvd_refl)
    then have wf': "uv_wf ?v" unfolding uv_wf_def
      by (intro exI [of _ k] exI [of _ e]) (use w u u' in \<open>simp add: dvd_diff_nat\<close>)
    have n: "?u div 2 ^ e = Suc ((?u - 2 ^ e) div 2 ^ e)"
      using u div_add_self2 [of "2 ^ e" "?u - 2 ^ e"] by simp
    have q: "uv_queue v = elem_at v ?off # uv_queue ?v"
    proof -
      have "uv_queue v = map (\<lambda>j. elem_at v ((?t + j * 2 ^ e) mod 2 ^ k)) (0 # map Suc [0 ..< (?u - 2 ^ e) div 2 ^ e])"
        unfolding uv_queue_def w(3,4) n by (simp only: map_Suc_upt upt_conv_Cons [of 0 "Suc _"] zero_less_Suc)
      moreover have "uv_queue ?v = map (\<lambda>j. elem_at v ((?t + Suc j * 2 ^ e) mod 2 ^ k)) [0 ..< (?u - 2 ^ e) div 2 ^ e]"
        using u' tk w(3,4) by (simp add: uv_queue_def elem_at_def add.assoc)
      ultimately show ?thesis by simp
    qed
    have "elem_at ?v ?off = elem_at v ?off" by (simp add: elem_at_def)
    moreover have "?off + length (elem_at v ?off) \<le> length (uv_data ?v)"
      using elem_nth(2) [of v e k ?t 0] elem_inside(1) [OF w(6), of k] w by simp
    ultimately show ?thesis using run wf' by (simp add: q)
  qed
qed

lemma add_result:
  assumes wf: "uv_wf v" and m: "malloc_ok malloc"
    and lt: "uv_head v - uv_tail v = uv_size v \<Longrightarrow> unat (uv_size v) < 2 ^ 31"
  shows "\<exists>v' r. u_vector_add malloc v = Some (v', r) \<and>
    (case r of
       None \<Rightarrow> v' = v \<and> uv_head v - uv_tail v = uv_size v \<and> malloc (uv_size v * 2) = None
     | Some off \<Rightarrow> uv_element_size v' = uv_element_size v \<and>
         (\<forall>x. length x = unat (uv_element_size v) \<longrightarrow> off + length x \<le> length (uv_data v') \<and>
           uv_wf (put_elem v' off x) \<and> uv_queue (put_elem v' off x) = uv_queue v @ [x]))"
proof (cases "uv_head v - uv_tail v = uv_size v")
  case False
  let ?v = "v\<lparr>uv_head := uv_head v + uv_element_size v\<rparr>" and ?off = "unat (uv_head v AND (uv_size v - 1))"
  have "u_vector_add malloc v = Some (?v, Some ?off)" using False by (simp add: u_vector_add_def)
  then show ?thesis using push_result [OF wf False] by simp
next
  case full: True
  show ?thesis
  proof (cases "malloc (uv_size v * 2)")
    case None
    then show ?thesis using full by (simp add: u_vector_add_def u_vector_grow_def)
  next
    case (Some d)
    from grow_queue [OF wf full lt [OF full] m Some] obtain g where
      g: "u_vector_grow malloc v = Some (Some g)" "uv_wf g" "uv_queue g = uv_queue v" "uv_head g = uv_head v"
      "uv_tail g = uv_tail v" "uv_element_size g = uv_element_size v" "unat (uv_size g) = 2 * unat (uv_size v)"
      by blast
    have "0 < unat (uv_size v)" by (rule uv_wfE [OF wf]) simp
    then have "unat (uv_size g) \<noteq> unat (uv_size v)" using g(7) by linarith
    then have room: "uv_head g - uv_tail g \<noteq> uv_size g" unfolding g(4,5) full by metis
    let ?v = "g\<lparr>uv_head := uv_head g + uv_element_size g\<rparr>" and ?off = "unat (uv_head g AND (uv_size g - 1))"
    have "u_vector_add malloc v = Some (?v, Some ?off)" using full g(1) by (simp add: u_vector_add_def)
    then show ?thesis using push_result [OF g(2) room] g(3,6) by simp
  qed
qed

text \<open>With 2^31 bytes in use the doubled size wraps to 0.\<close>

lemma add_at_limit:
  assumes wf: "uv_wf v" and full: "uv_head v - uv_tail v = uv_size v"
    and s: "unat (uv_size v) = 2 ^ k" and k: "k = 31"
    and m: "malloc_ok malloc" and alloc: "malloc 0 \<noteq> None"
  shows "u_vector_add malloc v = None"
proof -
  obtain d where d: "malloc 0 = Some d" using alloc by blast
  then have l: "length d = 0" using m by (auto simp: malloc_ok_def)
  have z: "uv_size v * 2 = 0"
  proof -
    have "unat (uv_size v * 2) = 0" by (simp add: unat_word_ariths s k)
    then show ?thesis by (simp only: unat_eq_zero)
  qed
  have k31: "k \<le> 31" using k by simp
  have none: "copy_bytes d off src soff n = None" if "unat n \<noteq> 0" for off src soff n
    using that l by (simp add: copy_bytes_def)
  show ?thesis
  proof (cases "uv_tail v AND (uv_size v - 1) = 0")
    case True
    then show ?thesis using full d s none [of "uv_size v"]
      by (simp add: u_vector_add_def u_vector_grow_def z)
  next
    case False
    let ?r = "unat (uv_tail v) mod 2 ^ k"
    have r: "?r \<noteq> 0" using False unat_and_size [OF s k31, of "uv_tail v"] s by (metis unat_eq_zero)
    have lt: "?r < 2 ^ k" by simp
    have "2 ^ k < (2 :: nat) ^ 32" using k31 by (intro power_strict_increasing) simp_all
    from less_trans [OF lt this] have us: "unat (of_nat ?r :: u32) = ?r" by (intro unat_of_nat_less) simp
    have e: "u_align_u32 (uv_tail v) (uv_size v) - uv_tail v = uv_size v - of_nat ?r"
      using align_tail [OF s k31 r] by simp
    have "unat (uv_size v - of_nat ?r) \<noteq> 0"
    proof
      assume "unat (uv_size v - of_nat ?r) = 0"
      then have e: "uv_size v = of_nat ?r" unfolding unat_eq_zero by (simp only: right_minus_eq)
      have "unat (uv_size v) = ?r" unfolding e by (rule us)
      then show False using lt unfolding s by (simp only: less_irrefl)
    qed
    then show ?thesis using full d False none
      by (simp add: u_vector_add_def u_vector_grow_def z e Let_def)
  qed
qed

section \<open>Iteration and the ends\<close>

lemma uv_size_pos: "uv_wf v \<Longrightarrow> 0 < unat (uv_size v) \<and> 0 < unat (uv_element_size v)"
  by (auto simp: uv_wf_def)

lemma foreach_result:
  assumes wf: "uv_wf v"
  shows "\<exists>offs. u_vector_foreach v = Some offs \<and>
    map (elem_at v) offs = (if uv_tail v \<le> uv_head v then uv_queue v else [])"
proof (cases "uv_tail v \<le> uv_head v")
  case False
  then have "\<not> uv_tail v < uv_head v" by simp
  then have "u_vector_foreach v = Some []"
    unfolding u_vector_foreach_def by (subst foreach_loop.simps) simp
  then show ?thesis using False by simp
next
  case True
  obtain k e where w: "e < k" "k \<le> 31" "unat (uv_size v) = 2 ^ k" "unat (uv_element_size v) = 2 ^ e"
    "2 ^ e dvd unat (uv_head v - uv_tail v)"
    using wf by (rule uv_wfE)
  let ?t = "unat (uv_tail v)" and ?n = "unat (uv_head v - uv_tail v) div 2 ^ e"
  have h: "unat (uv_head v) = ?t + ?n * 2 ^ e"
    using True w(5) unat_sub [OF True] by (simp add: word_le_nat_alt)
  have hb: "unat (uv_head v) < 2 ^ 32" using unsigned_less [of "uv_head v", where 'a = nat] by simp
  have off: "unat (uv_tail v + of_nat j * uv_element_size v) = ?t + j * 2 ^ e" if "j \<le> ?n" for j
  proof -
    have le: "j * 2 ^ e \<le> ?n * 2 ^ e" using that by (rule mult_le_mono1)
    then have b: "?t + j * 2 ^ e < 2 ^ 32" using h hb by linarith
    have "uv_element_size v = of_nat (2 ^ e)" using w(4) size_power [OF w(4)] by simp
    then have "of_nat j * uv_element_size v = of_nat (j * 2 ^ e)" by simp
    moreover have "unat (of_nat (j * 2 ^ e) :: u32) = j * 2 ^ e" by (rule unat_of_nat_less) (use b in simp)
    ultimately show ?thesis using b by (simp add: unat_add_less)
  qed
  have "foreach_loop v (uv_tail v + of_nat j * uv_element_size v) =
      Some (map (\<lambda>i. (?t + i * 2 ^ e) mod 2 ^ k) [j ..< ?n])" if "j \<le> ?n" for j
    using that
  proof (induction "?n - j" arbitrary: j)
    case 0
    then have "j = ?n" by simp
    then have "\<not> uv_tail v + of_nat j * uv_element_size v < uv_head v"
      using off [OF 0(2)] h by (simp add: word_less_nat_alt)
    then show ?case using \<open>j = ?n\<close> by (subst foreach_loop.simps) simp
  next
    case (Suc m)
    then have j: "j < ?n" by simp
    have "j * 2 ^ e < ?n * 2 ^ e" using j by simp
    then have lt: "uv_tail v + of_nat j * uv_element_size v < uv_head v"
      using off [of j] j h by (simp add: word_less_nat_alt)
    have nx: "uv_tail v + of_nat j * uv_element_size v + uv_element_size v =
        uv_tail v + of_nat (Suc j) * uv_element_size v" by (simp add: algebra_simps)
    have rest: "foreach_loop v (uv_tail v + of_nat (Suc j) * uv_element_size v) =
        Some (map (\<lambda>i. (?t + i * 2 ^ e) mod 2 ^ k) [Suc j ..< ?n])"
      using Suc.hyps j by (intro Suc.hyps(1)) simp_all
    have here: "unat ((uv_tail v + of_nat j * uv_element_size v) AND (uv_size v - 1)) = (?t + j * 2 ^ e) mod 2 ^ k"
      using unat_and_size [OF w(3,2)] off [of j] j w(3) by simp
    show ?case
      by (subst foreach_loop.simps, subst nx)
         (simp only: lt if_True rest here bind.bind_lunit upt_conv_Cons [OF j] list.map)
  qed
  from this [of 0] have "u_vector_foreach v = Some (map (\<lambda>i. (?t + i * 2 ^ e) mod 2 ^ k) [0 ..< ?n])"
    by (simp add: u_vector_foreach_def)
  then show ?thesis using True w(3,4) by (simp add: uv_queue_def)
qed

lemma length_result: "uv_wf v \<Longrightarrow> unat (u_vector_length v) = length (uv_queue v)"
  by (simp add: u_vector_length_def length_queue unat_div)

lemma ends_result:
  assumes wf: "uv_wf v" and ne: "uv_queue v \<noteq> []"
  shows "elem_at v (u_vector_tail v) = hd (uv_queue v)" "elem_at v (u_vector_head v) = last (uv_queue v)"
proof -
  obtain k e where w: "e < k" "k \<le> 31" "unat (uv_size v) = 2 ^ k" "unat (uv_element_size v) = 2 ^ e"
    "2 ^ e dvd unat (uv_head v - uv_tail v)"
    using wf by (rule uv_wfE)
  let ?t = "unat (uv_tail v)" and ?u = "unat (uv_head v - uv_tail v)"
  have n: "0 < ?u div 2 ^ e" 
  proof -
    have "length (uv_queue v) \<noteq> 0" using ne by simp
    then show ?thesis unfolding length_queue w(4) by (rule neq0_conv [THEN iffD1])
  qed
  show "elem_at v (u_vector_tail v) = hd (uv_queue v)"
    using n unat_and_size [OF w(3,2), of "uv_tail v"] w(3,4)
    by (simp add: u_vector_tail_def uv_queue_def upt_conv_Cons)
  have u: "2 ^ e \<le> ?u" using n by (metis div_less linorder_not_less less_irrefl)
  have "uv_element_size v \<le> uv_head v - uv_tail v" using u w(4) by (simp add: word_le_nat_alt)
  from unat_sub [OF this] have d: "unat (uv_head v - uv_tail v - uv_element_size v) = ?u - 2 ^ e"
    unfolding w(4) .
  have "unat (uv_head v - uv_element_size v) mod 2 ^ k = (?t + (?u - 2 ^ e)) mod 2 ^ k"
    using unat_add_mod [of k "uv_tail v" "uv_head v - uv_tail v - uv_element_size v"] w(2) d
    by (simp add: algebra_simps)
  moreover have "(?u div 2 ^ e - 1) * 2 ^ e = ?u - 2 ^ e" using w(5) by (simp add: diff_mult_distrib)
  ultimately show "elem_at v (u_vector_head v) = last (uv_queue v)"
    using n unat_and_size [OF w(3,2), of "uv_head v - uv_element_size v"] w(3,4)
    by (simp add: u_vector_head_def uv_queue_def last_map)
qed

section \<open>Runs\<close>

datatype vector_op = Push "u8 list" | Pop

text \<open>A client that writes each element it adds and reads each element it removes; adding that fails is
  skipped.\<close>

fun run_vector :: "malloc \<Rightarrow> u_vector \<Rightarrow> vector_op list \<Rightarrow> (u8 list option list \<times> u_vector) option" where
  "run_vector malloc v [] = Some ([], v)"
| "run_vector malloc v (Push x # ops) =
    (case u_vector_add malloc v of
       None \<Rightarrow> None
     | Some (v', None) \<Rightarrow> run_vector malloc v' ops
     | Some (v', Some off) \<Rightarrow> run_vector malloc (put_elem v' off x) ops)"
| "run_vector malloc v (Pop # ops) =
    (case u_vector_remove v of
       (v', r) \<Rightarrow> map_option (\<lambda>(outs, w). (map_option (elem_at v') r # outs, w)) (run_vector malloc v' ops))"

fun run_queue :: "u8 list list \<Rightarrow> vector_op list \<Rightarrow> u8 list option list \<times> u8 list list" where
  "run_queue q [] = ([], q)"
| "run_queue q (Push x # ops) = run_queue (q @ [x]) ops"
| "run_queue [] (Pop # ops) = (case run_queue [] ops of (outs, q) \<Rightarrow> (None # outs, q))"
| "run_queue (x # xs) (Pop # ops) = (case run_queue xs ops of (outs, q) \<Rightarrow> (Some x # outs, q))"

fun pushed :: "vector_op \<Rightarrow> bool" where
  "pushed (Push x) = True"
| "pushed Pop = False"

fun push_fits :: "nat \<Rightarrow> vector_op \<Rightarrow> bool" where
  "push_fits n (Push x) = (length x = n)"
| "push_fits n Pop = True"

lemma run_vector_result:
  assumes "malloc_ok malloc" "\<forall>n. n \<noteq> 0 \<longrightarrow> malloc n \<noteq> None"
  shows "uv_wf v \<Longrightarrow> uv_element_size v = es \<Longrightarrow> \<forall>op \<in> set ops. push_fits (unat es) op \<Longrightarrow>
    (length (uv_queue v) + length (filter pushed ops)) * unat es \<le> 2 ^ 31 \<Longrightarrow>
    \<exists>w. run_vector malloc v ops = Some (fst (run_queue (uv_queue v) ops), w) \<and> uv_wf w \<and>
      uv_element_size w = es \<and> uv_queue w = snd (run_queue (uv_queue v) ops)"
proof (induction ops arbitrary: v)
  case (Cons op ops)
  show ?case
  proof (cases op)
    case (Push x)
    have u: "unat (uv_head v - uv_tail v) = length (uv_queue v) * unat es"
      using Cons.prems(1,2) by (auto simp: length_queue uv_wf_def)
    have pos: "0 < unat es" using uv_size_pos [OF Cons.prems(1)] Cons.prems(2) by simp
    have "length (uv_queue v) * unat es \<le> (length (uv_queue v) + length (filter pushed ops)) * unat es"
      by (rule mult_le_mono1) simp
    moreover have "unat es + (length (uv_queue v) + length (filter pushed ops)) * unat es \<le> 2 ^ 31"
      using Cons.prems(4) Push by simp
    ultimately have le: "length (uv_queue v) * unat es < 2 ^ 31" using pos by linarith
    have lt: "unat (uv_size v) < 2 ^ 31" if "uv_head v - uv_tail v = uv_size v"
      using u le that by simp
    from add_result [OF Cons.prems(1) assms(1) lt] obtain v' r where
      a: "u_vector_add malloc v = Some (v', r)" and c: "case r of
       None \<Rightarrow> v' = v \<and> uv_head v - uv_tail v = uv_size v \<and> malloc (uv_size v * 2) = None
     | Some off \<Rightarrow> uv_element_size v' = uv_element_size v \<and>
         (\<forall>x. length x = unat (uv_element_size v) \<longrightarrow> off + length x \<le> length (uv_data v') \<and>
           uv_wf (put_elem v' off x) \<and> uv_queue (put_elem v' off x) = uv_queue v @ [x])" by blast
    have "r \<noteq> None"
    proof
      assume "r = None"
      then have f: "uv_head v - uv_tail v = uv_size v" "malloc (uv_size v * 2) = None" using c by auto
      have "unat (uv_size v * 2) = 2 * unat (uv_size v)" using lt [OF f(1)] by (simp add: unat_word_ariths)
      then have "uv_size v * 2 \<noteq> 0" using uv_size_pos [OF Cons.prems(1)] by auto
      then show False using assms(2) f(2) by blast
    qed
    then obtain off where off: "r = Some off" by blast
    have x: "length x = unat (uv_element_size v)" using Cons.prems(2,3) Push by simp
    with c off have p: "uv_wf (put_elem v' off x)" "uv_queue (put_elem v' off x) = uv_queue v @ [x]"
      "uv_element_size (put_elem v' off x) = es"
      using Cons.prems(2) by (auto simp: put_elem_def)
    have "(length (uv_queue (put_elem v' off x)) + length (filter pushed ops)) * unat es \<le> 2 ^ 31"
      using Cons.prems(4) Push p(2) by simp
    from Cons.IH [OF p(1,3) _ this] Cons.prems(3) show ?thesis
      by (simp add: Push a off p(2))
  next
    case Pop
    show ?thesis
    proof (cases "uv_queue v")
      case Nil
      then have "u_vector_remove v = (v, None)" using remove_result [OF Cons.prems(1)] by simp
      then show ?thesis using Cons.IH [of v] Cons.prems Nil Pop by (auto split: prod.splits)
    next
      case (Cons x xs)
      then obtain v' off where r: "u_vector_remove v = (v', Some off)" "uv_wf v'" "uv_queue v' = xs" "elem_at v' off = x"
        using remove_result [OF Cons.prems(1)] by auto
      have e: "uv_element_size v' = es" using r(1) Cons.prems(2) by (auto simp: u_vector_remove_def Let_def split: if_splits)
      have "(length (uv_queue v') + length (filter pushed ops)) * unat es \<le>
          (length (uv_queue v) + length (filter pushed (op # ops))) * unat es"
        by (rule mult_le_mono1) (simp add: r(3) Cons Pop)
      with Cons.prems(4) have "(length (uv_queue v') + length (filter pushed ops)) * unat es \<le> 2 ^ 31" by linarith
      from Cons.IH [OF r(2) e _ this] Cons.prems(3) show ?thesis
        by (auto simp: Pop r(1,3,4) Cons split: prod.splits)
    qed
  qed
qed simp

lemma init_result:
  assumes "malloc_ok malloc" "unat s = 2 ^ k" "k \<le> 31" "unat es = 2 ^ e" "e < k" "malloc s \<noteq> None"
  shows "\<exists>v. u_vector_init malloc es s = Some v \<and> uv_wf v \<and> uv_queue v = [] \<and> uv_element_size v = es"
  using assms by (auto simp: u_vector_init_def malloc_ok_def uv_wf_def uv_queue_def)

section \<open>Properties\<close>

text \<open>Whatever the positions of the free-running counters, so also when they wrap, and however often
  the buffer grows on the way, a run of additions and removals hands out the elements first in, first
  out, as long as at most 2^31 bytes are in use.  Length, oldest and newest element are those of the
  queue; iteration visits exactly its elements in order, unless the head has wrapped and the tail has
  not: then it visits nothing.\<close>

theorem u_vector_fifo:
  assumes "malloc_ok malloc" "\<forall>n. n \<noteq> 0 \<longrightarrow> malloc n \<noteq> None" "uv_wf v"
    "\<forall>op \<in> set ops. push_fits (unat (uv_element_size v)) op"
    "(length (uv_queue v) + length (filter pushed ops)) * unat (uv_element_size v) \<le> 2 ^ 31"
  shows "\<exists>w offs. run_vector malloc v ops = Some (fst (run_queue (uv_queue v) ops), w) \<and> uv_wf w \<and>
    uv_queue w = snd (run_queue (uv_queue v) ops) \<and> unat (u_vector_length w) = length (uv_queue w) \<and>
    (uv_queue w \<noteq> [] \<longrightarrow> elem_at w (u_vector_tail w) = hd (uv_queue w) \<and>
       elem_at w (u_vector_head w) = last (uv_queue w)) \<and>
    u_vector_foreach w = Some offs \<and> map (elem_at w) offs = (if uv_tail w \<le> uv_head w then uv_queue w else [])"
proof -
  obtain w where w: "run_vector malloc v ops = Some (fst (run_queue (uv_queue v) ops), w)" "uv_wf w"
    "uv_queue w = snd (run_queue (uv_queue v) ops)"
    using run_vector_result [OF assms(1,2,3) refl assms(4,5)] by blast
  obtain offs where "u_vector_foreach w = Some offs"
    "map (elem_at w) offs = (if uv_tail w \<le> uv_head w then uv_queue w else [])"
    using foreach_result [OF w(2)] by blast
  then show ?thesis using w length_result [OF w(2)] ends_result [OF w(2)] by blast
qed

theorem u_vector_fifo_witness:
  "\<exists>v w. u_vector_init (\<lambda>n. Some (replicate (unat n) 0)) 2 4 = Some v \<and>
     run_vector (\<lambda>n. Some (replicate (unat n) 0)) v [Push [1, 2], Push [3, 4], Pop, Push [5, 6], Push [7, 8]]
       = Some ([Some [1, 2]], w) \<and> uv_queue w = [[3, 4], [5, 6], [7, 8]]"
proof -
  let ?m = "\<lambda>n :: u32. Some (replicate (unat n) (0 :: u8))"
  have m: "malloc_ok ?m" "\<forall>n. n \<noteq> 0 \<longrightarrow> ?m n \<noteq> None" by (simp_all add: malloc_ok_def)
  obtain v where v: "u_vector_init ?m 2 4 = Some v" "uv_wf v" "uv_queue v = []" "uv_element_size v = 2"
    using init_result [OF m(1), of 4 2 2 1] by auto
  show ?thesis
    using u_vector_fifo [OF m v(2), of "[Push [1, 2], Push [3, 4], Pop, Push [5, 6], Push [7, 8]]"] v by auto
qed

end
