(* ===== verification/IntrusiveList.thy ===== *)
theory IntrusiveList
  imports Prelude "HOL-Library.Monad_Syntax"
begin

text \<open>
  The doubly linked intrusive lists of \<open>src/src/util/list.h\<close>, assignment by assignment, on an explicit store of
  \<open>struct list_head\<close> by address, 0 for \<open>NULL\<close>.  A list is a circle through a head that is its sentinel.  A
  load or store at an address that is not in the store, and a loop that does not end, is \<^term>\<open>None\<close>.  The structures
  around the heads, from which \<open>container_of\<close> computes, have no model: an element is the address of its head.
\<close>

section \<open>State and operations\<close>

text \<open>The list heads by address, 0 for \<open>NULL\<close>; a load or store at any other address is \<^term>\<open>None\<close>.\<close>

record list_head =
  l_prev :: nat
  l_next :: nat

type_synonym heads = "nat \<Rightarrow> list_head option"

definition load_prev :: "nat \<Rightarrow> heads \<Rightarrow> nat option" where
  "load_prev p s = map_option l_prev (s p)"

definition load_next :: "nat \<Rightarrow> heads \<Rightarrow> nat option" where
  "load_next p s = map_option l_next (s p)"

definition store_prev :: "nat \<Rightarrow> nat \<Rightarrow> heads \<Rightarrow> heads option" where
  "store_prev p v s = map_option (\<lambda>n. s(p \<mapsto> n\<lparr>l_prev := v\<rparr>)) (s p)"

definition store_next :: "nat \<Rightarrow> nat \<Rightarrow> heads \<Rightarrow> heads option" where
  "store_next p v s = map_option (\<lambda>n. s(p \<mapsto> n\<lparr>l_next := v\<rparr>)) (s p)"

definition list_inithead :: "nat \<Rightarrow> heads \<Rightarrow> heads option" where
  "list_inithead item s = do {
     s \<leftarrow> store_prev item item s;
     store_next item item s }"

definition list_add :: "nat \<Rightarrow> nat \<Rightarrow> heads \<Rightarrow> heads option" where
  "list_add item l s = do {
     s \<leftarrow> store_prev item l s;
     n \<leftarrow> load_next l s;
     s \<leftarrow> store_next item n s;
     n \<leftarrow> load_next l s;
     s \<leftarrow> store_prev n item s;
     store_next l item s }"

definition list_addtail :: "nat \<Rightarrow> nat \<Rightarrow> heads \<Rightarrow> heads option" where
  "list_addtail item l s = do {
     s \<leftarrow> store_next item l s;
     p \<leftarrow> load_prev l s;
     s \<leftarrow> store_prev item p s;
     p \<leftarrow> load_prev l s;
     s \<leftarrow> store_next p item s;
     store_prev l item s }"

definition list_empty :: "nat \<Rightarrow> heads \<Rightarrow> bool option" where
  "list_empty l s = do {
     n \<leftarrow> load_next l s;
     Some (n = l) }"

definition list_replace :: "nat \<Rightarrow> nat \<Rightarrow> heads \<Rightarrow> heads option" where
  "list_replace from to s = do {
     e \<leftarrow> list_empty from s;
     if e then list_inithead to s
     else do {
       p \<leftarrow> load_prev from s;
       s \<leftarrow> store_prev to p s;
       n \<leftarrow> load_next from s;
       s \<leftarrow> store_next to n s;
       n \<leftarrow> load_next from s;
       s \<leftarrow> store_prev n to s;
       p \<leftarrow> load_prev from s;
       store_next p to s } }"

definition unlink :: "nat \<Rightarrow> heads \<Rightarrow> heads option" where
  "unlink item s = do {
     p \<leftarrow> load_prev item s;
     n \<leftarrow> load_next item s;
     s \<leftarrow> store_next p n s;
     n \<leftarrow> load_next item s;
     p \<leftarrow> load_prev item s;
     store_prev n p s }"

definition list_del :: "nat \<Rightarrow> heads \<Rightarrow> heads option" where
  "list_del item s = do {
     s \<leftarrow> unlink item s;
     s \<leftarrow> store_next item 0 s;
     store_prev item 0 s }"

definition list_delinit :: "nat \<Rightarrow> heads \<Rightarrow> heads option" where
  "list_delinit item s = do {
     s \<leftarrow> unlink item s;
     s \<leftarrow> store_next item item s;
     store_prev item item s }"

definition list_is_singular :: "nat \<Rightarrow> heads \<Rightarrow> bool option" where
  "list_is_singular l s = do {
     n \<leftarrow> load_next l s;
     if n \<noteq> 0 \<and> n \<noteq> l then do {
       m \<leftarrow> load_next n s;
       Some (m = l) }
     else Some False }"

partial_function (option) length_loop :: "nat \<Rightarrow> heads \<Rightarrow> nat \<Rightarrow> u32 \<Rightarrow> u32 option" where
  "length_loop l s node len =
    (if node \<noteq> l then do {
       n \<leftarrow> load_next node s;
       length_loop l s n (len + 1) }
     else Some len)"

definition list_length :: "nat \<Rightarrow> heads \<Rightarrow> u32 option" where
  "list_length l s = do {
     n \<leftarrow> load_next l s;
     length_loop l s n 0 }"

definition list_splice :: "nat \<Rightarrow> nat \<Rightarrow> heads \<Rightarrow> heads option" where
  "list_splice src dst s = do {
     e \<leftarrow> list_empty src s;
     if e then Some s
     else do {
       n \<leftarrow> load_next src s;
       s \<leftarrow> store_prev n dst s;
       p \<leftarrow> load_prev src s;
       dn \<leftarrow> load_next dst s;
       s \<leftarrow> store_next p dn s;
       dn \<leftarrow> load_next dst s;
       p \<leftarrow> load_prev src s;
       s \<leftarrow> store_prev dn p s;
       n \<leftarrow> load_next src s;
       store_next dst n s } }"

definition list_splicetail :: "nat \<Rightarrow> nat \<Rightarrow> heads \<Rightarrow> heads option" where
  "list_splicetail src dst s = do {
     e \<leftarrow> list_empty src s;
     if e then Some s
     else do {
       p \<leftarrow> load_prev src s;
       s \<leftarrow> store_next p dst s;
       n \<leftarrow> load_next src s;
       dp \<leftarrow> load_prev dst s;
       s \<leftarrow> store_prev n dp s;
       dp \<leftarrow> load_prev dst s;
       n \<leftarrow> load_next src s;
       s \<leftarrow> store_next dp n s;
       p \<leftarrow> load_prev src s;
       store_prev dst p s } }"

text \<open>\<open>list_validate\<close>: whether all its assertions hold.\<close>

partial_function (option) validate_loop :: "nat \<Rightarrow> heads \<Rightarrow> nat \<Rightarrow> bool option" where
  "validate_loop l s node =
    (if node \<noteq> l then do {
       n \<leftarrow> load_next node s;
       p \<leftarrow> load_prev node s;
       np \<leftarrow> load_prev n s;
       pn \<leftarrow> load_next p s;
       if np = node \<and> pn = node then validate_loop l s n else Some False }
     else Some True)"

definition list_validate :: "nat \<Rightarrow> heads \<Rightarrow> bool option" where
  "list_validate l s = do {
     n \<leftarrow> load_next l s;
     p \<leftarrow> load_prev l s;
     np \<leftarrow> load_prev n s;
     pn \<leftarrow> load_next p s;
     if np = l \<and> pn = l then validate_loop l s n else Some False }"

text \<open>The iteration macros, with the nodes visited.  A loop follows \<open>load\<close>, which reads \<open>next\<close> or \<open>prev\<close>.  The
  body of a plain loop leaves the lists alone; a safe loop reads the following node before the body runs.\<close>

partial_function (option) for_each_loop ::
  "(nat \<Rightarrow> heads \<Rightarrow> nat option) \<Rightarrow> nat \<Rightarrow> heads \<Rightarrow> nat \<Rightarrow> nat list option" where
  "for_each_loop load head s pos =
    (if pos \<noteq> head then do {
       n \<leftarrow> load pos s;
       rest \<leftarrow> for_each_loop load head s n;
       Some (pos # rest) }
     else Some [])"

definition list_for_each_entry :: "nat \<Rightarrow> heads \<Rightarrow> nat list option" where
  "list_for_each_entry head s = do {
     pos \<leftarrow> load_next head s;
     for_each_loop load_next head s pos }"

definition list_for_each_entry_rev :: "nat \<Rightarrow> heads \<Rightarrow> nat list option" where
  "list_for_each_entry_rev head s = do {
     pos \<leftarrow> load_prev head s;
     for_each_loop load_prev head s pos }"

definition list_for_each_entry_from :: "nat \<Rightarrow> nat \<Rightarrow> heads \<Rightarrow> nat list option" where
  "list_for_each_entry_from start head s = for_each_loop load_next head s start"

definition list_for_each_entry_from_rev :: "nat \<Rightarrow> nat \<Rightarrow> heads \<Rightarrow> nat list option" where
  "list_for_each_entry_from_rev start head s = for_each_loop load_prev head s start"

partial_function (option) for_each_safe_loop ::
  "(nat \<Rightarrow> heads \<Rightarrow> nat option) \<Rightarrow> (nat \<Rightarrow> heads \<Rightarrow> heads option) \<Rightarrow> nat \<Rightarrow> heads \<Rightarrow> nat \<Rightarrow> nat \<Rightarrow>
    (nat list \<times> heads) option" where
  "for_each_safe_loop load body head s pos storage =
    (if pos \<noteq> head then do {
       s \<leftarrow> body pos s;
       n \<leftarrow> load storage s;
       (rest, s') \<leftarrow> for_each_safe_loop load body head s storage n;
       Some (pos # rest, s') }
     else Some ([], s))"

definition list_for_each_entry_safe ::
  "(nat \<Rightarrow> heads \<Rightarrow> heads option) \<Rightarrow> nat \<Rightarrow> heads \<Rightarrow> (nat list \<times> heads) option" where
  "list_for_each_entry_safe body head s = do {
     pos \<leftarrow> load_next head s;
     storage \<leftarrow> load_next pos s;
     for_each_safe_loop load_next body head s pos storage }"

definition list_for_each_entry_safe_rev ::
  "(nat \<Rightarrow> heads \<Rightarrow> heads option) \<Rightarrow> nat \<Rightarrow> heads \<Rightarrow> (nat list \<times> heads) option" where
  "list_for_each_entry_safe_rev body head s = do {
     pos \<leftarrow> load_prev head s;
     storage \<leftarrow> load_prev pos s;
     for_each_safe_loop load_prev body head s pos storage }"

end
