(* ===== verification/IntrusiveListCorrect.thy ===== *)
theory IntrusiveListCorrect
  imports IntrusiveList LinkedRing
begin

text \<open>
  The lists that a store represents, \<open>lists_rep\<close>: disjoint rings, one for each sentinel.  Each operation is run
  on the two functions the store gives, its effect is that on the rings, and the other lists keep theirs.
  The loops are proved once in the locale \<open>list_walk\<close>, for the link a loop follows, and interpreted for both
  directions.
\<close>

section \<open>The store as two functions\<close>

definition nx :: "heads \<Rightarrow> nat \<Rightarrow> nat" where
  "nx s p = (case s p of None \<Rightarrow> 0 | Some n \<Rightarrow> l_next n)"

definition pv :: "heads \<Rightarrow> nat \<Rightarrow> nat" where
  "pv s p = (case s p of None \<Rightarrow> 0 | Some n \<Rightarrow> l_prev n)"

definition put_next :: "nat \<Rightarrow> nat \<Rightarrow> heads \<Rightarrow> heads" where
  "put_next p v s = s(p \<mapsto> (the (s p))\<lparr>l_next := v\<rparr>)"

definition put_prev :: "nat \<Rightarrow> nat \<Rightarrow> heads \<Rightarrow> heads" where
  "put_prev p v s = s(p \<mapsto> (the (s p))\<lparr>l_prev := v\<rparr>)"

lemma heads_access:
  assumes "p \<in> dom s"
  shows "load_next p s = Some (nx s p)" "load_prev p s = Some (pv s p)"
    "store_next p v s = Some (put_next p v s)" "store_prev p v s = Some (put_prev p v s)"
    "dom (put_next p v s) = dom s" "dom (put_prev p v s) = dom s"
    "nx (put_next p v s) = (nx s)(p := v)" "nx (put_prev p v s) = nx s"
    "pv (put_next p v s) = pv s" "pv (put_prev p v s) = (pv s)(p := v)"
  using assms
  by (auto simp: load_next_def load_prev_def store_next_def store_prev_def nx_def pv_def put_next_def
      put_prev_def fun_eq_iff)

text \<open>The effect of the operations.\<close>

lemma inithead_effect:
  assumes "h \<in> dom s"
  shows "\<exists>s'. list_inithead h s = Some s' \<and> dom s' = dom s \<and> nx s' = (nx s)(h := h) \<and> pv s' = (pv s)(h := h)"
  using assms by (simp add: list_inithead_def heads_access)

lemma add_effect:
  assumes "q \<in> dom s" "h \<in> dom s" "nx s h \<in> dom s" "q \<noteq> h"
  shows "\<exists>s'. list_add q h s = Some s' \<and> dom s' = dom s \<and> nx s' = (nx s)(q := nx s h, h := q) \<and>
    pv s' = (pv s)(q := h, nx s h := q)"
  using assms by (simp add: list_add_def heads_access)

lemma addtail_effect:
  assumes "q \<in> dom s" "h \<in> dom s" "pv s h \<in> dom s" "q \<noteq> h"
  shows "\<exists>s'. list_addtail q h s = Some s' \<and> dom s' = dom s \<and> nx s' = (nx s)(q := h, pv s h := q) \<and>
    pv s' = (pv s)(q := pv s h, h := q)"
  using assms by (simp add: list_addtail_def heads_access)

lemma unlink_effect:
  assumes "q \<in> dom s" "nx s q \<in> dom s" "pv s q \<in> dom s" "pv s q \<noteq> q"
  shows "\<exists>s'. unlink q s = Some s' \<and> dom s' = dom s \<and> nx s' = (nx s)(pv s q := nx s q) \<and>
    pv s' = (pv s)(nx s q := pv s q)"
  using assms by (simp add: unlink_def heads_access)

lemma replace_effect:
  assumes "h \<in> dom s" "g \<in> dom s" "nx s h \<in> dom s" "pv s h \<in> dom s" "nx s h \<noteq> h" "g \<noteq> h"
    "nx s h \<noteq> g" "pv s h \<noteq> g" "pv s h \<noteq> h"
  shows "\<exists>s'. list_replace h g s = Some s' \<and> dom s' = dom s \<and> nx s' = (nx s)(g := nx s h, pv s h := g) \<and>
    pv s' = (pv s)(g := pv s h, nx s h := g)"
  using assms by (simp add: list_replace_def list_empty_def heads_access)

lemma splice_effect:
  assumes "g \<in> dom s" "h \<in> dom s" "nx s g \<in> dom s" "pv s g \<in> dom s" "nx s h \<in> dom s" "nx s g \<noteq> g" "g \<noteq> h"
    "pv s g \<noteq> g" "nx s g \<noteq> h" "pv s g \<noteq> h" "nx s h \<noteq> g"
  shows "\<exists>s'. list_splice g h s = Some s' \<and> dom s' = dom s \<and> nx s' = (nx s)(pv s g := nx s h, h := nx s g) \<and>
    pv s' = (pv s)(nx s g := h, nx s h := pv s g)"
  using assms by (simp add: list_splice_def list_empty_def heads_access)

lemma splicetail_effect:
  assumes "g \<in> dom s" "h \<in> dom s" "nx s g \<in> dom s" "pv s g \<in> dom s" "pv s h \<in> dom s" "nx s g \<noteq> g" "g \<noteq> h"
    "pv s g \<noteq> g" "nx s g \<noteq> h" "pv s g \<noteq> h" "pv s h \<noteq> g"
  shows "\<exists>s'. list_splicetail g h s = Some s' \<and> dom s' = dom s \<and> nx s' = (nx s)(pv s g := h, pv s h := nx s g) \<and>
    pv s' = (pv s)(nx s g := pv s h, h := pv s g)"
  using assms by (simp add: list_splicetail_def list_empty_def heads_access)

section \<open>Rings\<close>

lemma ring_nodes:
  assumes "ring n p h xs" "x \<in> insert h (set xs)"
  shows "n x \<in> insert h (set xs)" "p x \<in> insert h (set xs)"
proof -
  have "n x \<in> insert h (set xs) \<and> p x \<in> insert h (set xs)"
  proof (cases "x = h")
    case True
    then show ?thesis
      using ring_first [OF assms(1)] ring_last [OF assms(1)] by (cases xs; cases xs rule: rev_cases) auto
  next
    case False
    then obtain us vs where xs: "xs = us @ x # vs" using assms(2) by (auto dest: split_list)
    have "n x = hd (vs @ [h])" "p x = last (h # us)"
      using ring_next [of n p h us x vs] ring_prev [of n p h us x vs] assms(1) xs by auto
    then show ?thesis using xs by (cases vs; cases us rule: rev_cases) auto
  qed
  then show "n x \<in> insert h (set xs)" "p x \<in> insert h (set xs)" by auto
qed

lemma ring_single: "n h = h \<Longrightarrow> p h = h \<Longrightarrow> ring n p h []"
  by (simp add: ring_def)

lemma ring_insert_last:
  assumes "ring n p h xs" "q \<notin> insert h (set xs)"
  shows "ring (n(q := h, p h := q)) (p(q := p h, h := q)) h (xs @ [q])"
proof (cases xs rule: rev_cases)
  case Nil
  then show ?thesis using assms by (auto simp: ring_def)
next
  case (snoc us x)
  have nx: "n x = h" using ring_next [of n p h us x "[]"] assms(1) snoc by simp
  have "p h = x" using ring_last [OF assms(1)] snoc by simp
  then show ?thesis using ring_insert_after [of n p h us x "[]" q] assms snoc nx by simp
qed

text \<open>The elements of a ring moved behind another sentinel, between \<open>h\<close> and what followed it.\<close>

lemma linked_retarget:
  assumes "linked n p a (x # xs) b" "distinct (x # xs)" "last (x # xs) = z"
    "n' a' = x" "p' x = a'" "n' z = b'" "p' b' = z"
    "\<And>y. y \<in> set (x # xs) \<Longrightarrow> y \<noteq> z \<Longrightarrow> n' y = n y" "\<And>y. y \<in> set xs \<Longrightarrow> p' y = p y"
  shows "linked n' p' a' (x # xs) b'"
  using assms
proof (induction xs arbitrary: a a' x)
  case (Cons y ys)
  have z: "last (y # ys) = z" "z \<in> set (y # ys)" using Cons.prems(3) last_in_set [of "y # ys"] by auto
  have l: "linked n p x (y # ys) b" and ny: "n x = y" "p y = x" using Cons.prems(1) by auto
  have "x \<noteq> z" using Cons.prems(2) z(2) by auto
  then have nx: "n' x = y" using Cons.prems(8) [of x] ny(1) by simp
  have py: "p' y = x" using Cons.prems(9) [of y] ny(2) by simp
  have "linked n' p' x (y # ys) b'"
    by (rule Cons.IH [OF l _ z(1) nx py Cons.prems(6,7)]) (use Cons.prems(2,8,9) in auto)
  then show ?case using Cons.prems(4,5) by simp
qed auto

text \<open>Facts on a ring with elements.\<close>

lemma ring_ends:
  assumes "ring n p g ys" "ys \<noteq> []"
  obtains y zs z where "ys = y # zs" "linked n p g (y # zs) g" "distinct (g # y # zs)" "n g = y" "p g = z"
    "last (y # zs) = z" "z \<in> set (y # zs)"
proof -
  obtain y zs where ys: "ys = y # zs" using assms(2) by (cases ys) auto
  have l: "linked n p g (y # zs) g" "distinct (g # y # zs)" using assms(1) ys by (auto simp: ring_def)
  have "n g = y" using l(1) by simp
  moreover have "p g = last (y # zs)" using ring_last [OF assms(1)] ys by simp
  moreover have "last (y # zs) \<in> set (y # zs)" by (rule last_in_set) simp
  ultimately show ?thesis using that ys l by blast
qed

lemma ring_replace:
  assumes "ring n p h xs" "xs \<noteq> []" "g \<notin> insert h (set xs)"
  shows "ring (n(g := n h, p h := g)) (p(g := p h, n h := g)) g xs"
proof -
  obtain x ys z where e: "xs = x # ys" "linked n p h (x # ys) h" "distinct (h # x # ys)" "n h = x" "p h = z"
    "last (x # ys) = z" "z \<in> set (x # ys)" by (rule ring_ends [OF assms(1,2)])
  have gz: "g \<noteq> z" "g \<noteq> x" "g \<notin> set ys" using assms(3) e(1,7) by auto
  have "linked (n(g := x, z := g)) (p(g := z, x := g)) g (x # ys) g"
    by (rule linked_retarget [OF e(2) _ e(6)]) (use e(3) gz in auto)
  then show ?thesis using e(1,3-5) gz by (simp add: ring_def)
qed

lemma ring_splice:
  assumes h: "ring n p h xs" and g: "ring n p g ys" "ys \<noteq> []"
    and dis: "insert h (set xs) \<inter> insert g (set ys) = {}"
  shows "ring (n(p g := n h, h := n g)) (p(n g := h, n h := p g)) h (ys @ xs)"
proof -
  obtain y zs z where e: "ys = y # zs" "linked n p g (y # zs) g" "distinct (g # y # zs)" "n g = y" "p g = z"
    "last (y # zs) = z" "z \<in> set (y # zs)" by (rule ring_ends [OF g])
  define w where "w = n h"
  have w: "w \<in> insert h (set xs)" unfolding w_def by (rule ring_nodes(1) [OF h]) simp
  let ?n = "n(z := w, h := y)" and ?p = "p(y := h, w := z)"
  have d: "h \<notin> set (y # zs)" "w \<notin> set (y # zs)" "set xs \<inter> set (y # zs) = {}" using dis w e(1) by auto
  have a: "linked ?n ?p h (y # zs) w"
    by (rule linked_retarget [OF e(2) _ e(6)]) (use e(3,7) d in auto)
  have lh: "linked n p h xs h" "distinct (h # xs)" using h by (auto simp: ring_def)
  have "linked ?n ?p h ((y # zs) @ xs) h"
  proof (cases xs)
    case Nil
    have "w = h" using lh(1) Nil by (simp add: w_def)
    then show ?thesis using a Nil by simp
  next
    case (Cons x xs')
    have x: "w = x" "linked n p x xs' h" using lh(1) Cons by (simp_all add: w_def)
    have "linked ?n ?p x xs' h"
      by (rule linked_cong [OF x(2)]) (use lh(2) d e(7) Cons x(1) in auto)
    then show ?thesis using a unfolding Cons linked_append x(1) by blast
  qed
  then show ?thesis using e(1,3-5) lh(2) d dis by (auto simp: ring_def w_def)
qed

lemma ring_splicetail:
  assumes h: "ring n p h xs" and g: "ring n p g ys" "ys \<noteq> []"
    and dis: "insert h (set xs) \<inter> insert g (set ys) = {}"
  shows "ring (n(p g := h, p h := n g)) (p(n g := p h, h := p g)) h (xs @ ys)"
proof -
  obtain y zs z where e: "ys = y # zs" "linked n p g (y # zs) g" "distinct (g # y # zs)" "n g = y" "p g = z"
    "last (y # zs) = z" "z \<in> set (y # zs)" by (rule ring_ends [OF g])
  define w where "w = p h"
  have w: "w \<in> insert h (set xs)" unfolding w_def by (rule ring_nodes(2) [OF h]) simp
  let ?n = "n(z := h, w := y)" and ?p = "p(y := w, h := z)"
  have d: "h \<notin> set (y # zs)" "w \<notin> set (y # zs)" "set xs \<inter> set (y # zs) = {}" using dis w e(1) by auto
  have a: "linked ?n ?p w (y # zs) h"
    by (rule linked_retarget [OF e(2) _ e(6)]) (use e(3,7) d in auto)
  have lh: "linked n p h xs h" "distinct (h # xs)" using h by (auto simp: ring_def)
  have "linked ?n ?p h (xs @ y # zs) h"
  proof (cases xs rule: rev_cases)
    case Nil
    have "w = h" using lh(1) Nil by (simp add: w_def)
    then show ?thesis using a Nil by simp
  next
    case (snoc us x)
    have x: "w = x" "linked n p h us x" using ring_last [OF h] lh(1) snoc by (simp_all add: w_def linked_append)
    have "linked ?n ?p h us x"
      by (rule linked_cong [OF x(2)]) (use lh(2) d e(7) snoc x(1) in auto)
    moreover have "linked ?n ?p x (y # zs) h" using a x(1) by simp
    ultimately have "linked ?n ?p h (us @ x # y # zs) h" unfolding linked_append by blast
    then show ?thesis using snoc by simp
  qed
  then show ?thesis using e(1,3-5) lh(2) d dis by (auto simp: ring_def w_def)
qed

section \<open>The lists of a store\<close>

type_synonym lists = "nat \<Rightarrow> nat list option"

text \<open>\<open>L\<close> maps the sentinels to the elements of their lists: disjoint rings of allocated heads.\<close>

definition lists_rep :: "heads \<Rightarrow> lists \<Rightarrow> bool" where
  "lists_rep s L \<longleftrightarrow> 0 \<notin> dom s \<and>
    (\<forall>h xs. L h = Some xs \<longrightarrow> ring (nx s) (pv s) h xs \<and> insert h (set xs) \<subseteq> dom s) \<and>
    (\<forall>h xs g ys. L h = Some xs \<and> L g = Some ys \<and> h \<noteq> g \<longrightarrow> insert h (set xs) \<inter> insert g (set ys) = {})"

lemma lists_repD:
  assumes "lists_rep s L" "L h = Some xs"
  shows "ring (nx s) (pv s) h xs" "insert h (set xs) \<subseteq> dom s"
  using assms by (auto simp: lists_rep_def)

lemma lists_rep_disjoint:
  "lists_rep s L \<Longrightarrow> L h = Some xs \<Longrightarrow> L g = Some ys \<Longrightarrow> h \<noteq> g \<Longrightarrow> insert h (set xs) \<inter> insert g (set ys) = {}"
  unfolding lists_rep_def by blast

text \<open>An operation that changes only the nodes \<open>M\<close>: the lists of \<open>L'\<close> are old ones outside \<open>M\<close> or new ones
  inside it.\<close>

lemma lists_change:
  assumes rep: "lists_rep s L" and dm: "dom s' = dom s"
    and same: "\<And>p. p \<notin> M \<Longrightarrow> nx s' p = nx s p \<and> pv s' p = pv s p" and M: "M \<subseteq> dom s"
    and cases: "\<And>h xs. L' h = Some xs \<Longrightarrow> L h = Some xs \<and> insert h (set xs) \<inter> M = {} \<or>
      N h xs \<and> ring (nx s') (pv s') h xs \<and> insert h (set xs) \<subseteq> M"
    and dis: "\<And>h xs g ys. N h xs \<Longrightarrow> N g ys \<Longrightarrow> h \<noteq> g \<Longrightarrow> insert h (set xs) \<inter> insert g (set ys) = {}"
  shows "lists_rep s' L'"
  unfolding lists_rep_def
proof (intro conjI allI impI)
  show "0 \<notin> dom s'" using rep dm by (simp add: lists_rep_def)
next
  fix h xs assume "L' h = Some xs"
  from cases [OF this] show "ring (nx s') (pv s') h xs"
  proof
    assume o: "L h = Some xs \<and> insert h (set xs) \<inter> M = {}"
    show ?thesis by (rule ring_cong [of "nx s" "pv s"]) (use o lists_repD(1) [OF rep] same in auto)
  qed simp
  show "insert h (set xs) \<subseteq> dom s'"
    using cases [OF \<open>L' h = Some xs\<close>] lists_repD(2) [OF rep, of h xs] M unfolding dm by auto
next
  fix h xs g ys assume a: "L' h = Some xs \<and> L' g = Some ys \<and> h \<noteq> g"
  then have hg: "L' h = Some xs" "L' g = Some ys" "h \<noteq> g" by auto
  from cases [OF hg(1)] cases [OF hg(2)] show "insert h (set xs) \<inter> insert g (set ys) = {}"
  proof (elim disjE conjE)
    assume "L h = Some xs" "L g = Some ys"
    then show ?thesis using lists_rep_disjoint [OF rep] hg(3) by blast
  next
    assume "N h xs" "N g ys"
    then show ?thesis by (rule dis [OF _ _ hg(3)])
  qed blast+
qed

definition free_node :: "lists \<Rightarrow> nat \<Rightarrow> bool" where
  "free_node L p \<longleftrightarrow> (\<forall>h xs. L h = Some xs \<longrightarrow> p \<notin> insert h (set xs))"

lemma free_nodeD: "free_node L q \<Longrightarrow> L h = Some xs \<Longrightarrow> q \<notin> insert h (set xs)"
  by (auto simp: free_node_def)

lemma other_disjoint:
  assumes "lists_rep s L" "L h = Some xs" "L g = Some ys" "g \<noteq> h" "\<And>p. p \<in> F \<Longrightarrow> free_node L p"
  shows "insert g (set ys) \<inter> (F \<union> insert h (set xs)) = {}"
  using lists_rep_disjoint [OF assms(1,3,2,4)] free_nodeD [OF assms(5) assms(3)] by blast

text \<open>One list changes, with nodes that were on none.\<close>

lemma lists_change_one:
  assumes rep: "lists_rep s L" and h: "L h = Some xs" and dm: "dom s' = dom s"
    and F: "\<And>q. q \<in> F \<Longrightarrow> free_node L q" "F \<subseteq> dom s"
    and same: "\<And>p. p \<notin> F \<union> insert h (set xs) \<Longrightarrow> nx s' p = nx s p \<and> pv s' p = pv s p"
    and new: "ring (nx s') (pv s') g zs" "insert g (set zs) \<subseteq> F \<union> insert h (set xs)"
  shows "lists_rep s' (L(h := None, g \<mapsto> zs))"
proof (rule lists_change [OF rep dm same])
  show "F \<union> insert h (set xs) \<subseteq> dom s" using F(2) lists_repD(2) [OF rep h] by blast
  show "insert k (set us) \<inter> insert l (set vs) = {}"
    if "k = g \<and> us = zs" "l = g \<and> vs = zs" "k \<noteq> l" for k us l vs using that by simp
  fix k us assume k: "(L(h := None, g \<mapsto> zs)) k = Some us"
  show "L k = Some us \<and> insert k (set us) \<inter> (F \<union> insert h (set xs)) = {} \<or>
      (k = g \<and> us = zs) \<and> ring (nx s') (pv s') k us \<and> insert k (set us) \<subseteq> F \<union> insert h (set xs)"
  proof (cases "k = g")
    case True
    then show ?thesis using k new by simp
  next
    case False
    then have "L k = Some us" "k \<noteq> h" using k by (auto split: if_splits)
    then show ?thesis using other_disjoint [OF rep h _ _ F(1)] by blast
  qed
qed

section \<open>Each operation\<close>

lemma step_init:
  assumes rep: "lists_rep s L" and h: "h \<in> dom s" "\<And>g xs. L g = Some xs \<Longrightarrow> h \<notin> set xs"
  shows "\<exists>s'. list_inithead h s = Some s' \<and> dom s' = dom s \<and> lists_rep s' (L(h \<mapsto> []))"
proof -
  obtain s' where s': "list_inithead h s = Some s'" "dom s' = dom s" "nx s' = (nx s)(h := h)" "pv s' = (pv s)(h := h)"
    using inithead_effect [OF h(1)] by blast
  have "lists_rep s' (L(h \<mapsto> []))"
    by (rule lists_change [OF rep s'(2), where M = "{h}" and N = "\<lambda>g xs. g = h \<and> xs = []"])
       (use h in \<open>auto simp: s'(3,4) ring_def split: if_splits\<close>)
  then show ?thesis using s' by blast
qed

lemma map_upd_None: "m(h := None, h \<mapsto> v) = m(h \<mapsto> v)"
  by simp

lemma step_add:
  assumes rep: "lists_rep s L" and h: "L h = Some xs" "q \<in> dom s" "free_node L q"
  shows "\<exists>s'. list_add q h s = Some s' \<and> dom s' = dom s \<and> lists_rep s' (L(h \<mapsto> q # xs))"
proof -
  note r = lists_repD [OF rep h(1)] and f = free_nodeD [OF h(3,1)]
  have n: "nx s h \<in> insert h (set xs)" by (rule ring_nodes(1) [OF r(1)]) simp
  then have "nx s h \<in> dom s" "h \<in> dom s" "q \<noteq> h" using r(2) f by auto
  then obtain s' where s': "list_add q h s = Some s'" "dom s' = dom s" "nx s' = (nx s)(q := nx s h, h := q)"
    "pv s' = (pv s)(q := h, nx s h := q)" using add_effect [OF h(2)] by blast
  have ring: "ring (nx s') (pv s') h (q # xs)" unfolding s'(3,4)
    by (rule ring_insert_first [OF r(1)]) (use f in simp)
  have "lists_rep s' (L(h := None, h \<mapsto> q # xs))"
    by (rule lists_change_one [OF rep h(1) s'(2), where F = "{q}"]) (use n h(2,3) ring in \<open>auto simp: s'(3,4)\<close>)
  then show ?thesis using s' by auto
qed

lemma step_addtail:
  assumes rep: "lists_rep s L" and h: "L h = Some xs" "q \<in> dom s" "free_node L q"
  shows "\<exists>s'. list_addtail q h s = Some s' \<and> dom s' = dom s \<and> lists_rep s' (L(h \<mapsto> xs @ [q]))"
proof -
  note r = lists_repD [OF rep h(1)] and f = free_nodeD [OF h(3,1)]
  have n: "pv s h \<in> insert h (set xs)" by (rule ring_nodes(2) [OF r(1)]) simp
  then have "pv s h \<in> dom s" "h \<in> dom s" "q \<noteq> h" using r(2) f by auto
  then obtain s' where s': "list_addtail q h s = Some s'" "dom s' = dom s" "nx s' = (nx s)(q := h, pv s h := q)"
    "pv s' = (pv s)(q := pv s h, h := q)" using addtail_effect [OF h(2)] by blast
  have ring: "ring (nx s') (pv s') h (xs @ [q])" unfolding s'(3,4) by (rule ring_insert_last [OF r(1) f])
  have "lists_rep s' (L(h := None, h \<mapsto> xs @ [q]))"
    by (rule lists_change_one [OF rep h(1) s'(2), where F = "{q}"]) (use n h(2,3) ring in \<open>auto simp: s'(3,4)\<close>)
  then show ?thesis using s' by auto
qed

text \<open>Unlinking, with the ring of the list without the element.\<close>

lemma unlink_ring:
  assumes rep: "lists_rep s L" and h: "L h = Some (us @ q # vs)"
  shows "\<exists>s'. unlink q s = Some s' \<and> dom s' = dom s \<and> ring (nx s') (pv s') h (us @ vs) \<and>
    (\<forall>p. p \<notin> insert h (set (us @ q # vs)) \<longrightarrow> nx s' p = nx s p \<and> pv s' p = pv s p) \<and> q \<in> dom s"
proof -
  note r = lists_repD [OF rep h]
  have n: "nx s q \<in> insert h (set (us @ q # vs))" "pv s q \<in> insert h (set (us @ q # vs))"
    by (rule ring_nodes [OF r(1)]; simp)+
  have "pv s q = last (h # us)" by (rule ring_prev [OF r(1)])
  then have "pv s q \<noteq> q" using ring_distinct [OF r(1)] last_in_set [of "h # us"] by auto
  moreover have q: "q \<in> dom s" using r(2) by auto
  moreover have "nx s q \<in> dom s" "pv s q \<in> dom s" using n r(2) by auto
  ultimately obtain s' where s': "unlink q s = Some s'" "dom s' = dom s" "nx s' = (nx s)(pv s q := nx s q)"
    "pv s' = (pv s)(nx s q := pv s q)" using unlink_effect by blast
  have "ring (nx s') (pv s') h (us @ vs)" unfolding s'(3,4) by (rule ring_remove [OF r(1)])
  then show ?thesis using s' q n by auto
qed

lemma step_del:
  assumes rep: "lists_rep s L" and h: "L h = Some (us @ q # vs)"
  shows "\<exists>s'. list_del q s = Some s' \<and> dom s' = dom s \<and> lists_rep s' (L(h \<mapsto> us @ vs))"
proof -
  note r = lists_repD [OF rep h]
  obtain t where t: "unlink q s = Some t" "dom t = dom s" "ring (nx t) (pv t) h (us @ vs)"
    "\<forall>p. p \<notin> insert h (set (us @ q # vs)) \<longrightarrow> nx t p = nx s p \<and> pv t p = pv s p" "q \<in> dom s"
    using unlink_ring [OF rep h] by blast
  let ?s' = "put_prev q 0 (put_next q 0 t)"
  have qt: "q \<in> dom t" "q \<in> dom (put_next q 0 t)" using t(2,5) heads_access(5) [of q t] by auto
  have run: "list_del q s = Some ?s'" using qt t(1) by (simp add: list_del_def heads_access)
  have eff: "dom ?s' = dom s" "nx ?s' = (nx t)(q := 0)" "pv ?s' = (pv t)(q := 0)"
    using qt t(2) by (simp_all add: heads_access)
  have qn: "q \<notin> insert h (set (us @ vs))" using ring_distinct [OF r(1)] by auto
  have ring: "ring (nx ?s') (pv ?s') h (us @ vs)"
    by (rule ring_cong [OF t(3)]) (use qn eff in auto)
  have "lists_rep ?s' (L(h \<mapsto> us @ vs))"
    by (rule lists_change [OF rep eff(1), where M = "insert h (set (us @ q # vs))" and N = "\<lambda>g ys. g = h \<and> ys = us @ vs"])
       (use r(2) ring t(4) lists_rep_disjoint [OF rep h] in \<open>auto simp: eff(2,3) split: if_splits\<close>)
  then show ?thesis using run eff(1) by blast
qed

lemma step_delinit:
  assumes rep: "lists_rep s L" and h: "L h = Some (us @ q # vs)"
  shows "\<exists>s'. list_delinit q s = Some s' \<and> dom s' = dom s \<and> lists_rep s' (L(h \<mapsto> us @ vs, q \<mapsto> []))"
proof -
  note r = lists_repD [OF rep h]
  obtain t where t: "unlink q s = Some t" "dom t = dom s" "ring (nx t) (pv t) h (us @ vs)"
    "\<forall>p. p \<notin> insert h (set (us @ q # vs)) \<longrightarrow> nx t p = nx s p \<and> pv t p = pv s p" "q \<in> dom s"
    using unlink_ring [OF rep h] by blast
  let ?s' = "put_prev q q (put_next q q t)"
  have qt: "q \<in> dom t" "q \<in> dom (put_next q q t)" using t(2,5) heads_access(5) [of q t] by auto
  have run: "list_delinit q s = Some ?s'" using qt t(1) by (simp add: list_delinit_def heads_access)
  have eff: "dom ?s' = dom s" "nx ?s' = (nx t)(q := q)" "pv ?s' = (pv t)(q := q)"
    using qt t(2) by (simp_all add: heads_access)
  have qn: "q \<notin> insert h (set (us @ vs))" using ring_distinct [OF r(1)] by auto
  have ring: "ring (nx ?s') (pv ?s') h (us @ vs)"
    by (rule ring_cong [OF t(3)]) (use qn eff in auto)
  have own: "ring (nx ?s') (pv ?s') q []" by (rule ring_single) (simp_all add: eff)
  have "lists_rep ?s' (L(h \<mapsto> us @ vs, q \<mapsto> []))"
    by (rule lists_change [OF rep eff(1), where M = "insert h (set (us @ q # vs))"
          and N = "\<lambda>g ys. g = h \<and> ys = us @ vs \<or> g = q \<and> ys = []"])
       (use r(2) ring own qn t(4) lists_rep_disjoint [OF rep h] in \<open>auto simp: eff(2,3) split: if_splits\<close>)
  then show ?thesis using run eff(1) by blast
qed

lemma lists_rep_forget: "lists_rep s L \<Longrightarrow> lists_rep s (L(h := None))"
  by (rule lists_change [of s L s "{}" _ "\<lambda>_ _. False"]) (auto split: if_splits)

lemma step_replace:
  assumes rep: "lists_rep s L" and h: "L h = Some xs" "g \<in> dom s" "free_node L g"
  shows "\<exists>s'. list_replace h g s = Some s' \<and> dom s' = dom s \<and>
    lists_rep s' (L(h := if xs = [] then Some [] else None, g \<mapsto> xs))"
proof (cases "xs = []")
  case True
  have r: "h \<in> dom s" "nx s h = h" using lists_repD [OF rep h(1)] True by (auto simp: ring_def)
  have "L(h \<mapsto> []) = L" using h(1) True by auto
  moreover have "list_replace h g s = list_inithead g s" using r by (simp add: list_replace_def list_empty_def heads_access)
  moreover have "g \<notin> set ys" if "L k = Some ys" for k ys using free_nodeD [OF h(3) that] by simp
  ultimately show ?thesis using step_init [OF rep h(2)] True by simp
next
  case False
  note r = lists_repD [OF rep h(1)] and f = free_nodeD [OF h(3,1)]
  have n: "nx s h \<in> set xs" "pv s h \<in> set xs" "h \<notin> set xs"
    using ring_first [OF r(1)] ring_last [OF r(1)] ring_distinct [OF r(1)] False by (cases xs; force)+
  have "nx s h \<noteq> h" "pv s h \<noteq> h" using n by metis+
  moreover have "nx s h \<noteq> g" "pv s h \<noteq> g" "g \<noteq> h" using n f by (metis insertCI)+
  moreover have "nx s h \<in> dom s" "pv s h \<in> dom s" "h \<in> dom s" using n r(2) by auto
  ultimately obtain s' where s': "list_replace h g s = Some s'" "dom s' = dom s" "nx s' = (nx s)(g := nx s h, pv s h := g)"
    "pv s' = (pv s)(g := pv s h, nx s h := g)" using replace_effect [OF _ h(2)] by blast
  have ring: "ring (nx s') (pv s') g xs" unfolding s'(3,4) by (rule ring_replace [OF r(1) False f])
  have "lists_rep s' (L(h := None, g \<mapsto> xs))"
    by (rule lists_change_one [OF rep h(1) s'(2), where F = "{g}"]) (use n h(2,3) ring in \<open>auto simp: s'(3,4)\<close>)
  then show ?thesis using s' False by auto
qed

text \<open>Two lists become one.\<close>

lemma lists_change_two:
  assumes rep: "lists_rep s L" and g: "L g = Some ys" and h: "L h = Some xs" and dm: "dom s' = dom s"
    and same: "\<And>p. p \<notin> insert g (set ys) \<union> insert h (set xs) \<Longrightarrow> nx s' p = nx s p \<and> pv s' p = pv s p"
    and new: "ring (nx s') (pv s') h zs" "set zs \<subseteq> set ys \<union> set xs"
  shows "lists_rep s' (L(g := None, h \<mapsto> zs))"
proof (rule lists_change [OF rep dm same])
  show "insert g (set ys) \<union> insert h (set xs) \<subseteq> dom s"
    using lists_repD(2) [OF rep g] lists_repD(2) [OF rep h] by blast
  show "insert k (set us) \<inter> insert l (set vs) = {}"
    if "k = h \<and> us = zs" "l = h \<and> vs = zs" "k \<noteq> l" for k us l vs using that by simp
  fix k us assume k: "(L(g := None, h \<mapsto> zs)) k = Some us"
  show "L k = Some us \<and> insert k (set us) \<inter> (insert g (set ys) \<union> insert h (set xs)) = {} \<or>
      (k = h \<and> us = zs) \<and> ring (nx s') (pv s') k us \<and> insert k (set us) \<subseteq> insert g (set ys) \<union> insert h (set xs)"
  proof (cases "k = h")
    case True
    then show ?thesis using k new by auto
  next
    case False
    then have "L k = Some us" "k \<noteq> g" using k by (auto split: if_splits)
    then show ?thesis using False lists_rep_disjoint [OF rep _ g] lists_rep_disjoint [OF rep _ h] by blast
  qed
qed

lemma splice_ends:
  assumes rep: "lists_rep s L" and g: "L g = Some ys" "ys \<noteq> []" and h: "L h = Some xs" and gh: "g \<noteq> h"
  shows "g \<in> dom s" "h \<in> dom s" "nx s g \<in> dom s" "pv s g \<in> dom s" "nx s h \<in> dom s" "pv s h \<in> dom s"
    "nx s g \<noteq> g" "pv s g \<noteq> g" "nx s g \<noteq> h" "pv s g \<noteq> h" "nx s h \<noteq> g" "pv s h \<noteq> g"
    "nx s g \<in> set ys" "pv s g \<in> set ys" "nx s h \<in> insert h (set xs)" "pv s h \<in> insert h (set xs)"
proof -
  note rg = lists_repD [OF rep g(1)] and rh = lists_repD [OF rep h] and d = lists_rep_disjoint [OF rep g(1) h gh]
  show n: "nx s g \<in> set ys" "pv s g \<in> set ys"
    using ring_first [OF rg(1)] ring_last [OF rg(1)] g(2) by (cases ys; force)+
  show m: "nx s h \<in> insert h (set xs)" "pv s h \<in> insert h (set xs)" by (rule ring_nodes [OF rh(1)]; simp)+
  show "g \<in> dom s" "h \<in> dom s" "nx s g \<in> dom s" "pv s g \<in> dom s" "nx s h \<in> dom s" "pv s h \<in> dom s"
    using n m rg(2) rh(2) by auto
  have "g \<notin> set ys" using ring_distinct [OF rg(1)] by simp
  then show "nx s g \<noteq> g" "pv s g \<noteq> g" using n by metis+
  show "nx s g \<noteq> h" "pv s g \<noteq> h" "nx s h \<noteq> g" "pv s h \<noteq> g" using n m d by blast+
qed

lemma splice_nothing:
  assumes "lists_rep s L" "L g = Some []"
  shows "list_splice g h s = Some s" "list_splicetail g h s = Some s"
proof -
  have "g \<in> dom s" "nx s g = g" using lists_repD [OF assms] by (auto simp: ring_def)
  then show "list_splice g h s = Some s" "list_splicetail g h s = Some s"
    by (simp_all add: list_splice_def list_splicetail_def list_empty_def heads_access)
qed

lemma step_splice:
  assumes rep: "lists_rep s L" and g: "L g = Some ys" and h: "L h = Some xs" and gh: "g \<noteq> h"
  shows "\<exists>s'. list_splice g h s = Some s' \<and> dom s' = dom s \<and>
    lists_rep s' (L(g := if ys = [] then Some [] else None, h \<mapsto> ys @ xs))"
proof (cases "ys = []")
  case True
  then have "L(g := Some [], h \<mapsto> ys @ xs) = L" using g h by auto
  then show ?thesis using splice_nothing(1) [of s L g h] rep g True by simp
next
  case False
  note e = splice_ends [OF rep g False h gh]
  obtain s' where s': "list_splice g h s = Some s'" "dom s' = dom s" "nx s' = (nx s)(pv s g := nx s h, h := nx s g)"
    "pv s' = (pv s)(nx s g := h, nx s h := pv s g)" using splice_effect [OF e(1-5,7) gh e(8-11)] by blast
  have "ring (nx s') (pv s') h (ys @ xs)" unfolding s'(3,4)
    by (rule ring_splice [OF lists_repD(1) [OF rep h] lists_repD(1) [OF rep g] False])
       (rule lists_rep_disjoint [OF rep h g gh [symmetric]])
  then have "lists_rep s' (L(g := None, h \<mapsto> ys @ xs))"
    by (rule lists_change_two [OF rep g h s'(2), rotated]) (use e(13-16) in \<open>auto simp: s'(3,4)\<close>)
  then show ?thesis using s' False by auto
qed

lemma step_splicetail:
  assumes rep: "lists_rep s L" and g: "L g = Some ys" and h: "L h = Some xs" and gh: "g \<noteq> h"
  shows "\<exists>s'. list_splicetail g h s = Some s' \<and> dom s' = dom s \<and>
    lists_rep s' (L(g := if ys = [] then Some [] else None, h \<mapsto> xs @ ys))"
proof (cases "ys = []")
  case True
  then have "L(g := Some [], h \<mapsto> xs @ ys) = L" using g h by auto
  then show ?thesis using splice_nothing(2) [of s L g h] rep g True by simp
next
  case False
  note e = splice_ends [OF rep g False h gh]
  obtain s' where s': "list_splicetail g h s = Some s'" "dom s' = dom s" "nx s' = (nx s)(pv s g := h, pv s h := nx s g)"
    "pv s' = (pv s)(nx s g := pv s h, h := pv s g)" using splicetail_effect [OF e(1-4,6,7) gh e(8-10,12)] by blast
  have "ring (nx s') (pv s') h (xs @ ys)" unfolding s'(3,4)
    by (rule ring_splicetail [OF lists_repD(1) [OF rep h] lists_repD(1) [OF rep g] False])
       (rule lists_rep_disjoint [OF rep h g gh [symmetric]])
  then have "lists_rep s' (L(g := None, h \<mapsto> xs @ ys))"
    by (rule lists_change_two [OF rep g h s'(2), rotated]) (use e(13-16) in \<open>auto simp: s'(3,4)\<close>)
  then show ?thesis using s' False by auto
qed

section \<open>Queries\<close>

lemma empty_result: "lists_rep s L \<Longrightarrow> L h = Some xs \<Longrightarrow> list_empty h s = Some (xs = [])"
  by (frule (1) lists_repD(1), frule (1) lists_repD(2))
     (cases xs; auto simp: list_empty_def heads_access ring_def)

lemma singular_result:
  assumes rep: "lists_rep s L" and h: "L h = Some xs"
  shows "list_is_singular h s = Some (length xs = 1)"
proof -
  note r = lists_repD [OF rep h]
  have z: "0 \<notin> dom s" using rep by (simp add: lists_rep_def)
  show ?thesis
  proof (cases xs)
    case Nil
    then show ?thesis using r z by (simp add: list_is_singular_def heads_access ring_def)
  next
    case (Cons x ys)
    have x: "nx s h = x" "h \<noteq> x" "x \<in> dom s" "h \<in> dom s" "x \<noteq> 0" using r z Cons by (auto simp: ring_def)
    moreover have "nx s x = hd (ys @ [h])" using ring_next [of "nx s" "pv s" h "[]" x ys] r(1) Cons by simp
    moreover have "hd (ys @ [h]) = h \<longleftrightarrow> ys = []" using ring_distinct [OF r(1)] Cons by (cases ys) auto
    ultimately show ?thesis using Cons by (simp add: list_is_singular_def heads_access)
  qed
qed

lemma length_loop_result:
  assumes rep: "lists_rep s L" and h: "L h = Some (us @ vs)"
  shows "length_loop h s (hd (vs @ [h])) n = Some (n + of_nat (length vs))"
  using h
proof (induction vs arbitrary: us n)
  case Nil
  then show ?case by (simp add: length_loop.simps)
next
  case (Cons x vs)
  note r = lists_repD [OF rep Cons.prems]
  have x: "x \<noteq> h" "x \<in> dom s" "nx s x = hd (vs @ [h])" using ring_distinct [OF r(1)] r(2) ring_next [OF r(1)] by auto
  have "L h = Some ((us @ [x]) @ vs)" using Cons.prems by simp
  from Cons.IH [OF this, of "n + 1"] show ?case using x
    by (subst length_loop.simps) (simp add: heads_access algebra_simps)
qed

lemma length_list_result:
  assumes rep: "lists_rep s L" and h: "L h = Some xs"
  shows "list_length h s = Some (of_nat (length xs))"
proof -
  note r = lists_repD [OF rep h]
  then have "load_next h s = Some (hd (xs @ [h]))" using ring_first [OF r(1)] by (simp add: heads_access)
  then show ?thesis using length_loop_result [OF rep, of h "[]" xs 0] h by (simp add: list_length_def)
qed

text \<open>Following a link and back.\<close>

lemma ring_back:
  assumes "ring n p h xs" "x \<in> insert h (set xs)"
  shows "p (n x) = x" "n (p x) = x"
proof -
  have "p (n x) = x \<and> n (p x) = x"
  proof (cases "x = h")
    case True
    show ?thesis
    proof (cases xs)
      case Nil
      then show ?thesis using True assms(1) by (simp add: ring_def)
    next
      case (Cons y ys)
      obtain us z where z: "xs = us @ [z]" using Cons by (metis list.distinct(1) rev_exhaust)
      have "n h = y" "p y = h" using assms(1) Cons by (simp_all add: ring_def)
      moreover have "p h = z" "n z = h"
        using ring_last [OF assms(1)] ring_next [of n p h us z "[]"] assms(1) z by simp_all
      moreover have "y = hd xs" "z = last xs" using Cons z by (simp, metis last_snoc)
      ultimately show ?thesis using True by simp
    qed
  next
    case False
    then obtain us vs where xs: "xs = us @ x # vs" using assms(2) by (auto dest: split_list)
    then have l: "linked n p h us x" "linked n p x vs h" using assms(1) by (auto simp: ring_def linked_append)
    have "p (n x) = x" using l(2) by (cases vs) auto
    moreover have "n (p x) = x" using l(1) by (cases us rule: rev_cases) (auto simp: linked_append)
    ultimately show ?thesis ..
  qed
  then show "p (n x) = x" "n (p x) = x" by auto
qed

lemma validate_node:
  assumes rep: "lists_rep s L" and h: "L h = Some xs" "x \<in> insert h (set xs)"
  shows "load_next x s = Some (nx s x)" "load_prev x s = Some (pv s x)"
    "load_prev (nx s x) s = Some x" "load_next (pv s x) s = Some x"
proof -
  note r = lists_repD [OF rep h(1)]
  have "nx s x \<in> dom s" "pv s x \<in> dom s" "x \<in> dom s" using ring_nodes [OF r(1) h(2)] h(2) r(2) by auto
  then show "load_next x s = Some (nx s x)" "load_prev x s = Some (pv s x)"
    "load_prev (nx s x) s = Some x" "load_next (pv s x) s = Some x"
    using ring_back [OF r(1) h(2)] by (simp_all add: heads_access)
qed

lemma validate_loop_result:
  assumes rep: "lists_rep s L" and h: "L h = Some (us @ vs)"
  shows "validate_loop h s (hd (vs @ [h])) = Some True"
  using h
proof (induction vs arbitrary: us)
  case Nil
  then show ?case by (simp add: validate_loop.simps)
next
  case (Cons x vs)
  note r = lists_repD [OF rep Cons.prems]
  have x: "x \<noteq> h" "nx s x = hd (vs @ [h])" using ring_distinct [OF r(1)] ring_next [OF r(1)] by auto
  have "L h = Some ((us @ [x]) @ vs)" using Cons.prems by simp
  from Cons.IH [OF this] show ?case using x validate_node [OF rep Cons.prems, of x]
    by (subst validate_loop.simps) simp
qed

lemma validate_result:
  assumes rep: "lists_rep s L" and h: "L h = Some xs"
  shows "list_validate h s = Some True"
  using validate_loop_result [OF rep, of h "[]" xs] validate_node [OF rep h, of h] h
    ring_first [OF lists_repD(1) [OF rep h]]
  by (simp add: list_validate_def)

section \<open>Iteration in either direction\<close>

lemma linked_rev: "linked n p a xs b \<Longrightarrow> linked p n b (rev xs) a"
  by (induction xs arbitrary: a) (auto simp: linked_append)

lemma ring_rev: "ring n p h xs \<Longrightarrow> ring p n h (rev xs)"
  by (auto simp: ring_def dest: linked_rev)

text \<open>What a loop relies on: the link it follows and the order in which that link has the elements.\<close>

locale list_walk =
  fixes load :: "nat \<Rightarrow> heads \<Rightarrow> nat option" and link other :: "heads \<Rightarrow> nat \<Rightarrow> nat"
    and order :: "nat list \<Rightarrow> nat list"
  assumes load: "p \<in> dom s \<Longrightarrow> load p s = Some (link s p)"
    and ring_order: "ring (nx s) (pv s) h xs \<Longrightarrow> ring (link s) (other s) h (order xs)"
    and order_order: "order (order xs) = xs"
    and order_split: "\<exists>as bs. order (us @ x # vs) = as @ x # bs \<and> order (us @ vs) = as @ bs"
    and order_set: "set (order xs) = set xs"
begin

lemma ring_walk:
  assumes "lists_rep s L" "L h = Some (order zs)"
  shows "ring (link s) (other s) h zs" "insert h (set zs) \<subseteq> dom s"
  using ring_order [OF lists_repD(1) [OF assms]] lists_repD(2) [OF assms] by (simp_all add: order_order order_set)

lemma walk_loop:
  assumes rep: "lists_rep s L" and h: "L h = Some (order (us @ vs))"
  shows "for_each_loop load h s (hd (vs @ [h])) = Some vs"
  using h
proof (induction vs arbitrary: us)
  case Nil
  then show ?case by (simp add: for_each_loop.simps)
next
  case (Cons x vs)
  note r = ring_walk [OF rep Cons.prems]
  have x: "x \<noteq> h" "x \<in> dom s" "link s x = hd (vs @ [h])" using ring_distinct [OF r(1)] r(2) ring_next [OF r(1)] by auto
  have "L h = Some (order ((us @ [x]) @ vs))" using Cons.prems by simp
  from Cons.IH [OF this] show ?case using x by (subst for_each_loop.simps) (simp add: load)
qed

lemma walk_start:
  assumes rep: "lists_rep s L" and h: "L h = Some (order zs)"
  shows "load h s = Some (hd (zs @ [h]))"
  using ring_walk [OF assms] ring_first [of "link s" "other s" h zs] by (simp add: load)

text \<open>A body that keeps some elements and deletes the others.\<close>

lemma body_step:
  assumes rep: "lists_rep s L" and h: "L h = Some (order (us @ x # vs))"
  shows "\<exists>s'. (if keep x then Some s else list_del x s) = Some s' \<and> dom s' = dom s \<and>
    lists_rep s' (L(h \<mapsto> order ((if keep x then us @ [x] else us) @ vs)))"
proof (cases "keep x")
  case True
  have "L(h \<mapsto> order (us @ x # vs)) = L" using h by auto
  then show ?thesis using True rep by simp
next
  case False
  obtain as bs where o: "order (us @ x # vs) = as @ x # bs" "order (us @ vs) = as @ bs" using order_split by blast
  from step_del [OF rep, of h as x bs] h o False show ?thesis by simp
qed

lemma safe_walk_loop:
  assumes "lists_rep s L" "L h = Some (order (us @ x # vs))"
  shows "\<exists>s'. for_each_safe_loop load (\<lambda>p s. if keep p then Some s else list_del p s) h s x (hd (vs @ [h])) =
      Some (x # vs, s') \<and> dom s' = dom s \<and> lists_rep s' (L(h \<mapsto> order (us @ filter keep (x # vs))))"
  using assms
proof (induction vs arbitrary: s L us x)
  case Nil
  obtain t where t: "(if keep x then Some s else list_del x s) = Some t" "dom t = dom s"
    "lists_rep t (L(h \<mapsto> order ((if keep x then us @ [x] else us) @ [])))"
    using body_step [where keep = keep, OF Nil] by blast
  have d: "h \<in> dom t" "x \<noteq> h" using ring_walk [OF Nil] ring_distinct [OF ring_walk(1) [OF Nil]] t(2) by auto
  have "for_each_safe_loop load (\<lambda>p s. if keep p then Some s else list_del p s) h s x h = Some ([x], t)"
    by (subst for_each_safe_loop.simps, subst for_each_safe_loop.simps) (simp add: d(2) t(1) load [OF d(1)])
  moreover have "lists_rep t (L(h \<mapsto> order (us @ filter keep [x])))" using t(3) by (cases "keep x") simp_all
  moreover have "hd ([] @ [h]) = h" by simp
  ultimately show ?case using t(2) by metis
next
  case (Cons y vs)
  let ?us = "if keep x then us @ [x] else us"
  obtain t where t: "(if keep x then Some s else list_del x s) = Some t" "dom t = dom s"
    "lists_rep t (L(h \<mapsto> order (?us @ y # vs)))"
    using body_step [where keep = keep, OF Cons.prems] by blast
  have at: "(L(h \<mapsto> order (?us @ y # vs))) h = Some (order (?us @ y # vs))" by simp
  note r = ring_walk [OF t(3) at]
  have y: "load y t = Some (hd (vs @ [h]))" using load [of y t] ring_next [OF r(1)] r(2) by simp
  have x: "x \<noteq> h" using ring_distinct [OF ring_walk(1) [OF Cons.prems]] by simp
  from Cons.IH [OF t(3) at] obtain s' where s': "for_each_safe_loop load
      (\<lambda>p s. if keep p then Some s else list_del p s) h t y (hd (vs @ [h])) = Some (y # vs, s')" "dom s' = dom t"
    "lists_rep s' ((L(h \<mapsto> order (?us @ y # vs)))(h \<mapsto> order (?us @ filter keep (y # vs))))" by blast
  have "for_each_safe_loop load (\<lambda>p s. if keep p then Some s else list_del p s) h s x y = Some (x # y # vs, s')"
    by (subst for_each_safe_loop.simps) (simp add: x t(1) y s'(1))
  moreover have "?us @ filter keep (y # vs) = us @ filter keep (x # y # vs)" by simp
  moreover have "hd ((y # vs) @ [h]) = y" by simp
  ultimately show ?case using s'(2,3) t(2) unfolding fun_upd_upd by metis
qed

lemma safe_walk:
  assumes rep: "lists_rep s L" and h: "L h = Some (order zs)"
  shows "\<exists>s'. (do { pos \<leftarrow> load h s; storage \<leftarrow> load pos s;
      for_each_safe_loop load (\<lambda>p s. if keep p then Some s else list_del p s) h s pos storage }) = Some (zs, s') \<and>
    dom s' = dom s \<and> lists_rep s' (L(h \<mapsto> order (filter keep zs)))"
proof (cases zs)
  case Nil
  have "h \<in> dom s" "load h s = Some h" using ring_walk [OF assms] walk_start [OF assms] Nil by auto
  moreover have "L(h \<mapsto> order []) = L" using h Nil by auto
  ultimately show ?thesis using rep Nil by (simp add: for_each_safe_loop.simps)
next
  case (Cons x vs)
  have "load x s = Some (hd (vs @ [h]))"
    using ring_walk [OF assms] ring_next [of "link s" "other s" h "[]" x vs] Cons load [of x s] by simp
  then show ?thesis using walk_start [OF assms] safe_walk_loop [OF rep, of h "[]" x vs keep] h Cons by simp
qed

end

interpretation forward: list_walk load_next nx pv "\<lambda>xs. xs"
  by unfold_locales (auto simp: heads_access)

interpretation backward: list_walk load_prev pv nx rev
  by unfold_locales (auto simp: heads_access ring_rev)

section \<open>What clients do\<close>

datatype list_op = Init nat | Add nat nat | AddTail nat nat | Del nat | DelInit nat | Replace nat nat
  | Splice nat nat | SpliceTail nat nat | Sweep "nat \<Rightarrow> bool" nat | SweepRev "nat \<Rightarrow> bool" nat

text \<open>A loop that deletes the elements it does not keep.\<close>

definition del_unless :: "(nat \<Rightarrow> bool) \<Rightarrow> nat \<Rightarrow> heads \<Rightarrow> heads option" where
  "del_unless keep = (\<lambda>p s. if keep p then Some s else list_del p s)"

fun run_op :: "list_op \<Rightarrow> heads \<Rightarrow> heads option" where
  "run_op (Init h) s = list_inithead h s"
| "run_op (Add q h) s = list_add q h s"
| "run_op (AddTail q h) s = list_addtail q h s"
| "run_op (Del q) s = list_del q s"
| "run_op (DelInit q) s = list_delinit q s"
| "run_op (Replace h g) s = list_replace h g s"
| "run_op (Splice g h) s = list_splice g h s"
| "run_op (SpliceTail g h) s = list_splicetail g h s"
| "run_op (Sweep keep h) s = map_option snd (list_for_each_entry_safe (del_unless keep) h s)"
| "run_op (SweepRev keep h) s = map_option snd (list_for_each_entry_safe_rev (del_unless keep) h s)"

fun run_ops :: "list_op list \<Rightarrow> heads \<Rightarrow> heads option" where
  "run_ops [] s = Some s"
| "run_ops (a # as) s = Option.bind (run_op a s) (run_ops as)"

text \<open>A head that is on no list, but may be an empty list itself, as \<open>list_delinit\<close> leaves it.\<close>

definition available :: "lists \<Rightarrow> nat \<Rightarrow> bool" where
  "available L q \<longleftrightarrow> (L q = None \<or> L q = Some []) \<and> (\<forall>h xs. L h = Some xs \<longrightarrow> q \<notin> set xs)"

text \<open>The lists after an operation.  A list that was spliced or replaced is gone, unless it was empty, until
  its head is initialised again.\<close>

inductive list_step :: "nat set \<Rightarrow> lists \<Rightarrow> list_op \<Rightarrow> lists \<Rightarrow> bool" for D where
  list_init: "h \<in> D \<Longrightarrow> (\<forall>g xs. L g = Some xs \<longrightarrow> h \<notin> set xs) \<Longrightarrow> list_step D L (Init h) (L(h \<mapsto> []))"
| list_first: "L h = Some xs \<Longrightarrow> q \<in> D \<Longrightarrow> available L q \<Longrightarrow> q \<noteq> h \<Longrightarrow>
    list_step D L (Add q h) (L(q := None, h \<mapsto> q # xs))"
| list_last: "L h = Some xs \<Longrightarrow> q \<in> D \<Longrightarrow> available L q \<Longrightarrow> q \<noteq> h \<Longrightarrow>
    list_step D L (AddTail q h) (L(q := None, h \<mapsto> xs @ [q]))"
| list_delete: "L h = Some (us @ q # vs) \<Longrightarrow> list_step D L (Del q) (L(h \<mapsto> us @ vs))"
| list_deleteinit: "L h = Some (us @ q # vs) \<Longrightarrow> list_step D L (DelInit q) (L(h \<mapsto> us @ vs, q \<mapsto> []))"
| list_move: "L h = Some xs \<Longrightarrow> g \<in> D \<Longrightarrow> available L g \<Longrightarrow> g \<noteq> h \<Longrightarrow>
    list_step D L (Replace h g) (L(g := None, h := if xs = [] then Some [] else None, g \<mapsto> xs))"
| list_join: "L g = Some ys \<Longrightarrow> L h = Some xs \<Longrightarrow> g \<noteq> h \<Longrightarrow>
    list_step D L (Splice g h) (L(g := if ys = [] then Some [] else None, h \<mapsto> ys @ xs))"
| list_jointail: "L g = Some ys \<Longrightarrow> L h = Some xs \<Longrightarrow> g \<noteq> h \<Longrightarrow>
    list_step D L (SpliceTail g h) (L(g := if ys = [] then Some [] else None, h \<mapsto> xs @ ys))"
| list_sweep: "L h = Some xs \<Longrightarrow> list_step D L (Sweep keep h) (L(h \<mapsto> filter keep xs))"
| list_sweeprev: "L h = Some xs \<Longrightarrow> list_step D L (SweepRev keep h) (L(h \<mapsto> filter keep xs))"

inductive list_run :: "nat set \<Rightarrow> lists \<Rightarrow> list_op list \<Rightarrow> lists \<Rightarrow> bool" for D where
  run_nil: "list_run D L [] L"
| run_cons: "list_step D L a L1 \<Longrightarrow> list_run D L1 as L2 \<Longrightarrow> list_run D L (a # as) L2"

lemma available_free: "available L q \<Longrightarrow> free_node (L(q := None)) q"
  by (auto simp: available_def free_node_def split: if_splits)

lemma safe_results:
  assumes rep: "lists_rep s L" and h: "L h = Some xs"
  shows "\<exists>s'. list_for_each_entry_safe (del_unless keep) h s = Some (xs, s') \<and> dom s' = dom s \<and>
      lists_rep s' (L(h \<mapsto> filter keep xs))"
    "\<exists>s'. list_for_each_entry_safe_rev (del_unless keep) h s = Some (rev xs, s') \<and> dom s' = dom s \<and>
      lists_rep s' (L(h \<mapsto> filter keep xs))"
  using forward.safe_walk [OF assms, of keep] backward.safe_walk [of s L h "rev xs" keep] assms
  by (simp_all add: list_for_each_entry_safe_def list_for_each_entry_safe_rev_def del_unless_def rev_filter)

lemma list_step_run:
  assumes "list_step (dom s) L a L'" "lists_rep s L"
  shows "\<exists>s'. run_op a s = Some s' \<and> dom s' = dom s \<and> lists_rep s' L'"
  using assms
proof (induction rule: list_step.induct)
  case (list_init h L)
  have "\<exists>s'. list_inithead h s = Some s' \<and> dom s' = dom s \<and> lists_rep s' (L(h \<mapsto> []))"
    by (rule step_init) (use list_init in blast)+
  then show ?case by (simp only: run_op.simps)
next
  case (list_first L h xs q)
  note a = step_add [OF lists_rep_forget [OF list_first(5), of q] _ _ available_free [OF list_first(3)], of h xs]
  show ?case unfolding run_op.simps by (rule a) (use list_first in simp_all)
next
  case (list_last L h xs q)
  note a = step_addtail [OF lists_rep_forget [OF list_last(5), of q] _ _ available_free [OF list_last(3)], of h xs]
  show ?case unfolding run_op.simps by (rule a) (use list_last in simp_all)
next
  case (list_delete L h us q vs)
  then show ?case unfolding run_op.simps by (intro step_del)
next
  case (list_deleteinit L h us q vs)
  then show ?case unfolding run_op.simps by (intro step_delinit)
next
  case (list_move L h xs g)
  note a = step_replace [OF lists_rep_forget [OF list_move(5), of g] _ _ available_free [OF list_move(3)], of h xs]
  show ?case unfolding run_op.simps by (rule a) (use list_move in simp_all)
next
  case (list_join L g ys h xs)
  then show ?case unfolding run_op.simps by (intro step_splice)
next
  case (list_jointail L g ys h xs)
  then show ?case unfolding run_op.simps by (intro step_splicetail)
next
  case (list_sweep L h xs keep)
  obtain s' where s': "list_for_each_entry_safe (del_unless keep) h s = Some (xs, s')" "dom s' = dom s"
    "lists_rep s' (L(h \<mapsto> filter keep xs))"
    using safe_results(1) [OF list_sweep(2,1)] by blast
  show ?case unfolding run_op.simps s'(1) option.map snd_conv using s'(2,3) by blast
next
  case (list_sweeprev L h xs keep)
  obtain s' where s': "list_for_each_entry_safe_rev (del_unless keep) h s = Some (rev xs, s')" "dom s' = dom s"
    "lists_rep s' (L(h \<mapsto> filter keep xs))"
    using safe_results(2) [OF list_sweeprev(2,1)] by blast
  show ?case unfolding run_op.simps s'(1) option.map snd_conv using s'(2,3) by blast
qed

lemma list_run_run:
  assumes "list_run (dom s) L as L'" "lists_rep s L"
  shows "\<exists>s'. run_ops as s = Some s' \<and> dom s' = dom s \<and> lists_rep s' L'"
  using assms
proof (induction as arbitrary: s L)
  case Nil
  then show ?case by (auto elim: list_run.cases)
next
  case (Cons a as)
  from Cons.prems(1) obtain L1 where l: "list_step (dom s) L a L1" "list_run (dom s) L1 as L'"
    by (auto elim: list_run.cases)
  from list_step_run [OF l(1) Cons.prems(2)] obtain t where
    t: "run_op a s = Some t" "dom t = dom s" "lists_rep t L1" by blast
  from Cons.IH [OF _ t(3)] l(2) t(1,2) show ?case by simp
qed

lemma foreach_results:
  assumes rep: "lists_rep s L" and h: "L h = Some xs"
  shows "list_for_each_entry h s = Some xs" "list_for_each_entry_rev h s = Some (rev xs)"
    "xs = us @ p # vs \<Longrightarrow> list_for_each_entry_from p h s = Some (p # vs)"
    "xs = us @ p # vs \<Longrightarrow> list_for_each_entry_from_rev p h s = Some (p # rev us)"
  using forward.walk_start [OF assms] forward.walk_loop [OF rep, of h "[]" xs] forward.walk_loop [OF rep, of h us "p # vs"]
    backward.walk_start [OF rep, of h "rev xs"] backward.walk_loop [OF rep, of h "[]" "rev xs"]
    backward.walk_loop [OF rep, of h "rev vs" "p # rev us"] h
  by (simp_all add: list_for_each_entry_def list_for_each_entry_rev_def list_for_each_entry_from_def
      list_for_each_entry_from_rev_def)

section \<open>Properties\<close>

text \<open>C40. From any store of disjoint well-formed lists (\<open>lists_rep\<close>), every run of the operations that a client may
  make (\<open>list_run\<close>) accesses allocated heads only and keeps all the lists disjoint and well formed, with the
  elements the run gives them.  A client adds an element, or moves a list to a new head, only when that is an
  allocated head on no list, or one that \<open>list_delinit\<close> left as an empty list; deletes elements of lists only,
  also in a safe loop; initialises heads that are no element of a list; and splices two different lists, of which
  the first, unless it was empty, is gone until its head is initialised again, as a replaced one is.
  Emptiness, singularity and length (modulo 2^32) are those of the elements, validation succeeds, and the loops
  visit the elements in order, from either end or from a given element; the safe ones also when the body
  deletes the element it visits.\<close>

theorem intrusive_lists_run:
  assumes "lists_rep s L" "list_run (dom s) L as L'"
  shows "\<exists>s'. run_ops as s = Some s' \<and> dom s' = dom s \<and> lists_rep s' L' \<and>
    (\<forall>h xs. L' h = Some xs \<longrightarrow>
       list_empty h s' = Some (xs = []) \<and> list_is_singular h s' = Some (length xs = 1) \<and>
       list_length h s' = Some (of_nat (length xs)) \<and> list_validate h s' = Some True \<and>
       list_for_each_entry h s' = Some xs \<and> list_for_each_entry_rev h s' = Some (rev xs) \<and>
       (\<forall>us p vs. xs = us @ p # vs \<longrightarrow> list_for_each_entry_from p h s' = Some (p # vs) \<and>
          list_for_each_entry_from_rev p h s' = Some (p # rev us)) \<and>
       (\<forall>keep. map_option fst (list_for_each_entry_safe (del_unless keep) h s') = Some xs \<and>
          map_option fst (list_for_each_entry_safe_rev (del_unless keep) h s') = Some (rev xs)))"
proof -
  obtain s' where s': "run_ops as s = Some s'" "dom s' = dom s" "lists_rep s' L'"
    using list_run_run [OF assms(2,1)] by blast
  have "map_option fst (list_for_each_entry_safe (del_unless keep) h s') = Some xs"
    "map_option fst (list_for_each_entry_safe_rev (del_unless keep) h s') = Some (rev xs)" if "L' h = Some xs" for h xs keep
    using safe_results [OF s'(3) that, of keep] by auto
  note facts = this empty_result [OF s'(3)] singular_result [OF s'(3)] length_list_result [OF s'(3)]
    validate_result [OF s'(3)] foreach_results(1,2) [OF s'(3)]
  have "list_for_each_entry_from p h s' = Some (p # vs)" "list_for_each_entry_from_rev p h s' = Some (p # rev us)"
    if "L' h = Some xs" "xs = us @ p # vs" for h xs us p vs
    using foreach_results(3,4) [OF s'(3) that(1) that(2)] .
  note froms = this
  show ?thesis
    by (rule exI [of _ s'], intro conjI allI impI)
       (use s' in \<open>simp_all only: facts froms\<close>)
qed

theorem intrusive_lists_run_witness:
  "\<exists>s'. run_ops [Init 1, Init 2, Add 3 1, AddTail 4 2, DelInit 3, Splice 2 1, AddTail 3 1]
      (\<lambda>p. if p \<in> {1, 2, 3, 4} then Some \<lparr>l_prev = 0, l_next = 0\<rparr> else None) = Some s' \<and>
    list_for_each_entry 1 s' = Some [4, 3]"
proof -
  let ?s = "\<lambda>p :: nat. if p \<in> {1, 2, 3, 4} then Some \<lparr>l_prev = 0, l_next = 0\<rparr> else None"
  have d: "dom ?s = {1, 2, 3, 4}" by (auto split: if_splits)
  have rep: "lists_rep ?s Map.empty" by (auto simp: lists_rep_def d)
  let ?D = "{1, 2, 3, 4 :: nat}"
  have 1: "list_step ?D Map.empty (Init 1) [1 \<mapsto> []]" using list_init [of 1 ?D Map.empty] by simp
  have 2: "list_step ?D [1 \<mapsto> []] (Init 2) [1 \<mapsto> [], 2 \<mapsto> []]" using list_init [of 2 ?D "[1 \<mapsto> []]"] by simp
  have 3: "list_step ?D [1 \<mapsto> [], 2 \<mapsto> []] (Add 3 1) ([1 \<mapsto> [], 2 \<mapsto> []](3 := None, 1 \<mapsto> [3]))"
    by (rule list_first) (simp_all add: available_def)
  have 4: "list_step ?D ([1 \<mapsto> [], 2 \<mapsto> []](3 := None, 1 \<mapsto> [3])) (AddTail 4 2)
      ([1 \<mapsto> [], 2 \<mapsto> []](3 := None, 1 \<mapsto> [3], 4 := None, 2 \<mapsto> [] @ [4]))"
    by (rule list_last) (simp_all add: available_def)
  let ?L4 = "[1 \<mapsto> [], 2 \<mapsto> []](3 := None, 1 \<mapsto> [3], 4 := None, 2 \<mapsto> [] @ [4]) :: lists"
  have 5: "list_step ?D ?L4 (DelInit 3) (?L4(1 \<mapsto> [] @ [], 3 \<mapsto> []))"
    by (rule list_deleteinit) simp
  let ?L5 = "?L4(1 \<mapsto> [] @ [], 3 \<mapsto> [])"
  have 6: "list_step ?D ?L5 (Splice 2 1) (?L5(2 := if [4 :: nat] = [] then Some [] else None, 1 \<mapsto> [4] @ []))"
    by (rule list_join) simp_all
  let ?L6 = "?L5(2 := if [4 :: nat] = [] then Some [] else None, 1 \<mapsto> [4] @ [])"
  have 7: "list_step ?D ?L6 (AddTail 3 1) (?L6(3 := None, 1 \<mapsto> [4] @ [3]))"
    by (rule list_last) (auto simp: available_def split: if_splits)
  have "list_run (dom ?s) Map.empty [Init 1, Init 2, Add 3 1, AddTail 4 2, DelInit 3, Splice 2 1, AddTail 3 1]
      (?L6(3 := None, 1 \<mapsto> [4] @ [3]))"
    unfolding d by (rule run_cons, (rule 1 2 3 4 5 6 7))+ (rule run_nil)
  from intrusive_lists_run [OF rep this] show ?thesis by fastforce
qed

end
