(* ===== verification/Spec2Isabelle.thy ===== *)
theory Spec2Isabelle
  imports Prelude Probing HashTable HashTableMap Bitset RegAlloc RegAllocCorrect Blob Qpu QpuPack QpuTables QpuAlu QpuCorrect QpuValidate LinkedRing MemManager MemManagerCorrect NirInt64 NirInt64Correct ParallelCopy ParallelCopyCorrect IdTables IdPools BitmaskSet HandleMap NameTable NameTableCorrect SetTable SetTableRefine SetTableCorrect UVector UVectorCorrect IntrusiveList IntrusiveListCorrect
begin

text \<open>
  \<^bold>\<open>Verified parts of a graphics driver stack\<close>

  The repository is a copy of the Mesa 3D graphics library.  This development models the parts of it
  that are plain algorithms on plain data, each translated from the C source, and proves what makes
  them correct.  Paths are relative to the directory src/src of the repository.

  \<^bold>\<open>Parts, theories and the code they model\<close>

    \<^item> Hash tables.  \<^theory_text>\<open>HashTable\<close> is util/hash_table.c and .h: the table with its tombstones
      (\<^theory_text>\<open>hash_table_search\<close>, \<^theory_text>\<open>hash_table_insert\<close>, \<^theory_text>\<open>mesa_hash_table_rehash\<close>,
      \<^theory_text>\<open>mesa_hash_table_remove\<close>, the iterators), the string and pointer hashes, and the wrapper for
      64-bit keys.  \<^theory_text>\<open>Probing\<close> shows that double hashing visits every slot at the sizes of the
      table; \<^theory_text>\<open>HashTableMap\<close> that the operations refine those of a map, for one operation and
      for runs of them, through the locales \<^theory_text>\<open>hash_key\<close> and \<^theory_text>\<open>keyed_store\<close>.
    \<^item> Sets.  \<^theory_text>\<open>SetTable\<close> is util/set.c and .h, a copy of the hash table without data.
      \<^theory_text>\<open>SetTableRefine\<close> shows that its operations are those of the hash table, up to the count
      of tombstones that \<^theory_text>\<open>mesa_set_clear\<close> loses; \<^theory_text>\<open>SetTableCorrect\<close> that runs with
      clearings in between act as on a set of keys (locale \<^theory_text>\<open>clearable_store\<close>).
    \<^item> Bit sets.  \<^theory_text>\<open>Bitset\<close> is util/bitset.h, with the iterator over the members.
    \<^item> Register allocation.  \<^theory_text>\<open>RegAlloc\<close> is util/register_allocate.c: register sets and classes,
      the interference graph, simplification onto a stack and selection of registers.
      \<^theory_text>\<open>RegAllocCorrect\<close> shows that an allocation is sound, when it cannot fail, and that the
      totals the pq test reads are maintained.  It rests on the bit sets.
    \<^item> Serialisation.  \<^theory_text>\<open>Blob\<close> is compiler/blob.c: writers into a growing or fixed block, and the
      reader; writes serialise, reads invert writes and stay inside the block.
    \<^item> The instructions of the Broadcom V3D QPU.  \<^theory_text>\<open>Qpu\<close> is broadcom/qpu/qpu_instr.c and .h
      (data, names, hazard predicates), \<^theory_text>\<open>QpuPack\<close> broadcom/qpu/qpu_pack.c (64-bit encoding).
      \<^theory_text>\<open>QpuTables\<close>, \<^theory_text>\<open>QpuAlu\<close> and \<^theory_text>\<open>QpuCorrect\<close> show that an instruction that packs unpacks
      to itself, under conditions they spell out (\<^theory_text>\<open>alu_ok\<close>, \<^theory_text>\<open>branch_ok\<close>), and what becomes of
      the others.  \<^theory_text>\<open>QpuValidate\<close> is broadcom/compiler/qpu_validate.c, the
      checker of programs in that instruction set, proved equivalent to a specification of the
      restrictions and, on instructions under those conditions, stable under packing.
    \<^item> Offset memory.  \<^theory_text>\<open>MemManager\<close> is gallium/auxiliary/util/u_mm.c on an explicit store of
      descriptors; \<^theory_text>\<open>LinkedRing\<close> has the facts on circular doubly linked lists and
      \<^theory_text>\<open>MemManagerCorrect\<close> the invariant of the heap and the effect of allocation and release.
    \<^item> Lowering of 64-bit integers.  \<^theory_text>\<open>NirInt64\<close> is compiler/nir/nir_lower_int64.c: the functions
      that build multiplication, division, remainder and sign of 64-bit values from 32-bit operations
      of NIR, each builder call replaced by the operation it builds, on vectors of channels.
      \<^theory_text>\<open>NirInt64Correct\<close> shows that every channel has the 64-bit result.
    \<^item> Parallel copies.  \<^theory_text>\<open>ParallelCopy\<close> is \<^theory_text>\<open>resolve_parallel_copy\<close> of
      compiler/nir/nir_from_ssa.c, with its arrays and its two stacks; \<^theory_text>\<open>ParallelCopyCorrect\<close>
      shows that the moves it emits have the effect of the copies made at once.
    \<^item> Allocators of numbers.  \<^theory_text>\<open>IdTables\<close> is u_idalloc.c, u_bitmask.c and u_handle_table.c of
      gallium/auxiliary/util.  \<^theory_text>\<open>IdPools\<close> states what they promise in common as the locale
      \<^theory_text>\<open>id_pool\<close> and interprets it on the first; \<^theory_text>\<open>BitmaskSet\<close> shows that a bit mask is a
      set of numbers, \<^theory_text>\<open>HandleMap\<close> that a handle table is a map, each with its interpretation.
    \<^item> Tables of object names.  \<^theory_text>\<open>NameTable\<close> is mesa/main/hash.c and .h, on top of the hash
      tables of util; \<^theory_text>\<open>NameTableCorrect\<close> uses the hash table through \<^theory_text>\<open>hash_key_table\<close> and
      provides \<^theory_text>\<open>keyed_store\<close> again, for the names.
    \<^item> Intrusive lists.  \<^theory_text>\<open>IntrusiveList\<close> is util/list.h on an explicit store of list heads, with its
      iteration macros; \<^theory_text>\<open>IntrusiveListCorrect\<close> shows on runs that a store is a family of disjoint
      lists, with the loops proved in the locale \<^theory_text>\<open>list_walk\<close> for both directions.
    \<^item> Circular queues.  \<^theory_text>\<open>UVector\<close> is util/u_vector.c and .h; \<^theory_text>\<open>UVectorCorrect\<close> shows that it is
      first in, first out, across the wrap of its counters and the growth of its block.

  \<^bold>\<open>How the code is represented\<close>

    \<^item> Integers keep their width as words where the code wraps or masks; sizes and indices that the
      code keeps far from the limits are natural numbers, the bound then being part of the invariant.
      A C \<^theory_text>\<open>int\<close> whose overflow is undefined is an integer with an explicit range check.
    \<^item> A pointer is a 64-bit word with 0 for NULL where only its value matters (keys, data); a pointer
      into a table is the index of the entry; descriptors of the offset memory are addresses of a store
      \<^theory_text>\<open>nat \<rightharpoonup> mem_block\<close>, and reading an address that is not in the store is undefined
      behaviour, the value \<^term>\<open>None\<close>.
    \<^item> Memory allocation is a parameter (an oracle that may fail), never assumed to succeed unless a
      statement says so.
    \<^item> A loop that need not end on an arbitrary state is a \<^theory_text>\<open>partial_function (option)\<close>; that
      it ends on well-formed states is part of the theorem.  The only fuel is the nesting of rehashes
      in an insertion (an insertion made by a rehash never rehashes again on well-formed tables, so
      three levels are enough, which the proofs show by obtaining a result).
    \<^item> Assertions are compiled out of the release builds and are no branch of the model; where an
      assertion matters a property shows that it holds.  The validator of QPU programs, which only
      debug builds have, returns its message.

  \<^bold>\<open>Bounds\<close>

  The theorems on hash tables hold for the first 20 of the 31 table sizes (18 for runs, 131072
  operations), for which primality of the size and of the size less two is certified.  At the last
  size the probe arithmetic wraps in 32 bits.  Blob sizes stay below 2^63; strings are read from blobs
  below 2^31 bytes, since blob_read_string keeps the size of a string in an int.  In u_mm the heap lies in
  the range of a C int, and an allocation is known to return when its sums do not overflow it.  A u_vector
  has at most 2^31 bytes in use.  The host is little-endian with 64-bit pointers.

  \<^bold>\<open>Not modelled\<close>

  In the parts above: the branches of hash_table.c for 32-bit pointers, the range macros and C++
  wrapper of bitset.h, the spill costs of the register allocator (floating point), blob_finish and
  the functions that only print.  Of the rest of the repository: the GLSL compiler (C++), the
  rest of NIR (mutable graphs of instructions), the OpenGL state and entry points, the Gallium drivers and state trackers, command streams for
  other hardware, the window-system glue and the generated dispatch tables; the manifest gives the
  reason for each.
\<close>

end
